(* ===== verification/Prelude.thy ===== *)
theory Prelude
  imports Main "HOL-Library.Word"
begin

text \<open>
  Shared ground of the development: the outcome type of kernel code, the predicate
  \<open>ensures\<close> that states what a run returns, the constants of \<^verbatim>\<open>param.h\<close>, and the
  generic facts on lists, functions and pointer chains that the components use.

  Kernel code returns, panics, dereferences a null pointer, spins on a lock that another
  processor holds, goes to sleep until another process wakes it, or runs round a loop for
  ever, or accesses memory outside the object it works on; \<open>res\<close> has one constructor for each.
\<close>

named_theorems layout \<open>the constants of the address space\<close>
named_theorems stops \<open>operations that do not run forever\<close>

subsection \<open>Outcomes\<close>

datatype 'a res =
    Ok 'a
  | Panic string
  | NullDeref
  | Spin
  | Block
  | Diverge
  | Corrupt

primrec rbind :: "'a res \<Rightarrow> ('a \<Rightarrow> 'b res) \<Rightarrow> 'b res" where
  "rbind (Ok x) f = f x"
| "rbind (Panic msg) f = Panic msg"
| "rbind NullDeref f = NullDeref"
| "rbind Spin f = Spin"
| "rbind Block f = Block"
| "rbind Diverge f = Diverge"
| "rbind Corrupt f = Corrupt"

text \<open>\<open>ensures m Q\<close>: the run \<open>m\<close> returns, and what it returns satisfies \<open>Q\<close>.\<close>

primrec ensures :: "'a res \<Rightarrow> ('a \<Rightarrow> bool) \<Rightarrow> bool" where
  "ensures (Ok x) Q = Q x"
| "ensures (Panic msg) Q = False"
| "ensures NullDeref Q = False"
| "ensures Spin Q = False"
| "ensures Block Q = False"
| "ensures Diverge Q = False"
| "ensures Corrupt Q = False"

lemma ensures_rbind [simp]: "ensures (rbind m f) Q = ensures m (\<lambda>x. ensures (f x) Q)"
  by (cases m) simp_all

lemma ensures_iff: "ensures m Q \<longleftrightarrow> (\<exists>x. m = Ok x \<and> Q x)"
  by (cases m) simp_all

lemma ensures_mono: "ensures m P \<Longrightarrow> (\<And>x. P x \<Longrightarrow> Q x) \<Longrightarrow> ensures m Q"
  by (cases m) simp_all

lemma ensures_conj: "ensures m P \<Longrightarrow> ensures m Q \<Longrightarrow> ensures m (\<lambda>x. P x \<and> Q x)"
  by (cases m) simp_all

lemma ensuresE [elim]:
  assumes "ensures m Q"
  obtains x where "m = Ok x" "Q x"
  using assms by (cases m) simp_all

lemma ensures_OkD: "ensures m Q \<Longrightarrow> m = Ok x \<Longrightarrow> Q x"
  by simp

lemma rbind_Ok_iff: "rbind m f = Ok y \<longleftrightarrow> (\<exists>x. m = Ok x \<and> f x = Ok y)"
  by (cases m) simp_all

lemma rbind_Diverge: "rbind m f = Diverge \<longleftrightarrow> m = Diverge \<or> (\<exists>x. m = Ok x \<and> f x = Diverge)"
  by (cases m) simp_all

lemma rbind_assoc: "rbind (rbind m f) g = rbind m (\<lambda>x. rbind (f x) g)"
  by (cases m) simp_all

lemma rbind_cong [fundef_cong]:
  "m = m' \<Longrightarrow> (\<And>x. m' = Ok x \<Longrightarrow> f x = f' x) \<Longrightarrow> rbind m f = rbind m' f'"
  by (cases m') simp_all

text \<open>A loop that runs a step for each element of a list.\<close>

fun rfold :: "('a \<Rightarrow> 's \<Rightarrow> 's res) \<Rightarrow> 'a list \<Rightarrow> 's \<Rightarrow> 's res" where
  "rfold f [] s = Ok s"
| "rfold f (x # xs) s = rbind (f x s) (rfold f xs)"

lemma rfold_append: "rfold f (xs @ ys) s = rbind (rfold f xs s) (rfold f ys)"
  by (induction xs arbitrary: s) (auto simp: rbind_assoc intro!: rbind_cong)

text \<open>An invariant of such a loop, indexed by the number of steps done.\<close>

lemma rfold_upt:
  assumes "I 0 s" "\<And>k s. k < n \<Longrightarrow> I k s \<Longrightarrow> \<exists>s'. f k s = Ok s' \<and> I (Suc k) s'"
  shows "\<exists>s'. rfold f [0..<n] s = Ok s' \<and> I n s'"
  using assms(2)
proof (induction n)
  case 0
  then show ?case using assms(1) by simp
next
  case (Suc n)
  then obtain s1 where 1: "rfold f [0..<n] s = Ok s1" "I n s1" by (metis less_SucI)
  then obtain s2 where 2: "f n s1 = Ok s2" "I (Suc n) s2" using Suc.prems by blast
  then show ?case using 1 by (simp add: rfold_append)
qed

subsection \<open>Sleep channels\<close>

text \<open>What a process sleeps on: the address that \<^verbatim>\<open>sleep\<close> and \<^verbatim>\<open>wakeup\<close> are called with.\<close>

datatype chan =
    ChNull
  | ChProc nat
  | ChTicks
  | ChBuf nat
  | ChInode nat
  | ChLog
  | ChPipeRead nat
  | ChPipeWrite nat
  | ChInput

subsection \<open>Constants of \<^verbatim>\<open>param.h\<close>\<close>

text \<open>
  \<open>MAXPRIO\<close> is the value the file ships. The process-table operations take the number of
  the lowest priority as a parameter \<open>mp\<close>, so that their properties hold for every
  configuration of the multi-level feedback queue, the shipped one included.
\<close>

definition NPROC :: nat where "NPROC = 64"
definition KSTACKSIZE :: nat where "KSTACKSIZE = 4096"
definition NCPU :: nat where "NCPU = 8"
definition NOFILE :: nat where "NOFILE = 16"
definition MAXPRIO :: nat where "MAXPRIO = 0"
definition BUDGET :: "32 word" where "BUDGET = 1000"
definition TICKS_TO_PROMOTE :: "32 word" where "TICKS_TO_PROMOTE = 2500"

subsection \<open>Chains of next pointers\<close>

text \<open>
  \<open>nlist h p xs\<close>: following \<open>h\<close> from \<open>p\<close> visits the nodes \<open>xs\<close> and ends in the null
  pointer.
\<close>

type_synonym 'a ptr = "'a option"

fun nlist :: "('a \<Rightarrow> 'a ptr) \<Rightarrow> 'a ptr \<Rightarrow> 'a list \<Rightarrow> bool" where
  "nlist h p [] = (p = None)"
| "nlist h p (x # xs) = (p = Some x \<and> nlist h (h x) xs)"

fun nseg :: "('a \<Rightarrow> 'a ptr) \<Rightarrow> 'a ptr \<Rightarrow> 'a list \<Rightarrow> 'a ptr \<Rightarrow> bool" where
  "nseg h p [] q = (p = q)"
| "nseg h p (x # xs) q = (p = Some x \<and> nseg h (h x) xs q)"

lemma nlist_None [simp]: "nlist h None xs = (xs = [])"
  by (cases xs) simp_all

lemma nlist_Some: "nlist h (Some a) xs \<longleftrightarrow> (\<exists>ys. xs = a # ys \<and> nlist h (h a) ys)"
  by (cases xs) auto

lemma nlist_append: "nlist h p (xs @ ys) \<longleftrightarrow> (\<exists>q. nseg h p xs q \<and> nlist h q ys)"
  by (induction xs arbitrary: p) auto

lemma nseg_append: "nseg h p (xs @ ys) r \<longleftrightarrow> (\<exists>q. nseg h p xs q \<and> nseg h q ys r)"
  by (induction xs arbitrary: p) auto

lemma nlist_unique: "nlist h p xs \<Longrightarrow> nlist h p ys \<Longrightarrow> xs = ys"
proof (induction xs arbitrary: p ys)
  case Nil
  then show ?case by simp
next
  case (Cons x xs)
  then show ?case by (cases ys) auto
qed

lemma nlist_upd [simp]: "a \<notin> set xs \<Longrightarrow> nlist (h(a := q)) p xs = nlist h p xs"
  by (induction xs arbitrary: p) auto

lemma nseg_upd [simp]: "a \<notin> set xs \<Longrightarrow> nseg (h(a := q)) p xs r = nseg h p xs r"
  by (induction xs arbitrary: p) auto

lemma nlist_head_fresh: "nlist h (h x) xs \<Longrightarrow> x \<notin> set xs"
proof
  assume l: "nlist h (h x) xs" and "x \<in> set xs"
  then obtain ys zs where xs: "xs = ys @ x # zs" by (auto simp: in_set_conv_decomp)
  with l have "nlist h (h x) zs" by (auto simp: nlist_append)
  with l have "xs = zs" by (rule nlist_unique)
  with xs show False by (metis append_Cons append_self_conv2 length_Cons length_append
        not_add_less2 lessI)
qed

lemma nlist_distinct: "nlist h p xs \<Longrightarrow> distinct xs"
  by (induction xs arbitrary: p) (auto dest: nlist_head_fresh)

lemma nlist_head: "nlist h p xs \<Longrightarrow> p = (case xs of [] \<Rightarrow> None | x # _ \<Rightarrow> Some x)"
  by (cases xs) auto

lemma nlist_next: "nlist h p (xs @ x # ys) \<Longrightarrow> h x = (case ys of [] \<Rightarrow> None | y # _ \<Rightarrow> Some y)"
  by (cases ys) (auto simp: nlist_append)

text \<open>Walking a chain, with a bound on the number of nodes visited.\<close>

fun walk :: "nat \<Rightarrow> ('a \<Rightarrow> 'a ptr) \<Rightarrow> 'a ptr \<Rightarrow> 'a list" where
  "walk n h None = []"
| "walk 0 h (Some a) = []"
| "walk (Suc n) h (Some a) = a # walk n h (h a)"

lemma nlist_walk: "nlist h p xs \<Longrightarrow> length xs \<le> n \<Longrightarrow> walk n h p = xs"
proof (induction xs arbitrary: p n)
  case Nil
  then show ?case by simp
next
  case (Cons x xs)
  then show ?case by (cases n) auto
qed

subsection \<open>Lists and finite ranges\<close>

lemma distinct_bounded_length: "distinct xs \<Longrightarrow> set xs \<subseteq> {..<n} \<Longrightarrow> length xs \<le> n"
  using card_mono [of "{..<n}" "set xs"] by (simp add: distinct_card)

lemma remove1_middle: "x \<notin> set ys \<Longrightarrow> remove1 x (ys @ x # zs) = ys @ zs"
  by (simp add: remove1_append)

lemma set_remove1_distinct: "distinct xs \<Longrightarrow> set (remove1 x xs) = set xs - {x}"
  by (rule set_remove1_eq)

lemma last_remove1_eq:
  "distinct xs \<Longrightarrow> remove1 x xs \<noteq> [] \<Longrightarrow> last xs \<noteq> x \<Longrightarrow> last (remove1 x xs) = last xs"
  by (induction xs) (auto simp: neq_Nil_conv split: if_splits)

subsection \<open>Signed reading of 32-bit words\<close>

lemma uint_of_sint:
  fixes x :: "32 word"
  shows "uint x = (if sint x < 0 then sint x + 2 ^ 32 else sint x)"
proof -
  have "uint x = sint x mod 2 ^ 32" by (simp add: uint_sint take_bit_eq_mod)
  moreover have "- (2 ^ 31) \<le> sint x" "sint x < 2 ^ 31" using sint_ge [of x] sint_lt [of x] by simp_all
  moreover have "sint x mod 2 ^ 32 = (sint x + 2 ^ 32) mod 2 ^ 32" by simp
  ultimately show ?thesis by (auto simp: mod_pos_pos_trivial simp del: mod_add_self2)
qed

end
