(* ===== verification/StateList.thy ===== *)
theory StateList
  imports Prelude
begin

text \<open>
  The process state lists of \<^verbatim>\<open>proc.c\<close>: \<^verbatim>\<open>struct StateLists\<close>, the \<^verbatim>\<open>next\<close> field of
  \<^verbatim>\<open>struct proc\<close> that links them, and \<^verbatim>\<open>stateListAdd\<close> / \<^verbatim>\<open>stateListRemove\<close> at the level of
  pointers. A process pointer is an index into \<^verbatim>\<open>ptable.proc\<close> or the null pointer
  \<open>None\<close>; the \<^verbatim>\<open>next\<close> fields of all processes are one function, so that a list
  operation touches nothing but \<open>p_next\<close>, \<open>l_head\<close> and \<open>l_tail\<close>.

  \<open>lists_ok\<close> relates the pointers to the abstract lists they hold. The locale
  \<open>state_lists\<close> is the contract the process table relies on; it is interpreted here on
  the pointer code.
\<close>

type_synonym pptr = "nat option"

text \<open>The head and tail pointer pairs of \<^verbatim>\<open>ptable.pLists\<close>.\<close>

datatype slist = Ready nat | Free | Sleep | Zombie | Running | Embryo

record statelists =
  p_next :: "nat \<Rightarrow> pptr"
  l_head :: "slist \<Rightarrow> pptr"
  l_tail :: "slist \<Rightarrow> pptr"

subsection \<open>\<^verbatim>\<open>stateListAdd\<close> and \<^verbatim>\<open>stateListRemove\<close>\<close>

definition stateListAdd :: "slist \<Rightarrow> nat \<Rightarrow> statelists \<Rightarrow> (int \<times> statelists) res" where
  "stateListAdd l p s =
     (if l_head s l = None then
        Ok (0, s\<lparr>l_head := (l_head s)(l := Some p), l_tail := (l_tail s)(l := Some p),
                 p_next := (p_next s)(p := None)\<rparr>)
      else case l_tail s l of
        None \<Rightarrow> NullDeref
      | Some t \<Rightarrow>
          let s1 = s\<lparr>p_next := (p_next s)(t := Some p)\<rparr>;
              s2 = s1\<lparr>l_tail := (l_tail s1)(l := p_next s1 t)\<rparr>
          in case l_tail s2 l of
               None \<Rightarrow> NullDeref
             | Some t' \<Rightarrow> Ok (0, s2\<lparr>p_next := (p_next s2)(t' := None)\<rparr>))"

text \<open>
  The search loop of \<^verbatim>\<open>stateListRemove\<close>: \<open>previous\<close> and \<open>current\<close> when it stops. More
  than \<open>NPROC\<close> steps without an end means the chain has a cycle and the loop never stops.
\<close>

fun remove_loop :: "nat \<Rightarrow> (nat \<Rightarrow> pptr) \<Rightarrow> nat \<Rightarrow> pptr \<Rightarrow> pptr \<Rightarrow> (pptr \<times> pptr) option" where
  "remove_loop fuel h p previous None = Some (previous, None)"
| "remove_loop 0 h p previous (Some current) = None"
| "remove_loop (Suc fuel) h p previous (Some current) =
     (if current = p then Some (previous, Some current)
      else remove_loop fuel h p (Some current) (h current))"

definition stateListRemove :: "slist \<Rightarrow> pptr \<Rightarrow> statelists \<Rightarrow> (int \<times> statelists) res" where
  "stateListRemove l pp s =
     (case (l_head s l, l_tail s l, pp) of
        (Some head, Some tail, Some p) \<Rightarrow>
          if head = p then Ok (0, s\<lparr>l_head := (l_head s)(l := p_next s head)\<rparr>)
          else (case remove_loop NPROC (p_next s) p None (Some head) of
                  None \<Rightarrow> Diverge
                | Some (previous, None) \<Rightarrow> Ok (-1, s)
                | Some (None, Some current) \<Rightarrow> NullDeref
                | Some (Some previous, Some current) \<Rightarrow>
                    let s1 = (if current = tail
                              then s\<lparr>l_tail := (l_tail s)(l := Some previous),
                                     p_next := (p_next s)(previous := None)\<rparr>
                              else s\<lparr>p_next := (p_next s)(previous := p_next s current)\<rparr>)
                    in Ok (0, s1\<lparr>p_next := (p_next s1)(p := None)\<rparr>))
      | _ \<Rightarrow> Ok (-1, s))"

text \<open>
  The search loops of \<^verbatim>\<open>proc.c\<close>, \<^verbatim>\<open>while (curr != 0) { if (...) ...; curr = curr->next; }\<close>:
  the first node on the chain that satisfies the test.
\<close>

fun find_loop :: "nat \<Rightarrow> (nat \<Rightarrow> bool) \<Rightarrow> (nat \<Rightarrow> pptr) \<Rightarrow> pptr \<Rightarrow> pptr res" where
  "find_loop fuel P h None = Ok None"
| "find_loop 0 P h (Some cur) = Diverge"
| "find_loop (Suc fuel) P h (Some cur) =
     (if P cur then Ok (Some cur) else find_loop fuel P h (h cur))"

definition find_list :: "(nat \<Rightarrow> bool) \<Rightarrow> slist \<Rightarrow> statelists \<Rightarrow> pptr res" where
  "find_list P l s = find_loop NPROC P (p_next s) (l_head s l)"

text \<open>The same search over the ready lists, level by level: the level and the node.\<close>

fun find_levels :: "(nat \<Rightarrow> bool) \<Rightarrow> nat list \<Rightarrow> statelists \<Rightarrow> (nat \<times> nat) option res" where
  "find_levels P [] s = Ok None"
| "find_levels P (i # is) s =
     rbind (find_list P (Ready i) s)
       (\<lambda>r. case r of Some p \<Rightarrow> Ok (Some (i, p)) | None \<Rightarrow> find_levels P is s)"

subsection \<open>\<^verbatim>\<open>initProcessLists\<close>\<close>

text \<open>
  The loop over the ready lists clears the levels up to the lowest priority; the other
  five lists are cleared one by one.
\<close>

definition initProcessLists :: "nat \<Rightarrow> statelists \<Rightarrow> statelists" where
  "initProcessLists mp s =
     s\<lparr>l_head := (\<lambda>l. case l of Ready i \<Rightarrow> if i < mp + 1 then None else l_head s l | _ \<Rightarrow> None),
       l_tail := (\<lambda>l. case l of Ready i \<Rightarrow> if i < mp + 1 then None else l_tail s l | _ \<Rightarrow> None)\<rparr>"

subsection \<open>The lists the pointers hold\<close>

definition list_ok :: "statelists \<Rightarrow> slist \<Rightarrow> nat list \<Rightarrow> bool" where
  "list_ok s l xs \<longleftrightarrow> nlist (p_next s) (l_head s l) xs \<and> (xs \<noteq> [] \<longrightarrow> l_tail s l = Some (last xs))"

definition lists_ok :: "statelists \<Rightarrow> (slist \<Rightarrow> nat list) \<Rightarrow> bool" where
  "lists_ok s A \<longleftrightarrow>
     (\<forall>l. list_ok s l (A l)) \<and> (\<forall>l. set (A l) \<subseteq> {..<NPROC}) \<and>
     (\<forall>l l'. l \<noteq> l' \<longrightarrow> set (A l) \<inter> set (A l') = {})"

text \<open>The abstract content of a list, computed by walking it.\<close>

definition contents :: "statelists \<Rightarrow> slist \<Rightarrow> nat list" where
  "contents s l = walk NPROC (p_next s) (l_head s l)"

lemma list_ok_distinct: "list_ok s l xs \<Longrightarrow> distinct xs"
  by (auto simp: list_ok_def dest: nlist_distinct)

lemma lists_ok_list: "lists_ok s A \<Longrightarrow> list_ok s l (A l)"
  by (simp add: lists_ok_def)

lemma lists_ok_distinct: "lists_ok s A \<Longrightarrow> distinct (A l)"
  by (blast intro: list_ok_distinct lists_ok_list)

lemma lists_ok_bound: "lists_ok s A \<Longrightarrow> i \<in> set (A l) \<Longrightarrow> i < NPROC"
  by (auto simp: lists_ok_def)

lemma lists_ok_length: "lists_ok s A \<Longrightarrow> length (A l) \<le> NPROC"
  by (rule distinct_bounded_length) (auto simp: lists_ok_distinct lists_ok_def)

lemma lists_ok_same: "lists_ok s A \<Longrightarrow> i \<in> set (A l) \<Longrightarrow> i \<in> set (A l') \<Longrightarrow> l = l'"
  unfolding lists_ok_def by blast

lemma lists_ok_head: "lists_ok s A \<Longrightarrow> l_head s l = (case A l of [] \<Rightarrow> None | x # _ \<Rightarrow> Some x)"
  using lists_ok_list [of s A l] by (auto simp: list_ok_def dest: nlist_head)

lemma lists_ok_nlist: "lists_ok s A \<Longrightarrow> nlist (p_next s) (l_head s l) (A l)"
  using lists_ok_list [of s A l] by (simp add: list_ok_def)

lemma lists_ok_next:
  "lists_ok s A \<Longrightarrow> A l = xs @ x # ys \<Longrightarrow> p_next s x = (case ys of [] \<Rightarrow> None | y # _ \<Rightarrow> Some y)"
  using lists_ok_nlist [of s A l] by (auto intro: nlist_next)

lemma lists_ok_contents: "lists_ok s A \<Longrightarrow> contents s l = A l"
  unfolding contents_def by (blast intro: nlist_walk lists_ok_nlist lists_ok_length)

lemma lists_ok_unique: "lists_ok s A \<Longrightarrow> lists_ok s B \<Longrightarrow> A = B"
  by (metis ext lists_ok_contents)

text \<open>A list is unaffected when the nodes written to are not on it.\<close>

lemma list_ok_frame:
  "list_ok s l xs \<Longrightarrow> (\<And>x. x \<in> set xs \<Longrightarrow> p_next s' x = p_next s x) \<Longrightarrow>
   l_head s' l = l_head s l \<Longrightarrow> l_tail s' l = l_tail s l \<Longrightarrow> list_ok s' l xs"
proof -
  have cong: "(\<And>x. x \<in> set ys \<Longrightarrow> h' x = h x) \<Longrightarrow> nlist h' q ys = nlist h q ys"
    for h h' :: "nat \<Rightarrow> pptr" and ys q
    by (induction ys arbitrary: q) auto
  assume "list_ok s l xs" "\<And>x. x \<in> set xs \<Longrightarrow> p_next s' x = p_next s x"
    "l_head s' l = l_head s l" "l_tail s' l = l_tail s l"
  then show ?thesis using cong [of xs "p_next s'" "p_next s"] by (simp add: list_ok_def)
qed

lemma lists_okI:
  assumes ok: "lists_ok s A"
    and l: "list_ok s' l xs" "set xs \<subseteq> {..<NPROC}" "\<And>l'. l' \<noteq> l \<Longrightarrow> set xs \<inter> set (A l') = {}"
    and fr: "\<And>l' x. l' \<noteq> l \<Longrightarrow> x \<in> set (A l') \<Longrightarrow> p_next s' x = p_next s x"
      "\<And>l'. l' \<noteq> l \<Longrightarrow> l_head s' l' = l_head s l'" "\<And>l'. l' \<noteq> l \<Longrightarrow> l_tail s' l' = l_tail s l'"
  shows "lists_ok s' (A(l := xs))"
proof -
  have "list_ok s' l' ((A(l := xs)) l')" for l'
    using l(1) fr list_ok_frame [OF lists_ok_list [OF ok, of l'], of s'] by simp
  moreover have "set ((A(l := xs)) l') \<subseteq> {..<NPROC}" for l'
    using ok l(2) by (simp add: lists_ok_def)
  moreover have "set ((A(l := xs)) l1) \<inter> set ((A(l := xs)) l2) = {}" if "l1 \<noteq> l2" for l1 l2
    using ok l(3) that by (auto simp: lists_ok_def)
  ultimately show ?thesis unfolding lists_ok_def by blast
qed

subsection \<open>The pointer code implements the list operations\<close>

lemma remove_loop_found:
  "nlist h c (ys @ p # zs) \<Longrightarrow> p \<notin> set ys \<Longrightarrow> length ys < fuel \<Longrightarrow>
   remove_loop fuel h p previous c = Some (if ys = [] then previous else Some (last ys), Some p)"
proof (induction ys arbitrary: fuel c previous)
  case Nil
  then show ?case by (cases fuel) auto
next
  case (Cons y ys)
  then show ?case by (cases fuel) auto
qed

lemma remove_loop_absent:
  "nlist h c xs \<Longrightarrow> p \<notin> set xs \<Longrightarrow> length xs \<le> fuel \<Longrightarrow>
   \<exists>previous'. remove_loop fuel h p previous c = Some (previous', None)"
proof (induction xs arbitrary: fuel c previous)
  case Nil
  then show ?case by (cases fuel) auto
next
  case (Cons y ys)
  then show ?case by (cases fuel) auto
qed

lemma stateListAdd_ok:
  assumes ok: "lists_ok s A" and p: "p < NPROC" and fresh: "\<And>l'. p \<notin> set (A l')"
  shows "ensures (stateListAdd l p s) (\<lambda>(rc, s'). rc = 0 \<and> lists_ok s' (A(l := A l @ [p])))"
proof (cases "A l" rule: rev_cases)
  case Nil
  then have "l_head s l = None" using lists_ok_head [OF ok, of l] by simp
  then show ?thesis unfolding stateListAdd_def using Nil p fresh
    by (auto intro!: lists_okI [OF ok] simp: list_ok_def)
next
  case (snoc ys t)
  then have hd: "l_head s l \<noteq> None" and nl: "nlist (p_next s) (l_head s l) (ys @ [t])"
    using lists_ok_head [OF ok, of l] lists_ok_nlist [OF ok, of l]
    by (auto split: list.splits)
  have tl: "l_tail s l = Some t" using lists_ok_list [OF ok, of l] snoc by (simp add: list_ok_def)
  have tp: "t \<noteq> p" "p \<notin> set ys" using fresh [of l] snoc by auto
  have t: "t \<notin> set ys" using lists_ok_distinct [OF ok, of l] snoc by simp
  have other: "x \<noteq> t \<and> x \<noteq> p" if "x \<in> set (A l')" "l' \<noteq> l" for x l'
    using that fresh [of l'] lists_ok_same [OF ok, of t l' l] snoc by auto
  have dis: "set (A l @ [p]) \<inter> set (A l') = {}" if "l' \<noteq> l" for l'
    using that ok fresh [of l'] unfolding lists_ok_def by auto
  have sub: "set (A l @ [p]) \<subseteq> {..<NPROC}" using p lists_ok_bound [OF ok, of _ l] by auto
  let ?s2 = "s\<lparr>p_next := (p_next s)(t := Some p, p := None), l_tail := (l_tail s)(l := Some p)\<rparr>"
  have "list_ok ?s2 l (A l @ [p])"
    using nl tp t snoc by (auto simp: list_ok_def nlist_append)
  then have "lists_ok ?s2 (A(l := A l @ [p]))"
    using sub dis other by (intro lists_okI [OF ok]) auto
  moreover have "stateListAdd l p s = Ok (0, ?s2)"
    using hd tl by (auto simp: stateListAdd_def)
  ultimately show ?thesis by simp
qed

lemma stateListRemove_ok:
  assumes ok: "lists_ok s A" and p: "p \<in> set (A l)"
  shows "ensures (stateListRemove l (Some p) s)
           (\<lambda>(rc, s'). rc = 0 \<and> lists_ok s' (A(l := remove1 p (A l))))"
proof -
  obtain ys zs where A: "A l = ys @ p # zs" using p by (auto simp: in_set_conv_decomp)
  have d: "distinct (ys @ p # zs)" using lists_ok_distinct [OF ok, of l] A by simp
  have nl: "nlist (p_next s) (l_head s l) (ys @ p # zs)"
    and tl: "l_tail s l = Some (last (ys @ p # zs))"
    using lists_ok_list [OF ok, of l] A by (simp_all add: list_ok_def)
  have len: "length ys < NPROC" using lists_ok_length [OF ok, of l] A by simp
  have rm: "remove1 p (A l) = ys @ zs" using d A by (simp add: remove1_middle)
  have other: "x \<notin> set (ys @ p # zs)" if "x \<in> set (A l')" "l' \<noteq> l" for x l'
    using that lists_ok_same [OF ok, of x l' l] A by auto
  have sub: "set (ys @ zs) \<subseteq> {..<NPROC}" using lists_ok_bound [OF ok, of _ l] A by auto
  have dis: "set (ys @ zs) \<inter> set (A l') = {}" if "l' \<noteq> l" for l' using that other by fastforce
  show ?thesis
  proof (cases ys rule: rev_cases)
    case Nil
    then have hd: "l_head s l = Some p" using nl by simp
    have "lists_ok (s\<lparr>l_head := (l_head s)(l := p_next s p)\<rparr>) (A(l := zs))"
      using nl tl Nil sub dis by (intro lists_okI [OF ok]) (auto simp: list_ok_def)
    then show ?thesis using hd tl Nil rm by (simp add: stateListRemove_def)
  next
    case (snoc ws q)
    obtain a where hd: "l_head s l = Some a" and a: "a \<noteq> p"
      using nl d snoc by (cases ws) auto
    have loop: "remove_loop NPROC (p_next s) p None (Some a) = Some (Some q, Some p)"
      using remove_loop_found [of "p_next s" "Some a" ys p zs NPROC None] nl hd d len snoc by simp
    have np: "p_next s p = (case zs of [] \<Rightarrow> None | z # _ \<Rightarrow> Some z)" using nl by (rule nlist_next)
    let ?s1 = "if p = last (ys @ p # zs)
               then s\<lparr>l_tail := (l_tail s)(l := Some q), p_next := (p_next s)(q := None)\<rparr>
               else s\<lparr>p_next := (p_next s)(q := p_next s p)\<rparr>"
    let ?s2 = "?s1\<lparr>p_next := (p_next ?s1)(p := None)\<rparr>"
    have "list_ok ?s2 l (ws @ q # zs)"
      using nl d np tl snoc by (cases zs) (auto simp: list_ok_def nlist_append nlist_Some)
    then have "lists_ok ?s2 (A(l := ys @ zs))"
      using snoc sub dis other by (intro lists_okI [OF ok]) auto
    moreover have "stateListRemove l (Some p) s = Ok (0, ?s2)"
      using hd a tl loop by (simp add: stateListRemove_def Let_def)
    ultimately show ?thesis using rm by simp
  qed
qed

lemma stateListRemove_absent:
  assumes ok: "lists_ok s A" and p: "p \<notin> set (A l)"
  shows "stateListRemove l (Some p) s = Ok (-1, s)"
proof (cases "A l")
  case Nil
  then have "l_head s l = None" using lists_ok_head [OF ok, of l] by simp
  then show ?thesis by (simp add: stateListRemove_def)
next
  case (Cons a xs)
  then have hd: "l_head s l = Some a" using lists_ok_head [OF ok, of l] by simp
  obtain q where "remove_loop NPROC (p_next s) p None (Some a) = Some (q, None)"
    using remove_loop_absent [OF lists_ok_nlist [OF ok, of l] p lists_ok_length [OF ok]] hd by auto
  moreover have "a \<noteq> p" using p Cons by auto
  ultimately show ?thesis using hd by (auto simp: stateListRemove_def split: option.splits)
qed

lemma stateListRemove_None [simp]: "stateListRemove l None s = Ok (-1, s)"
  by (simp add: stateListRemove_def split: option.splits)

lemma find_loop_find:
  "nlist h c xs \<Longrightarrow> length xs \<le> fuel \<Longrightarrow> find_loop fuel P h c = Ok (find P xs)"
proof (induction xs arbitrary: fuel c)
  case Nil
  then show ?case by (cases fuel) auto
next
  case (Cons y ys)
  then show ?case by (cases fuel) auto
qed

lemma find_list_find: "lists_ok s A \<Longrightarrow> find_list P l s = Ok (find P (A l))"
  unfolding find_list_def by (blast intro: find_loop_find lists_ok_nlist lists_ok_length)

fun first_level :: "(nat \<Rightarrow> bool) \<Rightarrow> nat list \<Rightarrow> (slist \<Rightarrow> nat list) \<Rightarrow> (nat \<times> nat) option" where
  "first_level P [] A = None"
| "first_level P (i # is) A =
     (case find P (A (Ready i)) of Some p \<Rightarrow> Some (i, p) | None \<Rightarrow> first_level P is A)"

lemma find_levels_first: "lists_ok s A \<Longrightarrow> find_levels P is s = Ok (first_level P is A)"
  by (induction "is") (auto simp: find_list_find split: option.splits)

lemma find_SomeD: "find P xs = Some x \<Longrightarrow> x \<in> set xs \<and> P x"
  by (auto simp: find_Some_iff in_set_conv_nth)

lemma first_level_Some:
  "first_level P is A = Some (i, p) \<Longrightarrow> i \<in> set is \<and> p \<in> set (A (Ready i)) \<and> P p"
  by (induction "is") (auto simp: find_Some_iff in_set_conv_nth split: option.splits)

lemma first_level_None:
  "first_level P is A = None \<longleftrightarrow> (\<forall>i \<in> set is. \<forall>p \<in> set (A (Ready i)). \<not> P p)"
  by (induction "is") (auto simp: find_None_iff dest: find_SomeD split: option.splits)

lemma initProcessLists_ok:
  assumes "\<And>i. mp < i \<Longrightarrow> l_head s (Ready i) = None"
  shows "lists_ok (initProcessLists mp s) (\<lambda>_. [])"
  using assms by (auto simp: lists_ok_def list_ok_def initProcessLists_def split: slist.splits)

subsection \<open>The contract of the state lists\<close>

text \<open>
  What \<^verbatim>\<open>proc.c\<close> relies on: a process that is on no list can be appended to one, a process
  on a list can be taken off it, and removing a process that is not there reports -1 and
  changes nothing. The lemma \<open>move\<close> is the transition every state change of the kernel is
  made of.
\<close>

text \<open>Process \<open>p\<close> leaves list \<open>l\<close> and joins the end of list \<open>l'\<close>.\<close>

definition moved :: "'p \<Rightarrow> 'l \<Rightarrow> 'l \<Rightarrow> ('l \<Rightarrow> 'p list) \<Rightarrow> 'l \<Rightarrow> 'p list" where
  "moved p l l' A = (let B = A(l := remove1 p (A l)) in B(l' := B l' @ [p]))"

locale state_lists =
  fixes add :: "'l \<Rightarrow> 'p \<Rightarrow> 's \<Rightarrow> (int \<times> 's) res"
    and rem :: "'l \<Rightarrow> 'p option \<Rightarrow> 's \<Rightarrow> (int \<times> 's) res"
    and rep :: "'s \<Rightarrow> ('l \<Rightarrow> 'p list) \<Rightarrow> bool"
    and valid :: "'p \<Rightarrow> bool"
  assumes add_ok: "rep s A \<Longrightarrow> valid p \<Longrightarrow> (\<And>l'. p \<notin> set (A l')) \<Longrightarrow>
      ensures (add l p s) (\<lambda>(rc, s'). rc = 0 \<and> rep s' (A(l := A l @ [p])))"
    and rem_ok: "rep s A \<Longrightarrow> p \<in> set (A l) \<Longrightarrow>
      ensures (rem l (Some p) s) (\<lambda>(rc, s'). rc = 0 \<and> rep s' (A(l := remove1 p (A l))))"
    and rem_absent: "rep s A \<Longrightarrow> p \<notin> set (A l) \<Longrightarrow> rem l (Some p) s = Ok (-1, s)"
    and rep_distinct: "rep s A \<Longrightarrow> distinct (A l)"
    and rep_same: "rep s A \<Longrightarrow> p \<in> set (A l) \<Longrightarrow> p \<in> set (A l') \<Longrightarrow> l = l'"
    and rep_valid: "rep s A \<Longrightarrow> p \<in> set (A l) \<Longrightarrow> valid p"
begin

lemma removed_fresh:
  assumes "rep s A" "p \<in> set (A l)"
  shows "p \<notin> set ((A(l := remove1 p (A l))) l')"
proof (cases "l' = l")
  case True
  then show ?thesis using rep_distinct [OF assms(1), of l] by simp
next
  case False
  then show ?thesis using rep_same [OF assms] by auto
qed

lemma move:
  assumes rep: "rep s A" and p: "p \<in> set (A l)"
  shows "ensures (rem l (Some p) s)
           (\<lambda>(rc, s1). rc = 0 \<and> ensures (add l' p s1) (\<lambda>(rc', s2). rc' = 0 \<and> rep s2 (moved p l l' A)))"
proof (rule ensures_mono [OF rem_ok [OF rep p]], clarsimp)
  fix s1 assume "rep s1 (A(l := remove1 p (A l)))"
  then show "ensures (add l' p s1) (\<lambda>(rc', s2). rc' = 0 \<and> rep s2 (moved p l l' A))"
    unfolding moved_def Let_def
    by (rule add_ok [OF _ rep_valid [OF rep p]]) (rule removed_fresh [OF rep p])
qed

lemma moved_set:
  assumes "rep s A" "p \<in> set (A l)"
  shows "set (moved p l l' A k) = (if k = l' then insert p (set (A k)) else set (A k) - (if k = l then {p} else {}))"
  using assms(2) rep_distinct [OF assms(1), of l] by (auto simp: moved_def Let_def)

end

interpretation sl: state_lists stateListAdd stateListRemove lists_ok "\<lambda>p. p < NPROC"
proof
  show "ensures (stateListAdd l p s) (\<lambda>(rc, s'). rc = 0 \<and> lists_ok s' (A(l := A l @ [p])))"
    if "lists_ok s A" "p < NPROC" "\<And>l'. p \<notin> set (A l')" for s A p l
    using that by (rule stateListAdd_ok)
qed (simp_all add: stateListRemove_ok stateListRemove_absent lists_ok_distinct lists_ok_same lists_ok_bound)

end
