(* ===== verification/Spinlock.thy ===== *)
theory Spinlock
  imports Prelude
begin

text \<open>
  Spin locks and interrupt nesting, \<^verbatim>\<open>spinlock.c\<close>. A processor is the part of
  \<^verbatim>\<open>struct cpu\<close> the locks and the scheduler use: the interrupt flag of its \<^verbatim>\<open>eflags\<close>, the
  depth \<open>c_ncli\<close> of \<^verbatim>\<open>pushcli\<close>, the saved flag \<open>c_intena\<close>, the current process, and the two
  registers \<^verbatim>\<open>switchuvm\<close> loads: the page directory and the kernel stack of the task state. A lock
  is its \<open>locked\<close> word and the processor that holds it; the call stack and the name it
  also records are for debugging and no code reads them back.

  \<^verbatim>\<open>acquire\<close> spins while another processor holds the lock: the outcome is then \<open>Spin\<close>, and
  the theorems about clients say that they start from a free lock.
\<close>

record cpu =
  c_ncli :: int
  c_intena :: bool
  c_if :: bool
  c_proc :: "nat option"
  c_cr3 :: "32 word"
  c_esp0 :: "32 word"

record spinlock =
  locked :: bool
  lk_cpu :: "nat option"

definition initlock :: "spinlock \<Rightarrow> spinlock" where
  "initlock lk = lk\<lparr>locked := False, lk_cpu := None\<rparr>"

definition holding :: "nat \<Rightarrow> spinlock \<Rightarrow> bool" where
  "holding c lk \<longleftrightarrow> locked lk \<and> lk_cpu lk = Some c"

definition pushcli :: "cpu \<Rightarrow> cpu" where
  "pushcli cp =
     (let eflags_if = c_if cp;
          cp1 = cp\<lparr>c_if := False\<rparr>;
          cp2 = cp1\<lparr>c_ncli := c_ncli cp1 + 1\<rparr>
      in if c_ncli cp1 = 0 then cp2\<lparr>c_intena := eflags_if\<rparr> else cp2)"

definition popcli :: "cpu \<Rightarrow> cpu res" where
  "popcli cp =
     (if c_if cp then Panic ''popcli - interruptible''
      else let cp1 = cp\<lparr>c_ncli := c_ncli cp - 1\<rparr>
           in if c_ncli cp1 < 0 then Panic ''popcli''
              else Ok (if c_ncli cp1 = 0 \<and> c_intena cp1 then cp1\<lparr>c_if := True\<rparr> else cp1))"

definition acquire :: "nat \<Rightarrow> cpu \<times> spinlock \<Rightarrow> (cpu \<times> spinlock) res" where
  "acquire c = (\<lambda>(cp, lk).
     let cp1 = pushcli cp
     in if holding c lk then Panic ''acquire''
        else if locked lk then Spin
        else Ok (cp1, lk\<lparr>locked := True, lk_cpu := Some c\<rparr>))"

definition release :: "nat \<Rightarrow> cpu \<times> spinlock \<Rightarrow> (cpu \<times> spinlock) res" where
  "release c = (\<lambda>(cp, lk).
     if \<not> holding c lk then Panic ''release''
     else rbind (popcli cp) (\<lambda>cp1. Ok (cp1, lk\<lparr>locked := False, lk_cpu := None\<rparr>)))"

text \<open>
  \<^verbatim>\<open>getcallerpcs\<close> follows the chain of saved frame pointers from the address \<open>v\<close> of the
  first argument. \<open>load\<close> reads the word at an address of the kernel stack.
\<close>

definition KERNBASE :: "32 word" where "KERNBASE = 0x80000000"

fun callerpcs_loop :: "(32 word \<Rightarrow> 32 word) \<Rightarrow> nat \<Rightarrow> 32 word \<Rightarrow> 32 word list" where
  "callerpcs_loop load 0 ebp = []"
| "callerpcs_loop load (Suc n) ebp =
     (if ebp = 0 \<or> ebp < KERNBASE \<or> ebp = 0xffffffff then replicate (Suc n) 0
      else load (ebp + 4) # callerpcs_loop load n (load ebp))"

definition getcallerpcs :: "(32 word \<Rightarrow> 32 word) \<Rightarrow> 32 word \<Rightarrow> 32 word list" where
  "getcallerpcs load v = callerpcs_loop load 10 (v - 8)"

subsection \<open>Nesting of interrupt disabling\<close>

text \<open>A processor between critical sections: either nothing is pushed, or interrupts are off.\<close>

definition cpu_ok :: "cpu \<Rightarrow> bool" where
  "cpu_ok cp \<longleftrightarrow> 0 \<le> c_ncli cp \<and> (0 < c_ncli cp \<longrightarrow> \<not> c_if cp)"

lemma pushcli_ok: "cpu_ok cp \<Longrightarrow> cpu_ok (pushcli cp) \<and> 0 < c_ncli (pushcli cp) \<and> \<not> c_if (pushcli cp)"
  by (auto simp: pushcli_def cpu_ok_def Let_def)

lemma pushcli_fields [simp]:
  "c_proc (pushcli cp) = c_proc cp" "c_cr3 (pushcli cp) = c_cr3 cp" "c_esp0 (pushcli cp) = c_esp0 cp"
  "c_ncli (pushcli cp) = c_ncli cp + 1" "\<not> c_if (pushcli cp)"
  by (auto simp: pushcli_def Let_def)

lemma popcli_pushcli:
  assumes "cpu_ok cp"
  shows "\<exists>cp'. popcli (pushcli cp) = Ok cp' \<and> c_if cp' = c_if cp \<and> c_ncli cp' = c_ncli cp \<and>
           c_proc cp' = c_proc cp \<and> (0 < c_ncli cp \<longrightarrow> cp' = cp)"
  using assms by (cases cp) (auto simp: pushcli_def popcli_def cpu_ok_def Let_def)

lemma callerpcs_loop_length [simp]: "length (callerpcs_loop load n ebp) = n"
  by (induction n arbitrary: ebp) auto

lemma acquire_ok:
  "\<not> locked lk \<Longrightarrow> acquire c (cp, lk) = Ok (pushcli cp, lk\<lparr>locked := True, lk_cpu := Some c\<rparr>)"
  by (simp add: acquire_def holding_def)

lemma release_ok:
  "holding c lk \<Longrightarrow> \<not> c_if cp \<Longrightarrow> 0 < c_ncli cp \<Longrightarrow>
   release c (cp, lk) =
     Ok (let cp1 = cp\<lparr>c_ncli := c_ncli cp - 1\<rparr>
         in if c_ncli cp1 = 0 \<and> c_intena cp1 then cp1\<lparr>c_if := True\<rparr> else cp1,
         lk\<lparr>locked := False, lk_cpu := None\<rparr>)"
  by (simp add: release_def popcli_def Let_def)

end
