(* ===== verification/Ptable.thy ===== *)
theory Ptable
  imports StateList Spinlock
begin

text \<open>
  The process table of \<^verbatim>\<open>proc.c\<close> in the configuration \<^verbatim>\<open>CS333_P3P4\<close>: \<^verbatim>\<open>struct proc\<close>, the
  table with its lock, and the operations that move processes between the state lists. An
  operation that ends in a context switch is modelled up to the call of \<^verbatim>\<open>swtch\<close>; the code
  that runs when the process is resumed is a definition of its own (\<open>..._resume\<close>).

  Each operation takes the number \<open>c\<close> of the processor that runs it; \<^verbatim>\<open>proc\<close> is
  \<open>c_proc (cpus s c)\<close>. The state is a record scheme, so that the operations run unchanged
  on the larger kernel state of the later theories.
\<close>

subsection \<open>\<^verbatim>\<open>struct proc\<close>\<close>

datatype procstate = UNUSED | EMBRYO | SLEEPING | RUNNABLE | RUNNING | ZOMBIE

record trapframe =
  tf_edi :: "32 word"
  tf_esi :: "32 word"
  tf_ebp :: "32 word"
  tf_oesp :: "32 word"
  tf_ebx :: "32 word"
  tf_edx :: "32 word"
  tf_ecx :: "32 word"
  tf_eax :: "32 word"
  tf_gs :: "16 word"
  tf_fs :: "16 word"
  tf_es :: "16 word"
  tf_ds :: "16 word"
  tf_trapno :: "32 word"
  tf_err :: "32 word"
  tf_eip :: "32 word"
  tf_cs :: "16 word"
  tf_eflags :: "32 word"
  tf_esp :: "32 word"
  tf_ss :: "16 word"

record proc =
  p_sz :: "32 word"
  p_pgdir :: "32 word"
  p_kstack :: "32 word"
  p_state :: procstate
  p_pid :: "32 word"
  p_parent :: pptr
  p_tf :: trapframe
  p_eip :: "32 word"
  p_chan :: chan
  p_killed :: bool
  p_ofile :: "nat option list"
  p_cwd :: "nat option"
  p_name :: string
  p_start_ticks :: "32 word"
  p_uid :: "32 word"
  p_gid :: "32 word"
  p_cpu_ticks_total :: "32 word"
  p_cpu_ticks_in :: "32 word"
  p_budget :: "32 word"
  p_priority :: int

record ptable =
  pt_proc :: "nat \<Rightarrow> proc"
  pLists :: statelists
  PromoteAtTime :: "32 word"
  initproc :: pptr
  nextpid :: "32 word"
  ticks :: "32 word"
  pt_lock :: spinlock
  cpus :: "nat \<Rightarrow> cpu"
  kpgdir :: "32 word"

subsection \<open>Access to the table\<close>

definition upd_proc :: "nat \<Rightarrow> (proc \<Rightarrow> proc) \<Rightarrow> 'a ptable_scheme \<Rightarrow> 'a ptable_scheme" where
  "upd_proc p f s = s\<lparr>pt_proc := (pt_proc s)(p := f (pt_proc s p))\<rparr>"

definition upd_cpu :: "nat \<Rightarrow> (cpu \<Rightarrow> cpu) \<Rightarrow> 'a ptable_scheme \<Rightarrow> 'a ptable_scheme" where
  "upd_cpu c f s = s\<lparr>cpus := (cpus s)(c := f (cpus s c))\<rparr>"

text \<open>A use of the current process \<^verbatim>\<open>proc\<close>: a null dereference when the processor has none.\<close>

definition with_proc :: "nat \<Rightarrow> 'a ptable_scheme \<Rightarrow> (nat \<Rightarrow> 'b res) \<Rightarrow> 'b res" where
  "with_proc c s f = (case c_proc (cpus s c) of None \<Rightarrow> NullDeref | Some p \<Rightarrow> f p)"

definition acquire_pt :: "nat \<Rightarrow> 'a ptable_scheme \<Rightarrow> 'a ptable_scheme res" where
  "acquire_pt c s = rbind (acquire c (cpus s c, pt_lock s))
     (\<lambda>(cp, lk). Ok (s\<lparr>cpus := (cpus s)(c := cp), pt_lock := lk\<rparr>))"

definition release_pt :: "nat \<Rightarrow> 'a ptable_scheme \<Rightarrow> 'a ptable_scheme res" where
  "release_pt c s = rbind (release c (cpus s c, pt_lock s))
     (\<lambda>(cp, lk). Ok (s\<lparr>cpus := (cpus s)(c := cp), pt_lock := lk\<rparr>))"

definition slAdd :: "slist \<Rightarrow> nat \<Rightarrow> 'a ptable_scheme \<Rightarrow> (int \<times> 'a ptable_scheme) res" where
  "slAdd l p s = rbind (stateListAdd l p (pLists s)) (\<lambda>(rc, ls). Ok (rc, s\<lparr>pLists := ls\<rparr>))"

definition slRemove :: "slist \<Rightarrow> pptr \<Rightarrow> 'a ptable_scheme \<Rightarrow> (int \<times> 'a ptable_scheme) res" where
  "slRemove l p s = rbind (stateListRemove l p (pLists s)) (\<lambda>(rc, ls). Ok (rc, s\<lparr>pLists := ls\<rparr>))"

definition assertState :: "nat \<Rightarrow> procstate \<Rightarrow> 'a ptable_scheme \<Rightarrow> unit res" where
  "assertState p st s =
     (if p_state (pt_proc s p) \<noteq> st then Panic ''Assert State failure.\<newline>'' else Ok ())"

text \<open>
  The sequence every state change of \<^verbatim>\<open>proc.c\<close> is written as: take \<open>p\<close> off list \<open>l\<close>, check
  its state, update its fields, append it to the list \<open>l'\<close> (computed after the update, as
  \<^verbatim>\<open>ready[p->priority]\<close> is), and panic if either list operation failed.
\<close>

definition slChange :: "slist \<Rightarrow> nat \<Rightarrow> procstate \<Rightarrow> (proc \<Rightarrow> proc) \<Rightarrow> (proc \<Rightarrow> slist) \<Rightarrow> string \<Rightarrow>
    'a ptable_scheme \<Rightarrow> 'a ptable_scheme res" where
  "slChange l p st f l' msg s =
     rbind (slRemove l (Some p) s) (\<lambda>(rc, s1).
     rbind (assertState p st s1) (\<lambda>_.
     let s2 = upd_proc p f s1 in
     rbind (slAdd (l' (pt_proc s2 p)) p s2) (\<lambda>(rc', s3).
     if rc + rc' \<noteq> 0 then Panic msg else Ok s3)))"

definition ready_of :: "proc \<Rightarrow> slist" where
  "ready_of pr = Ready (nat (p_priority pr))"

subsection \<open>Locks and initialisation\<close>

definition pinit :: "'a ptable_scheme \<Rightarrow> 'a ptable_scheme" where
  "pinit s = s\<lparr>pt_lock := initlock (pt_lock s)\<rparr>"

definition getlock :: "nat \<Rightarrow> 'a ptable_scheme \<Rightarrow> (int \<times> 'a ptable_scheme) res" where
  "getlock c s = rbind (acquire_pt c s) (\<lambda>s1. Ok (1, s1))"

definition freelock :: "nat \<Rightarrow> 'a ptable_scheme \<Rightarrow> (int \<times> 'a ptable_scheme) res" where
  "freelock c s = rbind (release_pt c s) (\<lambda>s1. Ok (1, s1))"

fun initFreeList_loop :: "nat list \<Rightarrow> 'a ptable_scheme \<Rightarrow> 'a ptable_scheme res" where
  "initFreeList_loop [] s = Ok s"
| "initFreeList_loop (p # ps) s =
     rbind (slAdd Free p (upd_proc p (\<lambda>pr. pr\<lparr>p_state := UNUSED\<rparr>) s))
       (\<lambda>(rc, s1). initFreeList_loop ps s1)"

definition initFreeList :: "nat \<Rightarrow> 'a ptable_scheme \<Rightarrow> 'a ptable_scheme res" where
  "initFreeList c s =
     (if \<not> holding c (pt_lock s) then Panic ''acquire the ptable lock before calling initFreeList\<newline>''
      else initFreeList_loop [0..<NPROC] s)"

subsection \<open>\<^verbatim>\<open>sched\<close>, \<^verbatim>\<open>yield\<close>, \<^verbatim>\<open>sleep\<close>\<close>

text \<open>
  \<^verbatim>\<open>sched\<close> up to \<^verbatim>\<open>swtch\<close>; the saved interrupt flag is returned because it is a local
  variable of the suspended call.
\<close>

definition sched_account :: "nat \<Rightarrow> 'a ptable_scheme \<Rightarrow> 'a ptable_scheme" where
  "sched_account p s =
     upd_proc p (\<lambda>pr. pr\<lparr>p_cpu_ticks_total := p_cpu_ticks_total pr + (ticks s - p_cpu_ticks_in pr),
                        p_budget := p_budget pr - (ticks s - p_cpu_ticks_in pr)\<rparr>) s"

definition sched_demote :: "nat \<Rightarrow> nat \<Rightarrow> 'a ptable_scheme \<Rightarrow> 'a ptable_scheme res" where
  "sched_demote mp p s =
     (let pr = pt_proc s p in
      if sint (p_budget pr) < 1 then
        rbind (if p_priority pr < int mp then
                 rbind (if p_state pr = RUNNABLE then
                          rbind (slRemove (ready_of pr) (Some p) s) (\<lambda>(rc, s1).
                          rbind (slAdd (Ready (nat (p_priority pr + 1))) p s1) (\<lambda>(rc', s2).
                          if rc + rc' \<noteq> 0 then Panic ''sched update priority\<newline>'' else Ok s2))
                        else Ok s)
                   (\<lambda>s3. Ok (upd_proc p (\<lambda>pr. pr\<lparr>p_priority := p_priority pr + 1\<rparr>) s3))
               else Ok s)
          (\<lambda>s4. Ok (upd_proc p (\<lambda>pr. pr\<lparr>p_budget := BUDGET\<rparr>) s4))
      else Ok s)"

definition sched :: "nat \<Rightarrow> nat \<Rightarrow> 'a ptable_scheme \<Rightarrow> (bool \<times> 'a ptable_scheme) res" where
  "sched mp c s =
     (if \<not> holding c (pt_lock s) then Panic ''sched ptable.lock''
      else if c_ncli (cpus s c) \<noteq> 1 then Panic ''sched locks''
      else with_proc c s (\<lambda>p.
        if p_state (pt_proc s p) = RUNNING then Panic ''sched running''
        else if c_if (cpus s c) then Panic ''sched interruptible''
        else rbind (sched_demote mp p (sched_account p s)) (\<lambda>s1. Ok (c_intena (cpus s c), s1))))"

definition sched_resume :: "nat \<Rightarrow> bool \<Rightarrow> 'a ptable_scheme \<Rightarrow> 'a ptable_scheme" where
  "sched_resume c intena s = upd_cpu c (\<lambda>cp. cp\<lparr>c_intena := intena\<rparr>) s"

definition yield :: "nat \<Rightarrow> nat \<Rightarrow> 'a ptable_scheme \<Rightarrow> (bool \<times> 'a ptable_scheme) res" where
  "yield mp c s =
     rbind (acquire_pt c s) (\<lambda>s1. with_proc c s1 (\<lambda>p.
     rbind (slChange Running p RUNNING (\<lambda>pr. pr\<lparr>p_state := RUNNABLE\<rparr>) ready_of ''Yield\<newline>'' s1) (\<lambda>s2.
     sched mp c (upd_proc p (\<lambda>pr. pr\<lparr>p_state := RUNNABLE\<rparr>) s2))))"

definition yield_resume :: "nat \<Rightarrow> bool \<Rightarrow> 'a ptable_scheme \<Rightarrow> 'a ptable_scheme res" where
  "yield_resume c intena s = release_pt c (sched_resume c intena s)"

text \<open>
  The lock argument of \<^verbatim>\<open>sleep\<close>: the null pointer, \<^verbatim>\<open>ptable.lock\<close> itself, or another lock.
\<close>

datatype sleeplock = NoLock | PtableLock | OtherLock spinlock

definition release_lk :: "nat \<Rightarrow> sleeplock \<Rightarrow> 'a ptable_scheme \<Rightarrow> (sleeplock \<times> 'a ptable_scheme) res" where
  "release_lk c lk s =
     (case lk of
        OtherLock l \<Rightarrow> rbind (release c (cpus s c, l))
          (\<lambda>(cp, l'). Ok (OtherLock l', s\<lparr>cpus := (cpus s)(c := cp)\<rparr>))
      | _ \<Rightarrow> Ok (lk, s))"

definition acquire_lk :: "nat \<Rightarrow> sleeplock \<Rightarrow> 'a ptable_scheme \<Rightarrow> (sleeplock \<times> 'a ptable_scheme) res" where
  "acquire_lk c lk s =
     (case lk of
        OtherLock l \<Rightarrow> rbind (acquire c (cpus s c, l))
          (\<lambda>(cp, l'). Ok (OtherLock l', s\<lparr>cpus := (cpus s)(c := cp)\<rparr>))
      | _ \<Rightarrow> Ok (lk, s))"

definition sleep :: "nat \<Rightarrow> nat \<Rightarrow> chan \<Rightarrow> sleeplock \<Rightarrow> 'a ptable_scheme \<Rightarrow>
    (bool \<times> sleeplock \<times> 'a ptable_scheme) res" where
  "sleep mp c ch lk s =
     (case c_proc (cpus s c) of
        None \<Rightarrow> Panic ''sleep''
      | Some p \<Rightarrow>
          rbind (if lk \<noteq> PtableLock then rbind (acquire_pt c s) (release_lk c lk) else Ok (lk, s)) (\<lambda>(lk1, s1).
          rbind (slChange Running p RUNNING (\<lambda>pr. pr\<lparr>p_state := SLEEPING\<rparr>) (\<lambda>_. Sleep) ''Sleep\<newline>''
                   (upd_proc p (\<lambda>pr. pr\<lparr>p_chan := ch\<rparr>) s1)) (\<lambda>s2.
          rbind (sched mp c (upd_proc p (\<lambda>pr. pr\<lparr>p_state := SLEEPING\<rparr>) s2)) (\<lambda>(intena, s3).
          Ok (intena, lk1, s3)))))"

definition sleep_resume :: "nat \<Rightarrow> bool \<Rightarrow> sleeplock \<Rightarrow> 'a ptable_scheme \<Rightarrow> (sleeplock \<times> 'a ptable_scheme) res" where
  "sleep_resume c intena lk s =
     with_proc c s (\<lambda>p.
     let s1 = upd_proc p (\<lambda>pr. pr\<lparr>p_chan := ChNull\<rparr>) (sched_resume c intena s) in
     if lk \<noteq> PtableLock then rbind (release_pt c s1) (acquire_lk c lk) else Ok (lk, s1))"

subsection \<open>\<^verbatim>\<open>wakeup\<close>\<close>

fun wakeup1_loop :: "nat \<Rightarrow> chan \<Rightarrow> pptr \<Rightarrow> 'a ptable_scheme \<Rightarrow> 'a ptable_scheme res" where
  "wakeup1_loop fuel ch None s = Ok s"
| "wakeup1_loop 0 ch (Some p) s = Diverge"
| "wakeup1_loop (Suc fuel) ch (Some p) s =
     (let curr' = p_next (pLists s) p in
      rbind (if p_chan (pt_proc s p) = ch
             then slChange Sleep p SLEEPING (\<lambda>pr. pr\<lparr>p_state := RUNNABLE\<rparr>) ready_of ''wakeup1\<newline>'' s
             else Ok s)
        (wakeup1_loop fuel ch curr'))"

definition wakeup1 :: "chan \<Rightarrow> 'a ptable_scheme \<Rightarrow> 'a ptable_scheme res" where
  "wakeup1 ch s = wakeup1_loop NPROC ch (l_head (pLists s) Sleep) s"

definition wakeup :: "nat \<Rightarrow> chan \<Rightarrow> 'a ptable_scheme \<Rightarrow> 'a ptable_scheme res" where
  "wakeup c ch s = rbind (acquire_pt c s) (\<lambda>s1. rbind (wakeup1 ch s1) (release_pt c))"

subsection \<open>\<^verbatim>\<open>kill\<close>\<close>

definition kill_mark :: "nat \<Rightarrow> nat \<Rightarrow> 'a ptable_scheme \<Rightarrow> (int \<times> 'a ptable_scheme) res" where
  "kill_mark c p s =
     rbind (release_pt c (upd_proc p (\<lambda>pr. pr\<lparr>p_killed := True\<rparr>) s)) (\<lambda>s1. Ok (0, s1))"

definition kill :: "nat \<Rightarrow> nat \<Rightarrow> 32 word \<Rightarrow> 'a ptable_scheme \<Rightarrow> (int \<times> 'a ptable_scheme) res" where
  "kill mp c pid s =
     rbind (acquire_pt c s) (\<lambda>s1.
     let is_pid = (\<lambda>p. p_pid (pt_proc s1 p) = pid); ls = pLists s1 in
     rbind (find_list is_pid Running ls) (\<lambda>r. case r of Some p \<Rightarrow> kill_mark c p s1 | None \<Rightarrow>
     rbind (find_list is_pid Sleep ls) (\<lambda>r. case r of
       Some p \<Rightarrow>
         rbind (slChange Sleep p SLEEPING (\<lambda>pr. pr\<lparr>p_state := RUNNABLE\<rparr>) (\<lambda>_. Ready 0) ''kill\<newline>''
                  (upd_proc p (\<lambda>pr. pr\<lparr>p_killed := True\<rparr>) s1)) (\<lambda>s2.
         rbind (release_pt c s2) (\<lambda>s3. Ok (0, s3)))
     | None \<Rightarrow>
     rbind (find_levels is_pid [0..<mp + 1] ls) (\<lambda>r. case r of Some (i, p) \<Rightarrow> kill_mark c p s1 | None \<Rightarrow>
     rbind (find_list is_pid Zombie ls) (\<lambda>r. case r of Some p \<Rightarrow> kill_mark c p s1 | None \<Rightarrow>
     rbind (find_list is_pid Embryo ls) (\<lambda>r. case r of Some p \<Rightarrow> kill_mark c p s1 | None \<Rightarrow>
     rbind (release_pt c s1) (\<lambda>s2. Ok (-1, s2))))))))"

subsection \<open>\<^verbatim>\<open>setpriority\<close>\<close>

definition reset_budget :: "nat \<Rightarrow> nat \<Rightarrow> 'a ptable_scheme \<Rightarrow> (int \<times> 'a ptable_scheme) res" where
  "reset_budget c p s =
     rbind (release_pt c (upd_proc p (\<lambda>pr. pr\<lparr>p_budget := BUDGET\<rparr>) s)) (\<lambda>s1. Ok (0, s1))"

definition requeue :: "nat \<Rightarrow> slist \<Rightarrow> nat \<Rightarrow> procstate \<Rightarrow> int \<Rightarrow> string \<Rightarrow> 'a ptable_scheme \<Rightarrow>
    (int \<times> 'a ptable_scheme) res" where
  "requeue c l p st priority msg s =
     rbind (slChange l p st (\<lambda>pr. pr\<lparr>p_priority := priority, p_budget := BUDGET\<rparr>)
              (\<lambda>_. Ready (nat priority)) msg s) (\<lambda>s1.
     rbind (release_pt c s1) (\<lambda>s2. Ok (0, s2)))"

definition setpriority :: "nat \<Rightarrow> nat \<Rightarrow> 32 word \<Rightarrow> int \<Rightarrow> 'a ptable_scheme \<Rightarrow> (int \<times> 'a ptable_scheme) res" where
  "setpriority mp c pid priority s =
     (if priority < 0 \<or> int mp < priority then Ok (-1, s)
      else
        rbind (acquire_pt c s) (\<lambda>s1.
        let is_pid = (\<lambda>p. p_pid (pt_proc s1 p) = pid);
            same = (\<lambda>p. p_priority (pt_proc s1 p) = priority);
            ls = pLists s1 in
        rbind (find_list is_pid Running ls) (\<lambda>r. case r of
          Some p \<Rightarrow> if same p then reset_budget c p s1
                    else requeue c Running p RUNNING priority ''setpriority running\<newline>'' s1
        | None \<Rightarrow>
        rbind (find_levels is_pid [0..<mp + 1] ls) (\<lambda>r. case r of
          Some (i, p) \<Rightarrow> if same p then reset_budget c p s1
                         else requeue c (Ready i) p RUNNABLE priority ''setpriority ready\<newline>'' s1
        | None \<Rightarrow>
        rbind (find_list is_pid Sleep ls) (\<lambda>r. case r of
          Some p \<Rightarrow> if same p then reset_budget c p s1
                    else rbind (release_pt c (upd_proc p (\<lambda>pr. pr\<lparr>p_priority := priority, p_budget := BUDGET\<rparr>) s1))
                           (\<lambda>s2. Ok (0, s2))
        | None \<Rightarrow> rbind (release_pt c s1) (\<lambda>s2. Ok (-1, s2)))))))"

subsection \<open>\<^verbatim>\<open>scheduler\<close>\<close>

text \<open>\<^verbatim>\<open>switchkvm\<close> and \<^verbatim>\<open>switchuvm\<close> of \<^verbatim>\<open>vm.c\<close>, which the scheduler loop calls.\<close>

definition v2p :: "32 word \<Rightarrow> 32 word" where "v2p a = a - KERNBASE"
definition p2v :: "32 word \<Rightarrow> 32 word" where "p2v a = a + KERNBASE"

definition switchkvm :: "nat \<Rightarrow> 'a ptable_scheme \<Rightarrow> 'a ptable_scheme" where
  "switchkvm c s = upd_cpu c (\<lambda>cp. cp\<lparr>c_cr3 := v2p (kpgdir s)\<rparr>) s"

definition switchuvm :: "nat \<Rightarrow> nat \<Rightarrow> 'a ptable_scheme \<Rightarrow> 'a ptable_scheme res" where
  "switchuvm c p s =
     (let s1 = upd_cpu c pushcli s in
      with_proc c s1 (\<lambda>q.
        let s2 = upd_cpu c (\<lambda>cp. cp\<lparr>c_esp0 := p_kstack (pt_proc s1 q) + of_nat KSTACKSIZE\<rparr>) s1 in
        if p_pgdir (pt_proc s2 p) = 0 then Panic ''switchuvm: no pgdir''
        else let s3 = upd_cpu c (\<lambda>cp. cp\<lparr>c_cr3 := v2p (p_pgdir (pt_proc s2 p))\<rparr>) s2 in
             rbind (popcli (cpus s3 c)) (\<lambda>cp. Ok (upd_cpu c (\<lambda>_. cp) s3))))"

text \<open>Promotion: the running and sleeping processes in place, the ready lists level by level.\<close>

fun promote_in_place :: "nat \<Rightarrow> string \<Rightarrow> pptr \<Rightarrow> 'a ptable_scheme \<Rightarrow> 'a ptable_scheme res" where
  "promote_in_place fuel msg None s = Ok s"
| "promote_in_place 0 msg (Some p) s = Diverge"
| "promote_in_place (Suc fuel) msg (Some p) s =
     (let next' = p_next (pLists s) p in
      if p_priority (pt_proc s p) < 0 then Panic msg
      else promote_in_place fuel msg next'
             (if p_priority (pt_proc s p) > 0
              then upd_proc p (\<lambda>pr. pr\<lparr>p_priority := p_priority pr - 1\<rparr>) s else s))"

fun promote_level :: "nat \<Rightarrow> nat \<Rightarrow> pptr \<Rightarrow> 'a ptable_scheme \<Rightarrow> 'a ptable_scheme res" where
  "promote_level fuel i None s = Ok s"
| "promote_level 0 i (Some p) s = Diverge"
| "promote_level (Suc fuel) i (Some p) s =
     (let next' = p_next (pLists s) p in
      if p_priority (pt_proc s p) \<noteq> int i then Panic ''priority != i, scheduler, runnable lists\<newline>''
      else rbind (slRemove (Ready i) (Some p) s) (\<lambda>(_, s1).
           rbind (slAdd (Ready (i - 1)) p (upd_proc p (\<lambda>pr. pr\<lparr>p_priority := p_priority pr - 1\<rparr>) s1)) (\<lambda>(_, s2).
           promote_level fuel i next' s2)))"

fun promote_levels :: "nat list \<Rightarrow> 'a ptable_scheme \<Rightarrow> 'a ptable_scheme res" where
  "promote_levels [] s = Ok s"
| "promote_levels (i # is) s =
     rbind (promote_level NPROC i (l_head (pLists s) (Ready i)) s) (promote_levels is)"

definition promote :: "nat \<Rightarrow> 'a ptable_scheme \<Rightarrow> 'a ptable_scheme res" where
  "promote mp s =
     rbind (promote_in_place NPROC ''priority < 0, scheduler, running\<newline>'' (l_head (pLists s) Running) s) (\<lambda>s1.
     rbind (promote_levels [1..<mp + 1] s1) (\<lambda>s2.
     rbind (promote_in_place NPROC ''priority < 0, scheduler, sleeping\<newline>'' (l_head (pLists s2) Sleep) s2) (\<lambda>s3.
     Ok (s3\<lparr>PromoteAtTime := PromoteAtTime s3 + TICKS_TO_PROMOTE\<rparr>))))"

fun pick_ready :: "nat list \<Rightarrow> statelists \<Rightarrow> (nat \<times> nat) option" where
  "pick_ready [] ls = None"
| "pick_ready (j # js) ls =
     (case l_head ls (Ready j) of Some p \<Rightarrow> Some (j, p) | None \<Rightarrow> pick_ready js ls)"

text \<open>
  One round of the scheduler loop on processor \<open>c\<close>: up to the switch into the process it
  returns, or, when no process is ready, to the end of the round. \<open>scheduler_resume\<close> is the
  rest of the round, run when the process switches back.
\<close>

definition scheduler :: "nat \<Rightarrow> nat \<Rightarrow> 'a ptable_scheme \<Rightarrow> (pptr \<times> 'a ptable_scheme) res" where
  "scheduler mp c s =
     rbind (acquire_pt c (upd_cpu c (\<lambda>cp. cp\<lparr>c_if := True\<rparr>) s)) (\<lambda>s1.
     rbind (if PromoteAtTime s1 \<le> ticks s1 then promote mp s1 else Ok s1) (\<lambda>s2.
     case pick_ready [0..<mp + 1] (pLists s2) of
       None \<Rightarrow>
         rbind (release_pt c s2) (\<lambda>s3. Ok (None, upd_cpu c (\<lambda>cp. cp\<lparr>c_if := True\<rparr>) s3))
     | Some (j, p) \<Rightarrow>
         rbind (slChange (Ready j) p RUNNABLE (\<lambda>pr. pr\<lparr>p_state := RUNNING\<rparr>) (\<lambda>_. Running)
                  ''Panic - scheduler\<newline>'' s2) (\<lambda>s3.
         rbind (switchuvm c p (upd_cpu c (\<lambda>cp. cp\<lparr>c_proc := Some p\<rparr>) s3)) (\<lambda>s4.
         Ok (Some p, upd_proc p (\<lambda>pr. pr\<lparr>p_cpu_ticks_in := ticks s4\<rparr>) s4)))))"

definition scheduler_resume :: "nat \<Rightarrow> 'a ptable_scheme \<Rightarrow> 'a ptable_scheme res" where
  "scheduler_resume c s = release_pt c (upd_cpu c (\<lambda>cp. cp\<lparr>c_proc := None\<rparr>) (switchkvm c s))"

end
