(* ===== verification/TableInv.thy ===== *)
theory TableInv
  imports Ptable
begin

text \<open>
  The invariant of the process table and its preservation. \<open>table_ok mp s A\<close> says that the
  state lists hold the processes \<open>A\<close>: every process of the table is on exactly one list, the
  list of its state, and a process on a ready list below level 0 has that level as its
  priority. (A process on level 0 may have any priority: \<^verbatim>\<open>kill\<close> puts the process it wakes
  there.)
\<close>

subsection \<open>The invariant\<close>

fun list_state :: "slist \<Rightarrow> procstate" where
  "list_state (Ready i) = RUNNABLE"
| "list_state Free = UNUSED"
| "list_state Sleep = SLEEPING"
| "list_state Zombie = ZOMBIE"
| "list_state Running = RUNNING"
| "list_state Embryo = EMBRYO"

definition level_ok :: "nat \<Rightarrow> slist \<Rightarrow> proc \<Rightarrow> bool" where
  "level_ok mp l pr \<longleftrightarrow> (\<forall>i. l = Ready i \<longrightarrow> i \<le> mp \<and> (0 < i \<longrightarrow> p_priority pr = int i))"

definition prio_ok :: "nat \<Rightarrow> proc \<Rightarrow> bool" where
  "prio_ok mp pr \<longleftrightarrow> 0 \<le> p_priority pr \<and> p_priority pr \<le> int mp"

definition procs_ok :: "nat \<Rightarrow> (nat \<Rightarrow> proc) \<Rightarrow> (slist \<Rightarrow> nat list) \<Rightarrow> bool" where
  "procs_ok mp ps A \<longleftrightarrow>
     (\<forall>l. \<forall>p \<in> set (A l). p_state (ps p) = list_state l \<and> level_ok mp l (ps p)) \<and>
     (\<forall>p < NPROC. (\<exists>l. p \<in> set (A l)) \<and> prio_ok mp (ps p))"

definition table_ok :: "nat \<Rightarrow> 'a ptable_scheme \<Rightarrow> (slist \<Rightarrow> nat list) \<Rightarrow> bool" where
  "table_ok mp s A \<longleftrightarrow> lists_ok (pLists s) A \<and> procs_ok mp (pt_proc s) A"

lemma table_ok_lists: "table_ok mp s A \<Longrightarrow> lists_ok (pLists s) A"
  by (simp add: table_ok_def)

lemma table_ok_state: "table_ok mp s A \<Longrightarrow> p \<in> set (A l) \<Longrightarrow> p_state (pt_proc s p) = list_state l"
  by (simp add: table_ok_def procs_ok_def)

lemma table_ok_level: "table_ok mp s A \<Longrightarrow> p \<in> set (A l) \<Longrightarrow> level_ok mp l (pt_proc s p)"
  by (simp add: table_ok_def procs_ok_def)

lemma table_ok_prio: "table_ok mp s A \<Longrightarrow> p < NPROC \<Longrightarrow> prio_ok mp (pt_proc s p)"
  by (simp add: table_ok_def procs_ok_def)

lemma table_ok_bound: "table_ok mp s A \<Longrightarrow> p \<in> set (A l) \<Longrightarrow> p < NPROC"
  by (blast intro: lists_ok_bound table_ok_lists)

lemma table_ok_prio_in: "table_ok mp s A \<Longrightarrow> p \<in> set (A l) \<Longrightarrow> prio_ok mp (pt_proc s p)"
  by (blast intro: table_ok_bound table_ok_prio)

lemma table_ok_cover: "table_ok mp s A \<Longrightarrow> p < NPROC \<Longrightarrow> \<exists>l. p \<in> set (A l)"
  by (simp add: table_ok_def procs_ok_def)

lemma table_ok_distinct: "table_ok mp s A \<Longrightarrow> distinct (A l)"
  by (blast intro: lists_ok_distinct table_ok_lists)

lemma table_ok_same: "table_ok mp s A \<Longrightarrow> p \<in> set (A l) \<Longrightarrow> p \<in> set (A l') \<Longrightarrow> l = l'"
  by (blast intro: lists_ok_same table_ok_lists)

text \<open>Membership of the lists other than the ready lists is read off the state.\<close>

lemma table_ok_mem:
  assumes "table_ok mp s A" "p < NPROC" "\<And>i. l \<noteq> Ready i"
  shows "p \<in> set (A l) \<longleftrightarrow> p_state (pt_proc s p) = list_state l"
proof
  assume st: "p_state (pt_proc s p) = list_state l"
  obtain l' where l': "p \<in> set (A l')" using table_ok_cover assms(1,2) by blast
  then have "list_state l' = list_state l" using table_ok_state [OF assms(1) l'] st by simp
  then have "l' = l" using assms(3) by (cases l; cases l'; auto)
  then show "p \<in> set (A l)" using l' by simp
qed (use table_ok_state [OF assms(1)] in simp)

lemma table_ok_mem_ready:
  assumes "table_ok mp s A" "p < NPROC"
  shows "(\<exists>i \<le> mp. p \<in> set (A (Ready i))) \<longleftrightarrow> p_state (pt_proc s p) = RUNNABLE"
proof
  assume st: "p_state (pt_proc s p) = RUNNABLE"
  obtain l where l: "p \<in> set (A l)" using table_ok_cover assms by blast
  then have "list_state l = RUNNABLE" using table_ok_state [OF assms(1) l] st by simp
  then obtain i where "l = Ready i" by (cases l) auto
  moreover have "i \<le> mp" using table_ok_level [OF assms(1) l] calculation by (simp add: level_ok_def)
  ultimately show "\<exists>i \<le> mp. p \<in> set (A (Ready i))" using l by blast
qed (use table_ok_state [OF assms(1)] in force)

text \<open>The invariant depends on the lists and, per process, on the state and the priority.\<close>

lemma table_ok_cong:
  assumes "table_ok mp s A" "pLists s' = pLists s"
    "\<And>p. p < NPROC \<Longrightarrow> p_state (pt_proc s' p) = p_state (pt_proc s p)"
    "\<And>p. p < NPROC \<Longrightarrow> p_priority (pt_proc s' p) = p_priority (pt_proc s p)"
  shows "table_ok mp s' A"
  using assms table_ok_bound [OF assms(1)]
  by (auto simp: table_ok_def procs_ok_def level_ok_def prio_ok_def)

subsection \<open>Locks and processors\<close>

lemma upd_proc_simps [simp]:
  "pLists (upd_proc p f s) = pLists s" "cpus (upd_proc p f s) = cpus s"
  "pt_lock (upd_proc p f s) = pt_lock s" "ticks (upd_proc p f s) = ticks s"
  "initproc (upd_proc p f s) = initproc s" "nextpid (upd_proc p f s) = nextpid s"
  "PromoteAtTime (upd_proc p f s) = PromoteAtTime s" "kpgdir (upd_proc p f s) = kpgdir s"
  "pt_proc (upd_proc p f s) = (pt_proc s)(p := f (pt_proc s p))"
  by (simp_all add: upd_proc_def)

lemma upd_cpu_simps [simp]:
  "pLists (upd_cpu c f s) = pLists s" "cpus (upd_cpu c f s) = (cpus s)(c := f (cpus s c))"
  "pt_lock (upd_cpu c f s) = pt_lock s" "ticks (upd_cpu c f s) = ticks s"
  "initproc (upd_cpu c f s) = initproc s" "nextpid (upd_cpu c f s) = nextpid s"
  "PromoteAtTime (upd_cpu c f s) = PromoteAtTime s" "kpgdir (upd_cpu c f s) = kpgdir s"
  "pt_proc (upd_cpu c f s) = pt_proc s"
  by (simp_all add: upd_cpu_def)

text \<open>One order of the field updates of a table state.\<close>

lemma ptable_update_order [simp]:
  "s\<lparr>pLists := ls, pt_proc := ps\<rparr> = s\<lparr>pt_proc := ps, pLists := ls\<rparr>"
  "s\<lparr>cpus := cs, pt_proc := ps\<rparr> = s\<lparr>pt_proc := ps, cpus := cs\<rparr>"
  "s\<lparr>cpus := cs, pLists := ls\<rparr> = s\<lparr>pLists := ls, cpus := cs\<rparr>"
  "s\<lparr>pt_lock := lk, pt_proc := ps\<rparr> = s\<lparr>pt_proc := ps, pt_lock := lk\<rparr>"
  "s\<lparr>pt_lock := lk, pLists := ls\<rparr> = s\<lparr>pLists := ls, pt_lock := lk\<rparr>"
  "s\<lparr>pt_lock := lk, cpus := cs\<rparr> = s\<lparr>cpus := cs, pt_lock := lk\<rparr>"
  "s\<lparr>PromoteAtTime := t, pt_proc := ps\<rparr> = s\<lparr>pt_proc := ps, PromoteAtTime := t\<rparr>"
  "s\<lparr>PromoteAtTime := t, pLists := ls\<rparr> = s\<lparr>pLists := ls, PromoteAtTime := t\<rparr>"
  "s\<lparr>nextpid := n, pt_proc := ps\<rparr> = s\<lparr>pt_proc := ps, nextpid := n\<rparr>"
  "s\<lparr>nextpid := n, pLists := ls\<rparr> = s\<lparr>pLists := ls, nextpid := n\<rparr>"
  by simp_all

lemma table_ok_upd_cpu [simp]: "table_ok mp (upd_cpu c f s) A = table_ok mp s A"
  by (simp add: table_ok_def)

lemma table_ok_upd_proc:
  assumes "table_ok mp s A" "p_state (f (pt_proc s p)) = p_state (pt_proc s p)"
    "p_priority (f (pt_proc s p)) = p_priority (pt_proc s p)"
  shows "table_ok mp (upd_proc p f s) A"
  using assms by (auto intro: table_ok_cong)

text \<open>
  \<open>unlocked c s\<close>: \<^verbatim>\<open>ptable.lock\<close> is free and processor \<open>c\<close> may take it. \<open>locked_by c s\<close>:
  processor \<open>c\<close> holds it, with interrupts off. These are the states at which the operations
  start and between which they run.
\<close>

definition unlocked :: "nat \<Rightarrow> 'a ptable_scheme \<Rightarrow> bool" where
  "unlocked c s \<longleftrightarrow> \<not> locked (pt_lock s) \<and> lk_cpu (pt_lock s) = None \<and> cpu_ok (cpus s c)"

definition locked_by :: "nat \<Rightarrow> 'a ptable_scheme \<Rightarrow> bool" where
  "locked_by c s \<longleftrightarrow> holding c (pt_lock s) \<and> \<not> c_if (cpus s c) \<and> 0 < c_ncli (cpus s c)"

lemma locked_by_upd [simp]:
  "locked_by c (upd_proc p f s) = locked_by c s" "unlocked c (upd_proc p f s) = unlocked c s"
  by (simp_all add: locked_by_def unlocked_def)

definition lock_state :: "nat \<Rightarrow> 'a ptable_scheme \<Rightarrow> 'a ptable_scheme" where
  "lock_state c s = s\<lparr>cpus := (cpus s)(c := pushcli (cpus s c)),
                      pt_lock := (pt_lock s)\<lparr>locked := True, lk_cpu := Some c\<rparr>\<rparr>"

text \<open>What a critical section leaves of the processors: at most the saved interrupt flag.\<close>

definition section_cpus :: "nat \<Rightarrow> (nat \<Rightarrow> cpu) \<Rightarrow> nat \<Rightarrow> cpu" where
  "section_cpus c cs = cs(c := (cs c)\<lparr>c_intena := (if c_ncli (cs c) = 0 then c_if (cs c)
                                                   else c_intena (cs c))\<rparr>)"

lemma lock_state_simps [simp]:
  "pLists (lock_state c s) = pLists s" "pt_proc (lock_state c s) = pt_proc s"
  "ticks (lock_state c s) = ticks s" "initproc (lock_state c s) = initproc s"
  "nextpid (lock_state c s) = nextpid s" "PromoteAtTime (lock_state c s) = PromoteAtTime s"
  "kpgdir (lock_state c s) = kpgdir s" "cpus (lock_state c s) = (cpus s)(c := pushcli (cpus s c))"
  "holding c (pt_lock (lock_state c s))"
  by (simp_all add: lock_state_def holding_def)

lemma table_ok_lock_state [simp]: "table_ok mp (lock_state c s) A = table_ok mp s A"
  by (simp add: table_ok_def)

lemma acquire_pt_ok: "unlocked c s \<Longrightarrow> acquire_pt c s = Ok (lock_state c s)"
  by (simp add: acquire_pt_def unlocked_def acquire_ok lock_state_def)

lemma lock_state_locked: "unlocked c s \<Longrightarrow> locked_by c (lock_state c s)"
  by (simp add: locked_by_def unlocked_def cpu_ok_def)

lemma section_cpus_ok [simp]:
  "cpu_ok (section_cpus c cs c') = cpu_ok (cs c')" "c_proc (section_cpus c cs c') = c_proc (cs c')"
  "c_if (section_cpus c cs c') = c_if (cs c')" "c_ncli (section_cpus c cs c') = c_ncli (cs c')"
  by (simp_all add: section_cpus_def cpu_ok_def)

lemma release_pt_ok:
  assumes "unlocked c s" "cpus s' = cpus (lock_state c s)" "pt_lock s' = pt_lock (lock_state c s)"
  shows "release_pt c s' = Ok (s'\<lparr>cpus := section_cpus c (cpus s), pt_lock := pt_lock s\<rparr>)"
  using assms
  by (cases "cpus s c"; cases "pt_lock s")
    (auto simp: release_pt_def unlocked_def lock_state_def release_def popcli_def holding_def
      cpu_ok_def pushcli_def section_cpus_def Let_def)

subsection \<open>A state change of one process\<close>

lemma assertState_ok [simp]:
  "p_state (pt_proc s p) = st \<Longrightarrow> assertState p st s = Ok ()"
  by (simp add: assertState_def)

lemma slRemove_ok:
  "lists_ok (pLists s) A \<Longrightarrow> p \<in> set (A l) \<Longrightarrow>
   \<exists>ls. slRemove l (Some p) s = Ok (0, s\<lparr>pLists := ls\<rparr>) \<and> lists_ok ls (A(l := remove1 p (A l)))"
  using stateListRemove_ok [of "pLists s" A p l] by (auto simp: slRemove_def ensures_iff)

lemma slAdd_ok:
  "lists_ok (pLists s) A \<Longrightarrow> p < NPROC \<Longrightarrow> (\<And>l'. p \<notin> set (A l')) \<Longrightarrow>
   \<exists>ls. slAdd l p s = Ok (0, s\<lparr>pLists := ls\<rparr>) \<and> lists_ok ls (A(l := A l @ [p]))"
  using stateListAdd_ok [of "pLists s" A p l] by (auto simp: slAdd_def ensures_iff)

text \<open>The two list operations of a state change, whatever happens to the fields in between.\<close>

lemma slMove_ok:
  assumes "lists_ok (pLists s) A" "p \<in> set (A l)"
  shows "\<exists>ls1 ls2. slRemove l (Some p) s = Ok (0, s\<lparr>pLists := ls1\<rparr>) \<and>
     stateListAdd l' p ls1 = Ok (0, ls2) \<and> lists_ok ls2 (moved p l l' A)"
proof -
  obtain ls1 where 1: "slRemove l (Some p) s = Ok (0, s\<lparr>pLists := ls1\<rparr>)"
      "lists_ok ls1 (A(l := remove1 p (A l)))"
    using slRemove_ok [OF assms] by blast
  have "ensures (stateListAdd l' p ls1) (\<lambda>(rc, s'). rc = 0 \<and> lists_ok s' (moved p l l' A))"
    unfolding moved_def Let_def
    by (rule stateListAdd_ok [OF 1(2) lists_ok_bound [OF assms]]) (rule sl.removed_fresh [OF assms])
  then obtain ls2 where 2: "stateListAdd l' p ls1 = Ok (0, ls2)" "lists_ok ls2 (moved p l l' A)"
    by (auto simp: ensures_iff)
  show ?thesis using 1 2 by blast
qed

lemma slmoved_set:
  "lists_ok s A \<Longrightarrow> p \<in> set (A l) \<Longrightarrow>
   set (moved p l l' A k) = (if k = l' then insert p (set (A k)) else set (A k) - (if k = l then {p} else {}))"
  by (rule sl.moved_set)

lemma procs_ok_moved:
  assumes ok: "lists_ok ls A" "procs_ok mp ps A" and p: "p \<in> set (A l)"
    and new: "p_state pr = list_state l'" "level_ok mp l' pr" "prio_ok mp pr"
  shows "procs_ok mp (ps(p := pr)) (moved p l l' A)"
proof -
  have at: "k = l" if "p \<in> set (A k)" for k using lists_ok_same [OF ok(1) that p] .
  have "p_state ((ps(p := pr)) q) = list_state k \<and> level_ok mp k ((ps(p := pr)) q)"
    if "q \<in> set (moved p l l' A k)" for q k
  proof (cases "q = p")
    case True
    then have "k = l'" using that at [of k] by (auto simp: slmoved_set [OF ok(1) p] split: if_splits)
    then show ?thesis using new True by simp
  next
    case False
    then have "q \<in> set (A k)" using that by (auto simp: slmoved_set [OF ok(1) p] split: if_splits)
    then show ?thesis using ok(2) False by (simp add: procs_ok_def)
  qed
  moreover have "(\<exists>k. q \<in> set (moved p l l' A k)) \<and> prio_ok mp ((ps(p := pr)) q)" if "q < NPROC" for q
  proof (cases "q = p")
    case True
    then show ?thesis using new by (auto simp: slmoved_set [OF ok(1) p] intro!: exI [of _ l'])
  next
    case False
    obtain k where "q \<in> set (A k)" using ok(2) \<open>q < NPROC\<close> by (auto simp: procs_ok_def)
    then have "q \<in> set (moved p l l' A k)" using False by (auto simp: slmoved_set [OF ok(1) p])
    then show ?thesis using ok(2) \<open>q < NPROC\<close> False by (auto simp: procs_ok_def)
  qed
  ultimately show ?thesis by (simp add: procs_ok_def)
qed

lemma slChange_ok:
  assumes ok: "table_ok mp s A" and p: "p \<in> set (A l)" and st: "list_state l = st"
    and new: "p_state (f (pt_proc s p)) = list_state (l' (f (pt_proc s p)))"
      "level_ok mp (l' (f (pt_proc s p))) (f (pt_proc s p))" "prio_ok mp (f (pt_proc s p))"
  shows "\<exists>ls. slChange l p st f l' msg s = Ok ((upd_proc p f s)\<lparr>pLists := ls\<rparr>) \<and>
              table_ok mp ((upd_proc p f s)\<lparr>pLists := ls\<rparr>) (moved p l (l' (f (pt_proc s p))) A)"
proof -
  let ?k = "l' (f (pt_proc s p))"
  have lo: "lists_ok (pLists s) A" and po: "procs_ok mp (pt_proc s) A" using ok by (simp_all add: table_ok_def)
  obtain ls1 ls2 where m: "slRemove l (Some p) s = Ok (0, s\<lparr>pLists := ls1\<rparr>)"
      "stateListAdd ?k p ls1 = Ok (0, ls2)" "lists_ok ls2 (moved p l ?k A)"
    using slMove_ok [OF lo p] by blast
  have "p_state (pt_proc s p) = st" using table_ok_state [OF ok p] st by simp
  then have "slChange l p st f l' msg s = Ok ((upd_proc p f s)\<lparr>pLists := ls2\<rparr>)"
    using m(1,2) by (simp add: slChange_def upd_proc_def slAdd_def)
  then show ?thesis using procs_ok_moved [OF lo po p new] m(3) by (auto simp: table_ok_def)
qed

end
