(* ===== verification/TableOps.thy ===== *)
theory TableOps
  imports TableInv
begin

text \<open>
  What the operations of the process table do: each one, started in a state that satisfies
  the invariant, returns, keeps the invariant, and changes the lists and the fields as
  stated. The statements give the whole resulting state up to the pointers that implement
  the lists.
\<close>

abbreviation head_ptr :: "nat list \<Rightarrow> pptr" where
  "head_ptr xs \<equiv> (case xs of [] \<Rightarrow> None | x # _ \<Rightarrow> Some x)"

lemma head_ptr_next:
  "lists_ok ls A \<Longrightarrow> A l = ks @ y # ys \<Longrightarrow> p_next ls y = head_ptr ys"
  by (rule lists_ok_next)

lemma moved_from:
  "A l = ks @ y # ys \<Longrightarrow> y \<notin> set ks \<Longrightarrow> l \<noteq> l' \<Longrightarrow> moved y l l' A l = ks @ ys"
  by (simp add: moved_def Let_def remove1_middle)

lemma moved_to: "l \<noteq> l' \<Longrightarrow> moved y l l' A l' = A l' @ [y]"
  by (simp add: moved_def Let_def)

lemma moved_other: "k \<noteq> l \<Longrightarrow> k \<noteq> l' \<Longrightarrow> moved y l l' A k = A k"
  by (simp add: moved_def Let_def)

lemma level_ok_ready_of: "prio_ok mp pr \<Longrightarrow> level_ok mp (ready_of pr) pr"
  by (auto simp: level_ok_def ready_of_def prio_ok_def)

lemma level_ok_nonready [simp]:
  "level_ok mp Free pr" "level_ok mp Sleep pr" "level_ok mp Zombie pr" "level_ok mp Running pr"
  "level_ok mp Embryo pr" "level_ok mp (Ready 0) pr"
  by (simp_all add: level_ok_def)

lemma ready_of_state [simp]: "list_state (ready_of pr) = RUNNABLE"
  by (simp add: ready_of_def)

lemma ready_of_neq [simp]:
  "ready_of pr \<noteq> Sleep" "ready_of pr \<noteq> Running" "ready_of pr \<noteq> Free" "ready_of pr \<noteq> Zombie"
  "ready_of pr \<noteq> Embryo" "Sleep \<noteq> ready_of pr" "Running \<noteq> ready_of pr" "Free \<noteq> ready_of pr"
  "Zombie \<noteq> ready_of pr" "Embryo \<noteq> ready_of pr"
  by (simp_all add: ready_of_def)

lemma ready_of_upd [simp]:
  "ready_of (pr\<lparr>p_state := st\<rparr>) = ready_of pr" "ready_of (pr\<lparr>p_chan := ch\<rparr>) = ready_of pr"
  "ready_of (pr\<lparr>p_killed := k\<rparr>) = ready_of pr" "ready_of (pr\<lparr>p_budget := b\<rparr>) = ready_of pr"
  by (simp_all add: ready_of_def)

lemma prio_ok_upd [simp]:
  "prio_ok mp (pr\<lparr>p_state := st\<rparr>) = prio_ok mp pr" "prio_ok mp (pr\<lparr>p_chan := ch\<rparr>) = prio_ok mp pr"
  "prio_ok mp (pr\<lparr>p_killed := k\<rparr>) = prio_ok mp pr" "prio_ok mp (pr\<lparr>p_budget := b\<rparr>) = prio_ok mp pr"
  by (simp_all add: prio_ok_def)

lemma level_ok_upd [simp]:
  "level_ok mp l (pr\<lparr>p_state := st\<rparr>) = level_ok mp l pr"
  "level_ok mp l (pr\<lparr>p_killed := k\<rparr>) = level_ok mp l pr"
  by (simp_all add: level_ok_def)

subsection \<open>\<^verbatim>\<open>wakeup\<close>\<close>

definition wake_procs :: "chan \<Rightarrow> nat list \<Rightarrow> (nat \<Rightarrow> proc) \<Rightarrow> nat \<Rightarrow> proc" where
  "wake_procs ch xs ps = (\<lambda>p. if p \<in> set xs \<and> p_chan (ps p) = ch
                             then (ps p)\<lparr>p_state := RUNNABLE\<rparr> else ps p)"

fun wake_lists :: "chan \<Rightarrow> (nat \<Rightarrow> proc) \<Rightarrow> nat list \<Rightarrow> (slist \<Rightarrow> nat list) \<Rightarrow> slist \<Rightarrow> nat list" where
  "wake_lists ch ps [] A = A"
| "wake_lists ch ps (x # xs) A =
     wake_lists ch ps xs (if p_chan (ps x) = ch then moved x Sleep (ready_of (ps x)) A else A)"

lemma wake_lists_cong:
  "(\<And>x. x \<in> set xs \<Longrightarrow> p_chan (ps' x) = p_chan (ps x) \<and> p_priority (ps' x) = p_priority (ps x)) \<Longrightarrow>
   wake_lists ch ps' xs A = wake_lists ch ps xs A"
  by (induction xs arbitrary: A) (auto simp: ready_of_def)

text \<open>What a wakeup does to the lists: the sleepers on the channel leave the sleep list, and those of
  each priority join the end of its ready list, in the order in which they slept.\<close>

lemma wake_lists_sleep:
  "distinct (ks @ xs) \<Longrightarrow> A Sleep = ks @ xs \<Longrightarrow>
   wake_lists ch ps xs A Sleep = ks @ filter (\<lambda>x. p_chan (ps x) \<noteq> ch) xs"
proof (induction xs arbitrary: ks A)
  case (Cons x xs)
  show ?case
  proof (cases "p_chan (ps x) = ch")
    case True
    have "moved x Sleep (ready_of (ps x)) A Sleep = ks @ xs"
      using Cons.prems by (simp add: moved_def Let_def remove1_middle)
    then show ?thesis using Cons True by simp
  next
    case False
    then show ?thesis using Cons.IH [of "ks @ [x]" A] Cons.prems by simp
  qed
qed simp

lemma wake_lists_ready:
  "l \<noteq> Sleep \<Longrightarrow> wake_lists ch ps xs A l = A l @ filter (\<lambda>x. p_chan (ps x) = ch \<and> ready_of (ps x) = l) xs"
  by (induction xs arbitrary: A) (auto simp: moved_def Let_def)

lemma wakeup1_loop_ok:
  "table_ok mp s A \<Longrightarrow> A Sleep = ks @ ys \<Longrightarrow> length ys \<le> fuel \<Longrightarrow>
   \<exists>ls. wakeup1_loop fuel ch (head_ptr ys) s = Ok (s\<lparr>pt_proc := wake_procs ch ys (pt_proc s), pLists := ls\<rparr>) \<and>
        table_ok mp (s\<lparr>pt_proc := wake_procs ch ys (pt_proc s), pLists := ls\<rparr>) (wake_lists ch (pt_proc s) ys A)"
proof (induction ys arbitrary: ks s A fuel)
  case Nil
  then show ?case by (auto simp: wake_procs_def intro!: exI [of _ "pLists s"])
next
  case (Cons y ys)
  obtain n where fuel: "fuel = Suc n" using Cons.prems(3) by (cases fuel) auto
  have nx: "p_next (pLists s) y = head_ptr ys"
    using head_ptr_next [OF table_ok_lists [OF Cons.prems(1)]] Cons.prems(2) by blast
  have d: "y \<notin> set ks" "y \<notin> set ys" using table_ok_distinct [OF Cons.prems(1), of Sleep] Cons.prems(2) by auto
  have y: "y \<in> set (A Sleep)" using Cons.prems(2) by simp
  show ?case
  proof (cases "p_chan (pt_proc s y) = ch")
    case False
    have "wake_procs ch (y # ys) (pt_proc s) = wake_procs ch ys (pt_proc s)"
      using False by (auto simp: wake_procs_def)
    then show ?thesis
      using False fuel nx Cons.prems Cons.IH [of s A "ks @ [y]" n] by simp
  next
    case True
    let ?f = "\<lambda>pr. pr\<lparr>p_state := RUNNABLE\<rparr>" and ?A = "moved y Sleep (ready_of (pt_proc s y)) A"
    obtain ls where 1: "slChange Sleep y SLEEPING ?f ready_of ''wakeup1\<newline>'' s = Ok ((upd_proc y ?f s)\<lparr>pLists := ls\<rparr>)"
        "table_ok mp ((upd_proc y ?f s)\<lparr>pLists := ls\<rparr>) ?A"
      using slChange_ok [OF Cons.prems(1) y, of SLEEPING ?f ready_of "''wakeup1\<newline>''"]
        table_ok_prio_in [OF Cons.prems(1) y] by (auto simp: level_ok_ready_of)
    let ?s1 = "(upd_proc y ?f s)\<lparr>pLists := ls\<rparr>"
    have "?A Sleep = ks @ ys" using Cons.prems(2) d by (simp add: moved_from)
    moreover have "length ys \<le> n" using fuel Cons.prems(3) by simp
    ultimately obtain ls' where
      2: "wakeup1_loop n ch (head_ptr ys) ?s1 = Ok (?s1\<lparr>pt_proc := wake_procs ch ys (pt_proc ?s1), pLists := ls'\<rparr>)"
         "table_ok mp (?s1\<lparr>pt_proc := wake_procs ch ys (pt_proc ?s1), pLists := ls'\<rparr>) (wake_lists ch (pt_proc ?s1) ys ?A)"
      using Cons.IH [OF 1(2)] by blast
    have "wake_procs ch ys (pt_proc ?s1) = wake_procs ch (y # ys) (pt_proc s)"
      using True d by (auto simp: wake_procs_def)
    moreover have "wake_lists ch (pt_proc ?s1) ys ?A = wake_lists ch (pt_proc s) (y # ys) A"
      using True d wake_lists_cong [of ys "pt_proc ?s1" "pt_proc s" ch ?A] by auto
    ultimately have "?s1\<lparr>pt_proc := wake_procs ch ys (pt_proc ?s1), pLists := ls'\<rparr> =
        s\<lparr>pt_proc := wake_procs ch (y # ys) (pt_proc s), pLists := ls'\<rparr>"
      and "wake_lists ch (pt_proc ?s1) ys ?A = wake_lists ch (pt_proc s) (y # ys) A"
      by (simp_all add: upd_proc_def)
    then show ?thesis using 1(1) 2 fuel nx True by (auto simp: Let_def)
  qed
qed

lemma wakeup1_ok:
  assumes "table_ok mp s A"
  shows "\<exists>ls. wakeup1 ch s = Ok (s\<lparr>pt_proc := wake_procs ch (A Sleep) (pt_proc s), pLists := ls\<rparr>) \<and>
     table_ok mp (s\<lparr>pt_proc := wake_procs ch (A Sleep) (pt_proc s), pLists := ls\<rparr>)
       (wake_lists ch (pt_proc s) (A Sleep) A)"
  using wakeup1_loop_ok [OF assms, of "[]" "A Sleep" NPROC ch] lists_ok_length [OF table_ok_lists [OF assms], of Sleep]
  unfolding wakeup1_def lists_ok_head [OF table_ok_lists [OF assms], of Sleep] by simp

lemma wakeup_ok:
  assumes "table_ok mp s A" "unlocked c s"
  shows "\<exists>ls. wakeup c ch s = Ok (s\<lparr>pt_proc := wake_procs ch (A Sleep) (pt_proc s), pLists := ls,
                                   cpus := section_cpus c (cpus s)\<rparr>) \<and>
     table_ok mp (s\<lparr>pt_proc := wake_procs ch (A Sleep) (pt_proc s), pLists := ls,
                    cpus := section_cpus c (cpus s)\<rparr>) (wake_lists ch (pt_proc s) (A Sleep) A)"
proof -
  obtain ls where 1: "wakeup1 ch (lock_state c s) =
        Ok ((lock_state c s)\<lparr>pt_proc := wake_procs ch (A Sleep) (pt_proc s), pLists := ls\<rparr>)"
      "table_ok mp ((lock_state c s)\<lparr>pt_proc := wake_procs ch (A Sleep) (pt_proc s), pLists := ls\<rparr>)
         (wake_lists ch (pt_proc s) (A Sleep) A)"
    using wakeup1_ok [of mp "lock_state c s" A ch] assms(1) by auto
  have "release_pt c ((lock_state c s)\<lparr>pt_proc := wake_procs ch (A Sleep) (pt_proc s), pLists := ls\<rparr>) =
      Ok (s\<lparr>pt_proc := wake_procs ch (A Sleep) (pt_proc s), pLists := ls, cpus := section_cpus c (cpus s)\<rparr>)"
    by (subst release_pt_ok [OF assms(2)]) (simp_all add: lock_state_def)
  then show ?thesis using 1 assms(2) by (auto simp: wakeup_def acquire_pt_ok table_ok_def)
qed

lemma wakeup_lists:
  assumes ok: "table_ok mp s A" and lk: "unlocked c s"
  shows "\<exists>s' B. wakeup c ch s = Ok s' \<and> table_ok mp s' B \<and> unlocked c s' \<and>
    (\<forall>p. pt_proc s' p = (if p \<in> set (A Sleep) \<and> p_chan (pt_proc s p) = ch
                         then (pt_proc s p)\<lparr>p_state := RUNNABLE\<rparr> else pt_proc s p)) \<and>
    B Sleep = filter (\<lambda>p. p_chan (pt_proc s p) \<noteq> ch) (A Sleep) \<and>
    (\<forall>l. l \<noteq> Sleep \<longrightarrow> B l = A l @ filter (\<lambda>p. p_chan (pt_proc s p) = ch \<and> ready_of (pt_proc s p) = l) (A Sleep))"
proof -
  obtain ls where w: "wakeup c ch s = Ok (s\<lparr>pt_proc := wake_procs ch (A Sleep) (pt_proc s), pLists := ls,
                                   cpus := section_cpus c (cpus s)\<rparr>)" (is "_ = Ok ?s")
      "table_ok mp (s\<lparr>pt_proc := wake_procs ch (A Sleep) (pt_proc s), pLists := ls,
                    cpus := section_cpus c (cpus s)\<rparr>) (wake_lists ch (pt_proc s) (A Sleep) A)"
    using wakeup_ok [OF assms] by blast
  have "unlocked c ?s" using lk by (simp add: unlocked_def)
  moreover have "wake_lists ch (pt_proc s) (A Sleep) A Sleep = filter (\<lambda>p. p_chan (pt_proc s p) \<noteq> ch) (A Sleep)"
    using wake_lists_sleep [of "[]" "A Sleep" A ch "pt_proc s"] table_ok_distinct [OF ok] by simp
  ultimately show ?thesis using w
    by (intro exI [of _ ?s] exI [of _ "wake_lists ch (pt_proc s) (A Sleep) A"])
      (simp add: wake_procs_def wake_lists_ready)
qed

subsection \<open>\<^verbatim>\<open>sched\<close>, \<^verbatim>\<open>yield\<close>, \<^verbatim>\<open>sleep\<close>\<close>

text \<open>The fields of a process that gives up the processor at time \<open>t\<close>.\<close>

definition charged :: "32 word \<Rightarrow> proc \<Rightarrow> proc" where
  "charged t pr = pr\<lparr>p_cpu_ticks_total := p_cpu_ticks_total pr + (t - p_cpu_ticks_in pr),
                     p_budget := p_budget pr - (t - p_cpu_ticks_in pr)\<rparr>"

definition spent :: "proc \<Rightarrow> bool" where
  "spent pr \<longleftrightarrow> sint (p_budget pr) < 1"

definition demoted :: "nat \<Rightarrow> proc \<Rightarrow> proc" where
  "demoted mp pr =
     (if spent pr
      then (if p_priority pr < int mp then pr\<lparr>p_priority := p_priority pr + 1\<rparr> else pr)\<lparr>p_budget := BUDGET\<rparr>
      else pr)"

definition demote_lists :: "nat \<Rightarrow> proc \<Rightarrow> nat \<Rightarrow> (slist \<Rightarrow> nat list) \<Rightarrow> slist \<Rightarrow> nat list" where
  "demote_lists mp pr p A =
     (if spent pr \<and> p_priority pr < int mp \<and> p_state pr = RUNNABLE
      then moved p (ready_of pr) (ready_of (demoted mp pr)) A else A)"

lemma charged_simps [simp]:
  "p_state (charged t pr) = p_state pr" "p_priority (charged t pr) = p_priority pr"
  "ready_of (charged t pr) = ready_of pr" "prio_ok mp (charged t pr) = prio_ok mp pr"
  by (simp_all add: charged_def ready_of_def prio_ok_def)

lemma demoted_state [simp]: "p_state (demoted mp pr) = p_state pr"
  by (simp add: demoted_def)

lemma demoted_prio_ok: "prio_ok mp pr \<Longrightarrow> prio_ok mp (demoted mp pr)"
  by (auto simp: demoted_def prio_ok_def)

lemma table_ok_upd_prio:
  assumes ok: "table_ok mp s A" and p: "p < NPROC" and st: "p_state pr = p_state (pt_proc s p)"
    and nr: "p_state (pt_proc s p) \<noteq> RUNNABLE" and pr: "prio_ok mp pr"
  shows "table_ok mp (s\<lparr>pt_proc := (pt_proc s)(p := pr)\<rparr>) A"
proof -
  have "p_state (pt_proc s q) = list_state l \<and> level_ok mp l (((pt_proc s)(p := pr)) q)" if "q \<in> set (A l)" for q l
  proof -
    have "level_ok mp l pr" if "q = p"
      using table_ok_state [OF ok \<open>q \<in> set (A l)\<close>] that nr by (cases l) auto
    then show ?thesis
      using table_ok_state [OF ok \<open>q \<in> set (A l)\<close>] table_ok_level [OF ok \<open>q \<in> set (A l)\<close>] by simp
  qed
  then show ?thesis using ok st pr by (auto simp: table_ok_def procs_ok_def)
qed

lemma sched_demote_ok:
  assumes ok: "table_ok mp s A" and p: "p < NPROC"
    and rd: "p_state (pt_proc s p) = RUNNABLE \<Longrightarrow> p \<in> set (A (ready_of (pt_proc s p)))"
  shows "\<exists>ls. sched_demote mp p s = Ok (s\<lparr>pt_proc := (pt_proc s)(p := demoted mp (pt_proc s p)), pLists := ls\<rparr>) \<and>
     table_ok mp (s\<lparr>pt_proc := (pt_proc s)(p := demoted mp (pt_proc s p)), pLists := ls\<rparr>)
       (demote_lists mp (pt_proc s p) p A)"
proof -
  let ?pr = "pt_proc s p"
  have pok: "prio_ok mp ?pr" using ok p by (rule table_ok_prio)
  consider (keep) "\<not> spent ?pr" | (bottom) "spent ?pr" "\<not> p_priority ?pr < int mp"
    | (field) "spent ?pr" "p_priority ?pr < int mp" "p_state ?pr \<noteq> RUNNABLE"
    | (move) "spent ?pr" "p_priority ?pr < int mp" "p_state ?pr = RUNNABLE" by blast
  then show ?thesis
  proof cases
    case keep
    then show ?thesis using ok
      by (auto simp: sched_demote_def demoted_def demote_lists_def spent_def intro!: exI [of _ "pLists s"])
  next
    case bottom
    have "table_ok mp (upd_proc p (\<lambda>pr. pr\<lparr>p_budget := BUDGET\<rparr>) s) A"
      using ok by (rule table_ok_upd_proc) simp_all
    then show ?thesis using bottom
      by (auto simp: sched_demote_def demoted_def demote_lists_def spent_def upd_proc_def
          intro!: exI [of _ "pLists s"])
  next
    case field
    have "table_ok mp (s\<lparr>pt_proc := (pt_proc s)(p := demoted mp ?pr)\<rparr>) A"
      by (rule table_ok_upd_prio [OF ok p _ field(3) demoted_prio_ok [OF pok]]) simp
    then show ?thesis using field
      by (auto simp: sched_demote_def demoted_def demote_lists_def spent_def upd_proc_def Let_def
          intro!: exI [of _ "pLists s"])
  next
    case move
    have lo: "lists_ok (pLists s) A" and po: "procs_ok mp (pt_proc s) A" using ok by (simp_all add: table_ok_def)
    have in_rd: "p \<in> set (A (ready_of ?pr))" using rd move(3) .
    have k: "ready_of (demoted mp ?pr) = Ready (nat (p_priority ?pr + 1))"
      using move by (simp add: demoted_def ready_of_def)
    obtain ls1 ls2 where m: "slRemove (ready_of ?pr) (Some p) s = Ok (0, s\<lparr>pLists := ls1\<rparr>)"
        "stateListAdd (ready_of (demoted mp ?pr)) p ls1 = Ok (0, ls2)"
        "lists_ok ls2 (moved p (ready_of ?pr) (ready_of (demoted mp ?pr)) A)"
      using slMove_ok [OF lo in_rd] by blast
    have "procs_ok mp ((pt_proc s)(p := demoted mp ?pr)) (moved p (ready_of ?pr) (ready_of (demoted mp ?pr)) A)"
      by (rule procs_ok_moved [OF lo po in_rd]) (simp_all add: move(3) level_ok_ready_of demoted_prio_ok pok)
    moreover have "sched_demote mp p s = Ok (s\<lparr>pt_proc := (pt_proc s)(p := demoted mp ?pr), pLists := ls2\<rparr>)"
      using move m k by (simp add: sched_demote_def slAdd_def upd_proc_def demoted_def spent_def Let_def)
    ultimately show ?thesis using m(3) move by (auto simp: table_ok_def demote_lists_def)
  qed
qed

definition resched :: "nat \<Rightarrow> 32 word \<Rightarrow> proc \<Rightarrow> proc" where
  "resched mp t pr = demoted mp (charged t pr)"

lemma sched_ok:
  assumes ok: "table_ok mp s A" and p: "p < NPROC" and cur: "c_proc (cpus s c) = Some p"
    and lk: "locked_by c s" "c_ncli (cpus s c) = 1"
    and st: "p_state (pt_proc s p) \<noteq> RUNNING"
    and rd: "p_state (pt_proc s p) = RUNNABLE \<Longrightarrow> p \<in> set (A (ready_of (pt_proc s p)))"
  shows "\<exists>ls. sched mp c s = Ok (c_intena (cpus s c),
              s\<lparr>pt_proc := (pt_proc s)(p := resched mp (ticks s) (pt_proc s p)), pLists := ls\<rparr>) \<and>
     table_ok mp (s\<lparr>pt_proc := (pt_proc s)(p := resched mp (ticks s) (pt_proc s p)), pLists := ls\<rparr>)
       (demote_lists mp (charged (ticks s) (pt_proc s p)) p A)"
proof -
  let ?s1 = "sched_account p s"
  have s1: "?s1 = upd_proc p (charged (ticks s)) s" by (simp add: sched_account_def upd_proc_def charged_def)
  have "table_ok mp ?s1 A" unfolding s1 using ok by (rule table_ok_upd_proc) simp_all
  from sched_demote_ok [OF this p] obtain ls where
    "sched_demote mp p ?s1 = Ok (?s1\<lparr>pt_proc := (pt_proc ?s1)(p := demoted mp (pt_proc ?s1 p)), pLists := ls\<rparr>)"
    "table_ok mp (?s1\<lparr>pt_proc := (pt_proc ?s1)(p := demoted mp (pt_proc ?s1 p)), pLists := ls\<rparr>)
       (demote_lists mp (pt_proc ?s1 p) p A)"
    using rd by (auto simp: s1)
  then show ?thesis using cur lk st
    by (auto simp: sched_def with_proc_def locked_by_def s1 resched_def upd_proc_def)
qed

lemma pushcli_intena [simp]: "c_ncli cp = 0 \<Longrightarrow> c_intena (pushcli cp) = c_if cp"
  by (simp add: pushcli_def Let_def)

text \<open>A state change of the running process that is followed by \<^verbatim>\<open>sched\<close>.\<close>

lemma change_sched_ok:
  assumes ok: "table_ok mp s A" and cur: "c_proc (cpus s c) = Some p" and run: "p \<in> set (A Running)"
    and lk: "locked_by c s" "c_ncli (cpus s c) = 1"
    and f: "\<And>pr. p_state (f pr) = st" "\<And>pr. p_priority (f pr) = p_priority pr" "\<And>pr. f (f pr) = f pr"
    and l': "\<And>pr. list_state (l' pr) = st" "\<And>pr. prio_ok mp pr \<Longrightarrow> level_ok mp (l' pr) pr"
      "st = RUNNABLE \<Longrightarrow> l' = ready_of" and st: "st \<noteq> RUNNING"
  shows "\<exists>ls. rbind (slChange Running p RUNNING f l' msg s) (\<lambda>s2. sched mp c (upd_proc p f s2)) =
       Ok (c_intena (cpus s c), s\<lparr>pt_proc := (pt_proc s)(p := resched mp (ticks s) (f (pt_proc s p))), pLists := ls\<rparr>) \<and>
     table_ok mp (s\<lparr>pt_proc := (pt_proc s)(p := resched mp (ticks s) (f (pt_proc s p))), pLists := ls\<rparr>)
       (demote_lists mp (charged (ticks s) (f (pt_proc s p))) p (moved p Running (l' (f (pt_proc s p))) A))"
proof -
  let ?pr = "f (pt_proc s p)"
  have pn: "p < NPROC" using ok run by (rule table_ok_bound)
  have pok: "prio_ok mp ?pr" using table_ok_prio [OF ok pn] f(2) by (simp add: prio_ok_def)
  obtain ls where 1: "slChange Running p RUNNING f l' msg s = Ok ((upd_proc p f s)\<lparr>pLists := ls\<rparr>)"
      "table_ok mp ((upd_proc p f s)\<lparr>pLists := ls\<rparr>) (moved p Running (l' ?pr) A)"
    using slChange_ok [OF ok run, of RUNNING f l' msg] pok f l' by auto
  let ?s2 = "upd_proc p f ((upd_proc p f s)\<lparr>pLists := ls\<rparr>)"
  have s2: "?s2 = (upd_proc p f s)\<lparr>pLists := ls\<rparr>" using f(3) by (simp add: upd_proc_def)
  have rd: "p \<in> set (moved p Running (l' ?pr) A (ready_of (pt_proc ?s2 p)))" if "p_state (pt_proc ?s2 p) = RUNNABLE"
    using that f(1,3) l'(3) by (simp add: slmoved_set [OF table_ok_lists [OF ok] run])
  from sched_ok [of mp ?s2 "moved p Running (l' ?pr) A" p c] 1(2) pn cur lk st rd f(1,3)
  obtain ls' where "sched mp c ?s2 = Ok (c_intena (cpus s c),
       ?s2\<lparr>pt_proc := (pt_proc ?s2)(p := resched mp (ticks s) ?pr), pLists := ls'\<rparr>)"
     "table_ok mp (?s2\<lparr>pt_proc := (pt_proc ?s2)(p := resched mp (ticks s) ?pr), pLists := ls'\<rparr>)
        (demote_lists mp (charged (ticks s) ?pr) p (moved p Running (l' ?pr) A))"
    unfolding s2 by (auto simp: locked_by_def)
  then show ?thesis using 1(1) s2 by (auto simp: upd_proc_def)
qed

lemma yield_ok:
  assumes ok: "table_ok mp s A" and cur: "c_proc (cpus s c) = Some p" and run: "p \<in> set (A Running)"
    and lk: "unlocked c s" "c_ncli (cpus s c) = 0"
  shows "\<exists>ls. yield mp c s = Ok (c_if (cpus s c), (lock_state c s)\<lparr>
              pt_proc := (pt_proc s)(p := resched mp (ticks s) ((pt_proc s p)\<lparr>p_state := RUNNABLE\<rparr>)), pLists := ls\<rparr>) \<and>
     table_ok mp ((lock_state c s)\<lparr>
              pt_proc := (pt_proc s)(p := resched mp (ticks s) ((pt_proc s p)\<lparr>p_state := RUNNABLE\<rparr>)), pLists := ls\<rparr>)
       (demote_lists mp (charged (ticks s) ((pt_proc s p)\<lparr>p_state := RUNNABLE\<rparr>)) p
          (moved p Running (ready_of (pt_proc s p)) A))"
proof -
  let ?f = "\<lambda>pr. pr\<lparr>p_state := RUNNABLE\<rparr>"
  have "table_ok mp (lock_state c s) A" "locked_by c (lock_state c s)"
    "c_proc (cpus (lock_state c s) c) = Some p" "c_ncli (cpus (lock_state c s) c) = 1"
    using ok lk cur by (simp_all add: lock_state_locked)
  from change_sched_ok [OF this(1,3) run this(2,4), of ?f RUNNABLE ready_of "''Yield\<newline>''"]
  show ?thesis using lk cur
    by (auto simp: yield_def acquire_pt_ok with_proc_def level_ok_ready_of)
qed

text \<open>Where the lists differ after a yield: the process goes to the end of the list of its new priority.\<close>

lemma yield_lists:
  assumes ok: "table_ok mp s A" and cur: "c_proc (cpus s c) = Some p" and run: "p \<in> set (A Running)"
    and lk: "unlocked c s" "c_ncli (cpus s c) = 0"
  defines "pr \<equiv> resched mp (ticks s) ((pt_proc s p)\<lparr>p_state := RUNNABLE\<rparr>)"
  shows "\<exists>s' B. yield mp c s = Ok (c_if (cpus s c), s') \<and> table_ok mp s' B \<and> locked_by c s' \<and>
    pt_proc s' = (pt_proc s)(p := pr) \<and>
    B Running = remove1 p (A Running) \<and> last (B (ready_of pr)) = p \<and>
    (\<forall>l. l \<noteq> Running \<longrightarrow> l \<noteq> ready_of pr \<longrightarrow> B l = A l)"
proof -
  let ?q = "charged (ticks s) ((pt_proc s p)\<lparr>p_state := RUNNABLE\<rparr>)" and ?M = "moved p Running (ready_of (pt_proc s p)) A"
  have nr: "p \<notin> set (A (ready_of (pt_proc s p)))" using table_ok_same [OF ok run] ready_of_neq(7) by blast
  have B: "demote_lists mp ?q p ?M Running = remove1 p (A Running) \<and> last (demote_lists mp ?q p ?M (ready_of pr)) = p \<and>
      (\<forall>l. l \<noteq> Running \<longrightarrow> l \<noteq> ready_of pr \<longrightarrow> demote_lists mp ?q p ?M l = A l)"
    using nr by (auto simp: demote_lists_def pr_def resched_def moved_def Let_def demoted_def ready_of_def remove1_append)
  obtain ls where y: "yield mp c s = Ok (c_if (cpus s c), (lock_state c s)\<lparr>pt_proc := (pt_proc s)(p := pr), pLists := ls\<rparr>)"
      "table_ok mp ((lock_state c s)\<lparr>pt_proc := (pt_proc s)(p := pr), pLists := ls\<rparr>) (demote_lists mp ?q p ?M)"
    using yield_ok [OF ok cur run lk] unfolding pr_def by blast
  moreover have "locked_by c ((lock_state c s)\<lparr>pt_proc := (pt_proc s)(p := pr), pLists := ls\<rparr>)"
    using lock_state_locked [OF lk(1)] by (simp add: locked_by_def)
  moreover have "pt_proc ((lock_state c s)\<lparr>pt_proc := (pt_proc s)(p := pr), pLists := ls\<rparr>) = (pt_proc s)(p := pr)"
    by simp
  ultimately show ?thesis using B by blast
qed

text \<open>
  \<open>sleep\<close> is called with \<^verbatim>\<open>ptable.lock\<close> held, with no lock, or with one other lock held; in
  each case the processor holds \<^verbatim>\<open>ptable.lock\<close> alone when it switches.
\<close>

definition sleep_locked :: "nat \<Rightarrow> sleeplock \<Rightarrow> 'a ptable_scheme \<Rightarrow> 'a ptable_scheme \<Rightarrow> bool" where
  "sleep_locked c lk s s1 \<longleftrightarrow>
     (case lk of
        PtableLock \<Rightarrow> locked_by c s \<and> c_ncli (cpus s c) = 1 \<and> s1 = s
      | NoLock \<Rightarrow> unlocked c s \<and> c_ncli (cpus s c) = 0 \<and> s1 = lock_state c s
      | OtherLock l \<Rightarrow> unlocked c s \<and> holding c l \<and> c_ncli (cpus s c) = 1 \<and> s1 = (lock_state c s)\<lparr>cpus := cpus s\<rparr>)"

definition released_lk :: "sleeplock \<Rightarrow> sleeplock" where
  "released_lk lk = (case lk of OtherLock l \<Rightarrow> OtherLock (l\<lparr>locked := False, lk_cpu := None\<rparr>) | _ \<Rightarrow> lk)"

lemma sleep_locks:
  assumes "sleep_locked c lk s s1"
  shows "(if lk \<noteq> PtableLock then rbind (acquire_pt c s) (release_lk c lk) else Ok (lk, s)) = Ok (released_lk lk, s1)"
    and "locked_by c s1" "c_ncli (cpus s1 c) = 1"
    and "pt_proc s1 = pt_proc s" "pLists s1 = pLists s" "ticks s1 = ticks s" "c_proc (cpus s1 c) = c_proc (cpus s c)"
proof -
  have o: "release_lk c (OtherLock l) (lock_state c s) =
      Ok (OtherLock (l\<lparr>locked := False, lk_cpu := None\<rparr>), (lock_state c s)\<lparr>cpus := cpus s\<rparr>)"
    if "unlocked c s" "holding c l" "c_ncli (cpus s c) = 1" for l
    using that
    by (cases "cpus s c") (auto simp: release_lk_def release_def popcli_def unlocked_def cpu_ok_def pushcli_def
        lock_state_def fun_upd_idem Let_def)
  show "(if lk \<noteq> PtableLock then rbind (acquire_pt c s) (release_lk c lk) else Ok (lk, s)) = Ok (released_lk lk, s1)"
    using assms o by (auto simp: sleep_locked_def released_lk_def acquire_pt_ok release_lk_def split: sleeplock.splits)
  show "locked_by c s1" "c_ncli (cpus s1 c) = 1"
    "pt_proc s1 = pt_proc s" "pLists s1 = pLists s" "ticks s1 = ticks s" "c_proc (cpus s1 c) = c_proc (cpus s c)"
    using assms by (auto simp: sleep_locked_def locked_by_def unlocked_def cpu_ok_def split: sleeplock.splits)
qed

lemma sleep_ok:
  assumes ok: "table_ok mp s A" and cur: "c_proc (cpus s c) = Some p" and run: "p \<in> set (A Running)"
    and lk: "sleep_locked c lk s s1"
  shows "\<exists>ls. sleep mp c ch lk s = Ok (c_intena (cpus s1 c), released_lk lk, s1\<lparr>
              pt_proc := (pt_proc s)(p := resched mp (ticks s) ((pt_proc s p)\<lparr>p_chan := ch, p_state := SLEEPING\<rparr>)),
              pLists := ls\<rparr>) \<and>
     table_ok mp (s1\<lparr>
              pt_proc := (pt_proc s)(p := resched mp (ticks s) ((pt_proc s p)\<lparr>p_chan := ch, p_state := SLEEPING\<rparr>)),
              pLists := ls\<rparr>) (moved p Running Sleep A)"
proof -
  note sl = sleep_locks [OF lk]
  let ?f = "\<lambda>pr. pr\<lparr>p_state := SLEEPING\<rparr>" and ?s2 = "upd_proc p (\<lambda>pr. pr\<lparr>p_chan := ch\<rparr>) s1"
  have ok1: "table_ok mp s1 A" using ok by (simp add: table_ok_def sl)
  have "table_ok mp ?s2 A" using ok1 by (rule table_ok_upd_proc) simp_all
  moreover have "locked_by c ?s2" "c_proc (cpus ?s2 c) = Some p" "c_ncli (cpus ?s2 c) = 1"
    using sl cur by simp_all
  ultimately obtain ls where "rbind (slChange Running p RUNNING ?f (\<lambda>_. Sleep) ''Sleep\<newline>'' ?s2) (\<lambda>s2. sched mp c (upd_proc p ?f s2)) =
       Ok (c_intena (cpus ?s2 c), ?s2\<lparr>pt_proc := (pt_proc ?s2)(p := resched mp (ticks ?s2) (?f (pt_proc ?s2 p))), pLists := ls\<rparr>)"
     "table_ok mp (?s2\<lparr>pt_proc := (pt_proc ?s2)(p := resched mp (ticks ?s2) (?f (pt_proc ?s2 p))), pLists := ls\<rparr>)
       (demote_lists mp (charged (ticks ?s2) (?f (pt_proc ?s2 p))) p (moved p Running Sleep A))"
    using change_sched_ok [of mp ?s2 A c p ?f SLEEPING "\<lambda>_. Sleep" "''Sleep\<newline>''"] run by auto
  moreover have "sleep mp c ch lk s =
      rbind (rbind (slChange Running p RUNNING ?f (\<lambda>_. Sleep) ''Sleep\<newline>'' ?s2) (\<lambda>s2. sched mp c (upd_proc p ?f s2)))
        (\<lambda>(intena, s3). Ok (intena, released_lk lk, s3))"
    unfolding sleep_def using cur sl(1) by (simp add: rbind_assoc)
  ultimately show ?thesis using sl(4,6) by (auto simp: upd_proc_def demote_lists_def)
qed

lemma sleep_lists:
  assumes ok: "table_ok mp s A" and cur: "c_proc (cpus s c) = Some p" and run: "p \<in> set (A Running)"
    and lk: "sleep_locked c lk s s1"
  shows "\<exists>s'. sleep mp c ch lk s = Ok (c_intena (cpus s1 c), released_lk lk, s') \<and> locked_by c s' \<and>
    table_ok mp s' (moved p Running Sleep A) \<and> p_state (pt_proc s' p) = SLEEPING \<and> p_chan (pt_proc s' p) = ch \<and>
    (\<forall>q. q \<noteq> p \<longrightarrow> pt_proc s' q = pt_proc s q)"
proof -
  let ?pr = "resched mp (ticks s) ((pt_proc s p)\<lparr>p_chan := ch, p_state := SLEEPING\<rparr>)"
  obtain ls where w: "sleep mp c ch lk s = Ok (c_intena (cpus s1 c), released_lk lk,
              s1\<lparr>pt_proc := (pt_proc s)(p := ?pr), pLists := ls\<rparr>)" (is "_ = Ok (_, _, ?s)")
      "table_ok mp (s1\<lparr>pt_proc := (pt_proc s)(p := ?pr), pLists := ls\<rparr>) (moved p Running Sleep A)"
    using sleep_ok [OF assms] by blast
  have "locked_by c ?s" using sleep_locks(2) [OF lk] by (simp add: locked_by_def)
  moreover have "p_state ?pr = SLEEPING" "p_chan ?pr = ch"
    by (simp_all add: resched_def demoted_def charged_def)
  ultimately show ?thesis using w by (intro exI [of _ ?s]) simp
qed

subsection \<open>\<^verbatim>\<open>kill\<close>\<close>

lemma find_append: "find P (xs @ ys) = (case find P xs of Some x \<Rightarrow> Some x | None \<Rightarrow> find P ys)"
  by (induction xs) auto

lemma find_concat:
  "find P (concat (map (\<lambda>i. A (Ready i)) is)) = map_option snd (first_level P is A)"
  by (induction "is") (auto simp: find_append split: option.splits)

text \<open>The order in which \<^verbatim>\<open>kill\<close> searches the lists; the free list is not searched.\<close>

definition kill_order :: "nat \<Rightarrow> (slist \<Rightarrow> nat list) \<Rightarrow> nat list" where
  "kill_order mp A = A Running @ A Sleep @ concat (map (\<lambda>i. A (Ready i)) [0..<mp + 1]) @ A Zombie @ A Embryo"

definition kill_target :: "nat \<Rightarrow> 32 word \<Rightarrow> 'a ptable_scheme \<Rightarrow> (slist \<Rightarrow> nat list) \<Rightarrow> nat option" where
  "kill_target mp pid s A = find (\<lambda>p. p_pid (pt_proc s p) = pid) (kill_order mp A)"

definition kill_proc :: "proc \<Rightarrow> proc" where
  "kill_proc pr = (let pr1 = pr\<lparr>p_killed := True\<rparr>
                   in if p_state pr = SLEEPING then pr1\<lparr>p_state := RUNNABLE\<rparr> else pr1)"

definition kill_lists :: "nat \<Rightarrow> (slist \<Rightarrow> nat list) \<Rightarrow> slist \<Rightarrow> nat list" where
  "kill_lists p A = (if p \<in> set (A Sleep) then moved p Sleep (Ready 0) A else A)"

lemma section_release:
  assumes "unlocked c s"
  shows "release_pt c ((lock_state c s)\<lparr>pt_proc := ps, pLists := ls\<rparr>) =
           Ok (s\<lparr>pt_proc := ps, pLists := ls, cpus := section_cpus c (cpus s)\<rparr>)"
  by (subst release_pt_ok [OF assms]) (simp_all add: lock_state_def)

lemma section_release_upd:
  assumes "unlocked c s"
  shows "release_pt c (upd_proc p f (lock_state c s)) =
           Ok ((upd_proc p f s)\<lparr>cpus := section_cpus c (cpus s)\<rparr>)"
    and "release_pt c ((upd_proc p f (lock_state c s))\<lparr>pLists := ls\<rparr>) =
           Ok ((upd_proc p f s)\<lparr>pLists := ls, cpus := section_cpus c (cpus s)\<rparr>)"
    and "release_pt c (lock_state c s) = Ok (s\<lparr>cpus := section_cpus c (cpus s)\<rparr>)"
  by (subst release_pt_ok [OF assms]; simp add: lock_state_def upd_proc_def)+

lemma table_ok_cpus [simp]: "table_ok mp (s\<lparr>cpus := cs\<rparr>) A = table_ok mp s A"
  by (simp add: table_ok_def)

lemma upd_proc_same_lists [simp]: "(upd_proc p f s)\<lparr>pLists := pLists s\<rparr> = upd_proc p f s"
  by (simp add: upd_proc_def)

lemma kill_mark_ok:
  assumes ok: "table_ok mp s A" and lk: "unlocked c s" and p: "p \<in> set (A l)" and l: "l \<noteq> Sleep"
  shows "\<exists>ls. kill_mark c p (lock_state c s) =
              Ok (0, (upd_proc p kill_proc s)\<lparr>pLists := ls, cpus := section_cpus c (cpus s)\<rparr>) \<and>
     table_ok mp ((upd_proc p kill_proc s)\<lparr>pLists := ls, cpus := section_cpus c (cpus s)\<rparr>) (kill_lists p A)"
proof -
  have ns: "p \<notin> set (A Sleep)" using table_ok_same [OF ok p, of Sleep] l by auto
  have "p_state (pt_proc s p) \<noteq> SLEEPING" using table_ok_state [OF ok p] l by (cases l) auto
  then have eq: "upd_proc p kill_proc s = upd_proc p (\<lambda>pr. pr\<lparr>p_killed := True\<rparr>) s"
    by (simp add: upd_proc_def kill_proc_def)
  moreover have "table_ok mp (upd_proc p (\<lambda>pr. pr\<lparr>p_killed := True\<rparr>) s) A"
    using ok by (rule table_ok_upd_proc) simp_all
  ultimately show ?thesis using lk ns
    by (auto simp: kill_mark_def section_release_upd kill_lists_def intro!: exI [of _ "pLists s"])
qed

lemma kill_sleep_ok:
  assumes ok: "table_ok mp s A" and lk: "unlocked c s" and p: "p \<in> set (A Sleep)"
  shows "\<exists>ls. rbind (slChange Sleep p SLEEPING (\<lambda>pr. pr\<lparr>p_state := RUNNABLE\<rparr>) (\<lambda>_. Ready 0) ''kill\<newline>''
                  (upd_proc p (\<lambda>pr. pr\<lparr>p_killed := True\<rparr>) (lock_state c s))) (\<lambda>s2.
                rbind (release_pt c s2) (\<lambda>s3. Ok (0, s3))) =
              Ok (0, (upd_proc p kill_proc s)\<lparr>pLists := ls, cpus := section_cpus c (cpus s)\<rparr>) \<and>
     table_ok mp ((upd_proc p kill_proc s)\<lparr>pLists := ls, cpus := section_cpus c (cpus s)\<rparr>) (kill_lists p A)"
proof -
  let ?f = "\<lambda>pr. pr\<lparr>p_state := RUNNABLE\<rparr>" and ?s1 = "upd_proc p (\<lambda>pr. pr\<lparr>p_killed := True\<rparr>) (lock_state c s)"
  have "table_ok mp ?s1 A" using ok by (intro table_ok_upd_proc) simp_all
  from slChange_ok [OF this p, of SLEEPING ?f "\<lambda>_. Ready 0" "''kill\<newline>''"] obtain ls where
    1: "slChange Sleep p SLEEPING ?f (\<lambda>_. Ready 0) ''kill\<newline>'' ?s1 = Ok ((upd_proc p ?f ?s1)\<lparr>pLists := ls\<rparr>)"
       "table_ok mp ((upd_proc p ?f ?s1)\<lparr>pLists := ls\<rparr>) (moved p Sleep (Ready 0) A)"
    using table_ok_prio_in [OF ok p] by auto
  have eq: "(upd_proc p ?f ?s1)\<lparr>pLists := ls\<rparr> = (upd_proc p kill_proc (lock_state c s))\<lparr>pLists := ls\<rparr>"
    using table_ok_state [OF ok p] by (simp add: upd_proc_def kill_proc_def)
  then show ?thesis using 1 p lk by (auto simp: section_release_upd kill_lists_def table_ok_def)
qed

lemma kill_ok:
  assumes ok: "table_ok mp s A" and lk: "unlocked c s"
  shows "case kill_target mp pid s A of
      None \<Rightarrow> kill mp c pid s = Ok (-1, s\<lparr>cpus := section_cpus c (cpus s)\<rparr>)
    | Some p \<Rightarrow> \<exists>ls. kill mp c pid s = Ok (0, (upd_proc p kill_proc s)\<lparr>pLists := ls, cpus := section_cpus c (cpus s)\<rparr>) \<and>
        table_ok mp ((upd_proc p kill_proc s)\<lparr>pLists := ls, cpus := section_cpus c (cpus s)\<rparr>) (kill_lists p A)"
proof -
  have lo: "lists_ok (pLists (lock_state c s)) A" using ok by (simp add: table_ok_lists)
  let ?P = "\<lambda>p. p_pid (pt_proc s p) = pid"
  note unf = kill_def acquire_pt_ok [OF lk] Let_def find_list_find [OF lo, simplified]
    find_levels_first [OF lo, simplified] kill_target_def kill_order_def find_append find_concat
  consider (run) p where "find ?P (A Running) = Some p"
    | (sleep) p where "find ?P (A Running) = None" "find ?P (A Sleep) = Some p"
    | (ready) i p where "find ?P (A Running) = None" "find ?P (A Sleep) = None"
        "first_level ?P [0..<mp + 1] A = Some (i, p)"
    | (zombie) p where "find ?P (A Running) = None" "find ?P (A Sleep) = None"
        "first_level ?P [0..<mp + 1] A = None" "find ?P (A Zombie) = Some p"
    | (embryo) p where "find ?P (A Running) = None" "find ?P (A Sleep) = None"
        "first_level ?P [0..<mp + 1] A = None" "find ?P (A Zombie) = None" "find ?P (A Embryo) = Some p"
    | (none) "find ?P (A Running) = None" "find ?P (A Sleep) = None"
        "first_level ?P [0..<mp + 1] A = None" "find ?P (A Zombie) = None" "find ?P (A Embryo) = None"
    by (metis not_Some_eq surj_pair)
  then show ?thesis
  proof cases
    case run
    then show ?thesis using kill_mark_ok [OF ok lk, of p Running] find_SomeD [OF run] by (simp add: unf del: upt_Suc)
  next
    case sleep
    then show ?thesis using kill_sleep_ok [OF ok lk, of p] find_SomeD [OF sleep(2)] by (simp add: unf del: upt_Suc)
  next
    case ready
    then show ?thesis using kill_mark_ok [OF ok lk, of p "Ready i"] first_level_Some [OF ready(3)] by (simp add: unf del: upt_Suc)
  next
    case zombie
    then show ?thesis using kill_mark_ok [OF ok lk, of p Zombie] find_SomeD [OF zombie(4)] by (simp add: unf del: upt_Suc)
  next
    case embryo
    then show ?thesis using kill_mark_ok [OF ok lk, of p Embryo] find_SomeD [OF embryo(5)] by (simp add: unf del: upt_Suc)
  next
    case none
    then show ?thesis by (simp add: unf section_release_upd [OF lk] del: upt_Suc)
  qed
qed

lemma kill_lists_ok:
  assumes ok: "table_ok mp s A" and lk: "unlocked c s"
  shows "case kill_target mp pid s A of
      None \<Rightarrow> kill mp c pid s = Ok (-1, s\<lparr>cpus := section_cpus c (cpus s)\<rparr>)
    | Some p \<Rightarrow> \<exists>s'. kill mp c pid s = Ok (0, s') \<and> table_ok mp s' (kill_lists p A) \<and> unlocked c s' \<and>
        pt_proc s' = (pt_proc s)(p := kill_proc (pt_proc s p)) \<and> p_pid (pt_proc s p) = pid \<and>
        p_state (pt_proc s p) \<noteq> UNUSED"
proof (cases "kill_target mp pid s A")
  case None
  then show ?thesis using kill_ok [OF ok lk, of pid] by simp
next
  case (Some p)
  obtain ls where k: "kill mp c pid s = Ok (0, (upd_proc p kill_proc s)\<lparr>pLists := ls, cpus := section_cpus c (cpus s)\<rparr>)"
      (is "_ = Ok (0, ?s)")
      "table_ok mp ((upd_proc p kill_proc s)\<lparr>pLists := ls, cpus := section_cpus c (cpus s)\<rparr>) (kill_lists p A)"
    using kill_ok [OF ok lk, of pid] Some by auto
  have p: "p \<in> set (kill_order mp A)" "p_pid (pt_proc s p) = pid"
    using find_SomeD [OF Some [unfolded kill_target_def]] by auto
  then obtain l where "p \<in> set (A l)" "l \<noteq> Free" by (auto simp: kill_order_def simp del: upt_Suc)
  then have "p_state (pt_proc s p) \<noteq> UNUSED" using table_ok_state [OF ok] by (cases l) auto
  moreover have "unlocked c ?s" using lk by (simp add: unlocked_def)
  ultimately show ?thesis using Some k p by simp
qed

end
