(* ===== verification/SchedOps.thy ===== *)
theory SchedOps
  imports TableOps
begin

text \<open>
  The multi-level feedback queue: \<^verbatim>\<open>setpriority\<close>, the promotion of all processes, and a round
  of the scheduler loop.
\<close>

subsection \<open>Promotion\<close>

definition raised :: "proc \<Rightarrow> proc" where
  "raised pr = (if p_priority pr > 0 then pr\<lparr>p_priority := p_priority pr - 1\<rparr> else pr)"

definition raise_procs :: "nat set \<Rightarrow> (nat \<Rightarrow> proc) \<Rightarrow> nat \<Rightarrow> proc" where
  "raise_procs X ps = (\<lambda>p. if p \<in> X then raised (ps p) else ps p)"

lemma raised_state [simp]: "p_state (raised pr) = p_state pr"
  by (simp add: raised_def)

lemma raised_prio_ok: "prio_ok mp pr \<Longrightarrow> prio_ok mp (raised pr)"
  by (auto simp: raised_def prio_ok_def)

lemma raise_procs_empty [simp]: "raise_procs {} ps = ps"
  by (simp add: raise_procs_def)

lemma raise_procs_insert:
  "y \<notin> X \<Longrightarrow> raise_procs X (ps(y := raised (ps y))) = raise_procs (insert y X) ps"
  by (auto simp: raise_procs_def)

lemma raise_procs_un:
  "X \<inter> Y = {} \<Longrightarrow> raise_procs Y (raise_procs X ps) = raise_procs (X \<union> Y) ps"
  by (auto simp: raise_procs_def fun_eq_iff)

lemma promote_in_place_ok:
  "table_ok mp s A \<Longrightarrow> A l = ks @ ys \<Longrightarrow> list_state l \<noteq> RUNNABLE \<Longrightarrow> length ys \<le> fuel \<Longrightarrow>
   promote_in_place fuel msg (head_ptr ys) s = Ok (s\<lparr>pt_proc := raise_procs (set ys) (pt_proc s)\<rparr>) \<and>
   table_ok mp (s\<lparr>pt_proc := raise_procs (set ys) (pt_proc s)\<rparr>) A"
proof (induction ys arbitrary: ks s fuel)
  case Nil
  then show ?case by simp
next
  case (Cons y ys)
  obtain n where fuel: "fuel = Suc n" using Cons.prems(4) by (cases fuel) auto
  have y: "y \<in> set (A l)" using Cons.prems(2) by simp
  have nx: "p_next (pLists s) y = head_ptr ys"
    using head_ptr_next [OF table_ok_lists [OF Cons.prems(1)] Cons.prems(2)] .
  have d: "y \<notin> set ys" using table_ok_distinct [OF Cons.prems(1), of l] Cons.prems(2) by simp
  have pok: "prio_ok mp (pt_proc s y)" using Cons.prems(1) y by (rule table_ok_prio_in)
  let ?s1 = "s\<lparr>pt_proc := (pt_proc s)(y := raised (pt_proc s y))\<rparr>"
  have "table_ok mp ?s1 A"
    by (rule table_ok_upd_prio [OF Cons.prems(1) table_ok_bound [OF Cons.prems(1) y]])
       (use table_ok_state [OF Cons.prems(1) y] Cons.prems(3) raised_prio_ok [OF pok] in simp_all)
  then have IH: "promote_in_place n msg (head_ptr ys) ?s1 = Ok (?s1\<lparr>pt_proc := raise_procs (set ys) (pt_proc ?s1)\<rparr>) \<and>
     table_ok mp (?s1\<lparr>pt_proc := raise_procs (set ys) (pt_proc ?s1)\<rparr>) A"
    by (rule Cons.IH [where ks = "ks @ [y]"]) (use Cons.prems fuel in simp_all)
  have eq: "raise_procs (set ys) (pt_proc ?s1) = raise_procs (set (y # ys)) (pt_proc s)"
    using raise_procs_insert [OF d] by simp
  have step: "promote_in_place fuel msg (head_ptr (y # ys)) s = promote_in_place n msg (head_ptr ys) ?s1"
    using fuel nx pok by (simp add: raised_def prio_ok_def upd_proc_def Let_def)
  show ?case using IH unfolding step eq by simp
qed

lemma promote_level_ok:
  "table_ok mp s A \<Longrightarrow> A (Ready (Suc i)) = ys \<Longrightarrow> length ys \<le> fuel \<Longrightarrow>
   \<exists>ls. promote_level fuel (Suc i) (head_ptr ys) s = Ok (s\<lparr>pt_proc := raise_procs (set ys) (pt_proc s), pLists := ls\<rparr>) \<and>
     table_ok mp (s\<lparr>pt_proc := raise_procs (set ys) (pt_proc s), pLists := ls\<rparr>)
       (A(Ready (Suc i) := [], Ready i := A (Ready i) @ ys))"
proof (induction ys arbitrary: s A fuel)
  case Nil
  then have eq: "A(Ready (Suc i) := [], Ready i := A (Ready i) @ []) = A" by auto
  show ?case unfolding eq using Nil(1) by (auto intro!: exI [of _ "pLists s"])
next
  case (Cons y ys)
  obtain n where fuel: "fuel = Suc n" using Cons.prems(3) by (cases fuel) auto
  have lo: "lists_ok (pLists s) A" and po: "procs_ok mp (pt_proc s) A"
    using Cons.prems(1) by (simp_all add: table_ok_def)
  have y: "y \<in> set (A (Ready (Suc i)))" using Cons.prems(2) by simp
  have nx: "p_next (pLists s) y = head_ptr ys" using head_ptr_next [OF lo, of "Ready (Suc i)" "[]"] Cons.prems(2) by simp
  have d: "y \<notin> set ys" using table_ok_distinct [OF Cons.prems(1), of "Ready (Suc i)"] Cons.prems(2) by simp
  have lv: "p_priority (pt_proc s y) = int (Suc i)" "Suc i \<le> mp"
    using table_ok_level [OF Cons.prems(1) y] by (auto simp: level_ok_def)
  let ?pr = "raised (pt_proc s y)" and ?A = "moved y (Ready (Suc i)) (Ready i) A"
  obtain ls1 ls2 where m: "slRemove (Ready (Suc i)) (Some y) s = Ok (0, s\<lparr>pLists := ls1\<rparr>)"
      "stateListAdd (Ready i) y ls1 = Ok (0, ls2)" "lists_ok ls2 ?A"
    using slMove_ok [OF lo y] by blast
  let ?s1 = "s\<lparr>pt_proc := (pt_proc s)(y := ?pr), pLists := ls2\<rparr>"
  have "procs_ok mp ((pt_proc s)(y := ?pr)) ?A"
    by (rule procs_ok_moved [OF lo po y])
       (use table_ok_state [OF Cons.prems(1) y] lv in \<open>simp_all add: level_ok_def raised_def prio_ok_def\<close>)
  then have ok1: "table_ok mp ?s1 ?A" using m(3) by (simp add: table_ok_def)
  have A1: "?A (Ready (Suc i)) = ys" "?A (Ready i) = A (Ready i) @ [y]" using Cons.prems(2) by (simp_all add: moved_def Let_def)
  obtain ls where IH: "promote_level n (Suc i) (head_ptr ys) ?s1 = Ok (?s1\<lparr>pt_proc := raise_procs (set ys) (pt_proc ?s1), pLists := ls\<rparr>)"
     "table_ok mp (?s1\<lparr>pt_proc := raise_procs (set ys) (pt_proc ?s1), pLists := ls\<rparr>)
        (?A(Ready (Suc i) := [], Ready i := ?A (Ready i) @ ys))"
    using Cons.IH [OF ok1 A1(1), of n] Cons.prems(3) fuel by (metis Suc_le_mono length_Cons)
  have eq: "raise_procs (set ys) (pt_proc ?s1) = raise_procs (set (y # ys)) (pt_proc s)"
    using raise_procs_insert [OF d] by simp
  have eqA: "?A(Ready (Suc i) := [], Ready i := ?A (Ready i) @ ys) = A(Ready (Suc i) := [], Ready i := A (Ready i) @ y # ys)"
    by (auto simp: moved_def Let_def)
  have step: "promote_level fuel (Suc i) (head_ptr (y # ys)) s = promote_level n (Suc i) (head_ptr ys) ?s1"
    using fuel nx lv m by (simp add: raised_def slAdd_def upd_proc_def Let_def)
  have eqs: "?s1\<lparr>pt_proc := X, pLists := ls\<rparr> = s\<lparr>pt_proc := X, pLists := ls\<rparr>" for X by simp
  show ?case using IH unfolding step eq eqA eqs by blast
qed

text \<open>The ready lists when the levels below \<open>k\<close> have been promoted.\<close>

definition stage :: "nat \<Rightarrow> (slist \<Rightarrow> nat list) \<Rightarrow> slist \<Rightarrow> nat list" where
  "stage k A l = (case l of
      Ready j \<Rightarrow> if k \<le> j then A l
                 else if j = 0 then A (Ready 0) @ (if 2 \<le> k then A (Ready 1) else [])
                 else if j + 1 = k then [] else A (Ready (Suc j))
    | _ \<Rightarrow> A l)"

definition promoted_lists :: "(slist \<Rightarrow> nat list) \<Rightarrow> slist \<Rightarrow> nat list" where
  "promoted_lists A l = (case l of
      Ready j \<Rightarrow> if j = 0 then A (Ready 0) @ A (Ready 1) else A (Ready (Suc j))
    | _ \<Rightarrow> A l)"

lemma stage_1 [simp]: "stage (Suc 0) A = A"
  by (auto simp: stage_def fun_eq_iff Suc_le_eq split: slist.splits)

lemma stage_Suc:
  "(stage (Suc i) A)(Ready (Suc i) := [], Ready i := stage (Suc i) A (Ready i) @ A (Ready (Suc i))) = stage (Suc (Suc i)) A"
  by (auto simp: stage_def fun_eq_iff Suc_le_eq split: slist.splits)

lemma stage_last:
  "(\<And>i. mp < i \<Longrightarrow> A (Ready i) = []) \<Longrightarrow> stage (Suc mp) A = promoted_lists A"
  by (auto simp: stage_def promoted_lists_def fun_eq_iff split: slist.splits)

lemma stage_same: "Suc i \<le> j \<Longrightarrow> stage (Suc i) A (Ready j) = A (Ready j)"
  by (simp add: stage_def)

lemma promote_levels_ok:
  "table_ok mp s (stage (Suc k) A) \<Longrightarrow>
   (\<And>l l'. l \<noteq> l' \<Longrightarrow> set (A l) \<inter> set (A l') = {}) \<Longrightarrow>
   \<exists>ls. promote_levels [Suc k..<Suc k + n] s =
          Ok (s\<lparr>pt_proc := raise_procs (\<Union>i \<in> {Suc k..<Suc k + n}. set (A (Ready i))) (pt_proc s), pLists := ls\<rparr>) \<and>
     table_ok mp (s\<lparr>pt_proc := raise_procs (\<Union>i \<in> {Suc k..<Suc k + n}. set (A (Ready i))) (pt_proc s), pLists := ls\<rparr>)
       (stage (Suc k + n) A)"
proof (induction n arbitrary: k s)
  case 0
  then show ?case by (auto intro!: exI [of _ "pLists s"])
next
  case (Suc n)
  let ?X = "set (A (Ready (Suc k)))" and ?Y = "\<Union>i \<in> {Suc (Suc k)..<Suc (Suc k) + n}. set (A (Ready i))"
  have hd: "l_head (pLists s) (Ready (Suc k)) = head_ptr (A (Ready (Suc k)))"
    using lists_ok_head [OF table_ok_lists [OF Suc.prems(1)], of "Ready (Suc k)"] by (simp add: stage_same)
  have len: "length (A (Ready (Suc k))) \<le> NPROC"
    using lists_ok_length [OF table_ok_lists [OF Suc.prems(1)], of "Ready (Suc k)"] by (simp add: stage_same)
  obtain ls where 1: "promote_level NPROC (Suc k) (head_ptr (A (Ready (Suc k)))) s =
        Ok (s\<lparr>pt_proc := raise_procs ?X (pt_proc s), pLists := ls\<rparr>)"
      "table_ok mp (s\<lparr>pt_proc := raise_procs ?X (pt_proc s), pLists := ls\<rparr>) (stage (Suc (Suc k)) A)"
    using promote_level_ok [OF Suc.prems(1) stage_same [OF order_refl] len] unfolding stage_Suc by blast
  let ?s1 = "s\<lparr>pt_proc := raise_procs ?X (pt_proc s), pLists := ls\<rparr>"
  obtain ls' where 2: "promote_levels [Suc (Suc k)..<Suc (Suc k) + n] ?s1 =
        Ok (?s1\<lparr>pt_proc := raise_procs ?Y (pt_proc ?s1), pLists := ls'\<rparr>)"
      "table_ok mp (?s1\<lparr>pt_proc := raise_procs ?Y (pt_proc ?s1), pLists := ls'\<rparr>) (stage (Suc (Suc k) + n) A)"
    using Suc.IH [OF 1(2) Suc.prems(2)] by blast
  have "x \<notin> set (A (Ready i))" if "x \<in> ?X" "Suc k < i" for x i
    using Suc.prems(2) [of "Ready (Suc k)" "Ready i"] that by auto
  then have "?X \<inter> ?Y = {}" by fastforce
  moreover have ivl: "{Suc k..<Suc k + Suc n} = insert (Suc k) {Suc (Suc k)..<Suc (Suc k) + n}" by auto
  ultimately have eq: "raise_procs ?Y (pt_proc ?s1) = raise_procs (\<Union>i \<in> {Suc k..<Suc k + Suc n}. set (A (Ready i))) (pt_proc s)"
    using raise_procs_un [of ?X ?Y "pt_proc s"] UN_insert [of "\<lambda>i. set (A (Ready i))" "Suc k"]
    by (simp add: ivl)
  have eqs: "?s1\<lparr>pt_proc := X, pLists := ls'\<rparr> = s\<lparr>pt_proc := X, pLists := ls'\<rparr>" for X by simp
  have "[Suc k..<Suc k + Suc n] = Suc k # [Suc (Suc k)..<Suc (Suc k) + n]" by (simp add: upt_conv_Cons del: upt_Suc)
  then have "promote_levels [Suc k..<Suc k + Suc n] s = promote_levels [Suc (Suc k)..<Suc (Suc k) + n] ?s1"
    using 1(1) hd by simp
  moreover have "Suc (Suc k) + n = Suc k + Suc n" by simp
  ultimately show ?case using 2 unfolding eq eqs by auto
qed

text \<open>The processes a promotion raises: running, sleeping, and ready below level 0.\<close>

definition promote_set :: "nat \<Rightarrow> (slist \<Rightarrow> nat list) \<Rightarrow> nat set" where
  "promote_set mp A = set (A Running) \<union> (\<Union>i \<in> {1..mp}. set (A (Ready i))) \<union> set (A Sleep)"

lemma promoted_lists_other [simp]:
  "promoted_lists A Running = A Running" "promoted_lists A Sleep = A Sleep" "promoted_lists A Free = A Free"
  "promoted_lists A Zombie = A Zombie" "promoted_lists A Embryo = A Embryo"
  by (simp_all add: promoted_lists_def)

lemma table_ok_levels: "table_ok mp s A \<Longrightarrow> mp < i \<Longrightarrow> A (Ready i) = []"
  using table_ok_level [of mp s A _ "Ready i"] by (fastforce simp: level_ok_def)

lemma promote_ok:
  assumes ok: "table_ok mp s A"
  shows "\<exists>ls. promote mp s = Ok (s\<lparr>pt_proc := raise_procs (promote_set mp A) (pt_proc s), pLists := ls,
                                  PromoteAtTime := PromoteAtTime s + TICKS_TO_PROMOTE\<rparr>) \<and>
     table_ok mp (s\<lparr>pt_proc := raise_procs (promote_set mp A) (pt_proc s), pLists := ls,
                    PromoteAtTime := PromoteAtTime s + TICKS_TO_PROMOTE\<rparr>) (promoted_lists A)"
proof -
  let ?R = "set (A Running)" and ?L = "\<Union>i \<in> {Suc 0..<Suc 0 + mp}. set (A (Ready i))" and ?S = "set (A Sleep)"
  have lo: "lists_ok (pLists s) A" using ok by (rule table_ok_lists)
  have dis: "set (A l) \<inter> set (A l') = {}" if "l \<noteq> l'" for l l' using lo that by (simp add: lists_ok_def)
  define s1 where "s1 = s\<lparr>pt_proc := raise_procs ?R (pt_proc s)\<rparr>"
  have 1: "promote_in_place NPROC msg (l_head (pLists s) Running) s = Ok s1 \<and> table_ok mp s1 A" for msg
    unfolding s1_def lists_ok_head [OF lo] using lists_ok_length [OF lo, of Running]
    by (intro promote_in_place_ok [OF ok, of Running "[]"]) simp_all
  obtain ls where 2: "promote_levels [Suc 0..<Suc 0 + mp] s1 = Ok (s1\<lparr>pt_proc := raise_procs ?L (pt_proc s1), pLists := ls\<rparr>)"
      "table_ok mp (s1\<lparr>pt_proc := raise_procs ?L (pt_proc s1), pLists := ls\<rparr>) (stage (Suc 0 + mp) A)"
    using promote_levels_ok [of mp s1 0 A mp] 1 dis by auto
  define s2 where "s2 = s1\<lparr>pt_proc := raise_procs ?L (pt_proc s1), pLists := ls\<rparr>"
  have ok2: "table_ok mp s2 (promoted_lists A)"
    using 2(2) stage_last [of mp A] table_ok_levels [OF ok] by (simp add: s2_def)
  define s3 where "s3 = s2\<lparr>pt_proc := raise_procs ?S (pt_proc s2)\<rparr>"
  have 3: "promote_in_place NPROC msg (l_head (pLists s2) Sleep) s2 = Ok s3 \<and> table_ok mp s3 (promoted_lists A)" for msg
    unfolding s3_def lists_ok_head [OF table_ok_lists [OF ok2]] promoted_lists_other
    using lists_ok_length [OF lo, of Sleep]
    by (intro promote_in_place_ok [OF ok2, of Sleep "[]"]) simp_all
  have "?R \<inter> ?L = {}" using dis [of Running] by auto
  moreover have "(?R \<union> ?L) \<inter> ?S = {}" using dis [of _ Sleep] by auto
  ultimately have "raise_procs ?S (pt_proc s2) = raise_procs (?R \<union> ?L \<union> ?S) (pt_proc s)"
    by (simp add: raise_procs_un s2_def s1_def)
  moreover have "?R \<union> ?L \<union> ?S = promote_set mp A" by (auto simp: promote_set_def)
  ultimately have s3: "s3 = s\<lparr>pt_proc := raise_procs (promote_set mp A) (pt_proc s), pLists := ls\<rparr>"
    by (simp add: s3_def s2_def s1_def)
  have "promote mp s = Ok (s3\<lparr>PromoteAtTime := PromoteAtTime s3 + TICKS_TO_PROMOTE\<rparr>)"
    using 1 3 2(1) [folded s2_def] by (simp add: promote_def del: upt_Suc)
  moreover have "table_ok mp (s3\<lparr>PromoteAtTime := PromoteAtTime s3 + TICKS_TO_PROMOTE\<rparr>) (promoted_lists A)"
    using 3 by (simp add: table_ok_def)
  ultimately show ?thesis unfolding s3 by auto
qed

subsection \<open>A round of the scheduler\<close>

lemma switchuvm_ok:
  assumes "locked_by c s" "c_proc (cpus s c) = Some p" "p_pgdir (pt_proc s p) \<noteq> 0"
  shows "switchuvm c p s = Ok (upd_cpu c (\<lambda>cp. cp\<lparr>c_esp0 := p_kstack (pt_proc s p) + of_nat KSTACKSIZE,
                                              c_cr3 := v2p (p_pgdir (pt_proc s p))\<rparr>) s)"
  using assms
  by (cases "cpus s c") (auto simp: switchuvm_def with_proc_def locked_by_def pushcli_def popcli_def upd_cpu_def Let_def)

lemma pick_ready_first: "lists_ok ls A \<Longrightarrow> pick_ready js ls = first_level (\<lambda>_. True) js A"
proof (induction js)
  case (Cons j js)
  then show ?case by (cases "A (Ready j)") (auto simp: lists_ok_head)
qed simp

lemma first_level_head:
  "first_level (\<lambda>_. True) [0..<n] A = Some (j, p) \<Longrightarrow>
   j < n \<and> A (Ready j) \<noteq> [] \<and> hd (A (Ready j)) = p \<and> (\<forall>i < j. A (Ready i) = [])"
proof (induction n)
  case (Suc n)
  have app: "first_level (\<lambda>_. True) (js @ [n]) A =
      (case first_level (\<lambda>_. True) js A of Some r \<Rightarrow> Some r | None \<Rightarrow> first_level (\<lambda>_. True) [n] A)" for js
    by (induction js) (auto split: option.splits)
  show ?case
  proof (cases "first_level (\<lambda>_. True) [0..<n] A")
    case None
    then have "\<forall>i < n. A (Ready i) = []" by (auto simp: first_level_None)
    then show ?thesis using Suc.prems None by (cases "A (Ready n)") (auto simp: app)
  next
    case (Some r)
    then show ?thesis using Suc by (auto simp: app)
  qed
qed simp

definition due :: "'a ptable_scheme \<Rightarrow> bool" where
  "due s \<longleftrightarrow> PromoteAtTime s \<le> ticks s"

text \<open>The lists and the processes from which the scheduler chooses.\<close>

definition sched_lists :: "'a ptable_scheme \<Rightarrow> (slist \<Rightarrow> nat list) \<Rightarrow> slist \<Rightarrow> nat list" where
  "sched_lists s A = (if due s then promoted_lists A else A)"

definition sched_procs :: "nat \<Rightarrow> 'a ptable_scheme \<Rightarrow> (slist \<Rightarrow> nat list) \<Rightarrow> nat \<Rightarrow> proc" where
  "sched_procs mp s A = (if due s then raise_procs (promote_set mp A) (pt_proc s) else pt_proc s)"

definition sched_time :: "'a ptable_scheme \<Rightarrow> 32 word" where
  "sched_time s = (if due s then PromoteAtTime s + TICKS_TO_PROMOTE else PromoteAtTime s)"

lemma maybe_promote_ok:
  assumes "table_ok mp s A"
  shows "\<exists>ls. (if PromoteAtTime s \<le> ticks s then promote mp s else Ok s) =
       Ok (s\<lparr>pt_proc := sched_procs mp s A, pLists := ls, PromoteAtTime := sched_time s\<rparr>) \<and>
     table_ok mp (s\<lparr>pt_proc := sched_procs mp s A, pLists := ls, PromoteAtTime := sched_time s\<rparr>) (sched_lists s A)"
proof (cases "due s")
  case True
  then show ?thesis using promote_ok [OF assms] by (simp add: due_def sched_procs_def sched_time_def sched_lists_def)
next
  case False
  then show ?thesis using assms
    by (auto simp: due_def sched_procs_def sched_time_def sched_lists_def intro!: exI [of _ "pLists s"])
qed

text \<open>The state when the scheduler of processor \<open>c\<close> has switched to process \<open>p\<close> of level \<open>j\<close>.\<close>

definition dispatched :: "nat \<Rightarrow> nat \<Rightarrow> nat \<Rightarrow> 'a ptable_scheme \<Rightarrow> (slist \<Rightarrow> nat list) \<Rightarrow> 'a ptable_scheme \<Rightarrow> bool" where
  "dispatched mp c p s A s' \<longleftrightarrow>
     locked_by c s' \<and> c_ncli (cpus s' c) = 1 \<and> c_proc (cpus s' c) = Some p \<and>
     c_cr3 (cpus s' c) = v2p (p_pgdir (pt_proc s p)) \<and>
     pt_proc s' = (sched_procs mp s A)(p := (sched_procs mp s A p)\<lparr>p_state := RUNNING, p_cpu_ticks_in := ticks s\<rparr>) \<and>
     (\<forall>c'. c' \<noteq> c \<longrightarrow> cpus s' c' = cpus s c') \<and> ticks s' = ticks s \<and> PromoteAtTime s' = sched_time s"

lemma sched_procs_pgdir [simp]: "p_pgdir (sched_procs mp s A p) = p_pgdir (pt_proc s p)"
  by (simp add: sched_procs_def raise_procs_def raised_def)

lemma sched_procs_kstack [simp]: "p_kstack (sched_procs mp s A p) = p_kstack (pt_proc s p)"
  by (simp add: sched_procs_def raise_procs_def raised_def)

lemma sched_procs_state [simp]: "p_state (sched_procs mp s A p) = p_state (pt_proc s p)"
  by (simp add: sched_procs_def raise_procs_def)

lemma scheduler_ok:
  assumes ok: "table_ok mp s A" and lk: "unlocked c s" "c_ncli (cpus s c) = 0"
    and pg: "\<And>p. p < NPROC \<Longrightarrow> p_state (pt_proc s p) = RUNNABLE \<Longrightarrow> p_pgdir (pt_proc s p) \<noteq> 0"
  shows "case first_level (\<lambda>_. True) [0..<mp + 1] (sched_lists s A) of
      None \<Rightarrow> \<exists>s'. scheduler mp c s = Ok (None, s') \<and> table_ok mp s' (sched_lists s A) \<and> unlocked c s' \<and>
                c_if (cpus s' c) \<and> pt_proc s' = sched_procs mp s A
    | Some (j, p) \<Rightarrow> \<exists>s'. scheduler mp c s = Ok (Some p, s') \<and>
        table_ok mp s' (moved p (Ready j) Running (sched_lists s A)) \<and> dispatched mp c p s A s'"
proof -
  define s0 where "s0 = upd_cpu c (\<lambda>cp. cp\<lparr>c_if := True\<rparr>) s"
  have u0: "unlocked c s0" and ok0: "table_ok mp (lock_state c s0) A"
    using lk ok by (simp_all add: s0_def unlocked_def cpu_ok_def)
  have same: "sched_procs mp (lock_state c s0) A = sched_procs mp s A" "sched_time (lock_state c s0) = sched_time s"
    "sched_lists (lock_state c s0) A = sched_lists s A"
    by (simp_all add: s0_def sched_procs_def sched_time_def sched_lists_def due_def)
  obtain ls where 1: "(if PromoteAtTime (lock_state c s0) \<le> ticks (lock_state c s0)
         then promote mp (lock_state c s0) else Ok (lock_state c s0)) =
       Ok ((lock_state c s0)\<lparr>pt_proc := sched_procs mp s A, pLists := ls, PromoteAtTime := sched_time s\<rparr>)"
     "table_ok mp ((lock_state c s0)\<lparr>pt_proc := sched_procs mp s A, pLists := ls, PromoteAtTime := sched_time s\<rparr>)
        (sched_lists s A)"
    using maybe_promote_ok [OF ok0] unfolding same by blast
  define s2 where "s2 = (lock_state c s0)\<lparr>pt_proc := sched_procs mp s A, pLists := ls, PromoteAtTime := sched_time s\<rparr>"
  have ok2: "table_ok mp s2 (sched_lists s A)" using 1(2) by (simp add: s2_def)
  have run: "scheduler mp c s = (case first_level (\<lambda>_. True) [0..<mp + 1] (sched_lists s A) of
       None \<Rightarrow>
         rbind (release_pt c s2) (\<lambda>s3. Ok (None, upd_cpu c (\<lambda>cp. cp\<lparr>c_if := True\<rparr>) s3))
     | Some (j, p) \<Rightarrow>
         rbind (slChange (Ready j) p RUNNABLE (\<lambda>pr. pr\<lparr>p_state := RUNNING\<rparr>) (\<lambda>_. Running)
                  ''Panic - scheduler\<newline>'' s2) (\<lambda>s3.
         rbind (switchuvm c p (upd_cpu c (\<lambda>cp. cp\<lparr>c_proc := Some p\<rparr>) s3)) (\<lambda>s4.
         Ok (Some p, upd_proc p (\<lambda>pr. pr\<lparr>p_cpu_ticks_in := ticks s4\<rparr>) s4))))"
    using 1(1) pick_ready_first [OF table_ok_lists [OF ok2]]
    by (simp add: scheduler_def s0_def [symmetric] acquire_pt_ok [OF u0] s2_def [symmetric] del: upt_Suc)
  show ?thesis
  proof (cases "first_level (\<lambda>_. True) [0..<mp + 1] (sched_lists s A)")
    case None
    have "release_pt c s2 = Ok (s2\<lparr>cpus := section_cpus c (cpus s0), pt_lock := pt_lock s0\<rparr>)"
      by (rule release_pt_ok [OF u0]) (simp_all add: s2_def lock_state_def)
    then show ?thesis using None run ok2 lk(1)
      by (auto simp: s2_def s0_def table_ok_def unlocked_def cpu_ok_def section_cpus_def lk(2))
  next
    case (Some jp)
    obtain j p where jp: "jp = (j, p)" by (cases jp)
    have p: "p \<in> set (sched_lists s A (Ready j))" using first_level_Some Some jp by blast
    let ?f = "\<lambda>pr. pr\<lparr>p_state := RUNNING\<rparr>"
    obtain ls' where 3: "slChange (Ready j) p RUNNABLE ?f (\<lambda>_. Running) ''Panic - scheduler\<newline>'' s2 =
          Ok ((upd_proc p ?f s2)\<lparr>pLists := ls'\<rparr>)"
        "table_ok mp ((upd_proc p ?f s2)\<lparr>pLists := ls'\<rparr>) (moved p (Ready j) Running (sched_lists s A))"
      using slChange_ok [OF ok2 p, of RUNNABLE ?f "\<lambda>_. Running" "''Panic - scheduler\<newline>''"] table_ok_prio_in [OF ok2 p] by auto
    define s3 where "s3 = upd_cpu c (\<lambda>cp. cp\<lparr>c_proc := Some p\<rparr>) ((upd_proc p ?f s2)\<lparr>pLists := ls'\<rparr>)"
    have pn: "p < NPROC" using ok2 p by (rule table_ok_bound)
    have "p_state (pt_proc s p) = RUNNABLE" using table_ok_state [OF ok2 p] by (simp add: s2_def)
    then have pd: "p_pgdir (pt_proc s p) \<noteq> 0" using pg pn by blast
    have lk3: "locked_by c s3" "c_proc (cpus s3 c) = Some p"
      by (simp_all add: s3_def s2_def s0_def locked_by_def lock_state_def holding_def lk(2))
    have "switchuvm c p s3 = Ok (upd_cpu c (\<lambda>cp. cp\<lparr>c_esp0 := p_kstack (pt_proc s3 p) + of_nat KSTACKSIZE,
                                              c_cr3 := v2p (p_pgdir (pt_proc s3 p))\<rparr>) s3)"
      by (rule switchuvm_ok [OF lk3]) (use pd in \<open>simp add: s3_def s2_def\<close>)
    moreover have "table_ok mp s3 (moved p (Ready j) Running (sched_lists s A))" using 3(2) by (simp add: s3_def)
    ultimately show ?thesis using run Some jp 3(1)
      by (auto simp: s3_def [symmetric] dispatched_def locked_by_def intro!: table_ok_upd_proc)
         (simp_all add: s3_def s2_def s0_def lock_state_def holding_def lk(2))
  qed
qed

subsection \<open>\<^verbatim>\<open>setpriority\<close>\<close>

definition setprio_target :: "nat \<Rightarrow> 32 word \<Rightarrow> 'a ptable_scheme \<Rightarrow> (slist \<Rightarrow> nat list) \<Rightarrow> nat option" where
  "setprio_target mp pid s A =
     find (\<lambda>p. p_pid (pt_proc s p) = pid) (A Running @ concat (map (\<lambda>i. A (Ready i)) [0..<mp + 1]) @ A Sleep)"

definition setprio_proc :: "int \<Rightarrow> proc \<Rightarrow> proc" where
  "setprio_proc priority pr = pr\<lparr>p_priority := priority, p_budget := BUDGET\<rparr>"

lemma setprio_fun: "(\<lambda>pr. pr\<lparr>p_priority := priority, p_budget := BUDGET\<rparr>) = setprio_proc priority"
  by (simp add: fun_eq_iff setprio_proc_def)

text \<open>The level a ready process is queued on, for the processes whose priority changes.\<close>

definition setprio_lists :: "nat \<Rightarrow> int \<Rightarrow> 'a ptable_scheme \<Rightarrow> nat \<Rightarrow> (slist \<Rightarrow> nat list) \<Rightarrow> (slist \<Rightarrow> nat list) \<Rightarrow> bool" where
  "setprio_lists mp priority s p A B \<longleftrightarrow>
     (if p_priority (pt_proc s p) = priority \<or> p \<in> set (A Sleep) then B = A
      else \<exists>i. p \<in> set (A (Ready i)) \<and> B = moved p (Ready i) (Ready (nat priority)) A)"

lemma reset_budget_ok:
  assumes ok: "table_ok mp s A" and lk: "unlocked c s" and same: "p_priority (pt_proc s p) = priority"
  shows "reset_budget c p (lock_state c s) =
           Ok (0, (upd_proc p (setprio_proc priority) s)\<lparr>cpus := section_cpus c (cpus s)\<rparr>) \<and>
         table_ok mp (upd_proc p (setprio_proc priority) s) A"
proof -
  have "upd_proc p (setprio_proc priority) s = upd_proc p (\<lambda>pr. pr\<lparr>p_budget := BUDGET\<rparr>) s"
    using same by (cases "pt_proc s p") (simp add: upd_proc_def setprio_proc_def)
  moreover have "table_ok mp (upd_proc p (setprio_proc priority) s) A"
    using ok by (rule table_ok_upd_proc) (simp_all add: setprio_proc_def same)
  ultimately show ?thesis using lk by (simp add: reset_budget_def section_release_upd)
qed

lemma requeue_ready_ok:
  assumes ok: "table_ok mp s A" and lk: "unlocked c s" and p: "p \<in> set (A (Ready i))"
    and pr: "0 \<le> priority" "priority \<le> int mp"
  shows "\<exists>ls. requeue c (Ready i) p RUNNABLE priority msg (lock_state c s) =
           Ok (0, (upd_proc p (setprio_proc priority) s)\<lparr>pLists := ls, cpus := section_cpus c (cpus s)\<rparr>) \<and>
         table_ok mp ((upd_proc p (setprio_proc priority) s)\<lparr>pLists := ls, cpus := section_cpus c (cpus s)\<rparr>)
           (moved p (Ready i) (Ready (nat priority)) A)"
proof -
  have ok1: "table_ok mp (lock_state c s) A" using ok by simp
  obtain ls where "slChange (Ready i) p RUNNABLE (setprio_proc priority) (\<lambda>_. Ready (nat priority)) msg (lock_state c s) =
        Ok ((upd_proc p (setprio_proc priority) (lock_state c s))\<lparr>pLists := ls\<rparr>)"
      "table_ok mp ((upd_proc p (setprio_proc priority) (lock_state c s))\<lparr>pLists := ls\<rparr>)
         (moved p (Ready i) (Ready (nat priority)) A)"
    using slChange_ok [OF ok1 p, of RUNNABLE "setprio_proc priority" "\<lambda>_. Ready (nat priority)" msg]
      table_ok_state [OF ok p] pr by (force simp: setprio_proc_def level_ok_def prio_ok_def nat_le_iff)
  then show ?thesis using lk
    by (auto simp: requeue_def setprio_fun section_release_upd table_ok_def)
qed

lemma set_sleep_prio_ok:
  assumes ok: "table_ok mp s A" and p: "p \<in> set (A Sleep)" and pr: "0 \<le> priority" "priority \<le> int mp"
  shows "table_ok mp (upd_proc p (setprio_proc priority) s) A"
  using table_ok_upd_prio [OF ok table_ok_bound [OF ok p], of "setprio_proc priority (pt_proc s p)"]
    table_ok_state [OF ok p] pr by (simp add: upd_proc_def setprio_proc_def prio_ok_def)

lemma setpriority_ok:
  assumes ok: "table_ok mp s A" and lk: "unlocked c s" and pr: "0 \<le> priority" "priority \<le> int mp"
    and tgt: "setprio_target mp pid s A = Some p"
    and run: "p \<in> set (A Running) \<Longrightarrow> p_priority (pt_proc s p) = priority"
  shows "\<exists>ls B. setpriority mp c pid priority s =
             Ok (0, (upd_proc p (setprio_proc priority) s)\<lparr>pLists := ls, cpus := section_cpus c (cpus s)\<rparr>) \<and>
           table_ok mp ((upd_proc p (setprio_proc priority) s)\<lparr>pLists := ls, cpus := section_cpus c (cpus s)\<rparr>) B \<and>
           setprio_lists mp priority s p A B"
proof -
  have lo: "lists_ok (pLists (lock_state c s)) A" using ok by (simp add: table_ok_lists)
  let ?P = "\<lambda>p. p_pid (pt_proc s p) = pid"
  note unf = setpriority_def acquire_pt_ok [OF lk] Let_def find_list_find [OF lo, simplified]
    find_levels_first [OF lo, simplified]
  note rb = reset_budget_ok [OF ok lk, of p priority]
  consider (run) "find ?P (A Running) = Some p"
    | (ready) i where "find ?P (A Running) = None" "first_level ?P [0..<mp + 1] A = Some (i, p)"
    | (sleep) "find ?P (A Running) = None" "first_level ?P [0..<mp + 1] A = None" "find ?P (A Sleep) = Some p"
    using tgt unfolding setprio_target_def find_append find_concat
    by (auto split: option.splits simp del: upt_Suc)
  then show ?thesis
  proof cases
    case run
    then have "p_priority (pt_proc s p) = priority" using find_SomeD assms(6) by metis
    then show ?thesis using rb run pr
      by (auto simp: unf setprio_lists_def simp del: upt_Suc intro!: exI [of _ "pLists s"])
  next
    case ready
    have p: "p \<in> set (A (Ready i))" using first_level_Some [OF ready(2)] by blast
    then have ns: "p \<notin> set (A Sleep)" using table_ok_same [OF ok p, of Sleep] by auto
    show ?thesis
    proof (cases "p_priority (pt_proc s p) = priority")
      case True
      then show ?thesis using rb ready pr
        by (auto simp: unf setprio_lists_def simp del: upt_Suc intro!: exI [of _ "pLists s"])
    next
      case False
      then have "setprio_lists mp priority s p A (moved p (Ready i) (Ready (nat priority)) A)"
        using p ns by (auto simp: setprio_lists_def)
      moreover have "setpriority mp c pid priority s =
          requeue c (Ready i) p RUNNABLE priority ''setpriority ready\<newline>'' (lock_state c s)"
        using ready pr False by (simp add: unf del: upt_Suc)
      ultimately show ?thesis using requeue_ready_ok [OF ok lk p pr] by metis
    qed
  next
    case sleep
    have p: "p \<in> set (A Sleep)" using find_SomeD [OF sleep(3)] by blast
    have "setpriority mp c pid priority s =
        Ok (0, (upd_proc p (setprio_proc priority) s)\<lparr>cpus := section_cpus c (cpus s)\<rparr>)"
      using sleep pr rb by (simp add: unf section_release_upd [OF lk] setprio_fun del: upt_Suc)
    then show ?thesis using set_sleep_prio_ok [OF ok p pr] p
      by (auto simp: setprio_lists_def intro!: exI [of _ "pLists s"] exI [of _ A])
  qed
qed

lemma setpriority_none:
  assumes ok: "table_ok mp s A" and lk: "unlocked c s"
    and tgt: "setprio_target mp pid s A = None"
  shows "\<exists>s'. setpriority mp c pid priority s = Ok (-1, s') \<and> table_ok mp s' A \<and> pt_proc s' = pt_proc s \<and> unlocked c s'"
proof (cases "priority < 0 \<or> int mp < priority")
  case True
  then show ?thesis using ok lk by (simp add: setpriority_def)
next
  case False
  have lo: "lists_ok (pLists (lock_state c s)) A" using ok by (simp add: table_ok_lists)
  let ?P = "\<lambda>p. p_pid (pt_proc s p) = pid"
  have n: "find ?P (A Running) = None" "first_level ?P [0..<mp + 1] A = None" "find ?P (A Sleep) = None"
    using tgt unfolding setprio_target_def find_append find_concat
    by (auto split: option.splits simp del: upt_Suc)
  have "setpriority mp c pid priority s = Ok (-1, s\<lparr>cpus := section_cpus c (cpus s)\<rparr>)"
    using False n by (simp add: setpriority_def acquire_pt_ok [OF lk] Let_def find_list_find [OF lo, simplified]
        find_levels_first [OF lo, simplified] section_release_upd [OF lk] del: upt_Suc)
  then show ?thesis using ok lk by (simp add: unlocked_def)
qed

text \<open>
  \<^verbatim>\<open>setpriority\<close> on a running process whose priority changes puts it on a ready list while
  its state is still \<^verbatim>\<open>RUNNING\<close>, so that its next \<^verbatim>\<open>yield\<close> does not find it on the running
  list.
\<close>

lemma requeue_running:
  assumes ok: "table_ok mp s A" and lk: "unlocked c s" and p: "p \<in> set (A Running)"
  shows "\<exists>ls. requeue c Running p RUNNING priority msg (lock_state c s) =
           Ok (0, (upd_proc p (setprio_proc priority) s)\<lparr>pLists := ls, cpus := section_cpus c (cpus s)\<rparr>) \<and>
         lists_ok ls (moved p Running (Ready (nat priority)) A)"
proof -
  obtain ls1 ls2 where m: "slRemove Running (Some p) (lock_state c s) = Ok (0, (lock_state c s)\<lparr>pLists := ls1\<rparr>)"
      "stateListAdd (Ready (nat priority)) p ls1 = Ok (0, ls2)" "lists_ok ls2 (moved p Running (Ready (nat priority)) A)"
    using slMove_ok [of "lock_state c s" A p Running "Ready (nat priority)"] ok p by (auto simp: table_ok_def)
  have "p_state (pt_proc s p) = RUNNING" using table_ok_state [OF ok p] by simp
  then have "requeue c Running p RUNNING priority msg (lock_state c s) =
      rbind (release_pt c ((upd_proc p (setprio_proc priority) (lock_state c s))\<lparr>pLists := ls2\<rparr>)) (\<lambda>s2. Ok (0, s2))"
    using m by (simp add: requeue_def slChange_def slAdd_def upd_proc_def setprio_proc_def)
  then show ?thesis using m(3) lk by (auto simp: section_release_upd)
qed

lemma yield_not_running:
  assumes lo: "lists_ok (pLists s) A" and lk: "unlocked c s" and cur: "c_proc (cpus s c) = Some p"
    and st: "p_state (pt_proc s p) = RUNNING" and rd: "p \<in> set (A (ready_of (pt_proc s p)))"
  shows "yield mp c s = Panic ''Yield\<newline>''"
proof -
  let ?r = "ready_of (pt_proc s p)" and ?s1 = "upd_proc p (\<lambda>pr. pr\<lparr>p_state := RUNNABLE\<rparr>) (lock_state c s)"
  have "?r \<noteq> Running" by (simp add: ready_of_def)
  then have nr: "p \<notin> set (A Running)" using lo rd unfolding lists_ok_def by blast
  have "slRemove Running (Some p) (lock_state c s) = Ok (-1, lock_state c s)"
    using stateListRemove_absent [OF lo nr] by (simp add: slRemove_def)
  moreover obtain ls where "stateListAdd ?r p (pLists s) = Ok (0, ls)"
    using rd lists_ok_head [OF lo, of ?r] lists_ok_list [OF lo, of ?r]
    by (cases "A ?r") (auto simp: stateListAdd_def list_ok_def Let_def)
  ultimately show ?thesis using lk cur st
    by (simp add: yield_def acquire_pt_ok with_proc_def slChange_def slAdd_def)
qed

lemma setpriority_running:
  assumes ok: "table_ok mp s A" and lk: "unlocked c s" and pr: "0 \<le> priority" "priority \<le> int mp"
    and tgt: "setprio_target mp pid s A = Some p" and p: "p \<in> set (A Running)" and ne: "p_priority (pt_proc s p) \<noteq> priority"
  shows "\<exists>s'. setpriority mp c pid priority s = Ok (0, s') \<and> pt_proc s' = (pt_proc s)(p := setprio_proc priority (pt_proc s p)) \<and>
    p_state (pt_proc s' p) = RUNNING \<and> lists_ok (pLists s') (moved p Running (Ready (nat priority)) A) \<and>
    p \<in> set (moved p Running (Ready (nat priority)) A (ready_of (pt_proc s' p))) \<and> cpus s' = section_cpus c (cpus s) \<and> pt_lock s' = pt_lock s"
proof -
  let ?M = "moved p Running (Ready (nat priority)) A"
  have lo: "lists_ok (pLists (lock_state c s)) A" using ok by (simp add: table_ok_lists)
  obtain ls where r: "requeue c Running p RUNNING priority ''setpriority running\<newline>'' (lock_state c s) =
        Ok (0, (upd_proc p (setprio_proc priority) s)\<lparr>pLists := ls, cpus := section_cpus c (cpus s)\<rparr>)"
      and ls: "lists_ok ls ?M"
    using requeue_running [OF ok lk p] by blast
  define s' where "s' = (upd_proc p (setprio_proc priority) s)\<lparr>pLists := ls, cpus := section_cpus c (cpus s)\<rparr>"
  have in_run: "find (\<lambda>q. p_pid (pt_proc s q) = pid) (A Running) = Some p"
  proof (cases "find (\<lambda>q. p_pid (pt_proc s q) = pid) (A Running)")
    case None
    then have "p_pid (pt_proc s p) \<noteq> pid" using p by (auto simp: find_None_iff)
    then show ?thesis using find_SomeD [OF tgt [unfolded setprio_target_def]] by simp
  qed (use tgt in \<open>simp add: setprio_target_def find_append\<close>)
  have st: "p_state (pt_proc s p) = RUNNING" using table_ok_state [OF ok p] by simp
  have set: "setpriority mp c pid priority s = Ok (0, s')"
    using pr ne in_run r
    by (simp add: s'_def setpriority_def acquire_pt_ok [OF lk] Let_def find_list_find [OF lo, simplified] del: upt_Suc)
  have "p \<in> set (?M (Ready (nat priority)))" by (simp add: moved_def Let_def)
  then show ?thesis using set st ls by (auto simp: s'_def setprio_proc_def upd_proc_def ready_of_def)
qed

end
