(* ===== verification/Example.thy ===== *)
theory Example
  imports SchedOps
begin

text \<open>
  A concrete process table, on which the properties of the later theories are evaluated:
  three priority levels below the top one, process 0 running on processor 0, process 1 asleep on
  \<^verbatim>\<open>ticks\<close>, process 2 ready at level 1, process 3 a zombie child of process 0, and the
  other slots free.
\<close>

definition ex_tf :: trapframe where
  "ex_tf = \<lparr>tf_edi = 0, tf_esi = 0, tf_ebp = 0, tf_oesp = 0, tf_ebx = 0, tf_edx = 0, tf_ecx = 0, tf_eax = 0,
            tf_gs = 0, tf_fs = 0, tf_es = 0x2b, tf_ds = 0x2b, tf_trapno = 0, tf_err = 0, tf_eip = 0,
            tf_cs = 0x23, tf_eflags = 0x200, tf_esp = 0x1000, tf_ss = 0x2b\<rparr>"

definition ex_proc :: "nat \<Rightarrow> proc" where
  "ex_proc p =
     \<lparr>p_sz = 0x1000, p_pgdir = 0x80100000, p_kstack = 0x80200000,
      p_state = (if p = 0 then RUNNING else if p = 1 then SLEEPING else if p = 2 then RUNNABLE
                 else if p = 3 then ZOMBIE else UNUSED),
      p_pid = (if p < 4 then word_of_nat (p + 1) else 0),
      p_parent = (if p = 0 \<or> p > 3 then None else Some 0),
      p_tf = ex_tf, p_eip = 0, p_chan = (if p = 1 then ChTicks else ChNull), p_killed = False,
      p_ofile = replicate NOFILE None, p_cwd = None, p_name = ''ex'', p_start_ticks = 0,
      p_uid = 0, p_gid = 0, p_cpu_ticks_total = 0, p_cpu_ticks_in = 0, p_budget = BUDGET,
      p_priority = (if p = 2 then 1 else 0)\<rparr>"

definition ex_A :: "slist \<Rightarrow> nat list" where
  "ex_A l = (case l of Running \<Rightarrow> [0] | Sleep \<Rightarrow> [1] | Ready i \<Rightarrow> if i = 1 then [2] else []
             | Zombie \<Rightarrow> [3] | Free \<Rightarrow> [4..<NPROC] | Embryo \<Rightarrow> [])"

definition ex_lists :: statelists where
  "ex_lists = \<lparr>p_next = (\<lambda>p. if 4 \<le> p \<and> p + 1 < NPROC then Some (p + 1) else None),
     l_head = (\<lambda>l. case ex_A l of [] \<Rightarrow> None | x # _ \<Rightarrow> Some x),
     l_tail = (\<lambda>l. case ex_A l of [] \<Rightarrow> None | x # xs \<Rightarrow> Some (last (x # xs)))\<rparr>"

definition ex_cpu :: "nat \<Rightarrow> cpu" where
  "ex_cpu c = \<lparr>c_ncli = 0, c_intena = False, c_if = True, c_proc = (if c = 0 then Some 0 else None),
               c_cr3 = 0, c_esp0 = 0\<rparr>"

definition ex_state :: ptable where
  "ex_state = \<lparr>pt_proc = ex_proc, pLists = ex_lists, PromoteAtTime = 2500, initproc = Some 0, nextpid = 5,
     ticks = 100, pt_lock = \<lparr>locked = False, lk_cpu = None\<rparr>, cpus = ex_cpu, kpgdir = 0x80300000\<rparr>"

lemma ex_state_sel [simp]:
  "pt_proc ex_state = ex_proc" "pLists ex_state = ex_lists" "PromoteAtTime ex_state = 2500"
  "initproc ex_state = Some 0" "nextpid ex_state = 5" "ticks ex_state = 100" "cpus ex_state = ex_cpu"
  "pt_lock ex_state = \<lparr>locked = False, lk_cpu = None\<rparr>"
  by (simp_all add: ex_state_def)

lemma ex_cpu_sel [simp]:
  "c_ncli (ex_cpu c) = 0" "c_if (ex_cpu c)" "c_proc (ex_cpu c) = (if c = 0 then Some 0 else None)"
  by (simp_all add: ex_cpu_def)

lemma ex_A_sel [simp]:
  "ex_A Running = [0]" "ex_A Sleep = [1]" "ex_A (Ready i) = (if i = 1 then [2] else [])"
  "ex_A Zombie = [3]" "ex_A Free = [4..<NPROC]" "ex_A Embryo = []"
  by (simp_all add: ex_A_def)

lemma nlist_upt:
  "i < n \<Longrightarrow> (\<And>p. i \<le> p \<Longrightarrow> p + 1 < n \<Longrightarrow> h p = Some (p + 1)) \<Longrightarrow> (\<And>p. p + 1 = n \<Longrightarrow> h p = None) \<Longrightarrow>
   nlist h (Some i) [i..<n]"
proof (induction "n - i" arbitrary: i)
  case (Suc k)
  show ?case
  proof (cases "i + 1 = n")
    case True
    then show ?thesis using Suc.prems(3) [of i] by (auto simp: upt_rec)
  next
    case False
    then have "nlist h (Some (i + 1)) [i + 1..<n]" using Suc by (intro Suc.hyps) auto
    then show ?thesis using False Suc.prems(1,2) by (auto simp: upt_conv_Cons [of i n])
  qed
qed simp

lemma ex_lists_ok: "lists_ok ex_lists ex_A"
proof -
  have free: "nlist (p_next ex_lists) (Some 4) [4..<NPROC]"
    by (rule nlist_upt) (auto simp: ex_lists_def NPROC_def)
  have e: "[4..<NPROC] = 4 # [5..<NPROC]" by (simp add: upt_conv_Cons NPROC_def)
  have "list_ok ex_lists l (ex_A l)" for l
    using free unfolding e
    by (cases l) (auto simp: list_ok_def ex_A_def ex_lists_def e simp del: upt_conv_Cons_Cons upt_conv_Cons)
  then show ?thesis by (auto simp: lists_ok_def ex_A_def NPROC_def split: slist.splits if_splits)
qed

lemma ex_table_ok: "table_ok 2 ex_state ex_A"
proof -
  have "p_state (ex_proc p) = list_state l \<and> level_ok 2 l (ex_proc p)" if "p \<in> set (ex_A l)" for p l
    using that by (cases l) (auto simp: ex_A_def ex_proc_def level_ok_def split: if_splits)
  moreover have "\<exists>l. p \<in> set (ex_A l)" if "p < NPROC" for p
  proof -
    consider "p = 0" | "p = 1" | "p = 2" | "p = 3" | "4 \<le> p" by linarith
    then show ?thesis
    proof cases
      case 1 then show ?thesis by (intro exI [of _ Running]) (simp add: ex_A_def)
    next
      case 2 then show ?thesis by (intro exI [of _ Sleep]) (simp add: ex_A_def)
    next
      case 3 then show ?thesis by (intro exI [of _ "Ready 1"]) (simp add: ex_A_def)
    next
      case 4 then show ?thesis by (intro exI [of _ Zombie]) (simp add: ex_A_def)
    next
      case 5 then show ?thesis using that by (intro exI [of _ Free]) (simp add: ex_A_def)
    qed
  qed
  moreover have "prio_ok 2 (ex_proc p)" for p by (simp add: prio_ok_def ex_proc_def)
  ultimately show ?thesis using ex_lists_ok by (simp add: table_ok_def procs_ok_def ex_state_def)
qed

lemma ex_unlocked: "unlocked c ex_state"
  by (simp add: unlocked_def ex_state_def cpu_ok_def ex_cpu_def)

end
