(* ===== verification/TableProps.thy ===== *)
theory TableProps
  imports Example
begin

text \<open>
  The properties of the process table and the scheduler, each with an evaluation on the
  table of theory \<open>Example\<close>.
\<close>

subsection \<open>The state lists\<close>

text \<open>C30. The pointer-level state lists refine abstract lists. On a table whose pointers hold the lists \<open>A\<close>, \<^verbatim>\<open>stateListAdd\<close> of a process that is on no list
  returns 0 and leaves pointers that hold \<open>A\<close> with the process at the end of that list, and every other list unchanged. \<^verbatim>\<open>stateListRemove\<close> takes a process on
  the list off it (head, middle and tail alike) with result 0, whether or not there are processes on no list; a process that is not on it gives -1 and no pointer changes.\<close>

theorem stateLists_refine:
  assumes "lists_ok s A"
  shows "(p < NPROC \<and> (\<forall>l'. p \<notin> set (A l')) \<longrightarrow> (\<exists>s'. stateListAdd l p s = Ok (0, s') \<and> lists_ok s' (A(l := A l @ [p])))) \<and>
    (if q \<in> set (A l) then \<exists>s'. stateListRemove l (Some q) s = Ok (0, s') \<and> lists_ok s' (A(l := remove1 q (A l)))
     else stateListRemove l (Some q) s = Ok (-1, s))"
  using stateListAdd_ok [OF assms, of p l] stateListRemove_ok [OF assms, of q l] stateListRemove_absent [OF assms, of q l]
  by (auto simp: ensures_iff)

theorem stateLists_refine_witness:
  "(\<exists>s'. stateListAdd Free 63 (initProcessLists 2 ex_lists) = Ok (0, s') \<and> lists_ok s' ((\<lambda>_. [])(Free := [63]))) \<and>
   (\<exists>s'. stateListRemove Sleep (Some 1) ex_lists = Ok (0, s') \<and> lists_ok s' (ex_A(Sleep := []))) \<and>
   stateListRemove Sleep (Some 2) ex_lists = Ok (-1, ex_lists)"
  using stateLists_refine [of "initProcessLists 2 ex_lists" "\<lambda>_. []" 63 Free] initProcessLists_ok [of 2 ex_lists]
    stateLists_refine [OF ex_lists_ok, where q = 1 and l = Sleep] stateLists_refine [OF ex_lists_ok, where q = 2 and l = Sleep]
  by (auto simp: NPROC_def ex_lists_def ex_A_def)

subsection \<open>Giving up the processor\<close>

text \<open>C5. \<^verbatim>\<open>yield\<close> of the running process of a processor that holds no lock never panics. It charges the ticks used,
  demotes the process and refills its budget when the budget is spent, queues it at the end of the ready list
  of its (new) priority, and reaches the switch with the table lock held and the table invariant intact.\<close>

theorem yield_correct:
  assumes "table_ok mp s A" "c_proc (cpus s c) = Some p" "p \<in> set (A Running)" "unlocked c s" "c_ncli (cpus s c) = 0"
    and "pr = resched mp (ticks s) ((pt_proc s p)\<lparr>p_state := RUNNABLE\<rparr>)"
  shows "\<exists>s' B. yield mp c s = Ok (c_if (cpus s c), s') \<and> table_ok mp s' B \<and> locked_by c s' \<and>
    pt_proc s' = (pt_proc s)(p := pr) \<and>
    B Running = remove1 p (A Running) \<and> last (B (ready_of pr)) = p \<and>
    (\<forall>l. l \<noteq> Running \<longrightarrow> l \<noteq> ready_of pr \<longrightarrow> B l = A l)"
  using yield_lists [OF assms(1-5)] assms(6) by blast

theorem yield_correct_witness:
  "\<exists>s' B. yield 2 0 ex_state = Ok (True, s') \<and> table_ok 2 s' B \<and> locked_by 0 s' \<and> B Running = [] \<and> last (B (Ready 0)) = 0"
proof -
  have "\<not> spent (charged 100 ((ex_proc 0)\<lparr>p_state := RUNNABLE\<rparr>))"
    by (simp add: spent_def charged_def ex_proc_def BUDGET_def)
  then have "ready_of (resched 2 (ticks ex_state) ((pt_proc ex_state 0)\<lparr>p_state := RUNNABLE\<rparr>)) = Ready 0"
    by (simp add: resched_def demoted_def ready_of_def) (simp add: charged_def ex_proc_def)
  then show ?thesis
    using yield_correct [OF ex_table_ok _ _ ex_unlocked _ refl, of 0 0] by auto
qed

text \<open>C6. \<^verbatim>\<open>sleep\<close> takes the running process off the processor without a window for a lost wakeup: from the call to
  the switch \<^verbatim>\<open>ptable.lock\<close> is held, the caller's own lock is released, and the process is at the end of the sleep
  list with the channel recorded, so that a \<^verbatim>\<open>wakeup\<close> on the channel that takes the lock afterwards finds it.\<close>

theorem sleep_correct:
  assumes "table_ok mp s A" "c_proc (cpus s c) = Some p" "p \<in> set (A Running)" "sleep_locked c lk s s1"
  shows "\<exists>s'. sleep mp c ch lk s = Ok (c_intena (cpus s1 c), released_lk lk, s') \<and> locked_by c s' \<and>
    table_ok mp s' (moved p Running Sleep A) \<and> p_state (pt_proc s' p) = SLEEPING \<and> p_chan (pt_proc s' p) = ch \<and>
    (\<forall>q. q \<noteq> p \<longrightarrow> pt_proc s' q = pt_proc s q)"
  using sleep_lists [OF assms] by blast

theorem sleep_correct_witness:
  "\<exists>s'. sleep 2 0 (ChProc 0) (OtherLock \<lparr>locked = True, lk_cpu = Some 0\<rparr>)
          (ex_state\<lparr>cpus := \<lambda>c. (ex_cpu c)\<lparr>c_ncli := 1, c_intena := True, c_if := False\<rparr>\<rparr>) =
        Ok (True, OtherLock \<lparr>locked = False, lk_cpu = None\<rparr>, s') \<and>
     table_ok 2 s' (moved 0 Running Sleep ex_A) \<and> p_chan (pt_proc s' 0) = ChProc 0"
proof -
  let ?s = "ex_state\<lparr>cpus := \<lambda>c. (ex_cpu c)\<lparr>c_ncli := 1, c_intena := True, c_if := False\<rparr>\<rparr>"
  have ok: "table_ok 2 ?s ex_A" using ex_table_ok by simp
  have "sleep_locked 0 (OtherLock \<lparr>locked = True, lk_cpu = Some 0\<rparr>) ?s ((lock_state 0 ?s)\<lparr>cpus := cpus ?s\<rparr>)"
    by (simp add: sleep_locked_def unlocked_def cpu_ok_def holding_def)
  from sleep_correct [OF ok _ _ this, of 0 "ChProc 0"] show ?thesis by (auto simp: released_lk_def)
qed

subsection \<open>Waking and killing\<close>

text \<open>C7. \<^verbatim>\<open>wakeup\<close> makes exactly the processes that sleep on the channel runnable. They leave the sleep list and
  join the ready list of their priority, each list in the order in which they went to sleep; the other
  processes and lists are unchanged, and the lock is free again.\<close>

theorem wakeup_correct:
  assumes "table_ok mp s A" "unlocked c s"
  shows "\<exists>s' B. wakeup c ch s = Ok s' \<and> table_ok mp s' B \<and> unlocked c s' \<and>
    (\<forall>p. pt_proc s' p = (if p \<in> set (A Sleep) \<and> p_chan (pt_proc s p) = ch
                         then (pt_proc s p)\<lparr>p_state := RUNNABLE\<rparr> else pt_proc s p)) \<and>
    B Sleep = filter (\<lambda>p. p_chan (pt_proc s p) \<noteq> ch) (A Sleep) \<and>
    (\<forall>l. l \<noteq> Sleep \<longrightarrow> B l = A l @ filter (\<lambda>p. p_chan (pt_proc s p) = ch \<and> ready_of (pt_proc s p) = l) (A Sleep))"
  using wakeup_lists [OF assms] by blast

theorem wakeup_correct_witness:
  "\<exists>s' B. wakeup 1 ChTicks ex_state = Ok s' \<and> table_ok 2 s' B \<and> B Sleep = [] \<and> B (Ready 0) = [1] \<and>
     p_state (pt_proc s' 1) = RUNNABLE"
proof -
  obtain s' B where "wakeup 1 ChTicks ex_state = Ok s'" "table_ok 2 s' B"
      "\<forall>p. pt_proc s' p = (if p \<in> set (ex_A Sleep) \<and> p_chan (pt_proc ex_state p) = ChTicks
                           then (pt_proc ex_state p)\<lparr>p_state := RUNNABLE\<rparr> else pt_proc ex_state p)"
      "B Sleep = filter (\<lambda>p. p_chan (pt_proc ex_state p) \<noteq> ChTicks) (ex_A Sleep)"
      "\<forall>l. l \<noteq> Sleep \<longrightarrow> B l = ex_A l @ filter (\<lambda>p. p_chan (pt_proc ex_state p) = ChTicks \<and>
                        ready_of (pt_proc ex_state p) = l) (ex_A Sleep)"
    using wakeup_correct [OF ex_table_ok ex_unlocked, of 1 ChTicks] by blast
  then show ?thesis by (intro exI [of _ s'] exI [of _ B]) (simp add: ex_proc_def ready_of_def)
qed

text \<open>C27. \<^verbatim>\<open>kill\<close> marks the first process with the given identifier on any list but the free list, the embryo list included (the comment in the code says that this one is not
  searched), and wakes it when it sleeps by queueing it at level 0; it returns 0 then and -1 when there is none. The invariant is kept, the lock
  freed, and no other process is touched.\<close>

theorem kill_correct:
  assumes "table_ok mp s A" "unlocked c s"
  shows "case kill_target mp pid s A of
      None \<Rightarrow> kill mp c pid s = Ok (-1, s\<lparr>cpus := section_cpus c (cpus s)\<rparr>)
    | Some p \<Rightarrow> \<exists>s'. kill mp c pid s = Ok (0, s') \<and> table_ok mp s' (kill_lists p A) \<and> unlocked c s' \<and>
        pt_proc s' = (pt_proc s)(p := kill_proc (pt_proc s p)) \<and> p_pid (pt_proc s p) = pid \<and>
        p_state (pt_proc s p) \<noteq> UNUSED"
  using kill_lists_ok [OF assms] .

theorem kill_correct_witness:
  "(\<exists>s'. kill 2 0 2 ex_state = Ok (0, s') \<and> table_ok 2 s' (moved 1 Sleep (Ready 0) ex_A) \<and>
         p_killed (pt_proc s' 1) \<and> p_state (pt_proc s' 1) = RUNNABLE) \<and>
   kill 2 0 77 ex_state = Ok (-1, ex_state\<lparr>cpus := section_cpus 0 ex_cpu\<rparr>)"
proof -
  have "kill_target 2 2 ex_state ex_A = Some 1" "kill_target 2 77 ex_state ex_A = None"
    by (simp_all add: kill_target_def kill_order_def ex_proc_def upt_rec)
  then show ?thesis
    using kill_correct [OF ex_table_ok ex_unlocked, of 0 2] kill_correct [OF ex_table_ok ex_unlocked, of 0 77]
    by (auto simp: kill_lists_def kill_proc_def ex_proc_def)
qed

subsection \<open>Priorities\<close>

text \<open>C28. A promotion, run when \<^verbatim>\<open>PromoteAtTime\<close> is reached, never panics: it raises every running, sleeping and ready
  process that is below the top level by one level, level 1 joining the end of level 0 and each lower level moving up as it is,
  and sets the next promotion 2500 ticks later.\<close>

theorem promote_correct:
  assumes "table_ok mp s A"
  shows "\<exists>s'. promote mp s = Ok s' \<and> table_ok mp s' (promoted_lists A) \<and>
    pt_proc s' = raise_procs (promote_set mp A) (pt_proc s) \<and> PromoteAtTime s' = PromoteAtTime s + TICKS_TO_PROMOTE"
  using promote_ok [OF assms] by auto

theorem promote_correct_witness:
  "\<exists>s'. promote 2 ex_state = Ok s' \<and> table_ok 2 s' (promoted_lists ex_A) \<and> p_priority (pt_proc s' 2) = 0 \<and>
     promoted_lists ex_A (Ready 0) = [2] \<and> PromoteAtTime s' = 5000"
proof -
  have "2 \<in> promote_set 2 ex_A" by (auto simp: promote_set_def)
  then show ?thesis
    using promote_correct [OF ex_table_ok]
    by (auto simp: raise_procs_def raised_def promoted_lists_def ex_proc_def TICKS_TO_PROMOTE_def)
qed

text \<open>C2. A round of the scheduler never panics, as long as every ready process has a page directory. It promotes first when promotion is due; then it runs the process at
  the head of the first non-empty ready list, and it idles only if every ready list is empty. The chosen process moves to the running list,
  the processor's current process and page directory are set to it, and the table lock is held for the switch.\<close>

theorem scheduler_correct:
  assumes "table_ok mp s A" "unlocked c s" "c_ncli (cpus s c) = 0"
    and "\<And>p. p < NPROC \<Longrightarrow> p_state (pt_proc s p) = RUNNABLE \<Longrightarrow> p_pgdir (pt_proc s p) \<noteq> 0"
  shows "case scheduler mp c s of
      Ok (Some p, s') \<Rightarrow> dispatched mp c p s A s' \<and>
        (\<exists>j \<le> mp. sched_lists s A (Ready j) \<noteq> [] \<and> hd (sched_lists s A (Ready j)) = p \<and>
           (\<forall>i < j. sched_lists s A (Ready i) = []) \<and> table_ok mp s' (moved p (Ready j) Running (sched_lists s A)))
    | Ok (None, s') \<Rightarrow> (\<forall>i \<le> mp. sched_lists s A (Ready i) = []) \<and> table_ok mp s' (sched_lists s A) \<and> unlocked c s'
    | _ \<Rightarrow> False"
  using scheduler_ok [OF assms]
  by (auto simp: first_level_None less_Suc_eq_le dest!: first_level_head split: option.splits simp del: upt_Suc)

theorem scheduler_correct_witness:
  "\<exists>s'. scheduler 2 1 ex_state = Ok (Some 2, s') \<and> c_proc (cpus s' 1) = Some 2 \<and>
        table_ok 2 s' (moved 2 (Ready 1) Running ex_A)"
proof -
  have l: "sched_lists ex_state ex_A = ex_A" by (simp add: sched_lists_def due_def)
  have "case scheduler 2 1 ex_state of
      Ok (Some p, s') \<Rightarrow> dispatched 2 1 p ex_state ex_A s' \<and>
        (\<exists>j \<le> 2. ex_A (Ready j) \<noteq> [] \<and> hd (ex_A (Ready j)) = p \<and>
           (\<forall>i < j. ex_A (Ready i) = []) \<and> table_ok 2 s' (moved p (Ready j) Running ex_A))
    | Ok (None, s') \<Rightarrow> (\<forall>i \<le> 2. ex_A (Ready i) = []) \<and> table_ok 2 s' ex_A \<and> unlocked 1 s'
    | _ \<Rightarrow> False"
    using scheduler_correct [OF ex_table_ok ex_unlocked, of 1] unfolding l
    by (simp add: ex_proc_def del: ex_A_sel)
  then show ?thesis by (auto simp: dispatched_def split: res.splits option.splits if_splits)
qed

text \<open>C29. \<^verbatim>\<open>setpriority\<close> of a valid priority on a process that is ready, asleep, or running at that priority already: it
  returns 0, sets the priority, refills the budget, and moves a ready process whose priority changes to the end of the list of
  the new priority.\<close>

theorem setpriority_correct:
  assumes "table_ok mp s A" "unlocked c s" "0 \<le> priority" "priority \<le> int mp" "setprio_target mp pid s A = Some p"
    and "p \<in> set (A Running) \<Longrightarrow> p_priority (pt_proc s p) = priority"
  shows "\<exists>s' B. setpriority mp c pid priority s = Ok (0, s') \<and> table_ok mp s' B \<and> setprio_lists mp priority s p A B \<and>
    pt_proc s' = (pt_proc s)(p := (pt_proc s p)\<lparr>p_priority := priority, p_budget := BUDGET\<rparr>)"
  using setpriority_ok [OF assms] by (fastforce simp: setprio_proc_def)

theorem setpriority_correct_witness:
  "\<exists>s' B. setpriority 2 0 3 2 ex_state = Ok (0, s') \<and> table_ok 2 s' B \<and> p_priority (pt_proc s' 2) = 2 \<and> B (Ready 2) = [2]"
proof -
  have t: "setprio_target 2 3 ex_state ex_A = Some 2"
    by (simp add: setprio_target_def ex_proc_def upt_rec)
  have l: "B (Ready 2) = [2]" if "setprio_lists 2 2 ex_state 2 ex_A B" for B
    using that by (auto simp: setprio_lists_def ex_proc_def moved_def Let_def split: if_splits)
  show ?thesis
    using setpriority_correct [OF ex_table_ok ex_unlocked _ _ t, where c = 0 and priority = 2] l by auto
qed

text \<open>C38. \<^verbatim>\<open>setpriority\<close> of a running process whose priority changes breaks the table, from whichever processor it is called: the call succeeds, but the process is now on the
  ready list of the new priority and no longer on the running list, while its state is still \<^verbatim>\<open>RUNNING\<close>. If the process then yields, on the processor that runs it, the
  kernel panics; and so it does in every later state in which the process is still \<^verbatim>\<open>RUNNING\<close>, the current process of some processor, and on the ready list of its
  priority. (With the shipped \<^verbatim>\<open>MAXPRIO\<close> of 0 there is only one priority and the case cannot arise.)\<close>

theorem setpriority_running_panics:
  assumes "table_ok mp s A" "unlocked c s" "0 \<le> priority" "priority \<le> int mp"
    and "setprio_target mp pid s A = Some p" "p \<in> set (A Running)" "p_priority (pt_proc s p) \<noteq> priority"
  shows "\<exists>s'. setpriority mp c pid priority s = Ok (0, s') \<and> p_state (pt_proc s' p) = RUNNING \<and> p_priority (pt_proc s' p) = priority \<and>
    lists_ok (pLists s') (moved p Running (Ready (nat priority)) A) \<and>
    (\<forall>d. unlocked d s \<longrightarrow> c_proc (cpus s d) = Some p \<longrightarrow> yield mp d s' = Panic ''Yield\<newline>'') \<and>
    (\<forall>t B d. lists_ok (pLists t) B \<longrightarrow> p_state (pt_proc t p) = RUNNING \<longrightarrow> p \<in> set (B (ready_of (pt_proc t p))) \<longrightarrow> unlocked d t \<longrightarrow>
       c_proc (cpus t d) = Some p \<longrightarrow> yield mp d (t :: 'a ptable_scheme) = Panic ''Yield\<newline>'')"
proof -
  obtain s' where s': "setpriority mp c pid priority s = Ok (0, s')" "pt_proc s' = (pt_proc s)(p := setprio_proc priority (pt_proc s p))"
    "p_state (pt_proc s' p) = RUNNING" "lists_ok (pLists s') (moved p Running (Ready (nat priority)) A)"
    "p \<in> set (moved p Running (Ready (nat priority)) A (ready_of (pt_proc s' p)))" "cpus s' = section_cpus c (cpus s)" "pt_lock s' = pt_lock s"
    using setpriority_running [OF assms] by blast
  have "unlocked d s'" "c_proc (cpus s' d) = c_proc (cpus s d)" if "unlocked d s" for d using that assms(2) s'(6,7) by (auto simp: unlocked_def)
  then show ?thesis using s' yield_not_running [OF s'(4) _ _ s'(3,5)] yield_not_running by (intro exI [of _ s']) (auto simp: setprio_proc_def)
qed

theorem setpriority_running_panics_witness:
  "\<exists>s'. setpriority 2 1 1 2 ex_state = Ok (0, s') \<and> yield 2 0 s' = Panic ''Yield\<newline>''"
proof -
  have t: "setprio_target 2 1 ex_state ex_A = Some 0"
    by (simp add: setprio_target_def ex_proc_def upt_rec)
  have "\<exists>s'. setpriority 2 1 1 2 ex_state = Ok (0, s') \<and> (\<forall>d. unlocked d ex_state \<longrightarrow> c_proc (cpus ex_state d) = Some 0 \<longrightarrow> yield 2 d s' = Panic ''Yield\<newline>'')"
    using setpriority_running_panics [OF ex_table_ok ex_unlocked _ _ t, where c = 1 and priority = 2] by (auto simp: ex_proc_def)
  then show ?thesis using ex_unlocked by (auto intro: exI)
qed

end
