(* ===== verification/RoundRobin.thy ===== *)
theory RoundRobin
  imports Example
begin

text \<open>
  Composition of the scheduler with the processes it runs, on one processor: a turn is a round of the scheduler, the time
  slice of the process it picks, and the return to the scheduler. In its slice the process returns from the \<^verbatim>\<open>yield\<close> or \<^verbatim>\<open>sleep\<close> it
  was suspended in, may wake sleepers, and gives the processor up by \<^verbatim>\<open>yield\<close> or \<^verbatim>\<open>sleep\<close>; the clock may advance by any amount.
\<close>

record slice =
  sl_time :: "32 word"
  sl_wakes :: "chan list"
  sl_end :: "chan option"

definition resume :: "nat \<Rightarrow> nat \<Rightarrow> ptable \<Rightarrow> ptable res" where
  "resume c p s =
     (if p_chan (pt_proc s p) = ChNull then yield_resume c True s
      else rbind (sleep_resume c True NoLock s) (\<lambda>(_, s1). Ok s1))"

definition give_up :: "nat \<Rightarrow> nat \<Rightarrow> chan option \<Rightarrow> ptable \<Rightarrow> ptable res" where
  "give_up mp c e s =
     (case e of None \<Rightarrow> rbind (yield mp c s) (\<lambda>(_, s1). Ok s1)
      | Some ch \<Rightarrow> rbind (sleep mp c ch NoLock s) (\<lambda>(_, _, s1). Ok s1))"

definition turn :: "nat \<Rightarrow> nat \<Rightarrow> slice \<Rightarrow> ptable \<Rightarrow> (pptr \<times> ptable) res" where
  "turn mp c sl s =
     rbind (scheduler mp c s) (\<lambda>(r, s1). case r of
       None \<Rightarrow> Ok (None, s1)
     | Some p \<Rightarrow>
         rbind (resume c p s1) (\<lambda>s2.
         rbind (rfold (wakeup c) (sl_wakes sl) (s2\<lparr>ticks := sl_time sl\<rparr>)) (\<lambda>s3.
         rbind (give_up mp c (sl_end sl) s3) (\<lambda>s4.
         rbind (scheduler_resume c s4) (\<lambda>s5. Ok (Some p, s5))))))"

fun turns :: "nat \<Rightarrow> nat \<Rightarrow> slice list \<Rightarrow> ptable \<Rightarrow> (pptr list \<times> ptable) res" where
  "turns mp c [] s = Ok ([], s)"
| "turns mp c (sl # sls) s = rbind (turn mp c sl s) (\<lambda>(r, s1). rbind (turns mp c sls s1) (\<lambda>(rs, s2). Ok (r # rs, s2)))"

subsection \<open>What every step keeps\<close>

definition live :: "procstate \<Rightarrow> bool" where
  "live st \<longleftrightarrow> st = RUNNABLE \<or> st = SLEEPING \<or> st = RUNNING"

definition vm_kept :: "(nat \<Rightarrow> proc) \<Rightarrow> (nat \<Rightarrow> proc) \<Rightarrow> bool" where
  "vm_kept ps ps' \<longleftrightarrow> (\<forall>p. p_pgdir (ps' p) = p_pgdir (ps p) \<and> live (p_state (ps' p)) = live (p_state (ps p)))"

lemma vm_kept_refl [simp]: "vm_kept ps ps"
  by (simp add: vm_kept_def)

lemma vm_kept_trans: "vm_kept ps ps1 \<Longrightarrow> vm_kept ps1 ps2 \<Longrightarrow> vm_kept ps ps2"
  by (simp add: vm_kept_def)

lemma vm_kept_upd: "p_pgdir pr = p_pgdir (ps p) \<Longrightarrow> live (p_state pr) = live (p_state (ps p)) \<Longrightarrow> vm_kept ps (ps(p := pr))"
  by (simp add: vm_kept_def)

lemma resched_vm [simp]: "p_pgdir (resched mp t pr) = p_pgdir pr" "p_state (resched mp t pr) = p_state pr"
  by (simp_all add: resched_def demoted_def charged_def)

text \<open>The processor in the middle of its turn: no lock held, process \<open>p\<close> current.\<close>

definition at_user :: "nat \<Rightarrow> nat \<Rightarrow> nat \<Rightarrow> ptable \<Rightarrow> (slist \<Rightarrow> nat list) \<Rightarrow> bool" where
  "at_user mp c p s A \<longleftrightarrow> table_ok mp s A \<and> p \<in> set (A Running) \<and> c_proc (cpus s c) = Some p \<and> unlocked c s \<and> c_ncli (cpus s c) = 0"

lemma release_held:
  assumes "locked_by c s" "c_ncli (cpus s c) = 1"
  shows "\<exists>s'. release_pt c s = Ok s' \<and> unlocked c s' \<and> c_ncli (cpus s' c) = 0 \<and> c_proc (cpus s' c) = c_proc (cpus s c) \<and>
    pt_proc s' = pt_proc s \<and> pLists s' = pLists s"
  using assms by (auto simp: release_pt_def release_def popcli_def locked_by_def unlocked_def cpu_ok_def Let_def)

lemma resume_ok:
  assumes ok: "table_ok mp s A" and p: "p \<in> set (A Running)" "c_proc (cpus s c) = Some p" and lk: "locked_by c s" "c_ncli (cpus s c) = 1"
  shows "\<exists>s'. resume c p s = Ok s' \<and> at_user mp c p s' A \<and> vm_kept (pt_proc s) (pt_proc s')"
proof (cases "p_chan (pt_proc s p) = ChNull")
  case True
  let ?s = "sched_resume c True s"
  have "locked_by c ?s" "c_ncli (cpus ?s c) = 1" "c_proc (cpus ?s c) = Some p" "pt_proc ?s = pt_proc s" "pLists ?s = pLists s"
    using lk p by (auto simp: sched_resume_def locked_by_def)
  with release_held [of c ?s] obtain s' where s': "release_pt c ?s = Ok s'" "unlocked c s'" "c_ncli (cpus s' c) = 0" "c_proc (cpus s' c) = Some p"
    "pt_proc s' = pt_proc s" "pLists s' = pLists s" by auto
  then show ?thesis using True ok p by (auto simp: resume_def yield_resume_def at_user_def table_ok_def)
next
  case False
  let ?s = "upd_proc p (\<lambda>pr. pr\<lparr>p_chan := ChNull\<rparr>) (sched_resume c True s)"
  have "locked_by c ?s" "c_ncli (cpus ?s c) = 1" "c_proc (cpus ?s c) = Some p" "pLists ?s = pLists s"
    using lk p by (auto simp: sched_resume_def locked_by_def)
  with release_held [of c ?s] obtain s' where s': "release_pt c ?s = Ok s'" "unlocked c s'" "c_ncli (cpus s' c) = 0" "c_proc (cpus s' c) = Some p"
    "pt_proc s' = pt_proc ?s" "pLists s' = pLists s" by auto
  have e: "pt_proc ?s = (pt_proc s)(p := (pt_proc s p)\<lparr>p_chan := ChNull\<rparr>)" by (simp add: sched_resume_def upd_proc_def)
  have "table_ok mp (upd_proc p (\<lambda>pr. pr\<lparr>p_chan := ChNull\<rparr>) s) A" using ok by (rule table_ok_upd_proc) simp_all
  then have "table_ok mp s' A" using s'(5,6) e by (simp add: table_ok_def upd_proc_def)
  moreover have "sleep_resume c True NoLock s = Ok (NoLock, s')"
    using s'(1) p(2) by (simp add: sleep_resume_def with_proc_def sched_resume_def acquire_lk_def Let_def)
  moreover have "vm_kept (pt_proc s) (pt_proc s')" unfolding s'(5) e by (rule vm_kept_upd) simp_all
  ultimately show ?thesis using False p s' by (auto simp: resume_def at_user_def)
qed

definition extends :: "(slist \<Rightarrow> nat list) \<Rightarrow> (slist \<Rightarrow> nat list) \<Rightarrow> bool" where
  "extends A B \<longleftrightarrow> (\<exists>ys. B (Ready 0) = A (Ready 0) @ ys)"

lemma extends_refl [simp]: "extends A A"
  by (simp add: extends_def)

lemma extends_trans: "extends A B \<Longrightarrow> extends B C \<Longrightarrow> extends A C"
  by (auto simp: extends_def)

lemma wakes_ok:
  assumes "at_user mp c p s A"
  shows "\<exists>s' B. rfold (wakeup c) chs s = Ok s' \<and> at_user mp c p s' B \<and> extends A B \<and> vm_kept (pt_proc s) (pt_proc s')"
  using assms
proof (induction chs arbitrary: s A)
  case Nil
  then show ?case by auto
next
  case (Cons ch chs)
  note u = Cons.prems [unfolded at_user_def]
  have un: "unlocked c s" and ok: "table_ok mp s A" using u by auto
  obtain ls where w: "wakeup c ch s = Ok (s\<lparr>pt_proc := wake_procs ch (A Sleep) (pt_proc s), pLists := ls, cpus := section_cpus c (cpus s)\<rparr>)" (is "_ = Ok ?s1")
    "table_ok mp (s\<lparr>pt_proc := wake_procs ch (A Sleep) (pt_proc s), pLists := ls, cpus := section_cpus c (cpus s)\<rparr>) (wake_lists ch (pt_proc s) (A Sleep) A)"
    using wakeup_ok [OF ok un] by blast
  let ?B = "wake_lists ch (pt_proc s) (A Sleep) A"
  obtain s1 B where l: "wakeup c ch s = Ok s1" "\<forall>l. l \<noteq> Sleep \<longrightarrow> B l = A l @ filter (\<lambda>p. p_chan (pt_proc s p) = ch \<and> ready_of (pt_proc s p) = l) (A Sleep)"
    "table_ok mp s1 B" "unlocked c s1" using wakeup_lists [OF ok un] by blast
  have s1: "s1 = ?s1" using l(1) w(1) by simp
  have st: "p_state (pt_proc s q) = SLEEPING" if "q \<in> set (A Sleep)" for q using table_ok_state [OF ok that] by simp
  have vm: "vm_kept (pt_proc s) (pt_proc s1)" unfolding s1 by (simp add: vm_kept_def wake_procs_def st live_def)
  have "B Running = A Running" using l(2) by (auto simp: ready_of_def)
  then have "at_user mp c p s1 B" using u l(3,4) unfolding at_user_def s1 by (simp add: section_cpus_def)
  from Cons.IH [OF this] obtain s' B' where "rfold (wakeup c) chs s1 = Ok s'" "at_user mp c p s' B'" "extends B B'" "vm_kept (pt_proc s1) (pt_proc s')" by blast
  moreover have "extends A B" using l(2) by (simp add: extends_def)
  ultimately show ?case using l(1) vm extends_trans [of A B B'] vm_kept_trans [of "pt_proc s" "pt_proc s1"] by (intro exI [of _ s'] exI [of _ B']) auto
qed

lemma demote_lists_top: "p \<notin> set (A (Ready 0)) \<Longrightarrow> p_state pr = RUNNABLE \<Longrightarrow>
    extends A (demote_lists mp pr p (moved p Running (ready_of pr) A))"
  by (auto simp: extends_def demote_lists_def moved_def ready_of_def demoted_def Let_def remove1_append)

lemma give_up_ok:
  assumes u: "at_user mp c p s A"
  shows "\<exists>s' B. give_up mp c e s = Ok s' \<and> table_ok mp s' B \<and> locked_by c s' \<and> c_ncli (cpus s' c) = 1 \<and> extends A B \<and> vm_kept (pt_proc s) (pt_proc s')"
proof -
  have h: "table_ok mp s A" "p \<in> set (A Running)" "c_proc (cpus s c) = Some p" "unlocked c s" "c_ncli (cpus s c) = 0" using u by (auto simp: at_user_def)
  have st: "p_state (pt_proc s p) = RUNNING" using table_ok_state [OF h(1,2)] by simp
  have lk: "locked_by c (lock_state c s)" "c_ncli (cpus (lock_state c s) c) = 1" using lock_state_locked [OF h(4)] h(5) by simp_all
  show ?thesis
  proof (cases e)
    case None
    let ?pr = "(pt_proc s p)\<lparr>p_state := RUNNABLE\<rparr>"
    obtain ls where y: "yield mp c s = Ok (c_if (cpus s c), (lock_state c s)\<lparr>pt_proc := (pt_proc s)(p := resched mp (ticks s) ?pr), pLists := ls\<rparr>)"
      "table_ok mp ((lock_state c s)\<lparr>pt_proc := (pt_proc s)(p := resched mp (ticks s) ?pr), pLists := ls\<rparr>)
        (demote_lists mp (charged (ticks s) ?pr) p (moved p Running (ready_of (pt_proc s p)) A))"
      using yield_ok [OF h(1,3,2,4,5)] by blast
    have n: "p \<notin> set (A (Ready 0))" using table_ok_same [OF h(1,2)] by blast
    have "extends A (demote_lists mp (charged (ticks s) ?pr) p (moved p Running (ready_of (charged (ticks s) ?pr)) A))"
      using n by (intro demote_lists_top) (simp_all add: charged_def)
    moreover have "ready_of (charged (ticks s) ?pr) = ready_of (pt_proc s p)" by (simp add: ready_of_def charged_def)
    moreover have "vm_kept (pt_proc s) ((pt_proc s)(p := resched mp (ticks s) ?pr))" by (rule vm_kept_upd) (simp_all add: st live_def)
    ultimately show ?thesis using None y lk
      by (intro exI [of _ "(lock_state c s)\<lparr>pt_proc := (pt_proc s)(p := resched mp (ticks s) ?pr), pLists := ls\<rparr>"] exI) (auto simp: give_up_def locked_by_def)
  next
    case (Some ch)
    let ?pr = "(pt_proc s p)\<lparr>p_chan := ch, p_state := SLEEPING\<rparr>"
    have "sleep_locked c NoLock s (lock_state c s)" using h(4,5) by (simp add: sleep_locked_def)
    from sleep_ok [OF h(1,3,2) this, of ch] obtain ls where
      y: "sleep mp c ch NoLock s = Ok (c_intena (cpus (lock_state c s) c), released_lk NoLock, (lock_state c s)\<lparr>pt_proc := (pt_proc s)(p := resched mp (ticks s) ?pr), pLists := ls\<rparr>)"
      "table_ok mp ((lock_state c s)\<lparr>pt_proc := (pt_proc s)(p := resched mp (ticks s) ?pr), pLists := ls\<rparr>) (moved p Running Sleep A)" by blast
    moreover have "extends A (moved p Running Sleep A)" by (simp add: extends_def moved_def Let_def)
    moreover have "vm_kept (pt_proc s) ((pt_proc s)(p := resched mp (ticks s) ?pr))" by (rule vm_kept_upd) (simp_all add: st live_def)
    ultimately show ?thesis using Some lk
      by (intro exI [of _ "(lock_state c s)\<lparr>pt_proc := (pt_proc s)(p := resched mp (ticks s) ?pr), pLists := ls\<rparr>"] exI) (auto simp: give_up_def locked_by_def)
  qed
qed

lemma scheduler_resume_ok:
  assumes "table_ok mp s A" "locked_by c s" "c_ncli (cpus s c) = 1"
  shows "\<exists>s'. scheduler_resume c s = Ok s' \<and> table_ok mp s' A \<and> unlocked c s' \<and> c_ncli (cpus s' c) = 0 \<and> pt_proc s' = pt_proc s"
proof -
  let ?s = "upd_cpu c (\<lambda>cp. cp\<lparr>c_proc := None\<rparr>) (switchkvm c s)"
  have "locked_by c ?s" "c_ncli (cpus ?s c) = 1" "pt_proc ?s = pt_proc s" "pLists ?s = pLists s" using assms(2,3) by (auto simp: switchkvm_def locked_by_def)
  with release_held [of c ?s] assms(1) show ?thesis by (auto simp: scheduler_resume_def table_ok_def)
qed

lemma sched_lists_top: "extends A (sched_lists s A)"
  by (simp add: extends_def sched_lists_def promoted_lists_def)

lemma turn_ok:
  assumes ok: "table_ok mp s A" and lk: "unlocked c s" "c_ncli (cpus s c) = 0" and rd: "A (Ready 0) = p # xs"
    and pg: "\<And>q. q < NPROC \<Longrightarrow> live (p_state (pt_proc s q)) \<Longrightarrow> p_pgdir (pt_proc s q) \<noteq> 0"
  shows "\<exists>s' B ys. turn mp c sl s = Ok (Some p, s') \<and> table_ok mp s' B \<and> unlocked c s' \<and> c_ncli (cpus s' c) = 0 \<and> B (Ready 0) = xs @ ys \<and>
    vm_kept (pt_proc s) (pt_proc s')"
proof -
  let ?L = "sched_lists s A"
  obtain zs where L: "?L (Ready 0) = p # xs @ zs" using sched_lists_top [of A s] rd by (auto simp: extends_def)
  have "[0..<mp + 1] = 0 # [1..<mp + 1]" by (simp add: upt_conv_Cons)
  then have fl: "first_level (\<lambda>_. True) [0..<mp + 1] ?L = Some (0, p)" using L by simp
  have pg': "p_pgdir (pt_proc s q) \<noteq> 0" if "q < NPROC" "p_state (pt_proc s q) = RUNNABLE" for q using pg [of q] that by (simp add: live_def)
  obtain s1 where 1: "scheduler mp c s = Ok (Some p, s1)" "table_ok mp s1 (moved p (Ready 0) Running ?L)" "dispatched mp c p s A s1"
    using scheduler_ok [OF ok lk pg'] unfolding fl by auto
  have d: "locked_by c s1" "c_ncli (cpus s1 c) = 1" "c_proc (cpus s1 c) = Some p"
    "pt_proc s1 = (sched_procs mp s A)(p := (sched_procs mp s A p)\<lparr>p_state := RUNNING, p_cpu_ticks_in := ticks s\<rparr>)"
    using 1(3) by (simp_all add: dispatched_def)
  have "p_state (pt_proc s p) = RUNNABLE" using table_ok_state [OF ok, of p "Ready 0"] rd by simp
  then have v1: "vm_kept (pt_proc s) (pt_proc s1)" unfolding d(4) by (simp add: vm_kept_def live_def)
  have run: "p \<in> set (moved p (Ready 0) Running ?L Running)" by (simp add: moved_def Let_def)
  obtain s2 where 2: "resume c p s1 = Ok s2" "at_user mp c p s2 (moved p (Ready 0) Running ?L)" "vm_kept (pt_proc s1) (pt_proc s2)"
    using resume_ok [OF 1(2) run d(3,1,2)] by blast
  have "at_user mp c p (s2\<lparr>ticks := sl_time sl\<rparr>) (moved p (Ready 0) Running ?L)" using 2(2) by (simp add: at_user_def table_ok_def unlocked_def)
  from wakes_ok [OF this, of "sl_wakes sl"] obtain s3 B3 where 3: "rfold (wakeup c) (sl_wakes sl) (s2\<lparr>ticks := sl_time sl\<rparr>) = Ok s3"
    "at_user mp c p s3 B3" "extends (moved p (Ready 0) Running ?L) B3" "vm_kept (pt_proc s2) (pt_proc s3)" by auto
  obtain s4 B4 where 4: "give_up mp c (sl_end sl) s3 = Ok s4" "table_ok mp s4 B4" "locked_by c s4" "c_ncli (cpus s4 c) = 1" "extends B3 B4"
    "vm_kept (pt_proc s3) (pt_proc s4)" using give_up_ok [OF 3(2)] by blast
  obtain s5 where 5: "scheduler_resume c s4 = Ok s5" "table_ok mp s5 B4" "unlocked c s5" "c_ncli (cpus s5 c) = 0" "pt_proc s5 = pt_proc s4"
    using scheduler_resume_ok [OF 4(2-4)] by blast
  have "turn mp c sl s = Ok (Some p, s5)" using 1(1) 2(1) 3(1) 4(1) 5(1) by (simp add: turn_def)
  moreover have "moved p (Ready 0) Running ?L (Ready 0) = xs @ zs" using L by (simp add: moved_def Let_def)
  then obtain ys where "B4 (Ready 0) = xs @ ys" using extends_trans [OF 3(3) 4(5)] by (auto simp: extends_def)
  moreover have "vm_kept (pt_proc s) (pt_proc s5)" unfolding 5(5) using v1 2(3) 3(4) 4(6) by (blast intro: vm_kept_trans)
  ultimately show ?thesis using 5 by blast
qed

text \<open>C8. Round robin: whatever the processes do in their slices (wake others, yield, sleep, run for any time), whatever is promoted or demoted meanwhile, the
  turns of a processor run the processes of the top ready list one after the other in its order. A process with \<open>n\<close> processes
  before it there gets the processor in turn \<open>n\<close>, and no turn panics.\<close>

theorem round_robin:
  assumes "table_ok mp s A" "unlocked c s" "c_ncli (cpus s c) = 0" "length sls \<le> length (A (Ready 0))"
    and "\<And>q. q < NPROC \<Longrightarrow> live (p_state (pt_proc s q)) \<Longrightarrow> p_pgdir (pt_proc s q) \<noteq> 0"
  shows "\<exists>s' B. turns mp c sls s = Ok (map Some (take (length sls) (A (Ready 0))), s') \<and> table_ok mp s' B \<and> unlocked c s'"
  using assms
proof (induction sls arbitrary: s A)
  case Nil
  then show ?case by auto
next
  case (Cons sl sls)
  obtain p xs where rd: "A (Ready 0) = p # xs" using Cons.prems(4) by (cases "A (Ready 0)") auto
  obtain s1 B ys where 1: "turn mp c sl s = Ok (Some p, s1)" "table_ok mp s1 B" "unlocked c s1" "c_ncli (cpus s1 c) = 0" "B (Ready 0) = xs @ ys"
    "vm_kept (pt_proc s) (pt_proc s1)" using turn_ok [OF Cons.prems(1-3) rd Cons.prems(5)] by blast
  have len: "length sls \<le> length (B (Ready 0))" "length sls \<le> length xs" using Cons.prems(4) rd 1(5) by simp_all
  have pg: "p_pgdir (pt_proc s1 q) \<noteq> 0" if "q < NPROC" "live (p_state (pt_proc s1 q))" for q
    using Cons.prems(5) [of q] that 1(6) by (simp add: vm_kept_def)
  from Cons.IH [OF 1(2-4) len(1) pg] obtain s' B' where
    "turns mp c sls s1 = Ok (map Some (take (length sls) (xs @ ys)), s')" "table_ok mp s' B'" "unlocked c s'" unfolding 1(5) by blast
  then show ?case using 1(1) rd len(2) by auto
qed

theorem round_robin_witness:
  "\<exists>s s'. wakeup 1 ChTicks ex_state = Ok s \<and>
     turns 2 1 [\<lparr>sl_time = 101, sl_wakes = [ChProc 0], sl_end = Some ChTicks\<rparr>] s = Ok ([Some 1], s')"
proof -
  obtain s B where s: "wakeup 1 ChTicks ex_state = Ok s" "table_ok 2 s B" "unlocked 1 s"
    "\<forall>p. pt_proc s p = (if p \<in> set (ex_A Sleep) \<and> p_chan (pt_proc ex_state p) = ChTicks then (pt_proc ex_state p)\<lparr>p_state := RUNNABLE\<rparr> else pt_proc ex_state p)"
    "\<forall>l. l \<noteq> Sleep \<longrightarrow> B l = ex_A l @ filter (\<lambda>p. p_chan (pt_proc ex_state p) = ChTicks \<and> ready_of (pt_proc ex_state p) = l) (ex_A Sleep)"
    using wakeup_lists [OF ex_table_ok ex_unlocked, of 1 ChTicks] by blast
  obtain ls where "wakeup 1 ChTicks ex_state = Ok (ex_state\<lparr>pt_proc := wake_procs ChTicks (ex_A Sleep) (pt_proc ex_state), pLists := ls, cpus := section_cpus 1 (cpus ex_state)\<rparr>)"
    using wakeup_ok [OF ex_table_ok ex_unlocked] by blast
  then have n: "c_ncli (cpus s 1) = 0" using s(1) by (auto simp: section_cpus_def)
  have B: "B (Ready 0) = [1]" using s(5) by (simp add: ex_proc_def ready_of_def)
  have "p_pgdir (pt_proc s q) \<noteq> 0" for q using s(4) by (simp add: ex_proc_def)
  with round_robin [OF s(2,3) n, of "[\<lparr>sl_time = 101, sl_wakes = [ChProc 0], sl_end = Some ChTicks\<rparr>]"]
  show ?thesis using s(1) B by auto
qed

end
