(* ===== verification/Memory.thy ===== *)
theory Memory
  imports Prelude
begin

text \<open>
  Byte-addressed memory and the block operations of \<^verbatim>\<open>string.c\<close>: a memory is a function from
  32-bit addresses to bytes. Each C loop is a recursion on its counter; the theorems
  relate the loops to \<open>fill\<close>, the one-step description of a block that is overwritten.
\<close>

unbundle bit_operations_syntax

type_synonym addr = "32 word"
type_synonym byte = "8 word"
type_synonym mem = "addr \<Rightarrow> byte"

subsection \<open>Blocks of memory\<close>

definition bytes :: "mem \<Rightarrow> addr \<Rightarrow> nat \<Rightarrow> byte list" where
  "bytes m a n = map (\<lambda>i. m (a + of_nat i)) [0..<n]"

definition fill :: "mem \<Rightarrow> addr \<Rightarrow> nat \<Rightarrow> (nat \<Rightarrow> byte) \<Rightarrow> mem" where
  "fill m a n f = (\<lambda>x. if unat (x - a) < n then f (unat (x - a)) else m x)"

lemma unat_off [simp]: "i < 2 ^ 32 \<Longrightarrow> unat (of_nat i :: addr) = i"
  by (simp add: unat_of_nat take_bit_eq_mod)

lemma unat_lt [simp]: "unat (x :: addr) < 4294967296"
  using unsigned_less [of x] by simp

lemma off_inj: "i < 2 ^ 32 \<Longrightarrow> j < 2 ^ 32 \<Longrightarrow> a + of_nat i = a + (of_nat j :: addr) \<longleftrightarrow> i = j"
  by (metis add_left_cancel unat_off)

lemma off_eq: "(x :: addr) = a + of_nat (unat (x - a))"
  by simp

lemma off_iff: "i < 2 ^ 32 \<Longrightarrow> (x :: addr) = a + of_nat i \<longleftrightarrow> unat (x - a) = i"
  by (metis add_diff_cancel_left' off_eq unat_off)

lemma fill_0 [simp]: "fill m a 0 f = m"
  by (simp add: fill_def)

lemma fill_cong: "m = m' \<Longrightarrow> (\<And>i. i < n \<Longrightarrow> f i = g i) \<Longrightarrow> fill m a n f = fill m' a n g"
  by (simp add: fill_def fun_eq_iff)

lemma fill_snoc: "n < 2 ^ 32 \<Longrightarrow> (fill m a n f)(a + of_nat n := f n) = fill m a (Suc n) f"
  by (auto simp: fill_def fun_eq_iff off_iff less_Suc_eq)

lemma unat_pred: "(x :: addr) \<noteq> a \<Longrightarrow> unat (x - (a + 1)) = unat (x - a) - 1 \<and> 0 < unat (x - a)"
proof -
  assume "x \<noteq> a"
  then have "x - a \<noteq> 0" by simp
  then show ?thesis using unat_minus_one [of "x - a"]
    by (metis diff_diff_add gr0I unat_eq_zero)
qed

lemma fill_Cons:
  assumes "Suc n \<le> 2 ^ 32"
  shows "fill (m(a := v)) (a + 1) n f = fill m a (Suc n) (case_nat v f)"
proof
  fix x
  have "unat (-1 :: addr) = 2 ^ 32 - 1" by (simp add: unsigned_minus_1_eq_mask mask_eq_exp_minus_1)
  then show "fill (m(a := v)) (a + 1) n f x = fill m a (Suc n) (case_nat v f) x"
    using assms unat_pred [of x a] by (cases "x = a") (auto simp: fill_def split: nat.splits)
qed

lemma bytes_length [simp]: "length (bytes m a n) = n"
  by (simp add: bytes_def)

lemma bytes_nth [simp]: "i < n \<Longrightarrow> bytes m a n ! i = m (a + of_nat i)"
  by (simp add: bytes_def)

lemma bytes_fill: "n \<le> 2 ^ 32 \<Longrightarrow> bytes (fill m a n f) a n = map f [0..<n]"
  by (auto simp: bytes_def fill_def)

lemma bytes_Suc: "bytes m a (Suc n) = m a # bytes m (a + 1) n"
proof -
  have "map (\<lambda>i. m (a + of_nat i)) [0..<Suc n] = m a # map (\<lambda>i. m (a + of_nat (Suc i))) [0..<n]"
    by (simp add: upt_conv_Cons map_Suc_upt [symmetric] comp_def del: upt_Suc)
  then show ?thesis by (simp add: bytes_def add.assoc del: upt_Suc)
qed

text \<open>Two blocks that share no address.\<close>

definition apart :: "addr \<Rightarrow> nat \<Rightarrow> addr \<Rightarrow> nat \<Rightarrow> bool" where
  "apart a n b k \<longleftrightarrow> (\<forall>i < n. \<forall>j < k. a + of_nat i \<noteq> b + of_nat j)"

lemma fill_apart: "apart a n b k \<Longrightarrow> i < k \<Longrightarrow> fill m a n f (b + of_nat i) = m (b + of_nat i)"
  unfolding fill_def apart_def by (metis off_eq)

lemma bytes_apart: "apart a n b k \<Longrightarrow> bytes (fill m a n f) b k = bytes m b k"
  by (simp add: bytes_def fill_apart)

subsection \<open>\<^verbatim>\<open>memset\<close>\<close>

text \<open>The string instructions \<^verbatim>\<open>stosb\<close> and \<^verbatim>\<open>stosl\<close> with a repeat count.\<close>

fun stosb :: "nat \<Rightarrow> addr \<Rightarrow> byte \<Rightarrow> mem \<Rightarrow> mem" where
  "stosb 0 a v m = m"
| "stosb (Suc n) a v m = stosb n (a + 1) v (m(a := v))"

definition store32 :: "addr \<Rightarrow> 32 word \<Rightarrow> mem \<Rightarrow> mem" where
  "store32 a w m = m(a := ucast w, a + 1 := ucast (drop_bit 8 w), a + 2 := ucast (drop_bit 16 w),
                     a + 3 := ucast (drop_bit 24 w))"

definition load32 :: "mem \<Rightarrow> addr \<Rightarrow> 32 word" where
  "load32 m a = ucast (m a) OR push_bit 8 (ucast (m (a + 1))) OR push_bit 16 (ucast (m (a + 2))) OR
                push_bit 24 (ucast (m (a + 3)))"

fun stosl :: "nat \<Rightarrow> addr \<Rightarrow> 32 word \<Rightarrow> mem \<Rightarrow> mem" where
  "stosl 0 a w m = m"
| "stosl (Suc n) a w m = stosl n (a + 4) w (store32 a w m)"

definition memset :: "addr \<Rightarrow> 32 word \<Rightarrow> 32 word \<Rightarrow> mem \<Rightarrow> mem" where
  "memset dst c n m =
     (if dst mod 4 = 0 \<and> n mod 4 = 0 then
        let c = c AND 0xFF
        in stosl (unat (n div 4)) dst (push_bit 24 c OR push_bit 16 c OR push_bit 8 c OR c) m
      else stosb (unat n) dst (ucast c) m)"

lemma stosb_fill: "n \<le> 2 ^ 32 \<Longrightarrow> stosb n a v m = fill m a n (\<lambda>_. v)"
proof (induction n arbitrary: a m)
  case (Suc n)
  then have "stosb (Suc n) a v m = fill m a (Suc n) (case_nat v (\<lambda>_. v))" by (simp add: fill_Cons)
  moreover have "case_nat v (\<lambda>_. v) = (\<lambda>_. v)" by (auto simp: fun_eq_iff split: nat.splits)
  ultimately show ?case by simp
qed simp

lemma stosb_add: "stosb (k + n) a v m = stosb n (a + of_nat k) v (stosb k a v m)"
  by (induction k arbitrary: a m) (simp_all add: add.assoc)

text \<open>The four bytes of the word that \<^verbatim>\<open>memset\<close> replicates.\<close>

lemma splat_bytes:
  fixes c :: "32 word"
  defines "w \<equiv> push_bit 24 (c AND 0xFF) OR push_bit 16 (c AND 0xFF) OR push_bit 8 (c AND 0xFF) OR (c AND 0xFF)"
  shows "(ucast w :: byte) = ucast c" "(ucast (drop_bit 8 w) :: byte) = ucast c"
    "(ucast (drop_bit 16 w) :: byte) = ucast c" "(ucast (drop_bit 24 w) :: byte) = ucast c"
proof -
  have ff: "(0xFF :: 32 word) = mask 8" by (simp add: mask_eq_exp_minus_1)
  show "(ucast w :: byte) = ucast c" "(ucast (drop_bit 8 w) :: byte) = ucast c"
    "(ucast (drop_bit 16 w) :: byte) = ucast c" "(ucast (drop_bit 24 w) :: byte) = ucast c"
    unfolding w_def ff by (auto intro!: bit_word_eqI simp: bit_simps)
qed

lemma stosl_stosb:
  assumes "(ucast w :: byte) = v" "(ucast (drop_bit 8 w) :: byte) = v"
    "(ucast (drop_bit 16 w) :: byte) = v" "(ucast (drop_bit 24 w) :: byte) = v"
  shows "stosl n a w m = stosb (4 * n) a v m"
proof (induction n arbitrary: a m)
  case (Suc n)
  have four: "(4::nat) = Suc (Suc (Suc (Suc 0)))" by simp
  have "store32 a w m = stosb 4 a v m"
    by (simp add: store32_def assms four add.assoc)
  then show ?case using Suc stosb_add [of 4 "4 * n" a v m] by simp
qed simp

lemma memset_fill: "memset dst c n m = fill m dst (unat n) (\<lambda>_. ucast c)"
proof (cases "dst mod 4 = 0 \<and> n mod 4 = 0")
  case True
  then have "unat n mod 4 = 0" using unat_mod_distrib [of n 4] by simp
  then have "4 * unat (n div 4) = unat n" using unat_div_distrib [of n 4] by auto
  then show ?thesis
    unfolding memset_def Let_def if_P [OF True] stosl_stosb [OF splat_bytes] by (simp add: stosb_fill less_imp_le)
next
  case False
  then show ?thesis by (auto simp: memset_def stosb_fill less_imp_le)
qed

subsection \<open>\<^verbatim>\<open>memcmp\<close> and \<^verbatim>\<open>memmove\<close>\<close>

fun memcmp :: "mem \<Rightarrow> addr \<Rightarrow> addr \<Rightarrow> nat \<Rightarrow> int" where
  "memcmp m s1 s2 0 = 0"
| "memcmp m s1 s2 (Suc n) =
     (if m s1 \<noteq> m s2 then uint (m s1) - uint (m s2) else memcmp m (s1 + 1) (s2 + 1) n)"

fun copy_up :: "nat \<Rightarrow> addr \<Rightarrow> addr \<Rightarrow> mem \<Rightarrow> mem" where
  "copy_up 0 d s m = m"
| "copy_up (Suc n) d s m = copy_up n (d + 1) (s + 1) (m(d := m s))"

fun copy_down :: "nat \<Rightarrow> addr \<Rightarrow> addr \<Rightarrow> mem \<Rightarrow> mem" where
  "copy_down 0 d s m = m"
| "copy_down (Suc n) d s m = copy_down n (d - 1) (s - 1) (m(d - 1 := m (s - 1)))"

definition memmove :: "addr \<Rightarrow> addr \<Rightarrow> 32 word \<Rightarrow> mem \<Rightarrow> mem" where
  "memmove dst src n m =
     (if src < dst \<and> src + n > dst then copy_down (unat n) (dst + n) (src + n) m
      else copy_up (unat n) dst src m)"

definition memcpy :: "addr \<Rightarrow> addr \<Rightarrow> 32 word \<Rightarrow> mem \<Rightarrow> mem" where
  "memcpy dst src n m = memmove dst src n m"

lemma memcmp_eq: "memcmp m s1 s2 n = 0 \<longleftrightarrow> bytes m s1 n = bytes m s2 n"
proof (induction n arbitrary: s1 s2)
  case 0
  then show ?case by (simp add: bytes_def)
next
  case (Suc n)
  then show ?case by (auto simp: bytes_Suc word_uint_eq_iff)
qed

text \<open>Copying upwards is right unless a byte is overwritten before it is read, and so is copying downwards.\<close>

lemma copy_up_fill:
  assumes "n \<le> 2 ^ 32" "\<And>i j. i < n \<Longrightarrow> j < i \<Longrightarrow> s + of_nat i \<noteq> d + of_nat j"
  shows "copy_up n d s m = fill m d n (\<lambda>i. m (s + of_nat i))"
  using assms
proof (induction n arbitrary: d s m)
  case (Suc n)
  have "s + 1 + of_nat i \<noteq> d + 1 + of_nat j" if "i < n" "j < i" for i j
    using Suc.prems(2) [of "Suc i" "Suc j"] that by (simp add: add_ac)
  then have "copy_up (Suc n) d s m = fill (m(d := m s)) (d + 1) n (\<lambda>i. (m(d := m s)) (s + 1 + of_nat i))"
    unfolding copy_up.simps using Suc.prems(1) by (intro Suc.IH) auto
  also have "\<dots> = fill (m(d := m s)) (d + 1) n (\<lambda>i. m (s + of_nat (Suc i)))"
    using Suc.prems(2) [of "Suc _" 0] by (intro fill_cong) (auto simp: add_ac)
  also have "\<dots> = fill m d (Suc n) (case_nat (m s) (\<lambda>i. m (s + of_nat (Suc i))))"
    using Suc.prems(1) by (simp add: fill_Cons)
  also have "\<dots> = fill m d (Suc n) (\<lambda>i. m (s + of_nat i))"
    by (intro fill_cong refl) (auto split: nat.splits)
  finally show ?case .
qed simp

lemma copy_down_fill:
  assumes "n \<le> 2 ^ 32" "\<And>i j. j < n \<Longrightarrow> i < j \<Longrightarrow> s + of_nat i \<noteq> d + of_nat j"
  shows "copy_down n (d + of_nat n) (s + of_nat n) m = fill m d n (\<lambda>i. m (s + of_nat i))"
  using assms
proof (induction n arbitrary: m)
  case (Suc n)
  let ?m = "m(d + of_nat n := m (s + of_nat n))"
  have "copy_down (Suc n) (d + of_nat (Suc n)) (s + of_nat (Suc n)) m =
      fill ?m d n (\<lambda>i. ?m (s + of_nat i))"
  proof -
    have p: "d + of_nat (Suc n) - 1 = d + of_nat n" "s + of_nat (Suc n) - 1 = s + of_nat n" by simp_all
    show ?thesis unfolding copy_down.simps p using Suc.prems by (intro Suc.IH) auto
  qed
  also have "\<dots> = fill ?m d n (\<lambda>i. m (s + of_nat i))"
    using Suc.prems(2) [of n] by (intro fill_cong) auto
  also have "\<dots> = fill m d (Suc n) (\<lambda>i. m (s + of_nat i))"
    using Suc.prems(1) by (auto simp: fill_def fun_eq_iff off_iff less_Suc_eq)
  finally show ?case .
qed simp

lemma memmove_fill:
  assumes "unat src + unat n < 2 ^ 32" "unat dst + unat n \<le> 2 ^ 32"
  shows "memmove dst src n m = fill m dst (unat n) (\<lambda>i. m (src + of_nat i))"
proof -
  have off: "unat (a + of_nat i) = unat a + i" if "unat a + i < 2 ^ 32" for a :: addr and i
    using that by (simp add: unat_word_ariths take_bit_eq_mod)
  have sn: "unat (src + n) = unat src + unat n" using assms(1) off [of src "unat n"] by simp
  have cmp: "src + of_nat i = dst + of_nat j \<longleftrightarrow> unat src + i = unat dst + j" if "i < unat n" "j < unat n" for i j
    using assms that off [of src i] off [of dst j] 
      unfolding word_unat_eq_iff by simp
  show ?thesis
  proof (cases "src < dst \<and> src + n > dst")
    case True
    then have "unat src < unat dst" by (simp add: word_less_nat_alt)
    then have "copy_down (unat n) (dst + of_nat (unat n)) (src + of_nat (unat n)) m = fill m dst (unat n) (\<lambda>i. m (src + of_nat i))"
      using cmp by (intro copy_down_fill) (auto simp: less_imp_le)
    then show ?thesis using True by (simp add: memmove_def)
  next
    case False
    then have "unat dst \<le> unat src \<or> unat src + unat n \<le> unat dst" using sn by (auto simp: word_less_nat_alt not_less)
    then have "copy_up (unat n) dst src m = fill m dst (unat n) (\<lambda>i. m (src + of_nat i))"
      using cmp by (intro copy_up_fill) (auto simp: less_imp_le)
    then show ?thesis using False unfolding memmove_def by auto
  qed
qed

subsection \<open>Words in memory\<close>

lemma load32_store32: "load32 (store32 a w m) a = w"
proof -
  have ne: "a + 1 \<noteq> a" "a + 2 \<noteq> a" "a + 3 \<noteq> a" "a + 2 \<noteq> a + 1" "a + 3 \<noteq> a + 1" "a + 3 \<noteq> a + 2"
    for a :: addr
    by simp_all
  let ?v = "ucast (ucast w :: byte) OR push_bit 8 (ucast (ucast (drop_bit 8 w) :: byte)) OR
      push_bit 16 (ucast (ucast (drop_bit 16 w) :: byte)) OR push_bit 24 (ucast (ucast (drop_bit 24 w) :: byte)) :: 32 word"
  have "?v = w"
  proof (rule bit_word_eqI)
    fix n assume "n < LENGTH(32)"
    then consider "n < 8" | "8 \<le> n" "n < 16" | "16 \<le> n" "n < 24" | "24 \<le> n" "n < 32" by fastforce
    then show "bit ?v n = bit w n" by cases (auto simp: bit_simps)
  qed
  then show ?thesis by (simp add: load32_def store32_def ne)
qed

lemma load32_store32_apart:
  assumes "apart a 4 b 4"
  shows "load32 (store32 a w m) b = load32 m b"
proof -
  have ne: "a + of_nat i \<noteq> b + of_nat j" if "i < 4" "j < 4" for i j using assms that by (simp add: apart_def)
  show ?thesis
    using ne [of 0 0] ne [of 0 1] ne [of 0 2] ne [of 0 3] ne [of 1 0] ne [of 1 1] ne [of 1 2] ne [of 1 3]
      ne [of 2 0] ne [of 2 1] ne [of 2 2] ne [of 2 3] ne [of 3 0] ne [of 3 1] ne [of 3 2] ne [of 3 3]
    by (simp add: load32_def store32_def)
qed

end
