(* ===== verification/CString.thy ===== *)
theory CString
  imports Memory
begin

text \<open>
  The string operations of \<^verbatim>\<open>string.c\<close> on byte memory. \<open>cstr m a xs\<close>: at address \<open>a\<close>
  stands the NUL-terminated string \<open>xs\<close>. The loops of \<^verbatim>\<open>strncmp\<close>, \<^verbatim>\<open>strncpy\<close> and
  \<^verbatim>\<open>safestrcpy\<close> are bounded by their count; \<^verbatim>\<open>strlen\<close> runs until it finds a NUL, so it
  is a partial function, and its theorem says that it returns on every string.
\<close>

fun cstr :: "mem \<Rightarrow> addr \<Rightarrow> byte list \<Rightarrow> bool" where
  "cstr m a [] = (m a = 0)"
| "cstr m a (x # xs) = (x \<noteq> 0 \<and> m a = x \<and> cstr m (a + 1) xs)"

subsection \<open>Definitions\<close>

fun strncmp :: "mem \<Rightarrow> addr \<Rightarrow> addr \<Rightarrow> nat \<Rightarrow> int" where
  "strncmp m p q 0 = 0"
| "strncmp m p q (Suc n) =
     (if m p \<noteq> 0 \<and> m p = m q then strncmp m (p + 1) (q + 1) n else uint (m p) - uint (m q))"

text \<open>The copying loop of \<^verbatim>\<open>strncpy\<close>: what is left of the count, and where the loop stopped.\<close>

fun strncpy_copy :: "nat \<Rightarrow> addr \<Rightarrow> addr \<Rightarrow> mem \<Rightarrow> nat \<times> addr \<times> mem" where
  "strncpy_copy 0 s t m = (0, s, m)"
| "strncpy_copy (Suc n) s t m =
     (let v = m t; m1 = m(s := v)
      in if v \<noteq> 0 then strncpy_copy n (s + 1) (t + 1) m1 else (n, s + 1, m1))"

fun strncpy_zero :: "nat \<Rightarrow> addr \<Rightarrow> mem \<Rightarrow> mem" where
  "strncpy_zero 0 s m = m"
| "strncpy_zero (Suc n) s m = strncpy_zero n (s + 1) (m(s := 0))"

definition strncpy :: "addr \<Rightarrow> addr \<Rightarrow> int \<Rightarrow> mem \<Rightarrow> mem" where
  "strncpy s t n m = (case strncpy_copy (nat n) s t m of (k, s', m1) \<Rightarrow> strncpy_zero k s' m1)"

fun safestrcpy_copy :: "nat \<Rightarrow> addr \<Rightarrow> addr \<Rightarrow> mem \<Rightarrow> addr \<times> mem" where
  "safestrcpy_copy 0 s t m = (s, m)"
| "safestrcpy_copy (Suc n) s t m =
     (let v = m t; m1 = m(s := v)
      in if v \<noteq> 0 then safestrcpy_copy n (s + 1) (t + 1) m1 else (s + 1, m1))"

definition safestrcpy :: "addr \<Rightarrow> addr \<Rightarrow> int \<Rightarrow> mem \<Rightarrow> mem" where
  "safestrcpy s t n m =
     (if n \<le> 0 then m
      else case safestrcpy_copy (nat (n - 1)) s t m of (s', m1) \<Rightarrow> m1(s' := 0))"

partial_function (option) strlen_loop :: "mem \<Rightarrow> addr \<Rightarrow> 32 word \<Rightarrow> 32 word option" where
  "strlen_loop m s n = (if m (s + n) = 0 then Some n else strlen_loop m s (n + 1))"

definition strlen :: "mem \<Rightarrow> addr \<Rightarrow> 32 word option" where
  "strlen m s = strlen_loop m s 0"

subsection \<open>Comparison and length\<close>

lemma cstr_nonzero: "cstr m a xs \<Longrightarrow> 0 \<notin> set xs"
  by (induction xs arbitrary: a) auto

lemma strncmp_eq:
  "cstr m p xs \<Longrightarrow> cstr m q ys \<Longrightarrow> strncmp m p q n = 0 \<longleftrightarrow> take n xs = take n ys"
proof (induction n arbitrary: p q xs ys)
  case (Suc n)
  show ?case using Suc.prems Suc.IH [of "p + 1" _ "q + 1"]
    by (cases xs; cases ys) (auto simp: word_uint_eq_iff)
qed simp

lemma strlen_loop_cstr: "cstr m (s + n) xs \<Longrightarrow> strlen_loop m s n = Some (n + of_nat (length xs))"
proof (induction xs arbitrary: n)
  case Nil
  then show ?case by (simp add: strlen_loop.simps)
next
  case (Cons x xs)
  then have "strlen_loop m s (n + 1) = Some (n + 1 + of_nat (length xs))"
    using Cons.IH [of "n + 1"] by (simp add: add.assoc)
  then show ?case using Cons.prems by (simp add: strlen_loop.simps [of m s n] add_ac)
qed

lemma strlen_cstr: "cstr m s xs \<Longrightarrow> strlen m s = Some (of_nat (length xs))"
  using strlen_loop_cstr [of m s 0 xs] by (simp add: strlen_def)

subsection \<open>Copying\<close>

text \<open>The source string does not change while a disjoint block is written.\<close>

lemma cstr_bytes: "cstr m a xs \<longleftrightarrow> bytes m a (Suc (length xs)) = xs @ [0] \<and> 0 \<notin> set xs"
proof (induction xs arbitrary: a)
  case (Cons x xs)
  then show ?case by (auto simp: bytes_Suc)
qed (simp add: bytes_def)

text \<open>What a copying loop of either function stores: byte \<open>i\<close> of the string, up to and with its NUL.\<close>

definition nth0 :: "byte list \<Rightarrow> nat \<Rightarrow> byte" where
  "nth0 xs i = (if i < length xs then xs ! i else 0)"

lemma nth0_Cons: "nth0 (x # xs) = case_nat x (nth0 xs)"
  by (auto simp: nth0_def fun_eq_iff split: nat.splits)

lemma nth0_Nil: "nth0 [] = (\<lambda>_. 0)"
  by (simp add: nth0_def fun_eq_iff)

lemma strncpy_zero_stosb: "strncpy_zero n s m = stosb n s 0 m"
  by (induction n arbitrary: s m) simp_all

lemma apart_Suc:
  "apart s (Suc n) t (Suc k) \<Longrightarrow> s \<noteq> t \<and> apart (s + 1) n (t + 1) k \<and> apart s 1 (t + 1) k"
proof -
  assume a: "apart s (Suc n) t (Suc k)"
  then have d: "\<And>i j. i < Suc n \<Longrightarrow> j < Suc k \<Longrightarrow> s + of_nat i \<noteq> t + of_nat j" by (simp add: apart_def)
  have "s + 1 + of_nat i \<noteq> t + 1 + of_nat j" if "i < n" "j < k" for i j
    using d [of "Suc i" "Suc j"] that by (simp add: add_ac)
  moreover have "s \<noteq> t + 1 + of_nat j" if "j < k" for j using d [of 0 "Suc j"] that by (simp add: add_ac)
  ultimately show ?thesis using d [of 0 0] by (auto simp: apart_def)
qed

lemma cstr_upd: "apart s 1 t (Suc (length xs)) \<Longrightarrow> cstr (m(s := v)) t xs = cstr m t xs"
proof (induction xs arbitrary: t)
  case (Cons x xs)
  have d: "\<And>j. j < Suc (Suc (length xs)) \<Longrightarrow> s \<noteq> t + of_nat j" using Cons.prems by (auto simp: apart_def)
  have "s \<noteq> t + 1 + of_nat j" if "j < Suc (length xs)" for j using d [of "Suc j"] that by (simp add: add_ac)
  then have "cstr (m(s := v)) (t + 1) xs = cstr m (t + 1) xs" by (intro Cons.IH) (simp add: apart_def)
  moreover have "(m(s := v)) t = m t" using d [of 0] by simp
  ultimately show ?case by (simp only: cstr.simps)
qed (auto simp: apart_def)

lemma strncpy_fill:
  assumes "cstr m t xs" "apart s n t (Suc (length xs))" "n \<le> 2 ^ 32"
  shows "(case strncpy_copy n s t m of (k, s', m1) \<Rightarrow> strncpy_zero k s' m1) = fill m s n (nth0 xs)"
  using assms
proof (induction n arbitrary: s t m xs)
  case (Suc n)
  show ?case
  proof (cases xs)
    case Nil
    then have "m t = 0" using Suc.prems by simp
    then show ?thesis using Suc.prems(3) Nil
      by (simp add: strncpy_zero_stosb stosb_fill nth0_Nil fill_Cons)
        (intro fill_cong refl, simp split: nat.splits)
  next
    case (Cons x ys)
    have ap: "s \<noteq> t" "apart (s + 1) n (t + 1) (Suc (length ys))" "apart s 1 (t + 1) (Suc (length ys))"
      using apart_Suc [of s n t "Suc (length ys)"] Suc.prems(2) Cons by auto
    have mt: "m t = x" "x \<noteq> 0" "cstr (m(s := x)) (t + 1) ys" using Suc.prems(1) Cons cstr_upd [OF ap(3)] by auto
    have "(case strncpy_copy n (s + 1) (t + 1) (m(s := x)) of (k, s', m1) \<Rightarrow> strncpy_zero k s' m1) =
        fill (m(s := x)) (s + 1) n (nth0 ys)"
      using Suc.prems(3) by (intro Suc.IH [OF mt(3) ap(2)]) simp
    then show ?thesis using mt Suc.prems(3) Cons by (simp add: fill_Cons nth0_Cons)
  qed
qed simp

lemma strncpy_cstr:
  assumes "cstr m t xs" "apart s (nat n) t (Suc (length xs))" "n < 2 ^ 31"
  shows "strncpy s t n m = fill m s (nat n) (nth0 xs)"
  unfolding strncpy_def using assms by (intro strncpy_fill) auto

lemma safestrcpy_fill:
  assumes "cstr m t xs" "apart s n t (Suc (length xs))" "n < 2 ^ 32"
  shows "(case safestrcpy_copy n s t m of (s', m1) \<Rightarrow> m1(s' := 0)) =
         (if length xs < n then fill m s (Suc (Suc (length xs))) (nth0 xs) else fill m s (Suc n) (nth0 (take n xs)))"
  using assms
proof (induction n arbitrary: s t m xs)
  case 0
  have "unat (x - s) = 0 \<longleftrightarrow> x = s" for x by (simp add: unsigned_eq_0_iff)
  then show ?case by (auto simp: fill_def fun_eq_iff nth0_def)
next
  case (Suc n)
  show ?case
  proof (cases xs)
    case Nil
    then have "m t = 0" using Suc.prems by simp
    then have "(case safestrcpy_copy (Suc n) s t m of (s', m1) \<Rightarrow> m1(s' := 0)) = stosb 2 s 0 m"
      by (simp add: numeral_2_eq_2)
    also have "\<dots> = fill m s 2 (\<lambda>_. 0)" by (simp add: stosb_fill)
    finally show ?thesis using Nil by (simp only: nth0_Nil numeral_2_eq_2 list.size if_True zero_less_Suc)
  next
    case (Cons x ys)
    have ap: "s \<noteq> t" "apart (s + 1) n (t + 1) (Suc (length ys))" "apart s 1 (t + 1) (Suc (length ys))"
      using apart_Suc [of s n t "Suc (length ys)"] Suc.prems(2) Cons by auto
    have mt: "m t = x" "x \<noteq> 0" "cstr (m(s := x)) (t + 1) ys" using Suc.prems(1) Cons cstr_upd [OF ap(3)] by auto
    have "(case safestrcpy_copy (Suc n) s t m of (s', m1) \<Rightarrow> m1(s' := 0)) =
        (case safestrcpy_copy n (s + 1) (t + 1) (m(s := x)) of (s', m1) \<Rightarrow> m1(s' := 0))"
      using mt by (simp add: Let_def)
    also have "\<dots> = (if length ys < n then fill (m(s := x)) (s + 1) (Suc (Suc (length ys))) (nth0 ys)
         else fill (m(s := x)) (s + 1) (Suc n) (nth0 (take n ys)))"
      using Suc.prems(3) by (intro Suc.IH [OF mt(3) ap(2)]) simp
    also have "\<dots> = (if length xs < Suc n then fill m s (Suc (Suc (length xs))) (nth0 xs)
         else fill m s (Suc (Suc n)) (nth0 (take (Suc n) xs)))"
      using Suc.prems(3) Cons by (simp add: fill_Cons nth0_Cons)
    finally show ?thesis .
  qed
qed

lemma cstr_fill:
  assumes "0 \<notin> set ys" "length ys < k" "k \<le> 2 ^ 32" "\<And>i. i \<le> length ys \<Longrightarrow> f i = nth0 ys i"
  shows "cstr (fill m s k f) s ys"
proof -
  have "bytes (fill m s k f) s (Suc (length ys)) = map f [0..<Suc (length ys)]"
    using assms(2,3) by (auto simp: bytes_def fill_def)
  also have "\<dots> = ys @ [0]"
    using assms(4) by (intro nth_equalityI) (auto simp: nth_append nth0_def less_Suc_eq)
  finally show ?thesis using assms(1) by (simp add: cstr_bytes)
qed

lemma safestrcpy_cstr:
  assumes "cstr m t xs" "apart s (nat n) t (Suc (length xs))" "0 < n" "n < 2 ^ 31"
  shows "cstr (safestrcpy s t n m) s (take (nat n - 1) xs)"
    and "\<And>a. nat n \<le> unat (a - s) \<Longrightarrow> safestrcpy s t n m a = m a"
proof -
  have ap: "apart s (nat (n - 1)) t (Suc (length xs))" using assms(2,3) by (auto simp: apart_def)
  let ?k = "if length xs < nat (n - 1) then Suc (Suc (length xs)) else Suc (nat (n - 1))"
  have f: "safestrcpy s t n m = fill m s ?k (nth0 (take (nat (n - 1)) xs))"
    using safestrcpy_fill [OF assms(1) ap] assms(3,4) by (auto simp: safestrcpy_def)
  have k: "length (take (nat (n - 1)) xs) < ?k" "?k \<le> nat n" using assms(3) by auto
  show "cstr (safestrcpy s t n m) s (take (nat n - 1) xs)"
    unfolding f using cstr_nonzero [OF assms(1)] k assms(3,4)
    by (subst nat_diff_distrib', simp, simp, intro cstr_fill) (auto simp: nat_diff_distrib dest: in_set_takeD split: if_splits)
  show "safestrcpy s t n m a = m a" if "nat n \<le> unat (a - s)" for a
    unfolding f using k(2) that by (auto simp: fill_def split: if_splits)
qed

end
