(* ===== verification/Ulib.thy ===== *)
theory Ulib
  imports CString
begin

text \<open>
  The user library \<^verbatim>\<open>ulib.c\<close>. Loops that stop at a NUL byte or at the first character of
  another kind are partial functions on the memory of the process. \<^verbatim>\<open>gets\<close> takes the
  system call \<^verbatim>\<open>read(0, &c, 1)\<close> as a parameter: the number it returns, the byte it stores, and the state
  of the input after it.
\<close>

subsection \<open>Strings\<close>

partial_function (option) strcpy_loop :: "addr \<Rightarrow> addr \<Rightarrow> mem \<Rightarrow> mem option" where
  "strcpy_loop s t m =
     (let v = m t; m1 = m(s := v) in if v \<noteq> 0 then strcpy_loop (s + 1) (t + 1) m1 else Some m1)"

definition strcpy :: "addr \<Rightarrow> addr \<Rightarrow> mem \<Rightarrow> mem option" where
  "strcpy s t m = strcpy_loop s t m"

partial_function (option) strcmp :: "mem \<Rightarrow> addr \<Rightarrow> addr \<Rightarrow> int option" where
  "strcmp m p q =
     (if m p \<noteq> 0 \<and> m p = m q then strcmp m (p + 1) (q + 1) else Some (uint (m p) - uint (m q)))"

partial_function (option) u_strlen_loop :: "mem \<Rightarrow> addr \<Rightarrow> 32 word \<Rightarrow> 32 word option" where
  "u_strlen_loop m s n = (if m (s + n) = 0 then Some n else u_strlen_loop m s (n + 1))"

definition u_strlen :: "mem \<Rightarrow> addr \<Rightarrow> 32 word option" where
  "u_strlen m s = u_strlen_loop m s 0"

definition u_memset :: "addr \<Rightarrow> 32 word \<Rightarrow> 32 word \<Rightarrow> mem \<Rightarrow> mem" where
  "u_memset dst c n m = stosb (unat n) dst (ucast c) m"

text \<open>\<^verbatim>\<open>strchr\<close>: the address of the character, or the null pointer 0.\<close>

partial_function (option) strchr :: "mem \<Rightarrow> addr \<Rightarrow> byte \<Rightarrow> addr option" where
  "strchr m s c = (if m s = 0 then Some 0 else if m s = c then Some s else strchr m (s + 1) c)"

definition u_memmove :: "addr \<Rightarrow> addr \<Rightarrow> int \<Rightarrow> mem \<Rightarrow> mem" where
  "u_memmove vdst vsrc n m = copy_up (nat n) vdst vsrc m"

subsection \<open>\<^verbatim>\<open>gets\<close>\<close>

text \<open>
  The loop reads at most \<^verbatim>\<open>max - 1\<close> characters; \<open>k\<close> is the number it may still read. Result: the
  index of the terminator, the memory and the input.
\<close>

fun gets_loop :: "('s \<Rightarrow> int \<times> byte \<times> 's) \<Rightarrow> addr \<Rightarrow> nat \<Rightarrow> nat \<Rightarrow> mem \<Rightarrow> 's \<Rightarrow> nat \<times> mem \<times> 's" where
  "gets_loop rd buf 0 i m inp = (i, m, inp)"
| "gets_loop rd buf (Suc k) i m inp =
     (case rd inp of (cc, ch, inp1) \<Rightarrow>
        if cc < 1 then (i, m, inp1)
        else let m1 = m(buf + of_nat i := ch)
             in if ch = 10 \<or> ch = 13 then (i + 1, m1, inp1)
                else gets_loop rd buf k (i + 1) m1 inp1)"

definition gets :: "('s \<Rightarrow> int \<times> byte \<times> 's) \<Rightarrow> addr \<Rightarrow> int \<Rightarrow> mem \<Rightarrow> 's \<Rightarrow> mem \<times> 's" where
  "gets rd buf mx m inp =
     (case gets_loop rd buf (nat (mx - 1)) 0 m inp of (i, m1, inp1) \<Rightarrow> (m1(buf + of_nat i := 0), inp1))"

subsection \<open>\<^verbatim>\<open>atoi\<close> and \<^verbatim>\<open>atoo\<close>\<close>

partial_function (option) skip_spaces :: "mem \<Rightarrow> addr \<Rightarrow> addr option" where
  "skip_spaces m s = (if m s = 32 then skip_spaces m (s + 1) else Some s)"

partial_function (option) digits_loop :: "mem \<Rightarrow> byte \<Rightarrow> 32 word \<Rightarrow> addr \<Rightarrow> 32 word \<Rightarrow> 32 word option" where
  "digits_loop m hi base s n =
     (if 48 \<le> m s \<and> m s \<le> hi then digits_loop m hi base (s + 1) (n * base + ucast (m s) - 48) else Some n)"

definition ato :: "byte \<Rightarrow> 32 word \<Rightarrow> mem \<Rightarrow> addr \<Rightarrow> 32 word option" where
  "ato hi base m s =
     (case skip_spaces m s of None \<Rightarrow> None
      | Some s1 \<Rightarrow>
          let sign = (if m s1 = 45 then -1 else 1);
              s2 = (if m s1 = 43 \<or> m s1 = 45 then s1 + 1 else s1)
          in map_option (\<lambda>n. sign * n) (digits_loop m hi base s2 0))"

definition atoi :: "mem \<Rightarrow> addr \<Rightarrow> 32 word option" where
  "atoi m s = ato 57 10 m s"

definition atoo :: "mem \<Rightarrow> addr \<Rightarrow> 32 word option" where
  "atoo m s = ato 55 8 m s"

subsection \<open>Correctness of the string functions\<close>

lemma strcmp_cstr: "cstr m p xs \<Longrightarrow> cstr m q ys \<Longrightarrow> \<exists>r. strcmp m p q = Some r \<and> (r = 0 \<longleftrightarrow> xs = ys)"
proof (induction xs arbitrary: p q ys)
  case Nil
  then show ?case by (cases ys) (auto simp: strcmp.simps [of m p q] word_uint_eq_iff)
next
  case (Cons x xs)
  show ?case
  proof (cases ys)
    case Nil
    then show ?thesis using Cons.prems by (auto simp: strcmp.simps [of m p q] word_uint_eq_iff)
  next
    case (Cons y zs)
    show ?thesis
    proof (cases "x = y")
      case True
      then show ?thesis using Cons.IH [of "p + 1" "q + 1" zs] Cons.prems Cons by (auto simp: strcmp.simps [of m p q])
    next
      case False
      then show ?thesis using Cons.prems Cons by (auto simp: strcmp.simps [of m p q] word_uint_eq_iff)
    qed
  qed
qed

lemma strcpy_fill:
  assumes "cstr m t xs" "apart s (Suc (length xs)) t (Suc (length xs))" "length xs < 2 ^ 32"
  shows "strcpy s t m = Some (fill m s (Suc (length xs)) (nth0 xs))"
  using assms unfolding strcpy_def
proof (induction xs arbitrary: s t m)
  case Nil
  then show ?case by (simp add: strcpy_loop.simps [of s t m] fill_Cons [of 0, symmetric] nth0_Nil)
      (simp add: fill_def fun_eq_iff unsigned_eq_0_iff)
next
  case (Cons x xs)
  have ap: "s \<noteq> t" "apart (s + 1) (Suc (length xs)) (t + 1) (Suc (length xs))" "apart s 1 (t + 1) (Suc (length xs))"
    using apart_Suc [of s "Suc (length xs)" t "Suc (length xs)"] Cons.prems(2) by auto
  have mt: "m t = x" "x \<noteq> 0" "cstr (m(s := x)) (t + 1) xs" using Cons.prems(1) cstr_upd [OF ap(3)] by auto
  have "strcpy_loop (s + 1) (t + 1) (m(s := x)) = Some (fill (m(s := x)) (s + 1) (Suc (length xs)) (nth0 xs))"
    using Cons.prems(3) by (intro Cons.IH [OF mt(3) ap(2)]) simp
  then show ?case using mt Cons.prems(3)
    by (simp add: strcpy_loop.simps [of s t m] Let_def fill_Cons nth0_Cons)
qed

lemma u_strlen_loop_cstr: "cstr m (s + n) xs \<Longrightarrow> u_strlen_loop m s n = Some (n + of_nat (length xs))"
proof (induction xs arbitrary: n)
  case Nil
  then show ?case by (simp add: u_strlen_loop.simps)
next
  case (Cons x xs)
  then have "u_strlen_loop m s (n + 1) = Some (n + 1 + of_nat (length xs))"
    using Cons.IH [of "n + 1"] by (simp add: add.assoc)
  then show ?case using Cons.prems by (simp add: u_strlen_loop.simps [of m s n] add_ac)
qed

lemma strchr_cstr:
  "cstr m s xs \<Longrightarrow> c \<noteq> 0 \<Longrightarrow>
   strchr m s c = Some (if c \<in> set xs then s + of_nat (length (takeWhile (\<lambda>x. x \<noteq> c) xs)) else 0)"
proof (induction xs arbitrary: s)
  case Nil
  then show ?case by (simp add: strchr.simps [of m s c])
next
  case (Cons x xs)
  then show ?case by (auto simp: strchr.simps [of m s c] add_ac)
qed

subsection \<open>Correctness of the number parsers\<close>

text \<open>The value of a string of digits in a base.\<close>

definition digits_value :: "nat \<Rightarrow> nat list \<Rightarrow> nat" where
  "digits_value b ds = foldl (\<lambda>n d. n * b + d) 0 ds"

lemma digits_loop_cstr:
  assumes "cstr m s (map (\<lambda>d. of_nat (48 + d)) ds @ rest)" "\<forall>d \<in> set ds. 48 + d \<le> unat hi"
    "unat hi \<le> 57" "\<not> (48 \<le> nth0 rest 0 \<and> nth0 rest 0 \<le> hi)"
  shows "digits_loop m hi base s n = Some (foldl (\<lambda>n d. n * base + of_nat d) n ds)"
  using assms
proof (induction ds arbitrary: s n)
  case Nil
  then have "m s = nth0 rest 0" by (cases rest) (auto simp: nth0_def)
  then show ?case using Nil.prems(4) by (auto simp: digits_loop.simps [of m hi base s n])
next
  case (Cons d ds)
  have d: "48 + d \<le> unat hi" "48 + d \<le> 57" using Cons.prems(2,3) by auto
  have v: "unat (of_nat (48 + d) :: byte) = 48 + d" using d(2) by (simp add: unat_of_nat take_bit_eq_mod del: of_nat_add)
  have "m s = of_nat (48 + d)" "cstr m (s + 1) (map (\<lambda>d. of_nat (48 + d)) ds @ rest)" using Cons.prems(1) by auto
  moreover have "(48 :: byte) \<le> of_nat (48 + d)" "of_nat (48 + d) \<le> hi" using v d by (simp_all add: word_le_nat_alt)
  moreover have "(ucast (of_nat (48 + d) :: byte) :: 32 word) = of_nat (48 + d)"
    using v by (metis of_nat_unat)
  ultimately show ?case using Cons.IH [of "s + 1" "n * base + of_nat d"] Cons.prems(2-4)
    by (simp add: digits_loop.simps [of m hi base s n] algebra_simps)
qed

lemma foldl_of_nat: "foldl (\<lambda>n d. n * of_nat b + of_nat d) (of_nat k) ds = (of_nat (foldl (\<lambda>n d. n * b + d) k ds) :: 32 word)"
proof (induction ds arbitrary: k)
  case (Cons d ds)
  have "(of_nat k * of_nat b + of_nat d :: 32 word) = of_nat (k * b + d)" by simp
  then show ?case using Cons.IH [of "k * b + d"] by simp
qed simp

lemma skip_spaces_cstr:
  "cstr m s (replicate k 32 @ xs) \<Longrightarrow> nth0 xs 0 \<noteq> 32 \<Longrightarrow> skip_spaces m s = Some (s + of_nat k) \<and> cstr m (s + of_nat k) xs"
proof (induction k arbitrary: s)
  case 0
  then have "m s = nth0 xs 0" by (cases xs) (auto simp: nth0_def)
  then show ?case using 0 by (simp add: skip_spaces.simps [of m s])
next
  case (Suc k)
  then show ?case using Suc.IH [of "s + 1"] by (simp add: skip_spaces.simps [of m s] add_ac)
qed

lemma ato_cstr:
  assumes "cstr m s (replicate k 32 @ sg @ map (\<lambda>d. of_nat (48 + d)) ds @ rest)"
    and sg: "sg = [] \<or> sg = [43] \<or> sg = [45]" and ds: "ds \<noteq> []" "\<forall>d \<in> set ds. d < b"
    and hi: "unat hi = 47 + b" "b \<le> 10" "0 < b" and rest: "\<not> (48 \<le> nth0 rest 0 \<and> nth0 rest 0 \<le> hi)"
  shows "ato hi (of_nat b) m s = Some ((if sg = [45] then -1 else 1) * of_nat (digits_value b ds))"
proof -
  obtain d es where de: "ds = d # es" using ds(1) by (cases ds) auto
  then have "d < b" using ds(2) by simp
  then have v: "unat (of_nat (48 + d) :: byte) = 48 + d" using hi(2) by (simp add: unat_of_nat take_bit_eq_mod del: of_nat_add)
  have "(of_nat (48 + d) :: byte) \<noteq> y" if "unat y < 48" for y using v that by (metis not_add_less1)
  from this [of 32] this [of 43] this [of 45]
  have ne: "(of_nat (48 + d) :: byte) \<noteq> 32" "(of_nat (48 + d) :: byte) \<noteq> 43" "(of_nat (48 + d) :: byte) \<noteq> 45"
    by simp_all
  let ?xs = "sg @ map (\<lambda>d. of_nat (48 + d)) ds @ rest" and ?a = "s + of_nat k"
  have "nth0 ?xs 0 \<noteq> 32" using sg ne de by (auto simp: nth0_def)
  then have 1: "skip_spaces m s = Some ?a" "cstr m ?a ?xs" using skip_spaces_cstr assms(1) by blast+
  let ?s2 = "if m ?a = 43 \<or> m ?a = 45 then ?a + 1 else ?a"
  have 2: "cstr m ?s2 (map (\<lambda>d. of_nat (48 + d)) ds @ rest)" "m ?a = 45 \<longleftrightarrow> sg = [45]"
    using sg 1(2) ne de by auto
  have "digits_loop m hi (of_nat b) ?s2 0 = Some (foldl (\<lambda>n d. n * of_nat b + of_nat d) 0 ds)"
    using ds(2) hi rest by (intro digits_loop_cstr [OF 2(1)]) auto
  then show ?thesis using 1(1) 2(2) foldl_of_nat [of b 0 ds] by (simp add: ato_def digits_value_def Let_def)
qed

lemma gets_loop_bound:
  "gets_loop rd buf k i m inp = (j, m', inp') \<Longrightarrow> i \<le> j \<and> j \<le> i + k \<and> (\<forall>a. (\<forall>l. i \<le> l \<longrightarrow> l < j \<longrightarrow> a \<noteq> buf + of_nat l) \<longrightarrow> m' a = m a)"
proof (induction k arbitrary: i m inp)
  case (Suc k)
  obtain cc ch inp1 where r: "rd inp = (cc, ch, inp1)" by (cases "rd inp")
  show ?case
  proof (cases "cc < 1 \<or> ch = 10 \<or> ch = 13")
    case True
    then show ?thesis using Suc.prems r by (auto simp: Let_def split: if_splits)
  next
    case False
    then have "gets_loop rd buf k (i + 1) (m(buf + of_nat i := ch)) inp1 = (j, m', inp')"
      using Suc.prems r by (simp add: Let_def)
    from Suc.IH [OF this] show ?thesis by (auto simp: fun_upd_def split: if_splits)
  qed
qed simp

end
