(* ===== verification/Pipe.thy ===== *)
theory Pipe
  imports Ptable
begin

text \<open>
  The ring buffer of \<^verbatim>\<open>pipe.c\<close>. The counters \<^verbatim>\<open>nread\<close> and \<^verbatim>\<open>nwrite\<close> are 32-bit words that
  only grow and wrap around; they index the buffer modulo its size. A call that has to wait returns
  \<open>PSleep\<close> with the bytes it has not handled yet: it has gone to sleep on the channel named, and
  continues with those bytes when it is woken. Each result lists the channels the call
  has woken. The pipe's own lock is held from one sleep to the next, so each definition is one
  critical section.
\<close>

definition PIPESIZE :: "32 word" where "PIPESIZE = 512"

record pipe =
  pi_data :: "8 word list"
  pi_nread :: "32 word"
  pi_nwrite :: "32 word"
  pi_readopen :: bool
  pi_writeopen :: bool

datatype 'a pstep =
    PRet int "chan list"
  | PSleep 'a chan "chan list"

subsection \<open>Operations\<close>

text \<open>The initialisation of a new pipe in \<^verbatim>\<open>pipealloc\<close>; the buffer holds what the page held.\<close>

definition pipe_init :: "pipe \<Rightarrow> pipe" where
  "pipe_init p = p\<lparr>pi_readopen := True, pi_writeopen := True, pi_nwrite := 0, pi_nread := 0\<rparr>"

text \<open>\<^verbatim>\<open>pipeclose\<close>: the pipe, the channel woken, and whether the page is freed. \<open>a\<close> is the pipe's address.\<close>

definition pipeclose :: "nat \<Rightarrow> bool \<Rightarrow> pipe \<Rightarrow> pipe \<times> chan \<times> bool" where
  "pipeclose a writable p =
     (let (p1, ch) = (if writable then (p\<lparr>pi_writeopen := False\<rparr>, ChPipeRead a)
                      else (p\<lparr>pi_readopen := False\<rparr>, ChPipeWrite a))
      in (p1, ch, \<not> pi_readopen p1 \<and> \<not> pi_writeopen p1))"

definition pipe_full :: "pipe \<Rightarrow> bool" where
  "pipe_full p \<longleftrightarrow> pi_nwrite p = pi_nread p + PIPESIZE"

definition pipe_put :: "8 word \<Rightarrow> pipe \<Rightarrow> pipe" where
  "pipe_put b p = p\<lparr>pi_data := (pi_data p)[unat (pi_nwrite p mod PIPESIZE) := b], pi_nwrite := pi_nwrite p + 1\<rparr>"

definition pipe_get :: "pipe \<Rightarrow> 8 word \<times> pipe" where
  "pipe_get p = (pi_data p ! unat (pi_nread p mod PIPESIZE), p\<lparr>pi_nread := pi_nread p + 1\<rparr>)"

text \<open>\<open>n\<close> is the byte count the call was made with, \<open>bs\<close> the bytes still to be written.\<close>

fun pipewrite :: "nat \<Rightarrow> bool \<Rightarrow> int \<Rightarrow> 8 word list \<Rightarrow> pipe \<Rightarrow> 8 word list pstep \<times> pipe" where
  "pipewrite a killed n [] p = (PRet n [ChPipeRead a], p)"
| "pipewrite a killed n (b # bs) p =
     (if pipe_full p then
        if \<not> pi_readopen p \<or> killed then (PRet (-1) [], p)
        else (PSleep (b # bs) (ChPipeWrite a) [ChPipeRead a], p)
      else pipewrite a killed n bs (pipe_put b p))"

fun piperead_copy :: "nat \<Rightarrow> pipe \<Rightarrow> 8 word list \<times> pipe" where
  "piperead_copy 0 p = ([], p)"
| "piperead_copy (Suc n) p =
     (if pi_nread p = pi_nwrite p then ([], p)
      else let (b, p1) = pipe_get p; (bs, p2) = piperead_copy n p1 in (b # bs, p2))"

definition piperead :: "nat \<Rightarrow> bool \<Rightarrow> nat \<Rightarrow> pipe \<Rightarrow> nat pstep \<times> 8 word list \<times> pipe" where
  "piperead a killed n p =
     (if pi_nread p = pi_nwrite p \<and> pi_writeopen p then
        if killed then (PRet (-1) [], [], p) else (PSleep n (ChPipeRead a) [], [], p)
      else let (bs, p1) = piperead_copy n p in (PRet (int (length bs)) [ChPipeWrite a], bs, p1))"

subsection \<open>The bytes in a pipe\<close>

definition pipe_len :: "pipe \<Rightarrow> nat" where
  "pipe_len p = unat (pi_nwrite p - pi_nread p)"

definition content :: "pipe \<Rightarrow> 8 word list" where
  "content p = map (\<lambda>i. pi_data p ! unat ((pi_nread p + of_nat i) mod PIPESIZE)) [0..<pipe_len p]"

definition pipe_ok :: "pipe \<Rightarrow> bool" where
  "pipe_ok p \<longleftrightarrow> length (pi_data p) = 512 \<and> pipe_len p \<le> 512"

text \<open>Positions in the ring: the size divides \<open>2 ^ 32\<close>, so the wrap-around of the counters is harmless.\<close>

lemma unat_ring: "unat ((w :: 32 word) mod PIPESIZE) = unat w mod 512"
  by (simp add: PIPESIZE_def unat_mod_distrib)

lemma ring_inj:
  assumes "i < 512" "j < 512" "unat ((r + of_nat i) mod PIPESIZE) = unat ((r + of_nat j) mod PIPESIZE)"
  shows "i = j"
proof -
  have s: "unat ((r + of_nat k) mod PIPESIZE) = (unat r + k) mod 512" if "k < 512" for k
  proof -
    have "unat (r + of_nat k) mod 512 = (unat r + k) mod 2 ^ 32 mod 512"
      using that by (simp add: unat_word_ariths unat_of_nat take_bit_eq_mod)
    also have "\<dots> = (unat r + k) mod 512" by (simp add: mod_mod_cancel)
    finally show ?thesis by (simp add: unat_ring)
  qed
  have e: "(unat r + i) mod 512 = (unat r + j) mod 512" using assms s by simp
  have le: "x = y" if "(unat r + x) mod 512 = (unat r + y) mod 512" "x \<le> y" "y < 512" for x y
  proof -
    have "512 dvd y - x" using mod_eq_dvd_iff_nat [of "unat r + x" "unat r + y" 512] that by simp
    then show ?thesis using that by (auto dest: dvd_imp_le)
  qed
  show ?thesis using le [OF e] le [OF e [symmetric]] assms(1,2) by (cases "i \<le> j") auto
qed

lemma pipe_full_iff: "pipe_full p \<longleftrightarrow> pipe_len p = 512"
proof -
  have "pi_nwrite p = pi_nread p + 512 \<longleftrightarrow> pi_nwrite p - pi_nread p = 512" by (auto simp: algebra_simps)
  also have "\<dots> \<longleftrightarrow> unat (pi_nwrite p - pi_nread p) = unat (512 :: 32 word)" by (simp only: word_unat_eq_iff)
  finally show ?thesis by (simp add: pipe_full_def pipe_len_def PIPESIZE_def)
qed

lemma pipe_empty_iff: "pi_nread p = pi_nwrite p \<longleftrightarrow> pipe_len p = 0"
  by (auto simp: pipe_len_def unsigned_eq_0_iff)

lemma content_length [simp]: "length (content p) = pipe_len p"
  by (simp add: content_def)

lemma pipe_len_put: "pipe_len p < 512 \<Longrightarrow> pipe_len (pipe_put b p) = Suc (pipe_len p)"
proof -
  assume l: "pipe_len p < 512"
  have s: "unat (x + 1) = Suc (unat x)" if "unat x < 512" for x :: "32 word"
    using that by (simp add: unat_word_ariths)
  have e: "pi_nwrite p + 1 - pi_nread p = (pi_nwrite p - pi_nread p) + 1" by simp
  have "unat (pi_nwrite p + 1 - pi_nread p) = Suc (pipe_len p)"
    unfolding e pipe_len_def by (rule s) (use l in \<open>simp add: pipe_len_def\<close>)
  then show ?thesis by (simp add: pipe_len_def pipe_put_def)
qed

lemma pipe_len_get: "0 < pipe_len p \<Longrightarrow> pipe_len (snd (pipe_get p)) = pipe_len p - 1"
proof -
  assume l: "0 < pipe_len p"
  have e: "pi_nwrite p - (pi_nread p + 1) = (pi_nwrite p - pi_nread p) - 1" by simp
  have "unat (pi_nwrite p - (pi_nread p + 1)) = pipe_len p - 1"
    unfolding e pipe_len_def by (rule unat_minus_one) (use l in \<open>auto simp: pipe_len_def\<close>)
  then show ?thesis by (simp add: pipe_len_def pipe_get_def)
qed

lemma content_put:
  assumes ok: "pipe_ok p" and nf: "\<not> pipe_full p"
  shows "content (pipe_put b p) = content p @ [b]" "pipe_ok (pipe_put b p)"
proof -
  have l: "pipe_len p < 512" "length (pi_data p) = 512" using ok nf by (auto simp: pipe_ok_def pipe_full_iff)
  have w: "pi_nwrite p = pi_nread p + of_nat (pipe_len p)" by (simp add: pipe_len_def)
  have ix: "unat ((pi_nread p + of_nat i) mod PIPESIZE) < length (pi_data p)" for i by (simp add: l unat_ring)
  have "content (pipe_put b p) ! i = (content p @ [b]) ! i" if "i < Suc (pipe_len p)" for i
  proof (cases "i = pipe_len p")
    case True
    then show ?thesis using ix [of "pipe_len p"] w
      by (simp add: content_def pipe_len_put [OF l(1)] nth_append nth_upt del: upt_Suc) (simp add: pipe_put_def)
  next
    case False
    then have i: "i < pipe_len p" using that by simp
    have "unat ((pi_nread p + of_nat i) mod PIPESIZE) \<noteq> unat (pi_nwrite p mod PIPESIZE)"
      using ring_inj [of i "pipe_len p" "pi_nread p"] i l(1) w by auto
    then show ?thesis using i
      by (simp add: content_def pipe_len_put [OF l(1)] nth_append nth_upt del: upt_Suc) (simp add: pipe_put_def)
  qed
  then show "content (pipe_put b p) = content p @ [b]"
    by (intro nth_equalityI) (simp_all add: pipe_len_put [OF l(1)])
  show "pipe_ok (pipe_put b p)" using l by (simp add: pipe_ok_def pipe_len_put) (simp add: pipe_put_def)
qed

lemma content_get:
  assumes ok: "pipe_ok p" and ne: "pi_nread p \<noteq> pi_nwrite p"
  shows "content p = fst (pipe_get p) # content (snd (pipe_get p))" "pipe_ok (snd (pipe_get p))"
proof -
  have l: "0 < pipe_len p" using ne by (simp add: pipe_empty_iff)
  then obtain n where n: "pipe_len p = Suc n" by (cases "pipe_len p") auto
  then have n': "pipe_len (snd (pipe_get p)) = n" using pipe_len_get [OF l] by simp
  have "content p = pi_data p ! unat (pi_nread p mod PIPESIZE) #
      map (\<lambda>i. pi_data p ! unat ((pi_nread p + of_nat (Suc i)) mod PIPESIZE)) [0..<n]"
    by (simp add: content_def n upt_conv_Cons map_Suc_upt [symmetric] comp_def del: upt_Suc)
  then show "content p = fst (pipe_get p) # content (snd (pipe_get p))"
    unfolding content_def [of "snd _"] n' by (simp add: pipe_get_def add_ac)
  show "pipe_ok (snd (pipe_get p))" using ok n by (simp add: pipe_ok_def n') (simp add: pipe_get_def)
qed

subsection \<open>The contract of a bounded queue\<close>

text \<open>
  What the loops of \<^verbatim>\<open>pipewrite\<close> and \<^verbatim>\<open>piperead\<close> need of the buffer: a bounded first-in first-out
  queue. Their effect on the bytes is proved from it, and it is interpreted on the ring buffer.
\<close>

locale bounded_fifo =
  fixes full :: "'q \<Rightarrow> bool"
    and isempty :: "'q \<Rightarrow> bool"
    and put :: "'b \<Rightarrow> 'q \<Rightarrow> 'q"
    and get :: "'q \<Rightarrow> 'b \<times> 'q"
    and inv :: "'q \<Rightarrow> bool"
    and items :: "'q \<Rightarrow> 'b list"
    and cap :: nat
  assumes full_iff: "inv q \<Longrightarrow> full q \<longleftrightarrow> length (items q) = cap"
    and empty_iff: "inv q \<Longrightarrow> isempty q \<longleftrightarrow> items q = []"
    and put_items: "inv q \<Longrightarrow> \<not> full q \<Longrightarrow> items (put b q) = items q @ [b] \<and> inv (put b q)"
    and get_items: "inv q \<Longrightarrow> \<not> isempty q \<Longrightarrow> items q = fst (get q) # items (snd (get q)) \<and> inv (snd (get q))"
    and bounded: "inv q \<Longrightarrow> length (items q) \<le> cap"
begin

fun put_all :: "'b list \<Rightarrow> 'q \<Rightarrow> 'b list \<times> 'q" where
  "put_all [] q = ([], q)"
| "put_all (b # bs) q = (if full q then (b # bs, q) else put_all bs (put b q))"

fun get_upto :: "nat \<Rightarrow> 'q \<Rightarrow> 'b list \<times> 'q" where
  "get_upto 0 q = ([], q)"
| "get_upto (Suc n) q =
     (if isempty q then ([], q) else let (b, q1) = get q; (bs, q2) = get_upto n q1 in (b # bs, q2))"

lemma put_all_spec:
  "inv q \<Longrightarrow> put_all bs q = (rest, q') \<Longrightarrow>
   inv q' \<and> (\<exists>done. bs = done @ rest \<and> items q' = items q @ done \<and> (rest \<noteq> [] \<longrightarrow> full q'))"
proof (induction bs arbitrary: q)
  case (Cons b bs)
  show ?case
  proof (cases "full q")
    case False
    then have q: "items (put b q) = items q @ [b]" "inv (put b q)" using put_items Cons.prems(1) by blast+
    then obtain dn where "inv q'" "bs = dn @ rest" "items q' = items (put b q) @ dn" "rest \<noteq> [] \<longrightarrow> full q'"
      using Cons.IH [OF q(2)] Cons.prems(2) False by auto
    then show ?thesis using q(1) by (intro conjI exI [of _ "b # dn"]) auto
  qed (use Cons.prems in auto)
qed simp

lemma get_upto_spec:
  "inv q \<Longrightarrow> get_upto n q = (bs, q') \<Longrightarrow> inv q' \<and> bs = take n (items q) \<and> items q' = drop n (items q)"
proof (induction n arbitrary: q bs q')
  case (Suc n)
  show ?case
  proof (cases "isempty q")
    case True
    then show ?thesis using Suc.prems empty_iff by auto
  next
    case False
    obtain b q1 where g: "get q = (b, q1)" by (cases "get q")
    obtain cs q2 where r: "get_upto n q1 = (cs, q2)" by (cases "get_upto n q1")
    have i: "items q = b # items q1" "inv q1" using get_items [OF Suc.prems(1) False] g by auto
    then show ?thesis using Suc.IH [OF i(2) r] Suc.prems(2) False g r by (auto simp: Let_def)
  qed
qed simp

end

interpretation ring: bounded_fifo pipe_full "\<lambda>p. pi_nread p = pi_nwrite p" pipe_put pipe_get pipe_ok content 512
proof
  show "length (content q) \<le> 512" if "pipe_ok q" for q using that by (simp add: pipe_ok_def)
  show "(pi_nread q = pi_nwrite q) = (content q = [])" for q
    by (simp add: pipe_empty_iff content_def)
  show "content (pipe_put b q) = content q @ [b] \<and> pipe_ok (pipe_put b q)" if "pipe_ok q" "\<not> pipe_full q" for q b
    using content_put [OF that] by blast
  show "content q = fst (pipe_get q) # content (snd (pipe_get q)) \<and> pipe_ok (snd (pipe_get q))"
    if "pipe_ok q" "pi_nread q \<noteq> pi_nwrite q" for q
    using content_get [OF that] by blast
qed (simp add: pipe_full_iff)

subsection \<open>What the calls do to the bytes\<close>

lemma pipewrite_put_all:
  "pipewrite a killed n bs p =
     (case ring.put_all bs p of (rest, p') \<Rightarrow>
        (if rest = [] then PRet n [ChPipeRead a]
         else if \<not> pi_readopen p' \<or> killed then PRet (-1) []
         else PSleep rest (ChPipeWrite a) [ChPipeRead a], p'))"
  by (induction bs arbitrary: p) simp_all

lemma piperead_get_upto: "piperead_copy n p = ring.get_upto n p"
  by (induction n arbitrary: p) (simp_all add: Let_def)

lemma put_all_open:
  "ring.put_all bs p = (rest, p') \<Longrightarrow>
   pi_readopen p' = pi_readopen p \<and> pi_writeopen p' = pi_writeopen p \<and> pi_nread p' = pi_nread p"
proof (induction bs arbitrary: p)
  case (Cons b bs)
  have "pi_readopen (pipe_put b p) = pi_readopen p" "pi_writeopen (pipe_put b p) = pi_writeopen p"
    "pi_nread (pipe_put b p) = pi_nread p"
    by (simp_all add: pipe_put_def)
  then show ?case using Cons by (cases "pipe_full p") auto
qed simp

lemma pipewrite_ok:
  assumes "pipe_ok p" "pipewrite a killed n bs p = (r, p')"
  shows "pipe_ok p' \<and> (\<exists>dn rest. bs = dn @ rest \<and> content p' = content p @ dn \<and>
    (if rest = [] then r = PRet n [ChPipeRead a]
     else length (content p') = 512 \<and>
          r = (if \<not> pi_readopen p \<or> killed then PRet (-1) [] else PSleep rest (ChPipeWrite a) [ChPipeRead a])))"
proof -
  obtain rest q where q: "ring.put_all bs p = (rest, q)" by (cases "ring.put_all bs p")
  have p': "p' = q" using assms(2) q by (simp add: pipewrite_put_all)
  from ring.put_all_spec [OF assms(1) q] obtain dn where
    s: "pipe_ok q" "bs = dn @ rest" "content q = content p @ dn" "rest \<noteq> [] \<longrightarrow> pipe_full q" by blast
  have r: "r = (if rest = [] then PRet n [ChPipeRead a]
         else if \<not> pi_readopen p \<or> killed then PRet (-1) []
         else PSleep rest (ChPipeWrite a) [ChPipeRead a])"
    using assms(2) q put_all_open [OF q] by (auto simp: pipewrite_put_all)
  have "length (content q) = 512" if "rest \<noteq> []" using that s(4) ring.full_iff [OF s(1)] by blast
  then show ?thesis unfolding p' r using s(1-3) by (intro conjI exI [of _ dn] exI [of _ rest]) simp_all
qed

text \<open>The number of bytes a call stores is what it adds to the write counter.\<close>

definition stored :: "pipe \<Rightarrow> pipe \<Rightarrow> nat" where
  "stored p p' = unat (pi_nwrite p' - pi_nwrite p)"

lemma pipewrite_stored:
  assumes "pipe_ok p" "pipewrite a killed n bs p = (r, p')"
  shows "pipe_ok p' \<and> content p' = content p @ take (stored p p') bs"
proof -
  obtain rest q where q: "ring.put_all bs p = (rest, q)" by (cases "ring.put_all bs p")
  have p': "p' = q" using assms(2) q by (simp add: pipewrite_put_all)
  from ring.put_all_spec [OF assms(1) q] obtain dn where
    s: "pipe_ok q" "bs = dn @ rest" "content q = content p @ dn" by blast
  have l: "pipe_len q = pipe_len p + length dn" using arg_cong [OF s(3), of length] by simp
  then have "pi_nwrite q - pi_nread p = (pi_nwrite p - pi_nread p) + of_nat (length dn)"
    using put_all_open [OF q] unfolding pipe_len_def by (metis of_nat_add of_nat_unat ucast_id)
  then have "pi_nwrite q - pi_nwrite p = of_nat (length dn)" by (simp add: algebra_simps)
  moreover have "length dn < 2 ^ 32" using l s(1) by (simp add: pipe_ok_def)
  ultimately have "stored p q = length dn" by (simp add: stored_def unat_of_nat take_bit_eq_mod)
  then show ?thesis using s p' by simp
qed

lemma piperead_ok:
  assumes "pipe_ok p" "piperead a killed n p = (r, bs, p')"
  shows "pipe_ok p' \<and> content p = bs @ content p' \<and>
    (if content p = [] \<and> pi_writeopen p
     then bs = [] \<and> r = (if killed then PRet (-1) [] else PSleep n (ChPipeRead a) [])
     else bs = take n (content p) \<and> r = PRet (int (length bs)) [ChPipeWrite a])"
proof (cases "content p = [] \<and> pi_writeopen p")
  case True
  then show ?thesis using assms ring.empty_iff [OF assms(1)] by (auto simp: piperead_def split: if_splits)
next
  case False
  obtain cs q where q: "ring.get_upto n p = (cs, q)" by (cases "ring.get_upto n p")
  have "r = PRet (int (length cs)) [ChPipeWrite a]" "bs = cs" "p' = q"
    using False assms(2) q ring.empty_iff [OF assms(1)] by (auto simp: piperead_def piperead_get_upto)
  then show ?thesis using False ring.get_upto_spec [OF assms(1) q] by simp
qed

subsection \<open>A pipe over its lifetime\<close>

text \<open>
  Any interleaving of the critical sections of writers and readers. The state is the pipe
  together with all bytes written to it and read from it so far.
\<close>

inductive pipe_run :: "nat \<Rightarrow> pipe \<Rightarrow> 8 word list \<Rightarrow> 8 word list \<Rightarrow> bool" for a where
  start: "length (pi_data p) = 512 \<Longrightarrow> pipe_run a (pipe_init p) [] []"
| writes: "pipe_run a p ws rs \<Longrightarrow> pipewrite a killed n bs p = (r, p') \<Longrightarrow>
    pipe_run a p' (ws @ take (stored p p') bs) rs"
| reads: "pipe_run a p ws rs \<Longrightarrow> piperead a killed n p = (r, bs, p') \<Longrightarrow> pipe_run a p' ws (rs @ bs)"
| closes: "pipe_run a p ws rs \<Longrightarrow> pipeclose a writable p = (p', ch, freed) \<Longrightarrow> pipe_run a p' ws rs"

lemma pipe_run_fifo: "pipe_run a p ws rs \<Longrightarrow> pipe_ok p \<and> ws = rs @ content p"
proof (induction rule: pipe_run.induct)
  case (start p)
  then show ?case by (simp add: pipe_ok_def pipe_len_def content_def pipe_init_def)
next
  case (writes p ws rs killed n bs r p')
  then show ?case using pipewrite_stored [of p a killed n bs r p'] by simp
next
  case (reads p ws rs killed n r bs p')
  then show ?case using piperead_ok [of p a killed n r bs p'] by (metis append_assoc)
next
  case (closes p ws rs writable p' ch freed)
  then show ?case
    by (auto simp: pipeclose_def Let_def pipe_ok_def pipe_len_def content_def split: if_splits)
qed

text \<open>C32. A pipe is a bounded first-in first-out queue under every interleaving of writers, readers and closes, and whatever its 32-bit counters have run up to. The bytes
  read so far followed by the bytes in the ring are the bytes written, in order, and at most 512 are in the ring. From each such state a write stores a
  prefix of its bytes, all of them unless the ring fills up, when it sleeps, or fails because there is no reader or the writer was killed; a read takes what is there up to its
  count, and sleeps only on an empty ring with a writer, where it fails if the reader was killed.\<close>

theorem pipe_fifo:
  assumes "pipe_run a p ws rs"
  shows "ws = rs @ content p \<and> length (content p) \<le> 512 \<and>
    (\<exists>done rest p'. bs = done @ rest \<and> content p' = content p @ done \<and>
       (rest \<noteq> [] \<longrightarrow> length (content p') = 512) \<and>
       pipewrite a killed n bs p = (if rest = [] then PRet n [ChPipeRead a] else if \<not> pi_readopen p \<or> killed then PRet (-1) []
         else PSleep rest (ChPipeWrite a) [ChPipeRead a], p')) \<and>
    (\<exists>p'. piperead a killed m p =
       (if content p = [] \<and> pi_writeopen p then (if killed then PRet (-1) [] else PSleep m (ChPipeRead a) [], [], p)
        else (PRet (int (min m (length (content p)))) [ChPipeWrite a], take m (content p), p')) \<and>
       content p' = drop m (content p))"
proof -
  have f: "pipe_ok p" "ws = rs @ content p" using pipe_run_fifo [OF assms] by auto
  obtain r p1 where w: "pipewrite a killed n bs p = (r, p1)" by (cases "pipewrite a killed n bs p")
  obtain r' cs p2 where rd: "piperead a killed m p = (r', cs, p2)" by (cases "piperead a killed m p") auto
  obtain dn rest where d: "bs = dn @ rest" "content p1 = content p @ dn" "if rest = [] then r = PRet n [ChPipeRead a]
     else length (content p1) = 512 \<and> r = (if \<not> pi_readopen p \<or> killed then PRet (-1) [] else PSleep rest (ChPipeWrite a) [ChPipeRead a])"
    using pipewrite_ok [OF f(1) w] by blast
  have "\<exists>p'. piperead a killed m p =
       (if content p = [] \<and> pi_writeopen p then (if killed then PRet (-1) [] else PSleep m (ChPipeRead a) [], [], p)
        else (PRet (int (min m (length (content p)))) [ChPipeWrite a], take m (content p), p')) \<and> content p' = drop m (content p)"
  proof (cases "content p = [] \<and> pi_writeopen p")
    case True
    then have "p2 = p" using rd ring.empty_iff [OF f(1)] by (auto simp: piperead_def split: if_splits)
    moreover have "cs = [] \<and> r' = (if killed then PRet (-1) [] else PSleep m (ChPipeRead a) [])"
      using piperead_ok [OF f(1) rd, THEN conjunct2, THEN conjunct2] True by simp
    ultimately show ?thesis using True rd by (intro exI [of _ p]) simp
  next
    case False
    then have c: "cs = take m (content p) \<and> r' = PRet (int (length cs)) [ChPipeWrite a]"
      using piperead_ok [OF f(1) rd, THEN conjunct2, THEN conjunct2] by (simp only: if_False)
    have c3: "content p = cs @ content p2" using piperead_ok [OF f(1) rd] by (elim conjE)
    have "content p2 = drop m (content p)" using c c3 by (metis append_take_drop_id same_append_eq)
    moreover have "length cs = min m (length (content p))" using c by (simp add: min.commute)
    ultimately show ?thesis using False rd c by (intro exI [of _ p2]) simp
  qed
  moreover have "length (content p) \<le> 512" using f(1) by (simp add: pipe_ok_def)
  moreover have "\<exists>done rest p'. bs = done @ rest \<and> content p' = content p @ done \<and> (rest \<noteq> [] \<longrightarrow> length (content p') = 512) \<and>
       pipewrite a killed n bs p = (if rest = [] then PRet n [ChPipeRead a] else if \<not> pi_readopen p \<or> killed then PRet (-1) []
         else PSleep rest (ChPipeWrite a) [ChPipeRead a], p')"
    by (intro exI [of _ dn] exI [of _ rest] exI [of _ p1]) (use w d in \<open>simp split: if_splits\<close>)
  ultimately show ?thesis using f(2) by blast
qed

text \<open>An example.\<close>

definition ex_pipe :: pipe where
  "ex_pipe = \<lparr>pi_data = replicate 512 0, pi_nread = 0, pi_nwrite = 0, pi_readopen = False, pi_writeopen = False\<rparr>"

theorem pipe_fifo_witness:
  "\<exists>p p'. pipewrite 7 False 3 [1, 2, 3] (pipe_init ex_pipe) = (PRet 3 [ChPipeRead 7], p) \<and> content p = [1, 2, 3] \<and>
     pipe_run 7 p [1, 2, 3] [] \<and> piperead 7 False 2 p = (PRet 2 [ChPipeWrite 7], [1, 2], p')"
proof -
  have s: "pipe_run 7 (pipe_init ex_pipe) [] []" by (rule pipe_run.start) (simp add: ex_pipe_def)
  obtain p where p: "pipewrite 7 False 3 [1, 2, 3] (pipe_init ex_pipe) = (PRet 3 [ChPipeRead 7], p)" and st: "stored (pipe_init ex_pipe) p = 3"
    by (simp add: pipe_init_def ex_pipe_def pipe_full_def pipe_put_def PIPESIZE_def stored_def)
  have r: "pipe_run 7 p ([] @ take (stored (pipe_init ex_pipe) p) [1, 2, 3]) []" by (rule pipe_run.writes [OF s p])
  then have r': "pipe_run 7 p [1, 2, 3] []" by (simp add: st)
  note f = pipe_fifo [OF r', of "[]" False 0 2]
  have c: "content p = [1, 2, 3]" using f by simp
  then have "pipe_len p = 3" by (metis content_length length_Cons list.size(3) numeral_3_eq_3)
  then show ?thesis using f p r' c by auto
qed

end
