(* ===== verification/Bio.thy ===== *)
theory Bio
  imports Memory
begin

text \<open>
  The buffer cache \<^verbatim>\<open>bio.c\<close> over the disk driver \<^verbatim>\<open>memide.c\<close>. The cache is an array of buffers and the
  circular list of all of them through \<^verbatim>\<open>prev\<close> and \<^verbatim>\<open>next\<close>, with the list head as the node after
  the last buffer. \<open>bc_writes\<close> records every write to the disk, in order; the log uses it to speak of crashes.
  \<open>bc_wakeups\<close> records every call of \<^verbatim>\<open>wakeup\<close>, in order, with the address it is called with.

  A buffer that another process uses makes the caller sleep: \<^verbatim>\<open>bget\<close> then ends in \<open>Block\<close>, and
  starts over when the process is woken. The cache lock is held throughout the list operations, so
  that each definition is one critical section.
\<close>

definition NBUF :: nat where "NBUF = 30"
definition BSIZE :: nat where "BSIZE = 512"

text \<open>The device number -1 of a buffer that has never been used.\<close>

definition NODEV :: nat where "NODEV = 2 ^ 32 - 1"

type_synonym block = "byte list"

record buf =
  b_busy :: bool
  b_valid :: bool
  b_dirty :: bool
  b_dev :: nat
  b_blockno :: nat
  b_data :: block

record bcache =
  bc_buf :: "nat \<Rightarrow> buf"
  bc_next :: "nat \<Rightarrow> nat"
  bc_prev :: "nat \<Rightarrow> nat"
  bc_disk :: "nat \<Rightarrow> nat \<Rightarrow> block"
  bc_disksize :: nat
  bc_writes :: "(nat \<times> nat \<times> block) list"
  bc_wakeups :: "chan list"

abbreviation HEAD :: nat where "HEAD \<equiv> NBUF"

definition upd_buf :: "nat \<Rightarrow> (buf \<Rightarrow> buf) \<Rightarrow> 'a bcache_scheme \<Rightarrow> 'a bcache_scheme" where
  "upd_buf i f s = s\<lparr>bc_buf := (bc_buf s)(i := f (bc_buf s i))\<rparr>"

definition wake :: "chan \<Rightarrow> 'a bcache_scheme \<Rightarrow> 'a bcache_scheme" where
  "wake ch s = s\<lparr>bc_wakeups := bc_wakeups s @ [ch]\<rparr>"

subsection \<open>The disk driver\<close>

definition iderw :: "nat \<Rightarrow> 'a bcache_scheme \<Rightarrow> 'a bcache_scheme res" where
  "iderw i s =
     (let b = bc_buf s i in
      if \<not> b_busy b then Panic ''iderw: buf not busy''
      else if b_valid b \<and> \<not> b_dirty b then Panic ''iderw: nothing to do''
      else if b_dev b \<noteq> 1 then Panic ''iderw: request not for disk 1''
      else if bc_disksize s \<le> b_blockno b then Panic ''iderw: block out of range''
      else if b_dirty b then
        Ok (upd_buf i (\<lambda>b. b\<lparr>b_dirty := False, b_valid := True\<rparr>)
             (s\<lparr>bc_disk := (bc_disk s)(b_dev b := (bc_disk s (b_dev b))(b_blockno b := b_data b)),
                bc_writes := bc_writes s @ [(b_dev b, b_blockno b, b_data b)]\<rparr>))
      else Ok (upd_buf i (\<lambda>b. b\<lparr>b_data := bc_disk s (b_dev b) (b_blockno b), b_valid := True\<rparr>) s))"

subsection \<open>The cache\<close>

definition binit_step :: "nat \<Rightarrow> 'a bcache_scheme \<Rightarrow> 'a bcache_scheme" where
  "binit_step b s =
     (let s1 = upd_buf b (\<lambda>x. x\<lparr>b_dev := NODEV\<rparr>)
                 (s\<lparr>bc_next := (bc_next s)(b := bc_next s HEAD), bc_prev := (bc_prev s)(b := HEAD)\<rparr>);
          s2 = s1\<lparr>bc_prev := (bc_prev s1)(bc_next s1 HEAD := b)\<rparr>
      in s2\<lparr>bc_next := (bc_next s2)(HEAD := b)\<rparr>)"

definition binit :: "'a bcache_scheme \<Rightarrow> 'a bcache_scheme" where
  "binit s = fold binit_step [0..<NBUF]
     (s\<lparr>bc_prev := (bc_prev s)(HEAD := HEAD), bc_next := (bc_next s)(HEAD := HEAD)\<rparr>)"

text \<open>A scan of the circular list from node \<open>i\<close>, in either direction, for a buffer with property \<open>P\<close>.\<close>

fun bscan :: "nat \<Rightarrow> (nat \<Rightarrow> nat) \<Rightarrow> (nat \<Rightarrow> bool) \<Rightarrow> nat \<Rightarrow> nat option res" where
  "bscan 0 step P i = Diverge"
| "bscan (Suc fuel) step P i =
     (if i = HEAD then Ok None else if P i then Ok (Some i) else bscan fuel step P (step i))"

definition scan_next :: "'a bcache_scheme \<Rightarrow> (nat \<Rightarrow> bool) \<Rightarrow> nat option res" where
  "scan_next s P = bscan (NBUF + 1) (bc_next s) P (bc_next s HEAD)"

definition scan_prev :: "'a bcache_scheme \<Rightarrow> (nat \<Rightarrow> bool) \<Rightarrow> nat option res" where
  "scan_prev s P = bscan (NBUF + 1) (bc_prev s) P (bc_prev s HEAD)"

definition bget :: "nat \<Rightarrow> nat \<Rightarrow> 'a bcache_scheme \<Rightarrow> (nat \<times> 'a bcache_scheme) res" where
  "bget dev blockno s =
     rbind (scan_next s (\<lambda>i. b_dev (bc_buf s i) = dev \<and> b_blockno (bc_buf s i) = blockno))
       (\<lambda>r. case r of
          Some i \<Rightarrow>
            if \<not> b_busy (bc_buf s i) then Ok (i, upd_buf i (\<lambda>b. b\<lparr>b_busy := True\<rparr>) s) else Block
        | None \<Rightarrow>
            rbind (scan_prev s (\<lambda>i. \<not> b_busy (bc_buf s i) \<and> \<not> b_dirty (bc_buf s i)))
              (\<lambda>r. case r of
                 Some i \<Rightarrow> Ok (i, upd_buf i (\<lambda>b. b\<lparr>b_dev := dev, b_blockno := blockno,
                                                b_busy := True, b_valid := False, b_dirty := False\<rparr>) s)
               | None \<Rightarrow> Panic ''bget: no buffers''))"

definition bread :: "nat \<Rightarrow> nat \<Rightarrow> 'a bcache_scheme \<Rightarrow> (nat \<times> 'a bcache_scheme) res" where
  "bread dev blockno s =
     rbind (bget dev blockno s) (\<lambda>(i, s1).
     if \<not> b_valid (bc_buf s1 i) then rbind (iderw i s1) (\<lambda>s2. Ok (i, s2)) else Ok (i, s1))"

definition bwrite :: "nat \<Rightarrow> 'a bcache_scheme \<Rightarrow> 'a bcache_scheme res" where
  "bwrite i s =
     (if \<not> b_busy (bc_buf s i) then Panic ''bwrite''
      else iderw i (upd_buf i (\<lambda>b. b\<lparr>b_dirty := True\<rparr>) s))"

text \<open>The six pointer assignments of \<^verbatim>\<open>brelse\<close>, in their order.\<close>

definition move_front :: "nat \<Rightarrow> 'a bcache_scheme \<Rightarrow> 'a bcache_scheme" where
  "move_front b s =
     (let s1 = s\<lparr>bc_prev := (bc_prev s)(bc_next s b := bc_prev s b)\<rparr>;
          s2 = s1\<lparr>bc_next := (bc_next s1)(bc_prev s1 b := bc_next s1 b)\<rparr>;
          s3 = s2\<lparr>bc_next := (bc_next s2)(b := bc_next s2 HEAD)\<rparr>;
          s4 = s3\<lparr>bc_prev := (bc_prev s3)(b := HEAD)\<rparr>;
          s5 = s4\<lparr>bc_prev := (bc_prev s4)(bc_next s4 HEAD := b)\<rparr>
      in s5\<lparr>bc_next := (bc_next s5)(HEAD := b)\<rparr>)"

definition brelse :: "nat \<Rightarrow> 'a bcache_scheme \<Rightarrow> 'a bcache_scheme res" where
  "brelse i s =
     (if \<not> b_busy (bc_buf s i) then Panic ''brelse''
      else Ok (wake (ChBuf i) (upd_buf i (\<lambda>b. b\<lparr>b_busy := False\<rparr>) (move_front i s))))"

subsection \<open>The circular list\<close>

fun linked :: "(nat \<Rightarrow> nat) \<Rightarrow> (nat \<Rightarrow> nat) \<Rightarrow> nat list \<Rightarrow> bool" where
  "linked nx pv (a # b # l) = (nx a = b \<and> pv b = a \<and> linked nx pv (b # l))"
| "linked nx pv l = True"

definition ring_of :: "'a bcache_scheme \<Rightarrow> nat list \<Rightarrow> bool" where
  "ring_of s xs \<longleftrightarrow> linked (bc_next s) (bc_prev s) (HEAD # xs @ [HEAD]) \<and> distinct xs \<and> set xs = {..<NBUF}"

lemma linked_append: "linked nx pv (xs @ a # ys) \<longleftrightarrow> linked nx pv (xs @ [a]) \<and> linked nx pv (a # ys)"
proof (induction xs)
  case (Cons x xs)
  then show ?case by (cases xs) auto
qed simp

lemma linked_cong:
  "(\<And>x. x \<in> set (butlast l) \<Longrightarrow> nx x = nx' x) \<Longrightarrow> (\<And>x. x \<in> set (tl l) \<Longrightarrow> pv x = pv' x) \<Longrightarrow>
   linked nx pv l = linked nx' pv' l"
proof (induction l rule: linked.induct [of _ nx pv])
  case (1 nx pv a b l)
  have "linked nx pv (b # l) = linked nx' pv' (b # l)" using 1 by (intro 1(1)) auto
  then show ?case using 1(2) [of a] 1(3) [of b] by simp
qed simp_all

lemma linked_unlink:
  assumes "linked nx pv (h # us @ b # vs @ [h])" "distinct (h # us @ b # vs)"
  defines "p \<equiv> last (h # us)" and "n \<equiv> hd (vs @ [h])"
  shows "nx b = n" "pv b = p" "linked (nx(p := n)) (pv(n := p)) (h # us @ vs @ [h])"
proof -
  obtain us' where us': "h # us = us' @ [p]" unfolding p_def by (metis append_butlast_last_id list.discI)
  obtain vs' where vs': "vs @ [h] = n # vs'" unfolding n_def by (cases vs) auto
  have l: "linked nx pv (us' @ [p, b, n] @ vs')" using assms(1) us' vs' by (metis append.assoc append_Cons append_Nil)
  then have 1: "linked nx pv (us' @ [p])" "linked nx pv (n # vs')" "nx b = n" "pv b = p"
    using linked_append [of nx pv us' p "b # n # vs'"] by auto
  then show "nx b = n" "pv b = p" by simp_all
  have d: "p \<notin> set us'" "n \<notin> set (tl (us' @ [p]))" "p \<notin> set (butlast (n # vs'))" "n \<notin> set vs'"
  proof -
    have du: "distinct (us' @ [p])" using assms(2) us' by (metis append_Cons distinct_append)
    then show "p \<notin> set us'" by simp
    have t: "tl (us' @ [p]) = us" using us' by (metis list.sel(3))
    have bl: "butlast (n # vs') = vs" using vs' by (metis butlast_snoc)
    show "n \<notin> set (tl (us' @ [p]))" unfolding t n_def using assms(2) by (cases vs) auto
    show "p \<notin> set (butlast (n # vs'))" unfolding bl p_def using assms(2) by (cases us rule: rev_cases) auto
    show "n \<notin> set vs'" using vs' assms(2) by (cases vs) auto
  qed
  have "linked (nx(p := n)) (pv(n := p)) (us' @ [p])" using 1(1) d
    by (subst linked_cong [of _ _ nx _ pv]) auto
  moreover have "linked (nx(p := n)) (pv(n := p)) (n # vs')" using 1(2) d
    by (subst linked_cong [of _ _ nx _ pv]) auto
  ultimately have "linked (nx(p := n)) (pv(n := p)) (us' @ p # n # vs')"
    by (subst linked_append) simp
  then show "linked (nx(p := n)) (pv(n := p)) (h # us @ vs @ [h])" using us' vs' by (metis append_Cons append_Nil append.assoc)
qed

lemma linked_insert:
  assumes "linked nx pv (h # ws @ [h])" "distinct (h # ws)" "b \<noteq> h" "b \<notin> set ws"
  defines "n \<equiv> nx h"
  shows "linked (nx(b := n, h := b)) (pv(b := h, n := b)) (h # b # ws @ [h])"
proof -
  have n: "n = hd (ws @ [h])" using assms(1) unfolding n_def by (cases ws) auto
  then obtain vs' where vs': "ws @ [h] = n # vs'" by (cases ws) auto
  have l: "linked nx pv (n # vs')" using assms(1) vs' by simp
  have bl: "butlast (n # vs') = ws" using vs' by (metis butlast_snoc)
  have nin: "n \<notin> set vs'" "b \<notin> set (n # vs')" using vs' assms(2-4) by (cases ws; auto)+
  have "linked (nx(b := n, h := b)) (pv(b := h, n := b)) (n # vs')"
    using l nin assms(2-4) unfolding linked_cong [of "n # vs'" "nx(b := n, h := b)" nx "pv(b := h, n := b)" pv]
    by (subst linked_cong [of _ _ nx _ pv]) (auto simp: bl [simplified])
  then show ?thesis using vs' nin assms(3) by auto
qed

lemma move_front_ring:
  assumes "ring_of s xs" "b \<in> set xs"
  shows "ring_of (move_front b s) (b # remove1 b xs)" "bc_buf (move_front b s) = bc_buf s"
    "bc_disk (move_front b s) = bc_disk s"
proof -
  obtain us vs where xs: "xs = us @ b # vs" "b \<notin> set us" using assms(2) by (metis split_list_first)
  have d: "distinct (HEAD # us @ b # vs)" "set (us @ b # vs) = {..<NBUF}" using assms(1) xs by (auto simp: ring_of_def)
  have l: "linked (bc_next s) (bc_prev s) (HEAD # us @ b # vs @ [HEAD])" using assms(1) xs by (simp add: ring_of_def)
  let ?p = "last (HEAD # us)" and ?n = "hd (vs @ [HEAD])"
  let ?nx = "(bc_next s)(?p := ?n)" and ?pv = "(bc_prev s)(?n := ?p)"
  note u = linked_unlink [OF l d(1)]
  have bh: "b \<noteq> HEAD" "b \<notin> set (us @ vs)" using d by auto
  have pb: "?p \<noteq> b" "?n \<noteq> b" using d(1) by (cases us rule: rev_cases, auto, cases vs, auto)
  have lf: "linked (?nx(b := ?nx HEAD, HEAD := b)) (?pv(b := HEAD, ?nx HEAD := b)) (HEAD # b # (us @ vs) @ [HEAD])"
    by (rule linked_insert) (use u(3) d bh in auto)
  have nh: "?nx HEAD \<noteq> b" using u(3) bh by (cases us; cases vs) auto
  have "bc_next (move_front b s) = ?nx(b := ?nx HEAD, HEAD := b)" "bc_prev (move_front b s) = ?pv(b := HEAD, ?nx HEAD := b)"
    using u(1,2) pb bh nh by (auto simp: move_front_def Let_def fun_eq_iff)
  then show "ring_of (move_front b s) (b # remove1 b xs)"
    using lf d xs by (auto simp: ring_of_def remove1_append)
qed (simp_all add: move_front_def Let_def)

lemma bscan_next:
  "linked nx pv (a # ys @ [HEAD]) \<Longrightarrow> HEAD \<notin> set ys \<Longrightarrow> length ys < fuel \<Longrightarrow> bscan fuel nx P (nx a) = Ok (find P ys)"
proof (induction ys arbitrary: a fuel)
  case Nil
  then show ?case by (cases fuel) auto
next
  case (Cons y ys)
  then obtain f where f: "fuel = Suc f" by (cases fuel) auto
  then show ?case using Cons.IH [of y f] Cons.prems by auto
qed

lemma bscan_prev:
  "linked nx pv (HEAD # ys @ [a]) \<Longrightarrow> HEAD \<notin> set ys \<Longrightarrow> length ys < fuel \<Longrightarrow> bscan fuel pv P (pv a) = Ok (find P (rev ys))"
proof (induction ys arbitrary: a fuel rule: rev_induct)
  case Nil
  then show ?case by (cases fuel) auto
next
  case (snoc y ys)
  then obtain f where f: "fuel = Suc f" by (cases fuel) auto
  have "linked nx pv (HEAD # ys @ [y])" "pv a = y"
    using snoc.prems(1) linked_append [of nx pv "HEAD # ys" y "[a]"] by auto
  then show ?case using snoc.IH [of y f] snoc.prems f by auto
qed

lemma ring_length: "ring_of s xs \<Longrightarrow> length xs = NBUF"
  by (metis card_lessThan distinct_card ring_of_def)

lemma ring_scans:
  assumes "ring_of s xs"
  shows "scan_next s P = Ok (find P xs)" "scan_prev s P = Ok (find P (rev xs))"
proof -
  have l: "linked (bc_next s) (bc_prev s) (HEAD # xs @ [HEAD])" "HEAD \<notin> set xs" "length xs < NBUF + 1"
    using assms ring_length [OF assms] by (auto simp: ring_of_def)
  show "scan_next s P = Ok (find P xs)" unfolding scan_next_def by (rule bscan_next [OF l])
  show "scan_prev s P = Ok (find P (rev xs))" unfolding scan_prev_def by (rule bscan_prev [OF l])
qed

subsection \<open>What the cache holds\<close>

text \<open>
  \<open>cache_rel s V D B\<close>: seen through the cache, block \<open>b\<close> of the disk holds \<open>V b\<close>; the blocks \<open>D\<close> are dirty
  in the cache, and the disk holds \<open>V b\<close> for every other block; the blocks \<open>B\<close> are in use. \<open>hasbuf s i b\<close>: buffer \<open>i\<close>
  is in use for block \<open>b\<close>.
\<close>

definition bufs_ok :: "(nat \<Rightarrow> buf) \<Rightarrow> nat \<Rightarrow> (nat \<Rightarrow> block) \<Rightarrow> bool" where
  "bufs_ok bs n V \<longleftrightarrow>
     (\<forall>i < NBUF. \<forall>j < NBUF. b_dev (bs i) \<noteq> NODEV \<longrightarrow> b_dev (bs i) = b_dev (bs j) \<longrightarrow> b_blockno (bs i) = b_blockno (bs j) \<longrightarrow> i = j) \<and>
     (\<forall>i < NBUF. b_busy (bs i) \<or> b_dirty (bs i) \<or> b_dev (bs i) \<noteq> NODEV \<longrightarrow> b_valid (bs i)) \<and>
     (\<forall>i < NBUF. b_valid (bs i) \<longrightarrow> b_dev (bs i) = 1 \<and> b_blockno (bs i) < n \<and> b_data (bs i) = V (b_blockno (bs i)))"

definition dirty_blocks :: "(nat \<Rightarrow> buf) \<Rightarrow> nat set" where
  "dirty_blocks bs = {b_blockno (bs i) |i. i < NBUF \<and> b_dirty (bs i)}"

definition busy_blocks :: "(nat \<Rightarrow> buf) \<Rightarrow> nat set" where
  "busy_blocks bs = {b_blockno (bs i) |i. i < NBUF \<and> b_busy (bs i)}"

definition cache_rel :: "'a bcache_scheme \<Rightarrow> (nat \<Rightarrow> block) \<Rightarrow> nat set \<Rightarrow> nat set \<Rightarrow> bool" where
  "cache_rel s V D B \<longleftrightarrow>
     (\<exists>xs. ring_of s xs) \<and> bufs_ok (bc_buf s) (bc_disksize s) V \<and>
     (\<forall>b. b \<notin> D \<longrightarrow> bc_disk s 1 b = V b) \<and> D = dirty_blocks (bc_buf s) \<and> B = busy_blocks (bc_buf s)"

definition hasbuf :: "'a bcache_scheme \<Rightarrow> nat \<Rightarrow> nat \<Rightarrow> bool" where
  "hasbuf s i b \<longleftrightarrow> i < NBUF \<and> b_busy (bc_buf s i) \<and> b_dev (bc_buf s i) = 1 \<and> b_blockno (bc_buf s i) = b"

lemma NODEV_1 [simp]: "NODEV \<noteq> 1" "NODEV \<noteq> Suc 0" "Suc 0 \<noteq> NODEV" "1 \<noteq> NODEV"
  by (simp_all add: NODEV_def)

lemma bufs_ok_inj:
  "bufs_ok bs n V \<Longrightarrow> i < NBUF \<Longrightarrow> j < NBUF \<Longrightarrow> b_dev (bs i) \<noteq> NODEV \<Longrightarrow> b_dev (bs i) = b_dev (bs j) \<Longrightarrow>
   b_blockno (bs i) = b_blockno (bs j) \<Longrightarrow> i = j"
  unfolding bufs_ok_def by blast

lemma bufs_ok_valid:
  "bufs_ok bs n V \<Longrightarrow> i < NBUF \<Longrightarrow> b_busy (bs i) \<or> b_dirty (bs i) \<or> b_dev (bs i) \<noteq> NODEV \<Longrightarrow> b_valid (bs i)"
  unfolding bufs_ok_def by blast

lemma bufs_ok_data:
  "bufs_ok bs n V \<Longrightarrow> i < NBUF \<Longrightarrow> b_valid (bs i) \<Longrightarrow>
   b_dev (bs i) = 1 \<and> b_blockno (bs i) < n \<and> b_data (bs i) = V (b_blockno (bs i))"
  unfolding bufs_ok_def by blast

lemma bufs_ok_unique:
  "bufs_ok bs n V \<Longrightarrow> i < NBUF \<Longrightarrow> j < NBUF \<Longrightarrow> b_valid (bs i) \<Longrightarrow> b_valid (bs j) \<Longrightarrow>
   b_blockno (bs i) = b_blockno (bs j) \<Longrightarrow> i = j"
  using bufs_ok_inj [of bs n V i j] bufs_ok_data [of bs n V i] bufs_ok_data [of bs n V j] by simp

lemma hasbuf_data:
  "cache_rel s V D B \<Longrightarrow> hasbuf s i b \<Longrightarrow>
   b_valid (bc_buf s i) \<and> b_data (bc_buf s i) = V b \<and> b < bc_disksize s \<and> b \<in> B"
  using bufs_ok_valid [of "bc_buf s" "bc_disksize s" V i] bufs_ok_data [of "bc_buf s" "bc_disksize s" V i]
  by (auto simp: cache_rel_def hasbuf_def busy_blocks_def)

lemma hasbuf_unique: "cache_rel s V D B \<Longrightarrow> hasbuf s i b \<Longrightarrow> hasbuf s j b \<Longrightarrow> i = j"
  using bufs_ok_inj [of "bc_buf s" "bc_disksize s" V i j] by (simp add: cache_rel_def hasbuf_def)

text \<open>The set of buffers that are dirty or in use; there is one for each such block.\<close>

lemma dirty_busy_card:
  assumes "cache_rel s V D B"
  shows "card {i. i < NBUF \<and> (b_busy (bc_buf s i) \<or> b_dirty (bc_buf s i))} = card (D \<union> B)" "finite D" "finite B"
proof -
  let ?I = "{i. i < NBUF \<and> (b_busy (bc_buf s i) \<or> b_dirty (bc_buf s i))}"
  have bo: "bufs_ok (bc_buf s) (bc_disksize s) V" using assms by (simp add: cache_rel_def)
  have "inj_on (\<lambda>i. b_blockno (bc_buf s i)) ?I"
    using bufs_ok_unique [OF bo] bufs_ok_valid [OF bo] by (auto intro!: inj_onI)
  moreover have "(\<lambda>i. b_blockno (bc_buf s i)) ` ?I = D \<union> B"
    using assms by (auto simp: cache_rel_def dirty_blocks_def busy_blocks_def)
  ultimately show "card ?I = card (D \<union> B)" using card_image by metis
  have "D = (\<lambda>i. b_blockno (bc_buf s i)) ` {i. i < NBUF \<and> b_dirty (bc_buf s i)}"
    "B = (\<lambda>i. b_blockno (bc_buf s i)) ` {i. i < NBUF \<and> b_busy (bc_buf s i)}"
    using assms by (auto simp: cache_rel_def dirty_blocks_def busy_blocks_def)
  then show "finite D" "finite B" by simp_all
qed

lemma free_buffer:
  assumes "cache_rel s V D B" "card (D \<union> B) < NBUF"
  shows "\<exists>i < NBUF. \<not> b_busy (bc_buf s i) \<and> \<not> b_dirty (bc_buf s i)"
proof (rule ccontr)
  assume "\<not> ?thesis"
  then have "{i. i < NBUF \<and> (b_busy (bc_buf s i) \<or> b_dirty (bc_buf s i))} = {..<NBUF}" by auto
  then show False using dirty_busy_card(1) [OF assms(1)] assms(2) by simp
qed

lemma ring_of_upd [simp]:
  "ring_of (s\<lparr>bc_buf := bs\<rparr>) xs = ring_of s xs" "ring_of (s\<lparr>bc_disk := d\<rparr>) xs = ring_of s xs"
  "ring_of (s\<lparr>bc_writes := w\<rparr>) xs = ring_of s xs" "ring_of (s\<lparr>bc_wakeups := ch\<rparr>) xs = ring_of s xs"
  by (simp_all add: ring_of_def)

subsection \<open>Changing one buffer\<close>

lemma bufs_ok_upd:
  assumes ok: "bufs_ok bs n V" and i: "i < NBUF"
    and x: "b_dev x = 1" "b_valid x" "b_blockno x < n" "b_data x = V' (b_blockno x)"
    and other: "\<And>j. j < NBUF \<Longrightarrow> j \<noteq> i \<Longrightarrow> b_valid (bs j) \<Longrightarrow> b_blockno (bs j) \<noteq> b_blockno x"
    and V': "\<And>b. b \<noteq> b_blockno x \<Longrightarrow> V' b = V b"
  shows "bufs_ok (bs(i := x)) n V'"
proof -
  let ?bs = "bs(i := x)"
  have dv: "b_valid (bs j) \<longleftrightarrow> b_dev (bs j) \<noteq> NODEV" if "j < NBUF" for j
    using bufs_ok_valid [OF ok that] bufs_ok_data [OF ok that] by auto
  have "j = k" if jk: "j < NBUF" "k < NBUF" "b_dev (?bs j) \<noteq> NODEV" "b_dev (?bs j) = b_dev (?bs k)"
    "b_blockno (?bs j) = b_blockno (?bs k)" for j k
  proof -
    have ne: False if "l < NBUF" "l \<noteq> i" "b_dev (bs l) = 1" "b_blockno (bs l) = b_blockno x" for l
      using other [of l] that dv by simp
    consider "j = i" "k = i" | "j = i" "k \<noteq> i" | "j \<noteq> i" "k = i" | "j \<noteq> i" "k \<noteq> i" by blast
    then show ?thesis
    proof cases
      case 2 then show ?thesis using ne [of k] jk x(1) by simp
    next
      case 3 then show ?thesis using ne [of j] jk x(1) by simp
    next
      case 4 then show ?thesis using bufs_ok_inj [OF ok jk(1,2)] jk by simp
    qed simp
  qed
  moreover have "b_valid (?bs j)" if "j < NBUF" "b_busy (?bs j) \<or> b_dirty (?bs j) \<or> b_dev (?bs j) \<noteq> NODEV" for j
    using bufs_ok_valid [OF ok that(1)] that x by (cases "j = i") auto
  moreover have "b_dev (?bs j) = 1 \<and> b_blockno (?bs j) < n \<and> b_data (?bs j) = V' (b_blockno (?bs j))"
    if "j < NBUF" "b_valid (?bs j)" for j
  proof (cases "j = i")
    case False
    then have "b_dev (bs j) = 1 \<and> b_blockno (bs j) < n \<and> b_data (bs j) = V (b_blockno (bs j))"
      using bufs_ok_data [OF ok that(1)] that by simp
    then show ?thesis using False other [of j] V' that by simp
  qed (use x in simp)
  ultimately show ?thesis unfolding bufs_ok_def by blast
qed

lemma blocks_upd:
  "dirty_blocks (bs(i := x)) = {b_blockno (bs j) |j. j < NBUF \<and> j \<noteq> i \<and> b_dirty (bs j)} \<union> (if i < NBUF \<and> b_dirty x then {b_blockno x} else {})"
  "busy_blocks (bs(i := x)) = {b_blockno (bs j) |j. j < NBUF \<and> j \<noteq> i \<and> b_busy (bs j)} \<union> (if i < NBUF \<and> b_busy x then {b_blockno x} else {})"
  by (auto simp: dirty_blocks_def busy_blocks_def)

lemma blocks_split:
  "dirty_blocks bs = {b_blockno (bs j) |j. j < NBUF \<and> j \<noteq> i \<and> b_dirty (bs j)} \<union> (if i < NBUF \<and> b_dirty (bs i) then {b_blockno (bs i)} else {})"
  "busy_blocks bs = {b_blockno (bs j) |j. j < NBUF \<and> j \<noteq> i \<and> b_busy (bs j)} \<union> (if i < NBUF \<and> b_busy (bs i) then {b_blockno (bs i)} else {})"
  by (auto simp: dirty_blocks_def busy_blocks_def)

text \<open>
  A buffer changes to \<open>x\<close> and the view to \<open>V'\<close>; \<open>x\<close> is a valid buffer for a block that no other buffer holds.
\<close>

lemma cache_rel_upd:
  assumes rel: "cache_rel s V D B" and i: "i < NBUF"
    and x: "b_dev x = 1" "b_valid x" "b_blockno x < bc_disksize s" "b_data x = V' (b_blockno x)"
    and other: "\<And>j. j < NBUF \<Longrightarrow> j \<noteq> i \<Longrightarrow> b_valid (bc_buf s j) \<Longrightarrow> b_blockno (bc_buf s j) \<noteq> b_blockno x"
    and V': "\<And>b. b \<noteq> b_blockno x \<Longrightarrow> V' b = V b"
    and old: "b_busy (bc_buf s i) \<or> b_dirty (bc_buf s i) \<Longrightarrow> b_blockno (bc_buf s i) = b_blockno x"
    and ring: "ring_of s' ys" and s': "bc_buf s' = (bc_buf s)(i := x)" "bc_disksize s' = bc_disksize s"
    and disk: "\<And>b. b \<noteq> b_blockno x \<Longrightarrow> bc_disk s' 1 b = bc_disk s 1 b"
      "\<not> b_dirty x \<Longrightarrow> bc_disk s' 1 (b_blockno x) = V' (b_blockno x)"
  shows "cache_rel s' V' (if b_dirty x then insert (b_blockno x) D else D - {b_blockno x})
     (if b_busy x then insert (b_blockno x) B else B - {b_blockno x})"
proof -
  have bo: "bufs_ok (bc_buf s) (bc_disksize s) V" and D: "D = dirty_blocks (bc_buf s)" and B: "B = busy_blocks (bc_buf s)"
    and dk: "\<And>b. b \<notin> D \<Longrightarrow> bc_disk s 1 b = V b"
    using rel by (simp_all add: cache_rel_def)
  let ?b = "b_blockno x"
  have nd: "?b \<notin> {b_blockno (bc_buf s j) |j. j < NBUF \<and> j \<noteq> i \<and> b_dirty (bc_buf s j)}"
    "?b \<notin> {b_blockno (bc_buf s j) |j. j < NBUF \<and> j \<noteq> i \<and> b_busy (bc_buf s j)}"
    using other bufs_ok_valid [OF bo] by (force, force)
  have "dirty_blocks (bc_buf s') = (if b_dirty x then insert ?b D else D - {?b})"
    unfolding s' D blocks_upd blocks_split [of "bc_buf s" i] using i nd(1) old by (auto split: if_splits)
  moreover have "busy_blocks (bc_buf s') = (if b_busy x then insert ?b B else B - {?b})"
    unfolding s' B blocks_upd blocks_split [of "bc_buf s" i] using i nd(2) old by (auto split: if_splits)
  moreover have "bufs_ok (bc_buf s') (bc_disksize s') V'"
    unfolding s' by (rule bufs_ok_upd [OF bo i x other V'])
  moreover have "bc_disk s' 1 b = V' b" if "b \<notin> (if b_dirty x then insert ?b D else D - {?b})" for b
    using that disk dk V' by (cases "b = ?b") (auto split: if_splits)
  ultimately show ?thesis using ring unfolding cache_rel_def by blast
qed

subsection \<open>The operations on what the cache holds\<close>

text \<open>\<^verbatim>\<open>bread\<close> returns the block, in use; nothing else changes.\<close>

lemma bread_rel:
  assumes rel: "cache_rel s V D B" and b: "b \<notin> B" "b < bc_disksize s" and room: "b \<in> D \<or> card (D \<union> B) < NBUF"
  shows "\<exists>i s'. bread 1 b s = Ok (i, s') \<and> cache_rel s' V D (insert b B) \<and> hasbuf s' i b \<and>
    (\<forall>j c. hasbuf s j c \<longrightarrow> hasbuf s' j c) \<and> s' = s\<lparr>bc_buf := bc_buf s'\<rparr>"
proof -
  obtain xs where xs: "ring_of s xs" using rel by (auto simp: cache_rel_def)
  have bo: "bufs_ok (bc_buf s) (bc_disksize s) V" and D: "D = dirty_blocks (bc_buf s)" and B: "B = busy_blocks (bc_buf s)"
    and dk: "\<And>b. b \<notin> D \<Longrightarrow> bc_disk s 1 b = V b"
    using rel by (simp_all add: cache_rel_def)
  let ?P = "\<lambda>i. b_dev (bc_buf s i) = 1 \<and> b_blockno (bc_buf s i) = b"
  show ?thesis
  proof (cases "find ?P xs")
    case (Some i)
    then have i: "i < NBUF" "b_dev (bc_buf s i) = 1" "b_blockno (bc_buf s i) = b"
      using xs by (auto simp: find_Some_iff ring_of_def)
    then have v: "b_valid (bc_buf s i)" using bufs_ok_valid [OF bo] by simp
    have nb: "\<not> b_busy (bc_buf s i)" using b(1) i unfolding B busy_blocks_def by auto
    have other: "b_blockno (bc_buf s j) \<noteq> b" if "j < NBUF" "j \<noteq> i" "b_valid (bc_buf s j)" for j
      using bufs_ok_unique [OF bo that(1) i(1) that(3) v] that(2) i(3) by auto
    have dD: "b \<in> D \<longleftrightarrow> b_dirty (bc_buf s i)"
      using other bufs_ok_valid [OF bo] i unfolding D dirty_blocks_def by blast
    define x where "x = (bc_buf s i)\<lparr>b_busy := True\<rparr>"
    define s' where "s' = s\<lparr>bc_buf := (bc_buf s)(i := x)\<rparr>"
    have x: "b_dev x = 1" "b_valid x" "b_blockno x = b" "b_dirty x = b_dirty (bc_buf s i)" "b_busy x" "b_data x = V b"
      using bufs_ok_data [OF bo i(1) v] v i by (auto simp: x_def)
    have "bread 1 b s = Ok (i, s')"
      using Some nb v by (simp add: bread_def bget_def ring_scans [OF xs] upd_buf_def s'_def x_def)
    moreover have "cache_rel s' V (if b_dirty x then insert (b_blockno x) D else D - {b_blockno x})
        (if b_busy x then insert (b_blockno x) B else B - {b_blockno x})"
      by (rule cache_rel_upd [OF rel i(1), where ys = xs]) (use x other xs b(2) i dk dD in \<open>simp_all add: s'_def\<close>)
    then have "cache_rel s' V D (insert b B)" using x dD by (auto simp: insert_absorb split: if_splits)
    moreover have "hasbuf s' i b" "\<forall>j c. hasbuf s j c \<longrightarrow> hasbuf s' j c" "s' = s\<lparr>bc_buf := bc_buf s'\<rparr>"
      using i x by (auto simp: hasbuf_def s'_def)
    ultimately show ?thesis by blast
  next
    case None
    then have nc: "\<not> ?P j" if "j < NBUF" for j using xs that by (auto simp: find_None_iff ring_of_def)
    have nD: "b \<notin> D" using nc bufs_ok_valid [OF bo] bufs_ok_data [OF bo] unfolding D dirty_blocks_def by auto
    then obtain k where "k < NBUF" "\<not> b_busy (bc_buf s k) \<and> \<not> b_dirty (bc_buf s k)"
      using free_buffer [OF rel] room by blast
    then have "find (\<lambda>i. \<not> b_busy (bc_buf s i) \<and> \<not> b_dirty (bc_buf s i)) (rev xs) \<noteq> None"
      using xs by (auto simp: find_None_iff ring_of_def)
    then obtain i where f: "find (\<lambda>i. \<not> b_busy (bc_buf s i) \<and> \<not> b_dirty (bc_buf s i)) (rev xs) = Some i" by blast
    then have i: "i < NBUF" "\<not> b_busy (bc_buf s i)" "\<not> b_dirty (bc_buf s i)"
      using xs by (auto simp: find_Some_iff ring_of_def) (metis length_rev lessThan_iff nth_mem set_rev)
    define x where "x = (bc_buf s i)\<lparr>b_dev := 1, b_blockno := b, b_busy := True, b_dirty := False,
        b_data := bc_disk s 1 b, b_valid := True\<rparr>"
    define s' where "s' = s\<lparr>bc_buf := (bc_buf s)(i := x)\<rparr>"
    have "bread 1 b s = Ok (i, s')"
      using None f b(2)
      by (simp add: bread_def bget_def ring_scans [OF xs] upd_buf_def s'_def iderw_def x_def Let_def)
    moreover have "cache_rel s' V (if b_dirty x then insert (b_blockno x) D else D - {b_blockno x})
        (if b_busy x then insert (b_blockno x) B else B - {b_blockno x})"
    proof (rule cache_rel_upd [OF rel i(1), where ys = xs])
      show "b_blockno (bc_buf s j) \<noteq> b_blockno x" if "j < NBUF" "j \<noteq> i" "b_valid (bc_buf s j)" for j
        using nc [OF that(1)] that bufs_ok_data [OF bo that(1)] by (simp add: x_def)
    qed (use dk [OF nD] b xs i in \<open>simp_all add: s'_def x_def\<close>)
    then have "cache_rel s' V D (insert b B)" using nD by (simp add: x_def)
    moreover have "hasbuf s' i b" "\<forall>j c. hasbuf s j c \<longrightarrow> hasbuf s' j c" "s' = s\<lparr>bc_buf := bc_buf s'\<rparr>"
      using i by (auto simp: hasbuf_def s'_def x_def)
    ultimately show ?thesis by blast
  qed
qed

text \<open>The same buffer, changed in place: new data, and the flags \<^verbatim>\<open>B_BUSY\<close> and \<^verbatim>\<open>B_DIRTY\<close>.\<close>

lemma cache_rel_same:
  assumes rel: "cache_rel s V D B" and hb: "hasbuf s i b"
    and x: "x = (bc_buf s i)\<lparr>b_data := d, b_dirty := dt, b_busy := bz\<rparr>"
    and ring: "ring_of s' ys" and s': "bc_buf s' = (bc_buf s)(i := x)" "bc_disksize s' = bc_disksize s"
    and disk: "\<And>c. c \<noteq> b \<Longrightarrow> bc_disk s' 1 c = bc_disk s 1 c" "\<not> dt \<Longrightarrow> bc_disk s' 1 b = d"
  shows "cache_rel s' (V(b := d)) (if dt then insert b D else D - {b}) (if bz then insert b B else B - {b})"
proof -
  have bo: "bufs_ok (bc_buf s) (bc_disksize s) V" using rel by (simp add: cache_rel_def)
  have i: "i < NBUF" "b_dev (bc_buf s i) = 1" "b_blockno (bc_buf s i) = b" "b_valid (bc_buf s i)" "b < bc_disksize s"
    using hb hasbuf_data [OF rel hb] by (auto simp: hasbuf_def)
  have r: "cache_rel s' (V(b := d)) (if b_dirty x then insert (b_blockno x) D else D - {b_blockno x})
      (if b_busy x then insert (b_blockno x) B else B - {b_blockno x})"
  proof (rule cache_rel_upd [OF rel i(1) _ _ _ _ _ _ _ ring s'])
    show "b_blockno (bc_buf s j) \<noteq> b_blockno x" if "j < NBUF" "j \<noteq> i" "b_valid (bc_buf s j)" for j
      using bufs_ok_unique [OF bo that(1) i(1) that(3) i(4)] that(2) i(3) by (auto simp: x)
  qed (use i disk in \<open>auto simp: x\<close>)
  have e: "b_blockno x = b" "b_dirty x = dt" "b_busy x = bz" using i(3) by (simp_all add: x)
  show ?thesis using r unfolding e .
qed

lemma hasbuf_other:
  "bc_buf s' = (bc_buf s)(i := x) \<Longrightarrow> hasbuf s j c \<Longrightarrow> j \<noteq> i \<Longrightarrow> hasbuf s' j c"
  by (simp add: hasbuf_def)

text \<open>Writing new data through to the disk: the write is recorded and the block is clean.\<close>

lemma bwrite_rel:
  assumes rel: "cache_rel s V D B" and hb: "hasbuf s i b"
  shows "\<exists>s'. bwrite i (upd_buf i (\<lambda>x. x\<lparr>b_data := d\<rparr>) s) = Ok s' \<and> cache_rel s' (V(b := d)) (D - {b}) B \<and>
    (\<forall>j c. hasbuf s j c \<longrightarrow> hasbuf s' j c) \<and> bc_writes s' = bc_writes s @ [(1, b, d)] \<and>
    bc_disk s' = (bc_disk s)(1 := (bc_disk s 1)(b := d)) \<and>
    s' = s\<lparr>bc_buf := bc_buf s', bc_disk := bc_disk s', bc_writes := bc_writes s'\<rparr>"
proof -
  obtain ys where ys: "ring_of s ys" using rel by (auto simp: cache_rel_def)
  have i: "i < NBUF" "b_busy (bc_buf s i)" "b_dev (bc_buf s i) = 1" "b_blockno (bc_buf s i) = b"
    and v: "b_valid (bc_buf s i)" "b < bc_disksize s" "b \<in> B"
    using hb hasbuf_data [OF rel hb] by (auto simp: hasbuf_def)
  define x where "x = (bc_buf s i)\<lparr>b_data := d, b_dirty := False, b_busy := True\<rparr>"
  define s' where "s' = s\<lparr>bc_buf := (bc_buf s)(i := x), bc_disk := (bc_disk s)(1 := (bc_disk s 1)(b := d)),
      bc_writes := bc_writes s @ [(1, b, d)]\<rparr>"
  have "bwrite i (upd_buf i (\<lambda>x. x\<lparr>b_data := d\<rparr>) s) = Ok s'"
    using i v by (cases "bc_buf s i") (simp add: bwrite_def upd_buf_def iderw_def Let_def s'_def x_def)
  moreover have "cache_rel s' (V(b := d)) (if False then insert b D else D - {b}) (if True then insert b B else B - {b})"
    by (rule cache_rel_same [OF rel hb x_def, of s' ys]) (use ys in \<open>simp_all add: s'_def\<close>)
  moreover have "\<forall>j c. hasbuf s j c \<longrightarrow> hasbuf s' j c"
    by (auto simp: hasbuf_def s'_def x_def)
  ultimately show ?thesis using v(3) by (intro exI [of _ s']) (simp add: s'_def insert_absorb)
qed

text \<open>Marking new data dirty, as \<^verbatim>\<open>log_write\<close> does: the disk keeps the old data.\<close>

lemma dirty_rel:
  fixes d :: block
  assumes rel: "cache_rel s V D B" and hb: "hasbuf s i b"
  defines "s' \<equiv> upd_buf i (\<lambda>x. x\<lparr>b_dirty := True\<rparr>) (upd_buf i (\<lambda>x. x\<lparr>b_data := d\<rparr>) s)"
  shows "cache_rel s' (V(b := d)) (insert b D) B \<and> (\<forall>j c. hasbuf s j c \<longrightarrow> hasbuf s' j c)"
proof -
  obtain ys where ys: "ring_of s ys" using rel by (auto simp: cache_rel_def)
  have bz: "b_busy (bc_buf s i)" "b \<in> B" using hb hasbuf_data [OF rel hb] by (auto simp: hasbuf_def)
  have "cache_rel s' (V(b := d)) (if True then insert b D else D - {b}) (if True then insert b B else B - {b})"
    by (rule cache_rel_same [OF rel hb refl, of s' ys]) (use ys bz in \<open>cases "bc_buf s i"; simp add: s'_def upd_buf_def\<close>)+
  then show ?thesis using bz by (simp add: insert_absorb) (auto simp: hasbuf_def s'_def upd_buf_def)
qed

lemma brelse_rel:
  assumes rel: "cache_rel s V D B" and hb: "hasbuf s i b"
  shows "\<exists>s'. brelse i s = Ok s' \<and> cache_rel s' V D (B - {b}) \<and> (\<forall>j c. hasbuf s j c \<longrightarrow> c \<noteq> b \<longrightarrow> hasbuf s' j c) \<and>
    s' = s\<lparr>bc_buf := bc_buf s', bc_next := bc_next s', bc_prev := bc_prev s', bc_wakeups := bc_wakeups s'\<rparr>"
proof -
  obtain ys where ys: "ring_of s ys" using rel by (auto simp: cache_rel_def)
  have bo: "bufs_ok (bc_buf s) (bc_disksize s) V" and D: "D = dirty_blocks (bc_buf s)" and dk: "\<And>b. b \<notin> D \<Longrightarrow> bc_disk s 1 b = V b"
    using rel by (simp_all add: cache_rel_def)
  have i: "i < NBUF" "b_busy (bc_buf s i)" "b_blockno (bc_buf s i) = b" and v: "b_data (bc_buf s i) = V b" "b_valid (bc_buf s i)"
    using hb hasbuf_data [OF rel hb] by (auto simp: hasbuf_def)
  have im: "i \<in> set ys" using ys i by (simp add: ring_of_def)
  have dD: "b \<in> D \<longleftrightarrow> b_dirty (bc_buf s i)"
  proof
    assume "b \<in> D"
    then obtain j where j: "j < NBUF" "b_dirty (bc_buf s j)" "b_blockno (bc_buf s j) = b"
      unfolding D dirty_blocks_def by blast
    then have "b_valid (bc_buf s j)" using bufs_ok_valid [OF bo j(1)] by simp
    then have "j = i" using bufs_ok_unique [OF bo j(1) i(1) _ v(2)] j(3) i(3) by simp
    then show "b_dirty (bc_buf s i)" using j by simp
  qed (use i in \<open>unfold D dirty_blocks_def, blast\<close>)
  define s' where "s' = wake (ChBuf i) (upd_buf i (\<lambda>b. b\<lparr>b_busy := False\<rparr>) (move_front i s))"
  have mf: "bc_buf s' = (bc_buf s)(i := (bc_buf s i)\<lparr>b_busy := False\<rparr>)" "bc_disksize s' = bc_disksize s" "bc_disk s' = bc_disk s"
    by (simp_all add: s'_def wake_def upd_buf_def move_front_def Let_def)
  have x: "(bc_buf s i)\<lparr>b_busy := False\<rparr> = (bc_buf s i)\<lparr>b_data := V b, b_dirty := b_dirty (bc_buf s i), b_busy := False\<rparr>"
    using v(1) by (cases "bc_buf s i") simp
  have "ring_of s' (i # remove1 i ys)" using move_front_ring(1) [OF ys im] by (simp add: s'_def wake_def upd_buf_def)
  then have r: "cache_rel s' (V(b := V b)) (if b_dirty (bc_buf s i) then insert b D else D - {b}) (if False then insert b B else B - {b})"
    using mf dk dD by (intro cache_rel_same [OF rel hb x]) simp_all
  have e: "(if b_dirty (bc_buf s i) then insert b D else D - {b}) = D" using dD by auto
  have "cache_rel s' V D (B - {b})" using r unfolding e by simp
  moreover have "hasbuf s' j c" if "hasbuf s j c" "c \<noteq> b" for j c
    using that i by (cases "j = i") (auto simp: hasbuf_def s'_def wake_def upd_buf_def move_front_def Let_def)
  moreover have "brelse i s = Ok s'" using i by (simp add: brelse_def s'_def)
  moreover have "s' = s\<lparr>bc_buf := bc_buf s', bc_next := bc_next s', bc_prev := bc_prev s', bc_wakeups := bc_wakeups s'\<rparr>"
    by (simp add: s'_def wake_def upd_buf_def move_front_def Let_def)
  ultimately show ?thesis by blast
qed

text \<open>After \<^verbatim>\<open>binit\<close> the cache is empty and shows the disk.\<close>

lemma binit_fold:
  assumes "n \<le> NBUF" "bc_next s HEAD = HEAD" "bc_prev s HEAD = HEAD"
  shows "linked (bc_next (fold binit_step [0..<n] s)) (bc_prev (fold binit_step [0..<n] s)) (HEAD # rev [0..<n] @ [HEAD]) \<and>
    (\<forall>i. bc_buf (fold binit_step [0..<n] s) i = (if i < n then (bc_buf s i)\<lparr>b_dev := NODEV\<rparr> else bc_buf s i)) \<and>
    bc_disk (fold binit_step [0..<n] s) = bc_disk s \<and> bc_disksize (fold binit_step [0..<n] s) = bc_disksize s"
  using assms
proof (induction n)
  case (Suc n)
  define s1 where "s1 = fold binit_step [0..<n] s"
  have ih: "linked (bc_next s1) (bc_prev s1) (HEAD # rev [0..<n] @ [HEAD])"
      "\<forall>i. bc_buf s1 i = (if i < n then (bc_buf s i)\<lparr>b_dev := NODEV\<rparr> else bc_buf s i)"
      "bc_disk s1 = bc_disk s" "bc_disksize s1 = bc_disksize s"
    using Suc unfolding s1_def by auto
  have nh: "n \<noteq> HEAD" using Suc.prems by simp
  have l: "linked ((bc_next s1)(n := bc_next s1 HEAD, HEAD := n)) ((bc_prev s1)(n := HEAD, bc_next s1 HEAD := n))
      (HEAD # n # rev [0..<n] @ [HEAD])"
    using Suc.prems by (intro linked_insert ih(1)) auto
  have e: "bc_next (binit_step n s1) = (bc_next s1)(n := bc_next s1 HEAD, HEAD := n)"
      "bc_prev (binit_step n s1) = (bc_prev s1)(n := HEAD, bc_next s1 HEAD := n)"
      "bc_buf (binit_step n s1) = (bc_buf s1)(n := (bc_buf s1 n)\<lparr>b_dev := NODEV\<rparr>)"
      "bc_disk (binit_step n s1) = bc_disk s1" "bc_disksize (binit_step n s1) = bc_disksize s1"
    using nh by (auto simp: binit_step_def Let_def upd_buf_def)
  have f: "fold binit_step [0..<Suc n] s = binit_step n s1" by (simp add: s1_def)
  have r: "rev [0..<Suc n] @ [HEAD] = n # rev [0..<n] @ [HEAD]" by simp
  show ?case unfolding f e r by (intro conjI l) (use ih in \<open>simp_all add: less_Suc_eq\<close>)
qed simp

lemma binit_rel:
  assumes "\<And>i. i < NBUF \<Longrightarrow> \<not> b_busy (bc_buf s i) \<and> \<not> b_valid (bc_buf s i) \<and> \<not> b_dirty (bc_buf s i)"
  shows "cache_rel (binit s) (bc_disk s 1) {} {}"
proof -
  note f = binit_fold [of NBUF "s\<lparr>bc_prev := (bc_prev s)(HEAD := HEAD), bc_next := (bc_next s)(HEAD := HEAD)\<rparr>", folded binit_def]
  have "ring_of (binit s) (rev [0..<NBUF])" using f by (auto simp: ring_of_def)
  moreover have "bc_buf (binit s) i = (bc_buf s i)\<lparr>b_dev := NODEV\<rparr>" if "i < NBUF" for i
    using f that by simp
  ultimately show ?thesis using assms f
    by (auto simp: cache_rel_def bufs_ok_def dirty_blocks_def busy_blocks_def)
qed

end
