(* ===== verification/Log.thy ===== *)
theory Log
  imports Bio
begin

text \<open>
  The write-ahead log \<^verbatim>\<open>log.c\<close>. The state extends the buffer cache by \<^verbatim>\<open>struct log\<close>. A header
  block holds the number of logged blocks and their home locations as little-endian words; it
  is read and written byte by byte as the code's cast to \<^verbatim>\<open>struct logheader\<close> does. A
  transaction that has to wait for space or for a commit goes to sleep: \<^verbatim>\<open>begin_op\<close> is then
  \<open>Block\<close> and starts over when woken.

  \<open>bst s V L B\<close> is the abstraction the file system relies on: the blocks as seen through
  the cache are \<open>V\<close>, the blocks \<open>L\<close> are in the current transaction, the blocks \<open>B\<close> are in use. Theory \<open>LogCrash\<close> proves
  what the log is for: whatever prefix of a commit's disk writes reaches the disk, recovery
  brings back the state before the transaction or the state after it.
\<close>

definition MAXOPBLOCKS :: nat where "MAXOPBLOCKS = 10"
definition LOGSIZE :: nat where "LOGSIZE = MAXOPBLOCKS * 3"

record superblock =
  sb_size :: nat
  sb_nblocks :: nat
  sb_ninodes :: nat
  sb_nlog :: nat
  sb_logstart :: nat
  sb_inodestart :: nat
  sb_bmapstart :: nat

record logst = bcache +
  lg_start :: nat
  lg_size :: nat
  lg_outstanding :: int
  lg_committing :: bool
  lg_dev :: nat
  lh_n :: nat
  lh_block :: "nat list"

subsection \<open>Words in a block\<close>

definition get32 :: "block \<Rightarrow> nat \<Rightarrow> 32 word" where
  "get32 d k = ucast (d ! k) OR push_bit 8 (ucast (d ! (k + 1))) OR push_bit 16 (ucast (d ! (k + 2))) OR
               push_bit 24 (ucast (d ! (k + 3)))"

definition put32 :: "nat \<Rightarrow> 32 word \<Rightarrow> block \<Rightarrow> block" where
  "put32 k w d = d[k := ucast w, k + 1 := ucast (drop_bit 8 w), k + 2 := ucast (drop_bit 16 w),
                   k + 3 := ucast (drop_bit 24 w)]"

text \<open>\<^verbatim>\<open>readsb\<close> of \<^verbatim>\<open>fs.c\<close>: the super block is block 1.\<close>

definition decode_sb :: "block \<Rightarrow> superblock" where
  "decode_sb d = \<lparr>sb_size = unat (get32 d 0), sb_nblocks = unat (get32 d 4), sb_ninodes = unat (get32 d 8),
     sb_nlog = unat (get32 d 12), sb_logstart = unat (get32 d 16), sb_inodestart = unat (get32 d 20),
     sb_bmapstart = unat (get32 d 24)\<rparr>"

definition readsb :: "nat \<Rightarrow> 'a bcache_scheme \<Rightarrow> (superblock \<times> 'a bcache_scheme) res" where
  "readsb dev s =
     rbind (bread dev 1 s) (\<lambda>(i, s1).
     let sb = decode_sb (b_data (bc_buf s1 i)) in
     rbind (brelse i s1) (\<lambda>s2. Ok (sb, s2)))"

subsection \<open>The log\<close>

definition install_step :: "nat \<Rightarrow> 'a logst_scheme \<Rightarrow> 'a logst_scheme res" where
  "install_step tail s =
     rbind (bread (lg_dev s) (lg_start s + tail + 1) s) (\<lambda>(lbuf, s1).
     rbind (bread (lg_dev s1) (lh_block s1 ! tail) s1) (\<lambda>(dbuf, s2).
     rbind (bwrite dbuf (upd_buf dbuf (\<lambda>b. b\<lparr>b_data := b_data (bc_buf s2 lbuf)\<rparr>) s2)) (\<lambda>s3.
     rbind (brelse lbuf s3) (brelse dbuf))))"

definition install_trans :: "'a logst_scheme \<Rightarrow> 'a logst_scheme res" where
  "install_trans s = rfold install_step [0..<lh_n s] s"

text \<open>
  A header with more blocks than \<^verbatim>\<open>lh.block\<close> holds makes the copying loop leave the array. A negative
  count is a loop that does not run.
\<close>

definition read_head :: "'a logst_scheme \<Rightarrow> 'a logst_scheme res" where
  "read_head s =
     rbind (bread (lg_dev s) (lg_start s) s) (\<lambda>(i, s1).
     let d = b_data (bc_buf s1 i); n = nat (sint (get32 d 0)) in
     if LOGSIZE < n then Corrupt
     else brelse i (s1\<lparr>lh_n := n,
                       lh_block := map (\<lambda>k. unat (get32 d (4 + 4 * k))) [0..<n] @ drop n (lh_block s1)\<rparr>))"

definition head_data :: "nat \<Rightarrow> nat list \<Rightarrow> block \<Rightarrow> block" where
  "head_data n bs d =
     fold (\<lambda>k. put32 (4 + 4 * k) (of_nat (bs ! k))) [0..<n] (put32 0 (of_nat n) d)"

definition write_head :: "'a logst_scheme \<Rightarrow> 'a logst_scheme res" where
  "write_head s =
     rbind (bread (lg_dev s) (lg_start s) s) (\<lambda>(i, s1).
     rbind (bwrite i (upd_buf i (\<lambda>b. b\<lparr>b_data := head_data (lh_n s1) (lh_block s1) (b_data b)\<rparr>) s1)) (brelse i))"

definition recover_from_log :: "'a logst_scheme \<Rightarrow> 'a logst_scheme res" where
  "recover_from_log s =
     rbind (read_head s) (\<lambda>s1.
     rbind (install_trans s1) (\<lambda>s2. write_head (s2\<lparr>lh_n := 0\<rparr>)))"

definition initlog :: "nat \<Rightarrow> 'a logst_scheme \<Rightarrow> 'a logst_scheme res" where
  "initlog dev s =
     (if BSIZE \<le> 4 + 4 * LOGSIZE then Panic ''initlog: too big logheader''
      else rbind (readsb dev s) (\<lambda>(sb, s1).
           recover_from_log (s1\<lparr>lg_start := sb_logstart sb, lg_size := sb_nlog sb, lg_dev := dev\<rparr>)))"

definition begin_op :: "'a logst_scheme \<Rightarrow> 'a logst_scheme res" where
  "begin_op s =
     (if lg_committing s then Block
      else if int (lh_n s) + (lg_outstanding s + 1) * int MAXOPBLOCKS > int LOGSIZE then Block
      else Ok (s\<lparr>lg_outstanding := lg_outstanding s + 1\<rparr>))"

definition write_log_step :: "nat \<Rightarrow> 'a logst_scheme \<Rightarrow> 'a logst_scheme res" where
  "write_log_step tail s =
     rbind (bread (lg_dev s) (lg_start s + tail + 1) s) (\<lambda>(dst, s1).
     rbind (bread (lg_dev s1) (lh_block s1 ! tail) s1) (\<lambda>(src, s2).
     rbind (bwrite dst (upd_buf dst (\<lambda>b. b\<lparr>b_data := b_data (bc_buf s2 src)\<rparr>) s2)) (\<lambda>s3.
     rbind (brelse src s3) (brelse dst))))"

definition write_log :: "'a logst_scheme \<Rightarrow> 'a logst_scheme res" where
  "write_log s = rfold write_log_step [0..<lh_n s] s"

definition commit :: "'a logst_scheme \<Rightarrow> 'a logst_scheme res" where
  "commit s =
     (if 0 < lh_n s then
        rbind (write_log s) (\<lambda>s1.
        rbind (write_head s1) (\<lambda>s2.
        rbind (install_trans s2) (\<lambda>s3. write_head (s3\<lparr>lh_n := 0\<rparr>))))
      else Ok s)"

definition end_op :: "'a logst_scheme \<Rightarrow> 'a logst_scheme res" where
  "end_op s =
     (let s1 = s\<lparr>lg_outstanding := lg_outstanding s - 1\<rparr> in
      if lg_committing s1 then Panic ''log.committing''
      else if lg_outstanding s1 = 0 then
        rbind (commit (s1\<lparr>lg_committing := True\<rparr>)) (\<lambda>s2. Ok (wake ChLog (s2\<lparr>lg_committing := False\<rparr>)))
      else Ok (wake ChLog s1))"

text \<open>The scan of \<^verbatim>\<open>log_write\<close>: the position of the block in the header, or its end.\<close>

fun log_scan :: "nat list \<Rightarrow> nat \<Rightarrow> nat \<Rightarrow> nat \<Rightarrow> nat" where
  "log_scan bs b 0 i = i"
| "log_scan bs b (Suc k) i = (if bs ! i = b then i else log_scan bs b k (Suc i))"

definition log_write :: "nat \<Rightarrow> 'a logst_scheme \<Rightarrow> 'a logst_scheme res" where
  "log_write i s =
     (if LOGSIZE \<le> lh_n s \<or> int (lg_size s) - 1 \<le> int (lh_n s) then Panic ''too big a transaction''
      else if lg_outstanding s < 1 then Panic ''log_write outside of trans''
      else let b = b_blockno (bc_buf s i);
               k = log_scan (lh_block s) b (lh_n s) 0;
               s1 = s\<lparr>lh_block := (lh_block s)[k := b]\<rparr>;
               s2 = (if k = lh_n s then s1\<lparr>lh_n := lh_n s + 1\<rparr> else s1)
           in Ok (upd_buf i (\<lambda>b. b\<lparr>b_dirty := True\<rparr>) s2))"

subsection \<open>Encoding of the header\<close>

lemma put32_length [simp]: "length (put32 k w d) = length d"
  by (simp add: put32_def)

lemma get32_put32_same: "k + 3 < length d \<Longrightarrow> get32 (put32 k w d) k = w"
proof -
  assume l: "k + 3 < length d"
  let ?v = "ucast (ucast w :: byte) OR push_bit 8 (ucast (ucast (drop_bit 8 w) :: byte)) OR
      push_bit 16 (ucast (ucast (drop_bit 16 w) :: byte)) OR push_bit 24 (ucast (ucast (drop_bit 24 w) :: byte)) :: 32 word"
  have "?v = w"
  proof (rule bit_word_eqI)
    fix n assume "n < LENGTH(32)"
    then consider "n < 8" | "8 \<le> n" "n < 16" | "16 \<le> n" "n < 24" | "24 \<le> n" "n < 32" by fastforce
    then show "bit ?v n = bit w n" by cases (auto simp: bit_simps)
  qed
  then show ?thesis using l by (simp add: get32_def put32_def)
qed

lemma get32_put32_other: "k + 4 \<le> j \<or> j + 4 \<le> k \<Longrightarrow> get32 (put32 k w d) j = get32 d j"
  by (auto simp: get32_def put32_def)

lemma head_data_length [simp]: "length (head_data n bs d) = length d"
proof -
  have "length (fold (\<lambda>k. put32 (4 + 4 * k) (f k)) ks e) = length e" for ks e and f :: "nat \<Rightarrow> 32 word"
    by (induction ks arbitrary: e) auto
  then show ?thesis by (simp add: head_data_def)
qed

lemma head_data_get:
  assumes "length d = BSIZE" "n \<le> LOGSIZE"
  shows "get32 (head_data n bs d) 0 = of_nat n"
    "\<And>k. k < n \<Longrightarrow> get32 (head_data n bs d) (4 + 4 * k) = of_nat (bs ! k)"
proof -
  let ?f = "\<lambda>m. fold (\<lambda>k. put32 (4 + 4 * k) (of_nat (bs ! k))) [0..<m] (put32 0 (of_nat n) d)"
  have len: "length (?f m) = BSIZE" for m
    using assms(1) by (induction m) auto
  have 0: "get32 (?f m) 0 = of_nat n" for m
  proof (induction m)
    case 0
    then show ?case using assms(1) by (simp add: get32_put32_same BSIZE_def)
  qed (simp add: get32_put32_other)
  then show "get32 (head_data n bs d) 0 = of_nat n" by (simp add: head_data_def)
  have "m \<le> LOGSIZE \<Longrightarrow> k < m \<Longrightarrow> get32 (?f m) (4 + 4 * k) = of_nat (bs ! k)" for m k
  proof (induction m)
    case (Suc m)
    then show ?case using len [of m]
      by (cases "k = m") (auto simp: get32_put32_same get32_put32_other LOGSIZE_def MAXOPBLOCKS_def BSIZE_def)
  qed simp
  then show "\<And>k. k < n \<Longrightarrow> get32 (head_data n bs d) (4 + 4 * k) = of_nat (bs ! k)"
    using assms(2) by (simp add: head_data_def)
qed

subsection \<open>The block store the file system uses\<close>

lemma cache_rel_cong:
  "bc_buf s' = bc_buf s \<Longrightarrow> bc_next s' = bc_next s \<Longrightarrow> bc_prev s' = bc_prev s \<Longrightarrow> bc_disk s' = bc_disk s \<Longrightarrow>
   bc_disksize s' = bc_disksize s \<Longrightarrow> cache_rel s' V D B = cache_rel s V D B"
  by (simp add: cache_rel_def ring_of_def)

definition log_area :: "'a logst_scheme \<Rightarrow> nat set" where
  "log_area s = {lg_start s ..< lg_start s + lg_size s}"

abbreviation logged :: "'a logst_scheme \<Rightarrow> nat list" where
  "logged s \<equiv> take (lh_n s) (lh_block s)"

definition log_inv :: "'a logst_scheme \<Rightarrow> nat set \<Rightarrow> bool" where
  "log_inv s L \<longleftrightarrow>
     lg_dev s = 1 \<and> length (lh_block s) = LOGSIZE \<and> lh_n s < lg_size s \<and> lg_size s \<le> LOGSIZE \<and>
     distinct (logged s) \<and> L = set (logged s) \<and> lg_start s + lg_size s \<le> bc_disksize s \<and>
     bc_disksize s < 2 ^ 31 \<and> (\<forall>b \<in> L. b \<notin> log_area s \<and> b < bc_disksize s)"

definition bst :: "'a logst_scheme \<Rightarrow> (nat \<Rightarrow> block) \<Rightarrow> nat set \<Rightarrow> nat set \<Rightarrow> bool" where
  "bst s V L B \<longleftrightarrow> cache_rel s V L B \<and> log_inv s L \<and> (\<forall>b. length (V b) = BSIZE)"

text \<open>What the operations leave alone: everything but the buffers, their list, the calls of \<^verbatim>\<open>wakeup\<close> and the log header.\<close>

definition fs_frame :: "'a logst_scheme \<Rightarrow> 'a logst_scheme \<Rightarrow> bool" where
  "fs_frame s s' \<longleftrightarrow> s' = s\<lparr>bc_buf := bc_buf s', bc_next := bc_next s', bc_prev := bc_prev s', bc_wakeups := bc_wakeups s',
                               lh_n := lh_n s', lh_block := lh_block s'\<rparr>"

lemma fs_frame_refl [simp]: "fs_frame s s"
  by (simp add: fs_frame_def)

lemma fs_frame_trans: "fs_frame s s1 \<Longrightarrow> fs_frame s1 s2 \<Longrightarrow> fs_frame s s2"
  unfolding fs_frame_def by (cases s; cases s1; cases s2) simp

lemma fs_frame_simps:
  assumes "fs_frame s s'"
  shows "lg_start s' = lg_start s" "lg_size s' = lg_size s" "lg_outstanding s' = lg_outstanding s"
    "lg_committing s' = lg_committing s" "lg_dev s' = lg_dev s" "bc_disksize s' = bc_disksize s"
    "bc_disk s' = bc_disk s" "bc_writes s' = bc_writes s" "log_area s' = log_area s"
  using assms unfolding fs_frame_def log_area_def by (cases s; cases s'; simp)+

lemma bst_length: "bst s V L B \<Longrightarrow> length (V b) = BSIZE"
  by (simp add: bst_def)

lemma bst_data: "bst s V L B \<Longrightarrow> hasbuf s i b \<Longrightarrow> b_data (bc_buf s i) = V b"
  using hasbuf_data [of s V L B i b] by (simp add: bst_def)

lemma bst_card: "bst s V L B \<Longrightarrow> card L = lh_n s"
  by (auto simp: bst_def log_inv_def distinct_card)

lemma bst_bread:
  assumes st: "bst s V L B" and b: "b \<notin> B" "b < bc_disksize s" and room: "b \<in> L \<or> card (L \<union> B) < NBUF"
  shows "\<exists>i s'. bread 1 b s = Ok (i, s') \<and> bst s' V L (insert b B) \<and> hasbuf s' i b \<and>
    (\<forall>j c. hasbuf s j c \<longrightarrow> hasbuf s' j c) \<and> fs_frame s s' \<and> lh_n s' = lh_n s"
proof -
  obtain i s' where 1: "bread 1 b s = Ok (i, s')" "cache_rel s' V L (insert b B)" "hasbuf s' i b"
      "\<forall>j c. hasbuf s j c \<longrightarrow> hasbuf s' j c" and f: "s' = s\<lparr>bc_buf := bc_buf s'\<rparr>"
    using bread_rel [OF _ b room, of V] st unfolding bst_def by blast
  have "log_inv (s\<lparr>bc_buf := bc_buf s'\<rparr>) L" "fs_frame s (s\<lparr>bc_buf := bc_buf s'\<rparr>)" "lh_n (s\<lparr>bc_buf := bc_buf s'\<rparr>) = lh_n s"
    using st by (simp_all add: bst_def log_inv_def log_area_def fs_frame_def)
  then have "log_inv s' L" "fs_frame s s'" "lh_n s' = lh_n s" using f by simp_all
  then show ?thesis using 1 st by (auto simp: bst_def)
qed

lemma bst_brelse:
  assumes st: "bst s V L B" and hb: "hasbuf s i b"
  shows "\<exists>s'. brelse i s = Ok s' \<and> bst s' V L (B - {b}) \<and> (\<forall>j c. hasbuf s j c \<longrightarrow> c \<noteq> b \<longrightarrow> hasbuf s' j c) \<and>
    fs_frame s s' \<and> lh_n s' = lh_n s"
proof -
  obtain s' where 1: "brelse i s = Ok s'" "cache_rel s' V L (B - {b})" "\<forall>j c. hasbuf s j c \<longrightarrow> c \<noteq> b \<longrightarrow> hasbuf s' j c"
      and f: "s' = s\<lparr>bc_buf := bc_buf s', bc_next := bc_next s', bc_prev := bc_prev s', bc_wakeups := bc_wakeups s'\<rparr>"
    using brelse_rel [OF _ hb, of V L B] st unfolding bst_def by blast
  let ?s = "s\<lparr>bc_buf := bc_buf s', bc_next := bc_next s', bc_prev := bc_prev s', bc_wakeups := bc_wakeups s'\<rparr>"
  have "log_inv ?s L" "fs_frame s ?s" "lh_n ?s = lh_n s"
    using st by (simp_all add: bst_def log_inv_def log_area_def fs_frame_def)
  then have "log_inv s' L" "fs_frame s s'" "lh_n s' = lh_n s" using f by simp_all
  then show ?thesis using 1 st by (auto simp: bst_def)
qed

lemma log_scan_le: "log_scan bs b k i \<le> i + k"
proof (induction k arbitrary: i)
  case (Suc k)
  then show ?case using Suc [of "Suc i"] by auto
qed simp

lemma log_scan_spec:
  "i + k = n \<Longrightarrow> n \<le> length bs \<Longrightarrow> \<forall>j < i. bs ! j \<noteq> b \<Longrightarrow>
   (if b \<in> set (take n bs) then log_scan bs b k i < n \<and> bs ! log_scan bs b k i = b else log_scan bs b k i = n)"
proof (induction k arbitrary: i)
  case 0
  then show ?case by (auto simp: in_set_conv_nth)
next
  case (Suc k)
  show ?case
  proof (cases "bs ! i = b")
    case True
    then have "b \<in> set (take n bs)" using Suc.prems by (auto simp: in_set_conv_nth intro!: exI [of _ i])
    then show ?thesis using True Suc.prems by auto
  next
    case False
    then show ?thesis using Suc.IH [of "Suc i"] Suc.prems by (auto simp: less_Suc_eq)
  qed
qed

lemma bst_log_write:
  assumes st: "bst s V L B" and hb: "hasbuf s i b" and len: "length d = BSIZE"
    and room: "lh_n s + 1 < lg_size s" and out: "1 \<le> lg_outstanding s" and area: "b \<notin> log_area s"
  shows "\<exists>s'. log_write i (upd_buf i (\<lambda>x. x\<lparr>b_data := d\<rparr>) s) = Ok s' \<and> bst s' (V(b := d)) (insert b L) B \<and>
    (\<forall>j c. hasbuf s j c \<longrightarrow> hasbuf s' j c) \<and> fs_frame s s' \<and> lh_n s' = (if b \<in> L then lh_n s else lh_n s + 1)"
proof -
  let ?s1 = "upd_buf i (\<lambda>x. x\<lparr>b_data := d\<rparr>) s"
  have li: "log_inv s L" and cr: "cache_rel s V L B" using st by (auto simp: bst_def)
  have bn: "b_blockno (bc_buf ?s1 i) = b" "b < bc_disksize s" using hb hasbuf_data [OF cr hb] by (auto simp: hasbuf_def upd_buf_def)
  let ?k = "log_scan (lh_block s) b (lh_n s) 0"
  have k: "if b \<in> L then ?k < lh_n s \<and> lh_block s ! ?k = b else ?k = lh_n s"
    using log_scan_spec [of 0 "lh_n s" "lh_n s" "lh_block s" b] li room by (simp add: log_inv_def)
  define bs where "bs = (lh_block s)[?k := b]"
  define n where "n = (if b \<in> L then lh_n s else lh_n s + 1)"
  define s' where "s' = (upd_buf i (\<lambda>b. b\<lparr>b_dirty := True\<rparr>) ?s1)\<lparr>lh_block := bs, lh_n := n\<rparr>"
  have lw: "log_write i ?s1 = Ok s'"
    using room out k li bn
    by (cases "b \<in> L") (simp_all add: log_write_def Let_def s'_def bs_def n_def log_inv_def upd_buf_def not_le)
  have tk: "take n bs = (if b \<in> L then logged s else logged s @ [b])"
  proof (cases "b \<in> L")
    case True
    then have "bs = lh_block s" using k unfolding bs_def by (metis list_update_id)
    then show ?thesis using True by (simp add: n_def)
  next
    case False
    then show ?thesis using k li room by (simp add: bs_def n_def log_inv_def take_Suc_conv_app_nth)
  qed
  have "cache_rel (upd_buf i (\<lambda>x. x\<lparr>b_dirty := True\<rparr>) ?s1) (V(b := d)) (insert b L) B"
      and hbs: "\<forall>j c. hasbuf s j c \<longrightarrow> hasbuf (upd_buf i (\<lambda>x. x\<lparr>b_dirty := True\<rparr>) ?s1) j c"
    using dirty_rel [OF cr hb, of d] by auto
  then have cr': "cache_rel s' (V(b := d)) (insert b L) B"
    by (subst cache_rel_cong [of s' "upd_buf i (\<lambda>x. x\<lparr>b_dirty := True\<rparr>) ?s1"]) (simp_all add: s'_def)
  have "log_inv s' (insert b L)"
    using li room bn tk area by (auto simp: log_inv_def s'_def upd_buf_def log_area_def n_def bs_def split: if_splits)
  moreover have "\<forall>j c. hasbuf s j c \<longrightarrow> hasbuf s' j c" using hbs by (simp add: hasbuf_def s'_def)
  moreover have "fs_frame s s'" by (simp add: fs_frame_def s'_def upd_buf_def)
  ultimately show ?thesis using lw cr' st len by (auto simp: bst_def s'_def n_def)
qed

end
