(* ===== verification/LogCrash.thy ===== *)
theory LogCrash
  imports Log
begin

text \<open>
  Commit and recovery of the log, and crash safety. A disk write puts one block on the disk as a whole; a crash
  keeps the writes issued so far and loses the memory. \<open>cframe s s' ws\<close>: from \<open>s\<close> to \<open>s'\<close> the
  code wrote the blocks \<open>ws\<close> to the disk, in this order, and touched nothing but the cache.
\<close>

subsection \<open>Disk writes\<close>

definition apply_write :: "nat \<times> nat \<times> block \<Rightarrow> (nat \<Rightarrow> nat \<Rightarrow> block) \<Rightarrow> nat \<Rightarrow> nat \<Rightarrow> block" where
  "apply_write = (\<lambda>(dev, b, d) k. k(dev := (k dev)(b := d)))"

definition apply_writes :: "(nat \<times> nat \<times> block) list \<Rightarrow> (nat \<Rightarrow> nat \<Rightarrow> block) \<Rightarrow> nat \<Rightarrow> nat \<Rightarrow> block" where
  "apply_writes ws k = fold apply_write ws k"

definition cframe :: "'a logst_scheme \<Rightarrow> 'a logst_scheme \<Rightarrow> (nat \<times> nat \<times> block) list \<Rightarrow> bool" where
  "cframe s s' ws \<longleftrightarrow>
     s' = s\<lparr>bc_buf := bc_buf s', bc_next := bc_next s', bc_prev := bc_prev s', bc_wakeups := bc_wakeups s', bc_disk := bc_disk s', bc_writes := bc_writes s'\<rparr> \<and>
     bc_writes s' = bc_writes s @ ws \<and> bc_disk s' = apply_writes ws (bc_disk s)"

lemma apply_writes_append: "apply_writes (xs @ ys) k = apply_writes ys (apply_writes xs k)"
  by (simp add: apply_writes_def)

lemma cframe_refl [simp]: "cframe s s []"
  by (simp add: cframe_def apply_writes_def)

lemma cframe_trans: "cframe s s1 xs \<Longrightarrow> cframe s1 s2 ys \<Longrightarrow> cframe s s2 (xs @ ys)"
  unfolding cframe_def apply_writes_append by (cases s; cases s1; cases s2) simp

lemma cframe_simps:
  assumes "cframe s s' ws"
  shows "lg_start s' = lg_start s" "lg_size s' = lg_size s" "lg_outstanding s' = lg_outstanding s"
    "lg_committing s' = lg_committing s" "lg_dev s' = lg_dev s" "bc_disksize s' = bc_disksize s"
    "lh_n s' = lh_n s" "lh_block s' = lh_block s" "bc_writes s' = bc_writes s @ ws" "bc_disk s' = apply_writes ws (bc_disk s)"
  using assms unfolding cframe_def by (cases s; cases s'; simp)+

lemma cframe_quiet:
  "s' = s\<lparr>bc_buf := bc_buf s', bc_next := bc_next s', bc_prev := bc_prev s', bc_wakeups := bc_wakeups s'\<rparr> \<Longrightarrow> cframe s s' []"
  unfolding cframe_def apply_writes_def by (cases s; cases s') simp

lemma cframe_bread: "s' = s\<lparr>bc_buf := bc_buf s'\<rparr> \<Longrightarrow> cframe s s' []"
  unfolding cframe_def apply_writes_def by (cases s; cases s') simp

lemma cframe_write:
  "s' = s\<lparr>bc_buf := bc_buf s', bc_disk := bc_disk s', bc_writes := bc_writes s'\<rparr> \<Longrightarrow>
   bc_writes s' = bc_writes s @ [(1, b, d)] \<Longrightarrow> bc_disk s' = (bc_disk s)(1 := (bc_disk s 1)(b := d)) \<Longrightarrow>
   cframe s s' [(1, b, d)]"
  unfolding cframe_def apply_writes_def apply_write_def by (cases s; cases s') simp

subsection \<open>The steps of the loops\<close>

text \<open>Two blocks read, the first overwritten by the second's data and written, both released.\<close>

lemma copy_ok:
  assumes rel: "cache_rel s V D {}" and ab: "a \<noteq> b" "a < bc_disksize s" "b < bc_disksize s"
    and room: "card (D \<union> {b}) < NBUF \<or> a \<in> D" "card (D \<union> {a}) < NBUF \<or> b \<in> D" "card D < NBUF"
  shows "\<exists>i s1 j s2 s3. bread 1 a s = Ok (i, s1) \<and> cframe s s1 [] \<and> bread 1 b s1 = Ok (j, s2) \<and> cframe s1 s2 [] \<and>
    b_data (bc_buf s2 i) = V a \<and> b_data (bc_buf s2 j) = V b \<and>
    (\<exists>s4 s5. bwrite j (upd_buf j (\<lambda>x. x\<lparr>b_data := V a\<rparr>) s2) = Ok s3 \<and> brelse i s3 = Ok s4 \<and> brelse j s4 = Ok s5 \<and>
       cache_rel s5 (V(b := V a)) (D - {b}) {} \<and> cframe s s5 [(1, b, V a)]) \<and>
    (\<exists>t3 t4 t5. bwrite i (upd_buf i (\<lambda>x. x\<lparr>b_data := V b\<rparr>) s2) = Ok t3 \<and> brelse j t3 = Ok t4 \<and> brelse i t4 = Ok t5 \<and>
       cache_rel t5 (V(a := V b)) (D - {a}) {} \<and> cframe s t5 [(1, a, V b)])"
proof -
  obtain i s1 where 1: "bread 1 a s = Ok (i, s1)" "cache_rel s1 V D {a}" "hasbuf s1 i a" "s1 = s\<lparr>bc_buf := bc_buf s1\<rparr>"
    using bread_rel [OF rel _ ab(2)] room(3) by auto
  note f1 = cframe_bread [OF 1(4)]
  have "b < bc_disksize s1" using ab(3) cframe_simps [OF f1] by simp
  then obtain j s2 where 2: "bread 1 b s1 = Ok (j, s2)" "cache_rel s2 V D (insert b {a})" "hasbuf s2 j b" "hasbuf s2 i a"
      "s2 = s1\<lparr>bc_buf := bc_buf s2\<rparr>"
    using bread_rel [OF 1(2), of b] ab(1) room(2) 1(3) by blast
  note f2 = cframe_bread [OF 2(5)]
  have d: "b_data (bc_buf s2 i) = V a" "b_data (bc_buf s2 j) = V b"
    using hasbuf_data [OF 2(2)] 2(3,4) by auto
  have wr: "\<exists>t3 t4 t5. bwrite p (upd_buf p (\<lambda>x. x\<lparr>b_data := e\<rparr>) s2) = Ok t3 \<and> brelse q t3 = Ok t4 \<and> brelse p t4 = Ok t5 \<and>
      cache_rel t5 (V(c := e)) (D - {c}) {} \<and> cframe s t5 [(1, c, e)]"
    if pq: "hasbuf s2 p c" "hasbuf s2 q c'" "c \<noteq> c'" "insert b {a} = {c, c'}" for p q c c' e
  proof -
    obtain t3 where 3: "bwrite p (upd_buf p (\<lambda>x. x\<lparr>b_data := e\<rparr>) s2) = Ok t3" "cache_rel t3 (V(c := e)) (D - {c}) (insert b {a})"
        "\<forall>j c. hasbuf s2 j c \<longrightarrow> hasbuf t3 j c" "bc_writes t3 = bc_writes s2 @ [(1, c, e)]"
        "bc_disk t3 = (bc_disk s2)(1 := (bc_disk s2 1)(c := e))"
        "t3 = s2\<lparr>bc_buf := bc_buf t3, bc_disk := bc_disk t3, bc_writes := bc_writes t3\<rparr>"
      using bwrite_rel [OF 2(2) pq(1), of e] by blast
    have hb3: "hasbuf t3 q c'" "hasbuf t3 p c" using 3(3) pq by blast+
    obtain t4 where 4: "brelse q t3 = Ok t4" "cache_rel t4 (V(c := e)) (D - {c}) (insert b {a} - {c'})"
        "\<forall>j d. hasbuf t3 j d \<longrightarrow> d \<noteq> c' \<longrightarrow> hasbuf t4 j d"
        "t4 = t3\<lparr>bc_buf := bc_buf t4, bc_next := bc_next t4, bc_prev := bc_prev t4, bc_wakeups := bc_wakeups t4\<rparr>"
      using brelse_rel [OF 3(2) hb3(1)] by blast
    have hb4: "hasbuf t4 p c" using 4(3) hb3(2) pq(3) by blast
    obtain t5 where 5: "brelse p t4 = Ok t5" "cache_rel t5 (V(c := e)) (D - {c}) (insert b {a} - {c'} - {c})"
        "t5 = t4\<lparr>bc_buf := bc_buf t5, bc_next := bc_next t5, bc_prev := bc_prev t5, bc_wakeups := bc_wakeups t5\<rparr>"
      using brelse_rel [OF 4(2) hb4] by blast
    have "cframe s t5 ([] @ [] @ [(1, c, e)] @ [] @ [])"
      by (intro cframe_trans [OF f1] cframe_trans [OF f2] cframe_trans [OF cframe_write [OF 3(6,4,5)]]
          cframe_trans [OF cframe_quiet [OF 4(4)]] cframe_quiet [OF 5(3)])
    then have fr: "cframe s t5 [(1, c, e)]" by simp
    have e: "insert b {a} - {c'} - {c} = {}" using pq(4) by auto
    have "cache_rel t5 (V(c := e)) (D - {c}) {}" using 5(2) unfolding e .
    then show ?thesis using 3(1) 4(1) 5(1) fr by blast
  qed
  have w1: "\<exists>t3 t4 t5. bwrite j (upd_buf j (\<lambda>x. x\<lparr>b_data := V a\<rparr>) s2) = Ok t3 \<and> brelse i t3 = Ok t4 \<and> brelse j t4 = Ok t5 \<and>
      cache_rel t5 (V(b := V a)) (D - {b}) {} \<and> cframe s t5 [(1, b, V a)]"
    by (rule wr) (use 2 ab(1) in auto)
  have w2: "\<exists>t3 t4 t5. bwrite i (upd_buf i (\<lambda>x. x\<lparr>b_data := V b\<rparr>) s2) = Ok t3 \<and> brelse j t3 = Ok t4 \<and> brelse i t4 = Ok t5 \<and>
      cache_rel t5 (V(a := V b)) (D - {a}) {} \<and> cframe s t5 [(1, a, V b)]"
    by (rule wr) (use 2 ab(1) in auto)
  show ?thesis using 1(1) f1 2(1) f2 d w1 w2 by blast
qed

lemma install_step_ok:
  assumes rel: "cache_rel s V D {}" and dev: "lg_dev s = 1"
    and a: "a = lg_start s + tail + 1" "a < bc_disksize s" and b: "b = lh_block s ! tail" "b < bc_disksize s" "a \<noteq> b"
    and room: "card D < NBUF" "b \<in> D \<or> card (D \<union> {a}) < NBUF" "card (D \<union> {b}) < NBUF"
  shows "\<exists>s'. install_step tail s = Ok s' \<and> cache_rel s' (V(b := V a)) (D - {b}) {} \<and> cframe s s' [(1, b, V a)]"
proof -
  obtain i s1 j s2 s3 s4 s5 where c: "bread 1 a s = Ok (i, s1)" "cframe s s1 []" "bread 1 b s1 = Ok (j, s2)" "cframe s1 s2 []"
      "b_data (bc_buf s2 i) = V a" "bwrite j (upd_buf j (\<lambda>x. x\<lparr>b_data := V a\<rparr>) s2) = Ok s3" "brelse i s3 = Ok s4" "brelse j s4 = Ok s5"
      "cache_rel s5 (V(b := V a)) (D - {b}) {}" "cframe s s5 [(1, b, V a)]"
    using copy_ok [OF rel b(3) a(2) b(2)] room by blast
  have "install_step tail s = Ok s5"
    using c cframe_simps [OF c(2)] dev a(1) b(1) by (simp add: install_step_def)
  then show ?thesis using c by blast
qed

lemma write_log_step_ok:
  assumes rel: "cache_rel s V D {}" and dev: "lg_dev s = 1"
    and a: "a = lg_start s + tail + 1" "a < bc_disksize s" "a \<notin> D" and b: "b = lh_block s ! tail" "b < bc_disksize s" "a \<noteq> b"
    and room: "card D < NBUF" "b \<in> D"
  shows "\<exists>s'. write_log_step tail s = Ok s' \<and> cache_rel s' (V(a := V b)) D {} \<and> cframe s s' [(1, a, V b)]"
proof -
  have "card (D \<union> {b}) < NBUF" using room by (simp add: insert_absorb)
  then obtain i s1 j s2 t3 t4 t5 where c: "bread 1 a s = Ok (i, s1)" "cframe s s1 []" "bread 1 b s1 = Ok (j, s2)" "cframe s1 s2 []"
      "b_data (bc_buf s2 j) = V b" "bwrite i (upd_buf i (\<lambda>x. x\<lparr>b_data := V b\<rparr>) s2) = Ok t3" "brelse j t3 = Ok t4" "brelse i t4 = Ok t5"
      "cache_rel t5 (V(a := V b)) (D - {a}) {}" "cframe s t5 [(1, a, V b)]"
    using copy_ok [OF rel b(3) a(2) b(2)] room by blast
  have "write_log_step tail s = Ok t5"
    using c cframe_simps [OF c(2)] dev a(1) b(1) by (simp add: write_log_step_def)
  moreover have "D - {a} = D" using a(3) by simp
  ultimately show ?thesis using c by auto
qed

lemma write_head_ok:
  assumes rel: "cache_rel s V D {}" and dev: "lg_dev s = 1" and a: "lg_start s < bc_disksize s" "lg_start s \<notin> D"
    and room: "card D < NBUF"
  defines "h \<equiv> head_data (lh_n s) (lh_block s) (V (lg_start s))"
  shows "\<exists>s'. write_head s = Ok s' \<and> cache_rel s' (V(lg_start s := h)) D {} \<and> cframe s s' [(1, lg_start s, h)]"
proof -
  obtain i s1 where 1: "bread 1 (lg_start s) s = Ok (i, s1)" "cache_rel s1 V D {lg_start s}" "hasbuf s1 i (lg_start s)" "s1 = s\<lparr>bc_buf := bc_buf s1\<rparr>"
    using bread_rel [OF rel _ a(1)] room by auto
  note f1 = cframe_bread [OF 1(4)]
  have d: "b_data (bc_buf s1 i) = V (lg_start s)" using hasbuf_data [OF 1(2,3)] by simp
  have u: "upd_buf i (\<lambda>b. b\<lparr>b_data := head_data (lh_n s1) (lh_block s1) (b_data b)\<rparr>) s1 = upd_buf i (\<lambda>b. b\<lparr>b_data := h\<rparr>) s1"
    using d cframe_simps [OF f1] by (simp add: upd_buf_def h_def)
  obtain s2 where 2: "bwrite i (upd_buf i (\<lambda>x. x\<lparr>b_data := h\<rparr>) s1) = Ok s2" "cache_rel s2 (V(lg_start s := h)) (D - {lg_start s}) {lg_start s}"
        "\<forall>j c. hasbuf s1 j c \<longrightarrow> hasbuf s2 j c" "bc_writes s2 = bc_writes s1 @ [(1, lg_start s, h)]"
        "bc_disk s2 = (bc_disk s1)(1 := (bc_disk s1 1)(lg_start s := h))"
        "s2 = s1\<lparr>bc_buf := bc_buf s2, bc_disk := bc_disk s2, bc_writes := bc_writes s2\<rparr>"
    using bwrite_rel [OF 1(2,3), of h] by blast
  have hb2: "hasbuf s2 i (lg_start s)" using 2(3) 1(3) by blast
  obtain s3 where 3: "brelse i s2 = Ok s3" "cache_rel s3 (V(lg_start s := h)) (D - {lg_start s}) ({lg_start s} - {lg_start s})"
        "s3 = s2\<lparr>bc_buf := bc_buf s3, bc_next := bc_next s3, bc_prev := bc_prev s3, bc_wakeups := bc_wakeups s3\<rparr>"
    using brelse_rel [OF 2(2) hb2] by blast
  have "cframe s s3 ([] @ [(1, lg_start s, h)] @ [])"
    by (intro cframe_trans [OF f1] cframe_trans [OF cframe_write [OF 2(6,4,5)]] cframe_quiet [OF 3(3)])
  moreover have "write_head s = Ok s3" using 1(1) 2(1) 3(1) dev u by (simp add: write_head_def)
  ultimately show ?thesis using 3(2) a(2) by simp
qed

subsection \<open>The loops\<close>

text \<open>Blocks of disk 1 written in order; \<open>wr1\<close> is the same list as the disk sees it.\<close>

definition put_blocks :: "(nat \<times> block) list \<Rightarrow> (nat \<Rightarrow> block) \<Rightarrow> nat \<Rightarrow> block" where
  "put_blocks ws V = fold (\<lambda>(b, d) V. V(b := d)) ws V"

abbreviation wr1 :: "(nat \<times> block) list \<Rightarrow> (nat \<times> nat \<times> block) list" where
  "wr1 ws \<equiv> map (Pair 1) ws"

lemma put_blocks_Nil [simp]: "put_blocks [] V = V"
  by (simp add: put_blocks_def)

lemma put_blocks_append: "put_blocks (xs @ ys) V = put_blocks ys (put_blocks xs V)"
  by (simp add: put_blocks_def)

lemma put_blocks_snoc: "put_blocks (xs @ [(b, d)]) V = (put_blocks xs V)(b := d)"
  by (simp add: put_blocks_def)

lemma apply_writes_1: "apply_writes (wr1 ws) k 1 = put_blocks ws (k 1)"
proof (induction ws arbitrary: k)
  case (Cons w ws)
  obtain b d where w: "w = (b, d)" by (cases w)
  have "apply_writes (wr1 (w # ws)) k 1 = apply_writes (wr1 ws) (apply_write (1, w) k) 1" by (simp add: apply_writes_def)
  then show ?case using Cons by (simp add: w put_blocks_def apply_write_def)
qed (simp add: apply_writes_def)

lemma put_blocks_other: "b \<notin> fst ` set ws \<Longrightarrow> put_blocks ws V b = V b"
  by (induction ws arbitrary: V) (auto simp: put_blocks_def)

lemma put_blocks_mem:
  "distinct (map fst ws) \<Longrightarrow> (b, d) \<in> set ws \<Longrightarrow> put_blocks ws V b = d"
proof (induction ws rule: rev_induct)
  case (snoc w ws)
  obtain b' d' where w: "w = (b', d')" by (cases w)
  then show ?case using snoc by (cases "b = b'") (auto simp: put_blocks_snoc image_iff)
qed simp

lemma put_blocks_same: "\<forall>(b, d) \<in> set ws. V b = d \<Longrightarrow> put_blocks ws V = V"
proof (induction ws)
  case (Cons w ws)
  obtain b d where w: "w = (b, d)" by (cases w)
  then have "V(b := d) = V" using Cons by auto
  then show ?case using Cons w by (simp add: put_blocks_def)
qed simp

definition log_writes :: "(nat \<Rightarrow> block) \<Rightarrow> nat \<Rightarrow> nat list \<Rightarrow> nat \<Rightarrow> (nat \<times> block) list" where
  "log_writes V st bs n = map (\<lambda>j. (st + j + 1, V (bs ! j))) [0..<n]"

definition home_writes :: "(nat \<Rightarrow> block) \<Rightarrow> nat \<Rightarrow> nat list \<Rightarrow> nat \<Rightarrow> (nat \<times> block) list" where
  "home_writes V st bs n = map (\<lambda>j. (bs ! j, V (st + j + 1))) [0..<n]"

lemma nth_in_take: "k < n \<Longrightarrow> n \<le> length xs \<Longrightarrow> xs ! k \<in> set (take n xs)"
  by (simp add: in_set_conv_nth) (metis nth_take)

lemma log_writes_Suc: "log_writes V st bs (Suc k) = log_writes V st bs k @ [(st + k + 1, V (bs ! k))]"
  by (simp add: log_writes_def)

lemma home_writes_Suc: "home_writes V st bs (Suc k) = home_writes V st bs k @ [(bs ! k, V (st + k + 1))]"
  by (simp add: home_writes_def)

lemma log_writes_fst [simp]: "map fst (log_writes V st bs n) = map (\<lambda>j. st + j + 1) [0..<n]"
  by (simp add: log_writes_def)

lemma home_writes_fst: "n \<le> length bs \<Longrightarrow> map fst (home_writes V st bs n) = take n bs"
  by (intro nth_equalityI) (simp_all add: home_writes_def)

lemma write_log_ok:
  assumes rel: "cache_rel s V D {}" and dev: "lg_dev s = 1" and n: "n = lh_n s" "n \<le> length (lh_block s)"
    and st: "st = lg_start s" "st + n < bc_disksize s"
    and D: "set (take n (lh_block s)) \<subseteq> D" "card D < NBUF"
    and out: "\<forall>b \<in> D. (b \<le> st \<or> st + n < b) \<and> b < bc_disksize s"
  shows "\<exists>s'. write_log s = Ok s' \<and> cache_rel s' (put_blocks (log_writes V st (lh_block s) n) V) D {} \<and>
    cframe s s' (wr1 (log_writes V st (lh_block s) n))"
proof -
  let ?bs = "lh_block s"
  let ?w = "log_writes V st ?bs"
  let ?I = "\<lambda>k s'. cache_rel s' (put_blocks (?w k) V) D {} \<and> cframe s s' (wr1 (?w k))"
  have "\<exists>s''. write_log_step k s' = Ok s'' \<and> ?I (Suc k) s''" if k: "k < n" and I: "?I k s'" for k s'
  proof -
    note f = cframe_simps [OF conjunct2 [OF I]]
    have b: "?bs ! k \<in> D" using D(1) nth_in_take [OF k n(2)] by blast
    then have ob: "(?bs ! k \<le> st \<or> st + n < ?bs ! k) \<and> ?bs ! k < bc_disksize s" using out by blast
    have "st + k + 1 \<notin> D" using out k by (metis Suc_eq_plus1 Suc_leI add_Suc_right le_add1 nat_add_left_cancel_le not_less not_less_eq_eq)
    moreover have "put_blocks (?w k) V (?bs ! k) = V (?bs ! k)"
      using ob k by (intro put_blocks_other) (auto simp: log_writes_def)
    ultimately show ?thesis
      using write_log_step_ok [OF conjunct1 [OF I], of "st + k + 1" k "?bs ! k"] f dev st k ob b D(2) n
        cframe_trans [OF conjunct2 [OF I]]
      by (fastforce simp: log_writes_Suc put_blocks_snoc)
  qed
  then have "\<exists>s'. rfold write_log_step [0..<n] s = Ok s' \<and> ?I n s'"
    using rel by (intro rfold_upt [where I = ?I]) (simp_all add: log_writes_def)
  then show ?thesis using n by (simp add: write_log_def)
qed

lemma install_room:
  assumes "E = {} \<or> b \<in> E \<and> card E < NBUF"
  shows "card E < NBUF" "b \<in> E \<or> card (E \<union> {a}) < NBUF" "card (E \<union> {b}) < NBUF"
  using assms by (auto simp: NBUF_def insert_absorb)

lemma install_trans_ok:
  assumes rel: "cache_rel s V D {}" and dev: "lg_dev s = 1" and n: "n = lh_n s" "n \<le> length (lh_block s)"
    and st: "st = lg_start s" "st + n < bc_disksize s"
    and D: "D = {} \<or> D = set (take n (lh_block s)) \<and> distinct (take n (lh_block s)) \<and> n < NBUF"
    and out: "\<forall>b \<in> set (take n (lh_block s)). (b \<le> st \<or> st + n < b) \<and> b < bc_disksize s"
  shows "\<exists>s'. install_trans s = Ok s' \<and> cache_rel s' (put_blocks (home_writes V st (lh_block s) n) V) {} {} \<and>
    cframe s s' (wr1 (home_writes V st (lh_block s) n))"
proof -
  let ?bs = "lh_block s"
  let ?w = "home_writes V st ?bs"
  let ?D = "\<lambda>k. D - set (take k ?bs)"
  let ?I = "\<lambda>k s'. cache_rel s' (put_blocks (?w k) V) (?D k) {} \<and> cframe s s' (wr1 (?w k))"
  have "\<exists>s''. install_step k s' = Ok s'' \<and> ?I (Suc k) s''" if k: "k < n" and I: "?I k s'" for k s'
  proof -
    note f = cframe_simps [OF conjunct2 [OF I]]
    have kb: "?bs ! k \<in> set (take n ?bs)" using nth_in_take [OF k n(2)] .
    then have ob: "(?bs ! k \<le> st \<or> st + n < ?bs ! k) \<and> ?bs ! k < bc_disksize s" using out by blast
    have "st + k + 1 \<notin> fst ` set (?w k)"
    proof
      assume "st + k + 1 \<in> fst ` set (?w k)"
      then obtain j where j: "j < k" "st + k + 1 = ?bs ! j" by (auto simp: home_writes_def)
      then have "?bs ! j \<in> set (take n ?bs)" using nth_in_take [of j n] k n(2) by simp
      then show False using out j k by fastforce
    qed
    then have pv: "put_blocks (?w k) V (st + k + 1) = V (st + k + 1)" by (rule put_blocks_other)
    have Dk: "?D k = {} \<or> ?bs ! k \<in> ?D k \<and> card (?D k) < NBUF"
    proof (cases "D = {}")
      case False
      then have d: "D = set (take n ?bs)" "distinct (take n ?bs)" "n < NBUF" using D by auto
      have "card (?D k) \<le> card D" using d(1) by (intro card_mono) auto
      also have "\<dots> \<le> n" using d(1) card_length [of "take n ?bs"] n by simp
      finally have "card (?D k) < NBUF" using d(3) by simp
      moreover have "distinct (take (Suc k) (take n ?bs))" using d(2) by (rule distinct_take)
      then have "distinct (take k ?bs @ [?bs ! k])" using k n(2) by (simp add: min_def take_Suc_conv_app_nth)
      then have "?bs ! k \<notin> set (take k ?bs)" by simp
      ultimately show ?thesis using d(1) kb by blast
    qed simp
    then have room: "card (?D k) < NBUF" "?bs ! k \<in> ?D k \<or> card (?D k \<union> {st + k + 1}) < NBUF" "card (?D k \<union> {?bs ! k}) < NBUF"
      using install_room [of "?D k"] by blast+
    have "\<exists>s''. install_step k s' = Ok s'' \<and> cache_rel s'' ((put_blocks (?w k) V)(?bs ! k := put_blocks (?w k) V (st + k + 1))) (?D k - {?bs ! k}) {} \<and>
        cframe s' s'' [(1, ?bs ! k, put_blocks (?w k) V (st + k + 1))]"
      by (rule install_step_ok [OF conjunct1 [OF I]]) (use f dev st k ob room in auto)
    moreover have "?D (Suc k) = ?D k - {?bs ! k}" using k n by (auto simp: take_Suc_conv_app_nth)
    ultimately show ?thesis using cframe_trans [OF conjunct2 [OF I]] pv by (simp add: home_writes_Suc put_blocks_snoc) blast
  qed
  then have r: "\<exists>s'. rfold install_step [0..<n] s = Ok s' \<and> ?I n s'"
    using rel by (intro rfold_upt [where I = ?I]) (simp_all add: home_writes_def)
  have e: "?D n = {}" using D by auto
  show ?thesis using r unfolding install_trans_def n(1) [symmetric] e .
qed

subsection \<open>Commit\<close>

text \<open>
  The writes of a commit: the logged blocks into the log, the header, the blocks to their home
  locations, the empty header.
\<close>

definition commit_writes :: "(nat \<Rightarrow> block) \<Rightarrow> nat \<Rightarrow> nat list \<Rightarrow> nat \<Rightarrow> (nat \<times> block) list" where
  "commit_writes V st bs n =
     (let h = head_data n bs (V st) in
      log_writes V st bs n @ [(st, h)] @ map (\<lambda>b. (b, V b)) (take n bs) @ [(st, head_data 0 bs h)])"

definition commit_view :: "(nat \<Rightarrow> block) \<Rightarrow> nat \<Rightarrow> nat list \<Rightarrow> nat \<Rightarrow> nat \<Rightarrow> block" where
  "commit_view V st bs n = (put_blocks (log_writes V st bs n) V)(st := head_data 0 bs (head_data n bs (V st)))"

lemma commit_ok:
  assumes st: "bst s V L {}" and n: "0 < lh_n s"
  shows "\<exists>s'. commit s = Ok s' \<and> cache_rel s' (commit_view V (lg_start s) (lh_block s) (lh_n s)) {} {} \<and> lh_n s' = 0 \<and>
    cframe (s\<lparr>lh_n := 0\<rparr>) s' (wr1 (commit_writes V (lg_start s) (lh_block s) (lh_n s)))"
proof -
  let ?st = "lg_start s" and ?bs = "lh_block s" and ?n = "lh_n s"
  have li: "log_inv s L" and cr: "cache_rel s V L {}" using st by (auto simp: bst_def)
  note l = li [unfolded log_inv_def]
  have len: "?n \<le> length ?bs" using l by simp
  have L: "L = set (take ?n ?bs)" "distinct (take ?n ?bs)" "?n < NBUF" "?st + ?n < bc_disksize s"
    using l by (auto simp: LOGSIZE_def MAXOPBLOCKS_def NBUF_def)
  have cL: "card L < NBUF" using bst_card [OF st] L(3) by simp
  have out: "\<forall>b \<in> L. (b \<le> ?st \<or> ?st + ?n < b) \<and> b < bc_disksize s"
    using l by (fastforce simp: log_area_def)
  have stL: "?st \<notin> L" using l by (fastforce simp: log_area_def)
  let ?lw = "log_writes V ?st ?bs ?n"
  define V1 where "V1 = put_blocks ?lw V"
  define h where "h = head_data ?n ?bs (V ?st)"
  define V2 where "V2 = V1(?st := h)"
  obtain s1 where 1: "write_log s = Ok s1" "cache_rel s1 V1 L {}" "cframe s s1 (wr1 ?lw)"
    using write_log_ok [OF cr _ refl len refl L(4) _ cL out] l L(1) unfolding V1_def by auto
  note f1 = cframe_simps [OF 1(3)]
  have V1st: "V1 ?st = V ?st" unfolding V1_def by (rule put_blocks_other) (auto simp: log_writes_def)
  obtain s2 where 2: "write_head s1 = Ok s2" "cache_rel s2 V2 L {}" "cframe s1 s2 [(1, ?st, h)]"
    using write_head_ok [OF 1(2)] f1 l stL cL V1st L(4) unfolding V2_def h_def by auto
  note f2 = cframe_simps [OF 2(3)]
  let ?hw = "home_writes V2 ?st ?bs ?n"
  have logd: "V2 (?st + j + 1) = V (?bs ! j)" if "j < ?n" for j
  proof -
    have "put_blocks ?lw V (?st + j + 1) = V (?bs ! j)"
      by (rule put_blocks_mem) (use that in \<open>auto simp: distinct_map inj_on_def, auto simp: log_writes_def\<close>)
    then show ?thesis by (simp add: V2_def V1_def)
  qed
  have home: "V2 b = V b" if "b \<in> L" for b
  proof -
    have "b \<notin> fst ` set ?lw" using out that by (fastforce simp: log_writes_def)
    then show ?thesis using that stL by (auto simp: V2_def V1_def put_blocks_other)
  qed
  have hw: "?hw = map (\<lambda>b. (b, V b)) (take ?n ?bs)"
    by (rule nth_equalityI) (use len logd in \<open>simp_all add: home_writes_def\<close>)
  have same: "put_blocks ?hw V2 = V2"
    using home L(1) by (intro put_blocks_same) (auto simp: hw)
  have D: "L = {} \<or> L = set (take ?n ?bs) \<and> distinct (take ?n ?bs) \<and> ?n < NBUF" using L by simp
  have "\<exists>s'. install_trans s2 = Ok s' \<and> cache_rel s' (put_blocks (home_writes V2 ?st (lh_block s2) ?n) V2) {} {} \<and>
    cframe s2 s' (wr1 (home_writes V2 ?st (lh_block s2) ?n))"
    by (rule install_trans_ok [OF 2(2)]) (use f1 f2 l len D L out in simp_all)
  then obtain s3 where 3: "install_trans s2 = Ok s3" "cache_rel s3 V2 {} {}" "cframe s2 s3 (wr1 ?hw)"
    using f1 f2 same by auto
  note f3 = cframe_simps [OF 3(3)]
  let ?s3 = "s3\<lparr>lh_n := 0\<rparr>"
  have "cache_rel ?s3 V2 {} {}" using 3(2) by (subst cache_rel_cong [of ?s3 s3]) simp_all
  then obtain s4 where 4: "write_head ?s3 = Ok s4" "cache_rel s4 (V2(?st := head_data 0 ?bs h)) {} {}"
      "cframe ?s3 s4 [(1, ?st, head_data 0 ?bs h)]"
    using write_head_ok [of ?s3 V2 "{}"] f1 f2 f3 l L(4) by (auto simp: V2_def NBUF_def)
  note f4 = cframe_simps [OF 4(3)]
  have fr: "cframe s s3 (wr1 ?lw @ [(1, ?st, h)] @ wr1 ?hw)"
    by (intro cframe_trans [OF 1(3)] cframe_trans [OF 2(3)] 3(3))
  then have "cframe (s\<lparr>lh_n := 0\<rparr>) ?s3 (wr1 ?lw @ [(1, ?st, h)] @ wr1 ?hw)"
    unfolding cframe_def by (cases s; cases s3) simp
  from cframe_trans [OF this 4(3)] have "cframe (s\<lparr>lh_n := 0\<rparr>) s4 (wr1 (commit_writes V ?st ?bs ?n))"
    by (simp add: commit_writes_def Let_def h_def hw comp_def)
  moreover have "commit s = Ok s4" using n 1(1) 2(1) 3(1) 4(1) by (simp add: commit_def)
  moreover have "V2(?st := head_data 0 ?bs h) = commit_view V ?st ?bs ?n"
    by (simp add: commit_view_def V2_def V1_def h_def)
  ultimately show ?thesis using 4(2) f4 by simp
qed

subsection \<open>Recovery\<close>

text \<open>
  \<open>recovered st K\<close> is what the log on the disk stands for: the disk with the blocks of a committed
  transaction at their home locations. \<open>good_log\<close> is a disk whose super block describes the
  log and whose header names blocks outside the log and the super block.
\<close>

definition head_n :: "block \<Rightarrow> nat" where
  "head_n d = nat (sint (get32 d 0))"

definition head_blocks :: "block \<Rightarrow> nat list" where
  "head_blocks d = map (\<lambda>k. unat (get32 d (4 + 4 * k))) [0..<head_n d]"

definition recovered :: "nat \<Rightarrow> (nat \<Rightarrow> block) \<Rightarrow> nat \<Rightarrow> block" where
  "recovered st K = put_blocks (home_writes K st (head_blocks (K st)) (head_n (K st))) K"

definition good_log :: "nat \<Rightarrow> nat \<Rightarrow> nat \<Rightarrow> (nat \<Rightarrow> block) \<Rightarrow> bool" where
  "good_log st sz m K \<longleftrightarrow>
     sb_logstart (decode_sb (K 1)) = st \<and> sb_nlog (decode_sb (K 1)) = sz \<and> 1 \<notin> {st ..< st + sz} \<and> sz \<le> LOGSIZE \<and>
     st + sz \<le> m \<and> 1 < m \<and> length (K st) = BSIZE \<and> head_n (K st) < sz \<and>
     (\<forall>b \<in> set (head_blocks (K st)). b \<notin> {st ..< st + sz} \<and> b < m \<and> b \<noteq> 1)"

definition recovery_writes :: "nat \<Rightarrow> (nat \<Rightarrow> block) \<Rightarrow> (nat \<times> block) list" where
  "recovery_writes st K = home_writes K st (head_blocks (K st)) (head_n (K st)) @ [(st, put32 0 0 (K st))]"

lemma head_blocks_length [simp]: "length (head_blocks d) = head_n d"
  by (simp add: head_blocks_def)

lemma head_n_clear: "length d = BSIZE \<Longrightarrow> head_n (put32 0 0 d) = 0"
  by (simp add: head_n_def get32_put32_same BSIZE_def)

lemma head_data_0: "head_data 0 bs d = put32 0 0 d"
  by (simp add: head_data_def)

lemma good_logD:
  assumes "good_log st sz m K"
  shows "sz \<le> LOGSIZE" "st + sz \<le> m" "1 < m" "length (K st) = BSIZE" "head_n (K st) < sz" "head_n (K st) < LOGSIZE"
    "st < m" "st + head_n (K st) < m" "1 \<noteq> st"
    "\<And>b. b \<in> set (head_blocks (K st)) \<Longrightarrow> (b \<le> st \<or> st + head_n (K st) < b) \<and> b < m \<and> b \<noteq> 1 \<and> b \<noteq> st"
    "\<And>j. j < head_n (K st) \<Longrightarrow> 1 \<noteq> st + j + 1"
  using assms unfolding good_log_def by fastforce+

lemma head_block_nth: "j < head_n d \<Longrightarrow> head_blocks d ! j \<in> set (head_blocks d)"
  by (intro nth_mem) simp

lemma read_head_ok:
  assumes rel: "cache_rel s V D {}" and dev: "lg_dev s = 1" and a: "lg_start s < bc_disksize s" and room: "card D < NBUF"
    and n: "head_n (V (lg_start s)) \<le> LOGSIZE"
  defines "d \<equiv> V (lg_start s)"
  shows "\<exists>s'. read_head s = Ok s' \<and> cache_rel s' V D {} \<and>
    cframe (s\<lparr>lh_n := head_n d, lh_block := head_blocks d @ drop (head_n d) (lh_block s)\<rparr>) s' []"
proof -
  obtain i s1 where 1: "bread 1 (lg_start s) s = Ok (i, s1)" "cache_rel s1 V D {lg_start s}" "hasbuf s1 i (lg_start s)" "s1 = s\<lparr>bc_buf := bc_buf s1\<rparr>"
    using bread_rel [OF rel _ a] room by auto
  note f1 = cframe_simps [OF cframe_bread [OF 1(4)]]
  have d: "b_data (bc_buf s1 i) = d" using hasbuf_data [OF 1(2,3)] by (simp add: d_def)
  let ?s2 = "s1\<lparr>lh_n := head_n d, lh_block := head_blocks d @ drop (head_n d) (lh_block s1)\<rparr>"
  have c2: "cache_rel ?s2 V D {lg_start s}" using 1(2) by (subst cache_rel_cong [of ?s2 s1]) simp_all
  have hb2: "hasbuf ?s2 i (lg_start s)" using 1(3) by (simp add: hasbuf_def)
  obtain s3 where 3: "brelse i ?s2 = Ok s3" "cache_rel s3 V D ({lg_start s} - {lg_start s})"
        "s3 = ?s2\<lparr>bc_buf := bc_buf s3, bc_next := bc_next s3, bc_prev := bc_prev s3, bc_wakeups := bc_wakeups s3\<rparr>"
    using brelse_rel [OF c2 hb2] by blast
  have "read_head s = Ok s3" using 1(1) 3(1) d n dev
    by (simp add: read_head_def Let_def d_def head_n_def head_blocks_def)
  moreover have "?s2 = (s\<lparr>lh_n := head_n d, lh_block := head_blocks d @ drop (head_n d) (lh_block s)\<rparr>)\<lparr>bc_buf := bc_buf s1\<rparr>"
    using 1(4) f1(8) by (cases s; cases s1) simp
  then have "cframe (s\<lparr>lh_n := head_n d, lh_block := head_blocks d @ drop (head_n d) (lh_block s)\<rparr>) s3 ([] @ [])"
    by (intro cframe_trans [OF cframe_bread cframe_quiet [OF 3(3)]]) simp
  ultimately show ?thesis using 3(2) by simp
qed

lemma recover_ok:
  assumes rel: "cache_rel s K {} {}" and dev: "lg_dev s = 1" and st: "st = lg_start s" and g: "good_log st sz (bc_disksize s) K"
  shows "\<exists>s'. recover_from_log s = Ok s' \<and> cache_rel s' ((recovered st K)(st := put32 0 0 (K st))) {} {} \<and>
    bc_writes s' = bc_writes s @ wr1 (recovery_writes st K) \<and> lh_n s' = 0 \<and> bc_disksize s' = bc_disksize s"
proof -
  let ?n = "head_n (K st)" and ?bs = "head_blocks (K st)"
  note gd = good_logD [OF g]
  have card0: "card ({} :: nat set) < NBUF" by (simp add: NBUF_def)
  obtain s1 where 1: "read_head s = Ok s1" "cache_rel s1 K {} {}"
      "cframe (s\<lparr>lh_n := ?n, lh_block := ?bs @ drop ?n (lh_block s)\<rparr>) s1 []"
    using read_head_ok [OF rel dev _ card0] gd(6,7) unfolding st by auto
  note f1 = cframe_simps [OF 1(3)]
  have hw: "home_writes K st (lh_block s1) ?n = home_writes K st ?bs ?n"
    using f1 by (simp add: home_writes_def nth_append)
  have tk: "take ?n (lh_block s1) = ?bs" using f1 by simp
  have "\<exists>s'. install_trans s1 = Ok s' \<and> cache_rel s' (put_blocks (home_writes K st (lh_block s1) ?n) K) {} {} \<and>
    cframe s1 s' (wr1 (home_writes K st (lh_block s1) ?n))"
    by (rule install_trans_ok [OF 1(2)]) (use f1 dev st gd(6,8,10) tk in simp_all)
  then obtain s2 where 2: "install_trans s1 = Ok s2" "cache_rel s2 (recovered st K) {} {}"
      "cframe s1 s2 (wr1 (home_writes K st ?bs ?n))"
    unfolding hw recovered_def by blast
  note f2 = cframe_simps [OF 2(3)]
  let ?s2 = "s2\<lparr>lh_n := 0\<rparr>"
  have c2: "cache_rel ?s2 (recovered st K) {} {}" using 2(2) by (subst cache_rel_cong [of ?s2 s2]) simp_all
  have "st \<notin> fst ` set (home_writes K st ?bs ?n)"
    using gd(10) [OF head_block_nth] by (fastforce simp: home_writes_def)
  then have rst: "recovered st K st = K st" unfolding recovered_def by (rule put_blocks_other)
  obtain s3 where 3: "write_head ?s2 = Ok s3" "cache_rel s3 ((recovered st K)(st := put32 0 0 (K st))) {} {}"
      "cframe ?s2 s3 [(1, st, put32 0 0 (K st))]"
    using write_head_ok [OF c2] f1 f2 dev st gd(7) card0 rst by (auto simp: head_data_0)
  note f3 = cframe_simps [OF 3(3)]
  show ?thesis
    using 1(1) 2(1) 3 f1 f2 f3 by (simp add: recover_from_log_def recovery_writes_def)
qed

lemma initlog_ok:
  assumes rel: "cache_rel s K {} {}" and g: "good_log st sz (bc_disksize s) K"
  shows "\<exists>s'. initlog 1 s = Ok s' \<and> cache_rel s' ((recovered st K)(st := put32 0 0 (K st))) {} {} \<and>
    bc_writes s' = bc_writes s @ wr1 (recovery_writes st K) \<and> lh_n s' = 0 \<and> bc_disksize s' = bc_disksize s"
proof -
  have sb: "sb_logstart (decode_sb (K 1)) = st" "sb_nlog (decode_sb (K 1)) = sz" using g by (auto simp: good_log_def)
  obtain i s1 where 1: "bread 1 1 s = Ok (i, s1)" "cache_rel s1 K {} {1}" "hasbuf s1 i 1" "s1 = s\<lparr>bc_buf := bc_buf s1\<rparr>"
    using bread_rel [OF rel _ good_logD(3) [OF g]] by (auto simp: NBUF_def)
  have d: "b_data (bc_buf s1 i) = K 1" using hasbuf_data [OF 1(2,3)] by simp
  obtain s2 where 2: "brelse i s1 = Ok s2" "cache_rel s2 K {} ({1} - {1})"
        "s2 = s1\<lparr>bc_buf := bc_buf s2, bc_next := bc_next s2, bc_prev := bc_prev s2, bc_wakeups := bc_wakeups s2\<rparr>"
    using brelse_rel [OF 1(2,3)] by blast
  have f: "cframe s s2 ([] @ [])" by (intro cframe_trans [OF cframe_bread [OF 1(4)] cframe_quiet [OF 2(3)]])
  let ?s3 = "s2\<lparr>lg_start := st, lg_size := sz, lg_dev := 1\<rparr>"
  have "cache_rel ?s3 K {} {}" using 2(2) by (subst cache_rel_cong [of ?s3 s2]) simp_all
  then have "\<exists>s'. recover_from_log ?s3 = Ok s' \<and> cache_rel s' ((recovered st K)(st := put32 0 0 (K st))) {} {} \<and>
      bc_writes s' = bc_writes ?s3 @ wr1 (recovery_writes st K) \<and> lh_n s' = 0 \<and> bc_disksize s' = bc_disksize ?s3"
    by (rule recover_ok) (use g cframe_simps(6) [OF f] in simp_all)
  moreover have "initlog 1 s = recover_from_log ?s3"
    using 1(1) 2(1) d sb by (simp add: initlog_def readsb_def Let_def BSIZE_def LOGSIZE_def MAXOPBLOCKS_def)
  ultimately show ?thesis using cframe_simps(6,9) [OF f] by simp
qed

text \<open>A crash in the middle of recovery changes nothing of what the log stands for.\<close>

lemma put_blocks_det: "b \<in> fst ` set ws \<Longrightarrow> put_blocks ws V b = put_blocks ws W b"
proof (induction ws rule: rev_induct)
  case (snoc w ws)
  obtain b' d' where w: "w = (b', d')" by (cases w)
  then show ?case using snoc by (auto simp: put_blocks_snoc)
qed simp

lemma put_blocks_absorb: "set us \<subseteq> set ws \<Longrightarrow> put_blocks ws (put_blocks us V) = put_blocks ws V"
proof
  fix b assume "set us \<subseteq> set ws"
  then show "put_blocks ws (put_blocks us V) b = put_blocks ws V b"
    using put_blocks_det [of b ws] put_blocks_other [of b ws] put_blocks_other [of b us V] by (cases "b \<in> fst ` set ws") auto
qed

lemma home_writes_cong: "(\<And>j. j < n \<Longrightarrow> V (st + j + 1) = W (st + j + 1)) \<Longrightarrow> home_writes V st bs n = home_writes W st bs n"
  by (simp add: home_writes_def)

lemma home_writes_out:
  assumes g: "good_log st sz m K" and j: "j \<le> head_n (K st)"
  shows "st + j \<notin> fst ` set (home_writes V st (head_blocks (K st)) (head_n (K st)))"
    "1 \<notin> fst ` set (home_writes V st (head_blocks (K st)) (head_n (K st)))"
  using good_logD(10) [OF g head_block_nth] j by (fastforce simp: home_writes_def)+

lemma recovered_cleared: "length d = BSIZE \<Longrightarrow> recovered st (V(st := put32 0 0 d)) = V(st := put32 0 0 d)"
  by (simp add: recovered_def head_n_clear home_writes_def)

lemma good_log_cong:
  assumes g: "good_log st sz m K" and e: "K' 1 = K 1" "K' st = K st \<or> K' st = put32 0 0 (K st)"
  shows "good_log st sz m K'"
proof (cases "K' st = K st")
  case False
  then have "head_n (K' st) = 0" "length (K' st) = BSIZE" using e(2) good_logD(4) [OF g] by (auto simp: head_n_clear)
  then show ?thesis using g e(1) unfolding good_log_def by (auto simp: head_blocks_def)
qed (use g e(1) in \<open>simp add: good_log_def\<close>)

lemma recovery_prefix:
  assumes g: "good_log st sz m K" and K': "K' = put_blocks (take k (recovery_writes st K)) K"
  shows "good_log st sz m K'" "b \<noteq> st \<Longrightarrow> recovered st K' b = recovered st K b"
proof -
  let ?n = "head_n (K st)"
  let ?hw = "home_writes K st (head_blocks (K st)) ?n"
  have "good_log st sz m K' \<and> (b \<noteq> st \<longrightarrow> recovered st K' b = recovered st K b)"
  proof (cases "k \<le> length ?hw")
    case True
    then have e: "K' = put_blocks (take k ?hw) K" by (simp add: K' recovery_writes_def)
    have sub: "set (take k ?hw) \<subseteq> set ?hw" by (rule set_take_subset)
    have logd: "K' (st + j) = K (st + j)" if "j \<le> ?n" for j
      unfolding e using home_writes_out(1) [OF g that] sub by (intro put_blocks_other) blast
    have k1: "K' 1 = K 1"
      unfolding e using home_writes_out(2) [OF g le0] sub by (intro put_blocks_other) blast
    have st: "K' st = K st" using logd [of 0] by simp
    have "home_writes K' st (head_blocks (K st)) ?n = ?hw"
      using logd [of "Suc _"] by (intro home_writes_cong) simp
    then have "recovered st K' = put_blocks ?hw (put_blocks (take k ?hw) K)" unfolding recovered_def st by (simp add: e)
    then have "recovered st K' = recovered st K" using put_blocks_absorb [OF sub] by (simp add: recovered_def)
    then show ?thesis using good_log_cong [OF g, of K'] k1 st by simp
  next
    case False
    then have "take k (recovery_writes st K) = recovery_writes st K" by (simp add: recovery_writes_def)
    then have e: "K' = (recovered st K)(st := put32 0 0 (K st))"
      by (simp add: K' recovery_writes_def put_blocks_snoc recovered_def)
    moreover have "K' 1 = K 1"
      using e good_logD(9) [OF g] home_writes_out(2) [OF g le0] by (simp add: recovered_def put_blocks_other)
    ultimately show ?thesis using good_log_cong [OF g, of K'] recovered_cleared [OF good_logD(4) [OF g]] by simp
  qed
  then show "good_log st sz m K'" "b \<noteq> st \<Longrightarrow> recovered st K' b = recovered st K b" by blast+
qed

subsection \<open>A crash in the middle of a commit\<close>

lemma head_data_decode:
  assumes d: "length d = BSIZE" and n: "n \<le> LOGSIZE" "n \<le> length bs" and bs: "\<forall>b \<in> set (take n bs). b < 2 ^ 31"
  shows "head_n (head_data n bs d) = n" "head_blocks (head_data n bs d) = take n bs"
proof -
  have "n < 2 ^ 31" using n by (simp add: LOGSIZE_def MAXOPBLOCKS_def)
  then have s: "sint (word_of_nat n :: 32 word) = int n" by (simp add: signed_of_nat signed_take_bit_int_eq_self)
  then show hn: "head_n (head_data n bs d) = n" by (simp add: head_n_def head_data_get(1) [OF d n(1)])
  have "unat (word_of_nat (bs ! k) :: 32 word) = bs ! k" if "k < n" for k
  proof -
    have "bs ! k < 2 ^ 31" using bs nth_in_take [OF that n(2)] by blast
    then show ?thesis by (simp add: unsigned_of_nat take_bit_nat_eq_self)
  qed
  then show "head_blocks (head_data n bs d) = take n bs"
    unfolding head_blocks_def hn by (intro nth_equalityI) (use n head_data_get(2) [OF d n(1)] in \<open>simp_all del: of_nat_nat\<close>)
qed

lemma commit_prefix:
  assumes st: "bst s V L {}" and n: "0 < lh_n s" and K: "K = bc_disk s 1"
    and g: "good_log (lg_start s) (lg_size s) (bc_disksize s) K" and h0: "head_n (K (lg_start s)) = 0" and L1: "1 \<notin> L"
    and K': "K' = put_blocks (take k (commit_writes V (lg_start s) (lh_block s) (lh_n s))) K"
  shows "good_log (lg_start s) (lg_size s) (bc_disksize s) K'"
    "b \<notin> log_area s \<Longrightarrow> recovered (lg_start s) K' b = (if k \<le> lh_n s then K b else V b)"
proof -
  let ?st = "lg_start s" and ?bs = "lh_block s" and ?n = "lh_n s"
  have li: "log_inv s L" and cr: "cache_rel s V L {}" and len: "\<And>b. length (V b) = BSIZE" using st by (auto simp: bst_def)
  note l = li [unfolded log_inv_def]
  have nl: "?n \<le> length ?bs" "?n \<le> LOGSIZE" "?n < lg_size s" and Ls: "L = set (take ?n ?bs)" "distinct (take ?n ?bs)" using l by auto
  have area: "?st + j \<in> log_area s" if "j \<le> ?n" for j using that l by (simp add: log_area_def)
  have Lout: "b \<notin> log_area s \<and> b < bc_disksize s \<and> b < 2 ^ 31" if "b \<in> L" for b using that l by fastforce
  have one: "1 \<notin> log_area s" using g by (auto simp: good_log_def log_area_def)
  have VK: "V b = K b" if "b \<notin> L" for b using that cr by (simp add: cache_rel_def K)
  define lw where "lw = log_writes V ?st ?bs ?n"
  define h where "h = head_data ?n ?bs (V ?st)"
  define hw where "hw = map (\<lambda>b. (b, V b)) (take ?n ?bs)"
  have ws: "commit_writes V ?st ?bs ?n = lw @ [(?st, h)] @ hw @ [(?st, put32 0 0 h)]"
    by (simp add: commit_writes_def Let_def lw_def h_def hw_def head_data_0)
  have llen: "length lw = ?n" "length hw = ?n" using nl by (simp_all add: lw_def hw_def log_writes_def)
  have lwa: "fst ` set lw \<subseteq> log_area s - {?st}" using area [of "Suc _"] by (auto simp: lw_def log_writes_def)
  have hwa: "fst ` set hw = L" by (force simp: hw_def Ls)
  have hwV: "put_blocks hw W b = V b" if "b \<in> L" for W b
    by (rule put_blocks_mem) (use that Ls in \<open>auto simp: hw_def comp_def\<close>)
  have hh: "head_n h = ?n" "head_blocks h = take ?n ?bs" "length h = BSIZE"
    using head_data_decode [OF len nl(2,1)] Lout Ls len by (auto simp: h_def)
  define K1 where "K1 = put_blocks (lw @ [(?st, h)]) K"
  have K1st: "K1 ?st = h" by (simp add: K1_def put_blocks_snoc)
  have K1o: "K1 b = K b" if "b \<notin> log_area s" for b
    using that area [of 0] lwa by (auto simp: K1_def put_blocks_snoc intro!: put_blocks_other)
  have K1l: "K1 (?st + j + 1) = V (?bs ! j)" if "j < ?n" for j
  proof -
    have "put_blocks lw K (?st + j + 1) = V (?bs ! j)"
      by (rule put_blocks_mem) (use that in \<open>auto simp: lw_def distinct_map inj_on_def, auto simp: log_writes_def\<close>)
    then show ?thesis by (simp add: K1_def put_blocks_snoc)
  qed
  consider "k \<le> ?n" | "?n < k" "k \<le> 2 * ?n + 1" | "2 * ?n + 1 < k" by linarith
  then have "good_log ?st (lg_size s) (bc_disksize s) K' \<and> (b \<notin> log_area s \<longrightarrow> recovered ?st K' b = (if k \<le> ?n then K b else V b))"
  proof cases
    case 1
    then have e: "K' = put_blocks (take k lw) K" by (simp add: K' ws llen)
    have o: "K' b = K b" if "b \<notin> log_area s - {?st}" for b
      unfolding e using that lwa set_take_subset [of k lw] by (intro put_blocks_other) blast
    then have "K' ?st = K ?st" "K' 1 = K 1" using one by auto
    moreover have "recovered ?st K' = K'" using o [of ?st] h0 by (simp add: recovered_def home_writes_def)
    ultimately show ?thesis using good_log_cong [OF g, of K'] o 1 by simp
  next
    case 2
    obtain i where i: "k = ?n + Suc i" "i \<le> ?n" using 2 by (metis Suc_eq_plus1 add_le_cancel_left add_Suc_right less_imp_Suc_add mult_2 Suc_le_mono add_Suc)
    have e: "K' = put_blocks (take i hw) K1"
      using i by (simp add: K' ws llen K1_def put_blocks_def)
    have sub: "set (take i hw) \<subseteq> set hw" by (rule set_take_subset)
    have o: "K' b = K1 b" if "b \<notin> L" for b unfolding e using that hwa sub by (intro put_blocks_other) blast
    have s: "K' ?st = h" using o [of ?st] K1st Lout area [of 0] by fastforce
    have "K' (?st + j + 1) = V (?bs ! j)" if "j < ?n" for j
      using o [of "?st + j + 1"] K1l [OF that] Lout area [of "Suc j"] that by fastforce
    then have "home_writes K' ?st (head_blocks h) (head_n h) = hw"
      unfolding hh by (intro nth_equalityI) (use nl in \<open>simp_all add: home_writes_def hw_def\<close>)
    then have r: "recovered ?st K' = put_blocks hw K1" unfolding recovered_def s by (simp add: e put_blocks_absorb [OF sub])
    have "recovered ?st K' b = V b" if "b \<notin> log_area s"
      using hwV K1o [OF that] VK by (cases "b \<in> L") (auto simp: r put_blocks_other hwa)
    moreover have "good_log ?st (lg_size s) (bc_disksize s) K'"
      using g s hh nl Lout L1 Ls o [OF L1] K1o [OF one] unfolding good_log_def by (auto simp: log_area_def)
    ultimately show ?thesis using 2 by simp
  next
    case 3
    then have "K' = (put_blocks hw K1)(?st := put32 0 0 h)"
      by (simp add: K' ws llen K1_def put_blocks_def)
    moreover from this have r: "recovered ?st K' = K'" using recovered_cleared [OF hh(3)] by simp
    moreover have "put_blocks hw K1 b = V b" if "b \<notin> log_area s" for b
      using hwV K1o [OF that] VK by (cases "b \<in> L") (auto simp: put_blocks_other hwa)
    moreover have "good_log ?st (lg_size s) (bc_disksize s) K'"
    proof -
      have "K' 1 = K 1" "K' ?st = put32 0 0 h"
        using calculation(1) one area [of 0] L1 K1o [OF one] by (auto simp: put_blocks_other hwa)
      then show ?thesis using g head_n_clear [OF hh(3)] hh(3) unfolding good_log_def by (auto simp: head_blocks_def)
    qed
    ultimately show ?thesis using 3 area [of 0] by auto
  qed
  then show "good_log ?st (lg_size s) (bc_disksize s) K'"
    "b \<notin> log_area s \<Longrightarrow> recovered ?st K' b = (if k \<le> ?n then K b else V b)" by blast+
qed

subsection \<open>Reboots\<close>

text \<open>
  \<open>booted m K t\<close>: the machine comes up with the disk contents \<open>K\<close> and nothing in memory. \<open>reboots\<close>: any
  number of further crashes, each after some prefix of the disk writes of a recovery.
\<close>

definition booted :: "nat \<Rightarrow> (nat \<Rightarrow> block) \<Rightarrow> logst \<Rightarrow> bool" where
  "booted m K t \<longleftrightarrow> (\<exists>u. t = binit u \<and> bc_disk u 1 = K \<and> bc_disksize u = m \<and>
     (\<forall>i < NBUF. \<not> b_busy (bc_buf u i) \<and> \<not> b_valid (bc_buf u i) \<and> \<not> b_dirty (bc_buf u i)))"

inductive reboots :: "nat \<Rightarrow> (nat \<Rightarrow> block) \<Rightarrow> (nat \<Rightarrow> block) \<Rightarrow> bool" for m K where
  reboots_refl: "reboots m K K"
| reboots_step: "reboots m K K' \<Longrightarrow> booted m K' t \<Longrightarrow> initlog 1 t = Ok t' \<Longrightarrow> bc_writes t' = bc_writes t @ wr1 ws \<Longrightarrow>
    reboots m K (put_blocks (take k ws) K')"

lemma map_Pair_inject: "map (Pair a) xs = map (Pair a) ys \<longleftrightarrow> xs = ys"
  by (auto dest: map_injective simp: inj_on_def)

lemma cache_rel_disk: "cache_rel s V {} B \<Longrightarrow> bc_disk s 1 = V"
  by (auto simp: cache_rel_def)

lemma booted_rel:
  assumes "booted m K t"
  shows "cache_rel t K {} {}" "bc_disksize t = m"
proof -
  obtain u where u: "t = binit u" "bc_disk u 1 = K" "bc_disksize u = m"
    "\<forall>i < NBUF. \<not> b_busy (bc_buf u i) \<and> \<not> b_valid (bc_buf u i) \<and> \<not> b_dirty (bc_buf u i)"
    using assms unfolding booted_def by blast
  show "cache_rel t K {} {}" using binit_rel [of u] u by simp
  have "bc_disksize (fold binit_step xs s) = bc_disksize s" for xs and s :: logst
    by (induction xs arbitrary: s) (auto simp: binit_step_def Let_def upd_buf_def)
  then show "bc_disksize t = m" using u by (simp add: binit_def)
qed

lemma booted_initlog:
  assumes "booted m K t" "good_log st sz m K"
  shows "\<exists>t'. initlog 1 t = Ok t' \<and> bc_disk t' 1 = (recovered st K)(st := put32 0 0 (K st)) \<and> lh_n t' = 0 \<and>
    bc_writes t' = bc_writes t @ wr1 (recovery_writes st K)"
  using initlog_ok [of t K st sz] booted_rel [OF assms(1)] assms(2) cache_rel_disk by blast

lemma reboots_good:
  assumes "reboots m K K'" "good_log st sz m K"
  shows "good_log st sz m K' \<and> (\<forall>b. b \<noteq> st \<longrightarrow> recovered st K' b = recovered st K b)"
  using assms
proof (induction rule: reboots.induct)
  case (reboots_step K' t t' ws k)
  then have g: "good_log st sz m K'" by blast
  have "ws = recovery_writes st K'"
    using booted_initlog [OF reboots_step.hyps(2) g] reboots_step.hyps(3,4) by (auto simp: map_Pair_inject)
  then show ?case using recovery_prefix [OF g] reboots_step by simp
qed simp

lemma crash_recovery:
  assumes st: "bst s V L {}" and n: "0 < lh_n s" and g: "good_log (lg_start s) (lg_size s) (bc_disksize s) (bc_disk s 1)"
    and h0: "head_n (bc_disk s 1 (lg_start s)) = 0" and L1: "1 \<notin> L"
    and r: "reboots (bc_disksize s) (put_blocks (take k (commit_writes V (lg_start s) (lh_block s) (lh_n s))) (bc_disk s 1)) K'"
    and t: "booted (bc_disksize s) K' t"
  shows "\<exists>t'. initlog 1 t = Ok t' \<and> (\<forall>b. b \<notin> log_area s \<longrightarrow> bc_disk t' 1 b = (if k \<le> lh_n s then bc_disk s 1 b else V b))"
proof -
  note c = commit_prefix [OF st n refl g h0 L1 refl]
  note rg = reboots_good [OF r c(1)]
  obtain t' where t': "initlog 1 t = Ok t'" "bc_disk t' 1 = (recovered (lg_start s) K')(lg_start s := put32 0 0 (K' (lg_start s)))"
    using booted_initlog [OF t conjunct1 [OF rg]] by blast
  have "lg_start s \<in> log_area s" using st by (simp add: bst_def log_inv_def log_area_def)
  then have "\<forall>b. b \<notin> log_area s \<longrightarrow> bc_disk t' 1 b = (if k \<le> lh_n s then bc_disk s 1 b else V b)"
    using t'(2) rg c(2) by fastforce
  then show ?thesis using t'(1) by blast
qed

end
