(* ===== verification/LogAdmit.thy ===== *)
theory LogAdmit
  imports Log
begin

text \<open>
  Admission of transactions. \<^verbatim>\<open>begin_op\<close> lets an operation start when the log has room for
  \<^verbatim>\<open>MAXOPBLOCKS\<close> more blocks for it and for every operation under way. \<open>log_run\<close> interleaves
  operations that keep to that many blocks each; \<open>qs\<close> holds what each operation under way
  may still write. Buffer operations and data changes between them leave the log fields alone.
\<close>

subsection \<open>What buffer operations leave alone\<close>

definition log_same :: "'a logst_scheme \<Rightarrow> 'a logst_scheme \<Rightarrow> bool" where
  "log_same s s' \<longleftrightarrow> lh_n s' = lh_n s \<and> lg_outstanding s' = lg_outstanding s \<and> lg_committing s' = lg_committing s \<and>
     lg_size s' = lg_size s"

lemma log_same_trans: "log_same s s1 \<Longrightarrow> log_same s1 s2 \<Longrightarrow> log_same s s2"
  by (simp add: log_same_def)

lemma iderw_same: "iderw i s = Ok s' \<Longrightarrow> log_same s s'"
  by (auto simp: iderw_def Let_def upd_buf_def log_same_def split: if_splits)

lemma bget_same:
  assumes "bget dev b s = Ok (i, s')"
  shows "log_same s s'"
proof -
  have "\<exists>f. s' = upd_buf i f s"
    using assms unfolding bget_def
    by (cases "scan_next s (\<lambda>i. b_dev (bc_buf s i) = dev \<and> b_blockno (bc_buf s i) = b)";
        cases "scan_prev s (\<lambda>i. \<not> b_busy (bc_buf s i) \<and> \<not> b_dirty (bc_buf s i))")
      (simp_all split: option.split_asm if_split_asm, blast+)
  then show ?thesis by (auto simp: log_same_def upd_buf_def)
qed

lemma bread_same: "bread dev b s = Ok (i, s') \<Longrightarrow> log_same s s'"
  by (auto simp: bread_def rbind_Ok_iff split: if_splits dest!: bget_same iderw_same) (simp add: log_same_def)

lemma bwrite_same: "bwrite i s = Ok s' \<Longrightarrow> log_same s s'"
  by (auto simp: bwrite_def log_same_def upd_buf_def split: if_splits dest!: iderw_same)

lemma brelse_same: "brelse i s = Ok s' \<Longrightarrow> log_same s s'"
  by (auto simp: brelse_def wake_def log_same_def upd_buf_def move_front_def Let_def split: if_splits)

lemma rfold_same:
  "(\<And>x s s'. f x s = Ok s' \<Longrightarrow> log_same s s') \<Longrightarrow> rfold f xs s = Ok s' \<Longrightarrow> log_same s s'"
proof (induction xs arbitrary: s)
  case Nil
  then show ?case by (simp add: log_same_def)
next
  case (Cons x xs)
  then obtain s1 where "f x s = Ok s1" "rfold f xs s1 = Ok s'" by (auto simp: rbind_Ok_iff)
  then show ?case using Cons by (blast intro: log_same_trans)
qed

lemma log_same_upd: "log_same (upd_buf i f s) s' \<longleftrightarrow> log_same s s'"
  by (simp add: log_same_def upd_buf_def)

lemma write_log_step_same: "write_log_step k s = Ok s' \<Longrightarrow> log_same s s'"
  by (auto simp: write_log_step_def rbind_Ok_iff log_same_upd dest!: bread_same bwrite_same brelse_same) (simp add: log_same_def)

lemma install_step_same: "install_step k s = Ok s' \<Longrightarrow> log_same s s'"
  by (auto simp: install_step_def rbind_Ok_iff log_same_upd dest!: bread_same bwrite_same brelse_same) (simp add: log_same_def)

lemma write_head_same: "write_head s = Ok s' \<Longrightarrow> log_same s s'"
  by (auto simp: write_head_def rbind_Ok_iff log_same_upd dest!: bread_same bwrite_same brelse_same) (simp add: log_same_def)

lemma commit_same: "commit s = Ok s' \<Longrightarrow> log_same (s\<lparr>lh_n := 0\<rparr>) s'"
proof -
  assume c: "commit s = Ok s'"
  show ?thesis
  proof (cases "lh_n s = 0")
    case True
    then show ?thesis using c by (simp add: commit_def log_same_def)
  next
    case False
    then obtain s1 s2 s3 where s: "write_log s = Ok s1" "write_head s1 = Ok s2" "install_trans s2 = Ok s3"
        "write_head (s3\<lparr>lh_n := 0\<rparr>) = Ok s'"
      using c by (auto simp: commit_def rbind_Ok_iff)
    have "log_same s s1" by (rule rfold_same [OF _ s(1) [unfolded write_log_def]]) (rule write_log_step_same)
    moreover have "log_same s2 s3" by (rule rfold_same [OF _ s(3) [unfolded install_trans_def]]) (rule install_step_same)
    ultimately show ?thesis using write_head_same [OF s(2)] write_head_same [OF s(4)] by (simp add: log_same_def)
  qed
qed

lemma log_write_count:
  "log_write i s = Ok s' \<Longrightarrow> (lh_n s' = lh_n s \<or> lh_n s' = lh_n s + 1) \<and> lg_outstanding s' = lg_outstanding s \<and>
     lg_committing s' = lg_committing s \<and> lg_size s' = lg_size s"
  by (auto simp: log_write_def Let_def upd_buf_def split: if_splits)

subsection \<open>Interleaved transactions\<close>

inductive log_run :: "nat \<Rightarrow> 'a logst_scheme \<Rightarrow> nat list \<Rightarrow> bool" for sz where
  run_init: "lg_outstanding s = 0 \<Longrightarrow> \<not> lg_committing s \<Longrightarrow> lh_n s = 0 \<Longrightarrow> lg_size s = sz \<Longrightarrow> log_run sz s []"
| run_begin: "log_run sz s qs \<Longrightarrow> begin_op s = Ok s' \<Longrightarrow> log_run sz s' (MAXOPBLOCKS # qs)"
| run_write: "log_run sz s qs \<Longrightarrow> j < length qs \<Longrightarrow> 0 < qs ! j \<Longrightarrow> log_write i s = Ok s' \<Longrightarrow>
    log_run sz s' (if lh_n s' = lh_n s then qs else qs[j := qs ! j - 1])"
| run_end: "log_run sz s qs \<Longrightarrow> j < length qs \<Longrightarrow> end_op s = Ok s' \<Longrightarrow> log_run sz s' (take j qs @ drop (Suc j) qs)"
| run_other: "log_run sz s qs \<Longrightarrow> log_same s s' \<Longrightarrow> log_run sz s' qs"

inductive_cases log_run_NilE: "log_run sz s []"

lemma sum_list_upd:
  "j < length qs \<Longrightarrow> 0 < qs ! j \<Longrightarrow> sum_list (qs[j := qs ! j - 1]) + 1 = sum_list (qs :: nat list)"
proof (induction qs arbitrary: j)
  case (Cons q qs)
  then show ?case by (cases j) auto
qed simp

lemma sum_list_drop1:
  "sum_list (take j qs @ drop (Suc j) qs) \<le> sum_list (qs :: nat list)"
proof (induction qs arbitrary: j)
  case (Cons q qs)
  then show ?case by (cases j) auto
qed simp

lemma sum_list_bound: "\<forall>q \<in> set qs. q \<le> (m :: nat) \<Longrightarrow> sum_list qs \<le> length qs * m"
  by (induction qs) auto

lemma log_run_inv:
  "log_run sz s qs \<Longrightarrow> lg_outstanding s = int (length qs) \<and> \<not> lg_committing s \<and> lh_n s + sum_list qs \<le> LOGSIZE \<and>
     (\<forall>q \<in> set qs. q \<le> MAXOPBLOCKS) \<and> lg_size s = sz"
proof (induction rule: log_run.induct)
  case (run_begin s qs s')
  have b: "int (lh_n s) + (lg_outstanding s + 1) * int MAXOPBLOCKS \<le> int LOGSIZE" "s' = s\<lparr>lg_outstanding := lg_outstanding s + 1\<rparr>"
    using run_begin(2) by (auto simp: begin_op_def split: if_splits)
  have "sum_list qs \<le> length qs * MAXOPBLOCKS" using run_begin.IH sum_list_bound by blast
  moreover have "int (lh_n s + (length qs + 1) * MAXOPBLOCKS) \<le> int LOGSIZE"
    using b(1) run_begin.IH by (simp add: algebra_simps)
  then have "lh_n s + (length qs + 1) * MAXOPBLOCKS \<le> LOGSIZE" by linarith
  ultimately show ?case using run_begin.IH b(2) by simp
next
  case (run_write s qs j i s')
  note c = log_write_count [OF run_write.hyps(4)]
  have "\<forall>q \<in> set (qs[j := qs ! j - 1]). q \<le> MAXOPBLOCKS"
    using run_write.IH run_write.hyps(2) set_update_subset_insert [of qs j "qs ! j - 1"] nth_mem [of j qs] by fastforce
  then show ?case using run_write.IH c sum_list_upd [OF run_write.hyps(2,3)] by auto
next
  case (run_end s qs j s')
  let ?qs = "take j qs @ drop (Suc j) qs"
  have len: "length ?qs = length qs - 1" using run_end.hyps(2) by simp
  have sub: "\<forall>q \<in> set ?qs. q \<le> MAXOPBLOCKS" using run_end.IH set_take_subset set_drop_subset by fastforce
  let ?s1 = "s\<lparr>lg_outstanding := lg_outstanding s - 1\<rparr>"
  show ?case
  proof (cases "lg_outstanding s = 1")
    case True
    then obtain s2 where "commit (?s1\<lparr>lg_committing := True\<rparr>) = Ok s2" "s' = wake ChLog (s2\<lparr>lg_committing := False\<rparr>)"
      using run_end.hyps(3) run_end.IH by (auto simp: end_op_def Let_def rbind_Ok_iff)
    then have "lh_n s' = 0" "lg_outstanding s' = 0" "\<not> lg_committing s'" "lg_size s' = sz"
      using commit_same [of "?s1\<lparr>lg_committing := True\<rparr>" s2] True run_end.IH by (auto simp: log_same_def wake_def)
    moreover have "length ?qs = 0" using len True run_end.IH by simp
    then have e: "?qs = []" by (rule iffD1 [OF length_0_conv])
    ultimately show ?thesis unfolding e by simp
  next
    case False
    then have "s' = wake ChLog ?s1" using run_end.hyps(3) run_end.IH by (simp add: end_op_def Let_def)
    moreover have "lh_n s + sum_list ?qs \<le> LOGSIZE" using run_end.IH sum_list_drop1 [of j qs] by linarith
    moreover have "int (length ?qs) = lg_outstanding s - 1" using run_end.IH run_end.hyps(2) len by linarith
    ultimately show ?thesis using run_end.IH sub by (simp add: wake_def)
  qed
qed (auto simp: log_same_def)

lemma log_run_write:
  assumes "log_run sz s qs" "LOGSIZE < sz" "j < length qs" "0 < qs ! j"
  shows "\<exists>s'. log_write i s = Ok s'"
proof -
  note inv = log_run_inv [OF assms(1)]
  have "qs ! j \<le> sum_list qs" using assms(3) by (rule elem_le_sum_list)
  then have "lh_n s < LOGSIZE" using inv assms(4) by linarith
  moreover have "1 \<le> length qs" using assms(3) by linarith
  then have "1 \<le> lg_outstanding s" using inv by linarith
  ultimately show ?thesis using inv assms(2,3) by (auto simp: log_write_def Let_def)
qed

lemma log_write_new:
  assumes "lh_n s < LOGSIZE" "lh_n s + 1 < lg_size s" "1 \<le> lg_outstanding s" "length (lh_block s) = LOGSIZE"
    "b_blockno (bc_buf s i) \<notin> set (logged s)"
  shows "\<exists>s'. log_write i s = Ok s' \<and> lh_n s' = lh_n s + 1 \<and> logged s' = logged s @ [b_blockno (bc_buf s i)] \<and>
    length (lh_block s') = LOGSIZE \<and> (\<forall>k. b_blockno (bc_buf s' k) = b_blockno (bc_buf s k)) \<and> lg_size s' = lg_size s \<and>
    lg_outstanding s' = lg_outstanding s"
proof -
  have "log_scan (lh_block s) (b_blockno (bc_buf s i)) (lh_n s) 0 = lh_n s"
    using log_scan_spec [of 0 "lh_n s" "lh_n s" "lh_block s" "b_blockno (bc_buf s i)"] assms by simp
  then show ?thesis using assms by (simp add: log_write_def Let_def upd_buf_def take_Suc_conv_app_nth)
qed

text \<open>Three operations, buffers for as many blocks as there are, and every write of a new block.\<close>

lemma log_run_fill:
  fixes s0 :: "'a logst_scheme"
  assumes s0: "lg_outstanding s0 = 0" "\<not> lg_committing s0" "lh_n s0 = 0" "lg_size s0 = 30" "length (lh_block s0) = LOGSIZE"
    "\<forall>i. b_blockno (bc_buf s0 i) = i"
  shows "k \<le> 29 \<Longrightarrow> \<exists>(s :: 'a logst_scheme) qs. log_run 30 s qs \<and> lh_n s = k \<and> logged s = [0..<k] \<and> sum_list qs = 30 - k \<and> length (lh_block s) = LOGSIZE \<and>
    (\<forall>i. b_blockno (bc_buf s i) = i)"
proof (induction k)
  case 0
  have r0: "log_run 30 s0 []" using s0 by (intro run_init)
  define s3 where "s3 = s0\<lparr>lg_outstanding := 3\<rparr>"
  have "log_run 30 (s0\<lparr>lg_outstanding := 1\<rparr>) [MAXOPBLOCKS]"
    using run_begin [OF r0] s0 by (simp add: begin_op_def LOGSIZE_def MAXOPBLOCKS_def)
  from run_begin [OF this] have "log_run 30 (s0\<lparr>lg_outstanding := 2\<rparr>) [MAXOPBLOCKS, MAXOPBLOCKS]"
    using s0 by (simp add: begin_op_def LOGSIZE_def MAXOPBLOCKS_def)
  from run_begin [OF this] have "log_run 30 s3 [MAXOPBLOCKS, MAXOPBLOCKS, MAXOPBLOCKS]"
    using s0 by (simp add: begin_op_def LOGSIZE_def MAXOPBLOCKS_def s3_def)
  moreover have "sum_list [MAXOPBLOCKS, MAXOPBLOCKS, MAXOPBLOCKS] = 30 - 0" by (simp add: MAXOPBLOCKS_def)
  moreover have "lh_n s3 = 0" "logged s3 = [0..<0]" "length (lh_block s3) = LOGSIZE" "\<forall>i. b_blockno (bc_buf s3 i) = i"
    using s0 by (simp_all add: s3_def)
  ultimately show ?case by blast
next
  case (Suc k)
  then obtain s :: "'a logst_scheme" and qs where s: "log_run 30 s qs" "lh_n s = k" "logged s = [0..<k]" "sum_list qs = 30 - k" "length (lh_block s) = LOGSIZE"
    "\<forall>i. b_blockno (bc_buf s i) = i" using Suc_leD by blast
  note inv = log_run_inv [OF s(1)]
  have "0 < sum_list qs" using s(4) Suc.prems by simp
  then obtain j where j: "j < length qs" "0 < qs ! j" by (metis gr0I in_set_conv_nth less_numeral_extra(3) sum_list_eq_0_iff)
  have "1 \<le> lg_outstanding s" using inv j(1) by linarith
  then obtain s' where s': "log_write k s = Ok s'" "lh_n s' = lh_n s + 1" "logged s' = logged s @ [k]" "length (lh_block s') = LOGSIZE"
      "\<forall>i. b_blockno (bc_buf s' i) = i"
    using log_write_new [of s k] s inv Suc.prems by (auto simp: LOGSIZE_def MAXOPBLOCKS_def)
  have "log_run 30 s' (qs[j := qs ! j - 1])" using run_write [OF s(1) j s'(1)] s'(2) by simp
  moreover have "sum_list (qs[j := qs ! j - 1]) = 30 - Suc k" using sum_list_upd [OF j] s(4) by simp
  moreover have "logged s' = [0..<Suc k]" "lh_n s' = Suc k" using s' s by auto
  ultimately show ?case using s' by blast
qed

end
