(* ===== verification/FsExample.thy ===== *)
theory FsExample
  imports Log
begin

text \<open>
  A concrete disk and cache, used to show that the hypotheses of the properties of the log and
  the file system can hold: the layout \<^verbatim>\<open>mkfs.c\<close> computes for 2000 blocks, with a root
  directory, and one block of an open transaction in the cache.
\<close>

abbreviation zero_block :: block where "zero_block \<equiv> replicate BSIZE 0"

definition ex_sb :: block where
  "ex_sb = put32 0 2000 (put32 4 1941 (put32 8 200 (put32 12 30 (put32 16 2 (put32 20 32 (put32 24 58 zero_block))))))"

definition ex_disk :: "nat \<Rightarrow> block" where
  "ex_disk = (\<lambda>_. zero_block)(1 := ex_sb)"

definition ex_new :: block where "ex_new = replicate BSIZE 7"

definition free_buf :: buf where
  "free_buf = \<lparr>b_busy = False, b_valid = False, b_dirty = False, b_dev = NODEV, b_blockno = 0, b_data = zero_block\<rparr>"

text \<open>Block 100 is in the transaction and not yet on the disk.\<close>

definition ex_log :: logst where
  "ex_log = \<lparr>bc_buf = (\<lambda>_. free_buf)(0 := \<lparr>b_busy = False, b_valid = True, b_dirty = True, b_dev = 1, b_blockno = 100, b_data = ex_new\<rparr>),
     bc_next = (\<lambda>i. if i = HEAD then 0 else i + 1), bc_prev = (\<lambda>i. if i = 0 then HEAD else i - 1),
     bc_disk = (\<lambda>_. ex_disk), bc_disksize = 2000, bc_writes = [], bc_wakeups = [],
     lg_start = 2, lg_size = 30, lg_outstanding = 1, lg_committing = False, lg_dev = 1, lh_n = 1,
     lh_block = 100 # replicate 29 0\<rparr>"

definition ex_view :: "nat \<Rightarrow> block" where
  "ex_view = ex_disk(100 := ex_new)"

lemma ex_sb_decode [simp]:
  "decode_sb ex_sb = \<lparr>sb_size = 2000, sb_nblocks = 1941, sb_ninodes = 200, sb_nlog = 30, sb_logstart = 2, sb_inodestart = 32, sb_bmapstart = 58\<rparr>"
  by (simp add: decode_sb_def ex_sb_def get32_put32_same get32_put32_other BSIZE_def)

lemma ex_log_simps [simp]:
  "bc_disk ex_log = (\<lambda>_. ex_disk)" "bc_disksize ex_log = 2000" "lg_start ex_log = 2" "lg_size ex_log = 30" "lh_n ex_log = 1"
  "lh_block ex_log = 100 # replicate 29 0" "lg_outstanding ex_log = 1" "lg_committing ex_log = False" "lg_dev ex_log = 1"
  "bc_writes ex_log = []"
  by (simp_all add: ex_log_def)

lemma ex_log_ring: "ring_of ex_log [0..<NBUF]"
proof -
  have "linked (bc_next ex_log) (bc_prev ex_log) (30 # [0..<30] @ [30])"
    unfolding ex_log_def by (simp add: NBUF_def upt_rec)
  then show ?thesis by (auto simp: ring_of_def NBUF_def)
qed

lemma ex_log_buf: "bc_buf ex_log i = (if i = 0 then \<lparr>b_busy = False, b_valid = True, b_dirty = True, b_dev = 1, b_blockno = 100, b_data = ex_new\<rparr> else free_buf)"
  by (simp add: ex_log_def)

lemma ex_log_rel: "cache_rel ex_log ex_view {100} {}"
proof -
  have "dirty_blocks (bc_buf ex_log) = {100}" "busy_blocks (bc_buf ex_log) = {}"
    by (auto simp: dirty_blocks_def busy_blocks_def ex_log_buf free_buf_def NBUF_def split: if_splits)
  moreover have "bufs_ok (bc_buf ex_log) 2000 ex_view"
    by (auto simp: bufs_ok_def ex_log_buf free_buf_def ex_view_def)
  ultimately show ?thesis using ex_log_ring by (auto simp: cache_rel_def ex_view_def)
qed

lemma ex_disk_length: "length (ex_disk b) = BSIZE"
  by (simp add: ex_disk_def ex_sb_def)

lemma ex_log_bst: "bst ex_log ex_view {100} {}"
proof -
  have "log_inv ex_log {100}"
    by (simp add: log_inv_def LOGSIZE_def MAXOPBLOCKS_def log_area_def)
  then show ?thesis using ex_log_rel ex_disk_length by (simp add: bst_def ex_view_def ex_new_def)
qed

text \<open>The machine after a reset, with the disk \<open>K\<close>.\<close>

definition ex_boot :: "(nat \<Rightarrow> block) \<Rightarrow> logst" where
  "ex_boot K = binit (ex_log\<lparr>bc_buf := (\<lambda>_. free_buf\<lparr>b_dev := 0\<rparr>), bc_disk := (\<lambda>_. K), lh_n := 0, lh_block := replicate LOGSIZE 0,
     lg_start := 0, lg_size := 0, lg_dev := 0, lg_outstanding := 0\<rparr>)"

end
