(* ===== verification/LogProps.thy ===== *)
theory LogProps
  imports LogCrash LogAdmit FsExample
begin

text \<open>
  The properties of the log, with a concrete transaction for each: the header's encoding, the
  effect of a logged write, the admission of transactions, and atomicity of a commit under
  crashes.
\<close>

text \<open>C1. Crash safety of the log. A commit of a non-empty transaction returns; it issues some sequence of disk
  writes. If the machine stops after any number \<open>k\<close> of them, then possibly any number of times again in
  the middle of recovering, the recovery that \<^verbatim>\<open>initlog\<close> does at the next boot returns, and every block outside the log area
  holds either what it held before the commit (if at most as many writes were done as there are logged blocks) or what
  the transaction wrote (once the header was written), never a mixture.\<close>

theorem commit_crash_atomic:
  assumes "bst s V L {}" "0 < lh_n s" "good_log (lg_start s) (lg_size s) (bc_disksize s) (bc_disk s 1)"
    "head_n (bc_disk s 1 (lg_start s)) = 0" "1 \<notin> L"
  shows "\<exists>s' ws. commit s = Ok s' \<and> bc_writes s' = bc_writes s @ map (Pair 1) ws \<and>
    (\<forall>k K' t. reboots (bc_disksize s) (put_blocks (take k ws) (bc_disk s 1)) K' \<and> booted (bc_disksize s) K' t \<longrightarrow>
       (\<exists>t'. initlog 1 t = Ok t' \<and>
          (\<forall>b. b \<notin> log_area s \<longrightarrow> bc_disk t' 1 b = (if k \<le> lh_n s then bc_disk s 1 b else V b))))"
proof -
  obtain s' where s': "commit s = Ok s'" "cframe (s\<lparr>lh_n := 0\<rparr>) s' (wr1 (commit_writes V (lg_start s) (lh_block s) (lh_n s)))"
    using commit_ok [OF assms(1,2)] by blast
  then show ?thesis using cframe_simps(9) [OF s'(2)] crash_recovery [OF assms] by fastforce
qed

lemma ex_good_log: "good_log 2 30 2000 ex_disk"
  by (simp add: good_log_def ex_disk_def head_n_def head_blocks_def get32_def LOGSIZE_def MAXOPBLOCKS_def BSIZE_def)

lemma ex_head: "head_n (ex_disk 2) = 0"
  by (simp add: ex_disk_def head_n_def get32_def BSIZE_def)

lemma ex_boot_booted: "booted 2000 K (ex_boot K)"
  unfolding booted_def ex_boot_def by (intro exI conjI, rule refl) (simp_all add: free_buf_def)

theorem commit_crash_atomic_witness:
  "\<exists>s' ws. commit ex_log = Ok s' \<and> bc_writes s' = map (Pair 1) ws \<and>
    (\<exists>t'. initlog 1 (ex_boot (put_blocks (take 1 ws) ex_disk)) = Ok t' \<and> bc_disk t' 1 100 = zero_block) \<and>
    (\<exists>t'. initlog 1 (ex_boot (put_blocks (take 2 ws) ex_disk)) = Ok t' \<and> bc_disk t' 1 100 = ex_new)"
proof -
  obtain s' ws where 1: "commit ex_log = Ok s'" "bc_writes s' = bc_writes ex_log @ map (Pair 1) ws"
    and 2: "\<forall>k K' t. reboots (bc_disksize ex_log) (put_blocks (take k ws) (bc_disk ex_log 1)) K' \<and> booted (bc_disksize ex_log) K' t \<longrightarrow>
       (\<exists>t'. initlog 1 t = Ok t' \<and>
          (\<forall>b. b \<notin> log_area ex_log \<longrightarrow> bc_disk t' 1 b = (if k \<le> lh_n ex_log then bc_disk ex_log 1 b else ex_view b)))"
    using commit_crash_atomic [OF ex_log_bst] ex_good_log ex_head by auto
  have "\<exists>t'. initlog 1 (ex_boot (put_blocks (take k ws) ex_disk)) = Ok t' \<and> bc_disk t' 1 100 = (if k \<le> 1 then zero_block else ex_new)" for k
  proof -
    obtain t' where "initlog 1 (ex_boot (put_blocks (take k ws) ex_disk)) = Ok t'"
      "\<forall>b. b \<notin> log_area ex_log \<longrightarrow> bc_disk t' 1 b = (if k \<le> lh_n ex_log then bc_disk ex_log 1 b else ex_view b)"
      using 2 reboots_refl ex_boot_booted by fastforce
    then show ?thesis by (intro exI [of _ t']) (simp add: log_area_def ex_view_def ex_disk_def)
  qed
  from this [of 1] this [of 2] show ?thesis using 1 by auto
qed

text \<open>C22. Admission keeps the log from overflowing: however transactions that write at most
  \<^verbatim>\<open>MAXOPBLOCKS\<close> blocks each interleave, with commits in between, a write by a transaction that has not used up
  its share is accepted, provided the log on the disk has room for \<^verbatim>\<open>LOGSIZE\<close> blocks besides its header.\<close>

theorem log_admission_safe:
  assumes "log_run sz s qs" "LOGSIZE < sz" "j < length qs" "0 < qs ! j"
  shows "\<exists>s'. log_write i s = Ok s'"
  using log_run_write [OF assms] .

theorem log_admission_safe_witness:
  "\<exists>s'. log_write 0 (ex_log\<lparr>lh_n := 0, lg_size := 31\<rparr>) = Ok s'"
proof -
  have "log_run 31 (ex_log\<lparr>lh_n := 0, lg_size := 31, lg_outstanding := 0\<rparr>) []" by (intro run_init) simp_all
  from run_begin [OF this] have "log_run 31 (ex_log\<lparr>lh_n := 0, lg_size := 31\<rparr>) [MAXOPBLOCKS]"
    by (simp add: begin_op_def LOGSIZE_def MAXOPBLOCKS_def ex_log_def)
  from log_admission_safe [OF this, of 0 0] show ?thesis by (simp add: LOGSIZE_def MAXOPBLOCKS_def)
qed

text \<open>C39. With the log size \<^verbatim>\<open>mkfs.c\<close> writes into the super block, \<^verbatim>\<open>LOGSIZE\<close> blocks with the header among them,
  admission is off by one: three transactions that each keep to their share can be
  brought to a state where the next write of a block the share allows panics.\<close>

theorem log_admission_off_by_one:
  "\<exists>(s :: logst) qs j. log_run LOGSIZE s qs \<and> j < length qs \<and> 0 < qs ! j \<and> log_write 29 s = Panic ''too big a transaction''"
proof -
  define s0 :: logst where "s0 = ex_log\<lparr>lh_n := 0, lg_outstanding := 0, bc_buf := (\<lambda>i. free_buf\<lparr>b_blockno := i\<rparr>)\<rparr>"
  have "\<exists>(s :: logst) qs. log_run 30 s qs \<and> lh_n s = 29 \<and> logged s = [0..<29] \<and> sum_list qs = 30 - 29 \<and> length (lh_block s) = LOGSIZE \<and>
      (\<forall>i. b_blockno (bc_buf s i) = i)"
    by (rule log_run_fill [of s0]) (simp_all add: s0_def LOGSIZE_def MAXOPBLOCKS_def)
  then obtain s :: logst and qs where s: "log_run 30 s qs" "lh_n s = 29" "sum_list qs = 1" by auto
  have "\<exists>q \<in> set qs. 0 < q" using s(3) by (metis gr0I sum_list_eq_0_iff zero_neq_one)
  then obtain j where "j < length qs" "0 < qs ! j" by (auto simp: in_set_conv_nth)
  moreover have "log_write 29 s = Panic ''too big a transaction''"
    using log_run_inv [OF s(1)] s(2) by (simp add: log_write_def)
  ultimately show ?thesis using s(1) by (auto simp: LOGSIZE_def MAXOPBLOCKS_def)
qed

text \<open>C23. A write through the log: the block's new contents are what every later read through the cache
  sees, the block joins the transaction at most once, nothing reaches the disk, and no other block changes.\<close>

theorem log_write_correct:
  assumes "bst s V L B" "hasbuf s i b" "length d = BSIZE" "lh_n s + 1 < lg_size s" "1 \<le> lg_outstanding s" "b \<notin> log_area s"
  shows "\<exists>s'. log_write i (upd_buf i (\<lambda>x. x\<lparr>b_data := d\<rparr>) s) = Ok s' \<and> bst s' (V(b := d)) (insert b L) B \<and> bc_disk s' = bc_disk s \<and>
    lh_n s' = (if b \<in> L then lh_n s else lh_n s + 1)"
proof -
  obtain s' where "log_write i (upd_buf i (\<lambda>x. x\<lparr>b_data := d\<rparr>) s) = Ok s'" "bst s' (V(b := d)) (insert b L) B" "fs_frame s s'"
      "lh_n s' = (if b \<in> L then lh_n s else lh_n s + 1)"
    using bst_log_write [OF assms] by blast
  then show ?thesis using fs_frame_simps(7) by blast
qed

theorem log_write_correct_witness:
  "\<exists>i s1 s'. bread 1 101 ex_log = Ok (i, s1) \<and> log_write i (upd_buf i (\<lambda>x. x\<lparr>b_data := ex_new\<rparr>) s1) = Ok s' \<and>
     bst s' (ex_view(101 := ex_new)) {100, 101} {101} \<and> lh_n s' = 2"
proof -
  have "101 \<in> ({100} :: nat set) \<or> card ({100} \<union> {} :: nat set) < NBUF" by (simp add: NBUF_def)
  then obtain i s1 where 1: "bread 1 101 ex_log = Ok (i, s1)" "bst s1 ex_view {100} {101}" "hasbuf s1 i 101" "fs_frame ex_log s1" "lh_n s1 = lh_n ex_log"
    using bst_bread [OF ex_log_bst, of 101] by auto
  note f = fs_frame_simps [OF 1(4)]
  obtain s' where "log_write i (upd_buf i (\<lambda>x. x\<lparr>b_data := ex_new\<rparr>) s1) = Ok s'" "bst s' (ex_view(101 := ex_new)) (insert 101 {100}) {101}" "lh_n s' = 2"
    using log_write_correct [OF 1(2,3), of ex_new] f 1(5) by (auto simp: ex_new_def log_area_def)
  then show ?thesis using 1(1) by (auto simp: insert_commute)
qed

end
