(* ===== verification/Ide.thy ===== *)
theory Ide
  imports Bio
begin

text \<open>
  The disk driver the kernel is built with, \<^verbatim>\<open>ide.c\<close>: a queue of buffers, linked through \<^verbatim>\<open>qnext\<close>, whose head is the request the drive is working
  on. \<^verbatim>\<open>iderw\<close> appends a buffer and sleeps; the interrupt handler finishes the head and starts the next. The buffer cache is modelled over the
  synchronous driver \<^verbatim>\<open>memide.c\<close>; the last section shows that the interrupt-driven driver refines it.

  Writing the task file is the record \<open>id_regs\<close>, and writing the command register sets \<open>id_busy\<close>. What the drive does with a command is a parameter: the block it
  writes (\<open>wr\<close>), and the bytes it delivers (\<open>rd\<close>); \<open>ata_drive\<close> is its documented behaviour with 28-bit block addresses. The bytes read from the status
  register are arguments of the operations; \<^verbatim>\<open>idewait\<close> does not return when they never say ready. The lock is held from one sleep to the next.
\<close>

definition FSSIZE :: nat where "FSSIZE = 2000"
definition SECTOR_SIZE :: nat where "SECTOR_SIZE = 512"
definition IDE_BSY :: byte where "IDE_BSY = 0x80"
definition IDE_DRDY :: byte where "IDE_DRDY = 0x40"
definition IDE_DF :: byte where "IDE_DF = 0x20"
definition IDE_ERR :: byte where "IDE_ERR = 0x01"
definition IDE_CMD_READ :: byte where "IDE_CMD_READ = 0x20"
definition IDE_CMD_WRITE :: byte where "IDE_CMD_WRITE = 0x30"

record taskfile =
  r_count :: byte
  r_lba0 :: byte
  r_lba1 :: byte
  r_lba2 :: byte
  r_drive :: byte
  r_cmd :: byte
  r_data :: block

record idest = bcache +
  id_queue :: "nat option"
  id_qnext :: "nat \<Rightarrow> nat option"
  havedisk1 :: bool
  id_regs :: taskfile
  id_busy :: bool

subsection \<open>Operations\<close>

fun idewait :: "bool \<Rightarrow> byte list \<Rightarrow> int res" where
  "idewait checkerr [] = Diverge"
| "idewait checkerr (r # rs) =
     (if r AND (IDE_BSY OR IDE_DRDY) \<noteq> IDE_DRDY then idewait checkerr rs
      else if checkerr \<and> r AND (IDE_DF OR IDE_ERR) \<noteq> 0 then Ok (-1)
      else Ok 0)"

text \<open>The probe for disk 1 looks at the status register up to 1000 times; disk 0 is selected again after it.\<close>

definition ideinit :: "byte list \<Rightarrow> byte list \<Rightarrow> 'a idest_scheme \<Rightarrow> 'a idest_scheme res" where
  "ideinit st probe s = rbind (idewait False st) (\<lambda>_. Ok (s\<lparr>havedisk1 := havedisk1 s \<or> (\<exists>r \<in> set (take 1000 probe). r \<noteq> 0),
     id_regs := (id_regs s)\<lparr>r_drive := 0xe0\<rparr>\<rparr>))"

definition idestart :: "byte list \<Rightarrow> nat option \<Rightarrow> 'a idest_scheme \<Rightarrow> 'a idest_scheme res" where
  "idestart st b s =
     (case b of
        None \<Rightarrow> Panic ''idestart''
      | Some i \<Rightarrow>
          let x = bc_buf s i in
          if FSSIZE \<le> b_blockno x then Panic ''incorrect blockno''
          else if 7 < BSIZE div SECTOR_SIZE then Panic ''idestart''
          else
            let sector = of_nat (b_blockno x * (BSIZE div SECTOR_SIZE)) :: 32 word in
            rbind (idewait False st) (\<lambda>_.
            Ok (s\<lparr>id_regs :=
                   \<lparr>r_count = of_nat (BSIZE div SECTOR_SIZE),
                    r_lba0 = ucast (sector AND 0xff),
                    r_lba1 = ucast (drop_bit 8 sector AND 0xff),
                    r_lba2 = ucast (drop_bit 16 sector AND 0xff),
                    r_drive = 0xe0 OR push_bit 4 (of_nat (b_dev x) AND 1) OR ucast (drop_bit 24 sector AND 0x0f),
                    r_cmd = (if b_dirty x then IDE_CMD_WRITE else IDE_CMD_READ),
                    r_data = (if b_dirty x then b_data x else r_data (id_regs s))\<rparr>,
                  id_busy := True\<rparr>)))"

text \<open>\<open>data\<close> is what the data port delivers.\<close>

definition ideintr :: "byte list \<Rightarrow> byte list \<Rightarrow> block \<Rightarrow> 'a idest_scheme \<Rightarrow> 'a idest_scheme res" where
  "ideintr st st2 data s =
     (case id_queue s of
        None \<Rightarrow> Ok s
      | Some b \<Rightarrow>
          let s1 = s\<lparr>id_queue := id_qnext s b\<rparr> in
          rbind (if \<not> b_dirty (bc_buf s1 b)
                 then rbind (idewait True st) (\<lambda>r. Ok (if 0 \<le> r then upd_buf b (\<lambda>x. x\<lparr>b_data := data\<rparr>) s1 else s1))
                 else Ok s1) (\<lambda>s2.
          let s3 = wake (ChBuf b) (upd_buf b (\<lambda>x. x\<lparr>b_valid := True, b_dirty := False\<rparr>) s2) in
          if id_queue s3 \<noteq> None then idestart st2 (id_queue s3) s3 else Ok s3))"

text \<open>The loop to the end of the queue: \<open>None\<close> is the location \<^verbatim>\<open>&idequeue\<close>, \<open>Some b\<close> the location \<^verbatim>\<open>&b->qnext\<close>.\<close>

definition at_loc :: "nat option \<Rightarrow> 'a idest_scheme \<Rightarrow> nat option" where
  "at_loc pp s = (case pp of None \<Rightarrow> id_queue s | Some b \<Rightarrow> id_qnext s b)"

fun queue_end :: "nat \<Rightarrow> nat option \<Rightarrow> 'a idest_scheme \<Rightarrow> nat option res" where
  "queue_end fuel pp s =
     (case at_loc pp s of
        None \<Rightarrow> Ok pp
      | Some b \<Rightarrow> (case fuel of 0 \<Rightarrow> Diverge | Suc f \<Rightarrow> queue_end f (Some b) s))"

declare queue_end.simps [simp del]

text \<open>\<^verbatim>\<open>iderw\<close> up to its wait, and the test of the wait loop. A buffer is in the queue at most once, so the queue has at most \<^verbatim>\<open>NBUF\<close> entries.\<close>

definition ide_iderw :: "byte list \<Rightarrow> nat \<Rightarrow> 'a idest_scheme \<Rightarrow> 'a idest_scheme res" where
  "ide_iderw st i s =
     (let b = bc_buf s i in
      if \<not> b_busy b then Panic ''iderw: buf not busy''
      else if b_valid b \<and> \<not> b_dirty b then Panic ''iderw: nothing to do''
      else if b_dev b \<noteq> 0 \<and> \<not> havedisk1 s then Panic ''iderw: ide disk 1 not present''
      else
        let s1 = s\<lparr>id_qnext := (id_qnext s)(i := None)\<rparr> in
        rbind (queue_end NBUF None s1) (\<lambda>pp.
        let s2 = (case pp of None \<Rightarrow> s1\<lparr>id_queue := Some i\<rparr> | Some q \<Rightarrow> s1\<lparr>id_qnext := (id_qnext s1)(q := Some i)\<rparr>) in
        if id_queue s2 = Some i then idestart st (Some i) s2 else Ok s2))"

definition iderw_wait :: "nat \<Rightarrow> 'a idest_scheme \<Rightarrow> 'a idest_scheme res" where
  "iderw_wait i s = (if b_valid (bc_buf s i) \<and> \<not> b_dirty (bc_buf s i) then Ok s else Block)"

subsection \<open>The drive\<close>

definition drive_unit :: "taskfile \<Rightarrow> nat" where
  "drive_unit r = unat (drop_bit 4 (r_drive r) AND 1)"

definition drive_lba :: "taskfile \<Rightarrow> nat" where
  "drive_lba r = unat (r_lba0 r) + 2 ^ 8 * unat (r_lba1 r) + 2 ^ 16 * unat (r_lba2 r) + 2 ^ 24 * unat (r_drive r AND 0x0f)"

definition ata_drive :: "(taskfile \<Rightarrow> (nat \<times> nat \<times> block) option) \<Rightarrow> (taskfile \<Rightarrow> (nat \<Rightarrow> nat \<Rightarrow> block) \<Rightarrow> block) \<Rightarrow> bool" where
  "ata_drive wr rd \<longleftrightarrow>
     (\<forall>r. r_cmd r = 0x30 \<longrightarrow> wr r = Some (drive_unit r, drive_lba r, r_data r)) \<and>
     (\<forall>r. r_cmd r = 0x20 \<longrightarrow> wr r = None) \<and>
     (\<forall>r d. r_cmd r = 0x20 \<longrightarrow> rd r d = d (drive_unit r) (drive_lba r))"

text \<open>The drive carries out the command it has, and interrupts.\<close>

definition drive_done :: "(taskfile \<Rightarrow> (nat \<times> nat \<times> block) option) \<Rightarrow> 'a idest_scheme \<Rightarrow> 'a idest_scheme" where
  "drive_done wr s =
     (case wr (id_regs s) of
        None \<Rightarrow> s\<lparr>id_busy := False\<rparr>
      | Some (u, n, d) \<Rightarrow> s\<lparr>bc_disk := (bc_disk s)(u := (bc_disk s u)(n := d)), bc_writes := bc_writes s @ [(u, n, d)], id_busy := False\<rparr>)"

text \<open>What happens to the driver: a process calls \<^verbatim>\<open>iderw\<close>; the drive interrupts, which it does, while it has a command, only when it has carried it out; or the cache or the process
  that holds a buffer changes it.\<close>

datatype ide_event = Submit nat "byte list" | Intr "byte list" "byte list" | Touch nat buf

fun ide_step :: "(taskfile \<Rightarrow> (nat \<times> nat \<times> block) option) \<Rightarrow> (taskfile \<Rightarrow> (nat \<Rightarrow> nat \<Rightarrow> block) \<Rightarrow> block) \<Rightarrow> ide_event \<Rightarrow>
    'a idest_scheme \<Rightarrow> 'a idest_scheme res" where
  "ide_step wr rd (Submit b st) s = ide_iderw st b s"
| "ide_step wr rd (Intr st st2) s =
     (if id_busy s then ideintr st st2 (rd (id_regs s) (bc_disk s)) (drive_done wr s) else ideintr st st2 [] s)"
| "ide_step wr rd (Touch b x) s = Ok (upd_buf b (\<lambda>_. x) s)"

subsection \<open>A request\<close>

lemma idewait_ready: "idewait True st = Ok 0 \<Longrightarrow> idewait False st = Ok 0"
  by (induction st) (auto split: if_splits)

lemma low_byte: "unat (ucast (drop_bit k (w :: 32 word) AND 0xff) :: byte) = unat w div 2 ^ k mod 2 ^ 8"
proof -
  have "(0xff :: 32 word) = mask 8" by (simp add: mask_eq_exp_minus_1)
  then have "drop_bit k w AND 0xff = take_bit 8 (drop_bit k w)" by (simp only: take_bit_eq_mask)
  moreover have "unat (ucast y :: byte) = unat y mod 2 ^ 8" for y :: "32 word" by (simp add: unsigned_ucast_eq take_bit_eq_mod)
  moreover have "unat (take_bit 8 y) = unat y mod 2 ^ 8" for y :: "32 word" by (simp add: take_bit_eq_mod unat_mod_distrib)
  moreover have "unat (drop_bit k w) = unat w div 2 ^ k"
    using unat_lt [of w] by (simp only: unsigned_drop_bit_eq) (simp add: drop_bit_eq_div take_bit_nat_eq_self)
  ultimately show ?thesis by simp
qed

definition request :: "buf \<Rightarrow> taskfile \<Rightarrow> bool" where
  "request x r \<longleftrightarrow> drive_unit r = b_dev x \<and> drive_lba r = b_blockno x \<and>
     (if b_dirty x then r_cmd r = 0x30 \<and> r_data r = b_data x else r_cmd r = 0x20)"

lemma idestart_ok:
  assumes "b_blockno (bc_buf s i) < FSSIZE" "b_dev (bc_buf s i) \<le> 1" "idewait False st = Ok 0"
  shows "\<exists>r. idestart st (Some i) s = Ok (s\<lparr>id_regs := r, id_busy := True\<rparr>) \<and> request (bc_buf s i) r"
proof -
  let ?x = "bc_buf s i"
  define n w where "n = b_blockno ?x" and "w = (of_nat n :: 32 word)"
  have n: "n < 2000" using assms(1) by (simp add: FSSIZE_def n_def)
  then have u: "unat w = n" by (simp add: w_def unsigned_of_nat take_bit_eq_mod)
  have hi: "drop_bit 24 w = 0" using u n by (simp add: drop_bit_eq_div word_unat_eq_iff unat_div)
  define r where "r = \<lparr>r_count = 1, r_lba0 = ucast (w AND 0xff), r_lba1 = ucast (drop_bit 8 w AND 0xff), r_lba2 = ucast (drop_bit 16 w AND 0xff),
      r_drive = 0xe0 OR push_bit 4 (of_nat (b_dev ?x) AND 1), r_cmd = (if b_dirty ?x then IDE_CMD_WRITE else IDE_CMD_READ),
      r_data = (if b_dirty ?x then b_data ?x else r_data (id_regs s))\<rparr>"
  have "unat (r_lba0 r) = n mod 2 ^ 8" "unat (r_lba1 r) = n div 2 ^ 8 mod 2 ^ 8" "unat (r_lba2 r) = n div 2 ^ 16 mod 2 ^ 8"
    using low_byte [of 0 w] low_byte [of 8 w] low_byte [of 16 w] u by (simp_all add: r_def)
  moreover have "b_dev ?x = 0 \<or> b_dev ?x = 1" using assms(2) by linarith
  then have "drive_unit r = b_dev ?x" "r_drive r AND 0x0f = 0" by (elim disjE; simp add: r_def drive_unit_def)+
  ultimately have "drive_lba r = n" "drive_unit r = b_dev ?x" using n unfolding drive_lba_def by simp_all
  then have "request ?x r" by (simp add: request_def n_def) (simp add: r_def IDE_CMD_WRITE_def IDE_CMD_READ_def)
  moreover have "idestart st (Some i) s = Ok (s\<lparr>id_regs := r, id_busy := True\<rparr>)"
    using assms(1,3) hi by (simp add: idestart_def Let_def BSIZE_def SECTOR_SIZE_def n_def [symmetric] w_def [symmetric] r_def)
  ultimately show ?thesis by blast
qed

subsection \<open>The queue\<close>

lemma queue_end_ok:
  "nlist (id_qnext s) (at_loc pp s) qs \<Longrightarrow> length qs \<le> fuel \<Longrightarrow> queue_end fuel pp s = Ok (if qs = [] then pp else Some (last qs))"
proof (induction qs arbitrary: pp fuel)
  case Nil
  then show ?case by (simp add: queue_end.simps [of fuel])
next
  case (Cons b qs)
  then obtain f where "fuel = Suc f" by (cases fuel) auto
  then show ?case using Cons by (auto simp: queue_end.simps [of "Suc f"] at_loc_def)
qed

lemma nlist_snoc:
  "nlist h p qs \<Longrightarrow> distinct qs \<Longrightarrow> b \<notin> set qs \<Longrightarrow> qs \<noteq> [] \<Longrightarrow> nlist (h(b := None, last qs := Some b)) p (qs @ [b])"
proof (induction qs arbitrary: p)
  case (Cons x qs)
  then show ?case by (cases "qs = []") auto
qed simp

lemma nlist_fresh: "nlist h p qs \<Longrightarrow> b \<notin> set qs \<Longrightarrow> nlist (h(b := v)) p qs"
  by (induction qs arbitrary: p) auto


subsection \<open>Against the synchronous driver\<close>

text \<open>A buffer that may be handed to the driver.\<close>

definition wants_sync :: "buf \<Rightarrow> bool" where
  "wants_sync x \<longleftrightarrow> b_busy x \<and> (b_valid x \<longrightarrow> b_dirty x) \<and> b_dev x = 1 \<and> b_blockno x < FSSIZE"

text \<open>The driver between two sections: the requests \<open>qs\<close> are queued, and the drive works on the first.\<close>

definition ide_ok :: "nat list \<Rightarrow> 'a idest_scheme \<Rightarrow> bool" where
  "ide_ok qs s \<longleftrightarrow> nlist (id_qnext s) (id_queue s) qs \<and> distinct qs \<and> set qs \<subseteq> {..<NBUF} \<and> havedisk1 s \<and> (\<forall>b \<in> set qs. wants_sync (bc_buf s b)) \<and>
     (case qs of [] \<Rightarrow> \<not> id_busy s | b # _ \<Rightarrow> id_busy s \<and> request (bc_buf s b) (id_regs s))"

definition same_io :: "'a idest_scheme \<Rightarrow> 'b bcache_scheme \<Rightarrow> bool" where
  "same_io s t \<longleftrightarrow> bc_buf s = bc_buf t \<and> bc_disk s = bc_disk t \<and> bc_writes s = bc_writes t"

lemma submit_ok:
  assumes ok: "ide_ok qs s" and b: "b < NBUF" "b \<notin> set qs" "wants_sync (bc_buf s b)" and st: "idewait True st = Ok 0"
  shows "\<exists>s'. ide_iderw st b s = Ok s' \<and> ide_ok (qs @ [b]) s' \<and> same_io s' s \<and> bc_wakeups s' = bc_wakeups s"
proof -
  let ?s1 = "s\<lparr>id_qnext := (id_qnext s)(b := None)\<rparr>"
  have l: "nlist (id_qnext s) (id_queue s) qs" "distinct qs" "set qs \<subseteq> {..<NBUF}" "havedisk1 s" "\<forall>b \<in> set qs. wants_sync (bc_buf s b)" using ok by (auto simp: ide_ok_def)
  have "nlist (id_qnext ?s1) (at_loc None ?s1) qs" using nlist_fresh [OF l(1) b(2)] by (simp add: at_loc_def)
  then have e: "queue_end NBUF None ?s1 = Ok (if qs = [] then None else Some (last qs))"
    using distinct_bounded_length [OF l(2,3)] by (rule queue_end_ok)
  have c: "b_busy (bc_buf s b)" "\<not> (b_valid (bc_buf s b) \<and> \<not> b_dirty (bc_buf s b))" using b(3) by (auto simp: wants_sync_def)
  show ?thesis
  proof (cases "qs = []")
    case True
    let ?s2 = "?s1\<lparr>id_queue := Some b\<rparr>"
    obtain r where r: "idestart st (Some b) ?s2 = Ok (?s2\<lparr>id_regs := r, id_busy := True\<rparr>)" "request (bc_buf s b) r"
      using idestart_ok [of ?s2 b st] b(3) idewait_ready [OF st] by (auto simp: wants_sync_def)
    then show ?thesis using e c l b True by (auto simp: ide_iderw_def ide_ok_def same_io_def)
  next
    case False
    let ?s2 = "?s1\<lparr>id_qnext := (id_qnext ?s1)(last qs := Some b)\<rparr>"
    obtain x xs where q: "qs = x # xs" using False by (cases qs) auto
    then have h: "id_queue ?s2 = Some x" "x \<noteq> b" using l(1) b(2) by auto
    have "nlist (id_qnext ?s2) (id_queue ?s2) (qs @ [b])" using nlist_snoc [OF l(1,2) b(2) False] by simp
    then have "ide_ok (qs @ [b]) ?s2" using ok l b q by (auto simp: ide_ok_def)
    moreover have "ide_iderw st b s = Ok ?s2" using e c l(4) False h by (auto simp: ide_iderw_def Let_def)
    ultimately show ?thesis by (intro exI [of _ ?s2]) (simp add: same_io_def)
  qed
qed


lemma intr_idle: "ide_ok [] s \<Longrightarrow> ide_step wr rd (Intr st st2) s = Ok s"
  by (simp add: ide_ok_def ideintr_def)

lemma intr_ok:
  fixes s :: "'a idest_scheme" and t :: "'b bcache_scheme"
  assumes ok: "ide_ok (b # qs) s" and hw: "ata_drive wr rd" and st: "idewait True st = Ok 0" "idewait True st2 = Ok 0"
    and t: "same_io s t" "bc_disksize t = FSSIZE"
  shows "\<exists>s' t'. ide_step wr rd (Intr st st2) s = Ok s' \<and> iderw b t = Ok t' \<and> ide_ok qs s' \<and> same_io s' t' \<and>
    bc_wakeups s' = bc_wakeups s @ [ChBuf b] \<and> bc_disksize t' = FSSIZE"
proof -
  let ?x = "bc_buf s b" and ?r = "id_regs s"
  have q: "id_queue s = Some b" "nlist (id_qnext s) (id_qnext s b) qs" "distinct qs" "b \<notin> set qs" "set qs \<subseteq> {..<NBUF}" "havedisk1 s"
    "\<forall>c \<in> set qs. wants_sync (bc_buf s c)" "wants_sync ?x" "id_busy s" "request ?x ?r" using ok by (auto simp: ide_ok_def)
  have x: "b_dev ?x = 1" "b_busy ?x" "b_valid ?x \<longrightarrow> b_dirty ?x" "b_blockno ?x < FSSIZE" using q(8) by (auto simp: wants_sync_def)
  have r: "drive_unit ?r = 1" "drive_lba ?r = b_blockno ?x" using q(10) x(1) by (auto simp: request_def)
  have io: "bc_buf t = bc_buf s" "bc_disk t = bc_disk s" "bc_writes t = bc_writes s" using t(1) by (auto simp: same_io_def)
  define s2 where "s2 = (drive_done wr s)\<lparr>id_queue := id_qnext s b\<rparr>"
  define x' where "x' = (if b_dirty ?x then ?x\<lparr>b_dirty := False, b_valid := True\<rparr> else ?x\<lparr>b_data := bc_disk s 1 (b_blockno ?x), b_valid := True\<rparr>)"
  have xe: "b_dirty ?x \<Longrightarrow> ?x\<lparr>b_valid := True, b_dirty := False\<rparr> = x'"
    "\<not> b_dirty ?x \<Longrightarrow> ?x\<lparr>b_data := bc_disk s 1 (b_blockno ?x), b_valid := True, b_dirty := False\<rparr> = x'"
    by (cases ?x, simp add: x'_def)+
  define s3 where "s3 = s2\<lparr>bc_buf := (bc_buf s)(b := x'), bc_wakeups := bc_wakeups s @ [ChBuf b]\<rparr>"
  have dd: "drive_done wr s = (if b_dirty ?x then s\<lparr>bc_disk := (bc_disk s)(1 := (bc_disk s 1)(b_blockno ?x := b_data ?x)),
      bc_writes := bc_writes s @ [(1, b_blockno ?x, b_data ?x)], id_busy := False\<rparr> else s\<lparr>id_busy := False\<rparr>)"
    using hw q(10) r by (auto simp: drive_done_def ata_drive_def request_def split: if_splits)
  have rd: "\<not> b_dirty ?x \<Longrightarrow> rd ?r (bc_disk s) = bc_disk s 1 (b_blockno ?x)" using hw q(10) r by (auto simp: ata_drive_def request_def)
  have sel: "bc_buf (drive_done wr s) = bc_buf s" "id_queue (drive_done wr s) = Some b" "id_qnext (drive_done wr s) = id_qnext s" "bc_wakeups (drive_done wr s) = bc_wakeups s"
    using dd q(1) by simp_all
  have run: "ide_step wr rd (Intr st st2) s = (if id_qnext s b \<noteq> None then idestart st2 (id_qnext s b) s3 else Ok s3)"
    using q(9) sel rd st(1) by (cases "b_dirty ?x") (simp_all add: ideintr_def upd_buf_def wake_def s3_def s2_def xe [unfolded One_nat_def] Let_def)
  obtain t' where t': "iderw b t = Ok t'" "bc_buf t' = (bc_buf s)(b := x')" "bc_disk t' = bc_disk s3" "bc_writes t' = bc_writes s3" "bc_disksize t' = FSSIZE"
    using x t(2) by (cases "b_dirty ?x") (simp_all add: iderw_def Let_def io upd_buf_def s3_def s2_def x'_def dd)
  have s3: "nlist (id_qnext s3) (id_queue s3) qs" "havedisk1 s3" "\<forall>c \<in> set qs. bc_buf s3 c = bc_buf s c" "same_io s3 t'" "bc_wakeups s3 = bc_wakeups s @ [ChBuf b]" "\<not> id_busy s3"
    using q(2,4,6) dd t' by (auto simp: s3_def s2_def same_io_def)
  show ?thesis
  proof (cases qs)
    case Nil
    then have "ide_ok qs s3" using s3 by (simp add: ide_ok_def)
    then show ?thesis using run t' s3 Nil q(2) by auto
  next
    case (Cons c cs)
    then have c: "id_qnext s b = Some c" "wants_sync (bc_buf s3 c)" using q(2,7) s3(3) by auto
    obtain r' where r': "idestart st2 (Some c) s3 = Ok (s3\<lparr>id_regs := r', id_busy := True\<rparr>)" "request (bc_buf s3 c) r'"
      using idestart_ok [of s3 c st2] c(2) idewait_ready [OF st(2)] by (auto simp: wants_sync_def)
    have "ide_ok qs (s3\<lparr>id_regs := r', id_busy := True\<rparr>)" using s3 q(3,5,7) r'(2) Cons by (auto simp: ide_ok_def)
    then show ?thesis using run t' s3 c r'(1) by (auto simp: same_io_def)
  qed
qed


lemma touch_ok: "ide_ok q s \<Longrightarrow> b \<notin> set q \<Longrightarrow> ide_ok q (upd_buf b (\<lambda>_. x) s)"
  by (cases q) (auto simp: ide_ok_def upd_buf_def)

lemma iderw_keeps: "iderw b t = Ok t' \<Longrightarrow> bc_wakeups t' = bc_wakeups t" "iderw b t = Ok t' \<Longrightarrow> b_valid (bc_buf t' b) \<and> \<not> b_dirty (bc_buf t' b)"
  by (auto simp: iderw_def Let_def upd_buf_def split: if_splits)

text \<open>The same events with the synchronous driver: the requests that wait, first come first served, and the state in which those served so far were served by \<^verbatim>\<open>iderw\<close> of
  \<^verbatim>\<open>memide.c\<close>.\<close>

fun sync_step :: "ide_event \<Rightarrow> nat list \<times> 'a bcache_scheme \<Rightarrow> (nat list \<times> 'a bcache_scheme) res" where
  "sync_step (Submit b st) (q, t) = Ok (q @ [b], t)"
| "sync_step (Intr st st2) ([], t) = Ok ([], t)"
| "sync_step (Intr st st2) (b # q, t) = rbind (iderw b t) (\<lambda>t'. Ok (q, wake (ChBuf b) t'))"
| "sync_step (Touch b x) (q, t) = Ok (q, upd_buf b (\<lambda>_. x) t)"

text \<open>What the users of the driver and the drive may do: a buffer is handed in when it is not in the queue and needs a transfer, it is not changed while it is in the queue, and
  the drive becomes ready and reports no error.\<close>

fun allowed :: "ide_event \<Rightarrow> nat list \<times> 'a bcache_scheme \<Rightarrow> bool" where
  "allowed (Submit b st) (q, t) \<longleftrightarrow> b < NBUF \<and> b \<notin> set q \<and> wants_sync (bc_buf t b) \<and> idewait True st = Ok 0"
| "allowed (Intr st st2) (q, t) \<longleftrightarrow> idewait True st = Ok 0 \<and> idewait True st2 = Ok 0"
| "allowed (Touch b x) (q, t) \<longleftrightarrow> b \<notin> set q"

fun allowed_run :: "ide_event list \<Rightarrow> nat list \<times> 'a bcache_scheme \<Rightarrow> bool" where
  "allowed_run [] qt \<longleftrightarrow> True"
| "allowed_run (e # es) qt \<longleftrightarrow> allowed e qt \<and> (\<forall>qt'. sync_step e qt = Ok qt' \<longrightarrow> allowed_run es qt')"

definition ide_rel :: "nat list \<times> 'b bcache_scheme \<Rightarrow> 'a idest_scheme \<Rightarrow> bool" where
  "ide_rel qt s \<longleftrightarrow> ide_ok (fst qt) s \<and> same_io s (snd qt) \<and> bc_wakeups s = bc_wakeups (snd qt) \<and> bc_disksize (snd qt) = FSSIZE"

lemma step_refines:
  assumes hw: "ata_drive wr rd" and r: "ide_rel qt s" and a: "allowed e qt"
  shows "\<exists>s' qt'. ide_step wr rd e s = Ok s' \<and> sync_step e qt = Ok qt' \<and> ide_rel qt' s'"
proof -
  obtain q t where qt: "qt = (q, t)" by (cases qt)
  then have R: "ide_ok q s" "same_io s t" "bc_wakeups s = bc_wakeups t" "bc_disksize t = FSSIZE" using r by (auto simp: ide_rel_def)
  show ?thesis
  proof (cases e)
    case (Submit b st)
    then have "b < NBUF" "b \<notin> set q" "wants_sync (bc_buf s b)" "idewait True st = Ok 0" using a R(2) qt by (auto simp: same_io_def)
    then obtain s' where "ide_iderw st b s = Ok s'" "ide_ok (q @ [b]) s'" "same_io s' s" "bc_wakeups s' = bc_wakeups s" using submit_ok [OF R(1)] by blast
    then show ?thesis using R Submit qt by (auto simp: ide_rel_def same_io_def)
  next
    case (Touch b x)
    then show ?thesis using a R touch_ok [OF R(1), of b x] qt by (auto simp: ide_rel_def same_io_def upd_buf_def)
  next
    case (Intr st st2)
    show ?thesis
    proof (cases q)
      case Nil
      then show ?thesis using R Intr intr_idle [of s wr rd st st2] qt by (auto simp: ide_rel_def)
    next
      case (Cons b q')
      then obtain s' t' where "ide_step wr rd (Intr st st2) s = Ok s'" "iderw b t = Ok t'" "ide_ok q' s'" "same_io s' t'"
        "bc_wakeups s' = bc_wakeups s @ [ChBuf b]" "bc_disksize t' = FSSIZE"
        using intr_ok [of b q' s wr rd st st2 t] hw R a Intr qt by auto
      then show ?thesis using R(3) iderw_keeps(1) [of b t t'] Intr Cons qt by (auto simp: ide_rel_def same_io_def wake_def)
    qed
  qed
qed

lemma run_refines:
  assumes hw: "ata_drive wr rd"
  shows "ide_rel qt s \<Longrightarrow> allowed_run es qt \<Longrightarrow> \<exists>s' qt'. rfold (ide_step wr rd) es s = Ok s' \<and> rfold sync_step es qt = Ok qt' \<and> ide_rel qt' s'"
proof (induction es arbitrary: s qt)
  case (Cons e es)
  then obtain s1 qt1 where "ide_step wr rd e s = Ok s1" "sync_step e qt = Ok qt1" "ide_rel qt1 s1" using step_refines [OF hw, of qt s e] by auto
  then show ?case using Cons.IH [of qt1 s1] Cons.prems(2) by simp
qed simp

lemma served_wait:
  assumes "rfold sync_step (es @ [Intr st st2]) qt = Ok (q, t)" "rfold sync_step es qt = Ok (b # q0, t0)" "ide_rel (q, t) s"
  shows "iderw_wait b s = Ok s"
proof -
  obtain t1 where t1: "iderw b t0 = Ok t1" "t = wake (ChBuf b) t1" using assms(1,2) by (auto simp: rfold_append rbind_Ok_iff)
  then have "bc_buf t = bc_buf t1" by (simp add: wake_def)
  then show ?thesis using assms(3) iderw_keeps(2) [OF t1(1)] by (simp add: iderw_wait_def ide_rel_def same_io_def)
qed

lemma queued_wait: "ide_rel (q, t) s \<Longrightarrow> b \<in> set q \<Longrightarrow> iderw_wait b s = Block"
  by (auto simp: ide_rel_def ide_ok_def iderw_wait_def wants_sync_def)

text \<open>C20. The interrupt-driven disk driver refines the synchronous one. Over any sequence of requests, interrupts and changes of buffers that are not in the queue, the driver never
  panics, serves the requests in the order they were made, and leaves the disk, the record of disk writes, the buffers and the record of wakeups exactly as calling \<^verbatim>\<open>iderw\<close> of
  \<^verbatim>\<open>memide.c\<close> at each completion does; the same buffer may be handed in any number of times. A process whose request has just been served finds its wait over, and a process
  whose request is in the queue keeps waiting. The conditions: each buffer handed in is, at that time, not in the queue, busy, in need of a transfer, and for a block of disk 1
  within the file system; the drive follows its documentation, becomes ready and reports no error; and while it has a command it interrupts only when it has carried it out. (An
  interrupt when no request is queued is allowed, and ignored.)\<close>

theorem ide_refines:
  fixes s :: "'a idest_scheme"
  assumes "ata_drive wr rd" "ide_ok [] s" "bc_disksize s = FSSIZE" "allowed_run es ([], s)"
  shows "\<exists>s' q t. rfold (ide_step wr rd) es s = Ok s' \<and> rfold sync_step es ([], s) = Ok (q, t) \<and>
    bc_disk s' = bc_disk t \<and> bc_writes s' = bc_writes t \<and> bc_buf s' = bc_buf t \<and> bc_wakeups s' = bc_wakeups t \<and>
    nlist (id_qnext s') (id_queue s') q \<and> (\<forall>b \<in> set q. iderw_wait b s' = Block) \<and>
    (\<forall>es0 st st2 b q0 t0. es = es0 @ [Intr st st2] \<longrightarrow> rfold sync_step es0 ([], s) = Ok (b # q0, t0) \<longrightarrow> iderw_wait b s' = Ok s')"
proof -
  have "ide_rel ([], s) s" using assms(2,3) by (simp add: ide_rel_def same_io_def)
  then obtain s' q t where r: "rfold (ide_step wr rd) es s = Ok s'" "rfold sync_step es ([], s) = Ok (q, t)" "ide_rel (q, t) s'"
    using run_refines [OF assms(1) _ assms(4)] by force
  moreover have "iderw_wait b s' = Ok s'" if "es = es0 @ [Intr st st2]" "rfold sync_step es0 ([], s) = Ok (b # q0, t0)" for es0 st st2 b q0 t0
    using served_wait [OF r(2) [unfolded that(1)] that(2) r(3)] .
  ultimately show ?thesis using queued_wait [OF r(3)] by (intro exI [of _ s'] exI [of _ q] exI [of _ t]) (auto simp: ide_rel_def same_io_def ide_ok_def)
qed

text \<open>A drive that follows its documentation, with a dirty buffer and an empty one.\<close>

definition ex_wr :: "taskfile \<Rightarrow> (nat \<times> nat \<times> block) option" where
  "ex_wr r = (if r_cmd r = 0x30 then Some (drive_unit r, drive_lba r, r_data r) else None)"

definition ex_rd :: "taskfile \<Rightarrow> (nat \<Rightarrow> nat \<Rightarrow> block) \<Rightarrow> block" where
  "ex_rd r d = d (drive_unit r) (drive_lba r)"

definition ex_ide :: idest where
  "ex_ide = \<lparr>bc_buf = (\<lambda>i. \<lparr>b_busy = True, b_valid = i = 0, b_dirty = i = 0, b_dev = 1, b_blockno = 300 + i, b_data = replicate BSIZE (of_nat i)\<rparr>),
     bc_next = (\<lambda>i. i), bc_prev = (\<lambda>i. i), bc_disk = (\<lambda>d n. replicate BSIZE (of_nat n)), bc_disksize = FSSIZE, bc_writes = [], bc_wakeups = [],
     id_queue = None, id_qnext = (\<lambda>_. None), havedisk1 = True,
     id_regs = \<lparr>r_count = 0, r_lba0 = 0, r_lba1 = 0, r_lba2 = 0, r_drive = 0xe0, r_cmd = 0, r_data = []\<rparr>, id_busy = False\<rparr>"

text \<open>Buffer 0 is written, buffer 1 read, then buffer 0 is changed and written again; a last interrupt finds no request.\<close>

definition ex_events :: "ide_event list" where
  "ex_events = [Submit 0 [0xd0, 0x40], Submit 1 [0x40], Intr [0x40] [0x50],
     Touch 0 \<lparr>b_busy = True, b_valid = True, b_dirty = True, b_dev = 1, b_blockno = 300, b_data = replicate BSIZE 7\<rparr>,
     Submit 0 [0x40], Intr [0x80, 0x40] [0x40], Intr [0x40] [0x40], Intr [0x40] [0x40]]"

lemma ex_allowed: "allowed_run ex_events ([], ex_ide)"
proof -
  have w: "idewait True [0xd0, 0x40] = Ok 0" "idewait True [0x40] = Ok 0" "idewait True [0x50] = Ok 0" "idewait True [0x80, 0x40] = Ok 0" by code_simp+
  show ?thesis by (simp add: ex_events_def w ex_ide_def wants_sync_def FSSIZE_def NBUF_def iderw_def Let_def upd_buf_def wake_def del: idewait.simps)
qed

theorem ide_refines_witness:
  "\<exists>s' t. rfold (ide_step ex_wr ex_rd) ex_events ex_ide = Ok s' \<and> rfold sync_step ex_events ([], ex_ide) = Ok ([], t) \<and>
     bc_disk s' 1 300 = replicate BSIZE 7 \<and> bc_wakeups s' = [ChBuf 0, ChBuf 1, ChBuf 0] \<and> id_queue s' = None"
proof -
  have "ata_drive ex_wr ex_rd" by (simp add: ata_drive_def ex_wr_def ex_rd_def)
  moreover have "ide_ok [] ex_ide" "bc_disksize ex_ide = FSSIZE" by (simp_all add: ide_ok_def ex_ide_def)
  ultimately obtain s' q t where r: "rfold (ide_step ex_wr ex_rd) ex_events ex_ide = Ok s'" "rfold sync_step ex_events ([], ex_ide) = Ok (q, t)"
      "bc_disk s' = bc_disk t" "bc_wakeups s' = bc_wakeups t" "nlist (id_qnext s') (id_queue s') q"
    using ide_refines [OF _ _ _ ex_allowed, of ex_wr ex_rd] by blast
  have "q = [] \<and> bc_disk t 1 300 = replicate BSIZE 7 \<and> bc_wakeups t = [ChBuf 0, ChBuf 1, ChBuf 0]"
    using r(2) by (simp add: ex_events_def ex_ide_def FSSIZE_def iderw_def Let_def upd_buf_def wake_def) auto
  then show ?thesis using r by auto
qed

end
