(* ===== verification/Kalloc.thy ===== *)
theory Kalloc
  imports Memory Spinlock
begin

text \<open>
  The physical page allocator \<^verbatim>\<open>kalloc.c\<close>. The free list is threaded through the first word of
  each free page, in memory, as in the code. \<open>kend\<close> is the linker symbol \<^verbatim>\<open>end\<close>, the first
  address after the kernel. \<^verbatim>\<open>kmem.lock\<close> brackets the update of the list head: with
  \<^verbatim>\<open>use_lock\<close> set the two operations acquire and release it around a section that no other code
  enters, so they are single steps here.

  \<open>freelist_ok kend k ps\<close> says that the free list holds the pages \<open>ps\<close>. The locale
  \<open>page_allocator\<close> is what the rest of the kernel relies on; it is interpreted on \<^verbatim>\<open>kfree\<close>
  and \<^verbatim>\<open>kalloc\<close>.
\<close>

definition PGSIZE :: "32 word" where "PGSIZE = 4096"
definition PHYSTOP :: "32 word" where "PHYSTOP = 0xE000000"

declare PGSIZE_def [layout] PHYSTOP_def [layout] KERNBASE_def [layout]


definition PGROUNDUP :: "32 word \<Rightarrow> 32 word" where
  "PGROUNDUP sz = (sz + PGSIZE - 1) AND NOT (PGSIZE - 1)"

definition PGROUNDDOWN :: "32 word \<Rightarrow> 32 word" where
  "PGROUNDDOWN a = a AND NOT (PGSIZE - 1)"

record kmem =
  km_mem :: mem
  km_use_lock :: bool
  km_freelist :: addr

definition kfree :: "addr \<Rightarrow> addr \<Rightarrow> 'a kmem_scheme \<Rightarrow> 'a kmem_scheme res" where
  "kfree kend v k =
     (if v mod PGSIZE \<noteq> 0 \<or> v < kend \<or> PHYSTOP \<le> v - KERNBASE then Panic ''kfree''
      else let m1 = memset v 1 PGSIZE (km_mem k)
           in Ok (k\<lparr>km_mem := store32 v (km_freelist k) m1, km_freelist := v\<rparr>))"

definition kalloc :: "'a kmem_scheme \<Rightarrow> addr \<times> 'a kmem_scheme" where
  "kalloc k =
     (let r = km_freelist k
      in (r, if r \<noteq> 0 then k\<lparr>km_freelist := load32 (km_mem k) r\<rparr> else k))"

text \<open>The loop \<^verbatim>\<open>for(; p + PGSIZE <= vend; p += PGSIZE) kfree(p)\<close>; the fuel is the number of pages
  of the address space, which bounds the iterations before \<^verbatim>\<open>p\<close> comes back to a value it had.\<close>

fun freerange_loop :: "nat \<Rightarrow> addr \<Rightarrow> addr \<Rightarrow> addr \<Rightarrow> 'a kmem_scheme \<Rightarrow> 'a kmem_scheme res" where
  "freerange_loop fuel kend p vend k =
     (if p + PGSIZE \<le> vend then
        (case fuel of 0 \<Rightarrow> Diverge
         | Suc fuel' \<Rightarrow> rbind (kfree kend p k) (freerange_loop fuel' kend (p + PGSIZE) vend))
      else Ok k)"

declare freerange_loop.simps [simp del]

definition freerange :: "addr \<Rightarrow> addr \<Rightarrow> addr \<Rightarrow> 'a kmem_scheme \<Rightarrow> 'a kmem_scheme res" where
  "freerange kend vstart vend k = freerange_loop (2 ^ 20) kend (PGROUNDUP vstart) vend k"

definition kinit1 :: "addr \<Rightarrow> addr \<Rightarrow> addr \<Rightarrow> 'a kmem_scheme \<Rightarrow> 'a kmem_scheme res" where
  "kinit1 kend vstart vend k = freerange kend vstart vend (k\<lparr>km_use_lock := False\<rparr>)"

definition kinit2 :: "addr \<Rightarrow> addr \<Rightarrow> addr \<Rightarrow> 'a kmem_scheme \<Rightarrow> 'a kmem_scheme res" where
  "kinit2 kend vstart vend k = rbind (freerange kend vstart vend k) (\<lambda>k1. Ok (k1\<lparr>km_use_lock := True\<rparr>))"

subsection \<open>Pages\<close>

definition page_ok :: "addr \<Rightarrow> addr \<Rightarrow> bool" where
  "page_ok kend v \<longleftrightarrow> v mod PGSIZE = 0 \<and> kend \<le> v \<and> v - KERNBASE < PHYSTOP"

text \<open>The offset of an address in the page at \<open>v\<close>.\<close>

definition in_page :: "addr \<Rightarrow> addr \<Rightarrow> bool" where
  "in_page v x \<longleftrightarrow> unat (x - v) < 4096"

lemma aligned_unat: "(v :: addr) mod PGSIZE = 0 \<Longrightarrow> \<exists>k < 2 ^ 20. unat v = 4096 * k"
proof -
  assume "v mod PGSIZE = 0"
  then have "unat v mod 4096 = 0" using unat_mod_distrib [of v PGSIZE] by (simp add: PGSIZE_def)
  then obtain k where k: "unat v = 4096 * k" by (auto elim: dvdE simp: mod_eq_0_iff_dvd)
  have "4096 * k < 4096 * 2 ^ 20" using unat_lt [of v] k by simp
  then show ?thesis using k by auto
qed

lemma page_end: "(v :: addr) mod PGSIZE = 0 \<Longrightarrow> unat v + 4096 \<le> 2 ^ 32"
  using aligned_unat [of v] by auto

lemma in_page_iff: "v mod PGSIZE = 0 \<Longrightarrow> in_page v x \<longleftrightarrow> unat v \<le> unat x \<and> unat x < unat v + 4096"
proof -
  assume v: "v mod PGSIZE = 0"
  have "unat (x - v) = (if unat v \<le> unat x then unat x - unat v else 2 ^ 32 + unat x - unat v)"
    using unat_lt [of x] unat_lt [of v] by (auto simp: unat_sub_if_size word_size)
  then show ?thesis using page_end [OF v] unat_lt [of x] by (auto simp: in_page_def)
qed

lemma pages_disjoint:
  assumes "v mod PGSIZE = 0" "w mod PGSIZE = 0" "v \<noteq> w" "in_page v x"
  shows "\<not> in_page w x"
proof
  assume "in_page w x"
  obtain i j where ij: "unat v = 4096 * i" "unat w = 4096 * j" 
    using aligned_unat [OF assms(1)] aligned_unat [OF assms(2)] by blast
  then have "4096 * i < 4096 * j + 4096" "4096 * j < 4096 * i + 4096"
    using assms \<open>in_page w x\<close> by (auto simp: in_page_iff)
  then have "i = j" by simp
  then show False using assms(3) ij by (simp add: word_unat_eq_iff)
qed

lemma in_page_word: "v mod PGSIZE = 0 \<Longrightarrow> i < 4096 \<Longrightarrow> in_page v (v + of_nat i)"
  by (simp add: in_page_def)

lemma load32_cong:
  "(\<And>i. i < 4 \<Longrightarrow> m (a + of_nat i) = m' (a + of_nat i)) \<Longrightarrow> load32 m a = load32 m' a"
proof -
  assume e: "\<And>i. i < 4 \<Longrightarrow> m (a + of_nat i) = m' (a + of_nat i)"
  show ?thesis using e [of 0] e [of 1] e [of 2] e [of 3] by (simp add: load32_def)
qed

lemma store32_other: "unat (x - a) \<ge> 4 \<Longrightarrow> store32 a w m x = m x"
proof -
  assume x: "unat (x - a) \<ge> 4"
  have "x \<noteq> a + of_nat i" if "i < 4" for i using x that by auto
  from this [of 0] this [of 1] this [of 2] this [of 3] show ?thesis by (simp add: store32_def)
qed

subsection \<open>The free list\<close>

fun chain :: "mem \<Rightarrow> addr \<Rightarrow> addr list \<Rightarrow> bool" where
  "chain m p [] = (p = 0)"
| "chain m p (v # vs) = (p = v \<and> v \<noteq> 0 \<and> chain m (load32 m v) vs)"

definition freelist_ok :: "addr \<Rightarrow> 'a kmem_scheme \<Rightarrow> addr list \<Rightarrow> bool" where
  "freelist_ok kend k ps \<longleftrightarrow> chain (km_mem k) (km_freelist k) ps \<and> distinct ps \<and> (\<forall>v \<in> set ps. page_ok kend v)"

text \<open>The content of a page outside the free list is its own: list operations do not touch it.\<close>

lemma chain_cong:
  "(\<And>v i. v \<in> set vs \<Longrightarrow> i < 4 \<Longrightarrow> m (v + of_nat i) = m' (v + of_nat i)) \<Longrightarrow> chain m p vs = chain m' p vs"
proof (induction vs arbitrary: p)
  case (Cons v vs)
  have "load32 m v = load32 m' v" using Cons.prems by (intro load32_cong) simp
  then show ?case using Cons by simp
qed simp

lemma kfree_ok:
  assumes ok: "freelist_ok kend k ps" and v: "page_ok kend v" "v \<notin> set ps" "v \<noteq> 0"
  shows "\<exists>m. kfree kend v k = Ok (k\<lparr>km_mem := m, km_freelist := v\<rparr>) \<and>
    freelist_ok kend (k\<lparr>km_mem := m, km_freelist := v\<rparr>) (v # ps) \<and> (\<forall>x. \<not> in_page v x \<longrightarrow> m x = km_mem k x)"
proof -
  define m where "m = store32 v (km_freelist k) (memset v 1 PGSIZE (km_mem k))"
  have al: "v mod PGSIZE = 0" using v(1) by (simp add: page_ok_def)
  have out: "m x = km_mem k x" if "\<not> in_page v x" for x
    using that by (simp add: m_def store32_other memset_fill fill_def in_page_def PGSIZE_def not_less)
  have "chain m (km_freelist k) ps = chain (km_mem k) (km_freelist k) ps"
  proof (rule chain_cong)
    fix w i assume w: "w \<in> set ps" "i < (4::nat)"
    then have "w mod PGSIZE = 0" using ok by (simp add: freelist_ok_def page_ok_def)
    then have "\<not> in_page v (w + of_nat i)"
      using pages_disjoint [of w v] in_page_word [of w i] al w v(2) by auto
    then show "m (w + of_nat i) = km_mem k (w + of_nat i)" by (rule out)
  qed
  then have "freelist_ok kend (k\<lparr>km_mem := m, km_freelist := v\<rparr>) (v # ps)"
    using ok v by (simp add: freelist_ok_def m_def load32_store32)
  moreover have "kfree kend v k = Ok (k\<lparr>km_mem := m, km_freelist := v\<rparr>)"
    using v(1) by (auto simp: kfree_def page_ok_def m_def Let_def not_less)
  ultimately show ?thesis using out by blast
qed

lemma kfree_bad: "\<not> page_ok kend v \<Longrightarrow> kfree kend v k = Panic ''kfree''"
  by (auto simp: kfree_def page_ok_def not_less not_le)

lemma kalloc_ok:
  assumes "freelist_ok kend k ps"
  shows "case ps of
      [] \<Rightarrow> kalloc k = (0, k)
    | v # vs \<Rightarrow> kalloc k = (v, k\<lparr>km_freelist := load32 (km_mem k) v\<rparr>) \<and>
        freelist_ok kend (k\<lparr>km_freelist := load32 (km_mem k) v\<rparr>) vs \<and> v \<notin> set vs \<and> page_ok kend v \<and> v \<noteq> 0"
  using assms by (cases ps) (auto simp: freelist_ok_def kalloc_def Let_def)

subsection \<open>The contract of the allocator\<close>

text \<open>
  \<open>free s\<close> are the pages that can be allocated, \<open>held\<close> pages are those a client owns. An allocated
  page was free and is not any more; freeing and allocating leave the content of the client's
  other pages alone.
\<close>

locale page_allocator =
  fixes alloc :: "'s \<Rightarrow> 'p \<times> 's"
    and dealloc :: "'p \<Rightarrow> 's \<Rightarrow> 's res"
    and null :: 'p
    and repr :: "'s \<Rightarrow> 'p list \<Rightarrow> bool"
    and valid :: "'p \<Rightarrow> bool"
    and data :: "'s \<Rightarrow> 'p \<Rightarrow> 'd"
  assumes repr_distinct: "repr s ps \<Longrightarrow> distinct ps \<and> null \<notin> set ps \<and> (\<forall>p \<in> set ps. valid p)"
    and alloc_none: "repr s [] \<Longrightarrow> alloc s = (null, s)"
    and alloc_some: "repr s (p # ps) \<Longrightarrow> \<exists>s'. alloc s = (p, s') \<and> repr s' ps \<and> (\<forall>q. valid q \<longrightarrow> data s' q = data s q)"
    and dealloc_ok: "repr s ps \<Longrightarrow> valid p \<Longrightarrow> p \<noteq> null \<Longrightarrow> p \<notin> set ps \<Longrightarrow>
      \<exists>s'. dealloc p s = Ok s' \<and> repr s' (p # ps) \<and> (\<forall>q. valid q \<longrightarrow> q \<noteq> p \<longrightarrow> data s' q = data s q)"
begin

text \<open>Allocating \<open>n\<close> pages one after the other.\<close>

fun alloc_n :: "nat \<Rightarrow> 's \<Rightarrow> 'p list \<times> 's" where
  "alloc_n 0 s = ([], s)"
| "alloc_n (Suc n) s = (let (p, s1) = alloc s; (ps, s2) = alloc_n n s1 in (p # ps, s2))"

lemma alloc_n_ok:
  "repr s ps \<Longrightarrow> n \<le> length ps \<Longrightarrow>
   \<exists>s'. alloc_n n s = (take n ps, s') \<and> repr s' (drop n ps) \<and> (\<forall>q. valid q \<longrightarrow> data s' q = data s q)"
proof (induction n arbitrary: s ps)
  case (Suc n)
  then obtain p ps' where ps: "ps = p # ps'" by (cases ps) auto
  then obtain s1 where 1: "alloc s = (p, s1)" "repr s1 ps'" "\<forall>q. valid q \<longrightarrow> data s1 q = data s q"
    using alloc_some Suc.prems(1) by blast
  then show ?case using Suc.IH [OF 1(2)] Suc.prems(2) ps by (auto simp: Let_def)
qed auto

lemma alloc_n_distinct:
  "repr s ps \<Longrightarrow> n \<le> length ps \<Longrightarrow> distinct (fst (alloc_n n s)) \<and> null \<notin> set (fst (alloc_n n s))"
  using alloc_n_ok [of s ps n] repr_distinct [of s ps] by (auto dest: in_set_takeD)

text \<open>A page that is freed is the next one handed out.\<close>

lemma alloc_dealloc:
  assumes "repr s ps" "valid p" "p \<noteq> null" "p \<notin> set ps"
  shows "\<exists>s1 s2. dealloc p s = Ok s1 \<and> alloc s1 = (p, s2) \<and> repr s2 ps"
  using dealloc_ok [OF assms] alloc_some by blast

end

definition page_data :: "'a kmem_scheme \<Rightarrow> addr \<Rightarrow> byte list" where
  "page_data k v = bytes (km_mem k) v 4096"

lemma page_data_same:
  assumes "w mod PGSIZE = 0" "v mod PGSIZE = 0" "w \<noteq> v" "\<And>x. \<not> in_page v x \<Longrightarrow> km_mem k' x = km_mem k x"
  shows "page_data k' w = page_data k w"
  using pages_disjoint [OF assms(1,2,3)] in_page_word [OF assms(1)] assms(4) by (auto simp: page_data_def bytes_def)

interpretation ka: page_allocator kalloc "kfree kend" 0 "freelist_ok kend" "page_ok kend" page_data
  for kend
proof
  fix s :: "'a kmem_scheme" and ps p
  show "distinct ps \<and> 0 \<notin> set ps \<and> (\<forall>p\<in>set ps. page_ok kend p)" if "freelist_ok kend s ps"
  proof -
    have "chain m q vs \<Longrightarrow> 0 \<notin> set vs" for m q vs by (induction vs arbitrary: q) auto
    then show ?thesis using that by (auto simp: freelist_ok_def)
  qed
  show "kalloc s = (0, s)" if "freelist_ok kend s []" using kalloc_ok [OF that] by simp
  show "\<exists>s'. kalloc s = (p, s') \<and> freelist_ok kend s' ps \<and> (\<forall>q. page_ok kend q \<longrightarrow> page_data s' q = page_data s q)"
    if "freelist_ok kend s (p # ps)"
    using kalloc_ok [OF that] by (auto simp: page_data_def)
  show "\<exists>s'. kfree kend p s = Ok s' \<and> freelist_ok kend s' (p # ps) \<and>
      (\<forall>q. page_ok kend q \<longrightarrow> q \<noteq> p \<longrightarrow> page_data s' q = page_data s q)"
    if "freelist_ok kend s ps" "page_ok kend p" "p \<noteq> 0" "p \<notin> set ps"
  proof -
    note hyps = that
    obtain m where m: "kfree kend p s = Ok (s\<lparr>km_mem := m, km_freelist := p\<rparr>)"
        "freelist_ok kend (s\<lparr>km_mem := m, km_freelist := p\<rparr>) (p # ps)" "\<forall>x. \<not> in_page p x \<longrightarrow> m x = km_mem s x"
      using kfree_ok [OF hyps(1,2,4,3)] by blast
    then show ?thesis using hyps(2) page_data_same [of _ p "s\<lparr>km_mem := m, km_freelist := p\<rparr>" s]
      by (auto simp: page_ok_def)
  qed
qed

subsection \<open>Building the free list\<close>

definition pages_from :: "addr \<Rightarrow> nat \<Rightarrow> addr list" where
  "pages_from p n = map (\<lambda>i. p + of_nat i * PGSIZE) [0..<n]"

lemma pages_from_Suc: "pages_from p (Suc n) = p # pages_from (p + PGSIZE) n"
proof -
  have "map (\<lambda>i. p + of_nat i * PGSIZE) [0..<Suc n] = p # map (\<lambda>i. p + of_nat (Suc i) * PGSIZE) [0..<n]"
    by (simp add: upt_conv_Cons map_Suc_upt [symmetric] comp_def del: upt_Suc)
  then show ?thesis by (simp add: pages_from_def algebra_simps del: upt_Suc)
qed

lemma unat_next_page: "unat (p :: addr) + 4096 < 2 ^ 32 \<Longrightarrow> unat (p + PGSIZE) = unat p + 4096"
  by (simp add: PGSIZE_def unat_word_ariths)

lemma freerange_loop_ok:
  assumes "freelist_ok kend k ps" "unat p + 4096 * n \<le> unat vend" "unat vend < unat p + 4096 * (n + 1)"
    "unat vend < 2 ^ 32 - 4096" "\<forall>v \<in> set (pages_from p n). page_ok kend v \<and> v \<noteq> 0 \<and> v \<notin> set ps"
    "distinct (pages_from p n)" "n \<le> fuel"
  shows "\<exists>k'. freerange_loop fuel kend p vend k = Ok k' \<and> freelist_ok kend k' (rev (pages_from p n) @ ps) \<and>
    km_use_lock k' = km_use_lock k"
  using assms
proof (induction n arbitrary: fuel p ps k)
  case 0
  then have "unat (p + PGSIZE) = unat p + 4096" by (intro unat_next_page) simp
  then show ?case using 0 by (auto simp: freerange_loop.simps [of fuel] pages_from_def word_le_nat_alt)
next
  case (Suc n)
  obtain f where f: "fuel = Suc f" using Suc.prems(7) by (cases fuel) auto
  have np: "unat (p + PGSIZE) = unat p + 4096" using Suc.prems(2,4) by (intro unat_next_page) simp
  have pg: "page_ok kend p" "p \<noteq> 0" "p \<notin> set ps" "p \<notin> set (pages_from (p + PGSIZE) n)"
    "distinct (pages_from (p + PGSIZE) n)"
    using Suc.prems(5,6) by (auto simp: pages_from_Suc)
  obtain m where m: "kfree kend p k = Ok (k\<lparr>km_mem := m, km_freelist := p\<rparr>)"
      "freelist_ok kend (k\<lparr>km_mem := m, km_freelist := p\<rparr>) (p # ps)"
    using kfree_ok [OF Suc.prems(1) pg(1,3,2)] by blast
  have "\<exists>k'. freerange_loop f kend (p + PGSIZE) vend (k\<lparr>km_mem := m, km_freelist := p\<rparr>) = Ok k' \<and>
      freelist_ok kend k' (rev (pages_from (p + PGSIZE) n) @ p # ps) \<and>
      km_use_lock k' = km_use_lock (k\<lparr>km_mem := m, km_freelist := p\<rparr>)"
    using Suc.prems np pg f by (intro Suc.IH m(2)) (auto simp: pages_from_Suc)
  moreover have "p + PGSIZE \<le> vend" using np Suc.prems(2) by (simp add: word_le_nat_alt)
  ultimately show ?case using m(1) f by (simp add: freerange_loop.simps [of "Suc f"] pages_from_Suc)
qed

end
