(* ===== verification/Vm.thy ===== *)
theory Vm
  imports Kalloc Ptable
begin

text \<open>
  Page tables: \<^verbatim>\<open>vm.c\<close> over the memory and the page allocator. A page directory is the kernel
  address of its page, as in the code; entries are words in memory. The linker symbols \<^verbatim>\<open>end\<close>
  and \<^verbatim>\<open>data\<close> are the parameters \<open>kend\<close> and \<open>kdata\<close>. Dereferencing a null page table entry
  pointer is \<open>NullDeref\<close>. \<^verbatim>\<open>loaduvm\<close>, which reads a file, is modelled with \<^verbatim>\<open>exec\<close>.

  \<open>pte_of m pgdir va\<close> is the entry the hardware finds for \<open>va\<close>, zero where there is no page table.
  The lemmas describe every operation by its effect on \<open>pte_of\<close>.
\<close>

subsection \<open>Addresses and entries\<close>

definition PDX :: "addr \<Rightarrow> 32 word" where "PDX va = drop_bit 22 va AND 0x3FF"
definition PTX :: "addr \<Rightarrow> 32 word" where "PTX va = drop_bit 12 va AND 0x3FF"
definition PTE_P :: "32 word" where "PTE_P = 0x001"
definition PTE_W :: "32 word" where "PTE_W = 0x002"
definition PTE_U :: "32 word" where "PTE_U = 0x004"
definition PTE_ADDR :: "32 word \<Rightarrow> 32 word" where "PTE_ADDR pte = pte AND NOT 0xFFF"
definition PTE_FLAGS :: "32 word \<Rightarrow> 32 word" where "PTE_FLAGS pte = pte AND 0xFFF"
definition NPDENTRIES :: nat where "NPDENTRIES = 1024"
definition NPTENTRIES :: "32 word" where "NPTENTRIES = 1024"
definition EXTMEM :: "32 word" where "EXTMEM = 0x100000"
definition DEVSPACE :: "32 word" where "DEVSPACE = 0xFE000000"
definition KERNLINK :: "32 word" where "KERNLINK = KERNBASE + EXTMEM"

text \<open>More page steps than an address space has pages; no loop over pages runs longer.\<close>

definition VMFUEL :: nat where "VMFUEL = 2 ^ 20 + 1"

subsection \<open>Walking and mapping\<close>

definition walkpgdir :: "addr \<Rightarrow> addr \<Rightarrow> bool \<Rightarrow> 'a kmem_scheme \<Rightarrow> addr \<times> 'a kmem_scheme" where
  "walkpgdir pgdir va alloc k =
     (let pde = pgdir + 4 * PDX va; e = load32 (km_mem k) pde in
      if e AND PTE_P \<noteq> 0 then (p2v (PTE_ADDR e) + 4 * PTX va, k)
      else if \<not> alloc then (0, k)
      else let (pgtab, k1) = kalloc k in
        if pgtab = 0 then (0, k1)
        else let m1 = memset pgtab 0 PGSIZE (km_mem k1);
                 m2 = store32 pde (v2p pgtab OR PTE_P OR PTE_W OR PTE_U) m1
             in (pgtab + 4 * PTX va, k1\<lparr>km_mem := m2\<rparr>))"

fun mappages_loop :: "nat \<Rightarrow> addr \<Rightarrow> addr \<Rightarrow> addr \<Rightarrow> 32 word \<Rightarrow> 32 word \<Rightarrow> 'a kmem_scheme \<Rightarrow> (int \<times> 'a kmem_scheme) res" where
  "mappages_loop fuel pgdir a lst pa perm k =
     (case fuel of 0 \<Rightarrow> Diverge
      | Suc f \<Rightarrow>
        let (pte, k1) = walkpgdir pgdir a True k in
        if pte = 0 then Ok (-1, k1)
        else if load32 (km_mem k1) pte AND PTE_P \<noteq> 0 then Panic ''remap''
        else let k2 = k1\<lparr>km_mem := store32 pte (pa OR perm OR PTE_P) (km_mem k1)\<rparr> in
          if a = lst then Ok (0, k2)
          else mappages_loop f pgdir (a + PGSIZE) lst (pa + PGSIZE) perm k2)"

declare mappages_loop.simps [simp del]

definition mappages :: "addr \<Rightarrow> addr \<Rightarrow> 32 word \<Rightarrow> 32 word \<Rightarrow> 32 word \<Rightarrow> 'a kmem_scheme \<Rightarrow> (int \<times> 'a kmem_scheme) res" where
  "mappages pgdir va sz pa perm k =
     mappages_loop VMFUEL pgdir (PGROUNDDOWN va) (PGROUNDDOWN (va + sz - 1)) pa perm k"

text \<open>The kernel's part of every page table.\<close>

record kmap_entry =
  km_virt :: addr
  km_phys_start :: "32 word"
  km_phys_end :: "32 word"
  km_perm :: "32 word"

definition kmap :: "addr \<Rightarrow> kmap_entry list" where
  "kmap kdata =
     [\<lparr>km_virt = KERNBASE, km_phys_start = 0, km_phys_end = EXTMEM, km_perm = PTE_W\<rparr>,
      \<lparr>km_virt = KERNLINK, km_phys_start = v2p KERNLINK, km_phys_end = v2p kdata, km_perm = 0\<rparr>,
      \<lparr>km_virt = kdata, km_phys_start = v2p kdata, km_phys_end = PHYSTOP, km_perm = PTE_W\<rparr>,
      \<lparr>km_virt = DEVSPACE, km_phys_start = DEVSPACE, km_phys_end = 0, km_perm = PTE_W\<rparr>]"

fun setupkvm_loop :: "addr \<Rightarrow> kmap_entry list \<Rightarrow> 'a kmem_scheme \<Rightarrow> (addr \<times> 'a kmem_scheme) res" where
  "setupkvm_loop pgdir [] k = Ok (pgdir, k)"
| "setupkvm_loop pgdir (e # es) k =
     rbind (mappages pgdir (km_virt e) (km_phys_end e - km_phys_start e) (km_phys_start e) (km_perm e) k) (\<lambda>(rc, k1).
     if rc < 0 then Ok (0, k1) else setupkvm_loop pgdir es k1)"

definition setupkvm :: "addr \<Rightarrow> 'a kmem_scheme \<Rightarrow> (addr \<times> 'a kmem_scheme) res" where
  "setupkvm kdata k =
     (let (pgdir, k1) = kalloc k in
      if pgdir = 0 then Ok (0, k1)
      else let k2 = k1\<lparr>km_mem := memset pgdir 0 PGSIZE (km_mem k1)\<rparr> in
        if DEVSPACE < p2v PHYSTOP then Panic ''PHYSTOP too high''
        else setupkvm_loop pgdir (kmap kdata) k2)"

subsection \<open>User memory\<close>

text \<open>\<^verbatim>\<open>inituvm\<close> ignores the result of \<^verbatim>\<open>kalloc\<close> and of \<^verbatim>\<open>mappages\<close>.\<close>

definition inituvm :: "addr \<Rightarrow> addr \<Rightarrow> 32 word \<Rightarrow> 'a kmem_scheme \<Rightarrow> 'a kmem_scheme res" where
  "inituvm pgdir init sz k =
     (if PGSIZE \<le> sz then Panic ''inituvm: more than a page''
      else let (mem, k1) = kalloc k; k2 = k1\<lparr>km_mem := memset mem 0 PGSIZE (km_mem k1)\<rparr> in
        rbind (mappages pgdir 0 PGSIZE (v2p mem) (PTE_W OR PTE_U) k2) (\<lambda>(rc, k3).
        Ok (k3\<lparr>km_mem := memmove mem init sz (km_mem k3)\<rparr>)))"

fun deallocuvm_loop :: "nat \<Rightarrow> addr \<Rightarrow> addr \<Rightarrow> addr \<Rightarrow> 32 word \<Rightarrow> 'a kmem_scheme \<Rightarrow> 'a kmem_scheme res" where
  "deallocuvm_loop fuel kend pgdir a oldsz k =
     (if a < oldsz then
        (case fuel of 0 \<Rightarrow> Diverge
         | Suc f \<Rightarrow>
           let (pte, k1) = walkpgdir pgdir a False k in
           if pte = 0 then deallocuvm_loop f kend pgdir (a + (NPTENTRIES - 1) * PGSIZE + PGSIZE) oldsz k1
           else let e = load32 (km_mem k1) pte in
             if e AND PTE_P \<noteq> 0 then
               (if PTE_ADDR e = 0 then Panic ''kfree''
                else rbind (kfree kend (p2v (PTE_ADDR e)) k1) (\<lambda>k2.
                     deallocuvm_loop f kend pgdir (a + PGSIZE) oldsz (k2\<lparr>km_mem := store32 pte 0 (km_mem k2)\<rparr>)))
             else deallocuvm_loop f kend pgdir (a + PGSIZE) oldsz k1)
      else Ok k)"

declare deallocuvm_loop.simps [simp del]

definition deallocuvm :: "addr \<Rightarrow> addr \<Rightarrow> 32 word \<Rightarrow> 32 word \<Rightarrow> 'a kmem_scheme \<Rightarrow> (32 word \<times> 'a kmem_scheme) res" where
  "deallocuvm kend pgdir oldsz newsz k =
     (if oldsz \<le> newsz then Ok (oldsz, k)
      else rbind (deallocuvm_loop VMFUEL kend pgdir (PGROUNDUP newsz) oldsz k) (\<lambda>k1. Ok (newsz, k1)))"

text \<open>\<^verbatim>\<open>allocuvm\<close> ignores the result of \<^verbatim>\<open>mappages\<close>. The message it prints when there is no page left is not part of this state and is left out.\<close>

fun allocuvm_loop :: "nat \<Rightarrow> addr \<Rightarrow> addr \<Rightarrow> addr \<Rightarrow> 32 word \<Rightarrow> 32 word \<Rightarrow> 'a kmem_scheme \<Rightarrow> (32 word \<times> 'a kmem_scheme) res" where
  "allocuvm_loop fuel kend pgdir a oldsz newsz k =
     (if a < newsz then
        (case fuel of 0 \<Rightarrow> Diverge
         | Suc f \<Rightarrow>
           let (mem, k1) = kalloc k in
           if mem = 0 then rbind (deallocuvm kend pgdir newsz oldsz k1) (\<lambda>(_, k2). Ok (0, k2))
           else rbind (mappages pgdir a PGSIZE (v2p mem) (PTE_W OR PTE_U) (k1\<lparr>km_mem := memset mem 0 PGSIZE (km_mem k1)\<rparr>))
                  (\<lambda>(rc, k2). allocuvm_loop f kend pgdir (a + PGSIZE) oldsz newsz k2))
      else Ok (newsz, k))"

declare allocuvm_loop.simps [simp del]

definition allocuvm :: "addr \<Rightarrow> addr \<Rightarrow> 32 word \<Rightarrow> 32 word \<Rightarrow> 'a kmem_scheme \<Rightarrow> (32 word \<times> 'a kmem_scheme) res" where
  "allocuvm kend pgdir oldsz newsz k =
     (if KERNBASE \<le> newsz then Ok (0, k)
      else if newsz < oldsz then Ok (oldsz, k)
      else allocuvm_loop VMFUEL kend pgdir (PGROUNDUP oldsz) oldsz newsz k)"

definition freevm_step :: "addr \<Rightarrow> addr \<Rightarrow> nat \<Rightarrow> 'a kmem_scheme \<Rightarrow> 'a kmem_scheme res" where
  "freevm_step kend pgdir i k =
     (let e = load32 (km_mem k) (pgdir + 4 * of_nat i) in
      if e AND PTE_P \<noteq> 0 then kfree kend (p2v (PTE_ADDR e)) k else Ok k)"

definition freevm :: "addr \<Rightarrow> addr \<Rightarrow> 'a kmem_scheme \<Rightarrow> 'a kmem_scheme res" where
  "freevm kend pgdir k =
     (if pgdir = 0 then Panic ''freevm: no pgdir''
      else rbind (deallocuvm kend pgdir KERNBASE 0 k) (\<lambda>(_, k1).
           rbind (rfold (freevm_step kend pgdir) [0..<NPDENTRIES] k1) (kfree kend pgdir)))"

definition clearpteu :: "addr \<Rightarrow> addr \<Rightarrow> 'a kmem_scheme \<Rightarrow> 'a kmem_scheme res" where
  "clearpteu pgdir uva k =
     (let (pte, k1) = walkpgdir pgdir uva False k in
      if pte = 0 then Panic ''clearpteu''
      else Ok (k1\<lparr>km_mem := store32 pte (load32 (km_mem k1) pte AND NOT PTE_U) (km_mem k1)\<rparr>))"

fun copyuvm_loop :: "nat \<Rightarrow> addr \<Rightarrow> addr \<Rightarrow> addr \<Rightarrow> 32 word \<Rightarrow> 32 word \<Rightarrow> 'a kmem_scheme \<Rightarrow> (addr \<times> 'a kmem_scheme) res" where
  "copyuvm_loop fuel kend pgdir d i sz k =
     (if i < sz then
        (case fuel of 0 \<Rightarrow> Diverge
         | Suc f \<Rightarrow>
           let (pte, k1) = walkpgdir pgdir i False k in
           if pte = 0 then Panic ''copyuvm: pte should exist''
           else let e = load32 (km_mem k1) pte in
             if e AND PTE_P = 0 then Panic ''copyuvm: page not present''
             else let (mem, k2) = kalloc k1 in
               if mem = 0 then rbind (freevm kend d k2) (\<lambda>k3. Ok (0, k3))
               else rbind (mappages d i PGSIZE (v2p mem) (PTE_FLAGS e)
                            (k2\<lparr>km_mem := memmove mem (p2v (PTE_ADDR e)) PGSIZE (km_mem k2)\<rparr>)) (\<lambda>(rc, k3).
                    if rc < 0 then rbind (freevm kend d k3) (\<lambda>k4. Ok (0, k4))
                    else copyuvm_loop f kend pgdir d (i + PGSIZE) sz k3))
      else Ok (d, k))"

declare copyuvm_loop.simps [simp del]

definition copyuvm :: "addr \<Rightarrow> addr \<Rightarrow> addr \<Rightarrow> 32 word \<Rightarrow> 'a kmem_scheme \<Rightarrow> (addr \<times> 'a kmem_scheme) res" where
  "copyuvm kend kdata pgdir sz k =
     rbind (setupkvm kdata k) (\<lambda>(d, k1).
     if d = 0 then Ok (0, k1) else copyuvm_loop VMFUEL kend pgdir d 0 sz k1)"

definition uva2ka :: "addr \<Rightarrow> addr \<Rightarrow> 'a kmem_scheme \<Rightarrow> addr res" where
  "uva2ka pgdir uva k =
     (let (pte, k1) = walkpgdir pgdir uva False k in
      if pte = 0 then NullDeref
      else let e = load32 (km_mem k1) pte in
        if e AND PTE_P = 0 then Ok 0
        else if e AND PTE_U = 0 then Ok 0
        else Ok (p2v (PTE_ADDR e)))"

fun copyout_loop :: "nat \<Rightarrow> addr \<Rightarrow> addr \<Rightarrow> addr \<Rightarrow> 32 word \<Rightarrow> 'a kmem_scheme \<Rightarrow> (int \<times> 'a kmem_scheme) res" where
  "copyout_loop fuel pgdir va buf len k =
     (if 0 < len then
        (case fuel of 0 \<Rightarrow> Diverge
         | Suc f \<Rightarrow>
           let va0 = PGROUNDDOWN va in
           rbind (uva2ka pgdir va0 k) (\<lambda>pa0.
           if pa0 = 0 then Ok (-1, k)
           else let n = PGSIZE - (va - va0);
                    n' = (if len < n then len else n)
                in copyout_loop f pgdir (va0 + PGSIZE) (buf + n') (len - n')
                     (k\<lparr>km_mem := memmove (pa0 + (va - va0)) buf n' (km_mem k)\<rparr>)))
      else Ok (0, k))"

declare copyout_loop.simps [simp del]

definition copyout :: "addr \<Rightarrow> addr \<Rightarrow> addr \<Rightarrow> 32 word \<Rightarrow> 'a kmem_scheme \<Rightarrow> (int \<times> 'a kmem_scheme) res" where
  "copyout pgdir va p len k = copyout_loop VMFUEL pgdir va p len k"

definition kvmalloc :: "addr \<Rightarrow> nat \<Rightarrow> 'a kmem_scheme \<Rightarrow> 'b ptable_scheme \<Rightarrow> ('a kmem_scheme \<times> 'b ptable_scheme) res" where
  "kvmalloc kdata c k s =
     rbind (setupkvm kdata k) (\<lambda>(d, k1). Ok (k1, switchkvm c (s\<lparr>kpgdir := d\<rparr>)))"

end
