(* ===== verification/VmInv.thy ===== *)
theory VmInv
  imports Vm
begin

text \<open>
  The invariant of a page table and the effect of walking, mapping and unmapping on it.
  \<open>vm_ok kend k d fr\<close>: \<open>d\<close> is a page directory whose tables are pages of their own, none of them on the
  free list \<open>fr\<close>. \<open>pte_of\<close> is the entry for an address; walking, even when it adds a
  page table, does not change it.
\<close>

subsection \<open>Page numbers\<close>

definition pn :: "addr \<Rightarrow> nat" where "pn va = unat va div 4096"

lemma and_3ff: "unat ((x :: 32 word) AND 0x3FF) = unat x mod 1024"
proof -
  have "(0x3FF :: 32 word) = mask 10" by (simp add: mask_eq_exp_minus_1)
  then have "x AND 0x3FF = take_bit 10 x" by (simp only: take_bit_eq_mask)
  then have "unat (x AND 0x3FF) = unat (take_bit 10 x)" by (rule arg_cong)
  also have "\<dots> = unat x mod 1024" by (simp add: take_bit_eq_mod unat_mod_distrib)
  finally show ?thesis .
qed

lemma pn_less: "pn va < 1024 * 1024"
  using unat_lt [of va] by (simp add: pn_def less_mult_imp_div_less)

lemma PDX_unat: "unat (PDX va) = pn va div 1024"
proof -
  have "unat (drop_bit 22 va) = unat va div 2 ^ 22" by (simp add: drop_bit_eq_div unat_div_distrib)
  also have "\<dots> = pn va div 1024" by (simp add: pn_def div_mult2_eq [symmetric])
  finally show ?thesis using pn_less [of va] by (simp add: PDX_def and_3ff)
qed

lemma PTX_unat: "unat (PTX va) = pn va mod 1024"
proof -
  have "unat (drop_bit 12 va) = pn va" by (simp add: drop_bit_eq_div unat_div_distrib pn_def)
  then show ?thesis by (simp add: PTX_def and_3ff)
qed

lemma PDX_PTX_eq: "PDX va = PDX vb \<and> PTX va = PTX vb \<longleftrightarrow> pn va = pn vb"
  unfolding word_unat_eq_iff PDX_unat PTX_unat by (metis div_mult_mod_eq)

lemma and_not_fff: "unat ((x :: 32 word) AND NOT 0xFFF) = 4096 * (unat x div 4096)"
proof -
  have m: "(0xFFF :: 32 word) = mask 12" by (simp add: mask_eq_exp_minus_1)
  have "x AND NOT (mask 12) = push_bit 12 (drop_bit 12 x)" by (rule bit_word_eqI) (auto simp: bit_simps)
  then have "x AND NOT 0xFFF = 4096 * (x div 4096)" unfolding m by (simp add: push_bit_eq_mult drop_bit_eq_div mult.commute)
  moreover have "unat (4096 * (x div 4096)) = 4096 * (unat x div 4096)"
  proof -
    have "4096 * unat (x div 4096) = 4096 * (unat x div 4096)" by (simp add: unat_div_distrib)
    moreover have "4096 * (unat x div 4096) < 2 ^ LENGTH(32)"
      using unat_lt [of x] le_less_trans [of "4096 * (unat x div 4096)" "unat x" "2 ^ 32"] by simp
    ultimately show ?thesis by (simp add: unat_mult_lem [THEN iffD1])
  qed
  ultimately show ?thesis by (rule trans [OF arg_cong])
qed

lemma PGROUNDDOWN_unat: "unat (PGROUNDDOWN va) = 4096 * pn va"
proof -
  have "(4096 :: 32 word) - 1 = 0xFFF" by simp
  then show ?thesis unfolding PGROUNDDOWN_def PGSIZE_def pn_def by (simp only: and_not_fff)
qed

lemma PTE_ADDR_unat: "unat (PTE_ADDR e) = 4096 * (unat e div 4096)"
  unfolding PTE_ADDR_def by (rule and_not_fff)

lemma aligned_iff: "(v :: addr) mod PGSIZE = 0 \<longleftrightarrow> unat v mod 4096 = 0"
proof -
  have "unat (v mod PGSIZE) = unat v mod 4096" by (simp add: PGSIZE_def unat_mod_distrib)
  then show ?thesis by (metis unat_0 unat_eq_zero)
qed

lemma PGROUNDDOWN_aligned [simp]: "PGROUNDDOWN va mod PGSIZE = 0"
  by (simp add: aligned_iff PGROUNDDOWN_unat)

lemma PGROUNDDOWN_id:
  assumes "v mod PGSIZE = 0"
  shows "PGROUNDDOWN v = v"
  unfolding word_unat_eq_iff [of _ v] PGROUNDDOWN_unat pn_def using assms [unfolded aligned_iff] by auto

lemma p2v_v2p [simp]: "p2v (v2p a) = a" "v2p (p2v a) = a"
  by (simp_all add: p2v_def v2p_def)

text \<open>An entry made from an aligned address and flags.\<close>

lemma entry_parts:
  assumes a: "unat a mod 4096 = 0" and f: "unat f < 4096"
  shows "PTE_ADDR (a OR f OR PTE_P) = a" "(a OR f OR PTE_P) AND PTE_P \<noteq> 0"
proof -
  have m: "(0xFFF :: 32 word) = mask 12" by (simp add: mask_eq_exp_minus_1)
  have fm: "f AND NOT 0xFFF = 0" using and_not_fff [of f] f by (simp add: word_unat_eq_iff)
  have am: "a AND NOT 0xFFF = a" using and_not_fff [of a] a unfolding word_unat_eq_iff by auto
  have pm: "PTE_P AND NOT 0xFFF = 0" by (simp add: PTE_P_def)
  show "PTE_ADDR (a OR f OR PTE_P) = a"
    unfolding PTE_ADDR_def bit.conj_disj_distrib2 fm am pm by simp
  have "bit (a OR f OR PTE_P) 0" by (simp add: PTE_P_def bit_simps)
  moreover have "(a OR f OR PTE_P) AND PTE_P = of_bool (bit (a OR f OR PTE_P) 0)"
    by (simp add: PTE_P_def and_one_eq mod_2_eq_odd bit_0)
  ultimately show "(a OR f OR PTE_P) AND PTE_P \<noteq> 0" by simp
qed

subsection \<open>Entries of a page\<close>

definition ent :: "mem \<Rightarrow> addr \<Rightarrow> nat \<Rightarrow> 32 word" where
  "ent m p i = load32 m (p + 4 * of_nat i)"

lemma PDX_nat: "PDX va = of_nat (pn va div 1024)" "pn va div 1024 < 1024"
  using pn_less [of va] by (simp_all add: word_unat_eq_iff PDX_unat less_mult_imp_div_less)

lemma PTX_nat: "PTX va = of_nat (pn va mod 1024)" "pn va mod 1024 < 1024"
  by (simp_all add: word_unat_eq_iff PTX_unat)

lemma slot_off: "p + 4 * of_nat i + of_nat a = p + (of_nat (4 * i + a) :: addr)"
  by simp

lemma slot_in_page: "i < 1024 \<Longrightarrow> a < 4 \<Longrightarrow> in_page p (p + 4 * of_nat i + of_nat a)"
proof -
  assume i: "i < 1024" "a < 4"
  then have "4 * i + a < 4096" by simp
  then show ?thesis unfolding slot_off in_page_def by (simp del: of_nat_add of_nat_mult)
qed

lemma ent_cong: "i < 1024 \<Longrightarrow> (\<And>x. in_page p x \<Longrightarrow> m x = m' x) \<Longrightarrow> ent m p i = ent m' p i"
  unfolding ent_def by (intro load32_cong) (use slot_in_page in blast)

lemma store_out: "i < 1024 \<Longrightarrow> \<not> in_page p x \<Longrightarrow> store32 (p + 4 * of_nat i) w m x = m x"
proof -
  assume i: "i < 1024" and x: "\<not> in_page p x"
  have "4 \<le> unat (x - (p + 4 * of_nat i))"
  proof (rule ccontr)
    assume "\<not> 4 \<le> unat (x - (p + 4 * of_nat i))"
    then have "in_page p (p + 4 * of_nat i + of_nat (unat (x - (p + 4 * of_nat i))))" using i by (intro slot_in_page) auto
    then show False using x by simp
  qed
  then show ?thesis by (rule store32_other)
qed

lemma ent_store_same [simp]: "ent (store32 (p + 4 * of_nat i) w m) p i = w"
  by (simp add: ent_def load32_store32)

lemma ent_store_idx:
  assumes "i < 1024" "j < 1024" "i \<noteq> j"
  shows "ent (store32 (p + 4 * of_nat i) w m) p j = ent m p j"
  unfolding ent_def
proof (rule load32_store32_apart)
  have "p + 4 * of_nat i + of_nat a \<noteq> p + 4 * of_nat j + of_nat b" if "a < 4" "b < 4" for a b
  proof -
    have "4 * i + a \<noteq> 4 * j + b" using that assms(3) by presburger
    then show ?thesis unfolding slot_off using assms that by (subst off_inj) auto
  qed
  then show "apart (p + 4 * of_nat i) 4 (p + 4 * of_nat j) 4" by (simp add: apart_def)
qed

lemma ent_store_page:
  assumes "i < 1024" "j < 1024" "p mod PGSIZE = 0" "q mod PGSIZE = 0" "p \<noteq> q"
  shows "ent (store32 (p + 4 * of_nat i) w m) q j = ent m q j"
  using assms store_out pages_disjoint [of q p] by (intro ent_cong) auto

lemma memset_page: "memset v c PGSIZE m x = (if in_page v x then ucast c else m x)"
  by (simp add: memset_fill fill_def in_page_def PGSIZE_def)

lemma ent_memset_0: "i < 1024 \<Longrightarrow> ent (memset v 0 PGSIZE m) v i = 0"
proof -
  assume i: "i < 1024"
  have z: "memset v 0 PGSIZE m (v + 4 * of_nat i + of_nat a) = 0" if "a < 4" for a
    using slot_in_page [OF i that] by (simp add: memset_page)
  show ?thesis using z [of 0] z [of 1] z [of 2] z [of 3] by (simp add: ent_def load32_def)
qed

lemma ent_memset_other: "i < 1024 \<Longrightarrow> v mod PGSIZE = 0 \<Longrightarrow> w mod PGSIZE = 0 \<Longrightarrow> v \<noteq> w \<Longrightarrow> ent (memset v c PGSIZE m) w i = ent m w i"
  using pages_disjoint [of w v] by (intro ent_cong) (auto simp: memset_page)

subsection \<open>The invariant\<close>

definition present :: "mem \<Rightarrow> addr \<Rightarrow> nat \<Rightarrow> bool" where
  "present m d i \<longleftrightarrow> ent m d i AND PTE_P \<noteq> 0"

definition table_at :: "mem \<Rightarrow> addr \<Rightarrow> nat \<Rightarrow> addr" where
  "table_at m d i = p2v (PTE_ADDR (ent m d i))"

definition pte_of :: "mem \<Rightarrow> addr \<Rightarrow> addr \<Rightarrow> 32 word" where
  "pte_of m d va =
     (if present m d (pn va div 1024) then ent m (table_at m d (pn va div 1024)) (pn va mod 1024) else 0)"

definition vm_pages :: "mem \<Rightarrow> addr \<Rightarrow> addr set" where
  "vm_pages m d = insert d {table_at m d i |i. i < 1024 \<and> present m d i}"

definition vm_ok :: "addr \<Rightarrow> 'a kmem_scheme \<Rightarrow> addr \<Rightarrow> addr list \<Rightarrow> bool" where
  "vm_ok kend k d fr \<longleftrightarrow>
     KERNBASE \<le> kend \<and> freelist_ok kend k fr \<and> page_ok kend d \<and> d \<notin> set fr \<and>
     (\<forall>i < 1024. present (km_mem k) d i \<longrightarrow> page_ok kend (table_at (km_mem k) d i) \<and>
        table_at (km_mem k) d i \<notin> set fr \<and> table_at (km_mem k) d i \<noteq> d) \<and>
     (\<forall>i < 1024. \<forall>j < 1024. present (km_mem k) d i \<longrightarrow> present (km_mem k) d j \<longrightarrow>
        table_at (km_mem k) d i = table_at (km_mem k) d j \<longrightarrow> i = j)"

definition ntables :: "mem \<Rightarrow> addr \<Rightarrow> nat" where
  "ntables m d = card {i. i < 1024 \<and> present m d i}"

lemma page_ok_ge: "KERNBASE \<le> kend \<Longrightarrow> page_ok kend v \<Longrightarrow> unat KERNBASE \<le> unat v \<and> v \<noteq> 0 \<and> v mod PGSIZE = 0"
  unfolding page_ok_def by (auto simp: word_le_nat_alt KERNBASE_def)

lemma slot_nonzero: "unat KERNBASE \<le> unat v \<Longrightarrow> v mod PGSIZE = 0 \<Longrightarrow> i < 1024 \<Longrightarrow> v + 4 * of_nat i \<noteq> 0"
proof
  assume v: "unat KERNBASE \<le> unat v" "v mod PGSIZE = 0" "i < 1024" and z: "v + 4 * of_nat i = 0"
  have "in_page v (v + 4 * of_nat i + of_nat 0)" using v(3) by (intro slot_in_page) auto
  then have "in_page v 0" using z by simp
  then show False using v(1) by (simp add: in_page_iff [OF v(2)] KERNBASE_def)
qed

lemma walk_present:
  "walkpgdir d va alloc k =
     (if present (km_mem k) d (pn va div 1024)
      then (table_at (km_mem k) d (pn va div 1024) + 4 * of_nat (pn va mod 1024), k)
      else if \<not> alloc then (0, k)
      else let (pgtab, k1) = kalloc k in
        if pgtab = 0 then (0, k1)
        else (pgtab + 4 * of_nat (pn va mod 1024),
              k1\<lparr>km_mem := store32 (d + 4 * of_nat (pn va div 1024)) (v2p pgtab OR PTE_P OR PTE_W OR PTE_U)
                             (memset pgtab 0 PGSIZE (km_mem k1))\<rparr>))"
  by (cases "kalloc k") (simp add: walkpgdir_def Let_def present_def table_at_def ent_def PDX_nat PTX_nat)

lemma vm_okD:
  assumes "vm_ok kend k d fr"
  shows "freelist_ok kend k fr" "page_ok kend d" "d \<notin> set fr" "KERNBASE \<le> kend" "d mod PGSIZE = 0"
    "\<And>i. i < 1024 \<Longrightarrow> present (km_mem k) d i \<Longrightarrow> page_ok kend (table_at (km_mem k) d i) \<and>
        table_at (km_mem k) d i \<notin> set fr \<and> table_at (km_mem k) d i \<noteq> d \<and> table_at (km_mem k) d i mod PGSIZE = 0"
    "\<And>i j. i < 1024 \<Longrightarrow> j < 1024 \<Longrightarrow> present (km_mem k) d i \<Longrightarrow> present (km_mem k) d j \<Longrightarrow>
        table_at (km_mem k) d i = table_at (km_mem k) d j \<Longrightarrow> i = j"
  using assms unfolding vm_ok_def page_ok_def by auto

lemma new_entry:
  assumes "KERNBASE \<le> kend" "page_ok kend v"
  shows "p2v (PTE_ADDR (v2p v OR PTE_P OR PTE_W OR PTE_U)) = v" "(v2p v OR PTE_P OR PTE_W OR PTE_U) AND PTE_P \<noteq> 0"
proof -
  have e: "v2p v OR PTE_P OR PTE_W OR PTE_U = v2p v OR (PTE_W OR PTE_U) OR PTE_P"
    by (simp add: or.assoc or.commute or.left_commute)
  have "unat v mod 4096 = 0" "unat KERNBASE \<le> unat v" using page_ok_ge [OF assms] by (auto simp: aligned_iff)
  moreover have "unat (v2p v) = unat v - unat KERNBASE"
    using calculation(2) by (simp add: v2p_def unat_sub word_le_nat_alt)
  ultimately have a: "unat (v2p v) mod 4096 = 0" by (simp add: KERNBASE_def mod_eq_0_iff_dvd)
  have f: "unat (PTE_W OR PTE_U) < 4096" by (simp add: PTE_W_def PTE_U_def)
  show "p2v (PTE_ADDR (v2p v OR PTE_P OR PTE_W OR PTE_U)) = v" "(v2p v OR PTE_P OR PTE_W OR PTE_U) AND PTE_P \<noteq> 0"
    unfolding e entry_parts(1) [OF a f] using entry_parts(2) [OF a f] by simp_all
qed

text \<open>Adding a page table: the directory entry \<open>i\<close>, absent so far, gets the zeroed page \<open>v\<close>.\<close>

lemma add_table:
  assumes ok: "vm_ok kend k d (v # vs)" and i: "i < 1024" "\<not> present (km_mem k) d i"
  defines "k' \<equiv> k\<lparr>km_freelist := load32 (km_mem k) v,
       km_mem := store32 (d + 4 * of_nat i) (v2p v OR PTE_P OR PTE_W OR PTE_U) (memset v 0 PGSIZE (km_mem k))\<rparr>"
  shows "vm_ok kend k' d vs" "present (km_mem k') d i" "table_at (km_mem k') d i = v" "pte_of (km_mem k') d = pte_of (km_mem k) d"
    "ntables (km_mem k') d = Suc (ntables (km_mem k) d)"
    "\<And>x. \<not> in_page d x \<Longrightarrow> \<not> in_page v x \<Longrightarrow> km_mem k' x = km_mem k x" "vm_pages (km_mem k') d = insert v (vm_pages (km_mem k) d)"
proof -
  note D = vm_okD [OF ok]
  let ?m = "km_mem k" and ?m' = "km_mem k'"
  have v: "page_ok kend v" "v \<notin> set vs" "v \<noteq> 0" "v mod PGSIZE = 0" "v \<noteq> d"
    using kalloc_ok [OF D(1)] D(3) by (auto simp: page_ok_def)
  have out: "?m' x = ?m x" if "\<not> in_page d x" "\<not> in_page v x" for x
    using that store_out [OF i(1)] by (simp add: k'_def memset_page)
  then show "\<And>x. \<not> in_page d x \<Longrightarrow> \<not> in_page v x \<Longrightarrow> km_mem k' x = km_mem k x" by blast
  have ei: "ent ?m' d i = v2p v OR PTE_P OR PTE_W OR PTE_U" by (simp add: k'_def)
  have ej: "ent ?m' d j = ent ?m d j" if "j < 1024" "j \<noteq> i" for j
    using that i(1) v D(5) by (simp add: k'_def ent_store_idx ent_memset_other)
  have ev: "ent ?m' v j = 0" if "j < 1024" for j
    using that i(1) v D(5) by (simp add: k'_def ent_store_page ent_memset_0)
  have eo: "ent ?m' w j = ent ?m w j" if "j < 1024" "w \<noteq> d" "w \<noteq> v" "w mod PGSIZE = 0" for w j
    using that i(1) v D(5) by (simp add: k'_def ent_store_page ent_memset_other)
  show pi: "present ?m' d i" "table_at ?m' d i = v"
    using new_entry [OF D(4) v(1)] by (simp_all add: present_def table_at_def ei)
  have pj: "present ?m' d j = present ?m d j" "table_at ?m' d j = table_at ?m d j" if "j < 1024" "j \<noteq> i" for j
    using ej [OF that] by (simp_all add: present_def table_at_def)
  have fl: "freelist_ok kend k' vs"
  proof -
    have "freelist_ok kend (k\<lparr>km_freelist := load32 ?m v\<rparr>) vs" using kalloc_ok [OF D(1)] by simp
    moreover have "chain ?m' (load32 ?m v) vs = chain ?m (load32 ?m v) vs"
    proof (rule chain_cong)
      fix w a assume w: "w \<in> set vs" "a < (4 :: nat)"
      have "w mod PGSIZE = 0" "w \<noteq> v" "w \<noteq> d" using w D(1,3) v(2) by (auto simp: freelist_ok_def page_ok_def)
      then show "?m' (w + of_nat a) = ?m (w + of_nat a)"
        using out pages_disjoint [of w d] pages_disjoint [of w v] in_page_word [of w a] w v D(5) by auto
    qed
    ultimately show ?thesis by (simp add: freelist_ok_def k'_def)
  qed
  show "vm_ok kend k' d vs"
    unfolding vm_ok_def
  proof (intro conjI allI impI)
    fix j assume j: "j < 1024" "present ?m' d j"
    show "page_ok kend (table_at ?m' d j)" "table_at ?m' d j \<notin> set vs" "table_at ?m' d j \<noteq> d"
      using j D(6) [of j] v pi pj [of j] by (cases "j = i"; force)+
  next
    fix j l assume jl: "j < 1024" "l < 1024" "present ?m' d j" "present ?m' d l" "table_at ?m' d j = table_at ?m' d l"
    show "j = l"
    proof (cases "j = i \<or> l = i")
      case True
      then show ?thesis using jl pi(2) pj [of j] pj [of l] D(6) [of j] D(6) [of l] by (cases "j = i"; cases "l = i") auto
    next
      case False
      then show ?thesis using jl pj [of j] pj [of l] D(7) [of j l] by simp
    qed
  qed (use D fl in auto)
  show "pte_of ?m' d = pte_of ?m d"
  proof
    fix va
    let ?j = "pn va div 1024" and ?l = "pn va mod 1024"
    show "pte_of ?m' d va = pte_of ?m d va"
    proof (cases "?j = i")
      case True
      then show ?thesis using pi i ev [of ?l] PTX_nat(2) [of va] by (simp add: pte_of_def)
    next
      case False
      then show ?thesis
        using pj [OF PDX_nat(2) [of va]] D(6) [OF PDX_nat(2) [of va]] eo [OF PTX_nat(2) [of va]] by (auto simp: pte_of_def)
    qed
  qed
  have "{j. j < 1024 \<and> present ?m' d j} = insert i {j. j < 1024 \<and> present ?m d j}" using pi pj i by auto
  then show "ntables ?m' d = Suc (ntables ?m d)" using i by (simp add: ntables_def)
  show "vm_pages ?m' d = insert v (vm_pages ?m d)"
  proof -
    have "{table_at ?m' d j |j. j < 1024 \<and> present ?m' d j} = insert v {table_at ?m d j |j. j < 1024 \<and> present ?m d j}"
    proof (intro set_eqI iffI)
      fix w assume "w \<in> {table_at ?m' d j |j. j < 1024 \<and> present ?m' d j}"
      then obtain j where j: "w = table_at ?m' d j" "j < 1024" "present ?m' d j" by blast
      then show "w \<in> insert v {table_at ?m d j |j. j < 1024 \<and> present ?m d j}" using pi pj [of j] by (cases "j = i") auto
    next
      fix w assume "w \<in> insert v {table_at ?m d j |j. j < 1024 \<and> present ?m d j}"
      then consider "w = v" | j where "w = table_at ?m d j" "j < 1024" "present ?m d j" by blast
      then show "w \<in> {table_at ?m' d j |j. j < 1024 \<and> present ?m' d j}"
      proof cases
        case 1
        then show ?thesis using pi i by blast
      next
        case 2
        then have "j \<noteq> i" using i by blast
        then have "w = table_at ?m' d j" "present ?m' d j" using pj [of j] 2 by simp_all
        then show ?thesis using 2(2) by blast
      qed
    qed
    then show ?thesis by (auto simp: vm_pages_def)
  qed
qed

text \<open>Writing entry \<open>j\<close> of the page table \<open>i\<close>.\<close>

lemma set_entry:
  fixes w :: "32 word"
  assumes ok: "vm_ok kend k d fr" and i: "i < 1024" "present (km_mem k) d i" and j: "j < 1024"
  defines "k' \<equiv> k\<lparr>km_mem := store32 (table_at (km_mem k) d i + 4 * of_nat j) w (km_mem k)\<rparr>"
  shows "vm_ok kend k' d fr" "pte_of (km_mem k') d va = (if pn va = 1024 * i + j then w else pte_of (km_mem k) d va)"
    "ntables (km_mem k') d = ntables (km_mem k) d" "vm_pages (km_mem k') d = vm_pages (km_mem k) d"
    "\<And>x. \<not> in_page (table_at (km_mem k) d i) x \<Longrightarrow> km_mem k' x = km_mem k x"
    "\<And>l. l < 1024 \<Longrightarrow> present (km_mem k') d l = present (km_mem k) d l \<and> table_at (km_mem k') d l = table_at (km_mem k) d l"
proof -
  note D = vm_okD [OF ok]
  let ?m = "km_mem k" and ?m' = "km_mem k'" and ?t = "table_at (km_mem k) d i"
  have t: "page_ok kend ?t" "?t \<notin> set fr" "?t \<noteq> d" "?t mod PGSIZE = 0" using D(6) [OF i] by auto
  show out: "?m' x = ?m x" if "\<not> in_page ?t x" for x using that store_out [OF j] by (simp add: k'_def)
  have eo: "ent ?m' q l = ent ?m q l" if "l < 1024" "q \<noteq> ?t" "q mod PGSIZE = 0" for q l
    using that j t by (simp add: k'_def ent_store_page)
  have et: "ent ?m' ?t l = (if l = j then w else ent ?m ?t l)" if "l < 1024" for l
    using that j by (simp add: k'_def ent_store_idx)
  have pt: "present ?m' d l = present ?m d l" "table_at ?m' d l = table_at ?m d l" if "l < 1024" for l
    using eo [OF that _ D(5)] t by (auto simp: present_def table_at_def)
  then show "\<And>l. l < 1024 \<Longrightarrow> present ?m' d l = present ?m d l \<and> table_at ?m' d l = table_at ?m d l" by blast
  have "chain ?m' (km_freelist k) fr = chain ?m (km_freelist k) fr"
  proof (rule chain_cong)
    fix q a assume q: "q \<in> set fr" "a < (4 :: nat)"
    then have "q mod PGSIZE = 0" "q \<noteq> ?t" using D(1) t(2) by (auto simp: freelist_ok_def page_ok_def)
    then show "?m' (q + of_nat a) = ?m (q + of_nat a)"
      using out pages_disjoint [of q ?t] in_page_word [of q a] q t(4) by auto
  qed
  then have "freelist_ok kend k' fr" using D(1) by (simp add: freelist_ok_def k'_def)
  then show "vm_ok kend k' d fr" using ok pt unfolding vm_ok_def by simp
  have "{l. l < 1024 \<and> present ?m' d l} = {l. l < 1024 \<and> present ?m d l}" using pt by auto
  then show "ntables ?m' d = ntables ?m d" unfolding ntables_def by simp
  have "table_at ?m' d l = table_at ?m d l \<and> present ?m' d l = present ?m d l" if "l < 1024" for l using pt [OF that] by simp
  then have "{table_at ?m' d l |l. l < 1024 \<and> present ?m' d l} = {table_at ?m d l |l. l < 1024 \<and> present ?m d l}" by metis
  then show "vm_pages ?m' d = vm_pages ?m d" unfolding vm_pages_def by simp
  show "pte_of ?m' d va = (if pn va = 1024 * i + j then w else pte_of ?m d va)"
  proof -
    let ?i = "pn va div 1024" and ?j = "pn va mod 1024"
    have l: "?i < 1024" "?j < 1024" using PDX_nat(2) PTX_nat(2) by blast+
    have split: "pn va = 1024 * i + j \<longleftrightarrow> ?i = i \<and> ?j = j" using j by (auto simp: div_mult_mod_eq)
    show ?thesis
    proof (cases "?i = i")
      case True
      then show ?thesis using et [OF l(2)] i pt [OF i(1)] split by (simp add: pte_of_def)
    next
      case False
      have "table_at ?m d ?i \<noteq> ?t \<and> table_at ?m d ?i mod PGSIZE = 0" if "present ?m d ?i"
        using D(6) [OF l(1) that] D(7) [OF l(1) i(1) that i(2)] False by blast
      then show ?thesis using False split pt [OF l(1)] eo [OF l(2)] by (auto simp: pte_of_def)
    qed
  qed
qed

subsection \<open>Walking and mapping\<close>

lemma ntables_le: "ntables m d \<le> 1024"
proof -
  have "card {i. i < 1024 \<and> present m d i} \<le> card {..<1024 :: nat}" by (intro card_mono) auto
  then show ?thesis by (simp add: ntables_def)
qed

lemma ntables_lt: "i < 1024 \<Longrightarrow> \<not> present m d i \<Longrightarrow> ntables m d < 1024"
proof -
  assume i: "i < 1024" "\<not> present m d i"
  then have "{j. j < 1024 \<and> present m d j} \<subset> {..<1024}" by auto
  then have "card {j. j < 1024 \<and> present m d j} < card {..<1024 :: nat}" by (intro psubset_card_mono) auto
  then show ?thesis by (simp add: ntables_def)
qed

text \<open>
  \<open>vm_step k d fr k' fr' ys\<close>: from \<open>k\<close> to \<open>k'\<close> the free pages \<open>ys\<close> became page tables of \<open>d\<close>; no other page
  of memory changed.
\<close>

definition vm_step :: "addr \<Rightarrow> 'a kmem_scheme \<Rightarrow> addr \<Rightarrow> addr list \<Rightarrow> 'a kmem_scheme \<Rightarrow> addr list \<Rightarrow> bool" where
  "vm_step kend k d fr k' fr' \<longleftrightarrow>
     vm_ok kend k' d fr' \<and> (\<exists>ys. fr = ys @ fr' \<and> vm_pages (km_mem k') d = vm_pages (km_mem k) d \<union> set ys) \<and>
     ntables (km_mem k') d + length fr' = ntables (km_mem k) d + length fr \<and>
     (\<forall>x. (\<forall>v \<in> vm_pages (km_mem k) d \<union> set fr. \<not> in_page v x) \<longrightarrow> km_mem k' x = km_mem k x)"

lemma vm_step_refl: "vm_ok kend k d fr \<Longrightarrow> vm_step kend k d fr k fr"
  by (auto simp: vm_step_def)

lemma vm_step_trans:
  assumes "vm_step kend k d fr k1 fr1" "vm_step kend k1 d fr1 k2 fr2"
  shows "vm_step kend k d fr k2 fr2"
proof -
  obtain ys where ys: "fr = ys @ fr1" "vm_pages (km_mem k1) d = vm_pages (km_mem k) d \<union> set ys"
    using assms(1) by (auto simp: vm_step_def)
  obtain zs where zs: "fr1 = zs @ fr2" "vm_pages (km_mem k2) d = vm_pages (km_mem k1) d \<union> set zs"
    using assms(2) by (auto simp: vm_step_def)
  have "\<forall>x. (\<forall>v \<in> vm_pages (km_mem k) d \<union> set fr. \<not> in_page v x) \<longrightarrow> km_mem k2 x = km_mem k x"
    using assms ys zs unfolding vm_step_def by auto
  moreover have "fr = (ys @ zs) @ fr2" "vm_pages (km_mem k2) d = vm_pages (km_mem k) d \<union> set (ys @ zs)" using ys zs by auto
  moreover have "vm_ok kend k2 d fr2" "ntables (km_mem k2) d + length fr2 = ntables (km_mem k) d + length fr"
    using assms by (auto simp: vm_step_def)
  ultimately show ?thesis unfolding vm_step_def by blast
qed

lemma table_in_pages: "i < 1024 \<Longrightarrow> present m d i \<Longrightarrow> table_at m d i \<in> vm_pages m d"
  by (auto simp: vm_pages_def)

lemma pte_load: "present m d (pn va div 1024) \<Longrightarrow>
    load32 m (table_at m d (pn va div 1024) + 4 * of_nat (pn va mod 1024)) = pte_of m d va"
  by (simp add: pte_of_def ent_def)

text \<open>A walk that may allocate: it fails only when the free list is empty.\<close>

lemma walk_alloc:
  assumes ok: "vm_ok kend k d fr"
  shows "walkpgdir d va True k = (0, k) \<and> fr = [] \<and> ntables (km_mem k) d < 1024 \<or>
    (\<exists>k1 fr1. walkpgdir d va True k = (table_at (km_mem k1) d (pn va div 1024) + 4 * of_nat (pn va mod 1024), k1) \<and>
       present (km_mem k1) d (pn va div 1024) \<and> pte_of (km_mem k1) d = pte_of (km_mem k) d \<and> vm_step kend k d fr k1 fr1)"
proof (cases "present (km_mem k) d (pn va div 1024)")
  case True
  then show ?thesis using vm_step_refl [OF ok] walk_present [of d va True k] by auto
next
  case False
  note i = PDX_nat(2) [of va]
  show ?thesis
  proof (cases fr)
    case Nil
    then have "kalloc k = (0, k)" using kalloc_ok [OF vm_okD(1) [OF ok]] by simp
    then show ?thesis using False ntables_lt [OF i False] Nil walk_present [of d va True k] by simp
  next
    case (Cons v vs)
    define k1 where "k1 = k\<lparr>km_freelist := load32 (km_mem k) v,
       km_mem := store32 (d + 4 * of_nat (pn va div 1024)) (v2p v OR PTE_P OR PTE_W OR PTE_U) (memset v 0 PGSIZE (km_mem k))\<rparr>"
    note at = add_table [OF ok [unfolded Cons] i False, folded k1_def]
    have al: "kalloc k = (v, k\<lparr>km_freelist := load32 (km_mem k) v\<rparr>)" "v \<noteq> 0"
      using kalloc_ok [OF vm_okD(1) [OF ok]] Cons by auto
    then have "walkpgdir d va True k = (v + 4 * of_nat (pn va mod 1024), k1)"
      using False walk_present [of d va True k] by (simp add: k1_def)
    moreover have "vm_step kend k d fr k1 vs"
      using at unfolding vm_step_def Cons by (auto simp: vm_pages_def intro!: exI [of _ "[v]"])
    ultimately show ?thesis using at(2,3,4) by metis
  qed
qed

lemma map_one:
  assumes ok: "vm_ok kend k d fr"
  shows "walkpgdir d va True k = (0, k) \<and> fr = [] \<and> ntables (km_mem k) d < 1024 \<or>
    (\<exists>pte k1 fr1. walkpgdir d va True k = (pte, k1) \<and> pte \<noteq> 0 \<and> load32 (km_mem k1) pte = pte_of (km_mem k) d va \<and>
       vm_step kend k d fr (k1\<lparr>km_mem := store32 pte w (km_mem k1)\<rparr>) fr1 \<and>
       (\<forall>vb. pte_of (store32 pte w (km_mem k1)) d vb = (if pn vb = pn va then w else pte_of (km_mem k) d vb)))"
  using walk_alloc [OF ok, of va]
proof
  assume "\<exists>k1 fr1. walkpgdir d va True k = (table_at (km_mem k1) d (pn va div 1024) + 4 * of_nat (pn va mod 1024), k1) \<and>
       present (km_mem k1) d (pn va div 1024) \<and> pte_of (km_mem k1) d = pte_of (km_mem k) d \<and> vm_step kend k d fr k1 fr1"
  then obtain k1 fr1 where 1: "walkpgdir d va True k = (table_at (km_mem k1) d (pn va div 1024) + 4 * of_nat (pn va mod 1024), k1)"
      "present (km_mem k1) d (pn va div 1024)" "pte_of (km_mem k1) d = pte_of (km_mem k) d" "vm_step kend k d fr k1 fr1" by blast
  let ?i = "pn va div 1024" and ?j = "pn va mod 1024"
  let ?pte = "table_at (km_mem k1) d ?i + 4 * of_nat ?j"
  have ok1: "vm_ok kend k1 d fr1" using 1(4) by (simp add: vm_step_def)
  note s = set_entry [OF ok1 PDX_nat(2) 1(2) PTX_nat(2) [of va], where w = w]
  have tp: "page_ok kend (table_at (km_mem k1) d ?i)" using vm_okD(6) [OF ok1 PDX_nat(2) 1(2)] by blast
  have nz: "?pte \<noteq> 0" using page_ok_ge [OF vm_okD(4) [OF ok] tp] by (intro slot_nonzero PTX_nat(2)) auto
  have "vm_step kend k1 d fr1 (k1\<lparr>km_mem := store32 ?pte w (km_mem k1)\<rparr>) fr1"
    using s table_in_pages [OF PDX_nat(2) 1(2)] unfolding vm_step_def by simp
  from vm_step_trans [OF 1(4) this] have "vm_step kend k d fr (k1\<lparr>km_mem := store32 ?pte w (km_mem k1)\<rparr>) fr1" .
  moreover have "\<forall>vb. pte_of (store32 ?pte w (km_mem k1)) d vb = (if pn vb = pn va then w else pte_of (km_mem k) d vb)"
    using s(2) 1(3) by simp
  moreover have "load32 (km_mem k1) ?pte = pte_of (km_mem k) d va" using pte_load [OF 1(2)] 1(3) by simp
  ultimately show ?thesis using 1(1) nz by blast
qed blast

definition mapped :: "addr \<Rightarrow> nat \<Rightarrow> 32 word \<Rightarrow> 32 word \<Rightarrow> (addr \<Rightarrow> 32 word) \<Rightarrow> addr \<Rightarrow> 32 word" where
  "mapped a n pa perm f va =
     (if pn a \<le> pn va \<and> pn va \<le> pn a + n then (pa + of_nat (pn va - pn a) * PGSIZE) OR perm OR PTE_P else f va)"

lemma pn_next: "a mod PGSIZE = 0 \<Longrightarrow> pn a + 1 < 2 ^ 20 \<Longrightarrow> pn (a + PGSIZE) = pn a + 1 \<and> (a + PGSIZE) mod PGSIZE = 0"
proof -
  assume a: "a mod PGSIZE = 0" "pn a + 1 < 2 ^ 20"
  have u: "unat a = 4096 * pn a" using a(1) by (auto simp: aligned_iff pn_def)
  then have "unat (a + PGSIZE) = 4096 * (pn a + 1)" using a(2) by (simp add: unat_next_page)
  then show ?thesis by (simp add: pn_def aligned_iff)
qed

lemma aligned_eq:
  assumes "a mod PGSIZE = 0" "b mod PGSIZE = 0"
  shows "a = b \<longleftrightarrow> pn a = pn b"
  using assms [unfolded aligned_iff] unfolding word_unat_eq_iff [of a b] pn_def by auto

lemma mappages_loop_ok:
  assumes "vm_ok kend k d fr" "a mod PGSIZE = 0" "lst mod PGSIZE = 0" "pn lst = pn a + n" "n < fuel"
    "\<forall>va. pn a \<le> pn va \<and> pn va \<le> pn a + n \<longrightarrow> pte_of (km_mem k) d va AND PTE_P = 0"
  shows "\<exists>rc k' fr'. mappages_loop fuel d a lst pa perm k = Ok (rc, k') \<and> vm_step kend k d fr k' fr' \<and>
    (rc = 0 \<and> pte_of (km_mem k') d = mapped a n pa perm (pte_of (km_mem k) d) \<or>
     rc = -1 \<and> fr' = [] \<and> ntables (km_mem k') d < 1024)"
  using assms
proof (induction n arbitrary: fuel a pa k fr)
  case 0
  obtain f where f: "fuel = Suc f" using 0(5) by (cases fuel) auto
  have e: "a = lst" using aligned_eq [OF 0(2,3)] 0(4) by simp
  consider "walkpgdir d a True k = (0, k)" "fr = []" "ntables (km_mem k) d < 1024"
    | pte k1 fr1 where "walkpgdir d a True k = (pte, k1)" "pte \<noteq> 0" "load32 (km_mem k1) pte = pte_of (km_mem k) d a"
       "vm_step kend k d fr (k1\<lparr>km_mem := store32 pte (pa OR perm OR PTE_P) (km_mem k1)\<rparr>) fr1"
       "\<forall>vb. pte_of (store32 pte (pa OR perm OR PTE_P) (km_mem k1)) d vb = (if pn vb = pn a then pa OR perm OR PTE_P else pte_of (km_mem k) d vb)"
    using map_one [OF 0(1), of a "pa OR perm OR PTE_P"] by blast
  then show ?case
  proof cases
    case 1
    then have "mappages_loop fuel d a lst pa perm k = Ok (-1, k)" by (simp add: mappages_loop.simps [of "Suc f"] f)
    then show ?thesis using 1 vm_step_refl [OF 0(1)] by blast
  next
    case 2
    have "pte_of (km_mem k) d a AND PTE_P = 0" using 0(6) by simp
    then have "mappages_loop fuel d a lst pa perm k = Ok (0, k1\<lparr>km_mem := store32 pte (pa OR perm OR PTE_P) (km_mem k1)\<rparr>)"
      using 2 e by (simp add: mappages_loop.simps [of "Suc f"] f Let_def)
    moreover have "pte_of (store32 pte (pa OR perm OR PTE_P) (km_mem k1)) d = mapped a 0 pa perm (pte_of (km_mem k) d)"
      using 2(5) by (auto simp: mapped_def fun_eq_iff)
    ultimately show ?thesis using 2(4) by fastforce
  qed
next
  case (Suc n)
  obtain f where f: "fuel = Suc f" using Suc(6) by (cases fuel) auto
  let ?w = "pa OR perm OR PTE_P"
  have ne: "a \<noteq> lst" using aligned_eq [OF Suc(3,4)] Suc(5) by simp
  have nx: "pn (a + PGSIZE) = pn a + 1" "(a + PGSIZE) mod PGSIZE = 0"
    using pn_next [OF Suc(3)] pn_less [of lst] Suc(5) by auto
  consider "walkpgdir d a True k = (0, k)" "fr = []" "ntables (km_mem k) d < 1024"
    | pte k1 fr1 where "walkpgdir d a True k = (pte, k1)" "pte \<noteq> 0" "load32 (km_mem k1) pte = pte_of (km_mem k) d a"
       "vm_step kend k d fr (k1\<lparr>km_mem := store32 pte ?w (km_mem k1)\<rparr>) fr1"
       "\<forall>vb. pte_of (store32 pte ?w (km_mem k1)) d vb = (if pn vb = pn a then ?w else pte_of (km_mem k) d vb)"
    using map_one [OF Suc(2), of a ?w] by blast
  then show ?case
  proof cases
    case 1
    then have "mappages_loop fuel d a lst pa perm k = Ok (-1, k)" by (simp add: mappages_loop.simps [of "Suc f"] f)
    then show ?thesis using 1 vm_step_refl [OF Suc(2)] by blast
  next
    case 2
    let ?k2 = "k1\<lparr>km_mem := store32 pte ?w (km_mem k1)\<rparr>"
    have np: "pte_of (km_mem k) d a AND PTE_P = 0" using Suc(7) by simp
    have ok2: "vm_ok kend ?k2 d fr1" using 2(4) by (simp add: vm_step_def)
    have "\<exists>rc k' fr'. mappages_loop f d (a + PGSIZE) lst (pa + PGSIZE) perm ?k2 = Ok (rc, k') \<and> vm_step kend ?k2 d fr1 k' fr' \<and>
      (rc = 0 \<and> pte_of (km_mem k') d = mapped (a + PGSIZE) n (pa + PGSIZE) perm (pte_of (km_mem ?k2) d) \<or>
       rc = -1 \<and> fr' = [] \<and> ntables (km_mem k') d < 1024)"
      by (rule Suc.IH [OF ok2 nx(2) Suc(4)]) (use nx Suc(5,6,7) f 2(5) in auto)
    then obtain rc k' fr' where 3: "mappages_loop f d (a + PGSIZE) lst (pa + PGSIZE) perm ?k2 = Ok (rc, k')" "vm_step kend ?k2 d fr1 k' fr'"
        "rc = 0 \<and> pte_of (km_mem k') d = mapped (a + PGSIZE) n (pa + PGSIZE) perm (pte_of (km_mem ?k2) d) \<or>
         rc = -1 \<and> fr' = [] \<and> ntables (km_mem k') d < 1024" by blast
    have "mappages_loop fuel d a lst pa perm k = Ok (rc, k')"
      using 2 np ne 3(1) by (simp add: mappages_loop.simps [of "Suc f"] f Let_def)
    moreover have "mapped (a + PGSIZE) n (pa + PGSIZE) perm (pte_of (km_mem ?k2) d) = mapped a (Suc n) pa perm (pte_of (km_mem k) d)"
    proof
      fix va
      have e: "pa + PGSIZE + of_nat (pn va - Suc (pn a)) * PGSIZE = pa + of_nat (pn va - pn a) * PGSIZE" if "Suc (pn a) \<le> pn va"
      proof -
        have "pn va - pn a = Suc (pn va - Suc (pn a))" using that by simp
        then have "of_nat (pn va - pn a) = (of_nat (pn va - Suc (pn a)) + 1 :: 32 word)" by (simp only: of_nat_Suc add.commute)
        then show ?thesis by (simp only: distrib_right mult_1 add.assoc) (simp only: add.commute add.left_commute)
      qed
      show "mapped (a + PGSIZE) n (pa + PGSIZE) perm (pte_of (km_mem ?k2) d) va = mapped a (Suc n) pa perm (pte_of (km_mem k) d) va"
        using 2(5) nx(1) e by (cases "pn va = pn a") (auto simp: mapped_def add.assoc simp del: of_nat_diff)
    qed
    ultimately show ?thesis using 3(2,3) vm_step_trans [OF 2(4) 3(2)] by fastforce
  qed
qed

end
