(* ===== verification/VmOps.thy ===== *)
theory VmOps
  imports VmInv
begin

text \<open>
  What the operations of \<^verbatim>\<open>vm.c\<close> do, in terms of the entry for each address: \<^verbatim>\<open>mappages\<close> over a range,
  the kernel part of a page table, growing user memory, and copying into it.
\<close>

subsection \<open>Ranges\<close>

lemma pn_mono: "unat a \<le> unat b \<Longrightarrow> pn a \<le> pn b"
  by (simp add: pn_def div_le_mono)

lemma unat_last:
  assumes "0 < unat sz" "unat (va :: addr) + unat sz \<le> 2 ^ 32"
  shows "unat (va + sz - 1) = unat va + unat sz - 1"
proof -
  have p: "unat (sz - 1) = unat sz - 1" using assms(1) by (intro unat_minus_one) auto
  then have "unat va + unat (sz - 1) < 2 ^ LENGTH(32)" using assms by (simp only: len_num1 len_bit0) simp
  then have "unat (va + (sz - 1)) = unat va + unat (sz - 1)" by (rule unat_add_lem [THEN iffD1])
  then show ?thesis using p assms(1) by (simp add: algebra_simps)
qed

lemma mappages_ok:
  assumes ok: "vm_ok kend k d fr" and sz: "0 < unat sz" "unat va + unat sz \<le> 2 ^ 32"
    and n: "pn (va + sz - 1) = pn va + n"
    and free: "\<forall>vb. pn va \<le> pn vb \<and> pn vb \<le> pn va + n \<longrightarrow> pte_of (km_mem k) d vb AND PTE_P = 0"
  shows "\<exists>rc k' fr'. mappages d va sz pa perm k = Ok (rc, k') \<and> vm_step kend k d fr k' fr' \<and>
    (rc = 0 \<and> pte_of (km_mem k') d = mapped va n pa perm (pte_of (km_mem k) d) \<or>
     rc = -1 \<and> fr' = [] \<and> ntables (km_mem k') d < 1024)"
proof -
  have down: "pn (PGROUNDDOWN x) = pn x" for x by (simp add: pn_def PGROUNDDOWN_unat)
  have "n < VMFUEL" using n pn_less [of "va + sz - 1"] by (simp add: VMFUEL_def)
  then have "\<exists>rc k' fr'. mappages_loop VMFUEL d (PGROUNDDOWN va) (PGROUNDDOWN (va + sz - 1)) pa perm k = Ok (rc, k') \<and>
    vm_step kend k d fr k' fr' \<and>
    (rc = 0 \<and> pte_of (km_mem k') d = mapped (PGROUNDDOWN va) n pa perm (pte_of (km_mem k) d) \<or>
     rc = -1 \<and> fr' = [] \<and> ntables (km_mem k') d < 1024)"
    using n free by (intro mappages_loop_ok [OF ok]) (simp_all add: down)
  moreover have "mapped (PGROUNDDOWN va) n = mapped va n" by (intro ext) (simp add: mapped_def down)
  ultimately show ?thesis by (simp add: mappages_def)
qed

text \<open>With a free page for every page table that can still be needed, mapping succeeds.\<close>

lemma mappages_room:
  assumes "vm_ok kend k d fr" "0 < unat sz" "unat va + unat sz \<le> 2 ^ 32" "pn (va + sz - 1) = pn va + n"
    "\<forall>vb. pn va \<le> pn vb \<and> pn vb \<le> pn va + n \<longrightarrow> pte_of (km_mem k) d vb AND PTE_P = 0"
    "1024 \<le> ntables (km_mem k) d + length fr"
  shows "\<exists>k' fr'. mappages d va sz pa perm k = Ok (0, k') \<and> vm_step kend k d fr k' fr' \<and>
    pte_of (km_mem k') d = mapped va n pa perm (pte_of (km_mem k) d)"
proof -
  obtain rc k' fr' where 1: "mappages d va sz pa perm k = Ok (rc, k')" "vm_step kend k d fr k' fr'"
    "rc = 0 \<and> pte_of (km_mem k') d = mapped va n pa perm (pte_of (km_mem k) d) \<or>
     rc = -1 \<and> fr' = [] \<and> ntables (km_mem k') d < 1024"
    using mappages_ok [OF assms(1-5)] by blast
  have "\<not> (fr' = [] \<and> ntables (km_mem k') d < 1024)" using 1(2) assms(6) by (auto simp: vm_step_def)
  then show ?thesis using 1 by blast
qed

subsection \<open>The kernel's part\<close>

definition kern_pte :: "addr \<Rightarrow> addr \<Rightarrow> 32 word" where
  "kern_pte kdata va =
     (if unat KERNBASE \<le> unat va \<and> unat va < unat KERNBASE + unat PHYSTOP
      then v2p (PGROUNDDOWN va) OR (if unat KERNLINK \<le> unat va \<and> unat va < unat kdata then 0 else PTE_W) OR PTE_P
      else if unat DEVSPACE \<le> unat va then PGROUNDDOWN va OR PTE_W OR PTE_P else 0)"

lemma page_word: "pn a \<le> pn va \<Longrightarrow> a mod PGSIZE = 0 \<Longrightarrow> a + of_nat (pn va - pn a) * PGSIZE = PGROUNDDOWN va"
proof -
  assume a: "pn a \<le> pn va" "a mod PGSIZE = 0"
  have u: "unat a = 4096 * pn a" using a(2) by (auto simp: aligned_iff pn_def)
  have "unat (of_nat (pn va - pn a) * PGSIZE :: addr) = 4096 * (pn va - pn a)"
    using pn_less [of va] by (simp add: PGSIZE_def unat_word_ariths unat_of_nat take_bit_eq_mod del: of_nat_diff)
  moreover have "4096 * pn va < 2 ^ 32" using pn_less [of va] by simp
  ultimately have "unat (a + of_nat (pn va - pn a) * PGSIZE) = 4096 * pn va"
    using u a(1) by (simp add: unat_word_ariths del: of_nat_diff)
  then show ?thesis unfolding word_unat_eq_iff PGROUNDDOWN_unat .
qed

lemma empty_dir:
  assumes fl: "freelist_ok kend k (d # fr)" and kb: "KERNBASE \<le> kend"
  defines "k' \<equiv> k\<lparr>km_freelist := load32 (km_mem k) d, km_mem := memset d 0 PGSIZE (km_mem k)\<rparr>"
  shows "vm_ok kend k' d fr" "pte_of (km_mem k') d va = 0" "ntables (km_mem k') d = 0" "vm_pages (km_mem k') d = {d}"
    "\<And>x. \<not> in_page d x \<Longrightarrow> km_mem k' x = km_mem k x"
proof -
  have d: "page_ok kend d" "d \<notin> set fr" "freelist_ok kend (k\<lparr>km_freelist := load32 (km_mem k) d\<rparr>) fr" "d mod PGSIZE = 0"
    using kalloc_ok [OF fl] by (auto simp: page_ok_def)
  have np: "\<not> present (km_mem k') d i" if "i < 1024" for i
    using that by (simp add: present_def k'_def ent_memset_0)
  have "chain (km_mem k') (load32 (km_mem k) d) fr = chain (km_mem k) (load32 (km_mem k) d) fr"
  proof (rule chain_cong)
    fix w a assume w: "w \<in> set fr" "a < (4 :: nat)"
    then have "w mod PGSIZE = 0" "w \<noteq> d" using d(2) fl by (auto simp: freelist_ok_def page_ok_def)
    then show "km_mem k' (w + of_nat a) = km_mem k (w + of_nat a)"
      using pages_disjoint [of w d] in_page_word [of w a] w d(4) by (auto simp: k'_def memset_page)
  qed
  then have "freelist_ok kend k' fr" using d(3) by (simp add: freelist_ok_def k'_def)
  then show "vm_ok kend k' d fr" using d kb np by (simp add: vm_ok_def)
  show "pte_of (km_mem k') d va = 0" using np [OF PDX_nat(2)] by (simp add: pte_of_def)
  show "ntables (km_mem k') d = 0" "vm_pages (km_mem k') d = {d}" using np by (auto simp: ntables_def vm_pages_def)
  show "\<And>x. \<not> in_page d x \<Longrightarrow> km_mem k' x = km_mem k x" by (simp add: k'_def memset_page)
qed

abbreviation kme :: "addr \<Rightarrow> 32 word \<Rightarrow> 32 word \<Rightarrow> 32 word \<Rightarrow> kmap_entry" where
  "kme v ps pe perm \<equiv> \<lparr>km_virt = v, km_phys_start = ps, km_phys_end = pe, km_perm = perm\<rparr>"

lemma setup_step:
  assumes ok: "vm_ok kend k d fr" and room: "1024 \<le> ntables (km_mem k) d + length fr"
    and e: "unat v = 4096 * lo" "unat (pe - ps) = 4096 * Suc n" "lo + Suc n \<le> 2 ^ 20"
    and free: "\<And>va. lo \<le> pn va \<Longrightarrow> pn va \<le> lo + n \<Longrightarrow> pte_of (km_mem k) d va = 0"
  shows "\<exists>k' fr'. setupkvm_loop d (kme v ps pe perm # es) k = setupkvm_loop d es k' \<and> vm_step kend k d fr k' fr' \<and>
    1024 \<le> ntables (km_mem k') d + length fr' \<and>
    (\<forall>va. pte_of (km_mem k') d va = (if lo \<le> pn va \<and> pn va \<le> lo + n
        then (ps + (PGROUNDDOWN va - v)) OR perm OR PTE_P else pte_of (km_mem k) d va))"
proof -
  let ?sz = "pe - ps"
  have pv: "pn v = lo" "v mod PGSIZE = 0" using e(1) by (simp_all add: pn_def aligned_iff)
  have "unat (v + ?sz - 1) = 4096 * lo + 4096 * Suc n - 1" using e by (subst unat_last) simp_all
  then have last: "pn (v + ?sz - 1) = pn v + n" by (simp add: pn_def pv(1) [unfolded pn_def])
  have sz: "0 < unat ?sz" "unat v + unat ?sz \<le> 2 ^ 32" using e by simp_all
  have fr0: "\<forall>vb. pn v \<le> pn vb \<and> pn vb \<le> pn v + n \<longrightarrow> pte_of (km_mem k) d vb AND PTE_P = 0" using free pv by simp
  obtain k' fr' where 1: "mappages d v ?sz ps perm k = Ok (0, k')" "vm_step kend k d fr k' fr'"
      "pte_of (km_mem k') d = mapped v n ps perm (pte_of (km_mem k) d)"
    using mappages_room [OF ok sz last fr0 room] by blast
  have "ps + of_nat (pn va - lo) * PGSIZE = ps + (PGROUNDDOWN va - v)" if "lo \<le> pn va" for va
    using page_word [of v va] that pv by (simp add: algebra_simps del: of_nat_diff)
  then have "\<forall>va. pte_of (km_mem k') d va = (if lo \<le> pn va \<and> pn va \<le> lo + n
        then (ps + (PGROUNDDOWN va - v)) OR perm OR PTE_P else pte_of (km_mem k) d va)"
    unfolding 1(3) mapped_def pv(1) by simp
  moreover have "1024 \<le> ntables (km_mem k') d + length fr'" using 1(2) room by (simp add: vm_step_def)
  ultimately show ?thesis using 1(1,2) by (intro exI [of _ k'] exI [of _ fr']) simp
qed

lemma setupkvm_ok:
  assumes fl: "freelist_ok kend k (d # fr)" and kb: "KERNBASE \<le> kend" and room: "1024 \<le> length fr"
    and kd: "kdata mod PGSIZE = 0" "KERNLINK < kdata" "kdata < p2v PHYSTOP"
  shows "\<exists>k' fr'. setupkvm kdata k = Ok (d, k') \<and> vm_ok kend k' d fr' \<and> (\<forall>va. pte_of (km_mem k') d va = kern_pte kdata va) \<and>
    (\<exists>ys. fr = ys @ fr' \<and> vm_pages (km_mem k') d = insert d (set ys)) \<and> ntables (km_mem k') d + length fr' = length fr \<and>
    (\<forall>x. (\<forall>v \<in> set (d # fr). \<not> in_page v x) \<longrightarrow> km_mem k' x = km_mem k x)"
proof -
  define pk where "pk = pn kdata"
  have c: "unat KERNBASE = 4096 * 0x80000" "unat KERNLINK = 4096 * 0x80100" "unat EXTMEM = 4096 * 0x100" "unat PHYSTOP = 4096 * 0xE000"
      "unat (p2v PHYSTOP) = 4096 * 0x8E000" "unat DEVSPACE = 4096 * 0xFE000" "unat (0 - DEVSPACE) = 4096 * 0x2000"
    by (simp_all add: KERNLINK_def EXTMEM_def layout p2v_def DEVSPACE_def)
  have uk: "unat kdata = 4096 * pk" using kd(1) by (auto simp: aligned_iff pn_def pk_def)
  have pk: "0x80100 < pk" "pk < 0x8E000" using kd(2,3) c uk by (simp_all add: word_less_nat_alt)
  have s2: "unat (v2p kdata - v2p KERNLINK) = 4096 * Suc (pk - 0x80101)"
  proof -
    have "v2p kdata - v2p KERNLINK = kdata - KERNLINK" by (simp add: v2p_def)
    then show ?thesis using kd(2) pk(1) by (simp add: unat_sub word_less_nat_alt word_le_nat_alt uk c(2))
  qed
  have s3: "unat (PHYSTOP - v2p kdata) = 4096 * Suc (0x8DFFF - pk)"
  proof -
    have "PHYSTOP - v2p kdata = p2v PHYSTOP - kdata" by (simp add: v2p_def p2v_def)
    then show ?thesis using kd(3) pk(2) by (simp add: unat_sub word_less_nat_alt word_le_nat_alt uk c(5))
  qed
  define k0 where "k0 = k\<lparr>km_freelist := load32 (km_mem k) d, km_mem := memset d 0 PGSIZE (km_mem k)\<rparr>"
  note e = empty_dir [OF fl kb, folded k0_def]
  let ?W = PTE_W
  let ?m2 = "kme KERNLINK (v2p KERNLINK) (v2p kdata) 0" and ?m3 = "kme kdata (v2p kdata) PHYSTOP ?W" and ?m4 = "kme DEVSPACE DEVSPACE 0 ?W"
  have lp: "setupkvm kdata k = setupkvm_loop d (kmap kdata) k0"
  proof -
    have "kalloc k = (d, k\<lparr>km_freelist := load32 (km_mem k) d\<rparr>)" "d \<noteq> 0" using kalloc_ok [OF fl] by auto
    moreover have "\<not> DEVSPACE < p2v PHYSTOP" by (simp add: word_less_nat_alt c)
    ultimately show ?thesis by (simp add: setupkvm_def k0_def)
  qed
  have r0: "1024 \<le> ntables (km_mem k0) d + length fr" using room e(3) by simp
  have z1: "unat (EXTMEM - 0) = 4096 * Suc 0xFF" by (simp add: c)
  obtain k1 fr1 where 1: "setupkvm_loop d (kmap kdata) k0 = setupkvm_loop d [?m2, ?m3, ?m4] k1" "vm_step kend k0 d fr k1 fr1"
      "1024 \<le> ntables (km_mem k1) d + length fr1"
      "\<forall>va. pte_of (km_mem k1) d va = (if 0x80000 \<le> pn va \<and> pn va \<le> 0x80000 + 0xFF
        then (0 + (PGROUNDDOWN va - KERNBASE)) OR ?W OR PTE_P else pte_of (km_mem k0) d va)"
    using setup_step [OF e(1) r0 c(1) z1 _ e(2), where es = "[?m2, ?m3, ?m4]" and perm = ?W] unfolding kmap_def by fastforce
  have ok1: "vm_ok kend k1 d fr1" using 1(2) by (simp add: vm_step_def)
  have z2: "pte_of (km_mem k1) d va = 0" if "0x80100 \<le> pn va" for va using that 1(4) e(2) by simp
  have l2: "0x80100 + Suc (pk - 0x80101) \<le> 2 ^ 20" using pk by simp
  obtain k2 fr2 where 2: "setupkvm_loop d [?m2, ?m3, ?m4] k1 = setupkvm_loop d [?m3, ?m4] k2" "vm_step kend k1 d fr1 k2 fr2"
      "1024 \<le> ntables (km_mem k2) d + length fr2"
      "\<forall>va. pte_of (km_mem k2) d va = (if 0x80100 \<le> pn va \<and> pn va \<le> 0x80100 + (pk - 0x80101)
        then (v2p KERNLINK + (PGROUNDDOWN va - KERNLINK)) OR 0 OR PTE_P else pte_of (km_mem k1) d va)"
    using setup_step [OF ok1 1(3) c(2) s2 l2 z2, where es = "[?m3, ?m4]" and perm = 0] by blast
  have ok2: "vm_ok kend k2 d fr2" using 2(2) by (simp add: vm_step_def)
  have z3: "pte_of (km_mem k2) d va = 0" if "pk \<le> pn va" for va
  proof -
    have "\<not> pn va \<le> 0x80100 + (pk - 0x80101)" using that pk by simp
    then show ?thesis using that 2(4) z2 pk by simp
  qed
  have l3: "pk + Suc (0x8DFFF - pk) \<le> 2 ^ 20" using pk by simp
  obtain k3 fr3 where 3: "setupkvm_loop d [?m3, ?m4] k2 = setupkvm_loop d [?m4] k3" "vm_step kend k2 d fr2 k3 fr3"
      "1024 \<le> ntables (km_mem k3) d + length fr3"
      "\<forall>va. pte_of (km_mem k3) d va = (if pk \<le> pn va \<and> pn va \<le> pk + (0x8DFFF - pk)
        then (v2p kdata + (PGROUNDDOWN va - kdata)) OR ?W OR PTE_P else pte_of (km_mem k2) d va)"
    using setup_step [OF ok2 2(3) uk s3 l3 z3, where es = "[?m4]" and perm = ?W] by blast
  have ok3: "vm_ok kend k3 d fr3" using 3(2) by (simp add: vm_step_def)
  have z4: "pte_of (km_mem k3) d va = 0" if "0xFE000 \<le> pn va" for va using that 3(4) z3 pk by simp
  have s4: "unat (0 - DEVSPACE) = 4096 * Suc 0x1FFF" using c(7) by simp
  obtain k4 fr4 where 4: "setupkvm_loop d [?m4] k3 = setupkvm_loop d [] k4" "vm_step kend k3 d fr3 k4 fr4"
      "\<forall>va. pte_of (km_mem k4) d va = (if 0xFE000 \<le> pn va \<and> pn va \<le> 0xFE000 + 0x1FFF
        then (DEVSPACE + (PGROUNDDOWN va - DEVSPACE)) OR ?W OR PTE_P else pte_of (km_mem k3) d va)"
    using setup_step [OF ok3 3(3) c(6) s4 _ z4, where es = "[]" and perm = ?W] by fastforce
  have res: "setupkvm kdata k = Ok (d, k4)" using lp 1(1) 2(1) 3(1) 4(1) by simp
  have pnu: "4096 * q \<le> unat va \<longleftrightarrow> q \<le> pn va" "unat va < 4096 * q \<longleftrightarrow> pn va < q" for q va
    by (auto simp: pn_def less_eq_div_iff_mult_less_eq div_less_iff_less_mult mult.commute)
  have "pte_of (km_mem k4) d va = kern_pte kdata va" for va
  proof -
    have "unat KERNBASE + unat PHYSTOP = 4096 * 0x8E000" by (simp add: c)
    then have kp: "kern_pte kdata va = (if 0x80000 \<le> pn va \<and> pn va < 0x8E000
        then v2p (PGROUNDDOWN va) OR (if 0x80100 \<le> pn va \<and> pn va < pk then 0 else ?W) OR PTE_P
        else if 0xFE000 \<le> pn va then PGROUNDDOWN va OR ?W OR PTE_P else 0)"
      unfolding kern_pte_def by (simp only: c(1,2,6) uk pnu)
    have top: "pn va < 0x100000" using pn_less [of va] by simp
    have v: "v2p b + (PGROUNDDOWN va - b) = v2p (PGROUNDDOWN va)" "0 + (PGROUNDDOWN va - KERNBASE) = v2p (PGROUNDDOWN va)"
      "DEVSPACE + (PGROUNDDOWN va - DEVSPACE) = PGROUNDDOWN va" for b
      by (simp_all add: v2p_def)
    have c2: "pn va \<le> 0x80100 + (pk - 0x80101) \<longleftrightarrow> pn va < pk" "pn va \<le> pk + (0x8DFFF - pk) \<longleftrightarrow> pn va < 0x8E000"
      "pn va \<le> 0xFE000 + 0x1FFF \<longleftrightarrow> True" "pn va \<le> 0x80000 + 0xFF \<longleftrightarrow> pn va < 0x80100"
      using pk top by auto
    have p: "pte_of (km_mem k4) d va = (if 0xFE000 \<le> pn va \<and> True then PGROUNDDOWN va OR ?W OR PTE_P
        else if pk \<le> pn va \<and> pn va < 0x8E000 then v2p (PGROUNDDOWN va) OR ?W OR PTE_P
        else if 0x80100 \<le> pn va \<and> pn va < pk then v2p (PGROUNDDOWN va) OR 0 OR PTE_P
        else if 0x80000 \<le> pn va \<and> pn va < 0x80100 then v2p (PGROUNDDOWN va) OR ?W OR PTE_P else 0)"
      by (simp only: spec [OF 4(3)] spec [OF 3(4)] spec [OF 2(4)] spec [OF 1(4)] e(2) v c2)
    consider "pn va < 0x80000" | "0x80000 \<le> pn va" "pn va < 0x80100" | "0x80100 \<le> pn va" "pn va < pk"
      | "pk \<le> pn va" "pn va < 0x8E000" | "0x8E000 \<le> pn va" "pn va < 0xFE000" | "0xFE000 \<le> pn va" by linarith
    then show ?thesis unfolding kp p by cases (use pk in simp_all)
  qed
  moreover have "vm_step kend k0 d fr k4 fr4" using 1(2) 2(2) 3(2) 4(2) by (blast intro: vm_step_trans)
  ultimately show ?thesis using res e(3-5) unfolding vm_step_def by (intro exI [of _ k4] exI [of _ fr4]) auto
qed

subsection \<open>User memory\<close>

text \<open>
  \<open>umap_ok\<close>: every present user page is a page of its own, neither free nor part of the page table.
  \<open>ubyte m d va\<close> is the byte a user program reads at \<open>va\<close>.
\<close>

definition upresent :: "mem \<Rightarrow> addr \<Rightarrow> addr \<Rightarrow> bool" where
  "upresent m d va \<longleftrightarrow> pn va < 0x80000 \<and> pte_of m d va AND PTE_P \<noteq> 0"

definition upage :: "mem \<Rightarrow> addr \<Rightarrow> addr \<Rightarrow> addr" where
  "upage m d va = p2v (PTE_ADDR (pte_of m d va))"

definition ubyte :: "mem \<Rightarrow> addr \<Rightarrow> addr \<Rightarrow> byte" where
  "ubyte m d va = m (upage m d va + (va - PGROUNDDOWN va))"

definition umap_ok :: "addr \<Rightarrow> 'a kmem_scheme \<Rightarrow> addr \<Rightarrow> addr list \<Rightarrow> bool" where
  "umap_ok kend k d fr \<longleftrightarrow>
     vm_ok kend k d fr \<and>
     (\<forall>va. upresent (km_mem k) d va \<longrightarrow> page_ok kend (upage (km_mem k) d va) \<and> upage (km_mem k) d va \<notin> set fr \<and>
        upage (km_mem k) d va \<notin> vm_pages (km_mem k) d) \<and>
     (\<forall>va vb. upresent (km_mem k) d va \<longrightarrow> upresent (km_mem k) d vb \<longrightarrow>
        upage (km_mem k) d va = upage (km_mem k) d vb \<longrightarrow> pn va = pn vb)"

lemma umap_okD:
  assumes "umap_ok kend k d fr"
  shows "vm_ok kend k d fr"
    "\<And>va. upresent (km_mem k) d va \<Longrightarrow> page_ok kend (upage (km_mem k) d va) \<and> upage (km_mem k) d va \<notin> set fr \<and>
        upage (km_mem k) d va \<notin> vm_pages (km_mem k) d \<and> upage (km_mem k) d va mod PGSIZE = 0"
    "\<And>va vb. upresent (km_mem k) d va \<Longrightarrow> upresent (km_mem k) d vb \<Longrightarrow>
        upage (km_mem k) d va = upage (km_mem k) d vb \<Longrightarrow> pn va = pn vb"
  using assms unfolding umap_ok_def page_ok_def by blast+

lemma page_off: "in_page v (v + (va - PGROUNDDOWN va))"
proof -
  have "unat (PGROUNDDOWN va) \<le> unat va" by (simp add: PGROUNDDOWN_unat pn_def)
  then have "unat (va - PGROUNDDOWN va) = unat va - 4096 * pn va"
    by (simp add: unat_sub word_le_nat_alt PGROUNDDOWN_unat)
  also have "\<dots> = unat va mod 4096" by (simp add: pn_def minus_mult_div_eq_mod)
  finally show ?thesis by (simp add: in_page_def)
qed

lemma vm_frame:
  assumes ok: "vm_ok kend k d fr" and m': "\<And>x. \<not> in_page v x \<Longrightarrow> m' x = km_mem k x"
    and v: "v mod PGSIZE = 0" "v \<notin> vm_pages (km_mem k) d" "v \<notin> set fr"
  shows "vm_ok kend (k\<lparr>km_mem := m'\<rparr>) d fr" "pte_of m' d = pte_of (km_mem k) d" "ntables m' d = ntables (km_mem k) d"
    "vm_pages m' d = vm_pages (km_mem k) d"
proof -
  note D = vm_okD [OF ok]
  let ?m = "km_mem k"
  have eo: "ent m' w i = ent ?m w i" if "w mod PGSIZE = 0" "w \<noteq> v" "i < 1024" for w i
    using pages_disjoint [OF that(1) v(1) that(2)] m' by (intro ent_cong [OF that(3)]) blast
  have dv: "d \<noteq> v" using v(2) by (auto simp: vm_pages_def)
  have pt: "present m' d i = present ?m d i" "table_at m' d i = table_at ?m d i" if "i < 1024" for i
    using eo [OF D(5) dv that] by (simp_all add: present_def table_at_def)
  have "chain m' (km_freelist k) fr = chain ?m (km_freelist k) fr"
  proof (rule chain_cong)
    fix w a assume w: "w \<in> set fr" "a < (4 :: nat)"
    then have "w mod PGSIZE = 0" "w \<noteq> v" using v(3) D(1) by (auto simp: freelist_ok_def page_ok_def)
    then show "m' (w + of_nat a) = ?m (w + of_nat a)"
      using pages_disjoint [of w v] in_page_word [of w a] w v(1) m' by auto
  qed
  then have "freelist_ok kend (k\<lparr>km_mem := m'\<rparr>) fr" using D(1) by (simp add: freelist_ok_def)
  then show "vm_ok kend (k\<lparr>km_mem := m'\<rparr>) d fr" using ok pt by (simp add: vm_ok_def)
  have "{i. i < 1024 \<and> present m' d i} = {i. i < 1024 \<and> present ?m d i}" using pt by auto
  then show "ntables m' d = ntables ?m d" by (simp add: ntables_def)
  have "table_at m' d i = table_at ?m d i \<and> present m' d i = present ?m d i" if "i < 1024" for i using pt [OF that] by simp
  then have "{table_at m' d i |i. i < 1024 \<and> present m' d i} = {table_at ?m d i |i. i < 1024 \<and> present ?m d i}" by metis
  then show "vm_pages m' d = vm_pages ?m d" by (simp add: vm_pages_def)
  show "pte_of m' d = pte_of ?m d"
  proof
    fix va
    have "ent m' (table_at ?m d (pn va div 1024)) (pn va mod 1024) = ent ?m (table_at ?m d (pn va div 1024)) (pn va mod 1024)"
      if p: "present ?m d (pn va div 1024)"
    proof (rule eo)
      show "table_at ?m d (pn va div 1024) mod PGSIZE = 0" using D(6) [OF PDX_nat(2) p] by blast
      show "table_at ?m d (pn va div 1024) \<noteq> v" using table_in_pages [OF PDX_nat(2) p] v(2) by blast
    qed simp
    then show "pte_of m' d va = pte_of ?m d va" using pt [OF PDX_nat(2) [of va]] by (simp add: pte_of_def)
  qed
qed

lemma pop_page:
  assumes ok: "vm_ok kend k d (v # vs)"
  shows "vm_ok kend (k\<lparr>km_freelist := load32 (km_mem k) v\<rparr>) d vs" "kalloc k = (v, k\<lparr>km_freelist := load32 (km_mem k) v\<rparr>)" "v \<noteq> 0"
    "page_ok kend v" "v mod PGSIZE = 0" "v \<notin> vm_pages (km_mem k) d" "v \<notin> set vs"
proof -
  note D = vm_okD [OF ok]
  show "v \<notin> vm_pages (km_mem k) d" using D(3,6) by (auto simp: vm_pages_def)
  show "vm_ok kend (k\<lparr>km_freelist := load32 (km_mem k) v\<rparr>) d vs" using kalloc_ok [OF D(1)] ok by (simp add: vm_ok_def)
qed (use kalloc_ok [OF vm_okD(1) [OF ok]] in \<open>auto simp: page_ok_def\<close>)

lemma vm_page_aligned:
  assumes ok: "vm_ok kend k d fr"
  shows "w \<in> vm_pages (km_mem k) d \<Longrightarrow> w mod PGSIZE = 0" "w \<in> set fr \<Longrightarrow> w mod PGSIZE = 0"
proof -
  show "w mod PGSIZE = 0" if "w \<in> set fr" using that vm_okD(1) [OF ok] unfolding freelist_ok_def page_ok_def by blast
  show "w mod PGSIZE = 0" if w: "w \<in> vm_pages (km_mem k) d"
  proof -
    consider "w = d" | i where "w = table_at (km_mem k) d i" "i < 1024" "present (km_mem k) d i"
      using w unfolding vm_pages_def by blast
    then show ?thesis by cases (use vm_okD(5,6) [OF ok] in blast)+
  qed
qed

lemma flags_entry: "unat a mod 4096 = 0 \<Longrightarrow> unat f < 4096 \<Longrightarrow> PTE_FLAGS (a OR f OR PTE_P) = f OR PTE_P"
proof -
  assume a: "unat a mod 4096 = 0" and f: "unat f < 4096"
  have m: "(0xFFF :: 32 word) = mask 12" by (simp add: mask_eq_exp_minus_1)
  have "a AND 0xFFF = 0" unfolding m using a by (simp add: take_bit_eq_mod word_unat_eq_iff unat_mod_distrib flip: take_bit_eq_mask)
  moreover have "f AND 0xFFF = f" unfolding m using f by (simp add: take_bit_eq_mod word_unat_eq_iff unat_mod_distrib flip: take_bit_eq_mask)
  moreover have "PTE_P AND 0xFFF = PTE_P" by (simp add: PTE_P_def)
  ultimately show ?thesis unfolding PTE_FLAGS_def bit.conj_disj_distrib2 by simp
qed

lemma page_entry:
  assumes "KERNBASE \<le> kend" "page_ok kend v" "unat f < 4096"
  shows "p2v (PTE_ADDR (v2p v OR f OR PTE_P)) = v" "(v2p v OR f OR PTE_P) AND PTE_P \<noteq> 0"
    "PTE_FLAGS (v2p v OR f OR PTE_P) = f OR PTE_P"
proof -
  have "unat v mod 4096 = 0" "unat KERNBASE \<le> unat v" using page_ok_ge [OF assms(1,2)] by (auto simp: aligned_iff)
  moreover have "unat (v2p v) = unat v - unat KERNBASE"
    using calculation(2) by (simp add: v2p_def unat_sub word_le_nat_alt)
  ultimately have a: "unat (v2p v) mod 4096 = 0" by (simp add: KERNBASE_def mod_eq_0_iff_dvd)
  show "p2v (PTE_ADDR (v2p v OR f OR PTE_P)) = v" "(v2p v OR f OR PTE_P) AND PTE_P \<noteq> 0"
    unfolding entry_parts(1) [OF a assms(3)] using entry_parts(2) [OF a assms(3)] by simp_all
  show "PTE_FLAGS (v2p v OR f OR PTE_P) = f OR PTE_P" by (rule flags_entry [OF a assms(3)])
qed

text \<open>Mapping one fresh page \<open>v\<close>, filled by the caller, at the user address \<open>a\<close>.\<close>

lemma map_page:
  assumes ok: "umap_ok kend k d (v # vs)" and room: "1024 \<le> ntables (km_mem k) d + length vs"
    and a: "a mod PGSIZE = 0" "pn a < 0x80000" "pte_of (km_mem k) d a AND PTE_P = 0"
    and f: "unat f < 4096" and m1: "\<And>x. \<not> in_page v x \<Longrightarrow> m1 x = km_mem k x"
  defines "k1 \<equiv> k\<lparr>km_freelist := load32 (km_mem k) v, km_mem := m1\<rparr>"
  shows "\<exists>k2 fr2. mappages d a PGSIZE (v2p v) f k1 = Ok (0, k2) \<and> umap_ok kend k2 d fr2 \<and>
    ntables (km_mem k2) d + length fr2 = ntables (km_mem k) d + length vs \<and>
    (\<forall>vb. pte_of (km_mem k2) d vb = (if pn vb = pn a then v2p v OR f OR PTE_P else pte_of (km_mem k) d vb)) \<and>
    (\<forall>x. in_page v x \<longrightarrow> km_mem k2 x = m1 x) \<and>
    (\<forall>x. (\<forall>w \<in> vm_pages (km_mem k) d \<union> set (v # vs). \<not> in_page w x) \<longrightarrow> km_mem k2 x = km_mem k x) \<and>
    (\<exists>ys. vs = ys @ fr2 \<and> vm_pages (km_mem k2) d = vm_pages (km_mem k) d \<union> set ys)"
proof -
  note D = umap_okD [OF ok]
  note pp = pop_page [OF D(1)]
  let ?kp = "k\<lparr>km_freelist := load32 (km_mem k) v\<rparr>" and ?e = "v2p v OR f OR PTE_P"
  have fm: "m1 x = km_mem ?kp x" if "\<not> in_page v x" for x using m1 [OF that] by simp
  have vkp: "v \<notin> vm_pages (km_mem ?kp) d" using pp(6) by simp
  note fr = vm_frame [OF pp(1) fm pp(5) vkp pp(7)]
  have k1: "?kp\<lparr>km_mem := m1\<rparr> = k1" by (simp add: k1_def)
  have ok1: "vm_ok kend k1 d vs" "pte_of (km_mem k1) d = pte_of (km_mem k) d" "ntables (km_mem k1) d = ntables (km_mem k) d"
      "vm_pages (km_mem k1) d = vm_pages (km_mem k) d"
    using fr unfolding k1 by (simp_all add: k1_def)
  have ua: "unat a = 4096 * pn a" using a(1) by (auto simp: aligned_iff pn_def)
  have "unat (a + PGSIZE - 1) = 4096 * pn a + 4095" using ua a(2) by (subst unat_last) (simp_all add: PGSIZE_def)
  then have last: "pn (a + PGSIZE - 1) = pn a + 0" by (simp add: pn_def)
  have r1: "1024 \<le> ntables (km_mem k1) d + length vs" using room ok1(3) by simp
  have sz: "0 < unat PGSIZE" "unat a + unat PGSIZE \<le> 2 ^ 32" using ua a(2) by (simp_all add: PGSIZE_def)
  have "\<forall>vb. pn a \<le> pn vb \<and> pn vb \<le> pn a + 0 \<longrightarrow> pte_of (km_mem k1) d vb AND PTE_P = 0"
    using a(3) ok1(2) by (auto simp: pte_of_def)
  from mappages_room [OF ok1(1) sz last this r1] obtain k2 fr2 where
    2: "mappages d a PGSIZE (v2p v) f k1 = Ok (0, k2)" "vm_step kend k1 d vs k2 fr2"
       "pte_of (km_mem k2) d = mapped a 0 (v2p v) f (pte_of (km_mem k1) d)" by blast
  have pte: "pte_of (km_mem k2) d vb = (if pn vb = pn a then ?e else pte_of (km_mem k) d vb)" for vb
    by (auto simp: 2(3) mapped_def ok1(2))
  obtain ys where ys: "vs = ys @ fr2" "vm_pages (km_mem k2) d = vm_pages (km_mem k) d \<union> set ys"
    and ok2: "vm_ok kend k2 d fr2" and nt: "ntables (km_mem k2) d + length fr2 = ntables (km_mem k) d + length vs"
    and fr2: "\<forall>x. (\<forall>w \<in> vm_pages (km_mem k) d \<union> set vs. \<not> in_page w x) \<longrightarrow> km_mem k2 x = km_mem k1 x"
    using 2(2) ok1(3,4) by (auto simp: vm_step_def)
  have pgs: "w mod PGSIZE = 0" if "w \<in> vm_pages (km_mem k) d \<union> set vs" for w
    using that vm_page_aligned [OF D(1)] by auto
  have cont: "km_mem k2 x = m1 x" if "in_page v x" for x
  proof -
    have "\<not> in_page w x" if "w \<in> vm_pages (km_mem k) d \<union> set vs" for w
      using pages_disjoint [OF pp(5) pgs [OF that] _ \<open>in_page v x\<close>] that pp(6,7) by blast
    then show ?thesis using fr2 that by (simp add: k1_def)
  qed
  have keep: "km_mem k2 x = km_mem k x" if "\<forall>w \<in> vm_pages (km_mem k) d \<union> set (v # vs). \<not> in_page w x" for x
    using that fr2 m1 [of x] by (simp add: k1_def)
  have ent: "p2v (PTE_ADDR ?e) = v" "?e AND PTE_P \<noteq> 0" using page_entry [OF vm_okD(4) [OF D(1)] pp(4) f] by auto
  have pres: "upresent (km_mem k2) d vb \<longleftrightarrow> pn vb = pn a \<or> upresent (km_mem k) d vb" for vb
    using a(2) ent(2) by (auto simp: upresent_def pte)
  have pg: "upage (km_mem k2) d vb = (if pn vb = pn a then v else upage (km_mem k) d vb)" for vb
    using ent(1) by (simp add: upage_def pte)
  have nv: "upage (km_mem k) d vb \<noteq> v" if "upresent (km_mem k) d vb" for vb using D(2) [OF that] by auto
  have "umap_ok kend k2 d fr2"
    unfolding umap_ok_def
  proof (intro conjI allI impI)
    fix vb assume vb: "upresent (km_mem k2) d vb"
    show "page_ok kend (upage (km_mem k2) d vb)" "upage (km_mem k2) d vb \<notin> set fr2" "upage (km_mem k2) d vb \<notin> vm_pages (km_mem k2) d"
      using vb D(2) [of vb] pp(4,6,7) ys by (auto simp: pg pres)
  next
    fix va vb assume h: "upresent (km_mem k2) d va" "upresent (km_mem k2) d vb" "upage (km_mem k2) d va = upage (km_mem k2) d vb"
    then show "pn va = pn vb" using D(3) [of va vb] nv [of va] nv [of vb] unfolding pres pg by (auto split: if_splits)
  qed (rule ok2)
  then show ?thesis using 2(1) nt pte cont keep ys by blast
qed

text \<open>
  Extending the user part of a page table by the pages \<open>lo\<close> to \<open>hi - 1\<close>: for each address there, its
  entry and its byte satisfy \<open>R\<close>; the old memory keeps its mappings and contents. In growing, the new pages are writable and read as zero.
\<close>

definition extended :: "(addr \<Rightarrow> 32 word \<Rightarrow> byte \<Rightarrow> bool) \<Rightarrow> mem \<Rightarrow> mem \<Rightarrow> addr \<Rightarrow> nat \<Rightarrow> nat \<Rightarrow> bool" where
  "extended R m m' d lo hi \<longleftrightarrow>
     (\<forall>va. lo \<le> pn va \<and> pn va < hi \<longrightarrow> upresent m' d va \<and> R va (pte_of m' d va) (ubyte m' d va)) \<and>
     (\<forall>va. \<not> (lo \<le> pn va \<and> pn va < hi) \<longrightarrow> pte_of m' d va = pte_of m d va) \<and>
     (\<forall>va. \<not> (lo \<le> pn va \<and> pn va < hi) \<longrightarrow> upresent m d va \<longrightarrow> ubyte m' d va = ubyte m d va)"

definition grown :: "mem \<Rightarrow> mem \<Rightarrow> addr \<Rightarrow> nat \<Rightarrow> nat \<Rightarrow> bool" where
  "grown = extended (\<lambda>va e b. PTE_FLAGS e = PTE_W OR PTE_U OR PTE_P \<and> b = 0)"

lemma extended_refl: "extended R m m d lo lo"
  by (auto simp: extended_def)

lemmas grown_refl = extended_refl [where R = "\<lambda>va e b. PTE_FLAGS e = PTE_W OR PTE_U OR PTE_P \<and> b = 0", folded grown_def]

lemma upage_cong: "pte_of m' d va = pte_of m d va \<Longrightarrow> upage m' d va = upage m d va \<and> upresent m' d va = upresent m d va"
  by (simp add: upage_def upresent_def)

lemma extended_trans:
  assumes 1: "extended R m m1 d lo mid" and 2: "extended R m1 m2 d mid hi" and le: "lo \<le> mid" "mid \<le> hi"
  shows "extended R m m2 d lo hi"
  unfolding extended_def
proof (intro conjI allI impI)
  fix va
  note g1 = 1 [unfolded extended_def] and g2 = 2 [unfolded extended_def]
  {
    assume r: "lo \<le> pn va \<and> pn va < hi"
    have "upresent m2 d va \<and> R va (pte_of m2 d va) (ubyte m2 d va)"
    proof (cases "pn va < mid")
      case True
      then have "upresent m1 d va" "R va (pte_of m1 d va) (ubyte m1 d va)" using r g1 by blast+
      moreover have "pte_of m2 d va = pte_of m1 d va" "ubyte m2 d va = ubyte m1 d va" using True g2 calculation(1) by auto
      ultimately show ?thesis using upage_cong [of m2 d va m1] by simp
    next
      case False
      then show ?thesis using r g2 by auto
    qed
    then show "upresent m2 d va" "R va (pte_of m2 d va) (ubyte m2 d va)" by auto
  next
    assume r: "\<not> (lo \<le> pn va \<and> pn va < hi)"
    then have n: "\<not> (lo \<le> pn va \<and> pn va < mid)" "\<not> (mid \<le> pn va \<and> pn va < hi)" using le by auto
    then show "pte_of m2 d va = pte_of m d va" using g1 g2 by auto
    assume "upresent m d va"
    moreover have "upresent m1 d va" using calculation n g1 upage_cong [of m1 d va m] by auto
    ultimately show "ubyte m2 d va = ubyte m d va" using n g1 g2 by auto
  }
qed

lemmas grown_trans = extended_trans [where R = "\<lambda>va e b. PTE_FLAGS e = PTE_W OR PTE_U OR PTE_P \<and> b = 0", folded grown_def]

lemma map_page_extended:
  assumes ok: "umap_ok kend k d (v # vs)" and room: "1024 \<le> ntables (km_mem k) d + length vs"
    and a: "a mod PGSIZE = 0" "pn a < 0x80000" "pte_of (km_mem k) d a AND PTE_P = 0"
    and f: "unat f < 4096" and m1: "\<And>x. \<not> in_page v x \<Longrightarrow> m1 x = km_mem k x"
    and R: "\<And>va. pn va = pn a \<Longrightarrow> R va (v2p v OR f OR PTE_P) (m1 (v + (va - PGROUNDDOWN va)))"
  shows "\<exists>k2 fr2. mappages d a PGSIZE (v2p v) f (k\<lparr>km_freelist := load32 (km_mem k) v, km_mem := m1\<rparr>) = Ok (0, k2) \<and> umap_ok kend k2 d fr2 \<and>
    ntables (km_mem k2) d + length fr2 = ntables (km_mem k) d + length vs \<and> extended R (km_mem k) (km_mem k2) d (pn a) (Suc (pn a)) \<and>
    (\<forall>x. (\<forall>w \<in> vm_pages (km_mem k) d \<union> set (v # vs). \<not> in_page w x) \<longrightarrow> km_mem k2 x = km_mem k x) \<and>
    (\<exists>ys. vs = ys @ fr2 \<and> vm_pages (km_mem k2) d = vm_pages (km_mem k) d \<union> set ys)"
proof -
  let ?k1 = "k\<lparr>km_freelist := load32 (km_mem k) v, km_mem := m1\<rparr>"
  obtain k2 fr2 ys where 1: "mappages d a PGSIZE (v2p v) f ?k1 = Ok (0, k2)" "umap_ok kend k2 d fr2"
    "ntables (km_mem k2) d + length fr2 = ntables (km_mem k) d + length vs"
    and pte: "\<forall>vb. pte_of (km_mem k2) d vb = (if pn vb = pn a then v2p v OR f OR PTE_P else pte_of (km_mem k) d vb)"
    and cont: "\<forall>x. in_page v x \<longrightarrow> km_mem k2 x = m1 x"
    and keep: "\<forall>x. (\<forall>w \<in> vm_pages (km_mem k) d \<union> set (v # vs). \<not> in_page w x) \<longrightarrow> km_mem k2 x = km_mem k x"
    and ys: "vs = ys @ fr2" "vm_pages (km_mem k2) d = vm_pages (km_mem k) d \<union> set ys"
    using map_page [OF ok room a f m1] by blast
  note D = umap_okD [OF ok] and pp = pop_page [OF umap_okD(1) [OF ok]]
  note ent = page_entry [OF vm_okD(4) [OF D(1)] pp(4) f]
  have "ubyte (km_mem k2) d va = ubyte (km_mem k) d va" if p: "upresent (km_mem k) d va" and ne: "pn va \<noteq> pn a" for va
  proof -
    let ?x = "upage (km_mem k) d va + (va - PGROUNDDOWN va)"
    have "\<not> in_page w ?x" if w: "w \<in> vm_pages (km_mem k) d \<union> set (v # vs)" for w
    proof -
      have ne: "upage (km_mem k) d va \<noteq> w" using w D(2) [OF p] by blast
      have al: "w mod PGSIZE = 0" using w vm_page_aligned [OF D(1)] by blast
      have "upage (km_mem k) d va mod PGSIZE = 0" using D(2) [OF p] by (elim conjE)
      then show ?thesis by (rule pages_disjoint [OF _ al ne page_off])
    qed
    then have "km_mem k2 ?x = km_mem k ?x" using keep by blast
    moreover have "upage (km_mem k2) d va = upage (km_mem k) d va" using pte ne by (simp add: upage_def)
    ultimately show ?thesis by (simp add: ubyte_def)
  qed
  moreover have "upresent (km_mem k2) d va \<and> R va (pte_of (km_mem k2) d va) (ubyte (km_mem k2) d va)" if "pn va = pn a" for va
    using that pte cont ent a(2) page_off [of v va] R [OF that] by (simp add: upresent_def ubyte_def upage_def)
  ultimately have "extended R (km_mem k) (km_mem k2) d (pn a) (Suc (pn a))" unfolding extended_def using pte by (auto simp: less_Suc_eq_le)
  then show ?thesis using 1 keep ys by blast
qed

lemma alloc_page_grown:
  assumes ok: "umap_ok kend k d (v # vs)" and room: "1024 \<le> ntables (km_mem k) d + length vs"
    and a: "a mod PGSIZE = 0" "pn a < 0x80000" "pte_of (km_mem k) d a AND PTE_P = 0"
  shows "\<exists>k2 fr2. mappages d a PGSIZE (v2p v) (PTE_W OR PTE_U)
      (k\<lparr>km_freelist := load32 (km_mem k) v, km_mem := memset v 0 PGSIZE (km_mem k)\<rparr>) = Ok (0, k2) \<and> umap_ok kend k2 d fr2 \<and>
    ntables (km_mem k2) d + length fr2 = ntables (km_mem k) d + length vs \<and> grown (km_mem k) (km_mem k2) d (pn a) (Suc (pn a))"
proof -
  note pp = pop_page [OF umap_okD(1) [OF ok]]
  have f: "unat (PTE_W OR PTE_U) < 4096" by (simp add: PTE_W_def PTE_U_def)
  have "PTE_FLAGS (v2p v OR (PTE_W OR PTE_U) OR PTE_P) = PTE_W OR PTE_U OR PTE_P"
    using page_entry(3) [OF vm_okD(4) [OF umap_okD(1) [OF ok]] pp(4) f] by (simp add: or.assoc)
  then show ?thesis
    using map_page_extended [OF ok room a f, of "memset v 0 PGSIZE (km_mem k)" "\<lambda>va e b. PTE_FLAGS e = PTE_W OR PTE_U OR PTE_P \<and> b = 0"]
      page_off unfolding grown_def by (simp add: memset_page) blast
qed

lemma allocuvm_loop_ok:
  assumes "umap_ok kend k d fr" "a mod PGSIZE = 0" "pn a + n \<le> 0x80000" "n = 0 \<or> 4096 * (pn a + n) < unat newsz + 4096"
    "unat newsz \<le> 4096 * (pn a + n)" "n + 1024 \<le> ntables (km_mem k) d + length fr" "n \<le> fuel"
    "\<forall>va. pn a \<le> pn va \<and> pn va < pn a + n \<longrightarrow> pte_of (km_mem k) d va AND PTE_P = 0"
  shows "\<exists>k' fr'. allocuvm_loop fuel kend d a oldsz newsz k = Ok (newsz, k') \<and> umap_ok kend k' d fr' \<and>
    grown (km_mem k) (km_mem k') d (pn a) (pn a + n) \<and> ntables (km_mem k') d + length fr' + n = ntables (km_mem k) d + length fr"
  using assms
proof (induction n arbitrary: fuel a k fr)
  case 0
  have "unat a = 4096 * pn a" using 0(2) by (auto simp: aligned_iff pn_def)
  then have "\<not> a < newsz" using 0(5) by (simp add: word_less_nat_alt)
  then show ?case using 0(1) grown_refl by (auto simp: allocuvm_loop.simps [of fuel])
next
  case (Suc n)
  obtain f where f: "fuel = Suc f" using Suc(8) by (cases fuel) auto
  obtain v vs where fr: "fr = v # vs" using Suc(7) ntables_le [of "km_mem k" d] by (cases fr) auto
  have ua: "unat a = 4096 * pn a" using Suc(3) by (auto simp: aligned_iff pn_def)
  have lt: "a < newsz" using Suc(5) ua by (simp add: word_less_nat_alt)
  have np: "pte_of (km_mem k) d a AND PTE_P = 0" using Suc(9) by simp
  have "1024 \<le> ntables (km_mem k) d + length vs" using Suc(7) fr by simp
  from alloc_page_grown [OF Suc(2) [unfolded fr] this Suc(3) _ np] Suc(4) obtain k2 fr2 where
    2: "mappages d a PGSIZE (v2p v) (PTE_W OR PTE_U)
      (k\<lparr>km_freelist := load32 (km_mem k) v, km_mem := memset v 0 PGSIZE (km_mem k)\<rparr>) = Ok (0, k2)" "umap_ok kend k2 d fr2"
    "ntables (km_mem k2) d + length fr2 = ntables (km_mem k) d + length vs" "grown (km_mem k) (km_mem k2) d (pn a) (Suc (pn a))"
    by auto
  have al: "kalloc k = (v, k\<lparr>km_freelist := load32 (km_mem k) v\<rparr>)" "v \<noteq> 0"
    using pop_page(2,3) [OF umap_okD(1) [OF Suc(2) [unfolded fr]]] by auto
  show ?case
  proof (cases "n = 0 \<and> pn a + 1 = 0x80000")
    case True
    have "unat (a + PGSIZE) = 4096 * 0x80000" using ua True by (subst unat_next_page) simp_all
    then have "\<not> a + PGSIZE < newsz" using Suc(6) True by (simp add: word_less_nat_alt)
    then have "allocuvm_loop fuel kend d a oldsz newsz k = Ok (newsz, k2)"
      using lt f al 2(1) by (simp add: allocuvm_loop.simps [of "Suc f"] allocuvm_loop.simps [of f] Let_def)
    then show ?thesis using 2 True fr by (intro exI [of _ k2] exI [of _ fr2]) simp
  next
    case False
    then have nx: "pn (a + PGSIZE) = pn a + 1" "(a + PGSIZE) mod PGSIZE = 0" using pn_next [OF Suc(3)] Suc(4) by auto
    have "\<exists>k' fr'. allocuvm_loop f kend d (a + PGSIZE) oldsz newsz k2 = Ok (newsz, k') \<and> umap_ok kend k' d fr' \<and>
      grown (km_mem k2) (km_mem k') d (pn (a + PGSIZE)) (pn (a + PGSIZE) + n) \<and> ntables (km_mem k') d + length fr' + n = ntables (km_mem k2) d + length fr2"
    proof (rule Suc.IH [OF 2(2) nx(2)])
      show "\<forall>va. pn (a + PGSIZE) \<le> pn va \<and> pn va < pn (a + PGSIZE) + n \<longrightarrow> pte_of (km_mem k2) d va AND PTE_P = 0"
        using 2(4) Suc(9) nx(1) unfolding grown_def extended_def by auto
    qed (use Suc(4-8) nx(1) 2(3) fr f in auto)
    then obtain k' fr' where 3: "allocuvm_loop f kend d (a + PGSIZE) oldsz newsz k2 = Ok (newsz, k')" "umap_ok kend k' d fr'"
      "grown (km_mem k2) (km_mem k') d (Suc (pn a)) (Suc (pn a) + n)"
      "ntables (km_mem k') d + length fr' + n = ntables (km_mem k2) d + length fr2" using nx(1) by auto
    have "allocuvm_loop fuel kend d a oldsz newsz k = Ok (newsz, k')"
      using lt f al 2(1) 3(1) by (simp add: allocuvm_loop.simps [of "Suc f"] Let_def)
    then show ?thesis using 3(2,4) 2(3) fr grown_trans [OF 2(4) 3(3)] by (intro exI [of _ k'] exI [of _ fr']) simp
  qed
qed

subsection \<open>Copying into user memory\<close>

lemma unat_off_less:
  assumes "unat (va :: addr) + n \<le> 2 ^ 32"
  shows "unat (x - va) < n \<longleftrightarrow> unat va \<le> unat x \<and> unat x < unat va + n"
proof -
  have "unat (x - va) = (if unat va \<le> unat x then unat x - unat va else 2 ^ 32 + unat x - unat va)"
    using unat_lt [of x] unat_lt [of va] by (auto simp: unat_sub_if_size word_size)
  then show ?thesis using assms unat_lt [of x] by (auto split: if_splits)
qed

lemma page_offset: "unat (va - PGROUNDDOWN va) = unat va mod 4096" "unat va mod 4096 + 4096 * pn va = unat va"
proof -
  have "unat (PGROUNDDOWN va) \<le> unat va" by (simp add: PGROUNDDOWN_unat pn_def)
  then have "unat (va - PGROUNDDOWN va) = unat va - 4096 * pn va"
    by (simp add: unat_sub word_le_nat_alt PGROUNDDOWN_unat)
  also have "\<dots> = unat va mod 4096" by (simp add: pn_def minus_mult_div_eq_mod)
  finally show "unat (va - PGROUNDDOWN va) = unat va mod 4096" .
  show "unat va mod 4096 + 4096 * pn va = unat va" by (simp add: pn_def)
qed

lemma pte_of_pn: "pn va = pn vb \<Longrightarrow> pte_of m d va = pte_of m d vb"
  by (simp add: pte_of_def)

lemma uva2ka_ok:
  assumes ok: "vm_ok kend k d fr" and p: "upresent (km_mem k) d va" "pte_of (km_mem k) d va AND PTE_U \<noteq> 0"
  shows "uva2ka d va k = Ok (upage (km_mem k) d va)"
proof -
  have pr: "present (km_mem k) d (pn va div 1024)" using p(1) by (auto simp: upresent_def pte_of_def split: if_splits)
  have "page_ok kend (table_at (km_mem k) d (pn va div 1024))" using vm_okD(6) [OF ok PDX_nat(2) pr] by blast
  then have "table_at (km_mem k) d (pn va div 1024) + 4 * of_nat (pn va mod 1024) \<noteq> 0"
    using page_ok_ge [OF vm_okD(4) [OF ok]] by (intro slot_nonzero) auto
  then show ?thesis using pr p pte_load [OF pr] walk_present [of d va False k] by (simp add: uva2ka_def upresent_def upage_def)
qed

lemma umap_frame:
  assumes ok: "umap_ok kend k d fr" and p: "upresent (km_mem k) d va" and m': "\<And>x. \<not> in_page (upage (km_mem k) d va) x \<Longrightarrow> m' x = km_mem k x"
  shows "umap_ok kend (k\<lparr>km_mem := m'\<rparr>) d fr" "pte_of m' d = pte_of (km_mem k) d"
proof -
  note D = umap_okD [OF ok]
  have a: "upage (km_mem k) d va mod PGSIZE = 0" "upage (km_mem k) d va \<notin> vm_pages (km_mem k) d" "upage (km_mem k) d va \<notin> set fr"
    using D(2) [OF p] by blast+
  have f: "vm_ok kend (k\<lparr>km_mem := m'\<rparr>) d fr" "vm_pages m' d = vm_pages (km_mem k) d"
    by (rule vm_frame(1) [OF D(1) _ a], erule m', rule vm_frame(4) [OF D(1) _ a], erule m')
  show pte: "pte_of m' d = pte_of (km_mem k) d" by (rule vm_frame(2) [OF D(1) _ a]) (erule m')
  have e: "upresent m' d vb = upresent (km_mem k) d vb" "upage m' d vb = upage (km_mem k) d vb" for vb
    by (simp_all add: upresent_def upage_def pte)
  have m: "km_mem (k\<lparr>km_mem := m'\<rparr>) = m'" by simp
  show "umap_ok kend (k\<lparr>km_mem := m'\<rparr>) d fr"
    unfolding umap_ok_def m e f(2) using ok [unfolded umap_ok_def] f(1) by blast
qed

text \<open>One page's worth of \<^verbatim>\<open>copyout\<close>.\<close>

lemma copy_page:
  assumes ok: "umap_ok kend k d fr" and p: "upresent (km_mem k) d va" and n: "unat n + unat va mod 4096 \<le> 4096"
    and buf: "unat buf + unat n < 2 ^ 32"
  defines "m' \<equiv> memmove (upage (km_mem k) d va + (va - PGROUNDDOWN va)) buf n (km_mem k)"
  shows "\<And>x. \<not> in_page (upage (km_mem k) d va) x \<Longrightarrow> m' x = km_mem k x"
    "\<And>x. upresent (km_mem k) d x \<Longrightarrow> ubyte m' d x = (if unat va \<le> unat x \<and> unat x < unat va + unat n
        then km_mem k (buf + of_nat (unat x - unat va)) else ubyte (km_mem k) d x)"
proof -
  note D = umap_okD [OF ok]
  let ?m = "km_mem k" and ?g = "upage (km_mem k) d va" and ?o = "va - PGROUNDDOWN va"
  have al: "?g mod PGSIZE = 0" using D(2) [OF p] by (elim conjE)
  have uo: "unat ?o = unat va mod 4096" by (rule page_offset)
  have ug: "unat (?g + ?o) = unat ?g + unat ?o"
  proof -
    have "unat va mod 4096 < 4096" by simp
    then have "unat ?g + unat ?o < 2 ^ LENGTH(32)" using page_end [OF al] uo by simp
    then show ?thesis by (rule unat_add_lem [THEN iffD1])
  qed
  have m': "m' = fill ?m (?g + ?o) (unat n) (\<lambda>i. ?m (buf + of_nat i))"
    unfolding m'_def using buf page_end [OF al] n uo ug by (intro memmove_fill) simp_all
  show out: "m' x = ?m x" if "\<not> in_page ?g x" for x
  proof -
    have "\<not> unat (x - (?g + ?o)) < unat n"
      using that page_end [OF al] n uo ug by (subst unat_off_less) (auto simp: in_page_iff [OF al])
    then show ?thesis by (simp add: m' fill_def)
  qed
  have f: "pte_of m' d = pte_of ?m d" by (rule umap_frame(2) [OF ok p]) (erule out)
  fix x assume px: "upresent ?m d x"
  have pg: "upage m' d x = upage ?m d x" by (simp add: upage_def f)
  have ox: "unat (x - PGROUNDDOWN x) = unat x mod 4096" by (rule page_offset)
  show "ubyte m' d x = (if unat va \<le> unat x \<and> unat x < unat va + unat n then ?m (buf + of_nat (unat x - unat va)) else ubyte ?m d x)"
  proof (cases "pn x = pn va")
    case True
    then have gx: "upage ?m d x = ?g" "PGROUNDDOWN x = PGROUNDDOWN va"
      by (auto simp: upage_def pte_of_def word_unat_eq_iff PGROUNDDOWN_unat)
    have e: "?g + (x - PGROUNDDOWN va) - (?g + ?o) = x - va" by (simp add: algebra_simps)
    have "unat va + unat n \<le> 4096 * pn va + 4096" using n page_offset(2) [of va] by linarith
    moreover have "4096 * pn va + 4096 \<le> 2 ^ 32" using pn_less [of va] by simp
    ultimately have nw: "unat va + unat n \<le> 2 ^ 32" by (rule le_trans)
    have "ubyte m' d x = (if unat (x - va) < unat n then ?m (buf + of_nat (unat (x - va))) else ubyte ?m d x)"
    proof -
      have "ubyte m' d x = m' (?g + (x - PGROUNDDOWN va))" "ubyte ?m d x = ?m (?g + (x - PGROUNDDOWN va))"
        by (simp_all only: ubyte_def pg gx)
      moreover have "m' (?g + (x - PGROUNDDOWN va)) = (if unat (x - va) < unat n then ?m (buf + of_nat (unat (x - va))) else ?m (?g + (x - PGROUNDDOWN va)))"
        unfolding m' fill_def e ..
      ultimately show ?thesis by (simp only:)
    qed
    moreover have "unat (x - va) = unat x - unat va" if "unat va \<le> unat x" using that by (simp add: unat_sub word_le_nat_alt)
    ultimately show ?thesis unfolding unat_off_less [OF nw] by auto
  next
    case False
    have ne: "upage ?m d x \<noteq> ?g" using D(3) [OF px p] False by blast
    have "upage ?m d x mod PGSIZE = 0" using D(2) [OF px] by (elim conjE)
    then have "\<not> in_page ?g (upage ?m d x + (x - PGROUNDDOWN x))" by (rule pages_disjoint [OF _ al ne page_off])
    then have same: "ubyte m' d x = ubyte ?m d x" unfolding ubyte_def pg by (rule out)
    have nr: "\<not> (unat va \<le> unat x \<and> unat x < unat va + unat n)"
    proof
      assume "unat va \<le> unat x \<and> unat x < unat va + unat n"
      then have "4096 * pn va \<le> unat x" "unat x < 4096 * pn va + 4096" using n page_offset(2) [of va] by linarith+
      then have "pn x = pn va" unfolding pn_def [of x] by (simp add: div_nat_eqI)
      then show False using False by simp
    qed
    show ?thesis unfolding if_not_P [OF nr] by (rule same)
  qed
qed

lemma copyout_loop_ok:
  assumes "umap_ok kend k d fr" "unat va + unat len \<le> unat KERNBASE" "unat buf + unat len < 2 ^ 32"
    "\<forall>x. unat va \<le> unat x \<and> unat x < unat va + unat len \<longrightarrow> upresent (km_mem k) d x \<and> pte_of (km_mem k) d x AND PTE_U \<noteq> 0"
    "\<forall>x i. upresent (km_mem k) d x \<longrightarrow> i < unat len \<longrightarrow> \<not> in_page (upage (km_mem k) d x) (buf + of_nat i)"
    "unat va mod 4096 + unat len \<le> 4096 * fuel"
  shows "\<exists>m'. copyout_loop fuel d va buf len k = Ok (0, k\<lparr>km_mem := m'\<rparr>) \<and> umap_ok kend (k\<lparr>km_mem := m'\<rparr>) d fr \<and>
    pte_of m' d = pte_of (km_mem k) d \<and>
    (\<forall>x. upresent (km_mem k) d x \<longrightarrow> ubyte m' d x = (if unat va \<le> unat x \<and> unat x < unat va + unat len
        then km_mem k (buf + of_nat (unat x - unat va)) else ubyte (km_mem k) d x))"
  using assms
proof (induction fuel arbitrary: va buf len k)
  case 0
  then show ?case by (auto simp: copyout_loop.simps [of 0] word_neq_0_conv unat_eq_zero intro!: exI [of _ "km_mem k"])
next
  case (Suc f)
  let ?m = "km_mem k" and ?va0 = "PGROUNDDOWN va"
  show ?case
  proof (cases "len = 0")
    case True
    then show ?thesis using Suc.prems(1) by (auto simp: copyout_loop.simps [of "Suc f"] intro!: exI [of _ ?m])
  next
    case False
    then have l0: "0 < unat len" and lp: "0 < len" by (simp_all add: unat_gt_0 word_neq_0_conv)
    have p: "upresent ?m d va" "pte_of ?m d va AND PTE_U \<noteq> 0" using Suc.prems(4) l0 by auto
    have pn0: "pn ?va0 = pn va" by (simp add: pn_def PGROUNDDOWN_unat)
    have p0: "upresent ?m d ?va0" "pte_of ?m d ?va0 AND PTE_U \<noteq> 0" "upage ?m d ?va0 = upage ?m d va"
      using p pte_of_pn [OF pn0, of ?m d] by (simp_all add: upresent_def pn0 upage_def)
    define n where "n = (if len < PGSIZE - (va - ?va0) then len else PGSIZE - (va - ?va0))"
    have un: "unat (PGSIZE - (va - ?va0)) = 4096 - unat va mod 4096"
      using page_offset(1) [of va] by (simp add: unat_sub word_le_nat_alt PGSIZE_def less_imp_le)
    have unn: "unat n = min (unat len) (4096 - unat va mod 4096)" unfolding n_def using un by (auto simp: word_less_nat_alt min_def)
    define m1 where "m1 = memmove (upage ?m d va + (va - ?va0)) buf n ?m"
    have nle: "unat n + unat va mod 4096 \<le> 4096" "unat n \<le> unat len" using unn by (auto simp: min_def)
    have nb: "unat buf + unat n < 2 ^ 32" using Suc.prems(3) nle(2) by linarith
    note c = copy_page [OF Suc.prems(1) p(1) nle(1) nb, folded m1_def]
    have uf: "umap_ok kend (k\<lparr>km_mem := m1\<rparr>) d fr" "pte_of m1 d = pte_of ?m d"
      by (rule umap_frame(1) [OF Suc.prems(1) p(1)], erule c(1), rule umap_frame(2) [OF Suc.prems(1) p(1)], erule c(1))
    have ue: "upresent m1 d x = upresent ?m d x" "upage m1 d x = upage ?m d x" for x by (simp_all add: upresent_def upage_def uf(2))
    have nz: "upage ?m d va \<noteq> 0" using umap_okD(2) [OF Suc.prems(1) p(1)] page_ok_ge [OF vm_okD(4) [OF umap_okD(1) [OF Suc.prems(1)]]] by blast
    have step: "copyout_loop (Suc f) d va buf len k = copyout_loop f d (?va0 + PGSIZE) (buf + n) (len - n) (k\<lparr>km_mem := m1\<rparr>)"
      using lp uva2ka_ok [OF umap_okD(1) [OF Suc.prems(1)] p0(1,2)] nz p0(3)
      by (simp add: copyout_loop.simps [of "Suc f"] Let_def n_def m1_def)
    have ul: "unat (len - n) = unat len - unat n" using nle(2) by (simp add: unat_sub word_le_nat_alt)
    show ?thesis
    proof (cases "len - n = 0")
      case True
      then have "unat n = unat len" using ul nle(2) by simp
      moreover have "copyout_loop f d (?va0 + PGSIZE) (buf + n) (len - n) (k\<lparr>km_mem := m1\<rparr>) = Ok (0, k\<lparr>km_mem := m1\<rparr>)"
        using True by (simp add: copyout_loop.simps [of f])
      ultimately show ?thesis using step uf c(2) by (intro exI [of _ m1]) auto
    next
      case nF: False
      then have "0 < unat (len - n)" by (simp add: unat_gt_0)
      then have nn: "unat n = 4096 - unat va mod 4096" "unat n < unat len" using ul unn by (auto simp: min_def split: if_splits)
      have vb: "4096 * pn va + 4096 < 2 ^ 32"
        using Suc.prems(2) nn page_offset(2) [of va] by (simp add: KERNBASE_def)
      then have uv: "unat (?va0 + PGSIZE) = unat va + unat n"
        using nn(1) page_offset(2) [of va] unat_next_page [of ?va0] by (simp add: PGROUNDDOWN_unat)
      have ub: "unat (buf + n) = unat buf + unat n" using nb by (intro unat_add_lem [THEN iffD1]) simp
      have boff: "buf + n + of_nat i = buf + of_nat (unat n + i)" for i by simp
      have src: "m1 (buf + n + of_nat i) = ?m (buf + n + of_nat i)" if "i < unat (len - n)" for i
      proof (rule c(1))
        have "unat n + i < unat len" using that ul nn(2) by simp
        then show "\<not> in_page (upage ?m d va) (buf + n + of_nat i)" unfolding boff using Suc.prems(5) p(1) by blast
      qed
      let ?k1 = "k\<lparr>km_mem := m1\<rparr>"
      have "\<exists>m'. copyout_loop f d (?va0 + PGSIZE) (buf + n) (len - n) ?k1 = Ok (0, ?k1\<lparr>km_mem := m'\<rparr>) \<and> umap_ok kend (?k1\<lparr>km_mem := m'\<rparr>) d fr \<and>
        pte_of m' d = pte_of (km_mem ?k1) d \<and>
        (\<forall>x. upresent (km_mem ?k1) d x \<longrightarrow> ubyte m' d x = (if unat (?va0 + PGSIZE) \<le> unat x \<and> unat x < unat (?va0 + PGSIZE) + unat (len - n)
        then km_mem ?k1 (buf + n + of_nat (unat x - unat (?va0 + PGSIZE))) else ubyte (km_mem ?k1) d x))"
      proof (rule Suc.IH [OF uf(1)])
        show "unat (?va0 + PGSIZE) + unat (len - n) \<le> unat KERNBASE" using Suc.prems(2) uv ul nle(2) by simp
        show "unat (buf + n) + unat (len - n) < 2 ^ 32" using Suc.prems(3) ub ul nle(2) by simp
        show "\<forall>x. unat (?va0 + PGSIZE) \<le> unat x \<and> unat x < unat (?va0 + PGSIZE) + unat (len - n) \<longrightarrow>
            upresent (km_mem ?k1) d x \<and> pte_of (km_mem ?k1) d x AND PTE_U \<noteq> 0"
          using Suc.prems(4) uv ul nle(2) by (simp add: ue uf(2))
        show "\<forall>x i. upresent (km_mem ?k1) d x \<longrightarrow> i < unat (len - n) \<longrightarrow> \<not> in_page (upage (km_mem ?k1) d x) (buf + n + of_nat i)"
        proof (intro allI impI)
          fix x i assume h: "upresent (km_mem ?k1) d x" "i < unat (len - n)"
          have "unat n + i < unat len" using h(2) ul nn(2) by simp
          moreover have e: "upresent ?m d x" "upage (km_mem ?k1) d x = upage ?m d x" using h(1) by (simp_all add: ue)
          ultimately show "\<not> in_page (upage (km_mem ?k1) d x) (buf + n + of_nat i)"
            unfolding boff e(2) using Suc.prems(5) by blast
        qed
        have "unat (?va0 + PGSIZE) mod 4096 = 0"
          using vb unat_next_page [of ?va0] by (simp add: PGROUNDDOWN_unat)
        then show "unat (?va0 + PGSIZE) mod 4096 + unat (len - n) \<le> 4096 * f"
          using Suc.prems(6) ul nn by (simp add: le_diff_conv add.commute)
      qed
      then obtain m' where m': "copyout_loop f d (?va0 + PGSIZE) (buf + n) (len - n) ?k1 = Ok (0, k\<lparr>km_mem := m'\<rparr>)"
          "umap_ok kend (k\<lparr>km_mem := m'\<rparr>) d fr" "pte_of m' d = pte_of ?m d"
          "\<And>x. upresent ?m d x \<Longrightarrow> ubyte m' d x = (if unat va + unat n \<le> unat x \<and> unat x < unat va + unat len
            then m1 (buf + n + of_nat (unat x - (unat va + unat n))) else ubyte m1 d x)"
        using uv ul nn(2) uf(2) by (auto simp: ue)
      have "ubyte m' d x = (if unat va \<le> unat x \<and> unat x < unat va + unat len then ?m (buf + of_nat (unat x - unat va)) else ubyte ?m d x)"
        if x: "upresent ?m d x" for x
      proof (cases "unat va + unat n \<le> unat x \<and> unat x < unat va + unat len")
        case True
        then have "unat x - (unat va + unat n) < unat (len - n)" "unat n + (unat x - (unat va + unat n)) = unat x - unat va" using ul by auto
        then have "m1 (buf + n + of_nat (unat x - (unat va + unat n))) = ?m (buf + of_nat (unat x - unat va))"
          using src [of "unat x - (unat va + unat n)"] unfolding boff by simp
        then show ?thesis using m'(4) [OF x] True by auto
      next
        case False
        then show ?thesis using m'(4) [OF x] c(2) [OF x] nn(2) by auto
      qed
      then show ?thesis using step m' by (intro exI [of _ m']) simp
    qed
  qed
qed

end
