(* ===== verification/VmCopy.thy ===== *)
theory VmCopy
  imports VmOps
begin

text \<open>
  Copying an address space: \<^verbatim>\<open>copyuvm\<close> of \<^verbatim>\<open>vm.c\<close>. The source and the target are two page
  tables in the same memory, so the source needs a frame lemma: as long as no byte of its pages is written, its
  mappings and the bytes its owner reads stay.
\<close>

subsection \<open>The pages of an address space\<close>

definition upages :: "mem \<Rightarrow> addr \<Rightarrow> addr set" where
  "upages m d = {upage m d va |va. upresent m d va}"

definition space :: "mem \<Rightarrow> addr \<Rightarrow> addr set" where
  "space m d = vm_pages m d \<union> upages m d"

definition untouched :: "addr set \<Rightarrow> mem \<Rightarrow> mem \<Rightarrow> bool" where
  "untouched S m m' \<longleftrightarrow> (\<forall>w \<in> S. \<forall>x. in_page w x \<longrightarrow> m' x = m x)"

lemma untouched_refl [simp]: "untouched S m m"
  by (simp add: untouched_def)

lemma untouched_trans: "untouched S m m1 \<Longrightarrow> untouched S m1 m2 \<Longrightarrow> untouched S m m2"
  by (simp add: untouched_def)

lemma untouched_mono: "untouched S m m' \<Longrightarrow> T \<subseteq> S \<Longrightarrow> untouched T m m'"
  by (auto simp: untouched_def)

lemma untouchedI:
  assumes "\<And>x. (\<forall>w \<in> W. \<not> in_page w x) \<Longrightarrow> m' x = m x" "\<And>w. w \<in> W \<union> S \<Longrightarrow> w mod PGSIZE = 0" "S \<inter> W = {}"
  shows "untouched S m m'"
  unfolding untouched_def
proof (intro ballI allI impI)
  fix w x assume w: "w \<in> S" "in_page w x"
  have "\<not> in_page v x" if v: "v \<in> W" for v
  proof -
    have "w \<noteq> v" using w(1) v assms(3) by blast
    then show ?thesis using pages_disjoint [of w v x] assms(2) w v by blast
  qed
  then show "m' x = m x" using assms(1) by blast
qed

lemma untouched_page:
  assumes "\<And>x. \<not> in_page v x \<Longrightarrow> m' x = m x" "v mod PGSIZE = 0" "v \<notin> S" "\<And>w. w \<in> S \<Longrightarrow> w mod PGSIZE = 0"
  shows "untouched S m m'"
  by (rule untouchedI [where W = "{v}"]) (use assms in blast)+

definition untouched_outside :: "addr set \<Rightarrow> mem \<Rightarrow> mem \<Rightarrow> bool" where
  "untouched_outside W m m' \<longleftrightarrow> (\<forall>x. (\<forall>w \<in> W. \<not> in_page w x) \<longrightarrow> m' x = m x)"

lemma untouched_outsideI: "untouched {w. w mod PGSIZE = 0 \<and> w \<notin> F} m m' \<Longrightarrow> untouched_outside F m m'"
  unfolding untouched_outside_def
proof (intro allI impI)
  fix x assume u: "untouched {w. w mod PGSIZE = 0 \<and> w \<notin> F} m m'" and x: "\<forall>w \<in> F. \<not> in_page w x"
  have i: "in_page (PGROUNDDOWN x) x" using page_off [of "PGROUNDDOWN x" x] by simp
  have "PGROUNDDOWN x mod PGSIZE = 0" unfolding aligned_iff PGROUNDDOWN_unat by simp
  then have "PGROUNDDOWN x \<in> {w. w mod PGSIZE = 0 \<and> w \<notin> F}" using i x by blast
  then show "m' x = m x" using u i unfolding untouched_def by (meson)
qed

lemma space_aligned: "umap_ok kend k d fr \<Longrightarrow> w \<in> space (km_mem k) d \<Longrightarrow> w mod PGSIZE = 0"
  using umap_okD(2) [of kend k d fr] vm_page_aligned(1) [OF umap_okD(1), of kend k d fr w] by (auto simp: space_def upages_def)

lemma space_free: "umap_ok kend k d fr \<Longrightarrow> space (km_mem k) d \<inter> set fr = {}"
proof -
  assume ok: "umap_ok kend k d fr"
  have "w \<notin> set fr" if "w \<in> vm_pages (km_mem k) d" for w
    using that vm_okD(3,6) [OF umap_okD(1) [OF ok]] by (auto simp: vm_pages_def)
  then show ?thesis using umap_okD(2) [OF ok] by (auto simp: space_def upages_def)
qed

lemma space_page_ok:
  assumes "umap_ok kend k d fr" "w \<in> space (km_mem k) d"
  shows "page_ok kend w"
proof -
  note D = umap_okD [OF assms(1)]
  consider "w = d" | i where "w = table_at (km_mem k) d i" "i < 1024" "present (km_mem k) d i" | va where "w = upage (km_mem k) d va" "upresent (km_mem k) d va"
    using assms(2) by (auto simp: space_def upages_def vm_pages_def)
  then show ?thesis by cases (use D(2) vm_okD(2,6) [OF D(1)] in blast)+
qed

lemma tables_frame:
  assumes "untouched (vm_pages m d) m m'"
  shows "i < 1024 \<Longrightarrow> present m' d i = present m d i" "i < 1024 \<Longrightarrow> table_at m' d i = table_at m d i"
    "pte_of m' d = pte_of m d" "vm_pages m' d = vm_pages m d" "ntables m' d = ntables m d"
proof -
  have e: "ent m' w i = ent m w i" if "w \<in> vm_pages m d" "i < 1024" for w i
    using assms that by (intro ent_cong) (auto simp: untouched_def)
  have p: "present m' d i = present m d i" "table_at m' d i = table_at m d i" if "i < 1024" for i
    using e [of d i] that by (auto simp: present_def table_at_def vm_pages_def)
  show "i < 1024 \<Longrightarrow> present m' d i = present m d i" "i < 1024 \<Longrightarrow> table_at m' d i = table_at m d i" using p by auto
  show "pte_of m' d = pte_of m d"
  proof
    fix va
    have "ent m' (table_at m d (pn va div 1024)) (pn va mod 1024) = ent m (table_at m d (pn va div 1024)) (pn va mod 1024)"
      if "present m d (pn va div 1024)"
      using table_in_pages [OF PDX_nat(2) that] by (intro e) simp_all
    then show "pte_of m' d va = pte_of m d va" using p [OF PDX_nat(2) [of va]] by (simp add: pte_of_def)
  qed
  have "{table_at m' d i |i. i < 1024 \<and> present m' d i} = {table_at m d i |i. i < 1024 \<and> present m d i}" using p by metis
  then show "vm_pages m' d = vm_pages m d" by (simp add: vm_pages_def)
  have "{i. i < 1024 \<and> present m' d i} = {i. i < 1024 \<and> present m d i}" using p by auto
  then show "ntables m' d = ntables m d" by (simp add: ntables_def)
qed

lemma space_frame:
  assumes "untouched (space m d) m m'"
  shows "pte_of m' d = pte_of m d" "vm_pages m' d = vm_pages m d" "ntables m' d = ntables m d" "upresent m' d = upresent m d" "upage m' d = upage m d"
    "space m' d = space m d" "upresent m d va \<Longrightarrow> ubyte m' d va = ubyte m d va"
proof -
  have "untouched (vm_pages m d) m m'" using assms by (rule untouched_mono) (auto simp: space_def)
  note t = tables_frame [OF this]
  show "pte_of m' d = pte_of m d" "vm_pages m' d = vm_pages m d" "ntables m' d = ntables m d" by (fact t)+
  show u: "upresent m' d = upresent m d" "upage m' d = upage m d" by (auto simp: fun_eq_iff upresent_def upage_def t)
  show "space m' d = space m d" by (simp add: space_def upages_def u t)
  assume "upresent m d va"
  then have "upage m d va \<in> space m d" by (auto simp: space_def upages_def)
  then show "ubyte m' d va = ubyte m d va" using assms page_off by (auto simp: ubyte_def u untouched_def)
qed

lemma vm_ok_frame:
  assumes ok: "vm_ok kend k d fr" and m: "untouched (vm_pages (km_mem k) d) (km_mem k) (km_mem k')"
    and fl: "freelist_ok kend k' fr'" "set fr' \<inter> vm_pages (km_mem k) d = {}"
  shows "vm_ok kend k' d fr'"
proof -
  have n: "w \<notin> set fr'" if "w \<in> vm_pages (km_mem k) d" for w using fl(2) that by auto
  have d: "d \<in> vm_pages (km_mem k) d" by (auto simp: vm_pages_def)
  show ?thesis
    using ok fl(1) n [OF d] n [OF table_in_pages] tables_frame(1,2) [OF m] by (simp add: vm_ok_def)
qed

lemma umap_ok_frame:
  assumes ok: "umap_ok kend k d fr" and m: "untouched (space (km_mem k) d) (km_mem k) (km_mem k')"
    and fl: "freelist_ok kend k' fr'" "set fr' \<inter> space (km_mem k) d = {}"
  shows "umap_ok kend k' d fr'"
proof -
  have n: "w \<notin> set fr'" if "w \<in> space (km_mem k) d" for w using fl(2) that by auto
  have up: "upage (km_mem k) d va \<in> space (km_mem k) d" if "upresent (km_mem k) d va" for va
    using that by (auto simp: space_def upages_def)
  have "vm_ok kend k' d fr'"
    using fl by (intro vm_ok_frame [OF umap_okD(1) [OF ok] untouched_mono [OF m]]) (auto simp: space_def)
  then show ?thesis using ok n [OF up] unfolding umap_ok_def space_frame [OF m] by blast
qed

subsection \<open>Copying page by page\<close>

lemma walk_user:
  assumes ok: "vm_ok kend k d fr" and p: "upresent (km_mem k) d va"
  obtains pte where "walkpgdir d va False k = (pte, k)" "pte \<noteq> 0" "load32 (km_mem k) pte = pte_of (km_mem k) d va"
    "pte = table_at (km_mem k) d (pn va div 1024) + 4 * of_nat (pn va mod 1024)" "present (km_mem k) d (pn va div 1024)"
proof -
  have pr: "present (km_mem k) d (pn va div 1024)" using p by (auto simp: upresent_def pte_of_def split: if_splits)
  have "page_ok kend (table_at (km_mem k) d (pn va div 1024))" using vm_okD(6) [OF ok PDX_nat(2) pr] by blast
  then have "table_at (km_mem k) d (pn va div 1024) + 4 * of_nat (pn va mod 1024) \<noteq> 0"
    using page_ok_ge [OF vm_okD(4) [OF ok]] by (intro slot_nonzero) auto
  then show ?thesis using that pr pte_load [OF pr] walk_present [of d va False k] by simp
qed

lemma flags_bits: "unat (PTE_FLAGS e) < 4096" "e AND PTE_P \<noteq> 0 \<Longrightarrow> PTE_FLAGS e OR PTE_P = PTE_FLAGS e"
proof -
  have m: "(0xFFF :: 32 word) = mask 12" by (simp add: mask_eq_exp_minus_1)
  have "PTE_FLAGS e = take_bit 12 e" by (simp add: PTE_FLAGS_def m take_bit_eq_mask)
  then show "unat (PTE_FLAGS e) < 4096" by (simp add: unsigned_take_bit_eq take_bit_eq_mod unat_mod_distrib)
  assume "e AND PTE_P \<noteq> 0"
  then have "bit e 0" by (simp add: PTE_P_def and_one_eq bit_0 odd_iff_mod_2_eq_one)
  then show "PTE_FLAGS e OR PTE_P = PTE_FLAGS e"
    unfolding PTE_FLAGS_def m PTE_P_def by (intro bit_eqI) (auto simp: bit_or_iff bit_and_iff bit_mask_iff bit_1_iff)
qed

definition copied :: "addr set \<Rightarrow> mem \<Rightarrow> addr \<Rightarrow> addr \<Rightarrow> 32 word \<Rightarrow> byte \<Rightarrow> bool" where
  "copied S m s va e b \<longleftrightarrow> PTE_FLAGS e = PTE_FLAGS (pte_of m s va) \<and> b = ubyte m s va \<and> p2v (PTE_ADDR e) \<notin> S"

lemma copy_one:
  assumes ok: "umap_ok kend k d (v # vs)" and room: "1024 \<le> ntables (km_mem k) d + length vs"
    and a: "a mod PGSIZE = 0" "pte_of (km_mem k) d a AND PTE_P = 0"
    and src: "page_ok kend (upage m0 s a)" "upresent m0 s a" "untouched S m0 (km_mem k)" "upage m0 s a \<in> S" "v \<notin> S"
  shows "\<exists>k2 fr2. mappages d a PGSIZE (v2p v) (PTE_FLAGS (pte_of m0 s a))
      (k\<lparr>km_freelist := load32 (km_mem k) v, km_mem := memmove v (upage m0 s a) PGSIZE (km_mem k)\<rparr>) = Ok (0, k2) \<and> umap_ok kend k2 d fr2 \<and>
    ntables (km_mem k2) d + length fr2 = ntables (km_mem k) d + length vs \<and> extended (copied S m0 s) (km_mem k) (km_mem k2) d (pn a) (Suc (pn a)) \<and>
    (\<forall>x. (\<forall>w \<in> vm_pages (km_mem k) d \<union> set (v # vs). \<not> in_page w x) \<longrightarrow> km_mem k2 x = km_mem k x) \<and>
    (\<exists>ys. vs = ys @ fr2 \<and> vm_pages (km_mem k2) d = vm_pages (km_mem k) d \<union> set ys)"
proof (rule map_page_extended [OF ok room a(1) _ a(2) flags_bits(1)])
  note pp = pop_page [OF umap_okD(1) [OF ok]]
  let ?u = "upage m0 s a" and ?m = "km_mem k" and ?m1 = "memmove v (upage m0 s a) PGSIZE (km_mem k)"
  show "pn a < 0x80000" using src(2) by (simp add: upresent_def)
  have "unat ?u + unat PGSIZE < 2 ^ 32" using src(1)
    by (auto simp: page_ok_def word_less_nat_alt layout unat_sub_if_size word_size split: if_splits)
  moreover have "unat v + unat PGSIZE \<le> 2 ^ 32" using page_end [OF pp(5)] by (simp add: PGSIZE_def)
  ultimately have m1: "?m1 = fill ?m v (unat PGSIZE) (\<lambda>i. ?m (?u + of_nat i))" by (rule memmove_fill)
  show "?m1 x = ?m x" if "\<not> in_page v x" for x unfolding m1 using that by (simp add: fill_def in_page_def PGSIZE_def)
  fix va assume pn: "pn va = pn a"
  let ?o = "va - PGROUNDDOWN va"
  have "in_page v (v + ?o)" by (rule page_off)
  then have "?m1 (v + ?o) = ?m (?u + ?o)" unfolding m1 by (simp add: fill_def in_page_def PGSIZE_def)
  also have "\<dots> = m0 (?u + ?o)" using src(3,4) page_off [of ?u va] by (auto simp: untouched_def)
  also have "\<dots> = ubyte m0 s va" using pte_of_pn [OF pn, of m0 s] by (simp add: ubyte_def upage_def)
  finally have "?m1 (v + ?o) = ubyte m0 s va" .
  moreover have "pte_of m0 s va = pte_of m0 s a" using pte_of_pn [OF pn] by simp
  moreover have "PTE_FLAGS (pte_of m0 s a) OR PTE_P = PTE_FLAGS (pte_of m0 s a)" using src(2) by (intro flags_bits(2)) (simp add: upresent_def)
  moreover note page_entry(1,3) [OF vm_okD(4) [OF umap_okD(1) [OF ok]] pp(4) flags_bits(1) [of "pte_of m0 s a"]]
  ultimately show "copied S m0 s va (v2p v OR PTE_FLAGS (pte_of m0 s a) OR PTE_P) (?m1 (v + ?o))"
    unfolding copied_def using src(5) by simp
qed

lemma copyuvm_loop_ok:
  assumes s0: "umap_ok kend k0 s fr0" and S: "space (km_mem k0) s \<subseteq> S" "\<And>w. w \<in> S \<Longrightarrow> w mod PGSIZE = 0"
  assumes "umap_ok kend k d fr" "untouched S (km_mem k0) (km_mem k)" "S \<inter> (vm_pages (km_mem k) d \<union> set fr) = {}"
    "a mod PGSIZE = 0" "pn a + n \<le> 0x80000" "n = 0 \<or> 4096 * (pn a + n) < unat sz + 4096"
    "unat sz \<le> 4096 * (pn a + n)" "n + 1024 \<le> ntables (km_mem k) d + length fr" "n \<le> fuel"
    "\<forall>va. pn a \<le> pn va \<and> pn va < pn a + n \<longrightarrow> upresent (km_mem k0) s va \<and> pte_of (km_mem k) d va AND PTE_P = 0"
  shows "\<exists>k' fr'. copyuvm_loop fuel kend s d a sz k = Ok (d, k') \<and> umap_ok kend k' d fr' \<and> set fr' \<subseteq> set fr \<and>
    untouched S (km_mem k0) (km_mem k') \<and> S \<inter> vm_pages (km_mem k') d = {} \<and>
    extended (copied S (km_mem k0) s) (km_mem k) (km_mem k') d (pn a) (pn a + n)"
  using assms(4-)
proof (induction n arbitrary: fuel a k fr)
  case 0
  have "unat a = 4096 * pn a" using 0(4) by (auto simp: aligned_iff pn_def)
  then have "\<not> a < sz" using 0(7) by (simp add: word_less_nat_alt)
  then show ?case using 0(1-3) extended_refl [of "copied S (km_mem k0) s"] by (auto simp: copyuvm_loop.simps [of fuel])
next
  case (Suc n)
  let ?m0 = "km_mem k0"
  obtain f where f: "fuel = Suc f" using Suc.prems(9) by (cases fuel) auto
  obtain v vs where fr: "fr = v # vs" using Suc.prems(8) ntables_le [of "km_mem k" d] by (cases fr) auto
  have ua: "unat a = 4096 * pn a" using Suc.prems(4) by (auto simp: aligned_iff pn_def)
  have lt: "a < sz" using Suc.prems(6) ua by (simp add: word_less_nat_alt)
  have pa: "upresent ?m0 s a" "pte_of (km_mem k) d a AND PTE_P = 0" using Suc.prems(10) by auto
  have us: "untouched (space ?m0 s) ?m0 (km_mem k)" using Suc.prems(2) S(1) by (rule untouched_mono)
  note sf = space_frame [OF us]
  have oks: "umap_ok kend k s fr"
    using umap_ok_frame [OF s0 us] vm_okD(1) [OF umap_okD(1) [OF Suc.prems(1)]] Suc.prems(3) S(1) by blast
  have "upresent (km_mem k) s a" using pa(1) by (simp add: sf)
  from walk_user [OF umap_okD(1) [OF oks] this] obtain pte where
    w: "walkpgdir s a False k = (pte, k)" "pte \<noteq> 0" "load32 (km_mem k) pte = pte_of ?m0 s a" unfolding sf(1) by blast
  have uS: "upage ?m0 s a \<in> S" "page_ok kend (upage ?m0 s a)"
    using pa(1) S(1) umap_okD(2) [OF s0 pa(1)] by (auto simp: space_def upages_def)
  have pgs: "w mod PGSIZE = 0" if "w \<in> vm_pages (km_mem k) d \<union> set fr" for w
    using that vm_page_aligned [OF umap_okD(1) [OF Suc.prems(1)]] by auto
  have rm: "1024 \<le> ntables (km_mem k) d + length vs" using Suc.prems(8) fr by simp
  have vS: "v \<notin> S" using Suc.prems(3) fr by auto
  obtain k2 fr2 ys where
    2: "mappages d a PGSIZE (v2p v) (PTE_FLAGS (pte_of ?m0 s a))
      (k\<lparr>km_freelist := load32 (km_mem k) v, km_mem := memmove v (upage ?m0 s a) PGSIZE (km_mem k)\<rparr>) = Ok (0, k2)" "umap_ok kend k2 d fr2"
    "ntables (km_mem k2) d + length fr2 = ntables (km_mem k) d + length vs"
    and ex: "extended (copied S ?m0 s) (km_mem k) (km_mem k2) d (pn a) (Suc (pn a))"
    and keep: "\<And>x. \<forall>w \<in> vm_pages (km_mem k) d \<union> set fr. \<not> in_page w x \<Longrightarrow> km_mem k2 x = km_mem k x"
    and ys: "vs = ys @ fr2" "vm_pages (km_mem k2) d = vm_pages (km_mem k) d \<union> set ys"
    using copy_one [OF Suc.prems(1) [unfolded fr] rm Suc.prems(4) pa(2) uS(2) pa(1) Suc.prems(2) uS(1) vS] unfolding fr by blast
  have al: "kalloc k = (v, k\<lparr>km_freelist := load32 (km_mem k) v\<rparr>)" "v \<noteq> 0"
    using pop_page(2,3) [OF umap_okD(1) [OF Suc.prems(1) [unfolded fr]]] by auto
  have un2: "untouched S ?m0 (km_mem k2)"
    by (rule untouched_trans [OF Suc.prems(2)], rule untouchedI [OF keep]) (use pgs S(2) Suc.prems(3) in auto)
  have dis2: "S \<inter> (vm_pages (km_mem k2) d \<union> set fr2) = {}" "set fr2 \<subseteq> set fr" using Suc.prems(3) ys fr by auto
  have step: "copyuvm_loop fuel kend s d a sz k = copyuvm_loop f kend s d (a + PGSIZE) sz k2"
    using lt f w al 2(1) pa(1) by (simp add: copyuvm_loop.simps [of "Suc f"] upresent_def upage_def)
  show ?case
  proof (cases "n = 0 \<and> pn a + 1 = 0x80000")
    case True
    have "unat (a + PGSIZE) = 4096 * 0x80000" using ua True by (subst unat_next_page) simp_all
    then have "\<not> a + PGSIZE < sz" using Suc.prems(7) True by (simp add: word_less_nat_alt)
    then have "copyuvm_loop fuel kend s d a sz k = Ok (d, k2)" using step by (simp add: copyuvm_loop.simps [of f])
    then show ?thesis using 2(2) ex un2 dis2 True by (intro exI [of _ k2] exI [of _ fr2]) auto
  next
    case False
    then have nx: "pn (a + PGSIZE) = pn a + 1" "(a + PGSIZE) mod PGSIZE = 0" using pn_next [OF Suc.prems(4)] Suc.prems(5) by auto
    have "\<exists>k' fr'. copyuvm_loop f kend s d (a + PGSIZE) sz k2 = Ok (d, k') \<and> umap_ok kend k' d fr' \<and> set fr' \<subseteq> set fr2 \<and>
      untouched S ?m0 (km_mem k') \<and> S \<inter> vm_pages (km_mem k') d = {} \<and>
      extended (copied S ?m0 s) (km_mem k2) (km_mem k') d (pn (a + PGSIZE)) (pn (a + PGSIZE) + n)"
    proof (rule Suc.IH [OF 2(2) un2 dis2(1) nx(2)])
      show "\<forall>va. pn (a + PGSIZE) \<le> pn va \<and> pn va < pn (a + PGSIZE) + n \<longrightarrow>
          upresent ?m0 s va \<and> pte_of (km_mem k2) d va AND PTE_P = 0"
        using ex Suc.prems(10) nx(1) unfolding extended_def by auto
    qed (use Suc.prems(5-9) nx(1) 2(3) fr f in auto)
    then obtain k' fr' where 3: "copyuvm_loop f kend s d (a + PGSIZE) sz k2 = Ok (d, k')" "umap_ok kend k' d fr'" "set fr' \<subseteq> set fr2"
      "untouched S ?m0 (km_mem k')" "S \<inter> vm_pages (km_mem k') d = {}"
      "extended (copied S ?m0 s) (km_mem k2) (km_mem k') d (Suc (pn a)) (Suc (pn a) + n)" using nx(1) by auto
    show ?thesis using step 3 dis2(2) extended_trans [OF ex 3(6)] by (intro exI [of _ k'] exI [of _ fr']) auto
  qed
qed

lemma umap_kernel_only:
  assumes "vm_ok kend k d fr" "\<forall>va. pte_of (km_mem k) d va = kern_pte kdata va"
  shows "umap_ok kend k d fr" "pn va < 0x80000 \<Longrightarrow> pte_of (km_mem k) d va = 0"
proof -
  have z: "kern_pte kdata va = 0" if "pn va < 0x80000" for va
  proof -
    have "unat va < 0x80000000" using that by (simp add: pn_def div_less_iff_less_mult)
    then show ?thesis by (simp add: kern_pte_def KERNBASE_def DEVSPACE_def)
  qed
  then show "pn va < 0x80000 \<Longrightarrow> pte_of (km_mem k) d va = 0" using assms(2) by simp
  have "\<not> upresent (km_mem k) d va" for va using z assms(2) by (auto simp: upresent_def)
  then show "umap_ok kend k d fr" using assms(1) by (simp add: umap_ok_def)
qed

lemma PGROUNDUP_unat: "unat sz \<le> 0xFFFFF000 \<Longrightarrow> unat (PGROUNDUP sz) = 4096 * ((unat sz + 4095) div 4096)"
proof -
  assume sz: "unat sz \<le> 0xFFFFF000"
  have e: "PGROUNDUP sz = PGROUNDDOWN (sz + 0xFFF)" by (simp add: PGROUNDUP_def PGROUNDDOWN_def PGSIZE_def add.commute)
  have "unat sz + unat (0xFFF :: addr) < 2 ^ LENGTH(32)" using sz by simp
  then have "unat (sz + 0xFFF) = unat sz + 4095" using unat_add_lem [THEN iffD1] by fastforce
  then show ?thesis unfolding e PGROUNDDOWN_unat pn_def by simp
qed

definition npages :: "32 word \<Rightarrow> nat" where
  "npages sz = (unat sz + 4095) div 4096"

lemma npages_iff: "pn va < npages sz \<longleftrightarrow> 4096 * pn va < unat sz"
  unfolding npages_def by linarith

lemma allocuvm_ok:
  assumes "umap_ok kend k d fr" "newsz < KERNBASE" "oldsz \<le> newsz" "npages newsz - npages oldsz + 1024 \<le> ntables (km_mem k) d + length fr"
    "\<forall>va. npages oldsz \<le> pn va \<and> pn va < npages newsz \<longrightarrow> pte_of (km_mem k) d va AND PTE_P = 0"
  shows "\<exists>k' fr'. allocuvm kend d oldsz newsz k = Ok (newsz, k') \<and> umap_ok kend k' d fr' \<and>
    grown (km_mem k) (km_mem k') d (npages oldsz) (npages newsz) \<and>
    ntables (km_mem k') d + length fr' + (npages newsz - npages oldsz) = ntables (km_mem k) d + length fr"
proof -
  have u: "unat oldsz \<le> unat newsz" "unat newsz < 0x80000000" using assms(2,3) by (simp_all add: word_le_nat_alt word_less_nat_alt KERNBASE_def)
  then have ur: "unat (PGROUNDUP oldsz) = 4096 * npages oldsz" by (simp add: PGROUNDUP_unat npages_def)
  then have a: "pn (PGROUNDUP oldsz) = npages oldsz" "PGROUNDUP oldsz mod PGSIZE = 0" by (simp_all add: pn_def aligned_iff)
  have le: "npages oldsz \<le> npages newsz" using u(1) by (simp add: npages_def div_le_mono)
  have ns: "unat newsz \<le> 4096 * npages newsz" "4096 * npages newsz < unat newsz + 4096" by (simp_all add: npages_def)
  have nb: "npages newsz \<le> 0x80000" using u(2) ns(2) by simp
  let ?n = "npages newsz - npages oldsz"
  have "\<exists>k' fr'. allocuvm_loop VMFUEL kend d (PGROUNDUP oldsz) oldsz newsz k = Ok (newsz, k') \<and> umap_ok kend k' d fr' \<and>
    grown (km_mem k) (km_mem k') d (pn (PGROUNDUP oldsz)) (pn (PGROUNDUP oldsz) + ?n) \<and>
    ntables (km_mem k') d + length fr' + ?n = ntables (km_mem k) d + length fr"
    by (rule allocuvm_loop_ok [OF assms(1) a(2)]) (use a le ns nb assms(4,5) in \<open>auto simp: VMFUEL_def\<close>)
  moreover have "allocuvm kend d oldsz newsz k = allocuvm_loop VMFUEL kend d (PGROUNDUP oldsz) oldsz newsz k"
    using assms(2,3) by (auto simp: allocuvm_def)
  ultimately show ?thesis using a(1) le by simp
qed

lemma copyuvm_ok:
  assumes ok: "umap_ok kend k s (d # fr)" and sz: "sz \<le> KERNBASE" and room: "npages sz + 1024 \<le> length fr"
    and kd: "kdata mod PGSIZE = 0" "KERNLINK < kdata" "kdata < p2v PHYSTOP"
    and pr: "\<And>va. pn va < npages sz \<Longrightarrow> upresent (km_mem k) s va"
    and S: "space (km_mem k) s \<subseteq> S" "\<And>w. w \<in> S \<Longrightarrow> w mod PGSIZE = 0" "S \<inter> set (d # fr) = {}"
  shows "\<exists>k' fr'. copyuvm kend kdata s sz k = Ok (d, k') \<and> umap_ok kend k' d fr' \<and> umap_ok kend k' s fr' \<and> set fr' \<subseteq> set fr \<and>
    untouched S (km_mem k) (km_mem k') \<and> S \<inter> space (km_mem k') d = {} \<and>
    (\<forall>va. pn va < npages sz \<longrightarrow> upresent (km_mem k') d va \<and> PTE_FLAGS (pte_of (km_mem k') d va) = PTE_FLAGS (pte_of (km_mem k) s va) \<and>
       ubyte (km_mem k') d va = ubyte (km_mem k) s va) \<and>
    (\<forall>va. npages sz \<le> pn va \<longrightarrow> pte_of (km_mem k') d va = kern_pte kdata va)"
proof -
  note fl = vm_okD(1,4) [OF umap_okD(1) [OF ok]]
  have "1024 \<le> length fr" using room by simp
  from setupkvm_ok [OF fl this kd] obtain k1 fr1 ys where 1: "setupkvm kdata k = Ok (d, k1)" "vm_ok kend k1 d fr1"
      "\<forall>va. pte_of (km_mem k1) d va = kern_pte kdata va" "fr = ys @ fr1" "vm_pages (km_mem k1) d = insert d (set ys)"
      "ntables (km_mem k1) d + length fr1 = length fr" "\<And>x. \<forall>v \<in> set (d # fr). \<not> in_page v x \<Longrightarrow> km_mem k1 x = km_mem k x" by blast
  have al: "w mod PGSIZE = 0" if "w \<in> set (d # fr)" for w
    using that fl(1) unfolding freelist_ok_def page_ok_def by blast
  have u1: "untouched S (km_mem k) (km_mem k1)" by (rule untouchedI [where W = "set (d # fr)"]) (use 1(7) al S(2,3) in auto)
  have ok1: "umap_ok kend k1 d fr1" "pn va < 0x80000 \<Longrightarrow> pte_of (km_mem k1) d va = 0" for va
    using umap_kernel_only [OF 1(2,3)] by blast+
  have usz: "unat sz \<le> 0x80000000" using sz by (simp add: word_le_nat_alt KERNBASE_def)
  have np: "unat sz \<le> 4096 * npages sz" "4096 * npages sz < unat sz + 4096" by (simp_all add: npages_def)
  then have nb: "npages sz \<le> 0x80000" using usz by simp
  have pn0: "pn 0 = 0" by (simp add: pn_def)
  have "\<exists>k' fr'. copyuvm_loop VMFUEL kend s d 0 sz k1 = Ok (d, k') \<and> umap_ok kend k' d fr' \<and> set fr' \<subseteq> set fr1 \<and>
    untouched S (km_mem k) (km_mem k') \<and> S \<inter> vm_pages (km_mem k') d = {} \<and>
    extended (copied S (km_mem k) s) (km_mem k1) (km_mem k') d (pn 0) (pn 0 + npages sz)"
    by (rule copyuvm_loop_ok [OF ok S(1,2) ok1(1) u1]) (use 1(4-6) S(3) np nb room pr ok1(2) in \<open>auto simp: pn0 VMFUEL_def\<close>)
  then obtain k' fr' where 2: "copyuvm_loop VMFUEL kend s d 0 sz k1 = Ok (d, k')" "umap_ok kend k' d fr'" "set fr' \<subseteq> set fr1"
    "untouched S (km_mem k) (km_mem k')" "S \<inter> vm_pages (km_mem k') d = {}"
    "extended (copied S (km_mem k) s) (km_mem k1) (km_mem k') d 0 (npages sz)" unfolding pn0 by auto
  note ex = 2(6) [unfolded extended_def copied_def]
  have "d \<noteq> 0" using kalloc_ok [OF fl(1)] by simp
  then have res: "copyuvm kend kdata s sz k = Ok (d, k')" using 1(1) 2(1) by (simp add: copyuvm_def)
  have low: "upresent (km_mem k') d va \<longleftrightarrow> pn va < npages sz" for va
    using ex ok1(2) [of va] by (cases "pn va < npages sz") (auto simp: upresent_def)
  then have "upages (km_mem k') d \<inter> S = {}" using ex by (auto simp: upages_def upage_def)
  then have sd: "S \<inter> space (km_mem k') d = {}" using 2(5) by (auto simp: space_def)
  have "set fr' \<subseteq> set (d # fr)" using 2(3) 1(4) by auto
  then have "set fr' \<inter> space (km_mem k) s = {}" using S(1,3) by blast
  then have "umap_ok kend k' s fr'"
    using umap_ok_frame [OF ok untouched_mono [OF 2(4) S(1)] vm_okD(1) [OF umap_okD(1) [OF 2(2)]]] by blast
  then show ?thesis using res 2(2-4) sd ex low 1(3,4) by (intro exI [of _ k'] exI [of _ fr']) auto
qed

end
