(* ===== verification/VmFree.thy ===== *)
theory VmFree
  imports VmCopy
begin

text \<open>
  Giving an address space back: \<^verbatim>\<open>deallocuvm\<close> and \<^verbatim>\<open>freevm\<close> of \<^verbatim>\<open>vm.c\<close>. Every user page between
  the sizes returns to the free list; \<^verbatim>\<open>freevm\<close> returns the page tables and the directory as well.
\<close>

subsection \<open>Freeing one user page\<close>

lemma free_page:
  assumes ok: "umap_ok kend k d fr" and p: "upresent (km_mem k) d va"
  defines "u \<equiv> upage (km_mem k) d va" and "pte \<equiv> table_at (km_mem k) d (pn va div 1024) + 4 * of_nat (pn va mod 1024)"
  shows "\<exists>k1 k2. kfree kend u k = Ok k1 \<and> k2 = k1\<lparr>km_mem := store32 pte 0 (km_mem k1)\<rparr> \<and> umap_ok kend k2 d (u # fr) \<and>
    (\<forall>vb. pte_of (km_mem k2) d vb = (if pn vb = pn va then 0 else pte_of (km_mem k) d vb)) \<and>
    vm_pages (km_mem k2) d = vm_pages (km_mem k) d \<and>
    (\<forall>i < 1024. present (km_mem k2) d i = present (km_mem k) d i) \<and>
    (\<forall>x. (\<forall>w \<in> insert u (vm_pages (km_mem k) d). \<not> in_page w x) \<longrightarrow> km_mem k2 x = km_mem k x)"
proof -
  note D = umap_okD [OF ok] and V = vm_okD [OF umap_okD(1) [OF ok]]
  have u: "page_ok kend u" "u \<notin> set fr" "u \<notin> vm_pages (km_mem k) d" "u mod PGSIZE = 0" using D(2) [OF p] unfolding u_def by blast+
  have "u \<noteq> 0" using page_ok_ge [OF V(4) u(1)] by blast
  from kfree_ok [OF V(1) u(1,2) this] obtain m where
    1: "kfree kend u k = Ok (k\<lparr>km_mem := m, km_freelist := u\<rparr>)" "freelist_ok kend (k\<lparr>km_mem := m, km_freelist := u\<rparr>) (u # fr)"
      "\<And>x. \<not> in_page u x \<Longrightarrow> m x = km_mem k x" by blast
  let ?k1 = "k\<lparr>km_mem := m, km_freelist := u\<rparr>" and ?i = "pn va div 1024" and ?j = "pn va mod 1024"
  have un: "untouched (vm_pages (km_mem k) d) (km_mem k) m"
    by (rule untouched_page [OF 1(3) u(4,3) vm_page_aligned(1) [OF D(1)]])
  note t = tables_frame [OF un]
  have "w \<notin> set fr" if "w \<in> vm_pages (km_mem k) d" for w using that space_free [OF ok] by (auto simp: space_def)
  then have v1: "vm_ok kend ?k1 d (u # fr)" by (intro vm_ok_frame [OF D(1) _ 1(2)]) (use un u(3) in auto)
  have i: "?i < 1024" "present (km_mem k) d ?i"
    using p PDX_nat(2) [of va] by (auto simp: upresent_def pte_of_def split: if_splits)
  have p1: "present (km_mem ?k1) d ?i" and tb: "table_at (km_mem ?k1) d ?i = table_at (km_mem k) d ?i" using i t(1,2) [of ?i] by simp_all
  have j: "?j < 1024" by simp
  note s = set_entry [OF v1 i(1) p1 j, where w = 0, unfolded tb, folded pte_def]
  have e: "vm_ok kend (?k1\<lparr>km_mem := store32 pte 0 m\<rparr>) d (u # fr)"
    "pte_of (store32 pte 0 m) d vb = (if pn vb = 1024 * ?i + ?j then 0 else pte_of m d vb)"
    "vm_pages (store32 pte 0 m) d = vm_pages m d"
    "\<not> in_page (table_at (km_mem k) d ?i) x \<Longrightarrow> store32 pte 0 m x = m x"
    "l < 1024 \<Longrightarrow> present (store32 pte 0 m) d l = present m d l" for x vb l
    using s(1) s(2) [of vb] s(4) s(5) [of x] s(6) [of l] by simp_all
  let ?k2 = "?k1\<lparr>km_mem := store32 pte 0 m\<rparr>"
  have pte: "pte_of (km_mem ?k2) d vb = (if pn vb = pn va then 0 else pte_of (km_mem k) d vb)" for vb
    using e(2) [of vb] t(3) by simp
  have vp: "vm_pages (km_mem ?k2) d = vm_pages (km_mem k) d" using e(3) t(4) by simp
  have pres: "upresent (km_mem ?k2) d vb \<longleftrightarrow> upresent (km_mem k) d vb \<and> pn vb \<noteq> pn va" for vb
    unfolding upresent_def pte by auto
  have pg: "upage (km_mem ?k2) d vb = upage (km_mem k) d vb" if "pn vb \<noteq> pn va" for vb unfolding upage_def pte using that by simp
  have "umap_ok kend ?k2 d (u # fr)"
    unfolding umap_ok_def vp
  proof (intro conjI allI impI)
    fix vb assume "upresent (km_mem ?k2) d vb"
    then have b: "upresent (km_mem k) d vb" "pn vb \<noteq> pn va" using pres by auto
    have "upage (km_mem k) d vb \<noteq> u" using D(3) [OF b(1) p] b(2) unfolding u_def by blast
    then show "page_ok kend (upage (km_mem ?k2) d vb)" "upage (km_mem ?k2) d vb \<notin> set (u # fr)" "upage (km_mem ?k2) d vb \<notin> vm_pages (km_mem k) d"
      using D(2) [OF b(1)] unfolding pg [OF b(2)] by auto
  next
    fix vb vc assume h: "upresent (km_mem ?k2) d vb" "upresent (km_mem ?k2) d vc" "upage (km_mem ?k2) d vb = upage (km_mem ?k2) d vc"
    then show "pn vb = pn vc" using D(3) [of vb vc] pg [of vb] pg [of vc] unfolding pres by simp
  qed (use e(1) in simp)
  moreover have "km_mem ?k2 x = km_mem k x" if x: "\<forall>w \<in> insert u (vm_pages (km_mem k) d). \<not> in_page w x" for x
    using x e(4) [of x] 1(3) [of x] table_in_pages [OF i] by simp
  moreover have "present (km_mem ?k2) d l = present (km_mem k) d l" if "l < 1024" for l using e(5) [OF that] t(1) [OF that] by simp
  ultimately show ?thesis using 1(1) pte vp by (intro exI [of _ ?k1] exI [of _ ?k2]) auto
qed

subsection \<open>Shrinking\<close>

text \<open>After \<open>released\<close>, no user page from \<open>lo\<close> to \<open>hi - 1\<close> is mapped; the rest keeps its mappings and contents.\<close>

definition released :: "mem \<Rightarrow> mem \<Rightarrow> addr \<Rightarrow> nat \<Rightarrow> nat \<Rightarrow> bool" where
  "released m m' d lo hi \<longleftrightarrow>
     (\<forall>va. lo \<le> pn va \<and> pn va < hi \<longrightarrow> \<not> upresent m' d va) \<and>
     (\<forall>va. \<not> (lo \<le> pn va \<and> pn va < hi) \<longrightarrow> pte_of m' d va = pte_of m d va) \<and>
     (\<forall>va. \<not> (lo \<le> pn va \<and> pn va < hi) \<longrightarrow> upresent m d va \<longrightarrow> ubyte m' d va = ubyte m d va)"

definition freed :: "mem \<Rightarrow> addr \<Rightarrow> nat \<Rightarrow> nat \<Rightarrow> addr set" where
  "freed m d lo hi = {upage m d va |va. lo \<le> pn va \<and> pn va < hi \<and> upresent m d va}"

lemma released_skip:
  assumes "released m m' d mid hi" "\<And>va. lo \<le> pn va \<Longrightarrow> pn va < mid \<Longrightarrow> \<not> upresent m d va" "lo \<le> mid"
  shows "released m m' d lo hi" "freed m d lo hi = freed m d mid hi"
proof -
  note r = assms(1) [unfolded released_def]
  have "\<not> upresent m' d va" if h: "lo \<le> pn va" "pn va < hi" for va
  proof (cases "pn va < mid")
    case True
    then have "pte_of m' d va = pte_of m d va" "\<not> upresent m d va" using r assms(2) h by auto
    then show ?thesis by (simp add: upresent_def)
  next
    case False
    then show ?thesis using r h by auto
  qed
  then show "released m m' d lo hi" using r assms(3) unfolding released_def by auto
  show "freed m d lo hi = freed m d mid hi" using assms(2,3) unfolding freed_def by (metis (no_types, opaque_lifting) dual_order.trans not_le)
qed

lemma released_trans:
  assumes "released m m1 d lo mid" "released m1 m2 d mid hi" "lo \<le> mid" "mid \<le> hi"
  shows "released m m2 d lo hi" "freed m d lo hi = freed m d lo mid \<union> freed m1 d mid hi"
proof -
  note r1 = assms(1) [unfolded released_def] and r2 = assms(2) [unfolded released_def]
  have e1: "upresent m1 d va = upresent m d va" "upage m1 d va = upage m d va" if "\<not> (lo \<le> pn va \<and> pn va < mid)" for va
    using r1 that by (auto simp: upresent_def upage_def)
  have "\<not> upresent m2 d va" if h: "lo \<le> pn va" "pn va < hi" for va
  proof (cases "pn va < mid")
    case True
    then have "pte_of m2 d va = pte_of m1 d va" "\<not> upresent m1 d va" using r1 r2 h by auto
    then show ?thesis by (simp add: upresent_def)
  next
    case False
    then show ?thesis using r2 h by auto
  qed
  moreover have "pte_of m2 d va = pte_of m d va" "upresent m d va \<Longrightarrow> ubyte m2 d va = ubyte m d va" if "\<not> (lo \<le> pn va \<and> pn va < hi)" for va
  proof -
    have n: "\<not> (lo \<le> pn va \<and> pn va < mid)" "\<not> (mid \<le> pn va \<and> pn va < hi)" using that assms(3,4) by auto
    show "pte_of m2 d va = pte_of m d va" using n r1 r2 by auto
    show "ubyte m2 d va = ubyte m d va" if "upresent m d va" using n r1 r2 that e1(1) [OF n(1)] by auto
  qed
  ultimately show "released m m2 d lo hi" unfolding released_def by blast
  have "va \<in> {va. lo \<le> pn va \<and> pn va < hi \<and> upresent m d va} \<longleftrightarrow>
      va \<in> {va. lo \<le> pn va \<and> pn va < mid \<and> upresent m d va} \<union> {va. mid \<le> pn va \<and> pn va < hi \<and> upresent m1 d va}" for va
    using assms(3,4) e1(1) [of va] by auto
  then have "{va. lo \<le> pn va \<and> pn va < hi \<and> upresent m d va} =
      {va. lo \<le> pn va \<and> pn va < mid \<and> upresent m d va} \<union> {va. mid \<le> pn va \<and> pn va < hi \<and> upresent m1 d va}" by blast
  moreover have "upage m d ` {va. mid \<le> pn va \<and> pn va < hi \<and> upresent m1 d va} = upage m1 d ` {va. mid \<le> pn va \<and> pn va < hi \<and> upresent m1 d va}"
    by (rule image_cong) (use e1(2) in auto)
  ultimately show "freed m d lo hi = freed m d lo mid \<union> freed m1 d mid hi"
    unfolding freed_def setcompr_eq_image by (metis image_Un)
qed

lemma free_page_released:
  assumes ok: "umap_ok kend k d fr" and p: "upresent (km_mem k) d va"
    and pte: "\<forall>vb. pte_of (km_mem k2) d vb = (if pn vb = pn va then 0 else pte_of (km_mem k) d vb)"
    and keep: "\<forall>x. (\<forall>w \<in> insert (upage (km_mem k) d va) (vm_pages (km_mem k) d). \<not> in_page w x) \<longrightarrow> km_mem k2 x = km_mem k x"
  shows "released (km_mem k) (km_mem k2) d (pn va) (Suc (pn va))" "freed (km_mem k) d (pn va) (Suc (pn va)) = {upage (km_mem k) d va}"
proof -
  note D = umap_okD [OF ok]
  have "ubyte (km_mem k2) d vb = ubyte (km_mem k) d vb" if b: "upresent (km_mem k) d vb" "pn vb \<noteq> pn va" for vb
  proof -
    let ?x = "upage (km_mem k) d vb + (vb - PGROUNDDOWN vb)"
    have al: "upage (km_mem k) d vb mod PGSIZE = 0" using D(2) [OF b(1)] by blast
    have "\<not> in_page w ?x" if w: "w \<in> insert (upage (km_mem k) d va) (vm_pages (km_mem k) d)" for w
    proof -
      have "upage (km_mem k) d vb \<noteq> w" using w D(2) [OF b(1)] D(3) [OF b(1) p] b(2) by blast
      moreover have "w mod PGSIZE = 0" using w vm_page_aligned(1) [OF D(1)] D(2) [OF p] by blast
      ultimately show ?thesis by (intro pages_disjoint [OF al _ _ page_off])
    qed
    then have "km_mem k2 ?x = km_mem k ?x" using keep by blast
    then show ?thesis using pte b(2) by (simp add: ubyte_def upage_def)
  qed
  then show "released (km_mem k) (km_mem k2) d (pn va) (Suc (pn va))"
    using pte unfolding released_def by (auto simp: upresent_def less_Suc_eq_le)
  show "freed (km_mem k) d (pn va) (Suc (pn va)) = {upage (km_mem k) d va}"
  proof (intro equalityI subsetI)
    fix w assume "w \<in> freed (km_mem k) d (pn va) (Suc (pn va))"
    then obtain vb where "w = upage (km_mem k) d vb" "pn vb = pn va" by (auto simp: freed_def less_Suc_eq_le)
    then show "w \<in> {upage (km_mem k) d va}" using pte_of_pn [of vb va "km_mem k" d] by (simp add: upage_def)
  next
    fix w assume "w \<in> {upage (km_mem k) d va}"
    then show "w \<in> freed (km_mem k) d (pn va) (Suc (pn va))" using p by (auto simp: freed_def)
  qed
qed

lemma no_table: "\<not> present m d (pn a div 1024) \<Longrightarrow> pn va div 1024 = pn a div 1024 \<Longrightarrow> \<not> upresent m d va"
  by (simp add: upresent_def pte_of_def)

lemma aligned_less: "a mod PGSIZE = 0 \<Longrightarrow> a < sz \<longleftrightarrow> pn a < npages sz"
proof -
  assume "a mod PGSIZE = 0"
  then have "unat a = 4096 * pn a" by (auto simp: aligned_iff pn_def)
  then show ?thesis by (simp add: npages_iff word_less_nat_alt)
qed

lemma jump_table:
  assumes "a mod PGSIZE = 0" "pn a < 0x80000"
  shows "pn (a + (NPTENTRIES - 1) * PGSIZE + PGSIZE) = pn a + 1024" "(a + (NPTENTRIES - 1) * PGSIZE + PGSIZE) mod PGSIZE = 0"
proof -
  have e: "a + (NPTENTRIES - 1) * PGSIZE + PGSIZE = a + 0x400000" by (simp add: NPTENTRIES_def PGSIZE_def)
  have ua: "unat a = 4096 * pn a" using assms(1) by (auto simp: aligned_iff pn_def)
  have "unat a + unat (0x400000 :: addr) < 2 ^ LENGTH(32)" using ua assms(2) by simp
  then have "unat (a + 0x400000) = 4096 * (pn a + 1024)" using ua by (subst unat_add_lem [THEN iffD1]) simp_all
  then show "pn (a + (NPTENTRIES - 1) * PGSIZE + PGSIZE) = pn a + 1024" "(a + (NPTENTRIES - 1) * PGSIZE + PGSIZE) mod PGSIZE = 0"
    unfolding e by (simp_all add: pn_def [of "a + 0x400000"] aligned_iff)
qed

text \<open>What one call has done to the free list and to memory, as a whole.\<close>

definition shrunk :: "addr \<Rightarrow> 'a kmem_scheme \<Rightarrow> addr list \<Rightarrow> addr \<Rightarrow> nat \<Rightarrow> nat \<Rightarrow> 'a kmem_scheme \<Rightarrow> addr list \<Rightarrow> bool" where
  "shrunk kend k fr d lo hi k' fr' \<longleftrightarrow>
     umap_ok kend k' d fr' \<and> vm_pages (km_mem k') d = vm_pages (km_mem k) d \<and>
     (\<forall>i < 1024. present (km_mem k') d i = present (km_mem k) d i) \<and> set fr' = set fr \<union> freed (km_mem k) d lo hi \<and>
     released (km_mem k) (km_mem k') d lo hi \<and> untouched_outside (space (km_mem k) d) (km_mem k) (km_mem k')"

lemma shrunk_refl: "umap_ok kend k d fr \<Longrightarrow> hi \<le> lo \<Longrightarrow> shrunk kend k fr d lo hi k fr"
  by (auto simp: shrunk_def released_def freed_def untouched_outside_def)

lemma shrunk_skip:
  assumes "shrunk kend k fr d mid hi k' fr'" "\<And>va. lo \<le> pn va \<Longrightarrow> pn va < mid \<Longrightarrow> \<not> upresent (km_mem k) d va" "lo \<le> mid"
  shows "shrunk kend k fr d lo hi k' fr'"
proof -
  have "released (km_mem k) (km_mem k') d mid hi" using assms(1) by (simp add: shrunk_def)
  from released_skip [OF this assms(2,3)] show ?thesis using assms(1) by (simp add: shrunk_def)
qed

lemma shrunk_trans:
  assumes "shrunk kend k fr d lo mid k1 fr1" "shrunk kend k1 fr1 d mid hi k2 fr2" "lo \<le> mid" "mid \<le> hi"
  shows "shrunk kend k fr d lo hi k2 fr2"
proof -
  have r: "released (km_mem k) (km_mem k1) d lo mid" "released (km_mem k1) (km_mem k2) d mid hi" using assms(1,2) by (auto simp: shrunk_def)
  have "upages (km_mem k1) d \<subseteq> upages (km_mem k) d"
  proof
    fix w assume "w \<in> upages (km_mem k1) d"
    then obtain va where va: "w = upage (km_mem k1) d va" "upresent (km_mem k1) d va" by (auto simp: upages_def)
    then have "pte_of (km_mem k1) d va = pte_of (km_mem k) d va" using r(1) unfolding released_def by blast
    then show "w \<in> upages (km_mem k) d" using va by (auto simp: upages_def upage_def upresent_def)
  qed
  then have "space (km_mem k1) d \<subseteq> space (km_mem k) d" using assms(1) by (auto simp: shrunk_def space_def)
  then have "untouched_outside (space (km_mem k) d) (km_mem k) (km_mem k2)"
    using assms(1,2) unfolding shrunk_def untouched_outside_def by (metis subsetD)
  then show ?thesis using assms(1,2) released_trans [OF r assms(3,4)] by (auto simp: shrunk_def)
qed

lemma free_page_shrunk:
  assumes ok: "umap_ok kend k d fr" and p: "upresent (km_mem k) d va"
  shows "\<exists>k1. kfree kend (upage (km_mem k) d va) k = Ok k1 \<and>
    shrunk kend k fr d (pn va) (Suc (pn va))
      (k1\<lparr>km_mem := store32 (table_at (km_mem k) d (pn va div 1024) + 4 * of_nat (pn va mod 1024)) 0 (km_mem k1)\<rparr>)
      (upage (km_mem k) d va # fr)"
proof -
  let ?m = "km_mem k" and ?u = "upage (km_mem k) d va" and ?pte = "table_at (km_mem k) d (pn va div 1024) + 4 * of_nat (pn va mod 1024)"
  obtain k1 k2 where r: "kfree kend ?u k = Ok k1" "k2 = k1\<lparr>km_mem := store32 ?pte 0 (km_mem k1)\<rparr>" "umap_ok kend k2 d (?u # fr)"
      "\<forall>vb. pte_of (km_mem k2) d vb = (if pn vb = pn va then 0 else pte_of ?m d vb)" "vm_pages (km_mem k2) d = vm_pages ?m d"
      "\<forall>i < 1024. present (km_mem k2) d i = present ?m d i" "\<forall>x. (\<forall>w \<in> insert ?u (vm_pages ?m d). \<not> in_page w x) \<longrightarrow> km_mem k2 x = ?m x"
    using free_page [OF ok p] by blast
  have "insert ?u (vm_pages ?m d) \<subseteq> space ?m d" using p by (auto simp: space_def upages_def)
  then have "untouched_outside (space ?m d) ?m (km_mem k2)" using r(7) unfolding untouched_outside_def by (metis subsetD)
  then show ?thesis using r free_page_released [OF ok p r(4,7)] by (auto simp: shrunk_def)
qed

lemma shrunk_present: "shrunk kend k fr d lo hi k' fr' \<Longrightarrow> umap_ok kend k' d fr'"
  by (simp add: shrunk_def)

lemma next_table: "(n + 1) mod 1024 = 0 \<or> (n + 1) div 1024 = n div (1024 :: nat)"
  by (simp add: div_Suc)

lemma table_of: "p mod 1024 = 0 \<Longrightarrow> p \<le> q \<Longrightarrow> q < p + 1024 \<Longrightarrow> q div 1024 = p div (1024 :: nat)"
  by (auto simp: mod_eq_0_iff_dvd elim!: dvdE intro: div_nat_eqI)

lemma deallocuvm_loop_ok:
  assumes "umap_ok kend k d fr" "KERNBASE < kend" "a mod PGSIZE = 0" "npages sz - pn a \<le> fuel" "npages sz \<le> 0x80000"
    "pn a mod 1024 = 0 \<or> present (km_mem k) d (pn a div 1024)"
  shows "\<exists>k' fr'. deallocuvm_loop fuel kend d a sz k = Ok k' \<and> shrunk kend k fr d (pn a) (npages sz) k' fr'"
  using assms
proof (induction fuel arbitrary: a k fr)
  case 0
  then have "\<not> a < sz" "npages sz \<le> pn a" by (simp_all add: aligned_less)
  then show ?case using shrunk_refl [OF 0(1)] by (auto simp: deallocuvm_loop.simps [of 0])
next
  case (Suc f)
  let ?m = "km_mem k" and ?hi = "npages sz"
  show ?case
  proof (cases "a < sz")
    case False
    then have "?hi \<le> pn a" using Suc.prems(3) by (simp add: aligned_less)
    then show ?thesis using False shrunk_refl [OF Suc.prems(1)] by (auto simp: deallocuvm_loop.simps [of "Suc f"])
  next
    case lt: True
    then have pa: "pn a < ?hi" "pn a < 0x80000" using Suc.prems(3,5) by (auto simp: aligned_less)
    have nx: "pn (a + PGSIZE) = pn a + 1" "(a + PGSIZE) mod PGSIZE = 0" using pn_next [OF Suc.prems(3)] pa by auto
    show ?thesis
    proof (cases "present ?m d (pn a div 1024)")
      case False
      then have al: "pn a mod 1024 = 0" using Suc.prems(6) pa by simp
      let ?b = "a + (NPTENTRIES - 1) * PGSIZE + PGSIZE"
      note j = jump_table [OF Suc.prems(3) pa(2)]
      have none: "\<not> upresent ?m d va" if "pn a \<le> pn va" "pn va < pn a + 1024" for va
        by (rule no_table [OF False table_of [OF al that]])
      have le: "?hi - pn ?b \<le> f" using Suc.prems(4) unfolding j(1) by simp
      have "pn ?b mod 1024 = 0" using al unfolding j(1) by simp
      from Suc.IH [OF Suc.prems(1,2) j(2) le Suc.prems(5) disjI1 [OF this], unfolded j(1)]
      obtain k' fr' where r: "deallocuvm_loop f kend d ?b sz k = Ok k'" "shrunk kend k fr d (pn a + 1024) ?hi k' fr'" by (elim exE conjE)
      have "walkpgdir d a False k = (0, k)" using False walk_present [of d a False k] by simp
      then have "deallocuvm_loop (Suc f) kend d a sz k = Ok k'" using lt r(1) by (simp add: deallocuvm_loop.simps [of "Suc f"])
      moreover have "shrunk kend k fr d (pn a) ?hi k' fr'" by (rule shrunk_skip [OF r(2) none]) simp_all
      ultimately show ?thesis by blast
    next
      case pr: True
      let ?pte = "table_at ?m d (pn a div 1024) + 4 * of_nat (pn a mod 1024)"
      have w: "walkpgdir d a False k = (?pte, k)" "load32 ?m ?pte = pte_of ?m d a" using pr walk_present [of d a False k] pte_load [OF pr] by simp_all
      have "page_ok kend (table_at ?m d (pn a div 1024))" using vm_okD(6) [OF umap_okD(1) [OF Suc.prems(1)] PDX_nat(2) pr] by blast
      then have nz: "?pte \<noteq> 0" using page_ok_ge [OF vm_okD(4) [OF umap_okD(1) [OF Suc.prems(1)]]] by (intro slot_nonzero) auto
      have nal: "pn (a + PGSIZE) mod 1024 = 0 \<or> pn (a + PGSIZE) div 1024 = pn a div 1024" unfolding nx(1) by (rule next_table)
      have le: "?hi - pn (a + PGSIZE) \<le> f" using Suc.prems(4) nx(1) by simp
      show ?thesis
      proof (cases "upresent ?m d a")
        case up: True
        obtain k1 where r: "kfree kend (upage ?m d a) k = Ok k1"
            "shrunk kend k fr d (pn a) (Suc (pn a)) (k1\<lparr>km_mem := store32 ?pte 0 (km_mem k1)\<rparr>) (upage ?m d a # fr)"
          using free_page_shrunk [OF Suc.prems(1) up] by blast
        let ?k2 = "k1\<lparr>km_mem := store32 ?pte 0 (km_mem k1)\<rparr>"
        have ok2: "umap_ok kend ?k2 d (upage ?m d a # fr)" and p2: "present (km_mem ?k2) d (pn a div 1024)"
          using r(2) pr PDX_nat(2) [of a] by (auto simp: shrunk_def)
        have "page_ok kend (upage ?m d a)" using umap_okD(2) [OF Suc.prems(1) up] by blast
        then have "upage ?m d a \<noteq> KERNBASE" using Suc.prems(2) by (auto simp: page_ok_def)
        then have na: "PTE_ADDR (pte_of ?m d a) \<noteq> 0" by (auto simp: upage_def p2v_def)
        have "pn (a + PGSIZE) mod 1024 = 0 \<or> present (km_mem ?k2) d (pn (a + PGSIZE) div 1024)" using nal p2 by (elim disjE) simp_all
        from Suc.IH [OF ok2 Suc.prems(2) nx(2) le Suc.prems(5) this]
        obtain k' fr' where s: "deallocuvm_loop f kend d (a + PGSIZE) sz ?k2 = Ok k'" "shrunk kend ?k2 (upage ?m d a # fr) d (Suc (pn a)) ?hi k' fr'"
          unfolding nx(1) by auto
        have "deallocuvm_loop (Suc f) kend d a sz k = Ok k'"
          using lt w nz na up r(1) s(1) by (simp add: deallocuvm_loop.simps [of "Suc f"] upresent_def upage_def)
        then show ?thesis using shrunk_trans [OF r(2) s(2)] pa(1) by auto
      next
        case nup: False
        have "pn (a + PGSIZE) mod 1024 = 0 \<or> present ?m d (pn (a + PGSIZE) div 1024)" using nal pr by (elim disjE) simp_all
        from Suc.IH [OF Suc.prems(1,2) nx(2) le Suc.prems(5) this]
        obtain k' fr' where s: "deallocuvm_loop f kend d (a + PGSIZE) sz k = Ok k'" "shrunk kend k fr d (Suc (pn a)) ?hi k' fr'"
          unfolding nx(1) by auto
        have "deallocuvm_loop (Suc f) kend d a sz k = Ok k'"
          using lt w nz nup pa(2) s(1) by (simp add: deallocuvm_loop.simps [of "Suc f"] upresent_def)
        moreover have none: "\<not> upresent ?m d va" if "pn a \<le> pn va" "pn va < Suc (pn a)" for va
          using nup pte_of_pn [of va a ?m d] that by (auto simp: upresent_def)
        have "shrunk kend k fr d (pn a) ?hi k' fr'" by (rule shrunk_skip [OF s(2) none]) simp_all
        ultimately show ?thesis by blast
      qed
    qed
  qed
qed

lemma deallocuvm_ok:
  assumes "umap_ok kend k d fr" "KERNBASE < kend" "newsz < oldsz" "oldsz \<le> KERNBASE"
    "npages newsz mod 1024 = 0 \<or> present (km_mem k) d (npages newsz div 1024)"
  shows "\<exists>k' fr'. deallocuvm kend d oldsz newsz k = Ok (newsz, k') \<and> shrunk kend k fr d (npages newsz) (npages oldsz) k' fr'"
proof -
  have u: "unat newsz \<le> 0x80000000" "unat oldsz \<le> 0x80000000" using assms(3,4) by (simp_all add: word_le_nat_alt word_less_nat_alt KERNBASE_def)
  then have "unat (PGROUNDUP newsz) = 4096 * npages newsz" by (simp add: PGROUNDUP_unat npages_def)
  then have a: "pn (PGROUNDUP newsz) = npages newsz" "PGROUNDUP newsz mod PGSIZE = 0" by (simp_all add: pn_def aligned_iff)
  have hi: "npages oldsz \<le> 0x80000" using u(2) by (simp add: npages_def)
  then have "npages oldsz - pn (PGROUNDUP newsz) \<le> VMFUEL" by (simp add: VMFUEL_def)
  from deallocuvm_loop_ok [OF assms(1,2) a(2) this hi, unfolded a(1), OF assms(5)]
  show ?thesis using assms(3) by (auto simp: deallocuvm_def)
qed

subsection \<open>Freeing everything\<close>

definition tables_in :: "mem \<Rightarrow> addr \<Rightarrow> nat list \<Rightarrow> addr set" where
  "tables_in m d is = {table_at m d i |i. i \<in> set is \<and> present m d i}"

lemma freevm_tables:
  assumes "freelist_ok kend k fr" "KERNBASE \<le> kend" "d mod PGSIZE = 0" "distinct is" "\<forall>i \<in> set is. i < 1024"
    "\<forall>i \<in> set is. present (km_mem k) d i \<longrightarrow> page_ok kend (table_at (km_mem k) d i) \<and> table_at (km_mem k) d i \<notin> set fr \<and> table_at (km_mem k) d i \<noteq> d"
    "\<forall>i \<in> set is. \<forall>j \<in> set is. present (km_mem k) d i \<longrightarrow> present (km_mem k) d j \<longrightarrow> table_at (km_mem k) d i = table_at (km_mem k) d j \<longrightarrow> i = j"
  shows "\<exists>k' fr'. rfold (freevm_step kend d) is k = Ok k' \<and> freelist_ok kend k' fr' \<and> set fr' = set fr \<union> tables_in (km_mem k) d is \<and>
    untouched_outside (tables_in (km_mem k) d is) (km_mem k) (km_mem k')"
  using assms
proof (induction "is" arbitrary: k fr)
  case Nil
  then show ?case by (auto simp: tables_in_def untouched_outside_def)
next
  case (Cons i js)
  let ?m = "km_mem k" and ?t = "table_at (km_mem k) d i"
  show ?case
  proof (cases "present ?m d i")
    case False
    then have "freevm_step kend d i k = Ok k" by (simp add: freevm_step_def present_def ent_def)
    moreover have "tables_in ?m d (i # js) = tables_in ?m d js" using False by (auto simp: tables_in_def)
    ultimately show ?thesis using Cons.IH [OF Cons.prems(1-3)] Cons.prems(4-7) by simp
  next
    case True
    have t: "page_ok kend ?t" "?t \<notin> set fr" "?t \<noteq> d" "?t \<noteq> 0" "?t mod PGSIZE = 0"
      using Cons.prems(6) True page_ok_ge [OF Cons.prems(2), of ?t] by auto
    obtain m where 1: "kfree kend ?t k = Ok (k\<lparr>km_mem := m, km_freelist := ?t\<rparr>)" "freelist_ok kend (k\<lparr>km_mem := m, km_freelist := ?t\<rparr>) (?t # fr)"
      "\<And>x. \<not> in_page ?t x \<Longrightarrow> m x = ?m x" using kfree_ok [OF Cons.prems(1) t(1,2,4)] by blast
    let ?k1 = "k\<lparr>km_mem := m, km_freelist := ?t\<rparr>"
    have step: "freevm_step kend d i k = Ok ?k1"
      using True 1(1) by (simp add: freevm_step_def present_def ent_def table_at_def)
    have e: "ent m d j = ent ?m d j" if "j < 1024" for j
      using 1(3) pages_disjoint [OF Cons.prems(3) t(5)] t(3) by (intro ent_cong [OF that]) metis
    have pt: "present m d j = present ?m d j" "table_at m d j = table_at ?m d j" if "j \<in> set js" for j
      using e [of j] that Cons.prems(5) by (simp_all add: present_def table_at_def)
    have ne: "table_at ?m d j \<noteq> ?t" if "j \<in> set js" "present ?m d j" for j
      using Cons.prems(4,7) that True by auto
    have tj: "tables_in m d js = tables_in ?m d js" unfolding tables_in_def using pt by metis
    have "\<exists>k' fr'. rfold (freevm_step kend d) js ?k1 = Ok k' \<and> freelist_ok kend k' fr' \<and> set fr' = set (?t # fr) \<union> tables_in (km_mem ?k1) d js \<and>
      untouched_outside (tables_in (km_mem ?k1) d js) (km_mem ?k1) (km_mem k')"
      by (rule Cons.IH [OF 1(2) Cons.prems(2,3)]) (use Cons.prems(4-7) pt ne in auto)
    then obtain k' fr' where 2: "rfold (freevm_step kend d) js ?k1 = Ok k'" "freelist_ok kend k' fr'" "set fr' = insert ?t (set fr) \<union> tables_in ?m d js"
      "untouched_outside (tables_in ?m d js) m (km_mem k')" using tj by auto
    have ti: "tables_in ?m d (i # js) = insert ?t (tables_in ?m d js)" using True by (auto simp: tables_in_def)
    have "untouched_outside (tables_in ?m d (i # js)) ?m (km_mem k')" using 2(4) 1(3) unfolding ti untouched_outside_def by simp
    then show ?thesis using step 2 ti by auto
  qed
qed

lemma freevm_ok:
  assumes ok: "umap_ok kend k d fr" and kb: "KERNBASE < kend"
  shows "\<exists>k' fr'. freevm kend d k = Ok k' \<and> freelist_ok kend k' fr' \<and> set fr' = set fr \<union> space (km_mem k) d \<and>
    untouched_outside (space (km_mem k) d) (km_mem k) (km_mem k')"
proof -
  have np: "npages 0 = 0" "npages KERNBASE = 0x80000" by (simp_all add: npages_def KERNBASE_def)
  obtain k1 fr1 where 1: "deallocuvm kend d KERNBASE 0 k = Ok (0, k1)" "shrunk kend k fr d 0 0x80000 k1 fr1"
    using deallocuvm_ok [OF ok kb, of 0 KERNBASE] unfolding np by (auto simp: KERNBASE_def)
  note s = 1(2) [unfolded shrunk_def]
  have fu: "freed (km_mem k) d 0 0x80000 = upages (km_mem k) d" by (auto simp: freed_def upages_def upresent_def)
  have v1: "vm_ok kend k1 d fr1" using s umap_okD(1) by blast
  note V = vm_okD [OF v1]
  obtain k2 fr2 where 2: "rfold (freevm_step kend d) [0..<1024] k1 = Ok k2" "freelist_ok kend k2 fr2"
    "set fr2 = set fr1 \<union> tables_in (km_mem k1) d [0..<1024]" "untouched_outside (tables_in (km_mem k1) d [0..<1024]) (km_mem k1) (km_mem k2)"
    using freevm_tables [OF V(1,4,5), of "[0..<1024]"] V(6,7) by auto
  have dt: "insert d (tables_in (km_mem k1) d [0..<1024]) = vm_pages (km_mem k) d"
    using s by (auto simp: tables_in_def vm_pages_def)
  have dn: "d \<notin> set fr2"
  proof
    assume "d \<in> set fr2"
    then obtain i where "i < 1024" "present (km_mem k1) d i" "table_at (km_mem k1) d i = d" using V(3) 2(3) by (auto simp: tables_in_def)
    then show False using V(6) [of i] by blast
  qed
  have d0: "d \<noteq> 0" using page_ok_ge [OF V(4,2)] by blast
  from kfree_ok [OF 2(2) V(2) dn d0] obtain m where
    3: "kfree kend d k2 = Ok (k2\<lparr>km_mem := m, km_freelist := d\<rparr>)" "freelist_ok kend (k2\<lparr>km_mem := m, km_freelist := d\<rparr>) (d # fr2)"
      "\<And>x. \<not> in_page d x \<Longrightarrow> m x = km_mem k2 x" by blast
  have "freevm kend d k = Ok (k2\<lparr>km_mem := m, km_freelist := d\<rparr>)" using 1(1) 2(1) 3(1) d0 by (simp add: freevm_def NPDENTRIES_def)
  moreover have "set (d # fr2) = set fr \<union> space (km_mem k) d" using 2(3) s fu dt by (auto simp: space_def)
  moreover have "untouched_outside (space (km_mem k) d) (km_mem k) m"
    unfolding untouched_outside_def
  proof (intro allI impI)
    fix x assume x: "\<forall>w \<in> space (km_mem k) d. \<not> in_page w x"
    have "\<forall>w \<in> insert d (tables_in (km_mem k1) d [0..<1024]). \<not> in_page w x" using x dt by (simp add: space_def)
    then have "m x = km_mem k2 x" "km_mem k2 x = km_mem k1 x" using 3(3) 2(4) by (simp_all add: untouched_outside_def)
    then show "m x = km_mem k x" using s x by (simp add: untouched_outside_def)
  qed
  ultimately show ?thesis using 3(2) by auto
qed

end
