(* ===== verification/VmExample.thy ===== *)
theory VmExample
  imports VmFree
begin

text \<open>
  A machine with 8192 free pages above the kernel, on which the properties of the later theories are evaluated:
  its free list as \<^verbatim>\<open>freerange\<close> builds it, a page table as \<^verbatim>\<open>setupkvm\<close> builds it, and a process of three pages.
\<close>

subsection \<open>A concrete machine\<close>

definition ex_kend :: addr where "ex_kend = 0x80400000"
definition ex_kdata :: addr where "ex_kdata = 0x80108000"

definition ex_n :: nat where "ex_n = 8192"

definition ex_mem :: kmem where
  "ex_mem = \<lparr>km_mem = (\<lambda>_. 0), km_use_lock = False, km_freelist = 0\<rparr>"

lemma pages_from_unat: "i < ex_n \<Longrightarrow> unat (ex_kend + of_nat i * PGSIZE) = 0x80400000 + 4096 * i"
  by (simp add: ex_n_def ex_kend_def PGSIZE_def unat_word_ariths unat_of_nat take_bit_eq_mod)

lemma ex_pages:
  "\<forall>v \<in> set (pages_from ex_kend ex_n). page_ok ex_kend v \<and> v \<noteq> 0 \<and> v \<notin> set []" "distinct (pages_from ex_kend ex_n)"
proof -
  have "page_ok ex_kend v \<and> v \<noteq> 0 \<and> v \<notin> set []" if v: "v \<in> set (pages_from ex_kend ex_n)" for v
  proof -
    obtain i where i: "i < ex_n" "v = ex_kend + of_nat i * PGSIZE" using v by (auto simp: pages_from_def)
    have u: "unat v = 0x80400000 + 4096 * i" using pages_from_unat [OF i(1)] i(2) by simp
    have "unat v mod 4096 = 0" unfolding u by (simp add: mod_mult_self2 [of "0x80400000" 4096 i])
    then have "v mod PGSIZE = 0" by (simp only: aligned_iff)
    moreover have "ex_kend \<le> v" by (simp add: word_le_nat_alt u ex_kend_def)
    moreover have "unat (v - KERNBASE) = unat v - 0x80000000" by (simp add: unat_sub word_le_nat_alt u KERNBASE_def)
    then have "v - KERNBASE < PHYSTOP" using i(1) by (simp add: word_less_nat_alt u PHYSTOP_def ex_n_def)
    moreover have "v \<noteq> 0" using u by auto
    ultimately show ?thesis by (simp only: page_ok_def) simp
  qed
  then show "\<forall>v \<in> set (pages_from ex_kend ex_n). page_ok ex_kend v \<and> v \<noteq> 0 \<and> v \<notin> set []" by blast
  show "distinct (pages_from ex_kend ex_n)"
    unfolding pages_from_def distinct_map
  proof (intro conjI inj_onI)
    fix i j assume ij: "i \<in> set [0..<ex_n]" "j \<in> set [0..<ex_n]" and e: "ex_kend + of_nat i * PGSIZE = ex_kend + of_nat j * PGSIZE"
    have l: "i < ex_n" "j < ex_n" using ij by auto
    have "0x80400000 + 4096 * i = 0x80400000 + 4096 * j"
      using arg_cong [OF e, of unat] by (simp only: pages_from_unat [OF l(1)] pages_from_unat [OF l(2)])
    then show "i = j" by simp
  qed (rule distinct_upt)
qed

lemma ex_boot_mem:
  "\<exists>k. freerange ex_kend ex_kend (ex_kend + of_nat ex_n * PGSIZE) ex_mem = Ok k \<and> freelist_ok ex_kend k (rev (pages_from ex_kend ex_n))"
proof -
  have up: "PGROUNDUP ex_kend = ex_kend" by (simp add: PGROUNDUP_def ex_kend_def PGSIZE_def)
  have fl: "freelist_ok ex_kend ex_mem []" by (simp add: freelist_ok_def ex_mem_def)
  have "\<exists>k. freerange_loop (2 ^ 20) ex_kend ex_kend (ex_kend + of_nat ex_n * PGSIZE) ex_mem = Ok k \<and>
      freelist_ok ex_kend k (rev (pages_from ex_kend ex_n) @ []) \<and> km_use_lock k = km_use_lock ex_mem"
    by (rule freerange_loop_ok [OF fl _ _ _ ex_pages]) (simp_all add: ex_kend_def PGSIZE_def ex_n_def)
  then show ?thesis by (auto simp: freerange_def up)
qed

lemma ex_pages_length [simp]: "length (rev (pages_from ex_kend ex_n)) = ex_n"
  by (simp add: pages_from_def)

lemma ex_machine:
  "\<exists>k d fr. freerange ex_kend ex_kend (ex_kend + of_nat ex_n * PGSIZE) ex_mem = Ok k \<and> freelist_ok ex_kend k (d # fr) \<and> length fr = 8191"
proof -
  obtain k where k: "freerange ex_kend ex_kend (ex_kend + of_nat ex_n * PGSIZE) ex_mem = Ok k" "freelist_ok ex_kend k (rev (pages_from ex_kend ex_n))"
    using ex_boot_mem by blast
  obtain d fr where "rev (pages_from ex_kend ex_n) = d # fr"
    using ex_pages_length by (cases "rev (pages_from ex_kend ex_n)") (auto simp: ex_n_def)
  moreover have "length (d # fr) = ex_n" using calculation ex_pages_length by metis
  ultimately show ?thesis using k by (auto simp: ex_n_def)
qed

lemma ex_kdata_ok: "KERNBASE \<le> ex_kend" "ex_kdata mod PGSIZE = 0" "KERNLINK < ex_kdata" "ex_kdata < p2v PHYSTOP"
  by (simp_all add: KERNBASE_def ex_kend_def ex_kdata_def PGSIZE_def KERNLINK_def EXTMEM_def p2v_def PHYSTOP_def)

lemma ex_kernel:
  "\<exists>(k :: kmem) d fr. umap_ok ex_kend k d fr \<and> 8000 \<le> ntables (km_mem k) d + length fr \<and> (\<forall>va. pn va < 0x80000 \<longrightarrow> pte_of (km_mem k) d va = 0)"
proof -
  obtain k d fr where k: "freelist_ok ex_kend (k :: kmem) (d # fr)" "length fr = 8191" using ex_machine by blast
  have "1024 \<le> length fr" using k(2) by simp
  from setupkvm_ok [OF k(1) ex_kdata_ok(1) this ex_kdata_ok(2-4)]
  obtain k' :: kmem and fr' where 1: "vm_ok ex_kend k' d fr'" "\<forall>va. pte_of (km_mem k') d va = kern_pte ex_kdata va"
      "ntables (km_mem k') d + length fr' = length fr" by blast
  have "8000 \<le> ntables (km_mem k') d + length fr'" using 1(3) k(2) by simp
  then show ?thesis using umap_kernel_only [OF 1(1,2)] by blast
qed

text \<open>A process with three pages of memory, and more than four thousand pages left.\<close>

lemma ex_space:
  "\<exists>(k :: kmem) d fr. umap_ok ex_kend k d fr \<and> 4000 \<le> length fr \<and>
     (\<forall>va. pn va < 3 \<longrightarrow> upresent (km_mem k) d va \<and> pte_of (km_mem k) d va AND PTE_U \<noteq> 0 \<and> ubyte (km_mem k) d va = 0)"
proof -
  obtain k :: kmem and d fr where k: "umap_ok ex_kend k d fr" "8000 \<le> ntables (km_mem k) d + length fr" "\<forall>va. pn va < 0x80000 \<longrightarrow> pte_of (km_mem k) d va = 0"
    using ex_kernel by blast
  have np: "npages 0 = 0" "npages 12288 = 3" by (simp_all add: npages_def)
  have "\<exists>k' fr'. allocuvm ex_kend d 0 12288 k = Ok (12288, k') \<and> umap_ok ex_kend k' d fr' \<and>
    grown (km_mem k) (km_mem k') d (npages 0) (npages 12288) \<and>
    ntables (km_mem k') d + length fr' + (npages 12288 - npages 0) = ntables (km_mem k) d + length fr"
    by (rule allocuvm_ok [OF k(1)]) (use k np in \<open>auto simp: KERNBASE_def\<close>)
  then obtain k' :: kmem and fr' where k': "umap_ok ex_kend k' d fr'" "grown (km_mem k) (km_mem k') d 0 3"
      and n: "ntables (km_mem k') d + length fr' + 3 = ntables (km_mem k) d + length fr" unfolding np by auto
  have l: "4000 \<le> length fr'" using n k(2) ntables_le [of "km_mem k'" d] by linarith
  have "pte_of (km_mem k') d x AND PTE_U \<noteq> 0" if "PTE_FLAGS (pte_of (km_mem k') d x) = PTE_W OR PTE_U OR PTE_P" for x
  proof -
    have "pte_of (km_mem k') d x AND PTE_U = PTE_FLAGS (pte_of (km_mem k') d x) AND PTE_U"
      by (simp add: PTE_FLAGS_def PTE_U_def and.assoc)
    then show ?thesis using that by (simp add: PTE_W_def PTE_U_def PTE_P_def)
  qed
  then show ?thesis using k' l unfolding grown_def extended_def by blast
qed

end
