(* ===== verification/VmProps.thy ===== *)
theory VmProps
  imports VmExample
begin

text \<open>
  The properties of the page tables and of user memory.
\<close>

subsection \<open>The properties\<close>

text \<open>C16. The kernel part of a page table. With enough free pages for the page tables, \<^verbatim>\<open>setupkvm\<close> returns the page it allocated as
  a page directory in which every kernel address is mapped as the table \<^verbatim>\<open>kmap\<close> says (read-only between \<^verbatim>\<open>KERNLINK\<close> and \<^verbatim>\<open>data\<close>,
  writable below \<^verbatim>\<open>PHYSTOP\<close>, devices one to one), no other address is mapped, and no page outside the free list is touched.\<close>

theorem setupkvm_correct:
  assumes "freelist_ok kend k (d # fr)" "KERNBASE \<le> kend" "1024 \<le> length fr"
    "kdata mod PGSIZE = 0" "KERNLINK < kdata" "kdata < p2v PHYSTOP"
  shows "\<exists>k' fr'. setupkvm kdata k = Ok (d, k') \<and> vm_ok kend k' d fr' \<and> (\<forall>va. pte_of (km_mem k') d va = kern_pte kdata va) \<and>
    (\<forall>x. (\<forall>v \<in> set (d # fr). \<not> in_page v x) \<longrightarrow> km_mem k' x = km_mem k x)"
  using setupkvm_ok [OF assms] by blast

theorem setupkvm_correct_witness:
  "\<exists>k d k'. freerange ex_kend ex_kend (ex_kend + of_nat ex_n * PGSIZE) ex_mem = Ok k \<and> setupkvm ex_kdata k = Ok (d, k') \<and>
     pte_of (km_mem k') d 0x80100000 = 0x100001"
proof -
  obtain k d fr where k: "freerange ex_kend ex_kend (ex_kend + of_nat ex_n * PGSIZE) ex_mem = Ok k" "freelist_ok ex_kend k (d # fr)" "length fr = 8191"
    using ex_machine by blast
  have "1024 \<le> length fr" using k(3) by simp
  from setupkvm_correct [OF k(2) ex_kdata_ok(1) this ex_kdata_ok(2-4)]
  obtain k' where "setupkvm ex_kdata k = Ok (d, k')" "pte_of (km_mem k') d 0x80100000 = kern_pte ex_kdata 0x80100000" by blast
  moreover have "kern_pte ex_kdata 0x80100000 = 0x100001"
    by (simp add: kern_pte_def KERNLINK_def EXTMEM_def layout ex_kdata_def PGROUNDDOWN_def PGSIZE_def v2p_def PTE_P_def)
  ultimately show ?thesis using k(1) by auto
qed

text \<open>C15. Growing a process. When the pages between the old and the new size are not mapped yet and memory suffices for
  them and their page tables, \<^verbatim>\<open>allocuvm\<close> returns the new size; each new page is present, writable by the user and
  reads as zero; the entries and the contents of all other user memory are as before.\<close>

theorem allocuvm_correct:
  assumes "umap_ok kend k d fr" "newsz < KERNBASE" "oldsz \<le> newsz" "npages newsz - npages oldsz + 1024 \<le> ntables (km_mem k) d + length fr"
    "\<forall>va. npages oldsz \<le> pn va \<and> pn va < npages newsz \<longrightarrow> pte_of (km_mem k) d va AND PTE_P = 0"
  shows "\<exists>k' fr'. allocuvm kend d oldsz newsz k = Ok (newsz, k') \<and> umap_ok kend k' d fr' \<and>
    grown (km_mem k) (km_mem k') d (npages oldsz) (npages newsz)"
  using allocuvm_ok [OF assms] by blast

theorem allocuvm_correct_witness:
  "\<exists>(k :: kmem) d k'. allocuvm ex_kend d 100 9000 k = Ok (9000, k') \<and> upresent (km_mem k') d 0x2000 \<and> ubyte (km_mem k') d 0x2000 = 0"
proof -
  obtain k :: kmem and d fr where k: "umap_ok ex_kend k d fr" "8000 \<le> ntables (km_mem k) d + length fr" "\<forall>va. pn va < 0x80000 \<longrightarrow> pte_of (km_mem k) d va = 0"
    using ex_kernel by blast
  have np: "npages 100 = 1" "npages 9000 = 3" by (simp_all add: npages_def)
  have "\<exists>k' fr'. allocuvm ex_kend d 100 9000 k = Ok (9000, k') \<and> umap_ok ex_kend k' d fr' \<and>
    grown (km_mem k) (km_mem k') d (npages 100) (npages 9000)"
    by (rule allocuvm_correct [OF k(1)]) (use k np in \<open>auto simp: KERNBASE_def\<close>)
  then obtain k' :: kmem where k': "allocuvm ex_kend d 100 9000 k = Ok (9000, k')" "grown (km_mem k) (km_mem k') d 1 3" using np by auto
  have "1 \<le> pn 0x2000 \<and> pn 0x2000 < 3" by (simp add: pn_def)
  then have "upresent (km_mem k') d 0x2000 \<and> ubyte (km_mem k') d 0x2000 = 0" using k'(2) unfolding grown_def extended_def by blast
  then show ?thesis using k'(1) by blast
qed

text \<open>C40. \<^verbatim>\<open>allocuvm\<close> does not look at the result of \<^verbatim>\<open>mappages\<close>: with one free page left and no page table
  for address 0, growing a process from nothing to one page hands the page out, fails to map it, and still returns the new size, while the address is not
  mapped and the page is on no free list any more.\<close>

theorem allocuvm_unmapped:
  assumes "umap_ok kend k d [v]" "\<not> present (km_mem k) d 0"
  shows "\<exists>k'. allocuvm kend d 0 4096 k = Ok (4096, k') \<and> \<not> upresent (km_mem k') d 0 \<and> freelist_ok kend k' []"
proof -
  note D = umap_okD [OF assms(1)]
  note pp = pop_page [OF D(1)]
  let ?k1 = "k\<lparr>km_freelist := load32 (km_mem k) v, km_mem := memset v 0 PGSIZE (km_mem k)\<rparr>"
  let ?kp = "k\<lparr>km_freelist := load32 (km_mem k) v\<rparr>"
  have f: "memset v 0 PGSIZE (km_mem k) x = km_mem ?kp x" if "\<not> in_page v x" for x using that by (simp add: memset_page)
  have vkp: "v \<notin> vm_pages (km_mem ?kp) d" using pp(6) by simp
  have ok1: "vm_ok kend ?k1 d []" and pte: "pte_of (km_mem ?k1) d = pte_of (km_mem k) d"
    using vm_frame(1,2) [OF pp(1) f pp(5) vkp pp(7)] by simp_all
  have np: "\<not> present (km_mem ?k1) d 0"
  proof -
    have "d \<noteq> v" using pp(6) by (auto simp: vm_pages_def)
    then have "ent (memset v 0 PGSIZE (km_mem k)) d 0 = ent (km_mem k) d 0"
      using vm_okD(5) [OF D(1)] pp(5) by (intro ent_memset_other) auto
    then show ?thesis using assms(2) by (simp add: present_def)
  qed
  have "kalloc ?k1 = (0, ?k1)" using kalloc_ok [OF vm_okD(1) [OF ok1]] by simp
  then have w: "walkpgdir d 0 True ?k1 = (0, ?k1)" using np walk_present [of d 0 True ?k1] by (simp add: pn_def)
  have vf: "VMFUEL = Suc (2 ^ 20)" by (simp add: VMFUEL_def)
  have mp: "mappages d 0 PGSIZE (v2p v) (PTE_W OR PTE_U) ?k1 = Ok (-1, ?k1)"
    unfolding mappages_def vf mappages_loop.simps [of "Suc (2 ^ 20)"] using w by (simp add: PGROUNDDOWN_def)
  have up: "PGROUNDUP 0 = 0" by (simp add: PGROUNDUP_def PGSIZE_def)
  have fin: "allocuvm_loop n kend d 4096 0 4096 kk = Ok (4096, kk)" for n and kk :: "'a kmem_scheme"
    by (simp add: allocuvm_loop.simps [of n])
  have "allocuvm_loop (Suc (2 ^ 20)) kend d 0 0 4096 k = Ok (4096, ?k1)"
    unfolding allocuvm_loop.simps [of "Suc (2 ^ 20)"] using pp(2,3) mp by (simp add: fin PGSIZE_def)
  then have "allocuvm kend d 0 4096 k = Ok (4096, ?k1)" by (simp add: allocuvm_def KERNBASE_def up vf)
  moreover have "\<not> upresent (km_mem ?k1) d 0" using np by (simp add: upresent_def pte_of_def pn_def)
  ultimately show ?thesis using vm_okD(1) [OF ok1] by blast
qed

text \<open>C17. \<^verbatim>\<open>copyout\<close> into user pages that are mapped: it returns 0, the bytes of the user's range become those of the
  kernel buffer, every other byte of user memory and every mapping stays.\<close>

theorem copyout_correct:
  assumes "umap_ok kend k d fr" "unat va + unat len \<le> unat KERNBASE" "unat p + unat len < 2 ^ 32"
    "\<forall>x. unat va \<le> unat x \<and> unat x < unat va + unat len \<longrightarrow> upresent (km_mem k) d x \<and> pte_of (km_mem k) d x AND PTE_U \<noteq> 0"
    "\<forall>x i. upresent (km_mem k) d x \<longrightarrow> i < unat len \<longrightarrow> \<not> in_page (upage (km_mem k) d x) (p + of_nat i)"
  shows "\<exists>m'. copyout d va p len k = Ok (0, k\<lparr>km_mem := m'\<rparr>) \<and> umap_ok kend (k\<lparr>km_mem := m'\<rparr>) d fr \<and>
    pte_of m' d = pte_of (km_mem k) d \<and>
    (\<forall>x. upresent (km_mem k) d x \<longrightarrow> ubyte m' d x = (if unat va \<le> unat x \<and> unat x < unat va + unat len
        then km_mem k (p + of_nat (unat x - unat va)) else ubyte (km_mem k) d x))"
proof -
  have "unat va mod 4096 + unat len \<le> 4096 * VMFUEL"
    using assms(2) mod_less_divisor [of 4096 "unat va"] by (simp add: KERNBASE_def VMFUEL_def)
  from copyout_loop_ok [OF assms this] show ?thesis by (simp add: copyout_def)
qed

theorem allocuvm_unmapped_witness:
  "\<exists>(k :: kmem) d k'. allocuvm ex_kend d 0 4096 k = Ok (4096, k') \<and> \<not> upresent (km_mem k') d 0"
proof -
  let ?a = "ex_kend" and ?b = "ex_kend + PGSIZE"
  have pg: "page_ok ex_kend ?a" "page_ok ex_kend ?b" "?a \<noteq> 0" "?b \<noteq> 0" "?a \<noteq> ?b"
    by (simp_all add: page_ok_def ex_kend_def layout)
  have "freelist_ok ex_kend ex_mem []" by (simp add: freelist_ok_def ex_mem_def)
  then obtain m1 where 1: "freelist_ok ex_kend (ex_mem\<lparr>km_mem := m1, km_freelist := ?b\<rparr>) [?b]"
    using kfree_ok [of ex_kend ex_mem "[]" ?b] pg by auto
  then obtain m2 where 2: "freelist_ok ex_kend (ex_mem\<lparr>km_mem := m2, km_freelist := ?a\<rparr>) [?a, ?b]"
    using kfree_ok [OF 1, of ?a] pg by auto
  let ?k = "ex_mem\<lparr>km_mem := m2, km_freelist := ?a\<rparr>"
  let ?k' = "?k\<lparr>km_freelist := load32 (km_mem ?k) ?a, km_mem := memset ?a 0 PGSIZE (km_mem ?k)\<rparr>"
  note e = empty_dir [OF 2 ex_kdata_ok(1)]
  have "\<not> upresent (km_mem ?k') ?a va" for va using e(2) by (simp add: upresent_def)
  then have "umap_ok ex_kend ?k' ?a [?b]" using e(1) by (simp add: umap_ok_def)
  moreover have "\<not> present (km_mem ?k') ?a 0" by (simp add: present_def ent_memset_0)
  ultimately have "\<exists>k'. allocuvm ex_kend ?a 0 4096 ?k' = Ok (4096, k') \<and> \<not> upresent (km_mem k') ?a 0 \<and> freelist_ok ex_kend k' []"
    by (rule allocuvm_unmapped)
  then show ?thesis by blast
qed

theorem copyout_correct_witness:
  "\<exists>(k :: kmem) d m'. copyout d 0x1FFE 0x80100000 4 k = Ok (0, k\<lparr>km_mem := m'\<rparr>) \<and> ubyte m' d 0x2001 = km_mem k 0x80100003"
proof -
  obtain k' :: kmem and d fr' where k': "umap_ok ex_kend k' d fr'"
    and up: "\<And>x. pn x < 3 \<Longrightarrow> upresent (km_mem k') d x \<and> pte_of (km_mem k') d x AND PTE_U \<noteq> 0" using ex_space by blast
  have low: "\<not> in_page (upage (km_mem k') d x) (0x80100000 + of_nat i)" if "upresent (km_mem k') d x" "i < 4" for x i
  proof -
    have g: "page_ok ex_kend (upage (km_mem k') d x)" "upage (km_mem k') d x mod PGSIZE = 0" using umap_okD(2) [OF k' that(1)] by blast+
    then have "0x80400000 \<le> unat (upage (km_mem k') d x)" by (simp add: page_ok_def word_le_nat_alt ex_kend_def)
    moreover have "unat (0x80100000 + of_nat i :: addr) = 0x80100000 + i" using that(2) by (simp add: unat_word_ariths)
    ultimately show ?thesis using that(2) by (simp add: in_page_iff [OF g(2)])
  qed
  have "\<exists>m'. copyout d 0x1FFE 0x80100000 4 k' = Ok (0, k'\<lparr>km_mem := m'\<rparr>) \<and> umap_ok ex_kend (k'\<lparr>km_mem := m'\<rparr>) d fr' \<and>
    pte_of m' d = pte_of (km_mem k') d \<and>
    (\<forall>x. upresent (km_mem k') d x \<longrightarrow> ubyte m' d x = (if unat (0x1FFE :: addr) \<le> unat x \<and> unat x < unat (0x1FFE :: addr) + unat (4 :: addr)
        then km_mem k' (0x80100000 + of_nat (unat x - unat (0x1FFE :: addr))) else ubyte (km_mem k') d x))"
  proof (rule copyout_correct [OF k'])
    show "\<forall>x. unat (0x1FFE :: addr) \<le> unat x \<and> unat x < unat (0x1FFE :: addr) + unat (4 :: addr) \<longrightarrow>
        upresent (km_mem k') d x \<and> pte_of (km_mem k') d x AND PTE_U \<noteq> 0"
      using up by (auto simp: pn_def div_less_iff_less_mult)
  qed (use low in \<open>auto simp: KERNBASE_def\<close>)
  then obtain m' where m': "copyout d 0x1FFE 0x80100000 4 k' = Ok (0, k'\<lparr>km_mem := m'\<rparr>)"
    "\<forall>x. upresent (km_mem k') d x \<longrightarrow> ubyte m' d x = (if unat (0x1FFE :: addr) \<le> unat x \<and> unat x < unat (0x1FFE :: addr) + unat (4 :: addr)
        then km_mem k' (0x80100000 + of_nat (unat x - unat (0x1FFE :: addr))) else ubyte (km_mem k') d x)" by blast
  have "upresent (km_mem k') d 0x2001" using up [of "0x2001"] by (simp add: pn_def)
  then have "ubyte m' d 0x2001 = km_mem k' 0x80100003" using spec [OF m'(2), of "0x2001"] by simp
  then show ?thesis using m'(1) by blast
qed

text \<open>C13. Copying an address space, as \<^verbatim>\<open>fork\<close> does. When every page below \<open>sz\<close> is mapped in the source and memory suffices for
  the pages and the page tables, \<^verbatim>\<open>copyuvm\<close> returns a new page directory. Below \<open>sz\<close> each address has the flags and the byte it has in the
  source, above it only the kernel is mapped. The two spaces share no page, nothing in the source's pages is written, and the
  source's own mappings stay.\<close>

theorem copyuvm_correct:
  assumes "umap_ok kend k s (d # fr)" "sz \<le> KERNBASE" "npages sz + 1024 \<le> length fr"
    "kdata mod PGSIZE = 0" "KERNLINK < kdata" "kdata < p2v PHYSTOP" "\<And>va. pn va < npages sz \<Longrightarrow> upresent (km_mem k) s va"
  shows "\<exists>k' fr'. copyuvm kend kdata s sz k = Ok (d, k') \<and> umap_ok kend k' d fr' \<and> umap_ok kend k' s fr' \<and>
    untouched (space (km_mem k) s) (km_mem k) (km_mem k') \<and> space (km_mem k) s \<inter> space (km_mem k') d = {} \<and>
    (\<forall>va. pn va < npages sz \<longrightarrow> upresent (km_mem k') d va \<and> PTE_FLAGS (pte_of (km_mem k') d va) = PTE_FLAGS (pte_of (km_mem k) s va) \<and>
       ubyte (km_mem k') d va = ubyte (km_mem k) s va) \<and>
    (\<forall>va. npages sz \<le> pn va \<longrightarrow> pte_of (km_mem k') d va = kern_pte kdata va)"
  using copyuvm_ok [OF assms order_refl space_aligned [OF assms(1)] space_free [OF assms(1)]] by blast

theorem copyuvm_correct_witness:
  "\<exists>(k :: kmem) s d k'. copyuvm ex_kend ex_kdata s 12288 k = Ok (d, k') \<and> upresent (km_mem k') d 0x2004 \<and> ubyte (km_mem k') d 0x2004 = 0 \<and>
     pte_of (km_mem k') d 0x3000 = 0 \<and> d \<notin> space (km_mem k) s"
proof -
  obtain k :: kmem and s fr0 where k: "umap_ok ex_kend k s fr0" "4000 \<le> length fr0"
    and up: "\<And>x. pn x < 3 \<Longrightarrow> upresent (km_mem k) s x \<and> ubyte (km_mem k) s x = 0" using ex_space by blast
  obtain d fr where fr: "fr0 = d # fr" using k(2) by (cases fr0) auto
  have np: "npages 12288 = 3" by (simp add: npages_def)
  have sz: "12288 \<le> KERNBASE" by (simp add: KERNBASE_def)
  have room: "npages 12288 + 1024 \<le> length fr" using k(2) fr np by simp
  have pr: "upresent (km_mem k) s va" if "pn va < npages 12288" for va using that up np by simp
  obtain k' :: kmem where c: "copyuvm ex_kend ex_kdata s 12288 k = Ok (d, k')"
    "\<forall>va. pn va < 3 \<longrightarrow> upresent (km_mem k') d va \<and> ubyte (km_mem k') d va = ubyte (km_mem k) s va"
    "\<forall>va. 3 \<le> pn va \<longrightarrow> pte_of (km_mem k') d va = kern_pte ex_kdata va" "space (km_mem k) s \<inter> space (km_mem k') d = {}"
    using copyuvm_correct [OF k(1) [unfolded fr] sz room ex_kdata_ok(2-4) pr] unfolding np by blast
  have "d \<in> space (km_mem k') d" by (simp add: space_def vm_pages_def)
  moreover have "pn 0x2004 < 3" "3 \<le> pn 0x3000" by (simp_all add: pn_def)
  moreover have "kern_pte ex_kdata 0x3000 = 0" by (simp add: kern_pte_def KERNBASE_def DEVSPACE_def)
  ultimately show ?thesis using c up by fastforce
qed

text \<open>C14. Freeing an address space leaks nothing: \<^verbatim>\<open>freevm\<close> returns, the free list then holds exactly the pages it held before, the user
  pages, the page tables and the directory, each once, and no other byte of memory has changed.\<close>

theorem freevm_correct:
  assumes "umap_ok kend k d fr" "KERNBASE < kend"
  shows "\<exists>k' fr'. freevm kend d k = Ok k' \<and> freelist_ok kend k' fr' \<and> distinct fr' \<and> set fr' = set fr \<union> vm_pages (km_mem k) d \<union> upages (km_mem k) d \<and>
    untouched_outside (vm_pages (km_mem k) d \<union> upages (km_mem k) d) (km_mem k) (km_mem k')"
  using freevm_ok [OF assms] unfolding space_def by (metis Un_assoc freelist_ok_def)

theorem freevm_correct_witness:
  "\<exists>(k :: kmem) d k' v fr'. freevm ex_kend d k = Ok k' \<and> upage (km_mem k) d 0x2000 = v \<and> freelist_ok ex_kend k' fr' \<and> v \<in> set fr' \<and> d \<in> set fr'"
proof -
  obtain k :: kmem and d fr where k: "umap_ok ex_kend k d fr" and up: "\<And>x. pn x < 3 \<Longrightarrow> upresent (km_mem k) d x" using ex_space by blast
  have "KERNBASE < ex_kend" by (simp add: KERNBASE_def ex_kend_def)
  from freevm_correct [OF k this] obtain k' :: kmem and fr' where 1: "freevm ex_kend d k = Ok k'" "freelist_ok ex_kend k' fr'"
    "set fr' = set fr \<union> vm_pages (km_mem k) d \<union> upages (km_mem k) d" by blast
  have "upresent (km_mem k) d 0x2000" using up [of "0x2000"] by (simp add: pn_def)
  then have "upage (km_mem k) d 0x2000 \<in> set fr'" "d \<in> set fr'" using 1(3) by (auto simp: upages_def vm_pages_def)
  then show ?thesis using 1 by blast
qed

end
