(* ===== verification/VmTerm.thy ===== *)
theory VmTerm
  imports VmExample
begin

text \<open>
  Termination of the loops over page tables, on any memory: whatever the page tables hold, the loops stop, by returning or by a panic; only \<^verbatim>\<open>copyout\<close> can end in a null pointer.
  The loop bound \<open>VMFUEL\<close> of the model is one more than the number of pages of the address space.
\<close>

lemma kfree_stops [simp, stops]: "kfree kend v k \<noteq> Diverge"
  by (simp add: kfree_def)

text \<open>Going up page by page from \<open>a\<close> meets every page number, also past the end of the address space.\<close>

lemma aligned_dvd: "x mod PGSIZE = 0 \<longleftrightarrow> 4096 dvd unat (x :: addr)"
  by (simp add: aligned_iff mod_eq_0_iff_dvd)

lemma aligned_arith:
  assumes "a mod PGSIZE = 0" "b mod PGSIZE = 0"
  shows "(a + b) mod PGSIZE = 0" "(b - a) mod PGSIZE = 0"
proof -
  have d: "4096 dvd unat a" "4096 dvd unat b" using assms by (simp_all add: aligned_dvd)
  have "unat (a + b) = (unat a + unat b) mod 2 ^ 32" by (simp add: unat_word_ariths)
  moreover have "4096 dvd (unat a + unat b) mod 2 ^ 32" using d by (intro dvd_mod dvd_add) simp_all
  ultimately show "(a + b) mod PGSIZE = 0" by (simp add: aligned_dvd)
  have "unat (b - a) = (if unat a \<le> unat b then unat b - unat a else 2 ^ 32 + unat b - unat a)"
    using unat_lt [of a] unat_lt [of b] by (auto simp: unat_sub_if_size word_size)
  moreover have "4096 dvd 2 ^ 32 + unat b - unat a" using d by (intro dvd_diff_nat dvd_add) simp_all
  ultimately show "(b - a) mod PGSIZE = 0" using d by (simp add: aligned_dvd)
qed

lemma pages_left:
  assumes "a mod PGSIZE = 0" "b mod PGSIZE = 0" "a \<noteq> b"
  shows "pn (b - (a + PGSIZE)) + 1 = pn (b - a)" "(a + PGSIZE) mod PGSIZE = 0"
proof -
  show "(a + PGSIZE) mod PGSIZE = 0" using assms(1) by (intro aligned_arith) simp_all
  define x where "x = b - a"
  have "x \<noteq> 0" using assms(3) by (simp add: x_def)
  then have "unat x \<noteq> 0" by (simp add: unat_eq_zero)
  moreover have "4096 dvd unat x" using aligned_arith(2) [OF assms(1,2)] by (simp add: aligned_dvd x_def)
  ultimately have u: "4096 \<le> unat x" by (simp add: dvd_imp_le)
  have "unat (x - PGSIZE) = unat x - 4096" using u by (simp add: unat_sub word_le_nat_alt PGSIZE_def)
  moreover have e: "b - (a + PGSIZE) = x - PGSIZE" by (simp add: x_def)
  ultimately show "pn (b - (a + PGSIZE)) + 1 = pn (b - a)" using u unfolding e x_def [symmetric] by (simp add: pn_def le_div_geq)
qed

lemma mappages_loop_stops:
  "pn (lst - a) < fuel \<Longrightarrow> a mod PGSIZE = 0 \<Longrightarrow> lst mod PGSIZE = 0 \<Longrightarrow> mappages_loop fuel d a lst pa perm k \<noteq> Diverge"
proof (induction fuel arbitrary: a pa k)
  case (Suc f)
  obtain pte k1 where w: "walkpgdir d a True k = (pte, k1)" by (cases "walkpgdir d a True k")
  show ?case
  proof (cases "a = lst")
    case True
    then show ?thesis using w by (simp add: mappages_loop.simps [of "Suc f"] Let_def)
  next
    case False
    note l = pages_left [OF Suc.prems(2,3) False]
    have "pn (lst - (a + PGSIZE)) < f" using l(1) Suc.prems(1) by simp
    then show ?thesis using w Suc.IH [OF _ l(2) Suc.prems(3)] by (simp add: mappages_loop.simps [of "Suc f"] Let_def)
  qed
qed simp

lemma mappages_stops [stops]: "mappages d va sz pa perm k \<noteq> Diverge"
  unfolding mappages_def
  using pn_less [of "PGROUNDDOWN (va + sz - 1) - PGROUNDDOWN va"]
  by (intro mappages_loop_stops) (simp_all add: VMFUEL_def PGROUNDDOWN_aligned)

lemma deallocuvm_loop_stops:
  "npages sz - pn a \<le> fuel \<Longrightarrow> a mod PGSIZE = 0 \<Longrightarrow> npages sz \<le> 0x80000 \<Longrightarrow> deallocuvm_loop fuel kend d a sz (k :: 'a kmem_scheme) \<noteq> Diverge"
proof (induction fuel arbitrary: a k)
  case 0
  then have "\<not> a < sz" by (simp add: aligned_less)
  then show ?case by (simp add: deallocuvm_loop.simps [of 0])
next
  case (Suc f)
  show ?case
  proof (cases "a < sz")
    case True
    then have pa: "pn a < npages sz" "pn a < 0x80000" using Suc.prems(2,3) by (auto simp: aligned_less)
    have nx: "pn (a + PGSIZE) = pn a + 1" "(a + PGSIZE) mod PGSIZE = 0" using pn_next [OF Suc.prems(2)] pa by auto
    note j = jump_table [OF Suc.prems(2) pa(2)]
    have 1: "deallocuvm_loop f kend d (a + PGSIZE) sz k' \<noteq> Diverge" for k' :: "'a kmem_scheme" using Suc.prems(1,3) nx by (intro Suc.IH) auto
    have 2: "deallocuvm_loop f kend d (a + (NPTENTRIES - 1) * PGSIZE + PGSIZE) sz k' \<noteq> Diverge" for k' :: "'a kmem_scheme"
      using Suc.prems(1,3) pa j by (intro Suc.IH) auto
    obtain pte k1 where "walkpgdir d a False k = (pte, k1)" by (cases "walkpgdir d a False k")
    then show ?thesis using 1 2 True by (auto simp: deallocuvm_loop.simps [of "Suc f"] Let_def rbind_Diverge)
  next
    case False
    then show ?thesis by (simp add: deallocuvm_loop.simps [of "Suc f"])
  qed
qed

lemma deallocuvm_stops [stops]: "oldsz \<le> KERNBASE \<Longrightarrow> deallocuvm kend d oldsz newsz k \<noteq> Diverge"
proof -
  assume sz: "oldsz \<le> KERNBASE"
  then have "npages oldsz \<le> 0x80000" by (simp add: word_le_nat_alt KERNBASE_def npages_def)
  moreover have "PGROUNDUP newsz mod PGSIZE = 0"
  proof -
    have "PGROUNDUP newsz = PGROUNDDOWN (newsz + 0xFFF)" by (simp add: PGROUNDUP_def PGROUNDDOWN_def PGSIZE_def add.commute)
    then show ?thesis by (simp add: PGROUNDDOWN_aligned)
  qed
  ultimately have "deallocuvm_loop VMFUEL kend d (PGROUNDUP newsz) oldsz k \<noteq> Diverge" by (intro deallocuvm_loop_stops) (simp_all add: VMFUEL_def)
  then show ?thesis by (auto simp: deallocuvm_def rbind_Diverge)
qed

lemma allocuvm_loop_stops:
  "npages newsz - pn a \<le> fuel \<Longrightarrow> a mod PGSIZE = 0 \<Longrightarrow> newsz < KERNBASE \<Longrightarrow> allocuvm_loop fuel kend d a oldsz newsz (k :: 'a kmem_scheme) \<noteq> Diverge"
proof (induction fuel arbitrary: a k)
  case 0
  then have "\<not> a < newsz" by (simp add: aligned_less)
  then show ?case by (simp add: allocuvm_loop.simps [of 0])
next
  case (Suc f)
  have np: "npages newsz \<le> 0x80000" using Suc.prems(3) by (simp add: word_less_nat_alt KERNBASE_def npages_def)
  have dl: "deallocuvm kend d newsz oldsz k' \<noteq> Diverge" for k' :: "'a kmem_scheme" using Suc.prems(3) by (intro deallocuvm_stops) simp
  show ?case
  proof (cases "a < newsz")
    case True
    then have pa: "pn a < npages newsz" using Suc.prems(2) by (simp add: aligned_less)
    have nx: "pn (a + PGSIZE) = pn a + 1" "(a + PGSIZE) mod PGSIZE = 0" using pn_next [OF Suc.prems(2)] pa np by auto
    have 1: "allocuvm_loop f kend d (a + PGSIZE) oldsz newsz k' \<noteq> Diverge" for k' :: "'a kmem_scheme" using Suc.prems(1,3) nx by (intro Suc.IH) auto
    obtain m k1 where "kalloc k = (m, k1)" by (cases "kalloc k")
    then show ?thesis using 1 dl True by (auto simp: allocuvm_loop.simps [of "Suc f"] rbind_Diverge mappages_stops)
  next
    case False
    then show ?thesis by (simp add: allocuvm_loop.simps [of "Suc f"])
  qed
qed

lemma PGROUNDUP_aligned: "PGROUNDUP x mod PGSIZE = 0"
proof -
  have "PGROUNDUP x = PGROUNDDOWN (x + 0xFFF)" by (simp add: PGROUNDUP_def PGROUNDDOWN_def PGSIZE_def add.commute)
  then show ?thesis by (simp add: PGROUNDDOWN_aligned)
qed

lemma allocuvm_stops [stops]: "allocuvm kend d oldsz newsz k \<noteq> Diverge"
proof (cases "newsz < KERNBASE")
  case True
  have "npages newsz \<le> 0x80000" using True by (simp add: word_less_nat_alt KERNBASE_def npages_def)
  then have "allocuvm_loop VMFUEL kend d (PGROUNDUP oldsz) oldsz newsz k \<noteq> Diverge"
    using True by (intro allocuvm_loop_stops) (simp_all add: VMFUEL_def PGROUNDUP_aligned)
  then show ?thesis by (simp add: allocuvm_def)
qed (simp add: allocuvm_def not_less)

lemma copyout_loop_stops:
  "unat va mod 4096 + unat len \<le> 4096 * fuel \<Longrightarrow> copyout_loop fuel d va buf len (k :: 'a kmem_scheme) \<noteq> Diverge"
proof (induction fuel arbitrary: va buf len k)
  case 0
  then have "len = 0" by (simp add: unat_eq_zero)
  then show ?case by (simp add: copyout_loop.simps [of 0])
next
  case (Suc f)
  let ?va0 = "PGROUNDDOWN va"
  define n where "n = (if len < PGSIZE - (va - ?va0) then len else PGSIZE - (va - ?va0))"
  have un: "unat (PGSIZE - (va - ?va0)) = 4096 - unat va mod 4096"
    using page_offset(1) [of va] by (simp add: unat_sub word_le_nat_alt PGSIZE_def less_imp_le)
  have unn: "unat n = min (unat len) (4096 - unat va mod 4096)" unfolding n_def using un by (auto simp: word_less_nat_alt min_def)
  have ul: "unat (len - n) = unat len - unat n" using unn by (simp add: unat_sub word_le_nat_alt)
  have "unat (?va0 + PGSIZE) mod 4096 = 0" using aligned_arith(1) [OF PGROUNDDOWN_aligned, of PGSIZE] by (simp add: aligned_iff)
  then have "unat (?va0 + PGSIZE) mod 4096 + unat (len - n) \<le> 4096 * f" using Suc.prems ul unn by (auto simp: min_def add.commute split: if_splits)
  then have 1: "copyout_loop f d (?va0 + PGSIZE) b (len - n) k' \<noteq> Diverge" for b and k' :: "'a kmem_scheme" by (rule Suc.IH)
  have "uva2ka d ?va0 k \<noteq> Diverge" by (simp add: uva2ka_def Let_def split: prod.splits)
  then show ?case using 1 by (auto simp: copyout_loop.simps [of "Suc f"] rbind_Diverge Let_def n_def [symmetric])
qed

lemma copyout_stops [stops]: "copyout d va p len k \<noteq> Diverge"
proof -
  have "unat va mod 4096 < 4096" "unat len < 4294967296" using unsigned_less [of len] by simp_all
  moreover have "4096 * VMFUEL = 4294971392" by (simp add: VMFUEL_def)
  ultimately have "unat va mod 4096 + unat len \<le> 4096 * VMFUEL" by linarith
  then show ?thesis unfolding copyout_def by (rule copyout_loop_stops)
qed

lemma freevm_stops [stops]: "freevm kend d k \<noteq> Diverge"
proof -
  have "rfold (freevm_step kend d) is k' \<noteq> Diverge" for "is" and k' :: "'a kmem_scheme"
    by (induction "is" arbitrary: k') (auto simp: rbind_Diverge freevm_step_def Let_def)
  then show ?thesis using deallocuvm_stops [of KERNBASE kend d 0 k] by (auto simp: freevm_def rbind_Diverge)
qed

subsection \<open>How they end\<close>

primrec ends :: "'a res \<Rightarrow> bool" where
  "ends (Ok x) = True"
| "ends (Panic msg) = True"
| "ends NullDeref = False"
| "ends Spin = False"
| "ends Block = False"
| "ends Diverge = False"
| "ends Corrupt = False"

lemma ends_iff: "ends r \<longleftrightarrow> (\<exists>x. r = Ok x) \<or> (\<exists>msg. r = Panic msg)"
  by (cases r) simp_all

definition ends_or_loops :: "'a res \<Rightarrow> bool" where
  "ends_or_loops r \<longleftrightarrow> ends r \<or> r = Diverge"

lemma ends_or_loops_simps [simp]: "ends_or_loops (Ok x)" "ends_or_loops (Panic msg)" "ends_or_loops Diverge"
  by (simp_all add: ends_or_loops_def)

lemma ends_or_loops_rbind: "ends_or_loops m \<Longrightarrow> (\<And>x. ends_or_loops (f x)) \<Longrightarrow> ends_or_loops (rbind m f)"
  by (cases m) (simp_all add: ends_or_loops_def)

lemma endsI: "ends_or_loops m \<Longrightarrow> m \<noteq> Diverge \<Longrightarrow> ends m"
  by (simp add: ends_or_loops_def)

lemma kfree_ends [simp]: "ends_or_loops (kfree kend v k)"
  by (simp add: kfree_def Let_def)

lemma mappages_ends_or_loops [simp]: "ends_or_loops (mappages d va sz pa perm k)"
proof -
  have "ends_or_loops (mappages_loop fuel d a lst pa perm k)" for fuel a lst pa and k :: "'a kmem_scheme"
    by (induction fuel arbitrary: a pa k) (simp_all add: mappages_loop.simps Let_def split: prod.splits)
  then show ?thesis unfolding mappages_def .
qed

lemma deallocuvm_ends_or_loops [simp]: "ends_or_loops (deallocuvm kend d oldsz newsz k)"
proof -
  have "ends_or_loops (deallocuvm_loop fuel kend d a sz k)" for fuel a sz and k :: "'a kmem_scheme"
  proof (induction fuel arbitrary: a k)
    case (Suc f)
    then show ?case by (auto simp: deallocuvm_loop.simps [of "Suc f"] Let_def split: prod.splits intro!: ends_or_loops_rbind)
  qed (simp add: deallocuvm_loop.simps [of 0])
  then show ?thesis by (auto simp: deallocuvm_def intro!: ends_or_loops_rbind)
qed

lemma allocuvm_ends_or_loops [simp]: "ends_or_loops (allocuvm kend d oldsz newsz k)"
proof -
  have "ends_or_loops (allocuvm_loop fuel kend d a oldsz newsz k)" for fuel a and k :: "'a kmem_scheme"
  proof (induction fuel arbitrary: a k)
    case (Suc f)
    then show ?case by (auto simp: allocuvm_loop.simps [of "Suc f"] split: prod.splits intro!: ends_or_loops_rbind)
  qed (simp add: allocuvm_loop.simps [of 0])
  then show ?thesis by (simp add: allocuvm_def)
qed

lemma freevm_ends_or_loops [simp]: "ends_or_loops (freevm kend d k)"
proof -
  have "ends_or_loops (rfold (freevm_step kend d) is k')" for "is" and k' :: "'a kmem_scheme"
    by (induction "is" arbitrary: k') (auto simp: freevm_step_def Let_def intro!: ends_or_loops_rbind)
  then show ?thesis by (auto simp: freevm_def intro!: ends_or_loops_rbind)
qed

lemma copyout_ends: "(\<exists>r k'. copyout d va p len k = Ok (r, k') \<and> (r = 0 \<or> r = -1)) \<or> copyout d va p len k = NullDeref"
proof -
  have "(\<exists>r k'. copyout_loop fuel d va buf len k = Ok (r, k') \<and> (r = 0 \<or> r = -1)) \<or> copyout_loop fuel d va buf len k = NullDeref \<or> copyout_loop fuel d va buf len k = Diverge"
    for fuel va buf len and k :: "'a kmem_scheme"
  proof (induction fuel arbitrary: va buf len k)
    case (Suc f)
    then show ?case by (simp add: copyout_loop.simps [of "Suc f"] uva2ka_def Let_def split: prod.splits)
  qed (simp add: copyout_loop.simps [of 0])
  then show ?thesis using copyout_stops [of d va p len k] unfolding copyout_def by blast
qed

lemma copyout_null:
  "0 < len \<Longrightarrow> fst (walkpgdir d (PGROUNDDOWN va) False k) = 0 \<Longrightarrow> copyout d va p len k = NullDeref"
proof -
  assume a: "0 < len" "fst (walkpgdir d (PGROUNDDOWN va) False k) = 0"
  obtain f where f: "VMFUEL = Suc f" by (cases VMFUEL) (simp_all add: VMFUEL_def)
  obtain k1 where "walkpgdir d (PGROUNDDOWN va) False k = (0, k1)" using a(2) by (metis prod.collapse)
  then have "uva2ka d (PGROUNDDOWN va) k = NullDeref" by (simp add: uva2ka_def)
  then show ?thesis using a(1) unfolding copyout_def f by (simp add: copyout_loop.simps [of "Suc f"] Let_def)
qed

text \<open>C18. The loops over page tables stop on every memory, whatever the page directory and the tables hold. Mapping a range (also one that runs past the end of the address space),
  growing, shrinking from a size in user space and freeing everything end with a result or a panic. Copying out ends with the result 0 or -1, or with the dereference of a null pointer:
  \<^verbatim>\<open>uva2ka\<close> does not test the result of \<^verbatim>\<open>walkpgdir\<close>, and this does happen when there is no page table for the first page of a range that is not empty.\<close>

theorem vm_loops_stop:
  assumes "oldsz \<le> KERNBASE"
  shows "ends (mappages d va sz pa perm k) \<and> ends (allocuvm kend d oldsz newsz k) \<and> ends (deallocuvm kend d oldsz newsz k) \<and> ends (freevm kend d k) \<and>
    ((\<exists>r k'. copyout d va p len k = Ok (r, k') \<and> (r = 0 \<or> r = -1)) \<or> copyout d va p len k = NullDeref) \<and>
    (0 < len \<and> fst (walkpgdir d (PGROUNDDOWN va) False k) = 0 \<longrightarrow> copyout d va p len k = NullDeref)"
  using copyout_ends [of d va p len k] copyout_null [of len d va k p] assms by (simp add: endsI stops)

theorem vm_loops_stop_witness:
  "ends (mappages 0x80400000 0xFFFFF000 0x3000 0 PTE_W ex_mem) \<and> ends (freevm ex_kend 0x80400000 ex_mem)"
  using vm_loops_stop [of 0 "0x80400000" "0xFFFFF000" "0x3000" 0 PTE_W ex_mem ex_kend] by (simp add: KERNBASE_def)

end
