(* ===== verification/Fs.thy ===== *)
theory Fs
  imports Log CString
begin

text \<open>
  The file system \<^verbatim>\<open>fs.c\<close> on top of the log: the block allocator, inodes and their cache, file contents,
  directories and path names, and the \<^verbatim>\<open>chown\<close>, \<^verbatim>\<open>chgrp\<close>, \<^verbatim>\<open>chmod\<close> operations. An inode pointer is
  the index of its slot in the inode cache, \<open>None\<close> the null pointer. On the disk an inode is 64 bytes of its block, encoded and
  decoded as the code's cast to \<^verbatim>\<open>struct dinode\<close> does.

  Block numbers and inode numbers are natural numbers where the code only compares and divides them; sizes,
  offsets and counts keep their 32 bits, because the code tests them for overflow. The bytes that
  \<^verbatim>\<open>readi\<close> stores at its destination are a result of the model, the bytes \<^verbatim>\<open>writei\<close> takes from its source an
  argument. An inode that another process has locked makes the caller sleep: \<open>Block\<close>.
\<close>

subsection \<open>Layout\<close>

definition ROOTINO :: nat where "ROOTINO = 1"
definition ROOTDEV :: nat where "ROOTDEV = 1"
definition NINODE :: nat where "NINODE = 50"
definition NDEV :: int where "NDEV = 10"
definition NDIRECT :: nat where "NDIRECT = 10"
definition NINDIRECT :: nat where "NINDIRECT = BSIZE div 4"
definition MAXFILE :: nat where "MAXFILE = NDIRECT + NINDIRECT"
definition DIRSIZ :: nat where "DIRSIZ = 14"

text \<open>The sizes of \<^verbatim>\<open>struct dinode\<close> and \<^verbatim>\<open>struct dirent\<close>.\<close>

definition DINODESZ :: nat where "DINODESZ = 64"
definition DIRENTSZ :: nat where "DIRENTSZ = 16"

definition IPB :: nat where "IPB = BSIZE div DINODESZ"
definition IBLOCK :: "nat \<Rightarrow> superblock \<Rightarrow> nat" where "IBLOCK i sb = i div IPB + sb_inodestart sb"
definition BPB :: nat where "BPB = BSIZE * 8"
definition BBLOCK :: "nat \<Rightarrow> superblock \<Rightarrow> nat" where "BBLOCK b sb = b div BPB + sb_bmapstart sb"

definition T_DIR :: "16 word" where "T_DIR = 1"
definition T_FILE :: "16 word" where "T_FILE = 2"
definition T_DEV :: "16 word" where "T_DEV = 3"

text \<open>The fields of \<^verbatim>\<open>struct dinode\<close>, which the in-memory \<^verbatim>\<open>struct inode\<close> copies.\<close>

record dinode =
  d_type :: "16 word"
  d_major :: "16 word"
  d_minor :: "16 word"
  d_nlink :: "16 word"
  d_uid :: "16 word"
  d_gid :: "16 word"
  d_mode :: "32 word"
  d_size :: "32 word"
  d_addrs :: "nat list"

record inode =
  i_dev :: nat
  i_inum :: nat
  i_ref :: int
  i_busy :: bool
  i_valid :: bool
  i_d :: dinode

record stat =
  st_type :: "16 word"
  st_dev :: nat
  st_ino :: nat
  st_nlink :: "16 word"
  st_size :: "32 word"
  st_uid :: "16 word"
  st_gid :: "16 word"
  st_mode :: "32 word"

record fsst = logst +
  fs_sb :: superblock
  ic_inode :: "nat \<Rightarrow> inode"

text \<open>The device switch; a missing function is \<open>None\<close>. A device works on the inode's slot and the state.\<close>

record 'st devsw =
  dev_read :: "int \<Rightarrow> (nat \<Rightarrow> 32 word \<Rightarrow> 'st \<Rightarrow> (int \<times> byte list \<times> 'st) res) option"
  dev_write :: "int \<Rightarrow> (nat \<Rightarrow> byte list \<Rightarrow> 'st \<Rightarrow> (int \<times> 'st) res) option"

definition upd_inode :: "nat \<Rightarrow> (inode \<Rightarrow> inode) \<Rightarrow> 'a fsst_scheme \<Rightarrow> 'a fsst_scheme" where
  "upd_inode ip f s = s\<lparr>ic_inode := (ic_inode s)(ip := f (ic_inode s ip))\<rparr>"

definition upd_dinode :: "nat \<Rightarrow> (dinode \<Rightarrow> dinode) \<Rightarrow> 'a fsst_scheme \<Rightarrow> 'a fsst_scheme" where
  "upd_dinode ip f s = upd_inode ip (\<lambda>x. x\<lparr>i_d := f (i_d x)\<rparr>) s"

abbreviation set_data :: "nat \<Rightarrow> block \<Rightarrow> 'a bcache_scheme \<Rightarrow> 'a bcache_scheme" where
  "set_data i d s \<equiv> upd_buf i (\<lambda>x. x\<lparr>b_data := d\<rparr>) s"

definition deref :: "'p option \<Rightarrow> ('p \<Rightarrow> 'b res) \<Rightarrow> 'b res" where
  "deref p f = (case p of None \<Rightarrow> NullDeref | Some x \<Rightarrow> f x)"

subsection \<open>Encoding of inodes and directory entries\<close>

definition get16 :: "block \<Rightarrow> nat \<Rightarrow> 16 word" where
  "get16 d k = ucast (d ! k) OR push_bit 8 (ucast (d ! (k + 1)))"

definition put16 :: "nat \<Rightarrow> 16 word \<Rightarrow> block \<Rightarrow> block" where
  "put16 k w d = d[k := ucast w, k + 1 := ucast (drop_bit 8 w)]"

text \<open>Inode \<open>inum\<close> starts at this byte of its block.\<close>

definition dip_off :: "nat \<Rightarrow> nat" where "dip_off inum = (inum mod IPB) * DINODESZ"

definition get_dinode :: "nat \<Rightarrow> block \<Rightarrow> dinode" where
  "get_dinode o' d = \<lparr>d_type = get16 d o', d_major = get16 d (o' + 2), d_minor = get16 d (o' + 4), d_nlink = get16 d (o' + 6),
     d_uid = get16 d (o' + 8), d_gid = get16 d (o' + 10), d_mode = get32 d (o' + 12), d_size = get32 d (o' + 16),
     d_addrs = map (\<lambda>k. unat (get32 d (o' + 20 + 4 * k))) [0..<NDIRECT + 1]\<rparr>"

definition put_dinode :: "nat \<Rightarrow> dinode \<Rightarrow> block \<Rightarrow> block" where
  "put_dinode o' x d =
     fold (\<lambda>k. put32 (o' + 20 + 4 * k) (of_nat (d_addrs x ! k))) [0..<NDIRECT + 1]
       (put32 (o' + 12) (d_mode x) (put16 (o' + 10) (d_gid x) (put16 (o' + 8) (d_uid x)
         (put32 (o' + 16) (d_size x) (put16 (o' + 6) (d_nlink x) (put16 (o' + 4) (d_minor x)
           (put16 (o' + 2) (d_major x) (put16 o' (d_type x) d))))))))"

text \<open>A directory entry is its inode number and the 14 bytes of its name.\<close>

record dirent =
  de_inum :: "16 word"
  de_name :: "byte list"

definition get_dirent :: "byte list \<Rightarrow> dirent" where
  "get_dirent bs = \<lparr>de_inum = get16 bs 0, de_name = take DIRSIZ (drop 2 bs)\<rparr>"

definition dirent_bytes :: "dirent \<Rightarrow> byte list" where
  "dirent_bytes de = [ucast (de_inum de), ucast (drop_bit 8 (de_inum de))] @ de_name de"

subsection \<open>Blocks\<close>

definition bzero :: "nat \<Rightarrow> nat \<Rightarrow> 'a fsst_scheme \<Rightarrow> 'a fsst_scheme res" where
  "bzero dev bno s =
     rbind (bread dev bno s) (\<lambda>(bp, s1).
     rbind (log_write bp (set_data bp (replicate BSIZE 0) s1)) (brelse bp))"

text \<open>Bit \<open>bi\<close> of a bitmap block, and the scan for a clear one below the size of the disk.\<close>

definition bit_mask :: "nat \<Rightarrow> byte" where "bit_mask bi = push_bit (bi mod 8) 1"

definition bit_clear :: "block \<Rightarrow> nat \<Rightarrow> bool" where
  "bit_clear d bi \<longleftrightarrow> (d ! (bi div 8)) AND bit_mask bi = 0"

fun balloc_scan :: "block \<Rightarrow> nat \<Rightarrow> nat \<Rightarrow> nat \<Rightarrow> nat \<Rightarrow> nat option" where
  "balloc_scan d b sz 0 bi = None"
| "balloc_scan d b sz (Suc k) bi =
     (if b + bi < sz then (if bit_clear d bi then Some bi else balloc_scan d b sz k (Suc bi)) else None)"

fun balloc_loop :: "nat \<Rightarrow> nat \<Rightarrow> nat \<Rightarrow> 'a fsst_scheme \<Rightarrow> (nat \<times> 'a fsst_scheme) res" where
  "balloc_loop fuel dev b s =
     (if b < sb_size (fs_sb s) then
        (case fuel of 0 \<Rightarrow> Diverge
         | Suc f \<Rightarrow>
           rbind (bread dev (BBLOCK b (fs_sb s)) s) (\<lambda>(bp, s1).
           let d = b_data (bc_buf s1 bp) in
           case balloc_scan d b (sb_size (fs_sb s1)) BPB 0 of
             Some bi \<Rightarrow>
               rbind (log_write bp (set_data bp (d[bi div 8 := d ! (bi div 8) OR bit_mask bi]) s1)) (\<lambda>s2.
               rbind (brelse bp s2) (\<lambda>s3.
               rbind (bzero dev (b + bi) s3) (\<lambda>s4. Ok (b + bi, s4))))
           | None \<Rightarrow> rbind (brelse bp s1) (balloc_loop f dev (b + BPB))))
      else Panic ''balloc: out of blocks'')"

declare balloc_loop.simps [simp del]

definition balloc :: "nat \<Rightarrow> 'a fsst_scheme \<Rightarrow> (nat \<times> 'a fsst_scheme) res" where
  "balloc dev s = balloc_loop (sb_size (fs_sb s)) dev 0 s"

definition bfree :: "nat \<Rightarrow> nat \<Rightarrow> 'a fsst_scheme \<Rightarrow> 'a fsst_scheme res" where
  "bfree dev b s =
     rbind (readsb dev s) (\<lambda>(sb, s0).
     let s1 = s0\<lparr>fs_sb := sb\<rparr> in
     rbind (bread dev (BBLOCK b (fs_sb s1)) s1) (\<lambda>(bp, s2).
     let bi = b mod BPB; d = b_data (bc_buf s2 bp) in
     if bit_clear d bi then Panic ''freeing free block''
     else rbind (log_write bp (set_data bp (d[bi div 8 := d ! (bi div 8) AND NOT (bit_mask bi)]) s2)) (brelse bp)))"

subsection \<open>Inodes\<close>

definition iinit :: "nat \<Rightarrow> 'a fsst_scheme \<Rightarrow> 'a fsst_scheme res" where
  "iinit dev s = rbind (readsb dev s) (\<lambda>(sb, s1). Ok (s1\<lparr>fs_sb := sb\<rparr>))"

text \<open>The scan of \<^verbatim>\<open>iget\<close>: the slot that holds the inode, or else the first free slot.\<close>

fun iget_scan :: "nat \<Rightarrow> nat \<Rightarrow> (nat \<Rightarrow> inode) \<Rightarrow> nat list \<Rightarrow> nat option \<Rightarrow> nat option \<times> nat option" where
  "iget_scan dev inum ic [] emp = (None, emp)"
| "iget_scan dev inum ic (ip # ips) emp =
     (if 0 < i_ref (ic ip) \<and> i_dev (ic ip) = dev \<and> i_inum (ic ip) = inum then (Some ip, emp)
      else iget_scan dev inum ic ips (if emp = None \<and> i_ref (ic ip) = 0 then Some ip else emp))"

definition iget :: "nat \<Rightarrow> nat \<Rightarrow> 'a fsst_scheme \<Rightarrow> (nat \<times> 'a fsst_scheme) res" where
  "iget dev inum s =
     (case iget_scan dev inum (ic_inode s) [0..<NINODE] None of
        (Some ip, _) \<Rightarrow> Ok (ip, upd_inode ip (\<lambda>x. x\<lparr>i_ref := i_ref x + 1\<rparr>) s)
      | (None, None) \<Rightarrow> Panic ''iget: no inodes''
      | (None, Some ip) \<Rightarrow>
          Ok (ip, upd_inode ip (\<lambda>x. x\<lparr>i_dev := dev, i_inum := inum, i_ref := 1, i_busy := False, i_valid := False\<rparr>) s))"

text \<open>\<^verbatim>\<open>memset\<close> of one inode of a block to zero, and its new type.\<close>

definition clear_dinode :: "nat \<Rightarrow> 16 word \<Rightarrow> block \<Rightarrow> block" where
  "clear_dinode o' type d = put16 o' type (take o' d @ replicate DINODESZ 0 @ drop (o' + DINODESZ) d)"

fun ialloc_loop :: "nat \<Rightarrow> nat \<Rightarrow> 16 word \<Rightarrow> nat \<Rightarrow> 'a fsst_scheme \<Rightarrow> (nat \<times> 'a fsst_scheme) res" where
  "ialloc_loop fuel dev type inum s =
     (if inum < sb_ninodes (fs_sb s) then
        (case fuel of 0 \<Rightarrow> Diverge
         | Suc f \<Rightarrow>
           rbind (bread dev (IBLOCK inum (fs_sb s)) s) (\<lambda>(bp, s1).
           let d = b_data (bc_buf s1 bp) in
           if get16 d (dip_off inum) = 0 then
             rbind (log_write bp (set_data bp (clear_dinode (dip_off inum) type d) s1)) (\<lambda>s2.
             rbind (brelse bp s2) (iget dev inum))
           else rbind (brelse bp s1) (ialloc_loop f dev type (Suc inum))))
      else Panic ''ialloc: no inodes'')"

declare ialloc_loop.simps [simp del]

definition ialloc :: "nat \<Rightarrow> 16 word \<Rightarrow> 'a fsst_scheme \<Rightarrow> (nat \<times> 'a fsst_scheme) res" where
  "ialloc dev type s = ialloc_loop (sb_ninodes (fs_sb s)) dev type 1 s"

definition iupdate :: "nat \<Rightarrow> 'a fsst_scheme \<Rightarrow> 'a fsst_scheme res" where
  "iupdate ip s =
     (let x = ic_inode s ip in
      rbind (bread (i_dev x) (IBLOCK (i_inum x) (fs_sb s)) s) (\<lambda>(bp, s1).
      rbind (log_write bp (set_data bp (put_dinode (dip_off (i_inum x)) (i_d x) (b_data (bc_buf s1 bp))) s1)) (brelse bp)))"

definition idup :: "nat option \<Rightarrow> 'a fsst_scheme \<Rightarrow> (nat option \<times> 'a fsst_scheme) res" where
  "idup ip s = deref ip (\<lambda>i. Ok (ip, upd_inode i (\<lambda>x. x\<lparr>i_ref := i_ref x + 1\<rparr>) s))"

definition ilock :: "nat option \<Rightarrow> 'a fsst_scheme \<Rightarrow> 'a fsst_scheme res" where
  "ilock ip s =
     (case ip of None \<Rightarrow> Panic ''ilock''
      | Some i \<Rightarrow>
        if i_ref (ic_inode s i) < 1 then Panic ''ilock''
        else if i_busy (ic_inode s i) then Block
        else let s1 = upd_inode i (\<lambda>x. x\<lparr>i_busy := True\<rparr>) s in
          if i_valid (ic_inode s1 i) then Ok s1
          else let x = ic_inode s1 i in
            rbind (bread (i_dev x) (IBLOCK (i_inum x) (fs_sb s1)) s1) (\<lambda>(bp, s2).
            let di = get_dinode (dip_off (i_inum x)) (b_data (bc_buf s2 bp)) in
            rbind (brelse bp (upd_dinode i (\<lambda>_. di) s2)) (\<lambda>s3.
            let s4 = upd_inode i (\<lambda>x. x\<lparr>i_valid := True\<rparr>) s3 in
            if d_type (i_d (ic_inode s4 i)) = 0 then Panic ''ilock: no type'' else Ok s4)))"

definition iunlock :: "nat option \<Rightarrow> 'a fsst_scheme \<Rightarrow> 'a fsst_scheme res" where
  "iunlock ip s =
     (case ip of None \<Rightarrow> Panic ''iunlock''
      | Some i \<Rightarrow>
        if \<not> i_busy (ic_inode s i) \<or> i_ref (ic_inode s i) < 1 then Panic ''iunlock''
        else Ok (wake (ChInode i) (upd_inode i (\<lambda>x. x\<lparr>i_busy := False\<rparr>) s)))"

subsection \<open>Contents\<close>

text \<open>\<^verbatim>\<open>bmap\<close>: a direct block, or a word of the indirect block; missing blocks are allocated.\<close>

definition bmap_direct :: "nat \<Rightarrow> nat \<Rightarrow> 'a fsst_scheme \<Rightarrow> (nat \<times> 'a fsst_scheme) res" where
  "bmap_direct ip k s =
     (let addr = d_addrs (i_d (ic_inode s ip)) ! k in
      if addr = 0 then
        rbind (balloc (i_dev (ic_inode s ip)) s) (\<lambda>(addr, s1).
        Ok (addr, upd_dinode ip (\<lambda>x. x\<lparr>d_addrs := (d_addrs x)[k := addr]\<rparr>) s1))
      else Ok (addr, s))"

definition bmap :: "nat \<Rightarrow> nat \<Rightarrow> 'a fsst_scheme \<Rightarrow> (nat \<times> 'a fsst_scheme) res" where
  "bmap ip bn s =
     (if bn < NDIRECT then bmap_direct ip bn s
      else if bn - NDIRECT < NINDIRECT then
        rbind (bmap_direct ip NDIRECT s) (\<lambda>(ind, s1).
        rbind (bread (i_dev (ic_inode s1 ip)) ind s1) (\<lambda>(bp, s2).
        let k = bn - NDIRECT; addr = unat (get32 (b_data (bc_buf s2 bp)) (4 * k)) in
        if addr = 0 then
          rbind (balloc (i_dev (ic_inode s2 ip)) s2) (\<lambda>(addr, s3).
          rbind (log_write bp (set_data bp (put32 (4 * k) (of_nat addr) (b_data (bc_buf s3 bp))) s3)) (\<lambda>s4.
          rbind (brelse bp s4) (\<lambda>s5. Ok (addr, s5))))
        else rbind (brelse bp s2) (\<lambda>s3. Ok (addr, s3))))
      else Panic ''bmap: out of range'')"

definition itrunc_direct :: "nat \<Rightarrow> nat \<Rightarrow> 'a fsst_scheme \<Rightarrow> 'a fsst_scheme res" where
  "itrunc_direct ip k s =
     (let addr = d_addrs (i_d (ic_inode s ip)) ! k in
      if addr \<noteq> 0 then
        rbind (bfree (i_dev (ic_inode s ip)) addr s) (\<lambda>s1.
        Ok (upd_dinode ip (\<lambda>x. x\<lparr>d_addrs := (d_addrs x)[k := 0]\<rparr>) s1))
      else Ok s)"

definition itrunc_word :: "nat \<Rightarrow> nat \<Rightarrow> nat \<Rightarrow> 'a fsst_scheme \<Rightarrow> 'a fsst_scheme res" where
  "itrunc_word dev bp j s =
     (let a = unat (get32 (b_data (bc_buf s bp)) (4 * j)) in if a \<noteq> 0 then bfree dev a s else Ok s)"

definition itrunc :: "nat \<Rightarrow> 'a fsst_scheme \<Rightarrow> 'a fsst_scheme res" where
  "itrunc ip s =
     rbind (rfold (itrunc_direct ip) [0..<NDIRECT] s) (\<lambda>s1.
     let ind = d_addrs (i_d (ic_inode s1 ip)) ! NDIRECT; dev = i_dev (ic_inode s1 ip) in
     rbind (if ind \<noteq> 0 then
              rbind (bread dev ind s1) (\<lambda>(bp, s2).
              rbind (rfold (itrunc_word dev bp) [0..<NINDIRECT] s2) (\<lambda>s3.
              rbind (brelse bp s3) (\<lambda>s4.
              rbind (bfree dev ind s4) (\<lambda>s5.
              Ok (upd_dinode ip (\<lambda>x. x\<lparr>d_addrs := (d_addrs x)[NDIRECT := 0]\<rparr>) s5)))))
            else Ok s1) (\<lambda>s6.
     iupdate ip (upd_dinode ip (\<lambda>x. x\<lparr>d_size := 0\<rparr>) s6)))"

definition iput :: "nat option \<Rightarrow> 'a fsst_scheme \<Rightarrow> 'a fsst_scheme res" where
  "iput ip s =
     deref ip (\<lambda>i.
     let x = ic_inode s i in
     rbind (if i_ref x = 1 \<and> i_valid x \<and> d_nlink (i_d x) = 0 then
              if i_busy x then Panic ''iput busy''
              else rbind (itrunc i (upd_inode i (\<lambda>x. x\<lparr>i_busy := True\<rparr>) s)) (\<lambda>s1.
                   rbind (iupdate i (upd_dinode i (\<lambda>d. d\<lparr>d_type := 0\<rparr>) s1)) (\<lambda>s2.
                   Ok (wake (ChInode i) (upd_inode i (\<lambda>x. x\<lparr>i_busy := False, i_valid := False\<rparr>) s2))))
            else Ok s) (\<lambda>s3.
     Ok (upd_inode i (\<lambda>x. x\<lparr>i_ref := i_ref x - 1\<rparr>) s3)))"

definition iunlockput :: "nat option \<Rightarrow> 'a fsst_scheme \<Rightarrow> 'a fsst_scheme res" where
  "iunlockput ip s = rbind (iunlock ip s) (iput ip)"

definition stati :: "inode \<Rightarrow> stat" where
  "stati x = \<lparr>st_type = d_type (i_d x), st_dev = i_dev x, st_ino = i_inum x, st_nlink = d_nlink (i_d x), st_size = d_size (i_d x),
     st_uid = d_uid (i_d x), st_gid = d_gid (i_d x), st_mode = d_mode (i_d x)\<rparr>"

text \<open>One pass of the loops of \<^verbatim>\<open>readi\<close> and \<^verbatim>\<open>writei\<close> moves as much as the block and the request allow.\<close>

definition chunk :: "32 word \<Rightarrow> 32 word \<Rightarrow> 32 word \<Rightarrow> nat" where
  "chunk n tot off = unat (min (n - tot) (of_nat BSIZE - off mod of_nat BSIZE))"

fun readi_loop :: "nat \<Rightarrow> nat \<Rightarrow> 32 word \<Rightarrow> 32 word \<Rightarrow> 32 word \<Rightarrow> 'a fsst_scheme \<Rightarrow> (byte list \<times> 'a fsst_scheme) res" where
  "readi_loop fuel ip off n tot s =
     (if tot < n then
        (case fuel of 0 \<Rightarrow> Diverge
         | Suc f \<Rightarrow>
           rbind (bmap ip (unat (off div of_nat BSIZE)) s) (\<lambda>(b, s1).
           rbind (bread (i_dev (ic_inode s1 ip)) b s1) (\<lambda>(bp, s2).
           let m = chunk n tot off; o' = unat (off mod of_nat BSIZE);
               bs = take m (drop o' (b_data (bc_buf s2 bp))) in
           rbind (brelse bp s2) (\<lambda>s3.
           rbind (readi_loop f ip (off + of_nat m) n (tot + of_nat m) s3) (\<lambda>(cs, s4).
           Ok (bs @ cs, s4))))))
      else Ok ([], s))"

declare readi_loop.simps [simp del]

definition readi :: "'a fsst_scheme devsw \<Rightarrow> nat \<Rightarrow> 32 word \<Rightarrow> 32 word \<Rightarrow> 'a fsst_scheme \<Rightarrow>
    (int \<times> byte list \<times> 'a fsst_scheme) res" where
  "readi dv ip off n s =
     (let di = i_d (ic_inode s ip) in
      if d_type di = T_DEV then
        let maj = sint (d_major di) in
        (if maj < 0 \<or> NDEV \<le> maj then Ok (-1, [], s)
         else case dev_read dv maj of None \<Rightarrow> Ok (-1, [], s) | Some f \<Rightarrow> f ip n s)
      else if d_size di < off \<or> off + n < off then Ok (-1, [], s)
      else let n' = (if d_size di < off + n then d_size di - off else n) in
        rbind (readi_loop (unat n') ip off n' 0 s) (\<lambda>(bs, s1). Ok (sint n', bs, s1)))"

fun writei_loop :: "nat \<Rightarrow> nat \<Rightarrow> byte list \<Rightarrow> 32 word \<Rightarrow> 32 word \<Rightarrow> 32 word \<Rightarrow> 'a fsst_scheme \<Rightarrow> (32 word \<times> 'a fsst_scheme) res" where
  "writei_loop fuel ip src off n tot s =
     (if tot < n then
        (case fuel of 0 \<Rightarrow> Diverge
         | Suc f \<Rightarrow>
           rbind (bmap ip (unat (off div of_nat BSIZE)) s) (\<lambda>(b, s1).
           rbind (bread (i_dev (ic_inode s1 ip)) b s1) (\<lambda>(bp, s2).
           let m = chunk n tot off; o' = unat (off mod of_nat BSIZE); d = b_data (bc_buf s2 bp) in
           rbind (log_write bp (set_data bp (take o' d @ take m src @ drop (o' + m) d) s2)) (\<lambda>s3.
           rbind (brelse bp s3) (\<lambda>s4.
           writei_loop f ip (drop m src) (off + of_nat m) n (tot + of_nat m) s4)))))
      else Ok (off, s))"

declare writei_loop.simps [simp del]

text \<open>The source is the list of the \<open>n\<close> bytes at \<^verbatim>\<open>src\<close>.\<close>

definition writei :: "'a fsst_scheme devsw \<Rightarrow> nat \<Rightarrow> byte list \<Rightarrow> 32 word \<Rightarrow> 32 word \<Rightarrow> 'a fsst_scheme \<Rightarrow> (int \<times> 'a fsst_scheme) res" where
  "writei dv ip src off n s =
     (let di = i_d (ic_inode s ip) in
      if d_type di = T_DEV then
        let maj = sint (d_major di) in
        (if maj < 0 \<or> NDEV \<le> maj then Ok (-1, s)
         else case dev_write dv maj of None \<Rightarrow> Ok (-1, s) | Some f \<Rightarrow> f ip src s)
      else if d_size di < off \<or> off + n < off then Ok (-1, s)
      else if of_nat (MAXFILE * BSIZE) < off + n then Ok (-1, s)
      else rbind (writei_loop (unat n) ip src off n 0 s) (\<lambda>(off', s1).
           rbind (if 0 < n \<and> d_size (i_d (ic_inode s1 ip)) < off'
                  then iupdate ip (upd_dinode ip (\<lambda>d. d\<lparr>d_size := off'\<rparr>) s1) else Ok s1) (\<lambda>s2.
           Ok (sint n, s2))))"

subsection \<open>Directories\<close>

text \<open>
  A name is the bytes before its terminating null byte, or all \<^verbatim>\<open>DIRSIZ\<close> bytes of a full buffer; past the
  end of the list the byte is the null byte. \<^verbatim>\<open>namecmp\<close> is \<^verbatim>\<open>strncmp\<close> over \<^verbatim>\<open>DIRSIZ\<close> bytes.
\<close>

definition chr_at :: "byte list \<Rightarrow> nat \<Rightarrow> byte" where
  "chr_at xs k = (if k < length xs then xs ! k else 0)"

fun namecmp_loop :: "nat \<Rightarrow> byte list \<Rightarrow> byte list \<Rightarrow> nat \<Rightarrow> int" where
  "namecmp_loop 0 p q k = 0"
| "namecmp_loop (Suc n) p q k =
     (if chr_at p k \<noteq> 0 \<and> chr_at p k = chr_at q k then namecmp_loop n p q (Suc k)
      else int (unat (chr_at p k)) - int (unat (chr_at q k)))"

definition namecmp :: "byte list \<Rightarrow> byte list \<Rightarrow> int" where
  "namecmp p q = namecmp_loop DIRSIZ p q 0"

definition read_dirent :: "'a fsst_scheme devsw \<Rightarrow> nat \<Rightarrow> 32 word \<Rightarrow> 'a fsst_scheme \<Rightarrow> (dirent \<times> 'a fsst_scheme) res" where
  "read_dirent dv dp off s =
     rbind (readi dv dp off (of_nat DIRENTSZ) s) (\<lambda>(n, bs, s1).
     if n \<noteq> int DIRENTSZ then Panic ''dirlink read'' else Ok (get_dirent bs, s1))"

fun dirlookup_loop :: "nat \<Rightarrow> 'a fsst_scheme devsw \<Rightarrow> nat \<Rightarrow> byte list \<Rightarrow> 32 word \<Rightarrow> 'a fsst_scheme \<Rightarrow>
    ((nat \<times> 32 word) option \<times> 'a fsst_scheme) res" where
  "dirlookup_loop fuel dv dp name off s =
     (if off < d_size (i_d (ic_inode s dp)) then
        (case fuel of 0 \<Rightarrow> Diverge
         | Suc f \<Rightarrow>
           rbind (read_dirent dv dp off s) (\<lambda>(de, s1).
           if de_inum de \<noteq> 0 \<and> namecmp name (de_name de) = 0
           then rbind (iget (i_dev (ic_inode s1 dp)) (unat (de_inum de)) s1) (\<lambda>(ip, s2). Ok (Some (ip, off), s2))
           else dirlookup_loop f dv dp name (off + of_nat DIRENTSZ) s1))
      else Ok (None, s))"

declare dirlookup_loop.simps [simp del]

text \<open>More entries than a file of the largest size has.\<close>

definition DIRFUEL :: nat where "DIRFUEL = 2 ^ 28"

text \<open>The result is the inode with the offset of its entry, which the code stores at \<^verbatim>\<open>poff\<close>.\<close>

definition dirlookup :: "'a fsst_scheme devsw \<Rightarrow> nat \<Rightarrow> byte list \<Rightarrow> 'a fsst_scheme \<Rightarrow>
    ((nat \<times> 32 word) option \<times> 'a fsst_scheme) res" where
  "dirlookup dv dp name s =
     (if d_type (i_d (ic_inode s dp)) \<noteq> T_DIR then Panic ''dirlookup not DIR''
      else dirlookup_loop DIRFUEL dv dp name 0 s)"

text \<open>The first free entry, or the end of the directory; \<^verbatim>\<open>strncpy\<close> pads the name with null bytes.\<close>

fun dirlink_scan :: "nat \<Rightarrow> 'a fsst_scheme devsw \<Rightarrow> nat \<Rightarrow> 32 word \<Rightarrow> 'a fsst_scheme \<Rightarrow> (32 word \<times> 'a fsst_scheme) res" where
  "dirlink_scan fuel dv dp off s =
     (if off < d_size (i_d (ic_inode s dp)) then
        (case fuel of 0 \<Rightarrow> Diverge
         | Suc f \<Rightarrow>
           rbind (read_dirent dv dp off s) (\<lambda>(de, s1).
           if de_inum de = 0 then Ok (off, s1) else dirlink_scan f dv dp (off + of_nat DIRENTSZ) s1))
      else Ok (off, s))"

declare dirlink_scan.simps [simp del]

definition name_field :: "byte list \<Rightarrow> byte list" where
  "name_field name = take DIRSIZ (takeWhile (\<lambda>c. c \<noteq> 0) name @ replicate DIRSIZ 0)"

definition dirlink :: "'a fsst_scheme devsw \<Rightarrow> nat \<Rightarrow> byte list \<Rightarrow> nat \<Rightarrow> 'a fsst_scheme \<Rightarrow> (int \<times> 'a fsst_scheme) res" where
  "dirlink dv dp name inum s =
     rbind (dirlookup dv dp name s) (\<lambda>(r, s1).
     case r of
       Some (ip, _) \<Rightarrow> rbind (iput (Some ip) s1) (\<lambda>s2. Ok (-1, s2))
     | None \<Rightarrow>
         rbind (dirlink_scan DIRFUEL dv dp 0 s1) (\<lambda>(off, s2).
         rbind (writei dv dp (dirent_bytes \<lparr>de_inum = of_nat inum, de_name = name_field name\<rparr>) off (of_nat DIRENTSZ) s2) (\<lambda>(n, s3).
         if n \<noteq> int DIRENTSZ then Panic ''dirlink'' else Ok (0, s3))))"

subsection \<open>Paths\<close>

definition SLASH :: byte where "SLASH = 47"

text \<open>\<^verbatim>\<open>skipelem\<close>: the path after the element, and the element cut to \<^verbatim>\<open>DIRSIZ\<close> bytes. A path is the list of its
  bytes before the null byte.\<close>

definition skipelem :: "byte list \<Rightarrow> (byte list \<times> byte list) option" where
  "skipelem path =
     (let path1 = dropWhile (\<lambda>c. c = SLASH) path in
      if path1 = [] then None
      else let elem = takeWhile (\<lambda>c. c \<noteq> SLASH) path1; path2 = dropWhile (\<lambda>c. c \<noteq> SLASH) path1 in
        Some (dropWhile (\<lambda>c. c = SLASH) path2, take DIRSIZ elem))"

text \<open>Each pass of the loop of \<^verbatim>\<open>namex\<close> takes at least one byte off the path.\<close>

fun namex_loop :: "nat \<Rightarrow> 'a fsst_scheme devsw \<Rightarrow> byte list \<Rightarrow> bool \<Rightarrow> byte list \<Rightarrow> nat \<Rightarrow> 'a fsst_scheme \<Rightarrow>
    ((nat \<times> byte list) option \<times> 'a fsst_scheme) res" where
  "namex_loop fuel dv path parent name ip s =
     (case skipelem path of
        None \<Rightarrow> if parent then rbind (iput (Some ip) s) (\<lambda>s1. Ok (None, s1)) else Ok (Some (ip, name), s)
      | Some (path', name') \<Rightarrow>
          (case fuel of 0 \<Rightarrow> Diverge
           | Suc f \<Rightarrow>
             rbind (ilock (Some ip) s) (\<lambda>s1.
             if d_type (i_d (ic_inode s1 ip)) \<noteq> T_DIR then rbind (iunlockput (Some ip) s1) (\<lambda>s2. Ok (None, s2))
             else if parent \<and> path' = [] then rbind (iunlock (Some ip) s1) (\<lambda>s2. Ok (Some (ip, name'), s2))
             else rbind (dirlookup dv ip name' s1) (\<lambda>(r, s2).
                  case r of
                    None \<Rightarrow> rbind (iunlockput (Some ip) s2) (\<lambda>s3. Ok (None, s3))
                  | Some (nx, _) \<Rightarrow> rbind (iunlockput (Some ip) s2) (namex_loop f dv path' parent name' nx)))))"

declare namex_loop.simps [simp del]

text \<open>\<open>cwd\<close> is \<^verbatim>\<open>proc->cwd\<close>. The result is the inode with the last path element.\<close>

definition namex :: "'a fsst_scheme devsw \<Rightarrow> nat option \<Rightarrow> byte list \<Rightarrow> bool \<Rightarrow> 'a fsst_scheme \<Rightarrow>
    ((nat \<times> byte list) option \<times> 'a fsst_scheme) res" where
  "namex dv cwd path parent s =
     rbind (if path \<noteq> [] \<and> hd path = SLASH then rbind (iget ROOTDEV ROOTINO s) (\<lambda>(ip, s1). Ok (Some ip, s1)) else idup cwd s) (\<lambda>(ip, s1).
     deref ip (\<lambda>i. namex_loop (length path) dv path parent [] i s1))"

definition namei :: "'a fsst_scheme devsw \<Rightarrow> nat option \<Rightarrow> byte list \<Rightarrow> 'a fsst_scheme \<Rightarrow> (nat option \<times> 'a fsst_scheme) res" where
  "namei dv cwd path s = rbind (namex dv cwd path False s) (\<lambda>(r, s1). Ok (map_option fst r, s1))"

definition nameiparent :: "'a fsst_scheme devsw \<Rightarrow> nat option \<Rightarrow> byte list \<Rightarrow> 'a fsst_scheme \<Rightarrow>
    ((nat \<times> byte list) option \<times> 'a fsst_scheme) res" where
  "nameiparent dv cwd path s = namex dv cwd path True s"

subsection \<open>Ownership and protection\<close>

text \<open>
  \<^verbatim>\<open>chown\<close>, \<^verbatim>\<open>chgrp\<close> and \<^verbatim>\<open>chmod\<close> share their text but for the field they set and its range. None of them drops the
  reference that \<^verbatim>\<open>namei\<close> returned.
\<close>

definition set_attr :: "'a fsst_scheme devsw \<Rightarrow> nat option \<Rightarrow> byte list \<Rightarrow> (dinode \<Rightarrow> dinode) \<Rightarrow> 'a fsst_scheme \<Rightarrow> (int \<times> 'a fsst_scheme) res" where
  "set_attr dv cwd path f s =
     rbind (begin_op s) (\<lambda>s1.
     rbind (namei dv cwd path s1) (\<lambda>(node, s2).
     case node of
       None \<Rightarrow> rbind (end_op s2) (\<lambda>s3. Ok (-1, s3))
     | Some i \<Rightarrow>
         rbind (ilock node s2) (\<lambda>s3.
         rbind (iupdate i (upd_dinode i f s3)) (\<lambda>s4.
         rbind (iunlock node s4) (\<lambda>s5.
         rbind (end_op s5) (\<lambda>s6. Ok (0, s6)))))))"

definition chown :: "'a fsst_scheme devsw \<Rightarrow> nat option \<Rightarrow> byte list \<Rightarrow> int \<Rightarrow> 'a fsst_scheme \<Rightarrow> (int \<times> 'a fsst_scheme) res" where
  "chown dv cwd path uid s =
     (if uid < 0 \<or> 32767 < uid then Ok (-1, s) else set_attr dv cwd path (\<lambda>d. d\<lparr>d_uid := of_int uid\<rparr>) s)"

definition chgrp :: "'a fsst_scheme devsw \<Rightarrow> nat option \<Rightarrow> byte list \<Rightarrow> int \<Rightarrow> 'a fsst_scheme \<Rightarrow> (int \<times> 'a fsst_scheme) res" where
  "chgrp dv cwd path gid s =
     (if gid < 0 \<or> 32767 < gid then Ok (-1, s) else set_attr dv cwd path (\<lambda>d. d\<lparr>d_gid := of_int gid\<rparr>) s)"

definition chmod :: "'a fsst_scheme devsw \<Rightarrow> nat option \<Rightarrow> byte list \<Rightarrow> int \<Rightarrow> 'a fsst_scheme \<Rightarrow> (int \<times> 'a fsst_scheme) res" where
  "chmod dv cwd path mode s =
     (if mode < 0 \<or> 1023 < mode then Ok (-1, s) else set_attr dv cwd path (\<lambda>d. d\<lparr>d_mode := of_int mode\<rparr>) s)"

end
