(* ===== verification/FsBlk.thy ===== *)
theory FsBlk
  imports Fs
begin

text \<open>
  The block allocator. \<open>used V sb b\<close> reads the bitmap in a view of the blocks; \<open>disk_ok\<close> is the geometry the
  superblock describes. Every update of \<^verbatim>\<open>fs.c\<close> reads a block, changes it, logs it and releases it; \<open>rmw_ok\<close> is
  the contract of that step, and the allocator's lemmas apply it.
\<close>

declare One_nat_def [simp del] add_2_eq_Suc [simp del] add_2_eq_Suc' [simp del]

subsection \<open>Frames\<close>

lemma fs_frame_fs:
  assumes "fs_frame s s'"
  shows "fs_sb s' = fs_sb s" "ic_inode s' = ic_inode s"
  using assms unfolding fs_frame_def by (cases s; cases s'; simp)+

text \<open>A transaction that may still log \<open>k\<close> blocks.\<close>

definition room :: "nat \<Rightarrow> 'a logst_scheme \<Rightarrow> bool" where
  "room k s \<longleftrightarrow> lh_n s + k < lg_size s \<and> 1 \<le> lg_outstanding s"

lemma room_mono: "room k s \<Longrightarrow> j \<le> k \<Longrightarrow> room j s"
  by (simp add: room_def)

text \<open>What an operation that logs at most \<open>k\<close> blocks leaves: the frame, and the buffers in use.\<close>

definition logs :: "nat \<Rightarrow> 'a logst_scheme \<Rightarrow> 'a logst_scheme \<Rightarrow> bool" where
  "logs k s s' \<longleftrightarrow> fs_frame s s' \<and> lh_n s' \<le> lh_n s + k \<and> (\<forall>j c. hasbuf s j c \<longrightarrow> hasbuf s' j c)"

lemma logs_refl [simp]: "logs k s s"
  by (simp add: logs_def)

lemma logs_trans: "logs j s s1 \<Longrightarrow> logs k s1 s2 \<Longrightarrow> logs (j + k) s s2"
  unfolding logs_def using fs_frame_trans by fastforce

lemma logs_mono: "logs j s s' \<Longrightarrow> j \<le> k \<Longrightarrow> logs k s s'"
  by (auto simp: logs_def)

lemma logs_room: "logs j s s' \<Longrightarrow> room (j + k) s \<Longrightarrow> room k s'"
  unfolding logs_def room_def by (auto simp: fs_frame_simps)

lemma logs_simps:
  assumes "logs k s s'"
  shows "log_area s' = log_area s" "bc_disksize s' = bc_disksize s" "bc_disk s' = bc_disk s" "lg_size s' = lg_size s"
    "lg_outstanding s' = lg_outstanding s" "lg_start s' = lg_start s" "lg_committing s' = lg_committing s"
  using assms by (auto simp: logs_def fs_frame_simps)

lemma logs_fs:
  assumes "logs k s s'"
  shows "fs_sb s' = fs_sb s" "ic_inode s' = ic_inode s"
  using assms by (auto simp: logs_def fs_frame_fs)

lemma logs_buf: "logs k s s' \<Longrightarrow> hasbuf s j c \<Longrightarrow> hasbuf s' j c"
  by (simp add: logs_def)

subsection \<open>Reading and updating one block\<close>

lemma bst_room: "bst s V L B \<Longrightarrow> card (L \<union> B) \<le> lh_n s + card B"
  using card_Un_le [of L B] bst_card by (metis)

lemma bst_less: "bst s V L B \<Longrightarrow> lh_n s < lg_size s \<and> lg_size s \<le> NBUF"
  by (simp add: bst_def log_inv_def LOGSIZE_def MAXOPBLOCKS_def NBUF_def)

lemma read_ok:
  assumes st: "bst s V L B" and b: "b \<notin> B" "b < bc_disksize s" and B: "card B = 0 \<or> (card B = 1 \<and> room 1 s)"
  shows "\<exists>i s1 s2. bread 1 b s = Ok (i, s1) \<and> hasbuf s1 i b \<and> b_data (bc_buf s1 i) = V b \<and> bst s1 V L (insert b B) \<and> logs 0 s s1 \<and>
    brelse i s1 = Ok s2 \<and> bst s2 V L B \<and> logs 0 s s2"
proof -
  have c: "card (L \<union> B) < NBUF" using bst_room [OF st] bst_less [OF st] B by (auto simp: room_def)
  obtain i s1 where 1: "bread 1 b s = Ok (i, s1)" "bst s1 V L (insert b B)" "hasbuf s1 i b" "\<forall>j c. hasbuf s j c \<longrightarrow> hasbuf s1 j c"
      "fs_frame s s1" "lh_n s1 = lh_n s"
    using bst_bread [OF st b] c by blast
  obtain s2 where 2: "brelse i s1 = Ok s2" "bst s2 V L (insert b B - {b})" "\<forall>j c. hasbuf s1 j c \<longrightarrow> c \<noteq> b \<longrightarrow> hasbuf s2 j c"
      "fs_frame s1 s2" "lh_n s2 = lh_n s1"
    using bst_brelse [OF 1(2,3)] by blast
  have nb: "c \<noteq> b" if "hasbuf s j c" for j c using hasbuf_data [of s V L B j c] st that b(1) by (auto simp: bst_def)
  have "insert b B - {b} = B" using b(1) by auto
  moreover have "\<forall>j c. hasbuf s j c \<longrightarrow> hasbuf s2 j c" using 1(4) 2(3) nb by blast
  moreover have "fs_frame s s2" using 1(5) 2(4) by (rule fs_frame_trans)
  ultimately show ?thesis using 1 2 bst_data [OF 1(2,3)] unfolding logs_def by (intro exI [of _ i] exI [of _ s1] exI [of _ s2]) simp
qed

lemma rmw_ok:
  assumes st: "bst s V L B" and b: "b \<notin> B" "b < bc_disksize s" "b \<notin> log_area s"
    and r: "room 1 s" "card B \<le> 1" and len: "\<And>d. length d = BSIZE \<Longrightarrow> length (f d) = BSIZE"
  shows "\<exists>i s1 s2 s'. bread 1 b s = Ok (i, s1) \<and> b_data (bc_buf s1 i) = V b \<and> logs 0 s s1 \<and>
    log_write i (set_data i (f (V b)) s1) = Ok s2 \<and> brelse i s2 = Ok s' \<and>
    bst s' (V(b := f (V b))) (insert b L) B \<and> logs 1 s s'"
proof -
  have "card B = 0 \<or> (card B = 1 \<and> room 1 s)" using r by (cases "card B") auto
  then obtain i s1 where 1: "bread 1 b s = Ok (i, s1)" "hasbuf s1 i b" "b_data (bc_buf s1 i) = V b" "bst s1 V L (insert b B)" "logs 0 s s1"
    using read_ok [OF st b(1,2)] by blast
  have "length (f (V b)) = BSIZE" using len bst_length [OF st] by blast
  moreover have "lh_n s1 + 1 < lg_size s1" "1 \<le> lg_outstanding s1" using r(1) logs_simps [OF 1(5)] 1(5) by (auto simp: room_def logs_def)
  moreover have "b \<notin> log_area s1" using b(3) logs_simps [OF 1(5)] by simp
  ultimately obtain s2 where 2: "log_write i (set_data i (f (V b)) s1) = Ok s2" "bst s2 (V(b := f (V b))) (insert b L) (insert b B)"
      "\<forall>j c. hasbuf s1 j c \<longrightarrow> hasbuf s2 j c" "fs_frame s1 s2" "lh_n s2 = (if b \<in> L then lh_n s1 else lh_n s1 + 1)"
    using bst_log_write [OF 1(4,2)] by blast
  have "hasbuf s2 i b" using 1(2) 2(3) by blast
  then obtain s' where 3: "brelse i s2 = Ok s'" "bst s' (V(b := f (V b))) (insert b L) (insert b B - {b})"
      "\<forall>j c. hasbuf s2 j c \<longrightarrow> c \<noteq> b \<longrightarrow> hasbuf s' j c" "fs_frame s2 s'" "lh_n s' = lh_n s2"
    using bst_brelse [OF 2(2)] by blast
  have nb: "c \<noteq> b" if "hasbuf s j c" for j c using hasbuf_data [of s V L B j c] st that b(1) by (auto simp: bst_def)
  have "insert b B - {b} = B" using b(1) by auto
  moreover have "\<forall>j c. hasbuf s j c \<longrightarrow> hasbuf s' j c" using 1(5) 2(3) 3(3) nb unfolding logs_def by blast
  moreover have "fs_frame s s'" using 1(5) 2(4) 3(4) fs_frame_trans unfolding logs_def by blast
  moreover have "lh_n s' \<le> lh_n s + 1" using 1(5) 2(5) 3(5) by (auto simp: logs_def)
  ultimately show ?thesis using 1 2 3 unfolding logs_def
    by (intro exI [of _ i] exI [of _ s1] exI [of _ s2] exI [of _ s']) simp
qed

subsection \<open>The bitmap\<close>

definition set_bit8 :: "nat \<Rightarrow> block \<Rightarrow> block" where
  "set_bit8 bi d = d[bi div 8 := d ! (bi div 8) OR bit_mask bi]"

definition clear_bit8 :: "nat \<Rightarrow> block \<Rightarrow> block" where
  "clear_bit8 bi d = d[bi div 8 := d ! (bi div 8) AND NOT (bit_mask bi)]"

lemma bit_clear_iff: "bit_clear d bi \<longleftrightarrow> \<not> bit (d ! (bi div 8)) (bi mod 8)"
  unfolding bit_clear_def bit_mask_def by (simp add: push_bit_of_1 and_exp_eq_0_iff_not_bit)

lemma bit_bit_mask: "bit (bit_mask bi) k \<longleftrightarrow> k = bi mod 8"
  unfolding bit_mask_def by (auto simp: push_bit_of_1 bit_exp_iff)

lemma div_mod_8: "bj div 8 = bi div 8 \<Longrightarrow> bj mod 8 = bi mod 8 \<longleftrightarrow> bj = (bi :: nat)"
  by (metis mult_div_mod_eq)

lemma bit_clear_set: "bi div 8 < length d \<Longrightarrow> bit_clear (set_bit8 bi d) bj \<longleftrightarrow> bit_clear d bj \<and> bj \<noteq> bi"
  by (cases "bj div 8 = bi div 8") (auto simp: bit_clear_iff set_bit8_def bit_or_iff bit_bit_mask div_mod_8)

lemma bit_clear_clear: "bi div 8 < length d \<Longrightarrow> bit_clear (clear_bit8 bi d) bj \<longleftrightarrow> bit_clear d bj \<or> bj = bi"
  by (cases "bj div 8 = bi div 8") (auto simp: bit_clear_iff clear_bit8_def bit_and_iff bit_not_iff bit_bit_mask div_mod_8)

lemma bit8_length [simp]: "length (set_bit8 bi d) = length d" "length (clear_bit8 bi d) = length d"
  by (simp_all add: set_bit8_def clear_bit8_def)

lemma balloc_scan_Some:
  "balloc_scan d b sz k bi = Some r \<Longrightarrow>
   bi \<le> r \<and> r < bi + k \<and> b + r < sz \<and> bit_clear d r \<and> (\<forall>j. bi \<le> j \<longrightarrow> j < r \<longrightarrow> \<not> bit_clear d j)"
proof (induction k arbitrary: bi)
  case (Suc k)
  show ?case
  proof (cases "bit_clear d bi")
    case False
    then have "balloc_scan d b sz k (Suc bi) = Some r" using Suc.prems by (simp split: if_splits)
    with Suc.IH have "Suc bi \<le> r \<and> r < Suc bi + k \<and> b + r < sz \<and> bit_clear d r \<and> (\<forall>j. Suc bi \<le> j \<longrightarrow> j < r \<longrightarrow> \<not> bit_clear d j)" by blast
    then show ?thesis using False by (metis Suc_leI add_Suc_shift le_neq_implies_less Suc_leD)
  qed (use Suc.prems in \<open>auto split: if_splits\<close>)
qed simp

lemma balloc_scan_None:
  "balloc_scan d b sz k bi = None \<Longrightarrow> bi \<le> j \<Longrightarrow> j < bi + k \<Longrightarrow> b + j < sz \<Longrightarrow> \<not> bit_clear d j"
proof (induction k arbitrary: bi)
  case (Suc k)
  then have "\<not> bit_clear d bi" "balloc_scan d b sz k (Suc bi) = None" by (auto split: if_splits)
  then show ?case using Suc by (cases "j = bi") auto
qed simp

definition used :: "(nat \<Rightarrow> block) \<Rightarrow> superblock \<Rightarrow> nat \<Rightarrow> bool" where
  "used V sb b \<longleftrightarrow> \<not> bit_clear (V (BBLOCK b sb)) (b mod BPB)"

definition bitmap_blocks :: "superblock \<Rightarrow> nat set" where
  "bitmap_blocks sb = (\<lambda>b. BBLOCK b sb) ` {..<sb_size sb}"

definition inode_blocks :: "superblock \<Rightarrow> nat set" where
  "inode_blocks sb = (\<lambda>i. IBLOCK i sb) ` {..<sb_ninodes sb}"

text \<open>The regions of the disk, and what the bitmap says about them: only data blocks are free.\<close>

definition geo_ok :: "'a fsst_scheme \<Rightarrow> bool" where
  "geo_ok s \<longleftrightarrow> (let sb = fs_sb s in
     sb_size sb \<le> bc_disksize s \<and> 1 < bc_disksize s \<and> 1 \<notin> log_area s \<and> 1 \<notin> bitmap_blocks sb \<and> 1 \<notin> inode_blocks sb \<and>
     (\<forall>b \<in> bitmap_blocks sb \<union> inode_blocks sb. b < bc_disksize s \<and> b \<notin> log_area s) \<and> bitmap_blocks sb \<inter> inode_blocks sb = {})"

definition bm_ok :: "'a fsst_scheme \<Rightarrow> (nat \<Rightarrow> block) \<Rightarrow> bool" where
  "bm_ok s V \<longleftrightarrow> decode_sb (V 1) = fs_sb s \<and>
     (\<forall>b < sb_size (fs_sb s). \<not> used V (fs_sb s) b \<longrightarrow>
        b \<noteq> 0 \<and> b \<noteq> 1 \<and> b \<notin> log_area s \<and> b \<notin> bitmap_blocks (fs_sb s) \<and> b \<notin> inode_blocks (fs_sb s))"

lemma geo_okD:
  assumes "geo_ok s"
  shows "b < sb_size (fs_sb s) \<Longrightarrow> b < bc_disksize s" "1 < bc_disksize s" "1 \<notin> log_area s"
    "1 \<notin> bitmap_blocks (fs_sb s)" "1 \<notin> inode_blocks (fs_sb s)"
    "b \<in> bitmap_blocks (fs_sb s) \<Longrightarrow> b < bc_disksize s \<and> b \<notin> log_area s \<and> b \<notin> inode_blocks (fs_sb s)"
    "b \<in> inode_blocks (fs_sb s) \<Longrightarrow> b < bc_disksize s \<and> b \<notin> log_area s \<and> b \<notin> bitmap_blocks (fs_sb s)"
  using assms by (auto simp: geo_ok_def Let_def)

lemma bm_okD:
  assumes "bm_ok s V" "b < sb_size (fs_sb s)" "\<not> used V (fs_sb s) b"
  shows "b \<noteq> 0" "b \<noteq> 1" "b \<notin> log_area s" "b \<notin> bitmap_blocks (fs_sb s)" "b \<notin> inode_blocks (fs_sb s)"
  using assms by (auto simp: bm_ok_def)

lemma logs_geo: "logs k s s' \<Longrightarrow> geo_ok s' = geo_ok s" "logs k s s' \<Longrightarrow> bm_ok s' = bm_ok s"
  by (auto simp: geo_ok_def bm_ok_def logs_simps logs_fs fun_eq_iff)

lemma BPB_pos [simp]: "0 < BPB"
  by (simp add: BPB_def BSIZE_def)

lemma BBLOCK_mem [simp]: "b < sb_size sb \<Longrightarrow> BBLOCK b sb \<in> bitmap_blocks sb"
  by (simp add: bitmap_blocks_def)

lemma bit_in_block: "length d = BSIZE \<Longrightarrow> bi < BPB \<Longrightarrow> bi div 8 < length d"
  by (simp add: BPB_def BSIZE_def)

text \<open>Two blocks with the same bitmap block differ in their bit.\<close>

lemma BBLOCK_inj: "BBLOCK b sb = BBLOCK c sb \<Longrightarrow> b mod BPB = c mod BPB \<Longrightarrow> b = c"
  unfolding BBLOCK_def by (metis add_right_cancel mult_div_mod_eq)

lemma used_set:
  assumes "length (V (BBLOCK b sb)) = BSIZE"
  shows "used (V(BBLOCK b sb := set_bit8 (b mod BPB) (V (BBLOCK b sb)))) sb c \<longleftrightarrow> used V sb c \<or> c = b"
  using bit_clear_set [OF bit_in_block [OF assms, of "b mod BPB"], of "c mod BPB"]
  by (auto simp: used_def dest: BBLOCK_inj)

lemma used_clear:
  assumes "length (V (BBLOCK b sb)) = BSIZE"
  shows "used (V(BBLOCK b sb := clear_bit8 (b mod BPB) (V (BBLOCK b sb)))) sb c \<longleftrightarrow> used V sb c \<and> c \<noteq> b"
  using bit_clear_clear [OF bit_in_block [OF assms, of "b mod BPB"], of "c mod BPB"]
  by (auto simp: used_def dest: BBLOCK_inj)

lemma used_other: "b \<notin> bitmap_blocks sb \<Longrightarrow> c < sb_size sb \<Longrightarrow> used (V(b := d)) sb c = used V sb c"
  by (auto simp: used_def bitmap_blocks_def)

subsection \<open>\<^verbatim>\<open>balloc\<close> and \<^verbatim>\<open>bfree\<close>\<close>

definition alloc_view :: "superblock \<Rightarrow> nat \<Rightarrow> (nat \<Rightarrow> block) \<Rightarrow> nat \<Rightarrow> block" where
  "alloc_view sb b V = V(BBLOCK b sb := set_bit8 (b mod BPB) (V (BBLOCK b sb)), b := replicate BSIZE 0)"

text \<open>Blocks in use by the caller are not those the allocator touches.\<close>

definition holds :: "'a fsst_scheme \<Rightarrow> (nat \<Rightarrow> block) \<Rightarrow> nat set \<Rightarrow> bool" where
  "holds s V B \<longleftrightarrow> card B \<le> 1 \<and> (\<forall>b \<in> B. b < sb_size (fs_sb s) \<and> used V (fs_sb s) b \<and> b \<notin> bitmap_blocks (fs_sb s))"

lemma holds_empty [simp]: "holds s V {}"
  by (simp add: holds_def)

lemma bzero_ok:
  assumes "bst s V L B" "b \<notin> B" "b < bc_disksize s" "b \<notin> log_area s" "room 1 s" "card B \<le> 1"
  shows "\<exists>s'. bzero 1 b s = Ok s' \<and> bst s' (V(b := replicate BSIZE 0)) (insert b L) B \<and> logs 1 s s'"
  using rmw_ok [OF assms, of "\<lambda>_. replicate BSIZE 0"] by (auto simp: bzero_def)

lemma balloc_loop_ok:
  assumes "bst s V L B" "geo_ok s" "bm_ok s V" "room 2 s" "holds s V B"
    "\<exists>b < sb_size (fs_sb s). \<not> used V (fs_sb s) b"
    "b0 mod BPB = 0" "\<forall>c < b0. c < sb_size (fs_sb s) \<longrightarrow> used V (fs_sb s) c" "sb_size (fs_sb s) - b0 \<le> fuel"
  shows "\<exists>b L' s'. balloc_loop fuel 1 b0 s = Ok (b, s') \<and> b < sb_size (fs_sb s) \<and> \<not> used V (fs_sb s) b \<and>
    (\<forall>c < b. used V (fs_sb s) c) \<and> bst s' (alloc_view (fs_sb s) b V) L' B \<and> logs 2 s s'"
  using assms
proof (induction fuel arbitrary: b0 s)
  case 0
  then show ?case by (meson diff_is_0_eq le_0_eq less_le_trans)
next
  case (Suc f)
  define sb where "sb = fs_sb s"
  have b0: "b0 < sb_size sb" using Suc.prems(6,8) unfolding sb_def by (meson linorder_not_le order_less_le_trans)
  have bb: "BBLOCK (b0 + j) sb = BBLOCK b0 sb" "(b0 + j) mod BPB = j" if "j < BPB" for j
    using that Suc.prems(7) by (auto simp: BBLOCK_def mod_eq_0_iff_dvd elim!: dvdE)
  have nB: "BBLOCK b0 sb \<notin> B" using Suc.prems(5) b0 by (auto simp: holds_def sb_def)
  have g: "BBLOCK b0 sb < bc_disksize s" "BBLOCK b0 sb \<notin> log_area s" using geo_okD(6) [OF Suc.prems(2)] b0 by (auto simp: sb_def)
  have cB: "card B \<le> 1" using Suc.prems(5) by (simp add: holds_def)
  note u = balloc_loop.simps [of "Suc f" 1 b0 s]
  show ?case
  proof (cases "balloc_scan (V (BBLOCK b0 sb)) b0 (sb_size sb) BPB 0")
    case None
    then have all: "used V sb c" if "c < b0 + BPB" "c < sb_size sb" for c
      using that Suc.prems(8) balloc_scan_None [OF None, of "c - b0"] bb [of "c - b0"]
      by (cases "c < b0") (auto simp: sb_def used_def)
    have "card B = 0 \<or> (card B = 1 \<and> room 1 s)" using cB room_mono [OF Suc.prems(4)] by (cases "card B") auto
    then obtain i s1 s2 where 1: "bread 1 (BBLOCK b0 sb) s = Ok (i, s1)" "b_data (bc_buf s1 i) = V (BBLOCK b0 sb)" "logs 0 s s1"
        "brelse i s1 = Ok s2" "bst s2 V L B" "logs 0 s s2"
      using read_ok [OF Suc.prems(1) nB g(1)] by blast
    have e: "fs_sb s2 = sb" "fs_sb s1 = sb" using logs_fs(1) [OF 1(6)] logs_fs(1) [OF 1(3)] by (simp_all add: sb_def)
    have "\<exists>b L' s'. balloc_loop f 1 (b0 + BPB) s2 = Ok (b, s') \<and> b < sb_size (fs_sb s2) \<and> \<not> used V (fs_sb s2) b \<and>
      (\<forall>c < b. used V (fs_sb s2) c) \<and> bst s' (alloc_view (fs_sb s2) b V) L' B \<and> logs 2 s2 s'"
    proof (rule Suc.IH [OF 1(5)])
      show "room 2 s2" using logs_room [OF 1(6), of 2] Suc.prems(4) by simp
      show "holds s2 V B" using Suc.prems(5) e by (simp add: holds_def sb_def)
      show "sb_size (fs_sb s2) - (b0 + BPB) \<le> f" using Suc.prems(9) b0 BPB_pos unfolding e sb_def by linarith
    qed (use Suc.prems e all logs_geo [OF 1(6)] in \<open>auto simp: sb_def\<close>)
    then obtain b L' s' where 2: "balloc_loop f 1 (b0 + BPB) s2 = Ok (b, s')" "b < sb_size sb" "\<not> used V sb b" "\<forall>c < b. used V sb c"
        "bst s' (alloc_view sb b V) L' B" "logs 2 s2 s'" unfolding e by blast
    have "balloc_loop (Suc f) 1 b0 s = Ok (b, s')"
      unfolding u using b0 1 2(1) None by (simp add: sb_def [symmetric] e)
    moreover have "logs 2 s s'" using logs_trans [OF 1(6) 2(6)] by simp
    ultimately show ?thesis using 2 unfolding sb_def [symmetric] by blast
  next
    case (Some bi)
    note S = balloc_scan_Some [OF Some]
    define b where "b = b0 + bi"
    have b: "b < sb_size sb" "\<not> used V sb b" "BBLOCK b sb = BBLOCK b0 sb" "b mod BPB = bi" and all: "\<forall>c < b. used V sb c"
    proof -
      show "b < sb_size sb" "BBLOCK b sb = BBLOCK b0 sb" "b mod BPB = bi" "\<not> used V sb b" using S bb [of bi] by (auto simp: b_def used_def)
      show "\<forall>c < b. used V sb c"
      proof (intro allI impI)
        fix c assume c: "c < b"
        have "c < sb_size sb" using c S b_def by simp
        then show "used V sb c" using c S Suc.prems(8) bb [of "c - b0"] by (cases "c < b0") (auto simp: b_def sb_def used_def)
      qed
    qed
    obtain i s1 s2 s3 where 1: "bread 1 (BBLOCK b0 sb) s = Ok (i, s1)" "b_data (bc_buf s1 i) = V (BBLOCK b0 sb)" "logs 0 s s1"
        "log_write i (set_data i (set_bit8 bi (V (BBLOCK b0 sb))) s1) = Ok s2" "brelse i s2 = Ok s3"
        "bst s3 (V(BBLOCK b0 sb := set_bit8 bi (V (BBLOCK b0 sb)))) (insert (BBLOCK b0 sb) L) B" "logs 1 s s3"
      using rmw_ok [OF Suc.prems(1) nB g room_mono [OF Suc.prems(4)] cB, of "set_bit8 bi"] by auto
    have nb: "b \<notin> B" "b \<notin> log_area s3" "b < bc_disksize s3" "room 1 s3"
      using Suc.prems(5) b(1,2) bm_okD(3) [OF Suc.prems(3)] geo_okD(1) [OF Suc.prems(2)] logs_simps [OF 1(7)] logs_room [OF 1(7), of 1] Suc.prems(4)
      by (auto simp: holds_def sb_def)
    obtain s4 where 2: "bzero 1 b s3 = Ok s4" "bst s4 (alloc_view sb b V) (insert b (insert (BBLOCK b0 sb) L)) B" "logs 1 s3 s4"
      using bzero_ok [OF 1(6) nb(1,3,2,4) cB] by (auto simp: alloc_view_def b)
    have "logs 2 s s4" using logs_trans [OF 1(7) 2(3)] by simp
    moreover have "balloc_loop (Suc f) 1 b0 s = Ok (b, s4)"
      unfolding u using b0 1 2(1) Some logs_fs [OF 1(3)] by (simp add: sb_def [symmetric] set_bit8_def b_def)
    ultimately show ?thesis using 2 b(1,2) all unfolding sb_def [symmetric] by blast
  qed
qed

lemma balloc_ok:
  assumes "bst s V L B" "geo_ok s" "bm_ok s V" "room 2 s" "holds s V B" "\<exists>b < sb_size (fs_sb s). \<not> used V (fs_sb s) b"
  shows "\<exists>b L' s'. balloc 1 s = Ok (b, s') \<and> b < sb_size (fs_sb s) \<and> \<not> used V (fs_sb s) b \<and>
    (\<forall>c < b. used V (fs_sb s) c) \<and> bst s' (alloc_view (fs_sb s) b V) L' B \<and> logs 2 s s'"
  using balloc_loop_ok [OF assms, of 0] by (simp add: balloc_def)

text \<open>What an allocation does to the view: the block is now used and zero; nothing else changed but the bitmap.\<close>

lemma alloc_view_props:
  assumes "geo_ok s" "bm_ok s V" "\<And>c. length (V c) = BSIZE" "b < sb_size (fs_sb s)" "\<not> used V (fs_sb s) b"
  defines "W \<equiv> alloc_view (fs_sb s) b V"
  shows "bm_ok s W" "W b = replicate BSIZE 0" "\<And>c. c < sb_size (fs_sb s) \<Longrightarrow> used W (fs_sb s) c \<longleftrightarrow> used V (fs_sb s) c \<or> c = b"
    "\<And>c. c \<noteq> b \<Longrightarrow> c \<notin> bitmap_blocks (fs_sb s) \<Longrightarrow> W c = V c"
proof -
  note D = bm_okD [OF assms(2,4,5)]
  show u: "used W (fs_sb s) c \<longleftrightarrow> used V (fs_sb s) c \<or> c = b" if "c < sb_size (fs_sb s)" for c
    unfolding W_def alloc_view_def by (simp only: used_other [OF D(4) that] used_set [where V = V, OF assms(3)])
  show keep: "W c = V c" if "c \<noteq> b" "c \<notin> bitmap_blocks (fs_sb s)" for c
    using that BBLOCK_mem [OF assms(4)] by (auto simp: W_def alloc_view_def)
  show "W b = replicate BSIZE 0" by (simp add: W_def alloc_view_def)
  have "W 1 = V 1" using keep [of 1] D(2) geo_okD(4) [OF assms(1)] by auto
  then show "bm_ok s W" using assms(2) u unfolding bm_ok_def by auto
qed

lemma readsb_ok:
  assumes "bst s V L B" "1 \<notin> B" "1 < bc_disksize s" "card B = 0 \<or> (card B = 1 \<and> room 1 s)"
  shows "\<exists>s'. readsb 1 s = Ok (decode_sb (V 1), s') \<and> bst s' V L B \<and> logs 0 s s'"
  using read_ok [OF assms] by (auto simp: readsb_def Let_def)

definition free_view :: "superblock \<Rightarrow> nat \<Rightarrow> (nat \<Rightarrow> block) \<Rightarrow> nat \<Rightarrow> block" where
  "free_view sb b V = V(BBLOCK b sb := clear_bit8 (b mod BPB) (V (BBLOCK b sb)))"

lemma bfree_ok:
  assumes st: "bst s V L B" and g: "geo_ok s" and bm: "bm_ok s V" and r: "room 1 s" and h: "card B \<le> 1" "1 \<notin> B" "B \<inter> bitmap_blocks (fs_sb s) = {}"
    and b: "b < sb_size (fs_sb s)"
  shows "if used V (fs_sb s) b
    then \<exists>s'. bfree 1 b s = Ok s' \<and> bst s' (free_view (fs_sb s) b V) (insert (BBLOCK b (fs_sb s)) L) B \<and> logs 1 s s'
    else bfree 1 b s = Panic ''freeing free block''"
proof -
  have c: "card B = 0 \<or> (card B = 1 \<and> room 1 s)" using h(1) r by (cases "card B") auto
  obtain s0 where 1: "readsb 1 s = Ok (decode_sb (V 1), s0)" "bst s0 V L B" "logs 0 s s0"
    using readsb_ok [OF st h(2) geo_okD(2) [OF g] c] by blast
  have sb: "decode_sb (V 1) = fs_sb s" using bm by (simp add: bm_ok_def)
  have s0: "s0\<lparr>fs_sb := fs_sb s\<rparr> = s0" using logs_fs(1) [OF 1(3)] by (cases s0) simp
  have bb: "BBLOCK b (fs_sb s) \<notin> B" "BBLOCK b (fs_sb s) < bc_disksize s0" "BBLOCK b (fs_sb s) \<notin> log_area s0"
    using h(3) BBLOCK_mem [OF b] geo_okD(6) [OF g BBLOCK_mem [OF b]] logs_simps [OF 1(3)] by auto
  have r0: "room 1 s0" using logs_room [OF 1(3), of 1] r by simp
  show ?thesis
  proof (cases "used V (fs_sb s) b")
    case True
    obtain i s1 s2 s' where 2: "bread 1 (BBLOCK b (fs_sb s)) s0 = Ok (i, s1)" "b_data (bc_buf s1 i) = V (BBLOCK b (fs_sb s))"
      "log_write i (set_data i (clear_bit8 (b mod BPB) (V (BBLOCK b (fs_sb s)))) s1) = Ok s2" "brelse i s2 = Ok s'"
      "bst s' (free_view (fs_sb s) b V) (insert (BBLOCK b (fs_sb s)) L) B" "logs 1 s0 s'"
      using rmw_ok [OF 1(2) bb r0 h(1), of "clear_bit8 (b mod BPB)"] by (auto simp: free_view_def)
    have "bfree 1 b s = Ok s'" using True 1 2 logs_fs(1) [OF 1(3)] by (simp add: bfree_def sb s0 Let_def used_def clear_bit8_def)
    moreover have "logs 1 s s'" using logs_trans [OF 1(3) 2(6)] by simp
    ultimately show ?thesis using True 2(5) by auto
  next
    case False
    have "card B = 0 \<or> (card B = 1 \<and> room 1 s0)" using h(1) r0 by (cases "card B") auto
    then obtain i s1 where 2: "bread 1 (BBLOCK b (fs_sb s)) s0 = Ok (i, s1)" "b_data (bc_buf s1 i) = V (BBLOCK b (fs_sb s))"
      using read_ok [OF 1(2) bb(1,2)] by blast
    then have "bfree 1 b s = Panic ''freeing free block''" using False 1 logs_fs(1) [OF 1(3)] by (simp add: bfree_def sb s0 Let_def used_def)
    then show ?thesis using False by simp
  qed
qed

text \<open>What freeing a block does to the view.\<close>

lemma free_view_props:
  assumes "geo_ok s" "bm_ok s V" "\<And>c. length (V c) = BSIZE" "b < sb_size (fs_sb s)"
    "b \<noteq> 0" "b \<noteq> 1" "b \<notin> log_area s" "b \<notin> bitmap_blocks (fs_sb s)" "b \<notin> inode_blocks (fs_sb s)"
  defines "W \<equiv> free_view (fs_sb s) b V"
  shows "bm_ok s W" "\<And>c. used W (fs_sb s) c \<longleftrightarrow> used V (fs_sb s) c \<and> c \<noteq> b" "\<And>c. c \<notin> bitmap_blocks (fs_sb s) \<Longrightarrow> W c = V c"
proof -
  show u: "used W (fs_sb s) c \<longleftrightarrow> used V (fs_sb s) c \<and> c \<noteq> b" for c
    unfolding W_def free_view_def by (simp only: used_clear [where V = V, OF assms(3)])
  show keep: "W c = V c" if "c \<notin> bitmap_blocks (fs_sb s)" for c using that BBLOCK_mem [OF assms(4)] by (auto simp: W_def free_view_def)
  have "W 1 = V 1" using keep geo_okD(4) [OF assms(1)] by blast
  then show "bm_ok s W" using assms(2,5-9) u unfolding bm_ok_def by auto
qed

end
