(* ===== verification/FsFile.thy ===== *)
theory FsFile
  imports FsBlk
begin

text \<open>
  The contents of a file. \<open>blk V x bn\<close> is the block that holds block \<open>bn\<close> of the file with inode data \<open>x\<close>, 0 where there
  is none, and \<open>fbyte V x i\<close> its byte \<open>i\<close>. \<open>file_ok\<close> says that the blocks of a file are
  data blocks marked in the bitmap and that no block occurs twice. \<open>fupd\<close> relates the views before and after an operation that
  puts the bytes \<open>bs\<close> at \<open>off\<close> and leaves every other byte, and every other file, alone.
\<close>

subsection \<open>The map from file blocks to disk blocks\<close>

definition blk :: "(nat \<Rightarrow> block) \<Rightarrow> dinode \<Rightarrow> nat \<Rightarrow> nat" where
  "blk V x bn =
     (if bn < NDIRECT then d_addrs x ! bn
      else if d_addrs x ! NDIRECT = 0 then 0
      else unat (get32 (V (d_addrs x ! NDIRECT)) (4 * (bn - NDIRECT))))"

definition fblocks :: "(nat \<Rightarrow> block) \<Rightarrow> dinode \<Rightarrow> nat set" where
  "fblocks V x = (blk V x ` {..<MAXFILE} \<union> {d_addrs x ! NDIRECT}) - {0}"

definition data_block :: "'a fsst_scheme \<Rightarrow> (nat \<Rightarrow> block) \<Rightarrow> nat \<Rightarrow> bool" where
  "data_block s V b \<longleftrightarrow> b < sb_size (fs_sb s) \<and> used V (fs_sb s) b \<and> b \<noteq> 0 \<and> b \<noteq> 1 \<and> b \<notin> log_area s \<and>
     b \<notin> bitmap_blocks (fs_sb s) \<and> b \<notin> inode_blocks (fs_sb s)"

definition file_ok :: "'a fsst_scheme \<Rightarrow> (nat \<Rightarrow> block) \<Rightarrow> dinode \<Rightarrow> bool" where
  "file_ok s V x \<longleftrightarrow> length (d_addrs x) = NDIRECT + 1 \<and> (\<forall>b \<in> fblocks V x. data_block s V b) \<and>
     (\<forall>m < MAXFILE. \<forall>n < MAXFILE. blk V x m = blk V x n \<longrightarrow> blk V x m \<noteq> 0 \<longrightarrow> m = n) \<and>
     (\<forall>m < MAXFILE. blk V x m \<noteq> 0 \<longrightarrow> blk V x m \<noteq> d_addrs x ! NDIRECT)"

definition fbyte :: "(nat \<Rightarrow> block) \<Rightarrow> dinode \<Rightarrow> nat \<Rightarrow> byte" where
  "fbyte V x i = (if blk V x (i div BSIZE) = 0 then 0 else V (blk V x (i div BSIZE)) ! (i mod BSIZE))"

lemma file_okD:
  assumes "file_ok s V x"
  shows "length (d_addrs x) = NDIRECT + 1" "n < MAXFILE \<Longrightarrow> blk V x n \<noteq> 0 \<Longrightarrow> data_block s V (blk V x n)"
    "d_addrs x ! NDIRECT \<noteq> 0 \<Longrightarrow> data_block s V (d_addrs x ! NDIRECT)"
    "blk V x m = blk V x n \<Longrightarrow> m < MAXFILE \<Longrightarrow> n < MAXFILE \<Longrightarrow> blk V x m \<noteq> 0 \<Longrightarrow> m = n"
    "m < MAXFILE \<Longrightarrow> blk V x m \<noteq> 0 \<Longrightarrow> blk V x m \<noteq> d_addrs x ! NDIRECT"
  using assms by (auto simp: file_ok_def fblocks_def)

lemma data_blockD:
  assumes "data_block s V b"
  shows "b < sb_size (fs_sb s)" "used V (fs_sb s) b" "b \<noteq> 0" "b \<noteq> 1" "b \<notin> log_area s"
    "b \<notin> bitmap_blocks (fs_sb s)" "b \<notin> inode_blocks (fs_sb s)"
  using assms by (auto simp: data_block_def)

text \<open>A new map for a file: block \<open>n0\<close>, absent before, is now the fresh block \<open>b\<close>.\<close>

lemma file_ok_add:
  assumes ok: "file_ok s V x" and len: "length (d_addrs x') = NDIRECT + 1" and b: "data_block s V' b" "\<not> used V (fs_sb s) b"
    and mono: "\<And>c. c < sb_size (fs_sb s) \<Longrightarrow> used V (fs_sb s) c \<Longrightarrow> used V' (fs_sb s) c"
    and ind: "d_addrs x' ! NDIRECT = d_addrs x ! NDIRECT"
    and n0: "\<And>n. n < MAXFILE \<Longrightarrow> blk V' x' n = (if n = n0 then b else blk V x n)"
  shows "file_ok s V' x'"
proof -
  have d: "data_block s V' c" if "data_block s V c" for c using that mono by (auto simp: data_block_def)
  have fresh: "c \<noteq> b" if "data_block s V c" for c using that b(2) by (auto simp: data_block_def)
  have "data_block s V' c" if "c \<in> fblocks V' x'" for c
    using that b(1) file_okD(2,3) [OF ok] d n0 unfolding fblocks_def ind by (auto split: if_splits)
  moreover have "m = n" if mn: "m < MAXFILE" "n < MAXFILE" "blk V' x' m = blk V' x' n" "blk V' x' m \<noteq> 0" for m n
  proof -
    have old: "blk V x k \<noteq> b" if "k < MAXFILE" "blk V x k \<noteq> 0" for k using fresh [OF file_okD(2) [OF ok that]] .
    show ?thesis
    proof (cases "m = n0"; cases "n = n0")
      assume "m = n0" "n \<noteq> n0"
      then have "blk V x n = b" "b \<noteq> 0" using mn n0 [of m] n0 [of n] by simp_all
      then show ?thesis using old [of n] mn(2) by simp
    next
      assume "m \<noteq> n0" "n = n0"
      then have "blk V x m = b" "b \<noteq> 0" using mn n0 [of m] n0 [of n] by simp_all
      then show ?thesis using old [of m] mn(1) by simp
    next
      assume "m \<noteq> n0" "n \<noteq> n0"
      then have "blk V x m = blk V x n" "blk V x m \<noteq> 0" using mn n0 [of m] n0 [of n] by simp_all
      then show ?thesis using file_okD(4) [OF ok _ mn(1,2)] by blast
    qed simp
  qed
  moreover have "blk V' x' m \<noteq> d_addrs x' ! NDIRECT" if "m < MAXFILE" "blk V' x' m \<noteq> 0" for m
  proof (cases "m = n0")
    case True
    then show ?thesis using that n0 fresh [of "d_addrs x ! NDIRECT"] file_okD(3) [OF ok] ind b data_blockD(3) by (cases "d_addrs x ! NDIRECT = 0") auto
  qed (use that n0 ind file_okD(5) [OF ok] in auto)
  ultimately show ?thesis using len unfolding file_ok_def by blast
qed

subsection \<open>Updates of a file\<close>

definition patch :: "nat \<Rightarrow> byte list \<Rightarrow> (nat \<Rightarrow> byte) \<Rightarrow> nat \<Rightarrow> byte" where
  "patch off bs f i = (if off \<le> i \<and> i < off + length bs then bs ! (i - off) else f i)"

lemma patch_Nil [simp]: "patch off [] f = f"
  by (auto simp: patch_def fun_eq_iff)

lemma patch_append: "patch (off + length bs) cs (patch off bs f) = patch off (bs @ cs) f"
  by (auto simp: patch_def nth_append fun_eq_iff)

definition fupd :: "'a fsst_scheme \<Rightarrow> (nat \<Rightarrow> block) \<Rightarrow> dinode \<Rightarrow> nat \<Rightarrow> byte list \<Rightarrow> (nat \<Rightarrow> block) \<Rightarrow> dinode \<Rightarrow> bool" where
  "fupd s V x off bs V' x' \<longleftrightarrow>
     bm_ok s V' \<and> file_ok s V' x' \<and> x' = x\<lparr>d_addrs := d_addrs x'\<rparr> \<and>
     (\<forall>i < MAXFILE * BSIZE. fbyte V' x' i = patch off bs (fbyte V x) i) \<and>
     (\<forall>n < MAXFILE. blk V x n \<noteq> 0 \<longrightarrow> blk V' x' n = blk V x n) \<and>
     (\<forall>c < sb_size (fs_sb s). used V (fs_sb s) c \<longrightarrow> used V' (fs_sb s) c) \<and>
     (\<forall>c. c \<notin> bitmap_blocks (fs_sb s) \<longrightarrow> (c < sb_size (fs_sb s) \<longrightarrow> used V (fs_sb s) c) \<longrightarrow> c \<notin> fblocks V x \<longrightarrow> V' c = V c) \<and>
     (\<forall>c \<in> fblocks V' x'. c \<in> fblocks V x \<or> (c < sb_size (fs_sb s) \<and> \<not> used V (fs_sb s) c))"

lemma fupdD:
  assumes "fupd s V x off bs V' x'"
  shows "bm_ok s V'" "file_ok s V' x'" "x' = x\<lparr>d_addrs := d_addrs x'\<rparr>"
    "i < MAXFILE * BSIZE \<Longrightarrow> fbyte V' x' i = patch off bs (fbyte V x) i"
    "n < MAXFILE \<Longrightarrow> blk V x n \<noteq> 0 \<Longrightarrow> blk V' x' n = blk V x n"
    "c < sb_size (fs_sb s) \<Longrightarrow> used V (fs_sb s) c \<Longrightarrow> used V' (fs_sb s) c"
    "c \<notin> bitmap_blocks (fs_sb s) \<Longrightarrow> (c < sb_size (fs_sb s) \<Longrightarrow> used V (fs_sb s) c) \<Longrightarrow> c \<notin> fblocks V x \<Longrightarrow> V' c = V c"
    "c \<in> fblocks V' x' \<Longrightarrow> c \<in> fblocks V x \<or> (c < sb_size (fs_sb s) \<and> \<not> used V (fs_sb s) c)"
  using assms unfolding fupd_def by blast+

lemma fupd_refl: "bm_ok s V \<Longrightarrow> file_ok s V x \<Longrightarrow> fupd s V x off [] V x"
  by (simp add: fupd_def)

lemma fupd_fields:
  assumes "fupd s V x off bs V' x'"
  shows "d_type x' = d_type x" "d_size x' = d_size x" "d_nlink x' = d_nlink x" "d_major x' = d_major x"
  by (subst fupdD(3) [OF assms], simp)+

lemma fupd_trans:
  assumes 1: "fupd s V x off bs V1 x1" and 2: "fupd s V1 x1 (off + length bs) cs V2 x2"
  shows "fupd s V x off (bs @ cs) V2 x2"
proof -
  note D1 = fupdD [OF 1] and D2 = fupdD [OF 2]
  have a: "x2 = x\<lparr>d_addrs := d_addrs x2\<rparr>" using D1(3) D2(3) by (cases x; cases x1; cases x2) simp
  have b: "fbyte V2 x2 i = patch off (bs @ cs) (fbyte V x) i" if "i < MAXFILE * BSIZE" for i
  proof -
    have "fbyte V2 x2 i = patch (off + length bs) cs (patch off bs (fbyte V x)) i"
      using D2(4) [OF that] D1(4) [OF that] by (simp add: patch_def)
    then show ?thesis by (simp add: patch_append)
  qed
  have c: "blk V2 x2 n = blk V x n" if "n < MAXFILE" "blk V x n \<noteq> 0" for n
    using D1(5) [OF that] D2(5) [OF that(1)] that by simp
  have d: "used V2 (fs_sb s) c" if "c < sb_size (fs_sb s)" "used V (fs_sb s) c" for c
    using D2(6) [OF that(1)] D1(6) [OF that] by blast
  have e: "V2 c = V c" if "c \<notin> bitmap_blocks (fs_sb s)" "c < sb_size (fs_sb s) \<Longrightarrow> used V (fs_sb s) c" "c \<notin> fblocks V x" for c
  proof -
    have "c \<notin> fblocks V1 x1" using D1(8) [of c] that by blast
    then have "V2 c = V1 c" using that D1(6) by (intro D2(7)) auto
    then show ?thesis using D1(7) [OF that] by simp
  qed
  have "c \<in> fblocks V x \<or> (c < sb_size (fs_sb s) \<and> \<not> used V (fs_sb s) c)" if "c \<in> fblocks V2 x2" for c
    using D2(8) [OF that] D1(6,8) [of c] by blast
  then show ?thesis using D2(1,2) a b c d e unfolding fupd_def by blast
qed

text \<open>The blocks of another file are left alone.\<close>

lemma fupd_other:
  assumes "fupd s V x off bs V' x'" "file_ok s V y" "fblocks V x \<inter> fblocks V y = {}"
  shows "file_ok s V' y" "fblocks V' y = fblocks V y" "\<And>i. i < MAXFILE * BSIZE \<Longrightarrow> fbyte V' y i = fbyte V y i"
    "fblocks V' x' \<inter> fblocks V' y = {}" "\<And>n. blk V' y n = blk V y n"
proof -
  note D = fupdD [OF assms(1)]
  have same: "V' c = V c" if "c \<in> fblocks V y" for c
  proof -
    have "data_block s V c" using assms(2) that by (simp add: file_ok_def)
    then show ?thesis using assms(3) that D(7) [of c] by (auto simp: data_block_def)
  qed
  show b: "blk V' y n = blk V y n" for n
    using same [of "d_addrs y ! NDIRECT"] by (auto simp: blk_def fblocks_def)
  then show f: "fblocks V' y = fblocks V y" by (simp add: fblocks_def)
  show "file_ok s V' y" using assms(2) D(6) unfolding file_ok_def f b by (auto simp: data_block_def)
  show "fbyte V' y i = fbyte V y i" if "i < MAXFILE * BSIZE" for i
  proof -
    have "i div BSIZE < MAXFILE" using that by (simp add: less_mult_imp_div_less)
    then show ?thesis using same [of "blk V y (i div BSIZE)"] by (auto simp: fbyte_def b fblocks_def)
  qed
  show "fblocks V' x' \<inter> fblocks V' y = {}"
    using D(8) assms(2,3) unfolding f by (auto simp: file_ok_def data_block_def)
qed

subsection \<open>Adding a block to a file\<close>

lemma div_BSIZE: "i < MAXFILE * BSIZE \<Longrightarrow> i div BSIZE < MAXFILE"
  by (simp add: less_mult_imp_div_less)

lemma BSIZE_pos [simp]: "0 < BSIZE"
  by (simp add: BSIZE_def)

lemma fupd_add:
  assumes ok: "file_ok s V x" and bm: "bm_ok s V'" and x': "x' = x\<lparr>d_addrs := d_addrs x'\<rparr>" "length (d_addrs x') = NDIRECT + 1"
    and b: "data_block s V' b" "\<not> used V (fs_sb s) b" "V' b = replicate BSIZE 0"
    and mono: "\<And>c. c < sb_size (fs_sb s) \<Longrightarrow> used V (fs_sb s) c \<Longrightarrow> used V' (fs_sb s) c"
    and ind: "d_addrs x' ! NDIRECT = d_addrs x ! NDIRECT"
    and n0: "n0 < MAXFILE" "blk V x n0 = 0" "\<And>n. n < MAXFILE \<Longrightarrow> blk V' x' n = (if n = n0 then b else blk V x n)"
    and keep: "\<And>c. c \<noteq> b \<Longrightarrow> c \<notin> bitmap_blocks (fs_sb s) \<Longrightarrow> c \<noteq> 0 \<Longrightarrow> c \<noteq> d_addrs x ! NDIRECT \<Longrightarrow> V' c = V c"
    and keep0: "V' 0 = V 0 \<or> 0 \<in> bitmap_blocks (fs_sb s)"
  shows "fupd s V x off [] V' x'"
proof -
  have fresh: "c \<noteq> b" if "data_block s V c" for c using that b(2) by (auto simp: data_block_def)
  have con: "fbyte V' x' i = fbyte V x i" if "i < MAXFILE * BSIZE" for i
  proof -
    note n = div_BSIZE [OF that]
    have "V' (blk V x (i div BSIZE)) = V (blk V x (i div BSIZE))" if "blk V x (i div BSIZE) \<noteq> 0"
    proof -
      note d = file_okD(2) [OF ok n that]
      show ?thesis using keep fresh [OF d] data_blockD [OF d] file_okD(5) [OF ok n that] by blast
    qed
    then show ?thesis using n0(2) n0(3) [OF n] b(1,3) by (auto simp: fbyte_def data_block_def)
  qed
  have fb: "c \<in> fblocks V x \<or> c = b" if "c \<in> fblocks V' x'" for c
    using that n0(3) unfolding fblocks_def ind by (auto split: if_splits)
  have fr: "V' c = V c" if "c \<notin> bitmap_blocks (fs_sb s)" "c < sb_size (fs_sb s) \<longrightarrow> used V (fs_sb s) c" "c \<notin> fblocks V x" for c
  proof -
    have "c \<noteq> b" using that(2) b(1,2) data_blockD(1) by blast
    moreover have "c \<noteq> 0 \<Longrightarrow> c \<noteq> d_addrs x ! NDIRECT" using that(3) by (auto simp: fblocks_def)
    ultimately show ?thesis using keep [of c] keep0 that(1) by (cases "c = 0") auto
  qed
  have "file_ok s V' x'" by (rule file_ok_add [OF ok x'(2) b(1,2) mono ind n0(3)])
  moreover have "blk V' x' n = blk V x n" if "n < MAXFILE" "blk V x n \<noteq> 0" for n using n0 that by auto
  ultimately show ?thesis
    unfolding fupd_def using bm x'(1) con fb fr mono b(1,2) data_blockD(1) [OF b(1)] by (auto simp only: patch_Nil)
qed

lemma get32_zeros: "4 * k + 3 < BSIZE \<Longrightarrow> get32 (replicate BSIZE 0) (4 * k) = 0"
  by (simp add: get32_def)

lemma fupd_ind:
  assumes ok: "file_ok s V x" and bm: "bm_ok s V'" and b: "data_block s V' b" "\<not> used V (fs_sb s) b" "V' b = replicate BSIZE 0"
    and mono: "\<And>c. c < sb_size (fs_sb s) \<Longrightarrow> used V (fs_sb s) c \<Longrightarrow> used V' (fs_sb s) c"
    and i0: "d_addrs x ! NDIRECT = 0"
    and keep: "\<And>c. c \<noteq> b \<Longrightarrow> c \<notin> bitmap_blocks (fs_sb s) \<Longrightarrow> V' c = V c"
  defines "x' \<equiv> x\<lparr>d_addrs := (d_addrs x)[NDIRECT := b]\<rparr>"
  shows "fupd s V x off [] V' x'"
proof -
  have l: "length (d_addrs x) = NDIRECT + 1" by (rule file_okD(1) [OF ok])
  have fresh: "c \<noteq> b" if "data_block s V c" for c using that b(2) by (auto simp: data_block_def)
  have bk: "blk V' x' n = blk V x n" if "n < MAXFILE" for n
  proof (cases "n < NDIRECT")
    case False
    then have "4 * (n - NDIRECT) + 3 < BSIZE" using that by (simp add: MAXFILE_def NINDIRECT_def BSIZE_def)
    then show ?thesis using False l i0 b(3) by (simp add: blk_def x'_def get32_zeros)
  qed (simp add: blk_def x'_def)
  have "data_block s V' c" if "c \<in> fblocks V' x'" for c
    using that bk file_okD(2) [OF ok] mono b(1) l by (auto simp: fblocks_def x'_def data_block_def)
  moreover have "blk V' x' m \<noteq> d_addrs x' ! NDIRECT" if "m < MAXFILE" "blk V' x' m \<noteq> 0" for m
    using that bk fresh file_okD(2) [OF ok] l by (auto simp: x'_def)
  ultimately have "file_ok s V' x'" using l bk file_okD(4) [OF ok] unfolding file_ok_def by (auto simp: x'_def)
  moreover have "fbyte V' x' i = fbyte V x i" if "i < MAXFILE * BSIZE" for i
  proof (cases "blk V x (i div BSIZE) = 0")
    case False
    note d = file_okD(2) [OF ok div_BSIZE [OF that] False]
    show ?thesis using bk [OF div_BSIZE [OF that]] keep [OF fresh [OF d] data_blockD(6) [OF d]] by (simp add: fbyte_def)
  qed (use bk [OF div_BSIZE [OF that]] in \<open>simp add: fbyte_def\<close>)
  moreover have "c \<in> fblocks V x \<or> c = b" if "c \<in> fblocks V' x'" for c
    using that bk l by (auto simp: fblocks_def x'_def)
  moreover have "V' c = V c" if "c \<notin> bitmap_blocks (fs_sb s)" "c < sb_size (fs_sb s) \<longrightarrow> used V (fs_sb s) c" for c
    using that b(2) data_blockD(1) [OF b(1)] by (intro keep) auto
  ultimately show ?thesis
    unfolding fupd_def using bm bk mono b(1,2) data_blockD(1) [OF b(1)] by (auto simp: x'_def)
qed

subsection \<open>Operations that update an inode in the cache\<close>

definition ilogs :: "nat \<Rightarrow> nat \<Rightarrow> dinode \<Rightarrow> 'a fsst_scheme \<Rightarrow> 'a fsst_scheme \<Rightarrow> bool" where
  "ilogs k ip x' s s' \<longleftrightarrow> logs k (upd_dinode ip (\<lambda>_. x') s) s'"

lemma bst_upd_inode [simp]: "bst (upd_inode ip f s) V L B = bst s V L B" "bst (upd_dinode ip g s) V L B = bst s V L B"
proof -
  show 1: "bst (upd_inode ip f s) V L B = bst s V L B" for f
    unfolding bst_def using cache_rel_cong [of "upd_inode ip f s" s] by (simp add: upd_inode_def log_inv_def log_area_def)
  show "bst (upd_dinode ip g s) V L B = bst s V L B" by (simp add: upd_dinode_def 1)
qed

lemma upd_inode_simps [simp]:
  "fs_sb (upd_inode ip f s) = fs_sb s" "log_area (upd_inode ip f s) = log_area s" "bc_disksize (upd_inode ip f s) = bc_disksize s"
  "ic_inode (upd_inode ip f s) = (ic_inode s)(ip := f (ic_inode s ip))" "room k (upd_inode ip f s) = room k s"
  "bc_buf (upd_inode ip f s) = bc_buf s" "lh_n (upd_inode ip f s) = lh_n s" "lg_size (upd_inode ip f s) = lg_size s"
  "fs_sb (upd_dinode ip g s) = fs_sb s" "log_area (upd_dinode ip g s) = log_area s" "bc_disksize (upd_dinode ip g s) = bc_disksize s"
  "ic_inode (upd_dinode ip g s) = (ic_inode s)(ip := (ic_inode s ip)\<lparr>i_d := g (i_d (ic_inode s ip))\<rparr>)" "room k (upd_dinode ip g s) = room k s"
  "bc_buf (upd_dinode ip g s) = bc_buf s" "lh_n (upd_dinode ip g s) = lh_n s" "lg_size (upd_dinode ip g s) = lg_size s"
  by (simp_all add: upd_inode_def upd_dinode_def log_area_def room_def)

lemma logs_upd:
  fixes s :: "'a fsst_scheme"
  assumes "logs k s s'"
  shows "logs k (upd_inode ip f s) (upd_inode ip f s')"
proof -
  have "hasbuf (upd_inode ip f t) j c = hasbuf t j c" for t :: "'a fsst_scheme" and j c by (simp add: hasbuf_def)
  moreover have "fs_frame (upd_inode ip f s) (upd_inode ip f s')"
    using assms unfolding logs_def fs_frame_def by (cases s; cases s') (simp add: upd_inode_def)
  ultimately show ?thesis using assms by (simp add: logs_def)
qed

lemma upd_dinode_twice: "upd_dinode ip f (upd_dinode ip g s) = upd_dinode ip (\<lambda>x. f (g x)) s"
  by (simp add: upd_dinode_def upd_inode_def)

lemma upd_dinode_id: "i_d (ic_inode s ip) = x \<Longrightarrow> upd_dinode ip (\<lambda>_. x) s = s"
  by (cases s) (auto simp: upd_dinode_def upd_inode_def fun_upd_idem)

lemma ilogs_upd:
  fixes s :: "'a fsst_scheme"
  assumes "logs k s s'" "f (i_d (ic_inode s ip)) = x'"
  shows "ilogs k ip x' s (upd_dinode ip f s')"
proof -
  have "upd_dinode ip f t = upd_inode ip (\<lambda>y. y\<lparr>i_d := x'\<rparr>) t" if "ic_inode t = ic_inode s" for t :: "'a fsst_scheme"
    using that assms(2) by (simp add: upd_dinode_def upd_inode_def)
  moreover have "upd_dinode ip (\<lambda>_. x') s = upd_inode ip (\<lambda>y. y\<lparr>i_d := x'\<rparr>) s" by (simp add: upd_dinode_def)
  ultimately show ?thesis unfolding ilogs_def using logs_upd [OF assms(1)] logs_fs(2) [OF assms(1)] by simp
qed

lemma ilogs_logs: "logs k s s' \<Longrightarrow> i_d (ic_inode s ip) = x \<Longrightarrow> ilogs k ip x s s'"
  unfolding ilogs_def by (simp add: upd_dinode_id)

lemma ilogs_trans:
  assumes "ilogs j ip x1 s s1" "ilogs k ip x2 s1 s2"
  shows "ilogs (j + k) ip x2 s s2"
proof -
  have "logs j (upd_dinode ip (\<lambda>_. x2) (upd_dinode ip (\<lambda>_. x1) s)) (upd_dinode ip (\<lambda>_. x2) s1)"
    using logs_upd [OF assms(1) [unfolded ilogs_def]] unfolding upd_dinode_def by simp
  then show ?thesis using logs_trans assms(2) unfolding ilogs_def upd_dinode_twice by blast
qed

lemma ilogs_mono: "ilogs j ip x s s' \<Longrightarrow> j \<le> k \<Longrightarrow> ilogs k ip x s s'"
  unfolding ilogs_def by (rule logs_mono)

lemma ilogs_simps:
  assumes "ilogs k ip x' s s'"
  shows "fs_sb s' = fs_sb s" "log_area s' = log_area s" "bc_disksize s' = bc_disksize s"
    "ic_inode s' = (ic_inode s)(ip := (ic_inode s ip)\<lparr>i_d := x'\<rparr>)" "room (k + j) s \<Longrightarrow> room j s'" "hasbuf s i c \<Longrightarrow> hasbuf s' i c"
proof -
  note l = assms [unfolded ilogs_def]
  show "fs_sb s' = fs_sb s" "log_area s' = log_area s" "bc_disksize s' = bc_disksize s"
    "ic_inode s' = (ic_inode s)(ip := (ic_inode s ip)\<lparr>i_d := x'\<rparr>)"
    using logs_fs [OF l] logs_simps [OF l] by simp_all
  show "room (k + j) s \<Longrightarrow> room j s'" using logs_room [OF l, of j] by simp
  show "hasbuf s i c \<Longrightarrow> hasbuf s' i c" using logs_buf [OF l, of i c] by (simp add: hasbuf_def)
qed

lemma ilogs_same:
  assumes "ilogs k ip x' s s'"
  shows "geo_ok s' = geo_ok s" "bm_ok s' = bm_ok s" "data_block s' = data_block s" "file_ok s' = file_ok s" "fupd s' = fupd s"
proof -
  note e = ilogs_simps(1-3) [OF assms]
  show "geo_ok s' = geo_ok s" by (simp add: geo_ok_def e)
  show b: "bm_ok s' = bm_ok s" by (simp add: bm_ok_def e fun_eq_iff)
  show d: "data_block s' = data_block s" by (simp add: data_block_def e fun_eq_iff)
  show f: "file_ok s' = file_ok s" by (simp add: file_ok_def d fun_eq_iff)
  show "fupd s' = fupd s" by (simp add: fupd_def b f e fun_eq_iff)
qed

end
