(* ===== verification/FsMap.thy ===== *)
theory FsMap
  imports FsFile
begin

text \<open>
  \<^verbatim>\<open>bmap\<close>: the block of a file at a given position, allocated if it is missing. It never changes the bytes of the file.
  \<open>nfree\<close> counts the free blocks of the disk.
\<close>

definition nfree :: "superblock \<Rightarrow> (nat \<Rightarrow> block) \<Rightarrow> nat" where
  "nfree sb V = card {b. b < sb_size sb \<and> \<not> used V sb b}"

lemma nfree_pos: "0 < nfree sb V \<Longrightarrow> \<exists>b < sb_size sb. \<not> used V sb b"
  unfolding nfree_def by (metis (no_types, lifting) card_eq_0_iff empty_Collect_eq less_irrefl)

lemma nfree_alloc:
  assumes "b < sb_size sb" "\<not> used V sb b" "\<And>c. c < sb_size sb \<Longrightarrow> used W sb c \<longleftrightarrow> used V sb c \<or> c = b"
  shows "nfree sb V = Suc (nfree sb W)"
proof -
  have "{c. c < sb_size sb \<and> \<not> used V sb c} = insert b {c. c < sb_size sb \<and> \<not> used W sb c}" using assms by auto
  moreover have "b \<notin> {c. c < sb_size sb \<and> \<not> used W sb c}" using assms by auto
  ultimately show ?thesis unfolding nfree_def by (simp add: card_insert_if)
qed

lemma nfree_cong: "(\<And>c. c < sb_size sb \<Longrightarrow> used W sb c = used V sb c) \<Longrightarrow> nfree sb W = nfree sb V"
  unfolding nfree_def by (metis (mono_tags, lifting) Collect_cong)

lemma bm_ok_upd:
  assumes "bm_ok s V" "c \<notin> bitmap_blocks (fs_sb s)" "c \<noteq> 1"
  shows "bm_ok s (V(c := d))"
  using assms used_other [OF assms(2)] by (auto simp: bm_ok_def)

lemma alloc_data_block:
  assumes "geo_ok s" "bm_ok s V" "\<And>c. length (V c) = BSIZE" "b < sb_size (fs_sb s)" "\<not> used V (fs_sb s) b"
  shows "data_block s (alloc_view (fs_sb s) b V) b"
  using bm_okD [OF assms(2,4,5)] assms(4) alloc_view_props(3) [OF assms, of b] by (simp add: data_block_def)

lemma bst_disksize: "bst s V L B \<Longrightarrow> bc_disksize s < 2 ^ 31"
  by (simp add: bst_def log_inv_def)

subsection \<open>Direct blocks and the indirect block\<close>

lemma bmap_direct_new:
  fixes s :: "'a fsst_scheme"
  assumes st: "bst s V L {}" and g: "geo_ok s" and bm: "bm_ok s V" and x: "x = i_d (ic_inode s ip)" and dev: "i_dev (ic_inode s ip) = 1"
    and ok: "file_ok s V x" and k: "k \<le> NDIRECT" "d_addrs x ! k = 0" and r: "room 2 s" and fr: "0 < nfree (fs_sb s) V"
  shows "\<exists>b V' x' L' s'. bmap_direct ip k s = Ok (b, s') \<and> bst s' V' L' {} \<and> fupd s V x off [] V' x' \<and> ilogs 2 ip x' s s' \<and>
    d_addrs x' ! k = b \<and> b \<noteq> 0 \<and> nfree (fs_sb s) V = Suc (nfree (fs_sb s) V')"
proof -
  note len = bst_length [OF st]
  obtain b L' s1 where b: "balloc 1 s = Ok (b, s1)" "b < sb_size (fs_sb s)" "\<not> used V (fs_sb s) b"
      "bst s1 (alloc_view (fs_sb s) b V) L' {}" "logs 2 s s1"
    using balloc_ok [OF st g bm r holds_empty nfree_pos [OF fr]] by blast
  define V' where "V' = alloc_view (fs_sb s) b V"
  define x' where "x' = x\<lparr>d_addrs := (d_addrs x)[k := b]\<rparr>"
  note A = alloc_view_props [OF g bm len b(2,3), folded V'_def]
  note db = alloc_data_block [OF g bm len b(2,3), folded V'_def]
  have l: "length (d_addrs x) = NDIRECT + 1" by (rule file_okD(1) [OF ok])
  have mono: "used V' (fs_sb s) c" if "c < sb_size (fs_sb s)" "used V (fs_sb s) c" for c using A(3) that by simp
  have run: "bmap_direct ip k s = Ok (b, upd_dinode ip (\<lambda>x. x\<lparr>d_addrs := (d_addrs x)[k := b]\<rparr>) s1)"
    using b(1) k(2) dev x by (simp add: bmap_direct_def)
  have il: "ilogs 2 ip x' s (upd_dinode ip (\<lambda>x. x\<lparr>d_addrs := (d_addrs x)[k := b]\<rparr>) s1)"
    by (rule ilogs_upd [OF b(5)]) (simp add: x'_def x)
  have "fupd s V x off [] V' x'"
  proof (cases "k = NDIRECT")
    case True
    show ?thesis unfolding x'_def True using k(2) A(4) True
      by (intro fupd_ind [OF ok A(1) db b(3) A(2) mono]) auto
  next
    case False
    have ind: "V' (d_addrs x ! NDIRECT) = V (d_addrs x ! NDIRECT)" if "d_addrs x ! NDIRECT \<noteq> 0"
    proof (rule A(4))
      note d = data_blockD [OF file_okD(3) [OF ok that]]
      show "d_addrs x ! NDIRECT \<noteq> b" using d(2) b(3) by metis
      show "d_addrs x ! NDIRECT \<notin> bitmap_blocks (fs_sb s)" using d(6) .
    qed
    show ?thesis
    proof (rule fupd_add [OF ok A(1) _ _ db b(3) A(2) mono, of x' k])
      show "blk V' x' n = (if n = k then b else blk V x n)" if "n < MAXFILE" for n
        using k(1) False l ind by (auto simp: blk_def x'_def)
      show "k < MAXFILE" using k by (simp add: MAXFILE_def NINDIRECT_def BSIZE_def)
      show "blk V x k = 0" using k False by (simp add: blk_def)
      show "V' 0 = V 0 \<or> 0 \<in> bitmap_blocks (fs_sb s)" using A(4) [of 0] data_blockD(3) [OF db] by blast
    qed (use A(4) l k(1) False in \<open>auto simp: x'_def\<close>)
  qed
  moreover have "d_addrs x' ! k = b" using l k(1) by (simp add: x'_def)
  ultimately show ?thesis using run il b(4) data_blockD(3) [OF db] nfree_alloc [OF b(2,3) A(3)] unfolding V'_def [symmetric]
    by (intro exI [of _ b] exI [of _ V'] exI [of _ x'] exI [of _ L']) auto
qed

text \<open>The same, whether the block is there or not.\<close>

lemma bmap_direct_ok:
  fixes s :: "'a fsst_scheme"
  assumes st: "bst s V L {}" and g: "geo_ok s" and bm: "bm_ok s V" and x: "x = i_d (ic_inode s ip)" and dev: "i_dev (ic_inode s ip) = 1"
    and ok: "file_ok s V x" and k: "k \<le> NDIRECT" and r: "room 2 s" and fr: "0 < nfree (fs_sb s) V"
  shows "\<exists>b V' x' L' s'. bmap_direct ip k s = Ok (b, s') \<and> bst s' V' L' {} \<and> fupd s V x off [] V' x' \<and> ilogs 2 ip x' s s' \<and>
    d_addrs x' ! k = b \<and> b \<noteq> 0 \<and> nfree (fs_sb s) V \<le> Suc (nfree (fs_sb s) V')"
proof (cases "d_addrs x ! k = 0")
  case True
  then show ?thesis using bmap_direct_new [OF st g bm x dev ok k True r fr, of off] by fastforce
next
  case False
  have "bmap_direct ip k s = Ok (d_addrs x ! k, s)" using False x by (simp add: bmap_direct_def Let_def)
  then show ?thesis using False st fupd_refl [OF bm ok, of off] x
    by (intro exI [of _ "d_addrs x ! k"] exI [of _ V] exI [of _ x] exI [of _ L] exI [of _ s]) (auto intro: ilogs_logs)
qed

subsection \<open>\<^verbatim>\<open>bmap\<close>\<close>

lemma bmap_present:
  assumes st: "bst s V L {}" and g: "geo_ok s" and x: "x = i_d (ic_inode s ip)" and dev: "i_dev (ic_inode s ip) = 1"
    and ok: "file_ok s V x" and bn: "bn < MAXFILE" "blk V x bn \<noteq> 0"
  shows "\<exists>s'. bmap ip bn s = Ok (blk V x bn, s') \<and> bst s' V L {} \<and> logs 0 s s'"
proof (cases "bn < NDIRECT")
  case True
  then show ?thesis using bn x st by (intro exI [of _ s]) (simp add: bmap_def bmap_direct_def blk_def)
next
  case False
  have i: "d_addrs x ! NDIRECT \<noteq> 0" and w: "blk V x bn = unat (get32 (V (d_addrs x ! NDIRECT)) (4 * (bn - NDIRECT)))"
    using False bn(2) by (auto simp: blk_def split: if_splits)
  note d = file_okD(3) [OF ok i]
  obtain bp s1 s2 where 1: "bread 1 (d_addrs x ! NDIRECT) s = Ok (bp, s1)" "b_data (bc_buf s1 bp) = V (d_addrs x ! NDIRECT)"
      "brelse bp s1 = Ok s2" "bst s2 V L {}" "logs 0 s s2"
    using read_ok [OF st _ geo_okD(1) [OF g data_blockD(1) [OF d]]] by auto
  have "bn - NDIRECT < NINDIRECT" using bn(1) False by (simp add: MAXFILE_def)
  then have "bmap ip bn s = Ok (blk V x bn, s2)"
    using False i x dev 1(1-3) w bn(2) by (simp add: bmap_def bmap_direct_def Let_def)
  then show ?thesis using 1 by blast
qed

text \<open>The word of the indirect block is missing: a block is allocated and entered.\<close>

lemma bmap_word:
  fixes s :: "'a fsst_scheme"
  assumes st: "bst s V L {}" and g: "geo_ok s" and bm: "bm_ok s V" and x: "x = i_d (ic_inode s ip)" and dev: "i_dev (ic_inode s ip) = 1"
    and ok: "file_ok s V x" and bn: "bn < MAXFILE" "\<not> bn < NDIRECT" "d_addrs x ! NDIRECT = ind" "ind \<noteq> 0" "blk V x bn = 0"
    and r: "room 3 s" and fr: "0 < nfree (fs_sb s) V"
  shows "\<exists>bp s1 b s2 s3 s4 V' L'. bread 1 ind s = Ok (bp, s1) \<and> unat (get32 (b_data (bc_buf s1 bp)) (4 * (bn - NDIRECT))) = 0 \<and>
    i_dev (ic_inode s1 ip) = 1 \<and> balloc 1 s1 = Ok (b, s2) \<and>
    log_write bp (set_data bp (put32 (4 * (bn - NDIRECT)) (of_nat b) (b_data (bc_buf s2 bp))) s2) = Ok s3 \<and> brelse bp s3 = Ok s4 \<and>
    bst s4 V' L' {} \<and> fupd s V x off [] V' x \<and> logs 3 s s4 \<and> blk V' x bn = b \<and> b \<noteq> 0 \<and>
    nfree (fs_sb s) V = Suc (nfree (fs_sb s) V')"
proof -
  note len = bst_length [OF st]
  have i: "d_addrs x ! NDIRECT \<noteq> 0" using bn(3,4) by simp
  note d = file_okD(3) [OF ok i, unfolded bn(3)]
  note dD = data_blockD [OF d]
  obtain bp s1 where 1: "bread 1 ind s = Ok (bp, s1)" "hasbuf s1 bp ind" "b_data (bc_buf s1 bp) = V ind" "bst s1 V L {ind}" "logs 0 s s1"
    using read_ok [OF st _ geo_okD(1) [OF g dD(1)]] by auto
  note e1 = logs_fs [OF 1(5)] logs_simps [OF 1(5)]
  have h: "holds s1 V {ind}" using dD by (simp add: holds_def e1)
  have "geo_ok s1" "bm_ok s1 V" "room 2 s1" "\<exists>b < sb_size (fs_sb s1). \<not> used V (fs_sb s1) b"
    using g bm logs_geo [OF 1(5)] logs_room [OF 1(5), of 2] room_mono [OF r] nfree_pos [OF fr] by (auto simp: e1)
  then obtain b L2 s2 where b: "balloc 1 s1 = Ok (b, s2)" "b < sb_size (fs_sb s)" "\<not> used V (fs_sb s) b"
      "bst s2 (alloc_view (fs_sb s) b V) L2 {ind}" "logs 2 s1 s2"
    using balloc_ok [OF 1(4) _ _ _ h] unfolding e1 by blast
  define W where "W = alloc_view (fs_sb s) b V"
  note A = alloc_view_props [OF g bm len b(2,3), folded W_def]
  note db = alloc_data_block [OF g bm len b(2,3), folded W_def]
  have ib: "ind \<noteq> b" using dD(2) b(3) by blast
  have Wi: "W ind = V ind" using A(4) [OF ib dD(6)] .
  note hb = logs_buf [OF b(5) 1(2)]
  note e2 = logs_fs [OF b(5)] logs_simps [OF b(5)]
  define k where "k = bn - NDIRECT"
  have k: "k < NINDIRECT" using bn(1,2) by (simp add: k_def MAXFILE_def)
  define dd where "dd = put32 (4 * k) (of_nat b) (W ind)"
  have data: "b_data (bc_buf s2 bp) = W ind" using bst_data [OF b(4) hb] by (simp add: W_def)
  have "room 1 s2" using logs_room [OF b(5), of 1] logs_room [OF 1(5), of 3] r by simp
  then have "lh_n s2 + 1 < lg_size s2" "1 \<le> lg_outstanding s2" by (simp_all add: room_def)
  moreover have "length dd = BSIZE" "ind \<notin> log_area s2" using len dD(5) e1 e2 by (simp_all add: dd_def Wi)
  ultimately obtain s3 where 3: "log_write bp (set_data bp dd s2) = Ok s3" "bst s3 (W(ind := dd)) (insert ind L2) {ind}"
      "\<forall>j c. hasbuf s2 j c \<longrightarrow> hasbuf s3 j c" "fs_frame s2 s3" "lh_n s3 = (if ind \<in> L2 then lh_n s2 else lh_n s2 + 1)"
    using bst_log_write [OF b(4) hb, of dd] unfolding W_def by blast
  have "hasbuf s3 bp ind" using 3(3) hb by blast
  then obtain s4 where 4: "brelse bp s3 = Ok s4" "bst s4 (W(ind := dd)) (insert ind L2) ({ind} - {ind})" "fs_frame s3 s4" "lh_n s4 = lh_n s3"
    using bst_brelse [OF 3(2)] by blast
  have nob: "\<not> hasbuf s j c" for j c using hasbuf_data [of s V L "{}" j c] st by (auto simp: bst_def)
  have fr4: "fs_frame s s4" using 1(5) b(5) 3(4) 4(3) fs_frame_trans unfolding logs_def by blast
  have n4: "lh_n s4 \<le> lh_n s + 3" using 1(5) b(5) 3(5) 4(4) by (auto simp: logs_def)
  have l4: "logs 3 s s4" using fr4 n4 nob by (simp add: logs_def)
  have bw: "unat (of_nat b :: 32 word) = b" using geo_okD(1) [OF g b(2)] bst_disksize [OF st] by (simp add: unat_of_nat)
  have bk: "blk (W(ind := dd)) x n = (if n = bn then b else blk V x n)" if "n < MAXFILE" for n
  proof (cases "n < NDIRECT")
    case False
    then have nk: "n - NDIRECT < NINDIRECT" using that by (simp add: MAXFILE_def)
    have sz: "4 * k + 3 < length (V ind)" using k len by (simp add: NINDIRECT_def BSIZE_def)
    show ?thesis
    proof (cases "n = bn")
      case True
      then show ?thesis using bn(2-4) bw sz by (simp add: blk_def dd_def k_def [symmetric] get32_put32_same Wi)
    next
      case neq: False
      then have "n - NDIRECT \<noteq> k" using False bn(2) unfolding k_def by linarith
      then have "get32 dd (4 * (n - NDIRECT)) = get32 (V ind) (4 * (n - NDIRECT))" unfolding dd_def Wi by (intro get32_put32_other) linarith
      then show ?thesis using False bn(3,4) neq by (simp add: blk_def)
    qed
  qed (use bn(2) in \<open>simp add: blk_def\<close>)
  have uW: "used (W(ind := dd)) (fs_sb s) c = used W (fs_sb s) c" if "c < sb_size (fs_sb s)" for c
    using used_other [OF dD(6) that] .
  have mono: "used (W(ind := dd)) (fs_sb s) c" if "c < sb_size (fs_sb s)" "used V (fs_sb s) c" for c
    using A(3) uW that by simp
  have db': "data_block s (W(ind := dd)) b" using db uW [OF b(2)] by (simp add: data_block_def)
  have "fupd s V x off [] (W(ind := dd)) x"
  proof (rule fupd_add [OF ok bm_ok_upd [OF A(1) dD(6,4)] _ _ db' b(3) _ mono _ bn(1,5) bk])
    show "(W(ind := dd)) b = replicate BSIZE 0" using A(2) ib by simp
    show "(W(ind := dd)) 0 = V 0 \<or> 0 \<in> bitmap_blocks (fs_sb s)" using A(4) [of 0] data_blockD(3) [OF db] dD(3) by auto
  qed (use A(4) file_okD(1) [OF ok] bn(3) in auto)
  moreover have "nfree (fs_sb s) V = Suc (nfree (fs_sb s) (W(ind := dd)))" using nfree_alloc [OF b(2,3)] A(3) uW by simp
  moreover have "log_write bp (set_data bp (put32 (4 * (bn - NDIRECT)) (of_nat b) (b_data (bc_buf s2 bp))) s2) = Ok s3"
    using 3(1) unfolding data dd_def k_def .
  moreover have "unat (get32 (b_data (bc_buf s1 bp)) (4 * (bn - NDIRECT))) = 0" using bn(2-5) 1(3) by (simp add: blk_def)
  moreover have "blk (W(ind := dd)) x bn = b" "i_dev (ic_inode s1 ip) = 1" "bst s4 (W(ind := dd)) (insert ind L2) {}"
    using bk [OF bn(1)] dev e1 4(2) by simp_all
  ultimately show ?thesis using 1(1) b(1) 4(1) l4 data_blockD(3) [OF db] by blast
qed

text \<open>\<^verbatim>\<open>bmap\<close> in general: at most two blocks are allocated and five log entries made.\<close>

lemma bmap_ok:
  fixes s :: "'a fsst_scheme"
  assumes st: "bst s V L {}" and g: "geo_ok s" and bm: "bm_ok s V" and x: "x = i_d (ic_inode s ip)" and dev: "i_dev (ic_inode s ip) = 1"
    and ok: "file_ok s V x" and bn: "bn < MAXFILE" and r: "room 5 s" and fr: "2 \<le> nfree (fs_sb s) V"
  shows "\<exists>b V' x' L' s'. bmap ip bn s = Ok (b, s') \<and> bst s' V' L' {} \<and> fupd s V x off [] V' x' \<and> ilogs 5 ip x' s s' \<and>
    blk V' x' bn = b \<and> b \<noteq> 0 \<and> nfree (fs_sb s) V \<le> nfree (fs_sb s) V' + 2"
proof (cases "bn < NDIRECT")
  case True
  have k: "bn \<le> NDIRECT" and r2: "room 2 s" and f: "0 < nfree (fs_sb s) V" using True room_mono [OF r] fr by simp_all
  obtain b V' x' L' s' where 1: "bmap_direct ip bn s = Ok (b, s')" "bst s' V' L' {}" "fupd s V x off [] V' x'" "ilogs 2 ip x' s s'"
    "d_addrs x' ! bn = b" "b \<noteq> 0" "nfree (fs_sb s) V \<le> Suc (nfree (fs_sb s) V')"
    using bmap_direct_ok [OF st g bm x dev ok k r2 f, of off] by blast
  moreover have "blk V' x' bn = b" using 1(5) True by (simp add: blk_def)
  moreover have "ilogs 5 ip x' s s'" using ilogs_mono [OF 1(4)] by simp
  moreover have "bmap ip bn s = Ok (b, s')" using 1(1) True by (simp add: bmap_def)
  ultimately show ?thesis by (metis add_2_eq_Suc' le_SucI)
next
  case False
  have r2: "room 2 s" and f: "0 < nfree (fs_sb s) V" using room_mono [OF r] fr by simp_all
  obtain ind V1 x1 L1 s1 where 1: "bmap_direct ip NDIRECT s = Ok (ind, s1)" "bst s1 V1 L1 {}" "fupd s V x off [] V1 x1" "ilogs 2 ip x1 s s1"
    "d_addrs x1 ! NDIRECT = ind" "ind \<noteq> 0" "nfree (fs_sb s) V \<le> Suc (nfree (fs_sb s) V1)"
    using bmap_direct_ok [OF st g bm x dev ok le_refl r2 f, of off] by blast
  note e = ilogs_simps [OF 1(4)] and sm = ilogs_same [OF 1(4)] and D = fupdD [OF 1(3)]
  have x1: "x1 = i_d (ic_inode s1 ip)" and dev1: "i_dev (ic_inode s1 ip) = 1" using e(4) dev by simp_all
  have g1: "geo_ok s1" and bm1: "bm_ok s1 V1" and ok1: "file_ok s1 V1 x1" using g D(1,2) by (simp_all add: sm)
  have k: "bn - NDIRECT < NINDIRECT" using bn False by (simp add: MAXFILE_def)
  show ?thesis
  proof (cases "blk V1 x1 bn = 0")
    case True
    have r3: "room 3 s1" using e(5) [of 3] r by simp
    have f1: "0 < nfree (fs_sb s1) V1" using fr 1(7) by (simp add: e(1))
    obtain bp t1 b t2 t3 s' V' L' where 2: "bread 1 ind s1 = Ok (bp, t1)" "unat (get32 (b_data (bc_buf t1 bp)) (4 * (bn - NDIRECT))) = 0"
      "i_dev (ic_inode t1 ip) = 1" "balloc 1 t1 = Ok (b, t2)"
      "log_write bp (set_data bp (put32 (4 * (bn - NDIRECT)) (of_nat b) (b_data (bc_buf t2 bp))) t2) = Ok t3" "brelse bp t3 = Ok s'"
      "bst s' V' L' {}" "fupd s1 V1 x1 off [] V' x1" "logs 3 s1 s'" "blk V' x1 bn = b" "b \<noteq> 0"
      "nfree (fs_sb s1) V1 = Suc (nfree (fs_sb s1) V')"
      using bmap_word [OF 1(2) g1 bm1 x1 dev1 ok1 bn False 1(5,6) True r3 f1, of off] by blast
    have "bmap ip bn s = Ok (b, s')" unfolding bmap_def using False k 1(1) dev1 2(1-6) by (simp add: Let_def)
    moreover have "ilogs 5 ip x1 s s'" using ilogs_trans [OF 1(4) ilogs_logs [OF 2(9) x1 [symmetric]]] by simp
    moreover have "fupd s V x off [] V' x1" using fupd_trans [OF 1(3), of "[]" V' x1] 2(8) by (simp add: sm)
    moreover have "nfree (fs_sb s) V \<le> nfree (fs_sb s) V' + 2" using 1(7) 2(12) by (simp add: e(1))
    ultimately show ?thesis using 2(7,10,11) by blast
  next
    case nz: False
    obtain bp t1 s' where 2: "bread 1 ind s1 = Ok (bp, t1)" "b_data (bc_buf t1 bp) = V1 ind" "brelse bp t1 = Ok s'" "bst s' V1 L1 {}" "logs 0 s1 s'"
    proof -
      have "d_addrs x1 ! NDIRECT \<noteq> 0" using 1(5,6) by simp
      note d = file_okD(3) [OF ok1 this, unfolded 1(5)]
      show ?thesis using read_ok [OF 1(2) _ geo_okD(1) [OF g1 data_blockD(1) [OF d]]] that by auto
    qed
    have w: "blk V1 x1 bn = unat (get32 (V1 ind) (4 * (bn - NDIRECT)))" using False 1(5,6) by (simp add: blk_def)
    have "bmap ip bn s = Ok (blk V1 x1 bn, s')" unfolding bmap_def using False k 1(1) dev1 2(1-3) w nz by (simp add: Let_def)
    moreover have "ilogs 5 ip x1 s s'" using ilogs_mono [OF ilogs_trans [OF 1(4) ilogs_logs [OF 2(5) x1 [symmetric]]]] by simp
    moreover have "nfree (fs_sb s) V \<le> nfree (fs_sb s) V1 + 2" using 1(7) by simp
    ultimately show ?thesis using nz 2(4) 1(3) by blast
  qed
qed

end
