(* ===== verification/FsRw.thy ===== *)
theory FsRw
  imports FsMap
begin

text \<open>
  \<^verbatim>\<open>readi\<close> and \<^verbatim>\<open>writei\<close> on the bytes of a file, and the encoding of inodes that \<^verbatim>\<open>iupdate\<close> writes and
  \<^verbatim>\<open>ilock\<close> reads.
\<close>

subsection \<open>Encoding of inodes\<close>

lemma put16_length [simp]: "length (put16 k w d) = length d"
  by (simp add: put16_def)

lemma get16_put16_same: "k + 1 < length d \<Longrightarrow> get16 (put16 k w d) k = w"
proof -
  assume l: "k + 1 < length d"
  let ?v = "ucast (ucast w :: byte) OR push_bit 8 (ucast (ucast (drop_bit 8 w) :: byte)) :: 16 word"
  have "?v = w"
  proof (rule bit_word_eqI)
    fix n assume "n < LENGTH(16)"
    then consider "n < 8" | "8 \<le> n" "n < 16" by fastforce
    then show "bit ?v n = bit w n" by cases (auto simp: bit_simps)
  qed
  then show ?thesis using l by (simp add: get16_def put16_def)
qed

lemma get_put_other:
  "k + 2 \<le> j \<or> j + 2 \<le> k \<Longrightarrow> get16 (put16 k w d) j = get16 d j"
  "k + 4 \<le> j \<or> j + 2 \<le> k \<Longrightarrow> get16 (put32 k v d) j = get16 d j"
  "k + 2 \<le> j \<or> j + 4 \<le> k \<Longrightarrow> get32 (put16 k w d) j = get32 d j"
  by (auto simp: get16_def get32_def put16_def put32_def)

text \<open>Writing the block addresses leaves every other field alone.\<close>

lemma addrs_fold:
  fixes f :: "nat \<Rightarrow> 32 word" and a :: nat
  defines "g m \<equiv> fold (\<lambda>k. put32 (a + 4 * k) (f k)) [0..<m]"
  shows "length (g m d) = length d" "\<And>j. j + 4 \<le> a \<or> a + 4 * m \<le> j \<Longrightarrow> get32 (g m d) j = get32 d j"
    "\<And>j. j + 2 \<le> a \<or> a + 4 * m \<le> j \<Longrightarrow> get16 (g m d) j = get16 d j"
    "\<And>k. k < m \<Longrightarrow> a + 4 * m \<le> length d \<Longrightarrow> get32 (g m d) (a + 4 * k) = f k"
proof -
  show len: "length (g m d) = length d" for m unfolding g_def by (induction m) auto
  show "get32 (g m d) j = get32 d j" if "j + 4 \<le> a \<or> a + 4 * m \<le> j" for j
    using that unfolding g_def by (induction m) (auto simp: get32_put32_other)
  show "get16 (g m d) j = get16 d j" if "j + 2 \<le> a \<or> a + 4 * m \<le> j" for j
    using that unfolding g_def by (induction m) (auto simp: get_put_other)
  show "get32 (g m d) (a + 4 * k) = f k" if "k < m" "a + 4 * m \<le> length d" for k
    using that
  proof (induction m)
    case (Suc m)
    have g: "g (Suc m) d = put32 (a + 4 * m) (f m) (g m d)" by (simp add: g_def)
    show ?case
    proof (cases "k = m")
      case True
      then show ?thesis using Suc.prems len [of m] unfolding g by (simp add: get32_put32_same)
    next
      case False
      then have "k < m" using Suc.prems(1) by simp
      moreover from this have "get32 (g (Suc m) d) (a + 4 * k) = get32 (g m d) (a + 4 * k)" unfolding g by (intro get32_put32_other) linarith
      ultimately show ?thesis using Suc by simp
    qed
  qed simp
qed

lemma put_dinode_length [simp]: "length (put_dinode o' x d) = length d"
  by (simp add: put_dinode_def addrs_fold(1))

lemma get_put_dinode_other:
  assumes "o' + DINODESZ \<le> o2 \<or> o2 + DINODESZ \<le> o'"
  shows "get_dinode o2 (put_dinode o' x d) = get_dinode o2 d"
proof -
  have a: "get16 (put_dinode o' x d) j = get16 d j" if "o2 \<le> j" "j + 2 \<le> o2 + DINODESZ" for j
    using assms that unfolding put_dinode_def DINODESZ_def
    by (subst addrs_fold(3)) (auto simp: NDIRECT_def get_put_other)
  have b: "get32 (put_dinode o' x d) j = get32 d j" if "o2 \<le> j" "j + 4 \<le> o2 + DINODESZ" for j
    using assms that unfolding put_dinode_def DINODESZ_def
    by (subst addrs_fold(2)) (auto simp: NDIRECT_def get_put_other get32_put32_other)
  have c: "map (\<lambda>k. unat (get32 (put_dinode o' x d) (o2 + 20 + 4 * k))) [0..<NDIRECT + 1] = map (\<lambda>k. unat (get32 d (o2 + 20 + 4 * k))) [0..<NDIRECT + 1]"
    by (rule map_cong [OF refl]) (simp add: b DINODESZ_def NDIRECT_def)
  show ?thesis unfolding get_dinode_def c by (simp add: a b DINODESZ_def)
qed

lemma get_put_dinode:
  assumes "o' + DINODESZ \<le> length d" "length (d_addrs x) = NDIRECT + 1" "\<forall>b \<in> set (d_addrs x). b < 2 ^ 32"
  shows "get_dinode o' (put_dinode o' x d) = x"
proof -
  define e where "e = put32 (o' + 12) (d_mode x) (put16 (o' + 10) (d_gid x) (put16 (o' + 8) (d_uid x)
         (put32 (o' + 16) (d_size x) (put16 (o' + 6) (d_nlink x) (put16 (o' + 4) (d_minor x)
           (put16 (o' + 2) (d_major x) (put16 o' (d_type x) d)))))))"
  have l: "length e = length d" by (simp add: e_def)
  have p: "put_dinode o' x d = fold (\<lambda>k. put32 (o' + 20 + 4 * k) (of_nat (d_addrs x ! k))) [0..<NDIRECT + 1] e"
    by (simp add: put_dinode_def e_def)
  have "get32 (put_dinode o' x d) (o' + 20 + 4 * k) = of_nat (d_addrs x ! k)" if "k < NDIRECT + 1" for k
    unfolding p by (rule addrs_fold(4) [OF that]) (use assms(1) l in \<open>simp add: DINODESZ_def NDIRECT_def\<close>)
  moreover have "unat (of_nat (d_addrs x ! k) :: 32 word) = d_addrs x ! k" if "k < NDIRECT + 1" for k
    using assms(2,3) that by (simp add: unat_of_nat)
  ultimately have "map (\<lambda>k. unat (get32 (put_dinode o' x d) (o' + 20 + 4 * k))) [0..<NDIRECT + 1] = map ((!) (d_addrs x)) [0..<NDIRECT + 1]"
    by (intro map_cong [OF refl]) simp
  also have "\<dots> = d_addrs x" unfolding assms(2) [symmetric] by (rule map_nth)
  finally have ad: "map (\<lambda>k. unat (get32 (put_dinode o' x d) (o' + 20 + 4 * k))) [0..<NDIRECT + 1] = d_addrs x" .
  have f16: "get16 (put_dinode o' x d) j = get16 e j" if "j + 2 \<le> o' + 20" for j
    unfolding p using that by (subst addrs_fold(3)) auto
  have f32: "get32 (put_dinode o' x d) j = get32 e j" if "j + 4 \<le> o' + 20" for j
    unfolding p using that by (subst addrs_fold(2)) auto
  have "get16 e o' = d_type x" "get16 e (o' + 2) = d_major x" "get16 e (o' + 4) = d_minor x" "get16 e (o' + 6) = d_nlink x"
    "get16 e (o' + 8) = d_uid x" "get16 e (o' + 10) = d_gid x" "get32 e (o' + 12) = d_mode x" "get32 e (o' + 16) = d_size x"
    using assms(1) by (simp_all add: e_def get_put_other get16_put16_same get32_put32_same get32_put32_other DINODESZ_def)
  then show ?thesis unfolding get_dinode_def ad by (simp add: f16 f32)
qed

subsection \<open>Bytes of a block\<close>

lemma block_bytes:
  assumes "blk V x (off div BSIZE) = b" "b \<noteq> 0" "length (V b) = BSIZE" "off mod BSIZE + m \<le> BSIZE"
  shows "take m (drop (off mod BSIZE) (V b)) = map (fbyte V x) [off..<off + m]"
proof (rule nth_equalityI)
  show "length (take m (drop (off mod BSIZE) (V b))) = length (map (fbyte V x) [off..<off + m])" using assms(3,4) by simp
  fix j assume "j < length (take m (drop (off mod BSIZE) (V b)))"
  then have j: "j < m" by simp
  have lt: "off mod BSIZE + j < BSIZE" using assms(4) j by linarith
  have "off + j = off div BSIZE * BSIZE + (off mod BSIZE + j)" using div_mult_mod_eq [of off BSIZE] by linarith
  then have "(off + j) div BSIZE = off div BSIZE" "(off + j) mod BSIZE = off mod BSIZE + j"
    using lt by (metis BSIZE_pos add.right_neutral div_less div_mult_self3 less_numeral_extra(3), metis lt mod_less mod_mult_self3)
  then show "take m (drop (off mod BSIZE) (V b)) ! j = map (fbyte V x) [off..<off + m] ! j"
    using assms(1-3) j lt by (simp add: fbyte_def)
qed

text \<open>Overwriting part of one block.\<close>

lemma fupd_block:
  fixes off :: nat and bs :: "byte list"
  assumes ok: "file_ok s V x" and bm: "bm_ok s V" and bn: "off div BSIZE < MAXFILE" "blk V x (off div BSIZE) = b" "b \<noteq> 0"
    and len: "length (V b) = BSIZE" "off mod BSIZE + length bs \<le> BSIZE"
  defines "d \<equiv> take (off mod BSIZE) (V b) @ bs @ drop (off mod BSIZE + length bs) (V b)"
  shows "fupd s V x off bs (V(b := d)) x"
proof -
  let ?W = "V(b := d)"
  have nz: "blk V x (off div BSIZE) \<noteq> 0" using bn(2,3) by simp
  note D = data_blockD [OF file_okD(2) [OF ok bn(1) nz], unfolded bn(2)]
  have bi: "b \<noteq> d_addrs x ! NDIRECT" using file_okD(5) [OF ok bn(1) nz] bn(2) by simp
  have bk: "blk ?W x n = blk V x n" for n using bi by (simp add: blk_def)
  have u: "used ?W (fs_sb s) c = used V (fs_sb s) c" if "c < sb_size (fs_sb s)" for c using used_other [OF D(6) that] .
  have fb: "fblocks ?W x = fblocks V x" by (simp add: fblocks_def bk)
  have "file_ok s ?W x" using ok u unfolding file_ok_def fb bk by (auto simp: data_block_def)
  moreover have "fbyte ?W x i = patch off bs (fbyte V x) i" if i: "i < MAXFILE * BSIZE" for i
  proof (cases "i div BSIZE = off div BSIZE")
    case True
    define o1 where "o1 = off mod BSIZE"
    have i': "i = off div BSIZE * BSIZE + i mod BSIZE" using True by (metis div_mult_mod_eq)
    have o': "off = off div BSIZE * BSIZE + o1" unfolding o1_def by (rule div_mult_mod_eq [symmetric])
    have in': "off \<le> i \<and> i < off + length bs \<longleftrightarrow> o1 \<le> i mod BSIZE \<and> i mod BSIZE < o1 + length bs" and sub: "i - off = i mod BSIZE - o1"
      using i' o' by linarith+
    have im: "i mod BSIZE < BSIZE" by simp
    have "d ! (i mod BSIZE) = (if o1 \<le> i mod BSIZE \<and> i mod BSIZE < o1 + length bs then bs ! (i mod BSIZE - o1) else V b ! (i mod BSIZE))"
      using len im unfolding d_def o1_def [symmetric] by (auto simp: nth_append min_def)
    then show ?thesis using True bn(2,3) unfolding fbyte_def bk patch_def in' sub by simp
  next
    case False
    have "blk V x (i div BSIZE) \<noteq> b" if "blk V x (i div BSIZE) \<noteq> 0"
      using file_okD(4) [OF ok _ div_BSIZE [OF i] bn(1) that] False bn(2) by auto
    moreover have "\<not> (off \<le> i \<and> i < off + length bs)"
    proof
      assume a: "off \<le> i \<and> i < off + length bs"
      have "off div BSIZE * BSIZE + BSIZE \<ge> off + length bs" using len(2) div_mult_mod_eq [of off BSIZE] by linarith
      then have "i < Suc (off div BSIZE) * BSIZE" using a by simp
      then have "i div BSIZE \<le> off div BSIZE" by (metis less_Suc_eq_le less_mult_imp_div_less)
      moreover have "off div BSIZE \<le> i div BSIZE" using a by (simp add: div_le_mono)
      ultimately show False using False by simp
    qed
    ultimately show ?thesis by (auto simp: fbyte_def bk patch_def)
  qed
  moreover have "b \<in> fblocks V x" using bn by (auto simp: fblocks_def)
  ultimately show ?thesis using bm_ok_upd [OF bm D(6,4)] u bk fb unfolding fupd_def by (auto simp: bk fb)
qed

subsection \<open>The loops\<close>

lemma word_BSIZE: "(of_nat BSIZE :: 32 word) = 512" "unat (off div of_nat BSIZE :: 32 word) = unat off div BSIZE"
  "unat (off mod of_nat BSIZE :: 32 word) = unat off mod BSIZE"
  by (simp_all add: BSIZE_def unat_div unat_mod)

lemma chunk_eq:
  assumes "tot \<le> n"
  shows "chunk n tot off = min (unat n - unat tot) (BSIZE - unat off mod BSIZE)"
proof -
  have "off mod of_nat BSIZE \<le> (of_nat BSIZE :: 32 word)" unfolding word_le_nat_alt word_BSIZE(3) by (simp add: BSIZE_def)
  then have "unat (of_nat BSIZE - off mod of_nat BSIZE :: 32 word) = BSIZE - unat off mod BSIZE"
    unfolding word_BSIZE(3) [symmetric] by (simp add: unat_sub BSIZE_def)
  moreover have "unat (n - tot) = unat n - unat tot" using assms by (simp add: unat_sub)
  ultimately show ?thesis unfolding chunk_def min_def word_le_nat_alt by simp
qed

lemma chunk_props:
  assumes "tot < n" "m = chunk n tot off"
  shows "0 < m" "m \<le> unat n - unat tot" "unat off mod BSIZE + m \<le> BSIZE" "tot + of_nat m \<le> n" "unat (tot + of_nat m) = unat tot + m"
proof -
  have u: "unat tot < unat n" using assms(1) by (simp add: word_less_nat_alt)
  have m: "m = min (unat n - unat tot) (BSIZE - unat off mod BSIZE)" using chunk_eq assms by (simp add: order_less_imp_le)
  show 1: "m \<le> unat n - unat tot" using m by simp
  show "0 < m" using m u by simp
  show "unat off mod BSIZE + m \<le> BSIZE" using m mod_less_divisor [OF BSIZE_pos, of "unat off"] by linarith
  have "unat tot + m < 4294967296" using 1 u unat_lt [of n] by linarith
  then have b: "unat tot + m < 2 ^ 32" by simp
  then have "unat (of_nat m :: 32 word) = m" by (simp add: unat_of_nat)
  then show 2: "unat (tot + of_nat m) = unat tot + m" using b by (simp add: unat_plus_if')
  show "tot + of_nat m \<le> n" unfolding word_le_nat_alt 2 using 1 u by simp
qed

lemma off_step:
  fixes off :: "32 word"
  assumes "unat off + m \<le> MAXFILE * BSIZE"
  shows "unat (off + of_nat m) = unat off + m"
proof -
  have "unat off + m < 2 ^ 32" using assms by (simp add: MAXFILE_def NDIRECT_def NINDIRECT_def BSIZE_def)
  moreover from this have "unat (of_nat m :: 32 word) = m" by (simp add: unat_of_nat)
  ultimately show ?thesis by (simp add: unat_plus_if')
qed

lemma readi_loop_ok:
  fixes s :: "'a fsst_scheme"
  assumes "bst s V L {}" "geo_ok s" "x = i_d (ic_inode s ip)" "i_dev (ic_inode s ip) = 1" "file_ok s V x" "tot \<le> n"
    "unat off + (unat n - unat tot) \<le> MAXFILE * BSIZE" "\<forall>k. k * BSIZE < unat off + (unat n - unat tot) \<longrightarrow> blk V x k \<noteq> 0"
    "unat n - unat tot \<le> fuel"
  shows "\<exists>s'. readi_loop fuel ip off n tot s = Ok (map (fbyte V x) [unat off..<unat off + (unat n - unat tot)], s') \<and>
    bst s' V L {} \<and> logs 0 s s'"
  using assms
proof (induction fuel arbitrary: off tot s)
  case 0
  then have "\<not> tot < n" by (simp add: word_less_nat_alt)
  moreover have "unat n - unat tot = 0" using 0 by simp
  ultimately show ?case using 0(1) by (intro exI [of _ s]) (simp add: readi_loop.simps [of 0])
next
  case (Suc f)
  note u = readi_loop.simps [of "Suc f" ip off n tot s]
  show ?case
  proof (cases "tot < n")
    case False
    then have "unat n - unat tot = 0" by (simp add: word_less_nat_alt)
    then show ?thesis using False Suc.prems(1) by (intro exI [of _ s]) (simp add: u)
  next
    case True
    define m where "m = chunk n tot off"
    note c = chunk_props [OF True m_def]
    define bn where "bn = unat off div BSIZE"
    have rem: "unat n - unat (tot + of_nat m) = unat n - unat tot - m" by (simp add: c(5))
    have bn: "bn < MAXFILE" "blk V x bn \<noteq> 0"
    proof -
      have "bn * BSIZE \<le> unat off" unfolding bn_def by (rule div_times_less_eq_dividend)
      then have 1: "bn * BSIZE < unat off + (unat n - unat tot)" using c(1,2) by linarith
      then show "blk V x bn \<noteq> 0" using Suc.prems(8) by blast
      show "bn < MAXFILE" using 1 Suc.prems(7) by (meson BSIZE_pos less_le_trans mult_less_cancel2)
    qed
    obtain s1 where 1: "bmap ip bn s = Ok (blk V x bn, s1)" "bst s1 V L {}" "logs 0 s s1"
      using bmap_present [OF Suc.prems(1-5) bn] by blast
    note e1 = logs_fs [OF 1(3)] logs_simps [OF 1(3)]
    have lt: "blk V x bn < bc_disksize s1" using geo_okD(1) [OF Suc.prems(2)] data_blockD(1) [OF file_okD(2) [OF Suc.prems(5) bn]] by (simp add: e1)
    obtain bp s2 s3 where 2: "bread 1 (blk V x bn) s1 = Ok (bp, s2)" "b_data (bc_buf s2 bp) = V (blk V x bn)" "brelse bp s2 = Ok s3" "bst s3 V L {}" "logs 0 s1 s3"
      using read_ok [OF 1(2) _ lt] by auto
    have l3: "logs 0 s s3" using logs_trans [OF 1(3) 2(5)] by simp
    note e3 = logs_fs [OF l3] logs_geo [OF l3]
    have ok3: "file_ok s3 = file_ok s" using ilogs_same(4) [OF ilogs_logs [OF l3 refl]] by simp
    have off': "unat (off + of_nat m) = unat off + m" using Suc.prems(7) c(2) by (intro off_step) linarith
    have fu: "unat n - unat tot - m \<le> f" using Suc.prems(9) c(1) by linarith
    have sum: "unat off + m + (unat n - unat tot - m) = unat off + (unat n - unat tot)" using c(2) by linarith
    obtain s' where 3: "readi_loop f ip (off + of_nat m) n (tot + of_nat m) s3 =
        Ok (map (fbyte V x) [unat off + m..<unat off + (unat n - unat tot)], s')" "bst s' V L {}" "logs 0 s3 s'"
      using Suc.IH [OF 2(4), of "tot + of_nat m" "off + of_nat m"] Suc.prems(2-5,7,8) fu c(4) unfolding rem off' sum e3 ok3 by blast
    have by': "take m (drop (unat off mod BSIZE) (V (blk V x bn))) = map (fbyte V x) [unat off..<unat off + m]"
      using block_bytes [of V x "unat off" "blk V x bn" m] bn(2) bst_length [OF 1(2)] c(3) unfolding bn_def by simp
    have "[unat off..<unat off + (unat n - unat tot)] = [unat off..<unat off + m] @ [unat off + m..<unat off + (unat n - unat tot)]"
      using upt_add_eq_append [of "unat off" "unat off + m" "unat n - unat tot - m"] unfolding sum by simp
    then have "readi_loop (Suc f) ip off n tot s = Ok (map (fbyte V x) [unat off..<unat off + (unat n - unat tot)], s')"
      unfolding u using True 1(1) 2(1-3) 3(1) Suc.prems(4) by' by (simp add: word_BSIZE(2,3) bn_def [symmetric] m_def [symmetric] e1 Let_def)
    moreover have "logs 0 s s'" using logs_trans [OF l3 3(3)] by simp
    ultimately show ?thesis using 3(2) by blast
  qed
qed

text \<open>
  \<^verbatim>\<open>writei\<close>'s loop over at most \<open>p\<close> blocks: the bytes are in place, every block of the range exists, and where all of them
  existed before the inode is unchanged.
\<close>

lemma writei_loop_ok:
  fixes s :: "'a fsst_scheme"
  assumes "bst s V L {}" "geo_ok s" "bm_ok s V" "x = i_d (ic_inode s ip)" "i_dev (ic_inode s ip) = 1" "file_ok s V x" "tot \<le> n"
    "unat off + (unat n - unat tot) \<le> MAXFILE * BSIZE" "length src = unat n - unat tot" "unat n = unat tot \<or> unat off mod BSIZE + (unat n - unat tot) \<le> p * BSIZE"
    "room (6 * p) s" "2 * p \<le> nfree (fs_sb s) V" "unat n - unat tot \<le> fuel"
  shows "\<exists>V' x' L' s'. writei_loop fuel ip src off n tot s = Ok (off + (n - tot), s') \<and> bst s' V' L' {} \<and>
    fupd s V x (unat off) src V' x' \<and> ilogs (6 * p) ip x' s s' \<and>
    (\<forall>k. tot < n \<longrightarrow> unat off div BSIZE \<le> k \<longrightarrow> k * BSIZE < unat off + (unat n - unat tot) \<longrightarrow> blk V' x' k \<noteq> 0) \<and>
    ((\<forall>k. unat off div BSIZE \<le> k \<longrightarrow> k * BSIZE < unat off + (unat n - unat tot) \<longrightarrow> blk V x k \<noteq> 0) \<longrightarrow> x' = x)"
  using assms
proof (induction fuel arbitrary: off tot s V L x src p)
  case 0
  then have "n = tot" by (simp add: word_le_nat_alt word_unat_eq_iff)
  then show ?case using 0(9) fupd_refl [OF 0(3,6)] 0(1,4)
    by (intro exI [of _ V] exI [of _ x] exI [of _ L] exI [of _ s]) (auto simp: writei_loop.simps [of 0] intro: ilogs_logs)
next
  case (Suc f)
  note u = writei_loop.simps [of "Suc f" ip src off n tot s]
  show ?case
  proof (cases "tot < n")
    case False
    then have "n = tot" using Suc.prems(7) by simp
    then show ?thesis using Suc.prems(9) fupd_refl [OF Suc.prems(3,6)] Suc.prems(1,4)
      by (intro exI [of _ V] exI [of _ x] exI [of _ L] exI [of _ s]) (auto simp: writei_loop.simps [of "Suc f"] intro: ilogs_logs)
  next
    case True
    define m where "m = chunk n tot off"
    note c = chunk_props [OF True m_def]
    define bn where "bn = unat off div BSIZE"
    define N where "N = unat n - unat tot"
    have N: "0 < N" "m \<le> N" using True c(2) by (simp_all add: N_def word_less_nat_alt)
    have pN: "unat off mod BSIZE + N \<le> p * BSIZE" using Suc.prems(10) N(1) by (auto simp: N_def)
    obtain q where q: "p = Suc q" using pN N(1) by (cases p) auto
    have bnl: "bn * BSIZE < unat off + N" using div_times_less_eq_dividend [of "unat off" BSIZE] N(1) unfolding bn_def by linarith
    have bn: "bn < MAXFILE" using bnl Suc.prems(8) unfolding N_def [symmetric] by (meson BSIZE_pos less_le_trans mult_less_cancel2)
    have r5: "room 5 s" and f2: "2 \<le> nfree (fs_sb s) V" using room_mono [OF Suc.prems(11)] Suc.prems(12) q by auto
    obtain b V1 x1 L1 s1 where 1: "bmap ip bn s = Ok (b, s1)" "bst s1 V1 L1 {}" "fupd s V x (unat off) [] V1 x1" "ilogs 5 ip x1 s s1"
        "blk V1 x1 bn = b" "b \<noteq> 0" "nfree (fs_sb s) V \<le> nfree (fs_sb s) V1 + 2" and same: "blk V x bn \<noteq> 0 \<Longrightarrow> x1 = x \<and> V1 = V"
    proof (cases "blk V x bn = 0")
      case True
      then show ?thesis using bmap_ok [OF Suc.prems(1-6) bn r5 f2, of "unat off"] that by blast
    next
      case False
      then obtain s1 where "bmap ip bn s = Ok (blk V x bn, s1)" "bst s1 V L {}" "logs 0 s s1"
        using bmap_present [OF Suc.prems(1,2,4-6) bn] by blast
      then show ?thesis using that [of "blk V x bn" s1 V L x] False fupd_refl [OF Suc.prems(3,6)] Suc.prems(4)
          ilogs_mono [OF ilogs_logs [of 0 s s1 ip x], of 5] by simp
    qed
    note e1 = ilogs_simps [OF 1(4)] and sm1 = ilogs_same [OF 1(4)] and F1 = fupdD [OF 1(3)]
    have nz: "blk V1 x1 bn \<noteq> 0" using 1(5,6) by simp
    note D = data_blockD [OF file_okD(2) [OF F1(2) bn nz], unfolded 1(5)]
    have lt: "b < bc_disksize s1" "b \<notin> log_area s1" using geo_okD(1) [OF Suc.prems(2) D(1)] D(5) by (simp_all add: e1)
    have r1: "room 1 s1" using e1(5) [of 1] room_mono [OF Suc.prems(11)] q by simp
    define g where "g = (\<lambda>d :: block. take (unat off mod BSIZE) d @ take m src @ drop (unat off mod BSIZE + m) d)"
    have lm: "length (take m src) = m" using Suc.prems(9) c(2) by simp
    have lg: "length (g d) = BSIZE" if "length d = BSIZE" for d using that c(3) lm by (simp add: g_def)
    obtain bp t1 t2 s2 where 2: "bread 1 b s1 = Ok (bp, t1)" "b_data (bc_buf t1 bp) = V1 b" "log_write bp (set_data bp (g (V1 b)) t1) = Ok t2"
        "brelse bp t2 = Ok s2" "bst s2 (V1(b := g (V1 b))) (insert b L1) {}" "logs 1 s1 s2"
      using rmw_ok [OF 1(2) _ lt r1, of g] lg by auto
    define V2 where "V2 = V1(b := g (V1 b))"
    have F2: "fupd s V1 x1 (unat off) (take m src) V2 x1"
      using fupd_block [OF F1(2,1), of "unat off" b "take m src"] bn 1(5,6) bst_length [OF 1(2)] c(3) lm unfolding V2_def g_def bn_def by simp
    have x1: "x1 = i_d (ic_inode s1 ip)" using e1(4) by simp
    have il2: "ilogs 6 ip x1 s s2" using ilogs_trans [OF 1(4) ilogs_logs [OF 2(6) x1 [symmetric]]] by simp
    note e2 = ilogs_simps [OF il2] and sm2 = ilogs_same [OF il2]
    have F12: "fupd s V x (unat off) (take m src) V2 x1" using fupd_trans [OF 1(3), of "take m src"] F2 by simp
    have nf: "nfree (fs_sb s) V2 = nfree (fs_sb s) V1" unfolding V2_def by (rule nfree_cong) (rule used_other [OF D(6)])
    have rem: "unat n - unat (tot + of_nat m) = N - m" by (simp add: c(5) N_def)
    have off': "unat (off + of_nat m) = unat off + m" using Suc.prems(8) c(2) by (intro off_step) linarith
    have md: "unat n = unat (tot + of_nat m) \<or> (unat off + m) mod BSIZE + (N - m) \<le> q * BSIZE"
    proof (cases "m = N")
      case True
      then show ?thesis using c(5) N(1) by (simp add: N_def)
    next
      case False
      then have m: "m = BSIZE - unat off mod BSIZE" using chunk_eq [of tot n off] Suc.prems(7) by (auto simp: m_def N_def min_def split: if_splits)
      have a: "unat off mod BSIZE + m = BSIZE" using m mod_less_divisor [OF BSIZE_pos, of "unat off"] by linarith
      then have "(unat off + m) mod BSIZE = 0" by (metis mod_add_left_eq mod_self)
      moreover have "N - m \<le> q * BSIZE" using pN a q by simp
      ultimately show ?thesis by simp
    qed
    have sum: "unat off + m + (N - m) = unat off + N" using N(2) by simp
    have dm: "drop m src = drop m src" "length (drop m src) = N - m" using Suc.prems(9) by (simp_all add: N_def)
    have "\<exists>V' x' L' s'. writei_loop f ip (drop m src) (off + of_nat m) n (tot + of_nat m) s2 = Ok (off + of_nat m + (n - (tot + of_nat m)), s') \<and>
      bst s' V' L' {} \<and> fupd s2 V2 x1 (unat (off + of_nat m)) (drop m src) V' x' \<and> ilogs (6 * q) ip x' s2 s' \<and>
      (\<forall>k. tot + of_nat m < n \<longrightarrow> unat (off + of_nat m) div BSIZE \<le> k \<longrightarrow> k * BSIZE < unat (off + of_nat m) + (unat n - unat (tot + of_nat m)) \<longrightarrow> blk V' x' k \<noteq> 0) \<and>
      ((\<forall>k. unat (off + of_nat m) div BSIZE \<le> k \<longrightarrow> k * BSIZE < unat (off + of_nat m) + (unat n - unat (tot + of_nat m)) \<longrightarrow> blk V2 x1 k \<noteq> 0) \<longrightarrow> x' = x1)"
    proof (rule Suc.IH)
      show "bst s2 V2 (insert b L1) {}" using 2(5) by (simp add: V2_def)
      show "bm_ok s2 V2" "file_ok s2 V2 x1" using fupdD(1,2) [OF F2] by (simp_all add: sm2)
      show "room (6 * q) s2" using e2(5) [of "6 * q"] Suc.prems(11) by (simp add: q)
      show "2 * q \<le> nfree (fs_sb s2) V2" using Suc.prems(12) 1(7) by (simp add: q nf e2)
      show "unat n - unat (tot + of_nat m) \<le> f" using Suc.prems(13) c(1) unfolding rem by (simp add: N_def)
    qed (use Suc.prems(2,5,8) c(4) md dm sum rem off' in \<open>auto simp: sm2 e2 N_def\<close>)
    then obtain V' x' L' s' where 3: "writei_loop f ip (drop m src) (off + of_nat m) n (tot + of_nat m) s2 = Ok (off + of_nat m + (n - (tot + of_nat m)), s')"
      "bst s' V' L' {}" "fupd s V2 x1 (unat off + m) (drop m src) V' x'" "ilogs (6 * q) ip x' s2 s'"
      and h: "\<And>k. tot + of_nat m < n \<Longrightarrow> (unat off + m) div BSIZE \<le> k \<Longrightarrow> k * BSIZE < unat off + N \<Longrightarrow> blk V' x' k \<noteq> 0"
      and eq: "(\<And>k. (unat off + m) div BSIZE \<le> k \<Longrightarrow> k * BSIZE < unat off + N \<Longrightarrow> blk V2 x1 k \<noteq> 0) \<Longrightarrow> x' = x1"
      unfolding off' rem sum sm2 by blast
    have "off + of_nat m + (n - (tot + of_nat m)) = off + (n - tot)" by simp
    then have run: "writei_loop (Suc f) ip src off n tot s = Ok (off + (n - tot), s')"
      unfolding u using True 1(1) 2(1-4) 3(1) Suc.prems(5) e1(4)
      by (simp add: word_BSIZE(2,3) bn_def [symmetric] m_def [symmetric] Let_def g_def)
    have fu: "fupd s V x (unat off) src V' x'" using fupd_trans [OF F12, of "drop m src" V' x'] 3(3) lm by simp
    have il: "ilogs (6 * p) ip x' s s'" using ilogs_trans [OF il2 3(4)] by (simp add: q)
    have top: "unat off + m \<le> Suc bn * BSIZE" using c(3) div_mult_mod_eq [of "unat off" BSIZE] unfolding bn_def mult_Suc by linarith
    have next': "k = bn \<or> (tot + of_nat m < n \<and> (unat off + m) div BSIZE \<le> k)" if k: "bn \<le> k" "k * BSIZE < unat off + N" for k
    proof (cases "k = bn")
      case False
      have "(unat off + m) div BSIZE \<le> Suc bn" using top by (metis BSIZE_pos div_le_mono nonzero_mult_div_cancel_right not_less0)
      moreover have "m < N"
      proof (rule ccontr)
        assume "\<not> m < N"
        then have "k * BSIZE < Suc bn * BSIZE" using top k(2) N(2) by simp
        then have "k < Suc bn" by (simp only: mult_less_cancel2)
        then show False using False k(1) by simp
      qed
      then have "tot + of_nat m < n" unfolding word_less_nat_alt c(5) N_def by simp
      ultimately show ?thesis using False k(1) by simp
    qed simp
    have h': "blk V' x' k \<noteq> 0" if "bn \<le> k" "k * BSIZE < unat off + N" for k
      using next' [OF that] h [OF _ _ that(2)] fupdD(5) [OF 3(3) bn] fupdD(5) [OF F2 bn nz] nz by auto
    have e': "x' = x" if a: "\<forall>k. bn \<le> k \<longrightarrow> k * BSIZE < unat off + N \<longrightarrow> blk V x k \<noteq> 0"
    proof -
      have "blk V x bn \<noteq> 0" using a bnl by blast
      then have xx: "x1 = x" "V1 = V" using same by blast+
      have "blk V2 x1 k \<noteq> 0" if k: "(unat off + m) div BSIZE \<le> k" "k * BSIZE < unat off + N" for k
      proof -
        have "bn \<le> (unat off + m) div BSIZE" unfolding bn_def by (simp add: div_le_mono)
        then have "blk V x k \<noteq> 0" using a k by simp
        moreover have "k < MAXFILE" using k(2) Suc.prems(8) unfolding N_def [symmetric] by (meson BSIZE_pos less_le_trans mult_less_cancel2)
        ultimately show ?thesis using fupdD(5) [OF F12] by simp
      qed
      then show ?thesis using eq xx by blast
    qed
    show ?thesis unfolding N_def [symmetric] bn_def [symmetric] using run 3(2) fu il h' e' by blast
  qed
qed

end
