(* ===== verification/FsInode.thy ===== *)
theory FsInode
  imports FsRw
begin

text \<open>
  Inodes in the cache and on the disk. \<open>open_file s V L ip\<close>: slot \<open>ip\<close> holds a file of device 1 whose blocks are
  in order, without holes, and whose inode on the disk is the one in the cache. \<^verbatim>\<open>readi\<close> and \<^verbatim>\<open>writei\<close> keep it.
  The last part is about the reference counts of the cache.
\<close>

subsection \<open>\<^verbatim>\<open>iupdate\<close>\<close>

lemma dip_off_bound: "dip_off inum + DINODESZ \<le> BSIZE"
  by (simp add: dip_off_def DINODESZ_def IPB_def BSIZE_def)

lemma IBLOCK_mem [simp]: "i < sb_ninodes sb \<Longrightarrow> IBLOCK i sb \<in> inode_blocks sb"
  by (simp add: inode_blocks_def)

lemma iupdate_ok:
  assumes st: "bst s V L {}" and g: "geo_ok s" and r: "room 1 s"
    and i: "i_dev (ic_inode s ip) = 1" "i_inum (ic_inode s ip) = inum" "inum < sb_ninodes (fs_sb s)" "i_d (ic_inode s ip) = x"
  shows "\<exists>s'. iupdate ip s = Ok s' \<and> logs 1 s s' \<and>
    bst s' (V(IBLOCK inum (fs_sb s) := put_dinode (dip_off inum) x (V (IBLOCK inum (fs_sb s))))) (insert (IBLOCK inum (fs_sb s)) L) {}"
proof -
  note b = geo_okD(7) [OF g IBLOCK_mem [OF i(3)]]
  show ?thesis
    using rmw_ok [OF st _ _ _ r, of "IBLOCK inum (fs_sb s)" "put_dinode (dip_off inum) x"] b i by (auto simp: iupdate_def Let_def)
qed

text \<open>An inode block is no block of a file: updating it changes no file.\<close>

lemma meta_upd:
  assumes "c \<in> inode_blocks (fs_sb s)" "geo_ok s"
  shows "bm_ok s V \<Longrightarrow> bm_ok s (V(c := d))" "file_ok s V y \<Longrightarrow> file_ok s (V(c := d)) y"
    "file_ok s V y \<Longrightarrow> blk (V(c := d)) y k = blk V y k"
    "file_ok s V y \<Longrightarrow> i < MAXFILE * BSIZE \<Longrightarrow> fbyte (V(c := d)) y i = fbyte V y i"
proof -
  have c: "c \<notin> bitmap_blocks (fs_sb s)" "c \<noteq> 1" using geo_okD(5,7) [OF assms(2)] assms(1) by auto
  show "bm_ok s V \<Longrightarrow> bm_ok s (V(c := d))" using bm_ok_upd [OF _ c] .
  have nd: "\<not> data_block s V c" for V using assms(1) by (simp add: data_block_def)
  show b: "blk (V(c := d)) y k = blk V y k" if "file_ok s V y" for k
  proof (cases "d_addrs y ! NDIRECT = 0")
    case False
    then have "d_addrs y ! NDIRECT \<noteq> c" using file_okD(3) [OF that False] nd by metis
    then show ?thesis by (simp add: blk_def)
  qed (simp add: blk_def)
  show "file_ok s (V(c := d)) y" if "file_ok s V y"
  proof -
    have f: "fblocks (V(c := d)) y = fblocks V y" by (simp add: fblocks_def b [OF that])
    have "data_block s (V(c := d)) e = data_block s V e" for e
      using used_other [OF c(1), of e] by (auto simp: data_block_def)
    then show ?thesis using that unfolding file_ok_def f b [OF that] by simp
  qed
  show "fbyte (V(c := d)) y i = fbyte V y i" if "file_ok s V y" "i < MAXFILE * BSIZE"
  proof (cases "blk V y (i div BSIZE) = 0")
    case False
    then have "blk V y (i div BSIZE) \<noteq> c" using file_okD(2) [OF that(1) div_BSIZE [OF that(2)] False] nd by metis
    then show ?thesis by (simp add: fbyte_def b [OF that(1)])
  qed (simp add: fbyte_def b [OF that(1)])
qed

lemma size_upd [simp]:
  "blk V (x\<lparr>d_size := z\<rparr>) = blk V x" "fblocks V (x\<lparr>d_size := z\<rparr>) = fblocks V x" "fbyte V (x\<lparr>d_size := z\<rparr>) = fbyte V x"
  "file_ok s V (x\<lparr>d_size := z\<rparr>) = file_ok s V x"
  by (simp_all add: fun_eq_iff blk_def fblocks_def fbyte_def file_ok_def)

subsection \<open>Open files\<close>

definition no_hole :: "(nat \<Rightarrow> block) \<Rightarrow> dinode \<Rightarrow> bool" where
  "no_hole V x \<longleftrightarrow> unat (d_size x) \<le> MAXFILE * BSIZE \<and> (\<forall>k. k * BSIZE < unat (d_size x) \<longrightarrow> blk V x k \<noteq> 0)"

definition dinode_at :: "superblock \<Rightarrow> (nat \<Rightarrow> block) \<Rightarrow> nat \<Rightarrow> dinode" where
  "dinode_at sb V inum = get_dinode (dip_off inum) (V (IBLOCK inum sb))"

definition open_file :: "'a fsst_scheme \<Rightarrow> (nat \<Rightarrow> block) \<Rightarrow> nat set \<Rightarrow> nat \<Rightarrow> bool" where
  "open_file s V L ip \<longleftrightarrow> bst s V L {} \<and> geo_ok s \<and> bm_ok s V \<and> i_dev (ic_inode s ip) = 1 \<and>
     i_inum (ic_inode s ip) < sb_ninodes (fs_sb s) \<and> file_ok s V (i_d (ic_inode s ip)) \<and> no_hole V (i_d (ic_inode s ip)) \<and>
     dinode_at (fs_sb s) V (i_inum (ic_inode s ip)) = i_d (ic_inode s ip)"

lemma open_fileD:
  assumes "open_file s V L ip"
  shows "bst s V L {}" "geo_ok s" "bm_ok s V" "i_dev (ic_inode s ip) = 1" "i_inum (ic_inode s ip) < sb_ninodes (fs_sb s)"
    "file_ok s V (i_d (ic_inode s ip))" "no_hole V (i_d (ic_inode s ip))"
    "dinode_at (fs_sb s) V (i_inum (ic_inode s ip)) = i_d (ic_inode s ip)"
  using assms by (simp_all add: open_file_def)

lemma file_addrs_32:
  assumes "file_ok s V x" "geo_ok s" "bst s V L B"
  shows "\<forall>b \<in> set (d_addrs x). b < 2 ^ 32"
proof
  fix b assume "b \<in> set (d_addrs x)"
  then obtain k where k: "k < NDIRECT + 1" "b = d_addrs x ! k" using file_okD(1) [OF assms(1)] by (auto simp: in_set_conv_nth)
  show "b < 2 ^ 32"
  proof (cases "b = 0")
    case False
    have "data_block s V b"
    proof (cases "k = NDIRECT")
      case True
      then show ?thesis using file_okD(3) [OF assms(1)] k(2) False by simp
    next
      case neq: False
      then have "k < NDIRECT" using k(1) by simp
      moreover from this have "blk V x k = b" "k < MAXFILE" using k(2) by (simp_all add: blk_def MAXFILE_def)
      ultimately show ?thesis using file_okD(2) [OF assms(1), of k] False by simp
    qed
    then show ?thesis using geo_okD(1) [OF assms(2) data_blockD(1)] bst_disksize [OF assms(3)] by fastforce
  qed simp
qed

lemma dinode_at_upd:
  assumes "file_ok s V x" "geo_ok s" "bst s V L B" "length (V (IBLOCK inum sb)) = BSIZE"
  shows "dinode_at sb (V(IBLOCK inum sb := put_dinode (dip_off inum) (x\<lparr>d_size := z\<rparr>) (V (IBLOCK inum sb)))) inum = x\<lparr>d_size := z\<rparr>"
  using get_put_dinode [of "dip_off inum" "V (IBLOCK inum sb)" "x\<lparr>d_size := z\<rparr>"] assms dip_off_bound file_okD(1) [OF assms(1)] file_addrs_32 [OF assms(1-3)]
  by (simp add: dinode_at_def)

subsection \<open>Reading\<close>

lemma sint_small:
  assumes "unat (w :: 32 word) < 2147483648"
  shows "sint w = int (unat w)"
proof -
  have u: "uint w = int (unat w)" by simp
  have b: "- (2 ^ 31) \<le> uint w" "uint w < 2 ^ 31" using assms u uint_ge_0 [of w] by (simp, linarith)+
  have "signed_take_bit 31 (uint w) = uint w" by (rule signed_take_bit_int_eq_self [OF b])
  then show ?thesis unfolding sint_uint u [symmetric] by simp
qed

lemma readi_ok:
  assumes f: "open_file s V L ip" and t: "d_type (i_d (ic_inode s ip)) \<noteq> T_DEV"
    and off: "off \<le> d_size (i_d (ic_inode s ip))" "off \<le> off + n"
  defines "x \<equiv> i_d (ic_inode s ip)"
  defines "m \<equiv> min (unat n) (unat (d_size x) - unat off)"
  shows "\<exists>s'. readi dv ip off n s = Ok (int m, map (fbyte V x) [unat off..<unat off + m], s') \<and> bst s' V L {} \<and> logs 0 s s'"
proof -
  note D = open_fileD [OF f, folded x_def]
  define n' where "n' = (if d_size x < off + n then d_size x - off else n)"
  have sum: "unat (off + n) = unat off + unat n" using off(2) by (metis unat_plus_simple)
  have n': "unat n' = m"
    using off(1) unfolding n'_def m_def x_def [symmetric] by (auto simp: word_less_nat_alt word_le_nat_alt sum unat_sub min_def)
  have le: "unat off \<le> unat (d_size x)" using off(1) by (simp add: x_def word_le_nat_alt)
  have bd: "unat off + m \<le> unat (d_size x)" using le by (simp add: m_def)
  have mx: "unat (d_size x) \<le> MAXFILE * BSIZE" and nh: "\<forall>k. k * BSIZE < unat off + m \<longrightarrow> blk V x k \<noteq> 0" using D(7) bd by (auto simp: no_hole_def)
  obtain s' where 1: "readi_loop (unat n') ip off n' 0 s = Ok (map (fbyte V x) [unat off..<unat off + m], s')" "bst s' V L {}" "logs 0 s s'"
    using readi_loop_ok [OF D(1,2) x_def [THEN meta_eq_to_obj_eq] D(4,6), of 0 n' off "unat n'"] n' bd mx nh by auto
  have "sint n' = int m"
  proof -
    have "m < 2147483648" using bd mx by (simp add: MAXFILE_def NDIRECT_def NINDIRECT_def BSIZE_def)
    then show ?thesis using sint_small [of n'] n' by simp
  qed
  then show ?thesis using 1 t off unfolding readi_def n'_def x_def [symmetric]
    by (intro exI [of _ s']) (auto simp: Let_def x_def [symmetric] not_less)
qed

subsection \<open>Writing\<close>

text \<open>What a write leaves of the other files.\<close>

definition others_kept :: "'a fsst_scheme \<Rightarrow> (nat \<Rightarrow> block) \<Rightarrow> dinode \<Rightarrow> (nat \<Rightarrow> block) \<Rightarrow> dinode \<Rightarrow> bool" where
  "others_kept s V x V' x' \<longleftrightarrow> (\<forall>y. file_ok s V y \<longrightarrow> fblocks V x \<inter> fblocks V y = {} \<longrightarrow>
     file_ok s V' y \<and> fblocks V' x' \<inter> fblocks V' y = {} \<and> (\<forall>m < MAXFILE. blk V' y m = blk V y m) \<and> fblocks V' y = fblocks V y \<and>
     (\<forall>i < MAXFILE * BSIZE. fbyte V' y i = fbyte V y i))"

lemma fupd_others: "fupd s V x off bs V' x' \<Longrightarrow> others_kept s V x V' x'"
  unfolding others_kept_def by (intro allI impI conjI) (auto dest: fupd_other)

lemma others_kept_meta:
  assumes k: "others_kept s V x V' x'" and c: "c \<in> inode_blocks (fs_sb s)" and g: "geo_ok s" and ok: "file_ok s V' x'"
  shows "others_kept s V x (V'(c := d)) (x'\<lparr>d_size := z\<rparr>)"
  unfolding others_kept_def
proof (intro allI impI)
  fix y assume y: "file_ok s V y" "fblocks V x \<inter> fblocks V y = {}"
  then have 1: "file_ok s V' y" "fblocks V' x' \<inter> fblocks V' y = {}" "\<forall>m < MAXFILE. blk V' y m = blk V y m" "fblocks V' y = fblocks V y"
    "\<forall>i < MAXFILE * BSIZE. fbyte V' y i = fbyte V y i"
    using k unfolding others_kept_def by blast+
  have "fblocks (V'(c := d)) w = fblocks V' w" if "file_ok s V' w" for w
    by (simp add: fblocks_def meta_upd(3) [OF c g that])
  then show "file_ok s (V'(c := d)) y \<and> fblocks (V'(c := d)) (x'\<lparr>d_size := z\<rparr>) \<inter> fblocks (V'(c := d)) y = {} \<and>
      (\<forall>m < MAXFILE. blk (V'(c := d)) y m = blk V y m) \<and> fblocks (V'(c := d)) y = fblocks V y \<and> (\<forall>i < MAXFILE * BSIZE. fbyte (V'(c := d)) y i = fbyte V y i)"
    using 1 ok meta_upd(2-4) [OF c g 1(1)] by simp
qed

lemma fupd_inode_block:
  assumes "fupd s V x off bs V' x'" "geo_ok s" "bm_ok s V" "file_ok s V x" "c \<in> inode_blocks (fs_sb s)"
  shows "V' c = V c"
proof (rule fupdD(7) [OF assms(1)])
  show "c \<notin> bitmap_blocks (fs_sb s)" using geo_okD(7) [OF assms(2,5)] by blast
  show "c < sb_size (fs_sb s) \<Longrightarrow> used V (fs_sb s) c" using bm_okD(5) [OF assms(3)] assms(5) by blast
  show "c \<notin> fblocks V x" using assms(4,5) by (auto simp: file_ok_def data_block_def)
qed

lemma writei_ok:
  fixes s :: "'a fsst_scheme"
  assumes f: "open_file s V L ip" and t: "d_type (i_d (ic_inode s ip)) \<noteq> T_DEV" and off: "off \<le> d_size (i_d (ic_inode s ip))"
    and bd: "unat off + unat n \<le> MAXFILE * BSIZE" and src: "length src = unat n" "unat off mod BSIZE + unat n \<le> p * BSIZE"
    and r: "room (6 * p + 1) s" "2 * p \<le> nfree (fs_sb s) V"
  defines "x \<equiv> i_d (ic_inode s ip)"
  shows "\<exists>V' x' L' s'. writei dv ip src off n s = Ok (int (unat n), s') \<and> open_file s' V' L' ip \<and>
    ic_inode s' = (ic_inode s)(ip := (ic_inode s ip)\<lparr>i_d := x'\<rparr>) \<and> fs_sb s' = fs_sb s \<and> log_area s' = log_area s \<and>
    x' = x\<lparr>d_addrs := d_addrs x', d_size := d_size x'\<rparr> \<and> unat (d_size x') = max (unat (d_size x)) (unat off + unat n) \<and>
    (\<forall>i < MAXFILE * BSIZE. fbyte V' x' i = patch (unat off) src (fbyte V x) i) \<and> others_kept s V x V' x'"
proof -
  note D = open_fileD [OF f, folded x_def]
  define inum where "inum = i_inum (ic_inode s ip)"
  have io: "IBLOCK inum (fs_sb s) \<in> inode_blocks (fs_sb s)" using D(5) by (simp add: inum_def)
  have le: "unat off \<le> unat (d_size x)" using off by (simp add: x_def word_le_nat_alt)
  have offn: "unat (off + n) = unat off + unat n" using off_step [of off "unat n"] bd by simp
  obtain V1 x1 L1 s1 where 1: "writei_loop (unat n) ip src off n 0 s = Ok (off + n, s1)" "bst s1 V1 L1 {}" "fupd s V x (unat off) src V1 x1" "ilogs (6 * p) ip x1 s s1"
      and h0: "\<forall>k. 0 < n \<longrightarrow> unat off div BSIZE \<le> k \<longrightarrow> k * BSIZE < unat off + unat n \<longrightarrow> blk V1 x1 k \<noteq> 0"
      and eq0: "(\<forall>k. unat off div BSIZE \<le> k \<longrightarrow> k * BSIZE < unat off + unat n \<longrightarrow> blk V x k \<noteq> 0) \<longrightarrow> x1 = x"
    using writei_loop_ok [OF D(1-3) x_def [THEN meta_eq_to_obj_eq] D(4,6), of 0 n off src p "unat n"] bd src r(2) room_mono [OF r(1)]
    by (simp del: neq0_conv) blast
  note h = h0 [rule_format] and eq = eq0 [rule_format]
  note F = fupdD [OF 1(3)] and e1 = ilogs_simps [OF 1(4)] and sm1 = ilogs_same [OF 1(4)] and fl = fupd_fields [OF 1(3)]
  have mx: "unat (d_size x) \<le> MAXFILE * BSIZE" and nh: "\<And>k. k * BSIZE < unat (d_size x) \<Longrightarrow> blk V x k \<noteq> 0" using D(7) by (auto simp: no_hole_def)
  have kM: "k < MAXFILE" if "k * BSIZE < unat (d_size x) \<or> k * BSIZE < unat off + unat n" for k
    using that mx bd by (meson BSIZE_pos less_le_trans mult_less_cancel2)
  have old: "blk V1 x1 k \<noteq> 0" if "k * BSIZE < unat (d_size x)" for k using F(5) [OF kM nh] nh that by simp
  have new: "blk V1 x1 k \<noteq> 0" if "0 < n" "k * BSIZE < unat off + unat n" for k
  proof (cases "unat off div BSIZE \<le> k")
    case False
    then have "k * BSIZE < unat (d_size x)" using le by (metis (no_types, lifting) BSIZE_pos div_less_iff_less_mult less_le_trans linorder_not_le mult.commute mult_le_mono1 div_times_less_eq_dividend mult_less_cancel2)
    then show ?thesis by (rule old)
  qed (rule h [OF that(1) _ that(2)])
  have V1i: "V1 (IBLOCK inum (fs_sb s)) = V (IBLOCK inum (fs_sb s))" by (rule fupd_inode_block [OF 1(3) D(2,3,6) io])
  have big: "\<not> of_nat (MAXFILE * BSIZE) < off + n" "\<not> off + n < off" "\<not> d_size x < off"
    using bd offn off unfolding word_less_nat_alt x_def [symmetric] by (simp_all add: MAXFILE_def NDIRECT_def NINDIRECT_def BSIZE_def word_le_nat_alt)
  have "unat n < 2147483648" using bd by (simp add: MAXFILE_def NDIRECT_def NINDIRECT_def BSIZE_def)
  note sn = sint_small [OF this]
  have i1: "i_d (ic_inode s1 ip) = x1" using e1(4) by simp
  have w: "writei dv ip src off n s = rbind (if 0 < n \<and> d_size x1 < off + n
      then iupdate ip (upd_dinode ip (\<lambda>d. d\<lparr>d_size := off + n\<rparr>) s1) else Ok s1) (\<lambda>s2. Ok (int (unat n), s2))"
    unfolding writei_def Let_def x_def [symmetric] using t big 1(1) sn i1 by (simp add: x_def [symmetric])
  show ?thesis
  proof (cases "0 < n \<and> d_size x1 < off + n")
    case True
    let ?s = "upd_dinode ip (\<lambda>d. d\<lparr>d_size := off + n\<rparr>) s1" and ?x = "x1\<lparr>d_size := off + n\<rparr>"
    have g1: "geo_ok ?s" using D(2) sm1(1) by (simp add: geo_ok_def e1)
    have "room 1 ?s" using e1(5) r(1) by simp
    then obtain s' where 2: "iupdate ip ?s = Ok s'" "logs 1 ?s s'"
        "bst s' (V1(IBLOCK inum (fs_sb s) := put_dinode (dip_off inum) ?x (V1 (IBLOCK inum (fs_sb s))))) (insert (IBLOCK inum (fs_sb s)) L1) {}"
      using iupdate_ok [of ?s V1 L1 ip inum ?x] g1 1(2) D(4,5) e1 by (auto simp: inum_def)
    define V' where "V' = V1(IBLOCK inum (fs_sb s) := put_dinode (dip_off inum) ?x (V1 (IBLOCK inum (fs_sb s))))"
    note e2 = logs_fs [OF 2(2)] logs_simps [OF 2(2)]
    have ic: "ic_inode s' = (ic_inode s)(ip := (ic_inode s ip)\<lparr>i_d := ?x\<rparr>)" using e2(2) e1(4) by simp
    have il: "ilogs (6 * p + 1) ip ?x s s'"
      using ilogs_trans [OF 1(4)] 2(2) upd_dinode_twice unfolding ilogs_def i1 upd_dinode_def upd_inode_def by (simp add: i1)
    note sm = ilogs_same [OF il] and es = ilogs_simps [OF il]
    have ok': "file_ok s V' ?x" unfolding V'_def using meta_upd(2) [OF io D(2) F(2)] by simp
    have dv: "dinode_at (fs_sb s) V' inum = ?x"
      unfolding V'_def using dinode_at_upd [OF _ _ 1(2), of x1 inum "fs_sb s" "off + n"] F(2) D(2) sm1 bst_length [OF 1(2)] by simp
    have sz: "unat (d_size x) < unat off + unat n" using True fl(2) by (simp add: word_less_nat_alt offn)
    have "no_hole V' ?x" unfolding no_hole_def V'_def using bd new True by (simp add: offn meta_upd(3) [OF io D(2) F(2)])
    then have "open_file s' V' (insert (IBLOCK inum (fs_sb s)) L1) ip"
      using 2(3) D(2,4,5) ok' dv meta_upd(1) [OF io D(2) F(1)] unfolding open_file_def sm es(1) ic V'_def [symmetric] by (simp add: inum_def V'_def)
    moreover have "writei dv ip src off n s = Ok (int (unat n), s')" unfolding w using True 2(1) by simp
    moreover have "\<forall>i < MAXFILE * BSIZE. fbyte V' ?x i = patch (unat off) src (fbyte V x) i"
      unfolding V'_def using meta_upd(4) [OF io D(2) F(2)] F(4) by simp
    moreover have "others_kept s V x V' ?x" unfolding V'_def by (rule others_kept_meta [OF fupd_others [OF 1(3)] io D(2) F(2)])
    moreover have "?x = x\<lparr>d_addrs := d_addrs ?x, d_size := d_size ?x\<rparr>" by (subst F(3)) simp
    moreover have "unat (d_size ?x) = max (unat (d_size x)) (unat off + unat n)" using sz offn by simp
    ultimately show ?thesis using ic es(1,2) by blast
  next
    case False
    have sz: "max (unat (d_size x)) (unat off + unat n) = unat (d_size x)"
      using False le fl(2) by (auto simp: word_less_nat_alt offn word_gt_0 not_less)
    have xx: "x1 = x"
    proof (rule eq)
      fix k assume k: "k * BSIZE < unat off + unat n"
      then show "blk V x k \<noteq> 0" using sz by (intro nh) simp
    qed
    have "open_file s1 V1 L1 ip"
      using 1(2) D(2,4,5,8) F(1,2) old mx V1i unfolding open_file_def sm1 e1(1) e1(4) dinode_at_def no_hole_def by (simp add: xx inum_def)
    moreover have "writei dv ip src off n s = Ok (int (unat n), s1)" unfolding w if_not_P [OF False] by simp
    moreover have "x = x\<lparr>d_addrs := d_addrs x, d_size := d_size x\<rparr>" by simp
    ultimately show ?thesis using e1 F(4) fupd_others [OF 1(3)] sz xx
      by (intro exI [of _ V1] exI [of _ x] exI [of _ L1] exI [of _ s1]) simp
  qed
qed

end
