(* ===== verification/FsProps.thy ===== *)
theory FsProps
  imports FsInode FsExample
begin

text \<open>
  The properties of the file system, with a concrete disk for each: the layout of \<^verbatim>\<open>mkfs.c\<close>, blocks 0 to 79 in use, and
  an empty file with inode number 2 in the first slot of the inode cache.
\<close>

subsection \<open>A concrete file system\<close>

definition ex_super :: superblock where
  "ex_super = \<lparr>sb_size = 2000, sb_nblocks = 1941, sb_ninodes = 200, sb_nlog = 30, sb_logstart = 2, sb_inodestart = 32, sb_bmapstart = 58\<rparr>"

definition ex_bitmap :: block where "ex_bitmap = replicate 10 0xFF @ replicate 502 0"

definition ex_dinode :: dinode where
  "ex_dinode = \<lparr>d_type = T_FILE, d_major = 0, d_minor = 0, d_nlink = 1, d_uid = 0, d_gid = 0, d_mode = 0, d_size = 0, d_addrs = replicate 11 0\<rparr>"

definition ex_fdisk :: "nat \<Rightarrow> block" where
  "ex_fdisk = (\<lambda>_. zero_block)(1 := ex_sb, 32 := put_dinode (dip_off 2) ex_dinode zero_block, 58 := ex_bitmap)"

definition ex_fs :: fsst where
  "ex_fs = \<lparr>bc_buf = (\<lambda>_. free_buf), bc_next = bc_next ex_log, bc_prev = bc_prev ex_log,
     bc_disk = (\<lambda>_. ex_fdisk), bc_disksize = 2000, bc_writes = [], bc_wakeups = [],
     lg_start = 2, lg_size = 30, lg_outstanding = 1, lg_committing = False, lg_dev = 1, lh_n = 0, lh_block = replicate 30 0,
     fs_sb = ex_super, ic_inode = (\<lambda>_. \<lparr>i_dev = 1, i_inum = 2, i_ref = 1, i_busy = True, i_valid = True, i_d = ex_dinode\<rparr>)\<rparr>"

definition no_dev :: "'st devsw" where
  "no_dev = \<lparr>dev_read = (\<lambda>_. None), dev_write = (\<lambda>_. None)\<rparr>"

lemma ex_bst: "bst ex_fs ex_fdisk {} {}"
proof -
  have "ring_of ex_fs [0..<NBUF]" using ex_log_ring by (simp add: ring_of_def ex_fs_def)
  moreover have "dirty_blocks (bc_buf ex_fs) = {}" "busy_blocks (bc_buf ex_fs) = {}"
    by (auto simp: dirty_blocks_def busy_blocks_def ex_fs_def free_buf_def)
  moreover have "bufs_ok (bc_buf ex_fs) 2000 ex_fdisk" by (auto simp: bufs_ok_def ex_fs_def free_buf_def)
  ultimately have "cache_rel ex_fs ex_fdisk {} {}" by (auto simp: cache_rel_def ex_fs_def)
  moreover have "log_inv ex_fs {}" by (simp add: log_inv_def LOGSIZE_def MAXOPBLOCKS_def log_area_def ex_fs_def)
  moreover have "length (ex_fdisk b) = BSIZE" for b by (simp add: ex_fdisk_def ex_sb_def ex_bitmap_def) (simp add: BSIZE_def)
  ultimately show ?thesis by (simp add: bst_def)
qed

lemma ex_blocks: "bitmap_blocks ex_super = {58}" "inode_blocks ex_super = {32..<57}"
proof -
  have "BBLOCK b ex_super = 58" if "b < 2000" for b using that by (simp add: BBLOCK_def ex_super_def BPB_def BSIZE_def)
  then have "(\<lambda>b. BBLOCK b ex_super) ` {..<2000} = {58}" by (auto simp: image_iff intro!: exI [of _ 0])
  then show "bitmap_blocks ex_super = {58}" by (simp add: bitmap_blocks_def ex_super_def)
  have i: "IBLOCK i ex_super = i div 8 + 32" for i by (simp add: IBLOCK_def ex_super_def IPB_def BSIZE_def DINODESZ_def)
  have "(\<lambda>i. IBLOCK i ex_super) ` {..<200} = {32..<57}"
  proof
    show "{32..<57} \<subseteq> (\<lambda>i. IBLOCK i ex_super) ` {..<200}"
    proof
      fix x :: nat assume "x \<in> {32..<57}"
      then show "x \<in> (\<lambda>i. IBLOCK i ex_super) ` {..<200}" by (intro image_eqI [of _ _ "(x - 32) * 8"]) (auto simp: i)
    qed
  qed (auto simp: i)
  then show "inode_blocks ex_super = {32..<57}" by (simp add: inode_blocks_def ex_super_def)
qed

lemma ex_used: "b < 2000 \<Longrightarrow> used ex_fdisk ex_super b \<longleftrightarrow> b < 80"
proof -
  assume b: "b < 2000"
  have bb: "BBLOCK b ex_super = 58" "b mod BPB = b" using b by (simp_all add: BBLOCK_def ex_super_def BPB_def BSIZE_def)
  have m: "(0xFF :: byte) = mask 8" by (simp add: mask_eq_exp_minus_1)
  have "bit (0xFF :: byte) (b mod 8)" unfolding m bit_mask_iff by simp
  then show ?thesis using b unfolding used_def bb bit_clear_iff
    by (auto simp: ex_fdisk_def ex_bitmap_def nth_append div_less_iff_less_mult)
qed

lemma ex_simps: "fs_sb ex_fs = ex_super" "log_area ex_fs = {2..<32}" "bc_disksize ex_fs = 2000" "i_d (ic_inode ex_fs ip) = ex_dinode"
  "i_dev (ic_inode ex_fs ip) = 1" "i_inum (ic_inode ex_fs ip) = 2" "sb_size ex_super = 2000" "sb_ninodes ex_super = 200"
  by (simp_all add: ex_fs_def log_area_def ex_super_def)

lemma ex_geo: "geo_ok ex_fs" "bm_ok ex_fs ex_fdisk"
proof -
  show "geo_ok ex_fs" by (auto simp: geo_ok_def ex_simps ex_blocks)
  have "decode_sb (ex_fdisk 1) = ex_super" by (simp add: ex_fdisk_def ex_super_def)
  then show "bm_ok ex_fs ex_fdisk" by (auto simp: bm_ok_def ex_simps ex_blocks ex_used)
qed

lemma ex_blk: "k < MAXFILE \<Longrightarrow> blk V ex_dinode k = 0" "fblocks V ex_dinode = {}"
proof -
  show b: "k < MAXFILE \<Longrightarrow> blk V ex_dinode k = 0" for k
    by (simp add: blk_def ex_dinode_def NDIRECT_def nth_Cons' del: replicate_Suc)
  show "fblocks V ex_dinode = {}" using b by (auto simp: fblocks_def ex_dinode_def NDIRECT_def)
qed

lemma ex_open: "open_file ex_fs ex_fdisk {} 0"
proof -
  have ok: "file_ok ex_fs ex_fdisk ex_dinode"
    using ex_blk by (simp add: file_ok_def) (simp add: ex_dinode_def NDIRECT_def)
  moreover have "no_hole ex_fdisk ex_dinode" by (simp add: no_hole_def ex_dinode_def)
  moreover have "dinode_at ex_super ex_fdisk 2 = ex_dinode"
  proof -
    have "IBLOCK 2 ex_super = 32" by (simp add: IBLOCK_def ex_super_def IPB_def BSIZE_def DINODESZ_def)
    then have "dinode_at ex_super ex_fdisk 2 = get_dinode (dip_off 2) (put_dinode (dip_off 2) ex_dinode zero_block)"
      by (simp add: dinode_at_def ex_fdisk_def)
    also have "\<dots> = ex_dinode" using dip_off_bound [of 2] by (intro get_put_dinode) (simp_all add: ex_dinode_def NDIRECT_def)
    finally show ?thesis .
  qed
  ultimately show ?thesis using ex_bst ex_geo by (simp add: open_file_def ex_simps)
qed

lemma ex_room: "room 29 ex_fs" "2 \<le> nfree ex_super ex_fdisk"
proof -
  show "room 29 ex_fs" by (simp add: room_def ex_fs_def)
  have "{80, 81} \<subseteq> {b. b < sb_size ex_super \<and> \<not> used ex_fdisk ex_super b}" by (auto simp: ex_used ex_simps)
  then have "card {80, 81 :: nat} \<le> card {b. b < sb_size ex_super \<and> \<not> used ex_fdisk ex_super b}" by (intro card_mono) auto
  then show "2 \<le> nfree ex_super ex_fdisk" by (simp add: nfree_def)
qed

subsection \<open>Files\<close>

text \<open>C4. What \<^verbatim>\<open>writei\<close> puts into a file, \<^verbatim>\<open>readi\<close> returns: writing \<open>n\<close> bytes at an offset within the file
  succeeds when the transaction has room and the disk has blocks, and reading the same range afterwards gives the same bytes, whether
  the range lies in direct or indirect blocks, crosses block boundaries, or extends the file.\<close>

theorem write_read_roundtrip:
  fixes s :: "'a fsst_scheme"
  assumes "open_file s V L ip" "d_type (i_d (ic_inode s ip)) \<noteq> T_DEV" "off \<le> d_size (i_d (ic_inode s ip))"
    "unat off + unat n \<le> MAXFILE * BSIZE" "length src = unat n" "unat off mod BSIZE + unat n \<le> p * BSIZE"
    "room (6 * p + 1) s" "2 * p \<le> nfree (fs_sb s) V"
  shows "\<exists>s1. writei dv ip src off n s = Ok (int (unat n), s1) \<and> (\<exists>s2. readi dv ip off n s1 = Ok (int (unat n), src, s2))"
proof -
  let ?x = "i_d (ic_inode s ip)"
  obtain V' x' L' s' where w: "writei dv ip src off n s = Ok (int (unat n), s')" "open_file s' V' L' ip"
      "ic_inode s' = (ic_inode s)(ip := (ic_inode s ip)\<lparr>i_d := x'\<rparr>)" "x' = ?x\<lparr>d_addrs := d_addrs x', d_size := d_size x'\<rparr>"
      "unat (d_size x') = max (unat (d_size ?x)) (unat off + unat n)"
      "\<forall>i < MAXFILE * BSIZE. fbyte V' x' i = patch (unat off) src (fbyte V ?x) i"
    using writei_ok [OF assms, of dv] by (elim exE conjE) (rule that; assumption)
  have i': "i_d (ic_inode s' ip) = x'" using w(3) by simp
  have "d_type x' = d_type ?x" by (subst w(4)) simp
  then have t: "d_type (i_d (ic_inode s' ip)) \<noteq> T_DEV" using assms(2) i' by simp
  have sum: "unat (off + n) = unat off + unat n" using off_step [of off "unat n"] assms(4) by simp
  have o': "off \<le> d_size (i_d (ic_inode s' ip))" "off \<le> off + n" using w(5) by (simp_all add: i' word_le_nat_alt sum)
  have m: "min (unat n) (unat (d_size x') - unat off) = unat n" using w(5) by simp
  obtain s2 where 2: "readi dv ip off n s' = Ok (int (unat n), map (fbyte V' x') [unat off..<unat off + unat n], s2)"
    using readi_ok [OF w(2) t o', of dv] unfolding i' m by blast
  have "map (fbyte V' x') [unat off..<unat off + unat n] = src"
    using w(6) assms(4,5) by (intro nth_equalityI) (auto simp: patch_def)
  then show ?thesis using w(1) 2 by auto
qed

theorem write_read_roundtrip_witness:
  "\<exists>s1 s2. writei no_dev 0 [104, 105] 0 2 ex_fs = Ok (2, s1) \<and> readi no_dev 0 0 2 s1 = Ok (2, [104, 105], s2)"
proof -
  have "\<exists>s1. writei no_dev 0 [104, 105] 0 2 ex_fs = Ok (int (unat (2 :: 32 word)), s1) \<and>
      (\<exists>s2. readi no_dev 0 0 2 s1 = Ok (int (unat (2 :: 32 word)), [104, 105], s2))"
    using write_read_roundtrip [OF ex_open, of 0 2 "[104, 105]" 1 no_dev] ex_room room_mono [OF ex_room(1)]
    by (simp add: ex_simps) (simp add: ex_dinode_def T_FILE_def T_DEV_def MAXFILE_def NDIRECT_def NINDIRECT_def BSIZE_def)
  then show ?thesis by auto
qed

text \<open>C24. Writing a file leaves every other file alone: a well-formed file whose blocks are disjoint from those of the
  written file keeps the block at each of its positions, its set of blocks, all its bytes and its well-formedness, the two stay disjoint, and the invariant of the written file (its
  blocks are data blocks marked in the bitmap, none occurs twice, no holes up to its size, its inode on the disk is the one in the cache) holds again. As for the round trip, the write
  starts within the file, and the transaction and the disk have room for it.\<close>

theorem writei_isolated:
  fixes s :: "'a fsst_scheme"
  assumes "open_file s V L ip" "d_type (i_d (ic_inode s ip)) \<noteq> T_DEV" "off \<le> d_size (i_d (ic_inode s ip))"
    "unat off + unat n \<le> MAXFILE * BSIZE" "length src = unat n" "unat off mod BSIZE + unat n \<le> p * BSIZE"
    "room (6 * p + 1) s" "2 * p \<le> nfree (fs_sb s) V"
    "file_ok s V y" "fblocks V (i_d (ic_inode s ip)) \<inter> fblocks V y = {}"
  shows "\<exists>s' V' L'. writei dv ip src off n s = Ok (int (unat n), s') \<and> open_file s' V' L' ip \<and> file_ok s' V' y \<and>
    fblocks V' (i_d (ic_inode s' ip)) \<inter> fblocks V' y = {} \<and> (\<forall>m < MAXFILE. blk V' y m = blk V y m) \<and> fblocks V' y = fblocks V y \<and>
    (\<forall>i < MAXFILE * BSIZE. fbyte V' y i = fbyte V y i)"
proof -
  obtain V' x' L' s' where w: "writei dv ip src off n s = Ok (int (unat n), s')" "open_file s' V' L' ip"
      "ic_inode s' = (ic_inode s)(ip := (ic_inode s ip)\<lparr>i_d := x'\<rparr>)" "fs_sb s' = fs_sb s" "log_area s' = log_area s"
      "others_kept s V (i_d (ic_inode s ip)) V' x'"
    using writei_ok [OF assms(1-8), of dv] by (elim exE conjE) (rule that; assumption)
  have e: "i_d (ic_inode s' ip) = x'" "file_ok s' = file_ok s" using w(3-5) by (simp_all add: file_ok_def data_block_def fun_eq_iff)
  show ?thesis
    using w(1,2) w(6) [unfolded others_kept_def, rule_format, OF assms(9,10)] e by (elim conjE) (intro exI [of _ s'] exI [of _ V'] exI [of _ L'] conjI; simp)
qed

text \<open>Another file of the disk: its two blocks are 70 and 71.\<close>

definition ex_other :: dinode where
  "ex_other = ex_dinode\<lparr>d_size := 1024, d_addrs := 70 # 71 # replicate 9 0\<rparr>"

lemma ex_other_blk: "k < MAXFILE \<Longrightarrow> blk V ex_other k = (if k = 0 then 70 else if k = 1 then 71 else 0)" "fblocks V ex_other = {70, 71}"
proof -
  show b: "k < MAXFILE \<Longrightarrow> blk V ex_other k = (if k = 0 then 70 else if k = 1 then 71 else 0)" for k
    by (auto simp: blk_def ex_other_def NDIRECT_def nth_Cons' simp del: replicate_Suc)
  have "blk V ex_other ` {..<MAXFILE} \<union> {d_addrs ex_other ! NDIRECT} = {70, 71, 0}"
  proof -
    have "d_addrs ex_other ! NDIRECT = 0" by (simp add: ex_other_def NDIRECT_def)
    moreover have "0 < MAXFILE" "1 < MAXFILE" by (simp_all add: MAXFILE_def NDIRECT_def)
    then have "70 \<in> blk V ex_other ` {..<MAXFILE}" "71 \<in> blk V ex_other ` {..<MAXFILE}" using b [of 0] b [of 1] by force+
    moreover have "blk V ex_other ` {..<MAXFILE} \<subseteq> {70, 71, 0}" using b by auto
    ultimately show ?thesis by auto
  qed
  then show "fblocks V ex_other = {70, 71}" by (auto simp: fblocks_def)
qed

lemma ex_other_ok: "file_ok ex_fs ex_fdisk ex_other"
proof -
  have "data_block ex_fs ex_fdisk b" if "b \<in> {70, 71}" for b using that by (auto simp: data_block_def ex_simps ex_blocks ex_used)
  moreover have "length (d_addrs ex_other) = NDIRECT + 1" "d_addrs ex_other ! NDIRECT = 0" by (simp_all add: ex_other_def NDIRECT_def)
  ultimately show ?thesis using ex_other_blk by (auto simp: file_ok_def split: if_splits)
qed

theorem writei_isolated_witness:
  "\<exists>s' V' L'. writei no_dev 0 [104] 0 1 ex_fs = Ok (1, s') \<and> open_file s' V' L' 0 \<and> file_ok s' V' ex_other \<and> fblocks V' ex_other = {70, 71} \<and>
     fbyte V' ex_other 600 = fbyte ex_fdisk ex_other 600"
proof -
  have "\<exists>s' V' L'. writei no_dev 0 [104] 0 1 ex_fs = Ok (int (unat (1 :: 32 word)), s') \<and> open_file s' V' L' 0 \<and> file_ok s' V' ex_other \<and>
    fblocks V' (i_d (ic_inode s' 0)) \<inter> fblocks V' ex_other = {} \<and> (\<forall>m < MAXFILE. blk V' ex_other m = blk ex_fdisk ex_other m) \<and>
    fblocks V' ex_other = fblocks ex_fdisk ex_other \<and> (\<forall>i < MAXFILE * BSIZE. fbyte V' ex_other i = fbyte ex_fdisk ex_other i)"
    using writei_isolated [OF ex_open, of 0 1 "[104]" 1 ex_other no_dev] ex_room room_mono [OF ex_room(1)] ex_other_ok ex_blk(2)
    by (simp add: ex_simps) (simp add: ex_dinode_def T_FILE_def T_DEV_def MAXFILE_def NDIRECT_def NINDIRECT_def BSIZE_def)
  moreover have "600 < MAXFILE * BSIZE" "int (unat (1 :: 32 word)) = 1" by (simp_all add: MAXFILE_def NDIRECT_def NINDIRECT_def BSIZE_def)
  ultimately show ?thesis unfolding ex_other_blk(2) by metis
qed

subsection \<open>Blocks and inodes\<close>

text \<open>C25. \<^verbatim>\<open>balloc\<close> hands out the first free block of the bitmap, zeroed and marked as used, as long as there is one;
  no other block changes its contents or its mark.\<close>

theorem balloc_correct:
  assumes "bst s V L B" "geo_ok s" "bm_ok s V" "room 2 s" "holds s V B" "\<exists>b < sb_size (fs_sb s). \<not> used V (fs_sb s) b"
  shows "\<exists>b s' V' L'. balloc 1 s = Ok (b, s') \<and> bst s' V' L' B \<and> b < sb_size (fs_sb s) \<and> \<not> used V (fs_sb s) b \<and>
    (\<forall>c < b. used V (fs_sb s) c) \<and> V' b = zero_block \<and>
    (\<forall>c < sb_size (fs_sb s). used V' (fs_sb s) c \<longleftrightarrow> used V (fs_sb s) c \<or> c = b) \<and>
    (\<forall>c. c \<noteq> b \<longrightarrow> c \<notin> bitmap_blocks (fs_sb s) \<longrightarrow> V' c = V c)"
proof -
  obtain b L' s' where b: "balloc 1 s = Ok (b, s')" "b < sb_size (fs_sb s)" "\<not> used V (fs_sb s) b" "\<forall>c < b. used V (fs_sb s) c"
      "bst s' (alloc_view (fs_sb s) b V) L' B"
    using balloc_ok [OF assms] by blast
  note A = alloc_view_props [OF assms(2,3) bst_length [OF assms(1)] b(2,3)]
  show ?thesis using b A(2-4) by (intro exI [of _ b] exI [of _ s'] exI [of _ "alloc_view (fs_sb s) b V"] exI [of _ L']) simp
qed

theorem balloc_correct_witness: "\<exists>s'. balloc 1 ex_fs = Ok (80, s')"
proof -
  have "\<exists>b < sb_size ex_super. \<not> used ex_fdisk ex_super b" by (intro exI [of _ 80]) (simp add: ex_used ex_simps)
  then obtain b s' where b: "balloc 1 ex_fs = Ok (b, s')" "b < 2000" "\<not> used ex_fdisk ex_super b" "\<forall>c < b. used ex_fdisk ex_super c"
    using balloc_correct [OF ex_bst ex_geo] room_mono [OF ex_room(1)] by (auto simp: ex_simps)
  have "\<not> b < 80" using b(2,3) by (simp add: ex_used)
  moreover have "\<not> 80 < b" using b(4) ex_used [of 80] by auto
  ultimately have "b = 80" by simp
  then show ?thesis using b(1) by blast
qed

text \<open>C26. \<^verbatim>\<open>bfree\<close> of a block in use clears its mark and nothing else; of a free block it panics, so that no block is ever freed
  twice.\<close>

theorem bfree_correct:
  assumes "bst s V L B" "geo_ok s" "bm_ok s V" "room 1 s" "card B \<le> 1" "1 \<notin> B" "B \<inter> bitmap_blocks (fs_sb s) = {}" "b < sb_size (fs_sb s)"
  shows "if used V (fs_sb s) b
    then \<exists>s' V' L'. bfree 1 b s = Ok s' \<and> bst s' V' L' B \<and> (\<forall>c. used V' (fs_sb s) c \<longleftrightarrow> used V (fs_sb s) c \<and> c \<noteq> b) \<and>
      (\<forall>c. c \<notin> bitmap_blocks (fs_sb s) \<longrightarrow> V' c = V c)
    else bfree 1 b s = Panic ''freeing free block''"
proof (cases "used V (fs_sb s) b")
  case True
  let ?W = "free_view (fs_sb s) b V"
  obtain s' where s': "bfree 1 b s = Ok s'" "bst s' ?W (insert (BBLOCK b (fs_sb s)) L) B" using bfree_ok [OF assms] True by auto
  have "\<forall>c. used ?W (fs_sb s) c \<longleftrightarrow> used V (fs_sb s) c \<and> c \<noteq> b"
    unfolding free_view_def using used_clear [where V = V, OF bst_length [OF assms(1)]] by blast
  moreover have "\<forall>c. c \<notin> bitmap_blocks (fs_sb s) \<longrightarrow> ?W c = V c" using BBLOCK_mem [OF assms(8)] by (auto simp: free_view_def)
  ultimately show ?thesis using True s' by auto
next
  case False
  then show ?thesis using bfree_ok [OF assms] by simp
qed

theorem bfree_correct_witness:
  "(\<exists>s'. bfree 1 70 ex_fs = Ok s') \<and> bfree 1 90 ex_fs = Panic ''freeing free block''"
  using bfree_correct [OF ex_bst ex_geo room_mono [OF ex_room(1)], of 70] bfree_correct [OF ex_bst ex_geo room_mono [OF ex_room(1)], of 90]
    ex_used [of 70] ex_used [of 90]
  by (auto simp: ex_simps)

text \<open>The disk format of inodes: what \<^verbatim>\<open>iupdate\<close> encodes at inode \<open>i\<close>'s place in its block, \<^verbatim>\<open>ilock\<close> decodes again, field by
  field and address by address, and the other inodes of the block read as before.\<close>

theorem dinode_roundtrip:
  assumes "length d = BSIZE" "length (d_addrs x) = NDIRECT + 1" "\<forall>b \<in> set (d_addrs x). b < 2 ^ 32"
  shows "get_dinode (dip_off i) (put_dinode (dip_off i) x d) = x \<and>
    (\<forall>j. j mod IPB \<noteq> i mod IPB \<longrightarrow> get_dinode (dip_off j) (put_dinode (dip_off i) x d) = get_dinode (dip_off j) d)"
proof (intro conjI allI impI)
  show "get_dinode (dip_off i) (put_dinode (dip_off i) x d) = x" using assms dip_off_bound [of i] by (intro get_put_dinode) simp_all
  fix j assume "j mod IPB \<noteq> i mod IPB"
  then have "Suc (i mod IPB) \<le> j mod IPB \<or> Suc (j mod IPB) \<le> i mod IPB" by linarith
  then have "Suc (i mod IPB) * DINODESZ \<le> j mod IPB * DINODESZ \<or> Suc (j mod IPB) * DINODESZ \<le> i mod IPB * DINODESZ"
    by (metis mult_le_mono1)
  then show "get_dinode (dip_off j) (put_dinode (dip_off i) x d) = get_dinode (dip_off j) d"
    by (intro get_put_dinode_other) (simp add: dip_off_def add.commute)
qed

theorem dinode_roundtrip_witness:
  "get_dinode (dip_off 2) (put_dinode (dip_off 2) ex_dinode zero_block) = ex_dinode"
  using dinode_roundtrip [of zero_block ex_dinode 2] by (simp add: ex_dinode_def NDIRECT_def)

end
