(* ===== verification/Console.thy ===== *)
theory Console
  imports FsFile
begin

text \<open>
  The console driver \<^verbatim>\<open>console.c\<close>: number formatting and \<^verbatim>\<open>cprintf\<close>, the screen with its cursor, the line-editing input
  buffer, and the device functions for reading and writing. The state extends the file system's, because reading and
  writing the console unlock and lock its inode. \<open>cn_out\<close> is what went out on the serial line, which is taken to be present.

  The arguments of \<^verbatim>\<open>cprintf\<close> are a list of words and strings; reading past it, or a number as a string, is
  \<open>Corrupt\<close>. After a panic on another processor \<^verbatim>\<open>consputc\<close> does not return: \<open>Diverge\<close>. The interrupt handler gets the characters
  that \<^verbatim>\<open>getc\<close> delivers before it has no more. The console lock is held from one sleep to the next.
\<close>

definition INPUT_BUF :: "32 word" where "INPUT_BUF = 128"
definition BACKSPACE :: int where "BACKSPACE = 0x100"

record consst = fsst +
  cn_buf :: "byte list"
  cn_r :: "32 word"
  cn_w :: "32 word"
  cn_e :: "32 word"
  cn_panicked :: bool
  cn_out :: "byte list"
  cn_crt :: "nat \<Rightarrow> 16 word"
  cn_pos :: nat

subsection \<open>Numbers\<close>

definition digit :: "32 word \<Rightarrow> byte" where
  "digit d = (if d < 10 then 48 + ucast d else 87 + ucast d)"

text \<open>The digits, last one first. The base is 10 or 16; the test on it only makes the function total.\<close>

function printint_digits :: "32 word \<Rightarrow> 32 word \<Rightarrow> byte list" where
  "printint_digits x base = digit (x mod base) # (if x div base = 0 \<or> base < 2 then [] else printint_digits (x div base) base)"
  by pat_completeness auto

termination printint_digits
proof (relation "measure (\<lambda>(x, base). unat x)", goal_cases)
  case (2 x base)
  then have b: "x div base \<noteq> 0" "2 \<le> base" by auto
  have "2 \<le> unat base" using b(2) by (simp add: word_le_nat_alt)
  moreover have "unat x \<noteq> 0" using b(1) by (auto simp: unat_eq_0)
  ultimately show ?case by (simp add: unat_div)
qed simp

declare printint_digits.simps [simp del]

definition printint :: "32 word \<Rightarrow> 32 word \<Rightarrow> bool \<Rightarrow> byte list" where
  "printint xx base sign =
     (let neg = sign \<and> sint xx < 0; x = (if neg then - xx else xx)
      in rev (printint_digits x base @ (if neg then [45] else [])))"

subsection \<open>Formatting\<close>

datatype parg = PWord "32 word" | PStr "byte list option"

fun cprintf_out :: "byte list \<Rightarrow> parg list \<Rightarrow> byte list res" where
  "cprintf_out [] args = Ok []"
| "cprintf_out [c] args = (if c = 37 then Ok [] else Ok [c])"
| "cprintf_out (c # d # fmt) args =
     (if c \<noteq> 37 then rbind (cprintf_out (d # fmt) args) (\<lambda>out. Ok (c # out))
      else if d = 100 then
        (case args of PWord w # as \<Rightarrow> rbind (cprintf_out fmt as) (\<lambda>out. Ok (printint w 10 True @ out)) | _ \<Rightarrow> Corrupt)
      else if d = 120 \<or> d = 112 then
        (case args of PWord w # as \<Rightarrow> rbind (cprintf_out fmt as) (\<lambda>out. Ok (printint w 16 False @ out)) | _ \<Rightarrow> Corrupt)
      else if d = 115 then
        (case args of
           PStr s # as \<Rightarrow> rbind (cprintf_out fmt as)
             (\<lambda>out. Ok ((case s of None \<Rightarrow> [40, 110, 117, 108, 108, 41] | Some str \<Rightarrow> str) @ out))
         | _ \<Rightarrow> Corrupt)
      else if d = 37 then rbind (cprintf_out fmt args) (\<lambda>out. Ok (37 # out))
      else rbind (cprintf_out fmt args) (\<lambda>out. Ok (37 # d # out)))"

subsection \<open>Output\<close>

definition cgaputc :: "int \<Rightarrow> 'a consst_scheme \<Rightarrow> 'a consst_scheme res" where
  "cgaputc c s =
     (let pos = cn_pos s;
          (pos1, crt1) =
            (if c = 10 then (pos + (80 - pos mod 80), cn_crt s)
             else if c = BACKSPACE then (pos - 1, cn_crt s)
             else (pos + 1, (cn_crt s)(pos := of_int c AND 0xff OR 0x0700)))
      in if 25 * 80 < pos1 then Panic ''pos under/overflow''
         else let (pos2, crt2) =
                (if 24 \<le> pos1 div 80 then
                   (pos1 - 80, \<lambda>i. if pos1 - 80 \<le> i \<and> i < 24 * 80 then 0 else if i < 23 * 80 then crt1 (i + 80) else crt1 i)
                 else (pos1, crt1))
              in Ok (s\<lparr>cn_pos := pos2, cn_crt := crt2(pos2 := 0x0720)\<rparr>))"

definition uartputc :: "byte \<Rightarrow> 'a consst_scheme \<Rightarrow> 'a consst_scheme" where
  "uartputc b s = s\<lparr>cn_out := cn_out s @ [b]\<rparr>"

definition consputc :: "int \<Rightarrow> 'a consst_scheme \<Rightarrow> 'a consst_scheme res" where
  "consputc c s =
     (if cn_panicked s then Diverge
      else cgaputc c (if c = BACKSPACE then uartputc 8 (uartputc 32 (uartputc 8 s)) else uartputc (of_int c) s))"

definition cputs :: "byte list \<Rightarrow> 'a consst_scheme \<Rightarrow> 'a consst_scheme res" where
  "cputs bs s = rfold (\<lambda>b. consputc (int (unat b))) bs s"

definition cprintf :: "byte list \<Rightarrow> parg list \<Rightarrow> 'a consst_scheme \<Rightarrow> 'a consst_scheme res" where
  "cprintf fmt args s = rbind (cprintf_out fmt args) (\<lambda>out. cputs out s)"

definition consolewrite :: "nat \<Rightarrow> byte list \<Rightarrow> 'a consst_scheme \<Rightarrow> (int \<times> 'a consst_scheme) res" where
  "consolewrite ip buf s =
     rbind (iunlock (Some ip) s) (\<lambda>s1.
     rbind (cputs buf s1) (\<lambda>s2.
     rbind (ilock (Some ip) s2) (\<lambda>s3. Ok (int (length buf), s3))))"

subsection \<open>Input\<close>

text \<open>What the interrupt handler does after it has let go of the lock.\<close>

datatype dump = Procdump | Readydump | Freedump | Sleepdump | Zombiedump

text \<open>The kill-line loop; the edit index is at most the buffer size ahead of the write index.\<close>

fun kill_line :: "nat \<Rightarrow> 'a consst_scheme \<Rightarrow> 'a consst_scheme res" where
  "kill_line fuel s =
     (if cn_e s \<noteq> cn_w s \<and> cn_buf s ! unat ((cn_e s - 1) mod INPUT_BUF) \<noteq> 10 then
        (case fuel of 0 \<Rightarrow> Diverge
         | Suc f \<Rightarrow> rbind (consputc BACKSPACE (s\<lparr>cn_e := cn_e s - 1\<rparr>)) (kill_line f))
      else Ok s)"

declare kill_line.simps [simp del]

text \<open>One character: the pending dumps (the process listing, and the last list asked for) and the new state.\<close>

definition consoleintr_char :: "byte \<Rightarrow> bool \<times> dump option \<times> 'a consst_scheme \<Rightarrow> (bool \<times> dump option \<times> 'a consst_scheme) res" where
  "consoleintr_char c = (\<lambda>(pd, ld, s).
     if c = 16 then Ok (True, ld, s)
     else if c = 18 then Ok (pd, Some Readydump, s)
     else if c = 6 then Ok (pd, Some Freedump, s)
     else if c = 19 then Ok (pd, Some Sleepdump, s)
     else if c = 26 then Ok (pd, Some Zombiedump, s)
     else if c = 21 then rbind (kill_line (unat (cn_e s - cn_w s)) s) (\<lambda>s1. Ok (pd, ld, s1))
     else if c = 8 \<or> c = 127 then
       if cn_e s \<noteq> cn_w s then rbind (consputc BACKSPACE (s\<lparr>cn_e := cn_e s - 1\<rparr>)) (\<lambda>s1. Ok (pd, ld, s1)) else Ok (pd, ld, s)
     else if c \<noteq> 0 \<and> cn_e s - cn_r s < INPUT_BUF then
       let c' = (if c = 13 then 10 else c);
           s1 = s\<lparr>cn_buf := (cn_buf s)[unat (cn_e s mod INPUT_BUF) := c'], cn_e := cn_e s + 1\<rparr> in
       rbind (consputc (int (unat c')) s1) (\<lambda>s2.
       if c' = 10 \<or> c' = 4 \<or> cn_e s2 = cn_r s2 + INPUT_BUF
       then Ok (pd, ld, wake ChInput (s2\<lparr>cn_w := cn_e s2\<rparr>)) else Ok (pd, ld, s2))
     else Ok (pd, ld, s))"

definition consoleintr :: "byte list \<Rightarrow> 'a consst_scheme \<Rightarrow> (dump list \<times> 'a consst_scheme) res" where
  "consoleintr cs s =
     rbind (rfold consoleintr_char cs (False, None, s)) (\<lambda>(pd, ld, s1).
     Ok ((if pd then [Procdump] else []) @ (case ld of None \<Rightarrow> [] | Some d \<Rightarrow> [d]), s1))"

text \<open>
  The loop of \<^verbatim>\<open>consoleread\<close>: the bytes delivered, the count still wanted, and how the loop ended. A loop that
  finds no input goes to sleep, and takes up again with the bytes it has and the count it wants.
\<close>

datatype cend = CDone | CKilled | CSleep

fun consoleread_loop :: "bool \<Rightarrow> nat \<Rightarrow> nat \<Rightarrow> 'a consst_scheme \<Rightarrow> cend \<times> byte list \<times> nat \<times> 'a consst_scheme" where
  "consoleread_loop killed target 0 s = (CDone, [], 0, s)"
| "consoleread_loop killed target (Suc n) s =
     (if cn_r s = cn_w s then (if killed then CKilled else CSleep, [], Suc n, s)
      else let c = cn_buf s ! unat (cn_r s mod INPUT_BUF); s1 = s\<lparr>cn_r := cn_r s + 1\<rparr> in
        if c = 4 then (CDone, [], Suc n, if Suc n < target then s1\<lparr>cn_r := cn_r s1 - 1\<rparr> else s1)
        else if c = 10 then (CDone, [c], n, s1)
        else let (e, bs, m, s2) = consoleread_loop killed target n s1 in (e, c # bs, m, s2))"

definition consoleread :: "bool \<Rightarrow> nat \<Rightarrow> 32 word \<Rightarrow> 'a consst_scheme \<Rightarrow> (int \<times> byte list \<times> 'a consst_scheme) res" where
  "consoleread killed ip n s =
     rbind (iunlock (Some ip) s) (\<lambda>s1.
     let target = nat (sint n); (e, bs, m, s2) = consoleread_loop killed target target s1 in
     case e of
       CSleep \<Rightarrow> Block
     | CKilled \<Rightarrow> rbind (ilock (Some ip) s2) (\<lambda>s3. Ok (-1, bs, s3))
     | CDone \<Rightarrow> rbind (ilock (Some ip) s2) (\<lambda>s3. Ok (if sint n < 0 then 0 else int target - int m, bs, s3)))"

definition CONSOLE :: int where "CONSOLE = 1"

text \<open>The device switch, empty as the loader leaves it, and with the console as \<^verbatim>\<open>consoleinit\<close> sets it up.\<close>

definition devsw0 :: "'st devsw" where
  "devsw0 = \<lparr>dev_read = (\<lambda>_. None), dev_write = (\<lambda>_. None)\<rparr>"

definition consoleinit :: "bool \<Rightarrow> 'a consst_scheme devsw \<Rightarrow> 'a consst_scheme devsw" where
  "consoleinit killed dv =
     \<lparr>dev_read = (dev_read dv)(CONSOLE := Some (consoleread killed)), dev_write = (dev_write dv)(CONSOLE := Some consolewrite)\<rparr>"

end
