(* ===== verification/ConsoleProps.thy ===== *)
theory ConsoleProps
  imports Console FsExample
begin

text \<open>
  The console input buffer of \<^verbatim>\<open>console.c\<close>: three free-running 32-bit indices into a ring of 128 bytes, refined to two byte
  lists, the input a reader may take (\<^verbatim>\<open>r\<close> to \<^verbatim>\<open>w\<close>) and the line being edited (\<^verbatim>\<open>w\<close> to \<^verbatim>\<open>e\<close>). Wrap-around of the indices needs no
  assumption, because the size of the ring divides \<open>2 ^ 32\<close>. The interrupt handler never panics and never loops on a well-formed
  console, and the last section bounds what \<^verbatim>\<open>printint\<close> writes into its 16-byte buffer.
\<close>

subsection \<open>The ring\<close>

definition ring_at :: "byte list \<Rightarrow> 32 word \<Rightarrow> byte" where
  "ring_at buf i = buf ! unat (i mod INPUT_BUF)"

definition ring_slice :: "byte list \<Rightarrow> 32 word \<Rightarrow> nat \<Rightarrow> byte list" where
  "ring_slice buf a n = map (\<lambda>j. ring_at buf (a + of_nat j)) [0..<n]"

definition ready :: "'a consst_scheme \<Rightarrow> byte list" where
  "ready s = ring_slice (cn_buf s) (cn_r s) (unat (cn_w s - cn_r s))"

definition editing :: "'a consst_scheme \<Rightarrow> byte list" where
  "editing s = ring_slice (cn_buf s) (cn_w s) (unat (cn_e s - cn_w s))"

definition line_ends :: "byte set" where "line_ends = {10, 4}"

text \<open>The ring is well formed: nothing is overwritten, the line being edited has no end of line, and a full ring is all ready.\<close>

definition input_ok :: "'a consst_scheme \<Rightarrow> bool" where
  "input_ok s \<longleftrightarrow> length (cn_buf s) = 128 \<and> length (ready s) + length (editing s) \<le> 128 \<and> set (editing s) \<inter> line_ends = {} \<and>
     (length (ready s) = 128 \<or> length (ready s) + length (editing s) < 128)"

definition screen_ok :: "'a consst_scheme \<Rightarrow> bool" where
  "screen_ok s \<longleftrightarrow> \<not> cn_panicked s \<and> cn_pos s < 24 * 80"

lemma unat_mod_INPUT_BUF: "unat (i mod INPUT_BUF) = unat i mod 128"
  by (simp add: INPUT_BUF_def unat_mod)

lemma ring_index: "unat ((a + of_nat j) mod INPUT_BUF) = (unat a + j) mod 128"
proof -
  have "unat (a + of_nat j :: 32 word) mod 128 = ((unat a + j) mod 2 ^ 32) mod 128"
    by (simp add: unat_word_ariths unsigned_of_nat take_bit_eq_mod mod_add_right_eq)
  also have "\<dots> = (unat a + j) mod 128" by (rule mod_mod_cancel) simp
  finally show ?thesis by (simp add: unat_mod_INPUT_BUF)
qed

lemma length_ring_slice [simp]: "length (ring_slice buf a n) = n"
  by (simp add: ring_slice_def)

lemma length_ready: "length (ready s) = unat (cn_w s - cn_r s)"
  by (simp add: ready_def)

lemma length_editing: "length (editing s) = unat (cn_e s - cn_w s)"
  by (simp add: editing_def)

lemma ring_slice_0 [simp]: "ring_slice buf a 0 = []"
  by (simp add: ring_slice_def)

lemma ring_slice_Suc: "ring_slice buf a (Suc n) = ring_slice buf a n @ [ring_at buf (a + of_nat n)]"
  by (simp add: ring_slice_def)

lemma ring_slice_add: "ring_slice buf a (m + n) = ring_slice buf a m @ ring_slice buf (a + of_nat m) n"
  by (induction n) (simp_all add: ring_slice_Suc add.assoc)

lemma ring_slice_Cons: "ring_slice buf a (Suc n) = ring_at buf a # ring_slice buf (a + 1) n"
  using ring_slice_add [of buf a "Suc 0" n] by (simp add: ring_slice_Suc [of buf a 0])

lemma ring_slice_update:
  assumes "n \<le> m" "m < 128" "length buf = 128"
  shows "ring_slice (buf[unat ((a + of_nat m) mod INPUT_BUF) := c]) a n = ring_slice buf a n"
proof -
  have "(unat a + m) mod 128 \<noteq> (unat a + j) mod 128" if "j < n" for j
  proof
    assume e: "(unat a + m) mod 128 = (unat a + j) mod 128"
    then have "128 dvd (unat a + m) - (unat a + j)" using that assms(1) by (subst mod_eq_dvd_iff_nat [symmetric]) simp_all
    then have "128 dvd m - j" by simp
    then show False using that assms by (auto dest!: dvd_imp_le)
  qed
  then show ?thesis by (auto simp: ring_slice_def ring_at_def ring_index)
qed

lemma ring_at_update: "length buf = 128 \<Longrightarrow> ring_at (buf[unat (i mod INPUT_BUF) := c]) i = c"
  by (simp add: ring_at_def unat_mod_INPUT_BUF)


subsection \<open>The specification\<close>

text \<open>What one character does to the input that is ready and to the line being edited.\<close>

definition dump_keys :: "byte set" where "dump_keys = {16, 18, 6, 19, 26}"

definition edit :: "byte \<Rightarrow> byte list \<times> byte list \<Rightarrow> byte list \<times> byte list" where
  "edit c = (\<lambda>(C, E).
     if c \<in> dump_keys then (C, E)
     else if c = 21 then (C, [])
     else if c = 8 \<or> c = 127 then (C, butlast E)
     else if c = 0 \<or> 128 \<le> length C + length E then (C, E)
     else let c' = (if c = 13 then 10 else c) in
       if c' \<in> line_ends \<or> length C + length E = 127 then (C @ E @ [c'], []) else (C, E @ [c']))"

text \<open>The state of the console but for the screen and the serial line, which echo the input.\<close>

definition echoed :: "'a consst_scheme \<Rightarrow> 'a consst_scheme \<Rightarrow> bool" where
  "echoed s s' \<longleftrightarrow> s' = s\<lparr>cn_out := cn_out s', cn_crt := cn_crt s', cn_pos := cn_pos s'\<rparr>"

lemma echoed_iff: "echoed s s' \<longleftrightarrow> (\<exists>x y z. s' = s\<lparr>cn_out := x, cn_crt := y, cn_pos := z\<rparr>)"
proof
  assume "\<exists>x y z. s' = s\<lparr>cn_out := x, cn_crt := y, cn_pos := z\<rparr>"
  then obtain x y z where "s' = s\<lparr>cn_out := x, cn_crt := y, cn_pos := z\<rparr>" by blast
  then show "echoed s s'" by (simp add: echoed_def)
qed (auto simp: echoed_def)

lemma echoed_trans: "echoed s s1 \<Longrightarrow> echoed s1 s2 \<Longrightarrow> echoed s s2"
proof -
  assume "echoed s s1" "echoed s1 s2"
  then obtain x y z x' y' z' where "s1 = s\<lparr>cn_out := x, cn_crt := y, cn_pos := z\<rparr>" "s2 = s1\<lparr>cn_out := x', cn_crt := y', cn_pos := z'\<rparr>"
    unfolding echoed_iff by blast
  then have "s2 = s\<lparr>cn_out := x', cn_crt := y', cn_pos := z'\<rparr>" by simp
  then show "echoed s s2" unfolding echoed_iff by blast
qed

lemma cgaputc_ok:
  assumes "screen_ok s"
  shows "\<exists>s'. cgaputc c s = Ok s' \<and> echoed s s' \<and> screen_ok s'"
proof -
  define p where "p = (if c = 10 then cn_pos s + (80 - cn_pos s mod 80) else if c = BACKSPACE then cn_pos s - 1 else cn_pos s + 1)"
  have s: "cn_pos s < 1920" "\<not> cn_panicked s" using assms by (auto simp: screen_ok_def)
  have p: "p < 2000" using s(1) by (auto simp: p_def)
  obtain crt1 where e: "(if c = 10 then (cn_pos s + (80 - cn_pos s mod 80), cn_crt s) else if c = BACKSPACE then (cn_pos s - 1, cn_crt s)
     else (cn_pos s + 1, (cn_crt s)(cn_pos s := of_int c AND 0xff OR 0x0700))) = (p, crt1)"
    by (cases "c = 10"; cases "c = BACKSPACE") (auto simp: p_def)
  show ?thesis
  proof (cases "24 \<le> p div 80")
    case True
    then show ?thesis using p s(2) by (simp add: cgaputc_def Let_def e echoed_def screen_ok_def)
  next
    case False
    then have "p < 1920" by linarith
    then show ?thesis using False s(2) by (simp add: cgaputc_def Let_def e echoed_def screen_ok_def)
  qed
qed

lemma consputc_ok:
  assumes "screen_ok s"
  shows "\<exists>s'. consputc c s = Ok s' \<and> echoed s s' \<and> screen_ok s'"
proof -
  define s1 where "s1 = (if c = BACKSPACE then uartputc 8 (uartputc 32 (uartputc 8 s)) else uartputc (of_int c) s)"
  have "screen_ok s1" using assms by (simp add: s1_def screen_ok_def uartputc_def)
  then obtain s' where s': "cgaputc c s1 = Ok s'" "echoed s1 s'" "screen_ok s'" using cgaputc_ok by blast
  have "echoed s s1" by (simp add: s1_def echoed_def uartputc_def)
  then have "echoed s s'" using s'(2) by (rule echoed_trans)
  then show ?thesis using s' assms by (simp add: consputc_def s1_def [symmetric] screen_ok_def)
qed

lemma echoed_input:
  assumes "echoed s s'"
  shows "ready s' = ready s" "editing s' = editing s" "cn_r s' = cn_r s" "cn_w s' = cn_w s" "cn_e s' = cn_e s" "cn_buf s' = cn_buf s"
    "bc_wakeups s' = bc_wakeups s"
proof -
  obtain x y z where "s' = s\<lparr>cn_out := x, cn_crt := y, cn_pos := z\<rparr>" using assms unfolding echoed_iff by blast
  then show "ready s' = ready s" "editing s' = editing s" "cn_r s' = cn_r s" "cn_w s' = cn_w s" "cn_e s' = cn_e s" "cn_buf s' = cn_buf s"
    "bc_wakeups s' = bc_wakeups s" by (simp_all add: ready_def editing_def)
qed


lemma input_ok_cong: "cn_r s' = cn_r s \<Longrightarrow> cn_w s' = cn_w s \<Longrightarrow> cn_e s' = cn_e s \<Longrightarrow> cn_buf s' = cn_buf s \<Longrightarrow> input_ok s' = input_ok s"
  by (simp add: input_ok_def ready_def editing_def)

subsection \<open>The operations on the ring\<close>

lemma editing_empty: "editing s = [] \<longleftrightarrow> cn_e s = cn_w s"
  by (simp add: length_0_conv [symmetric] length_editing del: length_0_conv) (metis eq_iff_diff_eq_0 unat_eq_zero)

lemma edit_drop:
  assumes "cn_e s \<noteq> cn_w s"
  shows "editing (s\<lparr>cn_e := cn_e s - 1\<rparr>) = butlast (editing s)" "ready (s\<lparr>cn_e := cn_e s - 1\<rparr>) = ready s"
    "editing s = butlast (editing s) @ [cn_buf s ! unat ((cn_e s - 1) mod INPUT_BUF)]"
    "unat (cn_e s - cn_w s) = Suc (unat (cn_e s - 1 - cn_w s))"
proof -
  define x where "x = cn_e s - cn_w s"
  have "x \<noteq> 0" using assms by (simp add: x_def)
  then have u: "unat x = Suc (unat (x - 1))" using unat_minus_one [of x] unat_gt_0 [of x] by simp
  have e: "cn_e s - 1 - cn_w s = x - 1" "cn_w s + of_nat (unat (x - 1)) = cn_e s - 1" by (simp_all add: x_def)
  show l: "editing s = butlast (editing s) @ [cn_buf s ! unat ((cn_e s - 1) mod INPUT_BUF)]"
    unfolding editing_def x_def [symmetric] u ring_slice_Suc e(2) by (simp add: ring_at_def)
  show "editing (s\<lparr>cn_e := cn_e s - 1\<rparr>) = butlast (editing s)"
    unfolding editing_def x_def [symmetric] u ring_slice_Suc by (simp add: e(1))
  show "unat (cn_e s - cn_w s) = Suc (unat (cn_e s - 1 - cn_w s))" unfolding e(1) x_def [symmetric] by (rule u)
qed (simp add: ready_def)

lemma room_iff:
  assumes "input_ok s"
  shows "cn_e s - cn_r s < INPUT_BUF \<longleftrightarrow> length (ready s) + length (editing s) < 128"
    "cn_e s + 1 = cn_r s + INPUT_BUF \<longleftrightarrow> length (ready s) + length (editing s) = 127"
proof -
  define x y where "x = cn_w s - cn_r s" and "y = cn_e s - cn_w s"
  have b: "unat x + unat y \<le> 128" using assms by (simp add: input_ok_def length_ready length_editing x_def y_def)
  have s: "cn_e s - cn_r s = x + y" by (simp add: x_def y_def)
  have u: "unat (x + y) = unat x + unat y" using b by (intro unat_add_lem [THEN iffD1]) simp
  then show "cn_e s - cn_r s < INPUT_BUF \<longleftrightarrow> length (ready s) + length (editing s) < 128"
    by (simp add: s word_less_nat_alt INPUT_BUF_def length_ready length_editing x_def [symmetric] y_def [symmetric])
  have "cn_e s + 1 = cn_r s + INPUT_BUF \<longleftrightarrow> x + y = 127" by (auto simp: s [symmetric] INPUT_BUF_def algebra_simps)
  also have "\<dots> \<longleftrightarrow> unat (x + y) = 127" by (simp add: word_unat_eq_iff)
  finally show "cn_e s + 1 = cn_r s + INPUT_BUF \<longleftrightarrow> length (ready s) + length (editing s) = 127"
    by (simp add: u length_ready length_editing x_def [symmetric] y_def [symmetric])
qed


lemma input_put:
  fixes s :: "'a consst_scheme" and c :: byte
  assumes ok: "input_ok s" and room: "length (ready s) + length (editing s) < 128"
  defines "s1 \<equiv> s\<lparr>cn_buf := (cn_buf s)[unat (cn_e s mod INPUT_BUF) := c], cn_e := cn_e s + 1\<rparr>"
  shows "ready s1 = ready s" "editing s1 = editing s @ [c]" "ready (s1\<lparr>cn_w := cn_e s1\<rparr>) = ready s @ editing s @ [c]"
    "editing (s1\<lparr>cn_w := cn_e s1\<rparr>) = []"
proof -
  define x y where "x = unat (cn_w s - cn_r s)" and "y = unat (cn_e s - cn_w s)"
  have l: "length (cn_buf s) = 128" and xy: "x + y < 128" using ok room by (simp_all add: input_ok_def length_ready length_editing x_def y_def)
  have e: "cn_e s = cn_w s + of_nat y" "cn_w s = cn_r s + of_nat x" "cn_e s = cn_r s + of_nat (x + y)" by (simp_all add: x_def y_def)
  have y1: "unat (cn_e s + 1 - cn_w s) = Suc y"
  proof -
    have "cn_e s + 1 - cn_w s = of_nat (Suc y)" using e(1) by simp
    then show ?thesis using xy by (simp add: unsigned_of_nat take_bit_eq_mod del: of_nat_Suc)
  qed
  have xy1: "unat (cn_e s + 1 - cn_r s) = x + Suc y"
  proof -
    have "cn_e s + 1 - cn_r s = of_nat (Suc (x + y))" using e(3) by simp
    then show ?thesis using xy by (simp add: unsigned_of_nat take_bit_eq_mod del: of_nat_Suc of_nat_add)
  qed
  let ?b = "(cn_buf s)[unat (cn_e s mod INPUT_BUF) := c]"
  have r: "ring_slice ?b (cn_r s) x = ring_slice (cn_buf s) (cn_r s) x"
    unfolding e(3) using xy l by (intro ring_slice_update) simp_all
  have w: "ring_slice ?b (cn_w s) y = ring_slice (cn_buf s) (cn_w s) y"
    unfolding e(1) using xy l by (intro ring_slice_update) simp_all
  have a: "ring_at ?b (cn_w s + of_nat y) = c" unfolding e(1) [symmetric] using l by (rule ring_at_update)
  show 1: "ready s1 = ready s" using r by (simp add: s1_def ready_def x_def [symmetric])
  show 2: "editing s1 = editing s @ [c]" using w a by (simp add: s1_def editing_def y1 ring_slice_Suc y_def [symmetric])
  have "ready (s1\<lparr>cn_w := cn_e s1\<rparr>) = ring_slice ?b (cn_r s) (x + Suc y)" by (simp add: s1_def ready_def xy1)
  also have "\<dots> = ready s @ editing s @ [c]"
    unfolding ring_slice_add e(2) [symmetric] ring_slice_Suc by (simp add: r w a ready_def editing_def x_def [symmetric] y_def [symmetric])
  finally show "ready (s1\<lparr>cn_w := cn_e s1\<rparr>) = ready s @ editing s @ [c]" .
  show "editing (s1\<lparr>cn_w := cn_e s1\<rparr>) = []" by (simp add: editing_empty)
qed

definition con_ok :: "'a consst_scheme \<Rightarrow> bool" where
  "con_ok s \<longleftrightarrow> input_ok s \<and> screen_ok s"

definition con_abs :: "'a consst_scheme \<Rightarrow> byte list \<times> byte list" where
  "con_abs s = (ready s, editing s)"

lemma con_ok_echoed:
  assumes "echoed s s'" "screen_ok s'" "input_ok s"
  shows "con_ok s' \<and> con_abs s' = con_abs s"
proof -
  have "input_ok s' = input_ok s" by (rule input_ok_cong) (simp_all add: echoed_input [OF assms(1)])
  then show ?thesis using assms by (simp add: con_ok_def con_abs_def echoed_input(1,2) [OF assms(1)])
qed

lemma input_drop:
  assumes "input_ok s" "cn_e s \<noteq> cn_w s"
  shows "input_ok (s\<lparr>cn_e := cn_e s - 1\<rparr>)" "con_abs (s\<lparr>cn_e := cn_e s - 1\<rparr>) = (ready s, butlast (editing s))"
proof -
  note d = edit_drop [OF assms(2)]
  have "set (butlast (editing s)) \<subseteq> set (editing s)" by (auto dest: in_set_butlastD)
  moreover have "length (editing s) \<noteq> 0" using assms(2) by (simp add: editing_empty)
  ultimately show "input_ok (s\<lparr>cn_e := cn_e s - 1\<rparr>)" using assms(1) unfolding input_ok_def d(1,2) by auto
  show "con_abs (s\<lparr>cn_e := cn_e s - 1\<rparr>) = (ready s, butlast (editing s))" by (simp add: con_abs_def d(1,2))
qed

lemma backspace_ok:
  assumes "con_ok s" "cn_e s \<noteq> cn_w s"
  shows "\<exists>s'. consputc BACKSPACE (s\<lparr>cn_e := cn_e s - 1\<rparr>) = Ok s' \<and> con_ok s' \<and> con_abs s' = (ready s, butlast (editing s)) \<and>
    cn_e s' = cn_e s - 1 \<and> cn_w s' = cn_w s \<and> bc_wakeups s' = bc_wakeups s"
proof -
  have "screen_ok (s\<lparr>cn_e := cn_e s - 1\<rparr>)" using assms(1) by (simp add: con_ok_def screen_ok_def)
  then obtain s' where s': "consputc BACKSPACE (s\<lparr>cn_e := cn_e s - 1\<rparr>) = Ok s'" "echoed (s\<lparr>cn_e := cn_e s - 1\<rparr>) s'" "screen_ok s'"
    using consputc_ok by blast
  have i: "input_ok (s\<lparr>cn_e := cn_e s - 1\<rparr>)" using input_drop(1) [OF _ assms(2)] assms(1) by (simp add: con_ok_def)
  note e = con_ok_echoed [OF s'(2,3) i, unfolded input_drop(2) [OF con_ok_def [THEN iffD1, OF assms(1), THEN conjunct1] assms(2)]]
  have "cn_e s' = cn_e s - 1" "cn_w s' = cn_w s" "bc_wakeups s' = bc_wakeups s" by (simp_all add: echoed_input(4,5,7) [OF s'(2)])
  then show ?thesis using s'(1) e by blast
qed

lemma kill_line_ok:
  assumes "con_ok s" "unat (cn_e s - cn_w s) \<le> fuel"
  shows "\<exists>s'. kill_line fuel s = Ok s' \<and> con_ok s' \<and> con_abs s' = (ready s, []) \<and> bc_wakeups s' = bc_wakeups s"
  using assms
proof (induction fuel arbitrary: s)
  case 0
  then have "cn_e s = cn_w s" using edit_drop(4) [of s] by force
  then show ?case using 0 by (simp add: kill_line.simps [of 0] con_abs_def editing_empty)
next
  case (Suc f)
  show ?case
  proof (cases "cn_e s = cn_w s")
    case True
    then show ?thesis using Suc.prems by (simp add: kill_line.simps [of "Suc f"] con_abs_def editing_empty)
  next
    case False
    have "cn_buf s ! unat ((cn_e s - 1) mod INPUT_BUF) \<in> set (editing s)" by (subst edit_drop(3) [OF False]) simp
    then have n: "cn_buf s ! unat ((cn_e s - 1) mod INPUT_BUF) \<noteq> 10"
      using Suc.prems(1) by (auto simp: con_ok_def input_ok_def line_ends_def)
    obtain s1 where s1: "consputc BACKSPACE (s\<lparr>cn_e := cn_e s - 1\<rparr>) = Ok s1" "con_ok s1" "con_abs s1 = (ready s, butlast (editing s))"
      "cn_e s1 = cn_e s - 1" "cn_w s1 = cn_w s" "bc_wakeups s1 = bc_wakeups s"
      using backspace_ok [OF Suc.prems(1) False] by blast
    then have "\<exists>s'. kill_line f s1 = Ok s' \<and> con_ok s' \<and> con_abs s' = (ready s1, []) \<and> bc_wakeups s' = bc_wakeups s1"
      using Suc.prems(2) edit_drop(4) [OF False] by (intro Suc.IH) simp_all
    then show ?thesis using s1 False n by (simp add: kill_line.simps [of "Suc f"] con_abs_def)
  qed
qed


definition dump_of :: "byte \<Rightarrow> dump option" where
  "dump_of c = (if c = 18 then Some Readydump else if c = 6 then Some Freedump else if c = 19 then Some Sleepdump
     else if c = 26 then Some Zombiedump else None)"

definition last_dump :: "byte list \<Rightarrow> dump option \<Rightarrow> dump option" where
  "last_dump = fold (\<lambda>c l. case dump_of c of None \<Rightarrow> l | Some d \<Rightarrow> Some d)"

text \<open>A run of the handler: it follows the specification, and wakes up the readers when there is more to read.\<close>

definition intr_ok :: "byte list \<Rightarrow> 'a consst_scheme \<Rightarrow> 'a consst_scheme \<Rightarrow> bool" where
  "intr_ok cs s s' \<longleftrightarrow> con_ok s' \<and> con_abs s' = fold edit cs (con_abs s) \<and>
     (\<exists>n. bc_wakeups s' = bc_wakeups s @ replicate n ChInput \<and> (ready s' \<noteq> ready s \<longrightarrow> 0 < n))"

lemma intr_ok_quiet: "con_ok s' \<Longrightarrow> con_abs s' = edit c (con_abs s) \<Longrightarrow> bc_wakeups s' = bc_wakeups s \<Longrightarrow> ready s' = ready s \<Longrightarrow> intr_ok [c] s s'"
  unfolding intr_ok_def by (auto intro: exI [of _ "0 :: nat"])

lemma default_ok:
  fixes s :: "'a consst_scheme"
  assumes ok: "con_ok s" and c: "c \<notin> dump_keys" "c \<noteq> 21" "c \<noteq> 8" "c \<noteq> 127" "c \<noteq> 0" and room: "cn_e s - cn_r s < INPUT_BUF"
  shows "\<exists>s'. consoleintr_char c (pd, ld, s) = Ok (pd, ld, s') \<and> intr_ok [c] s s'"
proof -
  define c' s1 where "c' = (if c = 13 then 10 else c)" and "s1 = s\<lparr>cn_buf := (cn_buf s)[unat (cn_e s mod INPUT_BUF) := c'], cn_e := cn_e s + 1\<rparr>"
  have i: "input_ok s" "length (ready s) + length (editing s) < 128" using ok room by (auto simp: con_ok_def room_iff)
  note p = input_put [OF i, of c', folded s1_def]
  have "screen_ok s1" using ok by (simp add: con_ok_def screen_ok_def s1_def)
  then obtain s2 where s2: "consputc (int (unat c')) s1 = Ok s2" "echoed s1 s2" "screen_ok s2" using consputc_ok by blast
  note e = echoed_input [OF s2(2)]
  have l: "length (cn_buf s1) = 128" using i(1) by (simp add: s1_def input_ok_def)
  have full: "cn_e s2 = cn_r s2 + INPUT_BUF \<longleftrightarrow> length (ready s) + length (editing s) = 127" using room_iff(2) [OF i(1)] by (simp add: e s1_def)
  have run: "consoleintr_char c (pd, ld, s) = Ok (pd, ld, if c' = 10 \<or> c' = 4 \<or> cn_e s2 = cn_r s2 + INPUT_BUF then wake ChInput (s2\<lparr>cn_w := cn_e s2\<rparr>) else s2)"
    using c room s2(1) by (simp add: consoleintr_char_def dump_keys_def c'_def [symmetric] s1_def [symmetric])
  show ?thesis
  proof (cases "c' \<in> line_ends \<or> length (ready s) + length (editing s) = 127")
    case True
    define s3 where "s3 = wake ChInput (s2\<lparr>cn_w := cn_e s2\<rparr>)"
    have a: "ready s3 = ready s @ editing s @ [c']" "editing s3 = []" "cn_buf s3 = cn_buf s1" "bc_wakeups s3 = bc_wakeups s @ [ChInput]"
      using p(3,4) by (simp_all add: s3_def wake_def ready_def editing_def e) (simp add: s1_def)
    have "input_ok s3" using a i(2) l by (auto simp: input_ok_def)
    then have "con_ok s3" using s2(3) by (simp add: con_ok_def screen_ok_def s3_def wake_def)
    moreover have "con_abs s3 = edit c (con_abs s)" using c True i(2) a by (auto simp: con_abs_def edit_def Let_def c'_def [symmetric])
    moreover have "bc_wakeups s3 = bc_wakeups s @ replicate (Suc 0) ChInput" using a(4) by simp
    ultimately have "intr_ok [c] s s3" unfolding intr_ok_def by (metis fold_simps zero_less_Suc)
    then show ?thesis using run True full by (auto simp: s3_def line_ends_def)
  next
    case False
    have a: "ready s2 = ready s" "editing s2 = editing s @ [c']" "cn_buf s2 = cn_buf s1" "bc_wakeups s2 = bc_wakeups s"
      using p(1,2) by (simp_all add: e) (simp add: s1_def)
    have "input_ok s2" using a i l False by (auto simp: input_ok_def)
    then have "con_ok s2" using s2(3) by (simp add: con_ok_def)
    moreover have "con_abs s2 = edit c (con_abs s)" using c False i(2) a by (auto simp: con_abs_def edit_def Let_def c'_def [symmetric])
    ultimately have "intr_ok [c] s s2" using a by (intro intr_ok_quiet)
    then show ?thesis using run False full by (auto simp: line_ends_def)
  qed
qed

lemma consoleintr_char_ok:
  assumes ok: "con_ok s"
  shows "\<exists>s'. consoleintr_char c (pd, ld, s) = Ok (pd \<or> c = 16, last_dump [c] ld, s') \<and> intr_ok [c] s s'"
proof -
  consider "c \<in> dump_keys" | "c = 21" | "c = 8 \<or> c = 127" | "c \<notin> dump_keys" "c \<noteq> 21" "c \<noteq> 8" "c \<noteq> 127" by blast
  then show ?thesis
  proof cases
    case 1
    then have "intr_ok [c] s s" using ok by (intro intr_ok_quiet) (simp_all add: edit_def con_abs_def)
    then show ?thesis using 1 by (auto simp: consoleintr_char_def dump_keys_def last_dump_def dump_of_def)
  next
    case 2
    obtain s' where s': "kill_line (unat (cn_e s - cn_w s)) s = Ok s'" "con_ok s'" "con_abs s' = (ready s, [])" "bc_wakeups s' = bc_wakeups s"
      using kill_line_ok [OF ok] by blast
    then have "intr_ok [c] s s'" using 2 by (intro intr_ok_quiet) (simp_all add: edit_def con_abs_def dump_keys_def)
    then show ?thesis using 2 s'(1) by (simp add: consoleintr_char_def last_dump_def dump_of_def)
  next
    case 3
    then have c: "c \<notin> dump_keys" "c \<noteq> 21" "dump_of c = None" by (auto simp: dump_keys_def dump_of_def)
    show ?thesis
    proof (cases "cn_e s = cn_w s")
      case True
      then have "intr_ok [c] s s" using ok c 3 by (intro intr_ok_quiet) (simp_all add: edit_def con_abs_def editing_empty [THEN iffD2])
      then show ?thesis using 3 True c by (auto simp: consoleintr_char_def dump_keys_def last_dump_def)
    next
      case False
      obtain s' where s': "consputc BACKSPACE (s\<lparr>cn_e := cn_e s - 1\<rparr>) = Ok s'" "con_ok s'" "con_abs s' = (ready s, butlast (editing s))"
        "bc_wakeups s' = bc_wakeups s" using backspace_ok [OF ok False] by blast
      then have "intr_ok [c] s s'" using c 3 by (intro intr_ok_quiet) (simp_all add: edit_def con_abs_def)
      then show ?thesis using 3 False c s'(1) by (auto simp: consoleintr_char_def dump_keys_def last_dump_def)
    qed
  next
    case 4
    then have d: "c \<noteq> 16" "dump_of c = None" by (auto simp: dump_keys_def dump_of_def)
    show ?thesis
    proof (cases "c = 0 \<or> \<not> cn_e s - cn_r s < INPUT_BUF")
      case True
      then have "intr_ok [c] s s" using ok 4 room_iff(1) [of s] by (intro intr_ok_quiet) (auto simp: edit_def con_abs_def con_ok_def)
      moreover have "consoleintr_char c (pd, ld, s) = Ok (pd, ld, s)" using 4 True by (auto simp: consoleintr_char_def dump_keys_def)
      ultimately show ?thesis using d by (simp add: last_dump_def)
    next
      case False
      then show ?thesis using default_ok [OF ok 4] d by (simp add: last_dump_def)
    qed
  qed
qed


lemma intr_ok_append:
  assumes "intr_ok as s s1" "intr_ok bs s1 s2"
  shows "intr_ok (as @ bs) s s2"
proof -
  obtain m n where m: "bc_wakeups s1 = bc_wakeups s @ replicate m ChInput" "ready s1 \<noteq> ready s \<longrightarrow> 0 < m"
    and n: "bc_wakeups s2 = bc_wakeups s1 @ replicate n ChInput" "ready s2 \<noteq> ready s1 \<longrightarrow> 0 < n" using assms unfolding intr_ok_def by blast
  have "bc_wakeups s2 = bc_wakeups s @ replicate (m + n) ChInput" using m n by (simp add: replicate_add)
  moreover have "ready s2 \<noteq> ready s \<longrightarrow> 0 < m + n" using m(2) n(2) by auto
  ultimately show ?thesis using assms unfolding intr_ok_def by auto
qed

lemma consoleintr_run:
  assumes "con_ok s"
  shows "\<exists>s'. rfold consoleintr_char cs (pd, ld, s) = Ok (pd \<or> 16 \<in> set cs, last_dump cs ld, s') \<and> intr_ok cs s s'"
  using assms
proof (induction cs arbitrary: pd ld s)
  case Nil
  then show ?case by (auto simp: last_dump_def intr_ok_def intro: exI [of _ "0 :: nat"])
next
  case (Cons c cs)
  obtain s1 where s1: "consoleintr_char c (pd, ld, s) = Ok (pd \<or> c = 16, last_dump [c] ld, s1)" "intr_ok [c] s s1"
    using consoleintr_char_ok [OF Cons.prems] by blast
  then have "con_ok s1" by (simp add: intr_ok_def)
  then obtain s2 where "rfold consoleintr_char cs (pd \<or> c = 16, last_dump [c] ld, s1) = Ok ((pd \<or> c = 16) \<or> 16 \<in> set cs, last_dump cs (last_dump [c] ld), s2)"
    "intr_ok cs s1 s2" using Cons.IH by blast
  then show ?case using s1 intr_ok_append [OF s1(2)] by (auto simp: last_dump_def)
qed

subsection \<open>Reading\<close>

text \<open>What a reader gets that has \<open>n\<close> bytes to go, \<open>d\<close> telling whether it has some already: whether the read is complete, its bytes, and the input left.\<close>

fun read_line :: "bool \<Rightarrow> nat \<Rightarrow> byte list \<Rightarrow> bool \<times> byte list \<times> byte list" where
  "read_line d 0 C = (True, [], C)"
| "read_line d (Suc n) [] = (False, [], [])"
| "read_line d (Suc n) (c # C) =
     (if c = 4 then (True, [], if d then c # C else C)
      else if c = 10 then (True, [c], C)
      else let (f, bs, R) = read_line True n C in (f, c # bs, R))"

lemma ready_empty: "ready s = [] \<longleftrightarrow> cn_r s = cn_w s"
  by (simp add: length_0_conv [symmetric] length_ready del: length_0_conv) (metis eq_iff_diff_eq_0 unat_eq_zero)

lemma read_take:
  assumes "cn_r s \<noteq> cn_w s" "con_ok s"
  shows "ready s = cn_buf s ! unat (cn_r s mod INPUT_BUF) # ready (s\<lparr>cn_r := cn_r s + 1\<rparr>)"
    "editing (s\<lparr>cn_r := cn_r s + 1\<rparr>) = editing s" "con_ok (s\<lparr>cn_r := cn_r s + 1\<rparr>)"
proof -
  define x where "x = cn_w s - cn_r s"
  have "x \<noteq> 0" using assms(1) by (auto simp: x_def)
  then have u: "unat x = Suc (unat (x - 1))" using unat_minus_one [of x] unat_gt_0 [of x] by simp
  have e: "cn_w s - (cn_r s + 1) = x - 1" by (simp add: x_def)
  show r: "ready s = cn_buf s ! unat (cn_r s mod INPUT_BUF) # ready (s\<lparr>cn_r := cn_r s + 1\<rparr>)"
    unfolding ready_def x_def [symmetric] u ring_slice_Cons by (simp add: ring_at_def e)
  show ed: "editing (s\<lparr>cn_r := cn_r s + 1\<rparr>) = editing s" by (simp add: editing_def)
  have "length (ready s) = Suc (length (ready (s\<lparr>cn_r := cn_r s + 1\<rparr>)))" by (subst r) simp
  then show "con_ok (s\<lparr>cn_r := cn_r s + 1\<rparr>)" using assms(2) unfolding con_ok_def input_ok_def ed screen_ok_def by auto
qed

lemma consoleread_loop_ok:
  assumes "con_ok s" "n \<le> target"
  shows "\<exists>f bs R s'. read_line (n < target) n (ready s) = (f, bs, R) \<and>
    consoleread_loop killed target n s = (if f then CDone else if killed then CKilled else CSleep, bs, n - length bs, s') \<and>
    con_ok s' \<and> con_abs s' = (R, editing s)"
  using assms
proof (induction n arbitrary: s)
  case 0
  then show ?case by (auto simp: con_abs_def)
next
  case (Suc n)
  show ?case
  proof (cases "cn_r s = cn_w s")
    case True
    then have "ready s = []" by (simp add: ready_empty)
    then show ?thesis using True Suc.prems by (auto simp: con_abs_def)
  next
    case False
    define c s1 where "c = cn_buf s ! unat (cn_r s mod INPUT_BUF)" and "s1 = s\<lparr>cn_r := cn_r s + 1\<rparr>"
    note t = read_take [OF False Suc.prems(1), folded c_def s1_def]
    have bk: "s1\<lparr>cn_r := cn_r s1 - 1\<rparr> = s" by (simp add: s1_def)
    obtain f bs R s' where i: "read_line (n < target) n (ready s1) = (f, bs, R)"
      "consoleread_loop killed target n s1 = (if f then CDone else if killed then CKilled else CSleep, bs, n - length bs, s')"
      "con_ok s'" "con_abs s' = (R, editing s1)" using Suc.IH [OF t(3)] Suc.prems(2) by auto
    have "n < target" using Suc.prems(2) by simp
    then show ?thesis using False i t Suc.prems(1) bk by (auto simp: Let_def c_def [symmetric] s1_def [symmetric] con_abs_def)
  qed
qed


lemma fold_edit_line:
  assumes "set line \<inter> (dump_keys \<union> line_ends \<union> {0, 8, 13, 21, 127}) = {}" "length E + length line \<le> 127"
  shows "fold edit line ([], E) = ([], E @ line)"
  using assms
proof (induction line arbitrary: E)
  case (Cons c line)
  then have "edit c ([], E) = ([], E @ [c])" by (auto simp: edit_def Let_def line_ends_def)
  then show ?case using Cons by auto
qed simp

lemma read_line_whole:
  "set line \<inter> line_ends = {} \<Longrightarrow> length line < n \<Longrightarrow> read_line d n (line @ [10]) = (True, line @ [10], [])"
proof (induction line arbitrary: d n)
  case Nil
  then show ?case by (cases n) simp_all
next
  case (Cons c line)
  obtain m where "n = Suc m" using Cons.prems by (cases n) auto
  then show ?case using Cons by (auto simp: line_ends_def)
qed

lemma last_dump_none: "set cs \<inter> dump_keys = {} \<Longrightarrow> last_dump cs l = l"
  by (induction cs arbitrary: l) (auto simp: last_dump_def dump_of_def dump_keys_def)

subsection \<open>Properties\<close>

text \<open>C33. The console input ring refines a pair of byte lists. On a well-formed console the interrupt handler always completes, whatever is typed; it changes the
  input that is ready and the line being edited as the editing rules say, remembers the listings asked for, wakes up the readers whenever there is more to
  read, and keeps the ring well formed, wherever its free-running indices have wrapped to. A read takes what the list version of a read takes.\<close>

theorem console_refines:
  assumes "con_ok s"
  shows "(\<exists>s'. consoleintr cs s = Ok ((if 16 \<in> set cs then [Procdump] else []) @ (case last_dump cs None of None \<Rightarrow> [] | Some d \<Rightarrow> [d]), s') \<and> intr_ok cs s s') \<and>
    (\<exists>f bs R s'. read_line False n (ready s) = (f, bs, R) \<and>
       consoleread_loop killed n n s = (if f then CDone else if killed then CKilled else CSleep, bs, n - length bs, s') \<and>
       con_ok s' \<and> con_abs s' = (R, editing s))"
  using consoleintr_run [OF assms, of cs False None] consoleread_loop_ok [OF assms, of n n killed] by (auto simp: consoleintr_def)

definition ex_console :: consst where
  "ex_console = \<lparr>bc_buf = bc_buf ex_log, bc_next = bc_next ex_log, bc_prev = bc_prev ex_log, bc_disk = bc_disk ex_log, bc_disksize = 2000,
     bc_writes = [], bc_wakeups = [], lg_start = 2, lg_size = 30, lg_outstanding = 0, lg_committing = False, lg_dev = 1, lh_n = 0,
     lh_block = replicate 30 0, fs_sb = decode_sb ex_sb,
     ic_inode = (\<lambda>_. \<lparr>i_dev = 1, i_inum = 1, i_ref = 0, i_busy = False, i_valid = False, i_d = get_dinode 0 zero_block\<rparr>),
     cn_buf = replicate 128 0, cn_r = 0xFFFFFFFE, cn_w = 0xFFFFFFFE, cn_e = 0xFFFFFFFE, cn_panicked = False, cn_out = [], cn_crt = (\<lambda>_. 0), cn_pos = 0\<rparr>"

lemma ex_console_ok: "con_ok ex_console" "con_abs ex_console = ([], [])"
  by (simp_all add: ex_console_def con_ok_def con_abs_def input_ok_def screen_ok_def ready_def editing_def)

text \<open>The indices of the example are about to wrap: the line crosses the end of the 32-bit range.\<close>

theorem console_refines_witness:
  "\<exists>s'. consoleintr [108, 115, 120, 8, 13] ex_console = Ok ([], s') \<and> con_abs s' = ([108, 115, 10], [])"
proof -
  have "last_dump [108, 115, 120, 8, 13] None = None" by (simp add: last_dump_def dump_of_def)
  moreover have "fold edit [108, 115, 120, 8, 13] ([], []) = ([108, 115, 10], [])" by (simp add: edit_def dump_keys_def line_ends_def)
  ultimately show ?thesis using console_refines [OF ex_console_ok(1), of "[108, 115, 120, 8, 13]"] by (auto simp: intr_ok_def ex_console_ok(2))
qed

text \<open>C34. What is typed is what is read: a line of at most 127 ordinary characters typed on an idle console and ended with the return key is delivered to a read of
  sufficient size, ended with a newline, and leaves the console idle again.\<close>

theorem console_line_roundtrip:
  assumes "con_ok s" "con_abs s = ([], [])" "length line \<le> 127" "length line < n"
    "set line \<inter> (dump_keys \<union> line_ends \<union> {0, 8, 13, 21, 127}) = {}"
  shows "\<exists>s1 s2. consoleintr (line @ [13]) s = Ok ([], s1) \<and>
    consoleread_loop killed n n s1 = (CDone, line @ [10], n - length line - 1, s2) \<and> con_ok s2 \<and> con_abs s2 = ([], [])"
proof -
  have k: "set (line @ [13]) \<inter> dump_keys = {}" "16 \<notin> set (line @ [13])" using assms(5) by (auto simp: dump_keys_def)
  obtain s1 where s1: "consoleintr (line @ [13]) s = Ok ([], s1)" "intr_ok (line @ [13]) s s1"
    using consoleintr_run [OF assms(1), of "line @ [13]" False None] k last_dump_none [OF k(1)] by (auto simp: consoleintr_def)
  have "fold edit (line @ [13]) ([], []) = (line @ [10], [])"
    using fold_edit_line [OF assms(5), of "[]"] assms(3) by (simp add: edit_def dump_keys_def line_ends_def)
  then have c: "con_ok s1" "ready s1 = line @ [10]" "editing s1 = []" using s1(2) assms(2) by (auto simp: intr_ok_def con_abs_def)
  have "read_line False n (line @ [10]) = (True, line @ [10], [])" using assms(4,5) by (intro read_line_whole) auto
  then show ?thesis using s1(1) consoleread_loop_ok [OF c(1), of n n killed] c by auto
qed

theorem console_line_roundtrip_witness:
  "\<exists>s1 s2. consoleintr ([108, 115] @ [13]) ex_console = Ok ([], s1) \<and> consoleread_loop False 10 10 s1 = (CDone, [108, 115] @ [10], 10 - length [108 :: byte, 115] - 1, s2) \<and>
    con_ok s2 \<and> con_abs s2 = ([], [])"
  by (rule console_line_roundtrip [OF ex_console_ok]) (simp_all add: dump_keys_def line_ends_def)

subsection \<open>The size of a printed number\<close>

lemma printint_digits_length:
  "2 \<le> base \<Longrightarrow> unat x < unat base ^ n \<Longrightarrow> 0 < n \<Longrightarrow> length (printint_digits x base) \<le> n"
proof (induction n arbitrary: x)
  case (Suc n)
  show ?case
  proof (cases "x div base = 0")
    case True
    then show ?thesis by (simp add: printint_digits.simps [of x])
  next
    case False
    have b: "2 \<le> unat base" using Suc.prems(1) by (simp add: word_le_nat_alt)
    have q: "unat (x div base) = unat x div unat base" by (simp add: unat_div)
    have "unat x div unat base \<noteq> 0" using False q by (simp add: unat_eq_zero [symmetric])
    then have "n \<noteq> 0" using Suc.prems(2) by (cases n) auto
    moreover have "unat (x div base) < unat base ^ n" using Suc.prems(2) b unfolding q by (simp add: less_mult_imp_div_less mult.commute)
    ultimately have "length (printint_digits (x div base) base) \<le> n" using Suc.prems(1) by (intro Suc.IH) simp_all
    then show ?thesis by (simp add: printint_digits.simps [of x])
  qed
qed simp

definition digit_value :: "byte \<Rightarrow> nat" where
  "digit_value d = (if d < 58 then unat d - 48 else unat d - 87)"

definition numeral_value :: "nat \<Rightarrow> byte list \<Rightarrow> nat" where
  "numeral_value base ds = foldl (\<lambda>v d. base * v + digit_value d) 0 ds"

text \<open>A numeral in the usual form: digits of the base only, at least one, and no leading zero.\<close>

definition is_digit :: "nat \<Rightarrow> byte \<Rightarrow> bool" where
  "is_digit base d \<longleftrightarrow> (48 \<le> d \<and> d \<le> 57 \<or> 97 \<le> d \<and> d \<le> 102) \<and> digit_value d < base"

definition is_numeral :: "nat \<Rightarrow> byte list \<Rightarrow> bool" where
  "is_numeral base ds \<longleftrightarrow> ds \<noteq> [] \<and> (\<forall>d \<in> set ds. is_digit base d) \<and> (hd ds = 48 \<longrightarrow> ds = [48])"

lemma digit_value_digit:
  assumes "d < 16"
  shows "digit_value (digit d) = unat d"
proof -
  have u: "unat d < 16" using assms by (simp add: word_less_nat_alt)
  have c: "unat (ucast d :: byte) = unat d" using u by (simp add: unsigned_ucast_eq take_bit_eq_mod)
  show ?thesis
  proof (cases "d < 10")
    case True
    then have "unat d < 10" by (simp add: word_less_nat_alt)
    then have "unat (48 + ucast d :: byte) = 48 + unat d" using c by (simp add: unat_word_ariths)
    then show ?thesis using True \<open>unat d < 10\<close> by (simp add: digit_def digit_value_def word_less_nat_alt)
  next
    case False
    then have "10 \<le> unat d" by (simp add: word_less_nat_alt)
    moreover have "unat (87 + ucast d :: byte) = 87 + unat d" using c u by (simp add: unat_word_ariths)
    ultimately show ?thesis using False by (simp add: digit_def digit_value_def word_less_nat_alt)
  qed
qed

lemma printint_digits_value:
  "2 \<le> base \<Longrightarrow> base \<le> 16 \<Longrightarrow> foldr (\<lambda>d v. unat base * v + digit_value d) (printint_digits x base) 0 = unat x"
proof (induction x base rule: printint_digits.induct)
  case (1 x base)
  have b: "2 \<le> unat base" "unat base \<le> 16" using 1 by (simp_all add: word_le_nat_alt)
  have "unat (x mod base) < unat base" using b by (simp add: unat_mod)
  then have "x mod base < 16" using b by (simp add: word_less_nat_alt)
  then have d: "digit_value (digit (x mod base)) = unat x mod unat base" by (simp add: digit_value_digit unat_mod)
  show ?case
  proof (cases "x div base = 0")
    case True
    then have "unat x div unat base = 0" by (metis unat_div unat_0)
    then have "unat x < unat base" using b by (simp add: div_eq_0_iff)
    then show ?thesis using True d by (simp add: printint_digits.simps [of x])
  next
    case False
    have nb: "\<not> base < 2" using 1 by simp
    then have "foldr (\<lambda>d v. unat base * v + digit_value d) (printint_digits (x div base) base) 0 = unat x div unat base"
      using 1 False by (simp add: unat_div)
    then show ?thesis using False nb d by (simp add: printint_digits.simps [of x])
  qed
qed

lemma is_digit_digit:
  assumes "unat d < base" "base \<le> 16"
  shows "is_digit base (digit d)"
proof -
  have d: "d < 16" "unat d < 16" using assms by (simp_all add: word_less_nat_alt)
  have c: "unat (ucast d :: byte) = unat d" using d by (simp add: unsigned_ucast_eq take_bit_eq_mod)
  show ?thesis
  proof (cases "d < 10")
    case True
    then have "unat (48 + ucast d :: byte) = 48 + unat d" "unat d < 10" using c by (simp_all add: unat_word_ariths word_less_nat_alt)
    then show ?thesis using True assms(1) digit_value_digit [OF d(1)] by (simp add: is_digit_def digit_def word_le_nat_alt)
  next
    case False
    then have "unat (87 + ucast d :: byte) = 87 + unat d" "10 \<le> unat d" using c d by (simp_all add: unat_word_ariths word_less_nat_alt)
    then show ?thesis using False d assms(1) digit_value_digit [OF d(1)] by (simp add: is_digit_def digit_def word_le_nat_alt)
  qed
qed

lemma printint_digits_numeral:
  "2 \<le> base \<Longrightarrow> base \<le> 16 \<Longrightarrow> printint_digits x base \<noteq> [] \<and> (\<forall>d \<in> set (printint_digits x base). is_digit (unat base) d) \<and>
     (last (printint_digits x base) = 48 \<longrightarrow> x = 0)"
proof (induction x base rule: printint_digits.induct)
  case (1 x base)
  have b: "2 \<le> unat base" "unat base \<le> 16" using 1 by (simp_all add: word_le_nat_alt)
  have lt: "unat (x mod base) < unat base" using b by (simp add: unat_mod)
  then have d: "is_digit (unat base) (digit (x mod base))" using b by (intro is_digit_digit) simp_all
  show ?case
  proof (cases "x div base = 0")
    case True
    have "x = 0" if "digit (x mod base) = 48"
    proof -
      have "x mod base < 16" using lt b by (simp add: word_less_nat_alt)
      then have "unat (x mod base) = 0" using digit_value_digit [of "x mod base"] that by (simp add: digit_value_def)
      moreover have "unat x div unat base = 0" using True by (metis unat_div unat_0)
      ultimately have "unat x = 0" using b unfolding unat_mod by (simp add: div_eq_0_iff)
      then show ?thesis by (simp add: unat_eq_zero)
    qed
    then show ?thesis using True d by (simp add: printint_digits.simps [of x])
  next
    case False
    have nb: "\<not> base < 2" using 1 by simp
    then show ?thesis using 1 False d by (simp add: printint_digits.simps [of x])
  qed
qed

lemma is_numeral_printint: "2 \<le> base \<Longrightarrow> base \<le> 16 \<Longrightarrow> is_numeral (unat base) (rev (printint_digits x base))"
proof -
  assume b: "2 \<le> base" "base \<le> 16"
  have "printint_digits 0 base = [48]" by (simp add: printint_digits.simps [of 0] digit_def)
  then show ?thesis using printint_digits_numeral [OF b, of x] by (auto simp: is_numeral_def hd_rev)
qed

lemma sint_neg:
  fixes x :: "32 word"
  assumes "sint x < 0"
  shows "int (unat (- x)) = - sint x"
proof -
  have "- (2 ^ 31) \<le> sint x" using sint_ge [of x] by simp
  moreover have "uint (- x) = (- (sint x + 2 ^ 32)) mod 2 ^ 32" using uint_of_sint [of x] assms by (simp add: uint_word_ariths)
  ultimately show ?thesis using assms by simp
qed

text \<open>C37. The number printer of the console is right at every value. A decimal number is a numeral of the argument (decimal digits only, at least one, no leading zero), with a minus sign in
  front exactly when it is negative, the smallest integer included; a hexadecimal one is a numeral of the unsigned value, without a sign. Neither is ever longer than the 16-byte buffer
  it is collected in.\<close>

theorem printint_correct:
  "(if sint x < 0 then \<exists>ds. printint x 10 True = 45 # ds \<and> is_numeral 10 ds \<and> int (numeral_value 10 ds) = - sint x
    else is_numeral 10 (printint x 10 True) \<and> int (numeral_value 10 (printint x 10 True)) = sint x) \<and>
   is_numeral 16 (printint x 16 False) \<and> numeral_value 16 (printint x 16 False) = unat x \<and>
   length (printint x 10 True) \<le> 11 \<and> length (printint x 16 False) \<le> 8"
proof -
  have w: "unat y < 2 ^ 32" for y :: "32 word" using unsigned_less [of y, where 'a = nat] by simp
  have l: "unat y < 10 ^ 10" "unat y < 16 ^ 8" for y :: "32 word" by (rule less_le_trans [OF w], simp)+
  have n: "length (printint_digits y 10) \<le> 10" "length (printint_digits y 16) \<le> 8" for y
    using printint_digits_length [of 10 y 10] printint_digits_length [of 16 y 8] l by simp_all
  have v: "numeral_value 10 (rev (printint_digits y 10)) = unat y" "numeral_value 16 (rev (printint_digits y 16)) = unat y" for y
    using printint_digits_value [of 10 y] printint_digits_value [of 16 y] by (simp_all add: numeral_value_def foldl_conv_foldr)
  have d: "is_numeral 10 (rev (printint_digits y 10))" "is_numeral 16 (rev (printint_digits y 16))" for y
    using is_numeral_printint [of 10 y] is_numeral_printint [of 16 y] by simp_all
  have "sint x = int (unat x)" if "\<not> sint x < 0" using that uint_of_sint [of x] by simp
  then show ?thesis using n v d sint_neg [of x] le_SucI [OF n(1)] by (auto simp: printint_def Let_def)
qed

end
