(* ===== verification/File.thy ===== *)
theory File
  imports Console Pipe Vm
begin

text \<open>
  Open files, \<^verbatim>\<open>file.c\<close>, and the creation of pipes from \<^verbatim>\<open>pipe.c\<close>. The state extends the console's by the file
  table, the pipes and the physical memory. A file is its index in the table. A pipe is an object at the address of the page
  it was allocated; its page is taken from and given back to the page allocator.

  Reading and writing may go to sleep on a pipe with part of the work done: the result then has the channel and the bytes still
  to be written, and the call takes up there when woken. Calls of \<^verbatim>\<open>wakeup\<close> are recorded as in the buffer cache.
\<close>

definition NFILE :: nat where "NFILE = 100"

datatype fdtype = FD_NONE | FD_PIPE | FD_INODE

record kfile =
  f_type :: fdtype
  f_ref :: int
  f_readable :: bool
  f_writable :: bool
  f_pipe :: addr
  f_ip :: "nat option"
  f_off :: "32 word"

record kst = consst +
  ft_file :: "nat \<Rightarrow> kfile"
  ft_pipe :: "addr \<Rightarrow> pipe"
  k_mem :: kmem

text \<open>The result of a call that may sleep: what it returns with the bytes read, or the channel it sleeps on with the bytes left.\<close>

datatype fres = FDone int "byte list" | FSleep chan "byte list"

definition upd_file :: "nat \<Rightarrow> (kfile \<Rightarrow> kfile) \<Rightarrow> 'a kst_scheme \<Rightarrow> 'a kst_scheme" where
  "upd_file f g s = s\<lparr>ft_file := (ft_file s)(f := g (ft_file s f))\<rparr>"

subsection \<open>The file table\<close>

definition filealloc :: "'a kst_scheme \<Rightarrow> nat option \<times> 'a kst_scheme" where
  "filealloc s =
     (case List.find (\<lambda>f. f_ref (ft_file s f) = 0) [0..<NFILE] of
        Some f \<Rightarrow> (Some f, upd_file f (\<lambda>x. x\<lparr>f_ref := 1\<rparr>) s)
      | None \<Rightarrow> (None, s))"

definition filedup :: "nat \<Rightarrow> 'a kst_scheme \<Rightarrow> 'a kst_scheme res" where
  "filedup f s =
     (if f_ref (ft_file s f) < 1 then Panic ''filedup'' else Ok (upd_file f (\<lambda>x. x\<lparr>f_ref := f_ref x + 1\<rparr>) s))"

text \<open>\<^verbatim>\<open>pipeclose\<close> on the pipe at \<open>p\<close>: the channel is woken, and the page freed with the last end.\<close>

definition close_pipe :: "addr \<Rightarrow> addr \<Rightarrow> bool \<Rightarrow> 'a kst_scheme \<Rightarrow> 'a kst_scheme res" where
  "close_pipe kend p writable s =
     (let (pi, ch, free) = pipeclose (unat p) writable (ft_pipe s p);
          s1 = wake ch (s\<lparr>ft_pipe := (ft_pipe s)(p := pi)\<rparr>) in
      if free then rbind (kfree kend p (k_mem s1)) (\<lambda>k. Ok (s1\<lparr>k_mem := k\<rparr>)) else Ok s1)"

definition fileclose :: "addr \<Rightarrow> nat \<Rightarrow> 'a kst_scheme \<Rightarrow> 'a kst_scheme res" where
  "fileclose kend f s =
     (let ff = ft_file s f in
      if f_ref ff < 1 then Panic ''fileclose''
      else if 0 < f_ref ff - 1 then Ok (upd_file f (\<lambda>x. x\<lparr>f_ref := f_ref x - 1\<rparr>) s)
      else let s1 = upd_file f (\<lambda>x. x\<lparr>f_ref := 0, f_type := FD_NONE\<rparr>) s in
        case f_type ff of
          FD_PIPE \<Rightarrow> close_pipe kend (f_pipe ff) (f_writable ff) s1
        | FD_INODE \<Rightarrow> rbind (begin_op s1) (\<lambda>s2. rbind (iput (f_ip ff) s2) end_op)
        | FD_NONE \<Rightarrow> Ok s1)"

definition filestat :: "nat \<Rightarrow> 'a kst_scheme \<Rightarrow> (stat option \<times> 'a kst_scheme) res" where
  "filestat f s =
     (if f_type (ft_file s f) = FD_INODE then
        rbind (ilock (f_ip (ft_file s f)) s) (\<lambda>s1.
        deref (f_ip (ft_file s1 f)) (\<lambda>ip.
        let st = stati (ic_inode s1 ip) in
        rbind (iunlock (f_ip (ft_file s1 f)) s1) (\<lambda>s2. Ok (Some st, s2))))
      else Ok (None, s))"

subsection \<open>Reading and writing\<close>

definition wakes :: "chan list \<Rightarrow> 'a kst_scheme \<Rightarrow> 'a kst_scheme" where
  "wakes chs s = fold wake chs s"

definition fileread :: "'a kst_scheme devsw \<Rightarrow> bool \<Rightarrow> nat \<Rightarrow> 32 word \<Rightarrow> 'a kst_scheme \<Rightarrow> (fres \<times> 'a kst_scheme) res" where
  "fileread dv killed f n s =
     (let ff = ft_file s f in
      if \<not> f_readable ff then Ok (FDone (-1) [], s)
      else case f_type ff of
        FD_PIPE \<Rightarrow>
          (let (st, bs, pi) = piperead (unat (f_pipe ff)) killed (nat (sint n)) (ft_pipe s (f_pipe ff));
               s1 = s\<lparr>ft_pipe := (ft_pipe s)(f_pipe ff := pi)\<rparr> in
           case st of PRet r chs \<Rightarrow> Ok (FDone r bs, wakes chs s1) | PSleep _ ch chs \<Rightarrow> Ok (FSleep ch [], wakes chs s1))
      | FD_INODE \<Rightarrow>
          rbind (ilock (f_ip ff) s) (\<lambda>s1.
          deref (f_ip ff) (\<lambda>ip.
          rbind (readi dv ip (f_off ff) n s1) (\<lambda>(r, bs, s2).
          let s3 = (if 0 < r then upd_file f (\<lambda>x. x\<lparr>f_off := f_off x + of_int r\<rparr>) s2 else s2) in
          rbind (iunlock (f_ip ff) s3) (\<lambda>s4. Ok (FDone r bs, s4)))))
      | FD_NONE \<Rightarrow> Panic ''fileread'')"

text \<open>The loop of \<^verbatim>\<open>filewrite\<close> over transactions of at most \<open>max\<close> bytes; the result is the number of bytes written.\<close>

definition FWMAX :: int where "FWMAX = ((int LOGSIZE - 1 - 1 - 2) div 2) * 512"

fun filewrite_loop :: "nat \<Rightarrow> 'a kst_scheme devsw \<Rightarrow> nat \<Rightarrow> byte list \<Rightarrow> int \<Rightarrow> int \<Rightarrow> 'a kst_scheme \<Rightarrow> (int \<times> 'a kst_scheme) res" where
  "filewrite_loop fuel dv f bs i n s =
     (if i < n then
        (case fuel of 0 \<Rightarrow> Diverge
         | Suc fl \<Rightarrow>
           let n1 = (if FWMAX < n - i then FWMAX else n - i) in
           rbind (begin_op s) (\<lambda>s1.
           rbind (ilock (f_ip (ft_file s1 f)) s1) (\<lambda>s2.
           deref (f_ip (ft_file s2 f)) (\<lambda>ip.
           rbind (writei dv ip (take (nat n1) (drop (nat i) bs)) (f_off (ft_file s2 f)) (of_int n1) s2) (\<lambda>(r, s3).
           let s4 = (if 0 < r then upd_file f (\<lambda>x. x\<lparr>f_off := f_off x + of_int r\<rparr>) s3 else s3) in
           rbind (iunlock (f_ip (ft_file s4 f)) s4) (\<lambda>s5.
           rbind (end_op s5) (\<lambda>s6.
           if r < 0 then Ok (i, s6)
           else if r \<noteq> n1 then Panic ''short filewrite''
           else filewrite_loop fl dv f bs (i + r) n s6)))))))
      else Ok (i, s))"

declare filewrite_loop.simps [simp del]

definition filewrite :: "'a kst_scheme devsw \<Rightarrow> bool \<Rightarrow> nat \<Rightarrow> byte list \<Rightarrow> 32 word \<Rightarrow> 'a kst_scheme \<Rightarrow> (fres \<times> 'a kst_scheme) res" where
  "filewrite dv killed f bs n s =
     (let ff = ft_file s f in
      if \<not> f_writable ff then Ok (FDone (-1) [], s)
      else case f_type ff of
        FD_PIPE \<Rightarrow>
          (let (st, pi) = pipewrite (unat (f_pipe ff)) killed (sint n) bs (ft_pipe s (f_pipe ff));
               s1 = s\<lparr>ft_pipe := (ft_pipe s)(f_pipe ff := pi)\<rparr> in
           case st of PRet r chs \<Rightarrow> Ok (FDone r [], wakes chs s1) | PSleep rest ch chs \<Rightarrow> Ok (FSleep ch rest, wakes chs s1))
      | FD_INODE \<Rightarrow>
          rbind (filewrite_loop (nat (sint n)) dv f bs 0 (sint n) s) (\<lambda>(i, s1).
          Ok (FDone (if i = sint n then sint n else -1) [], s1))
      | FD_NONE \<Rightarrow> Panic ''filewrite'')"

subsection \<open>\<^verbatim>\<open>pipealloc\<close>\<close>

definition close_opt :: "addr \<Rightarrow> nat option \<Rightarrow> 'a kst_scheme \<Rightarrow> 'a kst_scheme res" where
  "close_opt kend f s = (case f of None \<Rightarrow> Ok s | Some x \<Rightarrow> fileclose kend x s)"

definition pipealloc :: "addr \<Rightarrow> 'a kst_scheme \<Rightarrow> ((nat \<times> nat) option \<times> 'a kst_scheme) res" where
  "pipealloc kend s =
     (let (f0, s1) = filealloc s;
          (f1, s2) = (case f0 of None \<Rightarrow> (None, s1) | Some _ \<Rightarrow> filealloc s1);
          bad = (\<lambda>s. rbind (close_opt kend f0 s) (\<lambda>t. rbind (close_opt kend f1 t) (\<lambda>t'. Ok (None, t')))) in
      case (f0, f1) of
        (Some a, Some b) \<Rightarrow>
          (let (p, k) = kalloc (k_mem s2); s3 = s2\<lparr>k_mem := k\<rparr> in
           if p = 0 then bad s3
           else let s4 = s3\<lparr>ft_pipe := (ft_pipe s3)(p := pipe_init (ft_pipe s3 p))\<rparr>;
                    s5 = upd_file a (\<lambda>x. x\<lparr>f_type := FD_PIPE, f_readable := True, f_writable := False, f_pipe := p\<rparr>) s4;
                    s6 = upd_file b (\<lambda>x. x\<lparr>f_type := FD_PIPE, f_readable := False, f_writable := True, f_pipe := p\<rparr>) s5
                in Ok (Some (a, b), s6))
      | _ \<Rightarrow> bad s2)"

end
