(* ===== verification/Kernel.thy ===== *)
theory Kernel
  imports File VmOps
begin

text \<open>
  The whole kernel: the process table together with the file system, the console, the open files and the physical memory.
  Operations of the lower layers run on their part of the state; the calls of \<^verbatim>\<open>wakeup\<close> they have recorded are then carried
  out on the process table, in their order. Virtual addresses are translated by the page table the processor has loaded; an access
  that the page table does not allow traps in kernel mode, and the trap handler panics.

  The second part is the life of a process in \<^verbatim>\<open>proc.c\<close>: \<^verbatim>\<open>allocproc\<close>, \<^verbatim>\<open>userinit\<close>, \<^verbatim>\<open>growproc\<close>,
  \<^verbatim>\<open>fork\<close>, \<^verbatim>\<open>exit\<close>, \<^verbatim>\<open>wait\<close> and \<^verbatim>\<open>forkret\<close>. The addresses the linker assigns are the parameter \<open>ld\<close>.
  The trap frame and the saved program counter of a process are fields of its record; the return address below them is
  written to the kernel stack.
\<close>

subsection \<open>State\<close>

record linkmap =
  ld_end :: addr
  ld_data :: addr
  ld_forkret :: addr
  ld_trapret :: addr
  ld_initcode :: addr
  ld_initcode_size :: "32 word"

record kernel = ptable +
  k_st :: kst
  forkret_first :: bool
  kbd_shift :: byte

definition mem_run :: "(kmem \<Rightarrow> ('r \<times> kmem) res) \<Rightarrow> kernel \<Rightarrow> ('r \<times> kernel) res" where
  "mem_run f s = rbind (f (k_mem (k_st s))) (\<lambda>(r, k). Ok (r, s\<lparr>k_st := (k_st s)\<lparr>k_mem := k\<rparr>\<rparr>))"

definition mem_do :: "(kmem \<Rightarrow> kmem res) \<Rightarrow> kernel \<Rightarrow> kernel res" where
  "mem_do f s = rbind (f (k_mem (k_st s))) (\<lambda>k. Ok (s\<lparr>k_st := (k_st s)\<lparr>k_mem := k\<rparr>\<rparr>))"

text \<open>The wakeups recorded while \<open>f\<close> ran are carried out when it has returned.\<close>

definition deliver :: "nat \<Rightarrow> kernel \<Rightarrow> kernel res" where
  "deliver c s =
     rfold (wakeup c) (bc_wakeups (k_st s)) (s\<lparr>k_st := (k_st s)\<lparr>bc_wakeups := []\<rparr>\<rparr>)"

definition kdo :: "nat \<Rightarrow> (kst \<Rightarrow> ('r \<times> kst) res) \<Rightarrow> kernel \<Rightarrow> ('r \<times> kernel) res" where
  "kdo c f s =
     rbind (f ((k_st s)\<lparr>bc_wakeups := []\<rparr>)) (\<lambda>(r, st).
     rbind (deliver c (s\<lparr>k_st := st\<rparr>)) (\<lambda>s1. Ok (r, s1)))"

definition kact :: "nat \<Rightarrow> (kst \<Rightarrow> kst res) \<Rightarrow> kernel \<Rightarrow> kernel res" where
  "kact c f s = rbind (f ((k_st s)\<lparr>bc_wakeups := []\<rparr>)) (\<lambda>st. deliver c (s\<lparr>k_st := st\<rparr>))"

definition bytes_of :: "string \<Rightarrow> byte list" where
  "bytes_of cs = map of_char cs"

definition kprintf :: "nat \<Rightarrow> string \<Rightarrow> parg list \<Rightarrow> kernel \<Rightarrow> kernel res" where
  "kprintf c fmt args s = kact c (cprintf (bytes_of fmt) args) s"

text \<open>The device switch as the current process sees it: reading the console looks at its \<^verbatim>\<open>killed\<close>.\<close>

definition kdev :: "nat \<Rightarrow> kernel \<Rightarrow> kst devsw" where
  "kdev p s = consoleinit (p_killed (pt_proc s p)) devsw0"

subsection \<open>Virtual memory accesses\<close>

definition vaddr :: "nat \<Rightarrow> addr \<Rightarrow> kernel \<Rightarrow> 32 word \<Rightarrow> addr res" where
  "vaddr c va s perm =
     (let e = pte_of (km_mem (k_mem (k_st s))) (p2v (c_cr3 (cpus s c))) va in
      if e AND perm = perm then Ok (p2v (PTE_ADDR e) + (va - PGROUNDDOWN va)) else Panic ''trap'')"

definition vload :: "nat \<Rightarrow> addr \<Rightarrow> kernel \<Rightarrow> byte res" where
  "vload c va s = rbind (vaddr c va s PTE_P) (\<lambda>a. Ok (km_mem (k_mem (k_st s)) a))"

definition vstore :: "nat \<Rightarrow> addr \<Rightarrow> byte \<Rightarrow> kernel \<Rightarrow> kernel res" where
  "vstore c va b s =
     rbind (vaddr c va s (PTE_P OR PTE_W)) (\<lambda>a. mem_do (\<lambda>k. Ok (k\<lparr>km_mem := (km_mem k)(a := b)\<rparr>)) s)"

fun vloads :: "nat \<Rightarrow> nat \<Rightarrow> addr \<Rightarrow> kernel \<Rightarrow> byte list res" where
  "vloads c 0 va s = Ok []"
| "vloads c (Suc n) va s = rbind (vload c va s) (\<lambda>b. rbind (vloads c n (va + 1) s) (\<lambda>bs. Ok (b # bs)))"

fun vstores :: "nat \<Rightarrow> byte list \<Rightarrow> addr \<Rightarrow> kernel \<Rightarrow> kernel res" where
  "vstores c [] va s = Ok s"
| "vstores c (b # bs) va s = rbind (vstore c va b s) (vstores c bs (va + 1))"

definition word_of :: "byte list \<Rightarrow> 32 word" where
  "word_of bs = ucast (bs ! 0) OR push_bit 8 (ucast (bs ! 1)) OR push_bit 16 (ucast (bs ! 2)) OR push_bit 24 (ucast (bs ! 3))"

definition word_bytes :: "32 word \<Rightarrow> byte list" where
  "word_bytes w = [ucast w, ucast (drop_bit 8 w), ucast (drop_bit 16 w), ucast (drop_bit 24 w)]"

definition vload32 :: "nat \<Rightarrow> addr \<Rightarrow> kernel \<Rightarrow> 32 word res" where
  "vload32 c va s = rbind (vloads c 4 va s) (\<lambda>bs. Ok (word_of bs))"

subsection \<open>\<^verbatim>\<open>allocproc\<close>\<close>

text \<open>The sizes of \<^verbatim>\<open>struct trapframe\<close> and \<^verbatim>\<open>struct context\<close>.\<close>

definition TFSIZE :: "32 word" where "TFSIZE = 76"

definition alloc_embryo :: "nat \<Rightarrow> kernel \<Rightarrow> (pptr \<times> kernel) res" where
  "alloc_embryo c s =
     rbind (acquire_pt c s) (\<lambda>s1.
     let p = l_head (pLists s1) Free in
     rbind (slRemove Free p s1) (\<lambda>(rc, s2).
     case p of
       Some q \<Rightarrow>
         if rc = 0 then
           rbind (assertState q UNUSED s2) (\<lambda>_.
           rbind (slAdd Embryo q
                    (upd_proc q (\<lambda>pr. pr\<lparr>p_state := EMBRYO, p_budget := BUDGET, p_priority := 0\<rparr>) s2)) (\<lambda>(rc', s3).
           if rc' \<noteq> 0 then Panic ''rc !=0 allocproc\<newline>''
           else rbind (release_pt c
                   (upd_proc q (\<lambda>pr. pr\<lparr>p_state := EMBRYO, p_pid := nextpid s3\<rparr>) (s3\<lparr>nextpid := nextpid s3 + 1\<rparr>)))
                  (\<lambda>s4. Ok (Some q, s4))))
         else rbind (release_pt c s2) (\<lambda>s3. Ok (None, s3))
     | None \<Rightarrow> rbind (release_pt c s2) (\<lambda>s3. Ok (None, s3))))"

text \<open>An embryo that gets no further goes back to the free list.\<close>

definition drop_embryo :: "nat \<Rightarrow> nat \<Rightarrow> string \<Rightarrow> kernel \<Rightarrow> kernel res" where
  "drop_embryo c p msg s =
     rbind (acquire_pt c s) (\<lambda>s1.
     rbind (slChange Embryo p EMBRYO (\<lambda>pr. pr\<lparr>p_state := UNUSED\<rparr>) (\<lambda>_. Free) msg s1) (\<lambda>s2.
     release_pt c (upd_proc p (\<lambda>pr. pr\<lparr>p_state := UNUSED\<rparr>) s2)))"

definition allocproc :: "linkmap \<Rightarrow> nat \<Rightarrow> kernel \<Rightarrow> (pptr \<times> kernel) res" where
  "allocproc ld c s =
     rbind (alloc_embryo c s) (\<lambda>(r, s1).
     case r of
       None \<Rightarrow> Ok (None, s1)
     | Some p \<Rightarrow>
         rbind (mem_run (\<lambda>k. Ok (kalloc k)) s1) (\<lambda>(stack, s2).
         let s3 = upd_proc p (\<lambda>pr. pr\<lparr>p_kstack := stack\<rparr>) s2 in
         if stack = 0 then
           rbind (kprintf c ''Allocate kernel stack fail, allocproc\<newline>'' [] s3) (\<lambda>s4.
           rbind (drop_embryo c p ''Crazy things happening\<newline>'' s4) (\<lambda>s5. Ok (None, s5)))
         else
           rbind (mem_do (\<lambda>k. Ok (k\<lparr>km_mem := store32 (stack + of_nat KSTACKSIZE - TFSIZE - 4) (ld_trapret ld) (km_mem k)\<rparr>)) s3) (\<lambda>s4.
           Ok (Some p, upd_proc p (\<lambda>pr. pr\<lparr>p_eip := ld_forkret ld, p_start_ticks := ticks s4,
                                           p_cpu_ticks_total := 0, p_cpu_ticks_in := 0\<rparr>) s4))))"

subsection \<open>\<^verbatim>\<open>userinit\<close>\<close>

definition SEG_UCODE :: "16 word" where "SEG_UCODE = 4"
definition SEG_UDATA :: "16 word" where "SEG_UDATA = 5"
definition DPL_USER :: "16 word" where "DPL_USER = 3"
definition FL_IF :: "32 word" where "FL_IF = 0x200"

definition init_tf :: trapframe where
  "init_tf =
     \<lparr>tf_edi = 0, tf_esi = 0, tf_ebp = 0, tf_oesp = 0, tf_ebx = 0, tf_edx = 0, tf_ecx = 0, tf_eax = 0,
      tf_gs = 0, tf_fs = 0, tf_es = push_bit 3 SEG_UDATA OR DPL_USER, tf_ds = push_bit 3 SEG_UDATA OR DPL_USER,
      tf_trapno = 0, tf_err = 0, tf_eip = 0, tf_cs = push_bit 3 SEG_UCODE OR DPL_USER, tf_eflags = FL_IF,
      tf_esp = PGSIZE, tf_ss = push_bit 3 SEG_UDATA OR DPL_USER\<rparr>"

definition userinit :: "nat \<Rightarrow> linkmap \<Rightarrow> nat \<Rightarrow> kernel \<Rightarrow> kernel res" where
  "userinit mp ld c s =
     rbind (getlock c s) (\<lambda>(_, s1).
     rbind (initFreeList c (s1\<lparr>PromoteAtTime := ticks s1 + TICKS_TO_PROMOTE, pLists := initProcessLists mp (pLists s1)\<rparr>)) (\<lambda>s2.
     rbind (freelock c s2) (\<lambda>(_, s3).
     rbind (allocproc ld c s3) (\<lambda>(r, s4).
     deref r (\<lambda>p.
     rbind (mem_run (setupkvm (ld_data ld)) (s4\<lparr>initproc := r\<rparr>)) (\<lambda>(d, s5).
     if d = 0 then Panic ''userinit: out of memory?''
     else
       rbind (mem_do (inituvm d (ld_initcode ld) (ld_initcode_size ld)) (upd_proc p (\<lambda>pr. pr\<lparr>p_pgdir := d\<rparr>) s5)) (\<lambda>s6.
       rbind (kdo c (namei (kdev p s6) None [47])
               (upd_proc p (\<lambda>pr. pr\<lparr>p_sz := PGSIZE, p_tf := init_tf, p_name := ''initcode''\<rparr>) s6)) (\<lambda>(cwd, s7).
       rbind (acquire_pt c (upd_proc p (\<lambda>pr. pr\<lparr>p_cwd := cwd\<rparr>) s7)) (\<lambda>s8.
       rbind (slChange Embryo p EMBRYO (\<lambda>pr. pr\<lparr>p_state := RUNNABLE\<rparr>) ready_of ''userinit \<newline>'' s8) (\<lambda>s9.
       rbind (release_pt c (upd_proc p (\<lambda>pr. pr\<lparr>p_state := RUNNABLE\<rparr>) s9)) (\<lambda>s10.
       Ok ((upd_proc p (\<lambda>pr. pr\<lparr>p_uid := 0, p_gid := 0, p_parent := None\<rparr>) s10)
             \<lparr>pLists := (pLists s10)\<lparr>p_next := (p_next (pLists s10))(p := None)\<rparr>\<rparr>)))))))))))) "

subsection \<open>\<^verbatim>\<open>growproc\<close> and \<^verbatim>\<open>fork\<close>\<close>

definition growproc :: "linkmap \<Rightarrow> nat \<Rightarrow> 32 word \<Rightarrow> kernel \<Rightarrow> (int \<times> kernel) res" where
  "growproc ld c n s =
     with_proc c s (\<lambda>p.
     let sz = p_sz (pt_proc s p); d = p_pgdir (pt_proc s p) in
     rbind (if 0 < sint n then mem_run (allocuvm (ld_end ld) d sz (sz + n)) s
            else if sint n < 0 then mem_run (deallocuvm (ld_end ld) d sz (sz + n)) s
            else Ok (sz, s)) (\<lambda>(sz', s1).
     if sint n \<noteq> 0 \<and> sz' = 0 then Ok (-1, s1)
     else rbind (switchuvm c p (upd_proc p (\<lambda>pr. pr\<lparr>p_sz := sz'\<rparr>) s1)) (\<lambda>s2. Ok (0, s2))))"

definition fork_dup :: "nat \<Rightarrow> nat \<Rightarrow> nat \<Rightarrow> nat \<Rightarrow> kernel \<Rightarrow> kernel res" where
  "fork_dup c p np i s =
     (case p_ofile (pt_proc s p) ! i of
        None \<Rightarrow> Ok s
      | Some f \<Rightarrow> rbind (kact c (filedup f) s) (\<lambda>s1. Ok (upd_proc np (\<lambda>pr. pr\<lparr>p_ofile := (p_ofile pr)[i := Some f]\<rparr>) s1)))"

definition fork :: "linkmap \<Rightarrow> nat \<Rightarrow> kernel \<Rightarrow> (32 word \<times> kernel) res" where
  "fork ld c s =
     rbind (allocproc ld c s) (\<lambda>(r, s1).
     case r of
       None \<Rightarrow> Ok (-1, s1)
     | Some np \<Rightarrow> with_proc c s1 (\<lambda>p.
         rbind (mem_run (copyuvm (ld_end ld) (ld_data ld) (p_pgdir (pt_proc s1 p)) (p_sz (pt_proc s1 p))) s1) (\<lambda>(d, s2).
         let s3 = upd_proc np (\<lambda>pr. pr\<lparr>p_pgdir := d\<rparr>) s2 in
         if d = 0 then
           rbind (mem_do (kfree (ld_end ld) (p_kstack (pt_proc s3 np))) s3) (\<lambda>s4.
           rbind (drop_embryo c np ''FORK: rc != 0'' (upd_proc np (\<lambda>pr. pr\<lparr>p_kstack := 0\<rparr>) s4)) (\<lambda>s5. Ok (-1, s5)))
         else
           let s4 = upd_proc np (\<lambda>pr. pr\<lparr>p_sz := p_sz (pt_proc s3 p), p_parent := Some p,
                                         p_tf := (p_tf (pt_proc s3 p))\<lparr>tf_eax := 0\<rparr>\<rparr>) s3 in
           rbind (rfold (fork_dup c p np) [0..<NOFILE] s4) (\<lambda>s5.
           rbind (kdo c (idup (p_cwd (pt_proc s5 p))) s5) (\<lambda>(cwd, s6).
           let pid = p_pid (pt_proc s6 np);
               s7 = upd_proc np (\<lambda>pr. pr\<lparr>p_cwd := cwd, p_name := take 15 (p_name (pt_proc s6 p)),
                                         p_uid := p_uid (pt_proc s6 p), p_gid := p_gid (pt_proc s6 p)\<rparr>) s6 in
           rbind (acquire_pt c s7) (\<lambda>s8.
           rbind (slChange Embryo np EMBRYO
                    (\<lambda>pr. pr\<lparr>p_state := RUNNABLE, p_priority := p_priority (pt_proc s8 p)\<rparr>) ready_of ''state list error FORK'' s8) (\<lambda>s9.
           rbind (release_pt c (upd_proc np (\<lambda>pr. pr\<lparr>p_state := RUNNABLE\<rparr>) s9)) (\<lambda>s10.
           Ok (pid, s10))))))))) "

subsection \<open>\<^verbatim>\<open>exit\<close>\<close>

definition chan_of :: "pptr \<Rightarrow> chan" where
  "chan_of p = (case p of None \<Rightarrow> ChNull | Some q \<Rightarrow> ChProc q)"

definition exit_close :: "linkmap \<Rightarrow> nat \<Rightarrow> nat \<Rightarrow> nat \<Rightarrow> kernel \<Rightarrow> kernel res" where
  "exit_close ld c p fd s =
     (case p_ofile (pt_proc s p) ! fd of
        None \<Rightarrow> Ok s
      | Some f \<Rightarrow> rbind (kact c (fileclose (ld_end ld) f) s)
          (\<lambda>s1. Ok (upd_proc p (\<lambda>pr. pr\<lparr>p_ofile := (p_ofile pr)[fd := None]\<rparr>) s1)))"

text \<open>One list of processes: the children of \<open>p\<close> go to \<^verbatim>\<open>initproc\<close>, which is woken for each one if \<open>zombies\<close>.\<close>

fun reparent_loop :: "nat \<Rightarrow> bool \<Rightarrow> nat \<Rightarrow> pptr \<Rightarrow> 'a ptable_scheme \<Rightarrow> 'a ptable_scheme res" where
  "reparent_loop fuel zombies p None s = Ok s"
| "reparent_loop 0 zombies p (Some q) s = Diverge"
| "reparent_loop (Suc fuel) zombies p (Some q) s =
     rbind (if p_parent (pt_proc s q) = Some p then
              let s1 = upd_proc q (\<lambda>pr. pr\<lparr>p_parent := initproc s\<rparr>) s in
              if zombies then wakeup1 (chan_of (initproc s)) s1 else Ok s1
            else Ok s)
       (\<lambda>s2. reparent_loop fuel zombies p (p_next (pLists s2) q) s2)"

definition reparent :: "nat \<Rightarrow> slist \<Rightarrow> 'a ptable_scheme \<Rightarrow> 'a ptable_scheme res" where
  "reparent p l s = reparent_loop NPROC (l = Zombie) p (l_head (pLists s) l) s"

definition exit_lists :: "nat \<Rightarrow> slist list" where
  "exit_lists mp = [Running] @ map Ready [0..<mp + 1] @ [Embryo, Sleep, Zombie]"

text \<open>The part of \<^verbatim>\<open>exit\<close> under the lock, up to the switch to the scheduler.\<close>

definition exit_table :: "nat \<Rightarrow> nat \<Rightarrow> nat \<Rightarrow> 'a ptable_scheme \<Rightarrow> (bool \<times> 'a ptable_scheme) res" where
  "exit_table mp c p s =
     rbind (acquire_pt c s) (\<lambda>s1.
     rbind (wakeup1 (chan_of (p_parent (pt_proc s1 p))) s1) (\<lambda>s2.
     rbind (rfold (reparent p) (exit_lists mp) s2) (\<lambda>s3.
     rbind (slChange Running p RUNNING (\<lambda>pr. pr\<lparr>p_state := ZOMBIE\<rparr>) (\<lambda>_. Zombie) ''exit\<newline>'' s3) (sched mp c))))"

definition exit :: "nat \<Rightarrow> linkmap \<Rightarrow> nat \<Rightarrow> kernel \<Rightarrow> (bool \<times> kernel) res" where
  "exit mp ld c s =
     with_proc c s (\<lambda>p.
     if initproc s = Some p then Panic ''init exiting''
     else
       rbind (rfold (exit_close ld c p) [0..<NOFILE] s) (\<lambda>s1.
       rbind (kact c (\<lambda>st. rbind (begin_op st) (\<lambda>st1. rbind (iput (p_cwd (pt_proc s1 p)) st1) end_op)) s1) (\<lambda>s2.
       exit_table mp c p (upd_proc p (\<lambda>pr. pr\<lparr>p_cwd := None\<rparr>) s2))))"

subsection \<open>\<^verbatim>\<open>wait\<close>\<close>

text \<open>
  The field \<^verbatim>\<open>pid\<close> of a parent. It is at offset 16 of \<^verbatim>\<open>struct proc\<close>; for the null pointer the processor reads
  the word at address 16 of the current address space.
\<close>

definition ppid :: "nat \<Rightarrow> nat \<Rightarrow> kernel \<Rightarrow> 32 word res" where
  "ppid c q s = (case p_parent (pt_proc s q) of Some r \<Rightarrow> Ok (p_pid (pt_proc s r)) | None \<Rightarrow> vload32 c 16 s)"

fun child_loop :: "nat \<Rightarrow> nat \<Rightarrow> 32 word \<Rightarrow> pptr \<Rightarrow> kernel \<Rightarrow> pptr res" where
  "child_loop fuel c pid None s = Ok None"
| "child_loop 0 c pid (Some q) s = Diverge"
| "child_loop (Suc fuel) c pid (Some q) s =
     rbind (ppid c q s) (\<lambda>pp. if pp = pid then Ok (Some q) else child_loop fuel c pid (p_next (pLists s) q) s)"

definition find_child :: "nat \<Rightarrow> 32 word \<Rightarrow> slist \<Rightarrow> kernel \<Rightarrow> pptr res" where
  "find_child c pid l s = child_loop NPROC c pid (l_head (pLists s) l) s"

definition reap :: "linkmap \<Rightarrow> nat \<Rightarrow> nat \<Rightarrow> kernel \<Rightarrow> (32 word \<times> kernel) res" where
  "reap ld c q s =
     rbind (slRemove Zombie (Some q) s) (\<lambda>(rc, s1).
     let pid = p_pid (pt_proc s1 q) in
     rbind (mem_do (kfree (ld_end ld) (p_kstack (pt_proc s1 q))) s1) (\<lambda>s2.
     rbind (assertState q ZOMBIE s2) (\<lambda>_.
     let s3 = upd_proc q (\<lambda>pr. pr\<lparr>p_kstack := 0, p_state := UNUSED\<rparr>) s2 in
     rbind (mem_do (freevm (ld_end ld) (p_pgdir (pt_proc s3 q))) s3) (\<lambda>s4.
     rbind (slAdd Free q (upd_proc q (\<lambda>pr. pr\<lparr>p_pid := 0, p_parent := None, p_name := [], p_killed := False\<rparr>) s4)) (\<lambda>(rc', s5).
     if rc + rc' \<noteq> 0 then Panic ''wait error\<newline>''
     else rbind (release_pt c s5) (\<lambda>s6. Ok (pid, s6)))))))"

datatype wres = WDone "32 word" | WSleep bool bool

definition wait_lists :: "nat \<Rightarrow> slist list" where
  "wait_lists mp = map Ready [0..<mp + 1] @ [Sleep, Running, Embryo]"

text \<open>
  One round of the loop with the lock held. A process that goes to sleep takes up the loop again with the interrupt flag
  and the value of \<^verbatim>\<open>havekids\<close> that the result carries; \<^verbatim>\<open>havekids\<close> is not reset in between.
\<close>

definition wait_round :: "nat \<Rightarrow> linkmap \<Rightarrow> nat \<Rightarrow> bool \<Rightarrow> kernel \<Rightarrow> (wres \<times> kernel) res" where
  "wait_round mp ld c havekids s =
     with_proc c s (\<lambda>p.
     let pid = p_pid (pt_proc s p) in
     rbind (find_child c pid Zombie s) (\<lambda>z. case z of
       Some q \<Rightarrow> rbind (reap ld c q s) (\<lambda>(r, s1). Ok (WDone r, s1))
     | None \<Rightarrow>
         rbind (rfold (\<lambda>l hk. rbind (find_child c pid l s) (\<lambda>r. Ok (hk \<or> r \<noteq> None))) (wait_lists mp) havekids) (\<lambda>hk.
         if \<not> hk \<or> p_killed (pt_proc s p) then rbind (release_pt c s) (\<lambda>s1. Ok (WDone (-1), s1))
         else rbind (sleep mp c (ChProc p) PtableLock s) (\<lambda>(intena, _, s1). Ok (WSleep intena hk, s1)))))"

definition wait :: "nat \<Rightarrow> linkmap \<Rightarrow> nat \<Rightarrow> kernel \<Rightarrow> (wres \<times> kernel) res" where
  "wait mp ld c s = rbind (acquire_pt c s) (wait_round mp ld c False)"

definition wait_resume :: "nat \<Rightarrow> linkmap \<Rightarrow> nat \<Rightarrow> bool \<Rightarrow> bool \<Rightarrow> kernel \<Rightarrow> (wres \<times> kernel) res" where
  "wait_resume mp ld c intena havekids s =
     rbind (sleep_resume c intena PtableLock s) (\<lambda>(_, s1). wait_round mp ld c havekids s1)"

subsection \<open>\<^verbatim>\<open>forkret\<close>\<close>

definition forkret :: "nat \<Rightarrow> kernel \<Rightarrow> kernel res" where
  "forkret c s =
     rbind (release_pt c s) (\<lambda>s1.
     if forkret_first s1 then
       kact c (\<lambda>st. rbind (iinit ROOTDEV st) (initlog ROOTDEV)) (s1\<lparr>forkret_first := False\<rparr>)
     else Ok s1)"

end
