(* ===== verification/ProcOps.thy ===== *)
theory ProcOps
  imports Kernel SchedOps
begin

text \<open>
  What the operations of a process's life do to the process table and the kernel state: \<open>exit_table\<close>, \<open>wait_round\<close>,
  \<open>allocproc\<close> and \<open>fork\<close>.
\<close>

text \<open>Updates of the fields of the state in a fixed order.\<close>

lemma kernel_update_order [simp]:
  fixes s :: kernel
  shows "s\<lparr>k_st := a, pt_proc := b\<rparr> = s\<lparr>pt_proc := b, k_st := a\<rparr>"
    "s\<lparr>k_st := a, pLists := d\<rparr> = s\<lparr>pLists := d, k_st := a\<rparr>"
    "s\<lparr>k_st := a, cpus := e\<rparr> = s\<lparr>cpus := e, k_st := a\<rparr>"
    "s\<lparr>k_st := a, pt_lock := f\<rparr> = s\<lparr>pt_lock := f, k_st := a\<rparr>"
    "s\<lparr>k_st := a, nextpid := g\<rparr> = s\<lparr>nextpid := g, k_st := a\<rparr>"
  by simp_all

lemma kernel_sel [simp]:
  "k_st (upd_proc p f s) = k_st s" "k_st (upd_cpu c g s) = k_st s" "k_st (lock_state c s) = k_st s"
  by (simp_all add: upd_proc_def upd_cpu_def lock_state_def)

subsection \<open>Passing children to \<^verbatim>\<open>initproc\<close>\<close>

definition reparented :: "nat \<Rightarrow> pptr \<Rightarrow> nat set \<Rightarrow> (nat \<Rightarrow> proc) \<Rightarrow> nat \<Rightarrow> proc" where
  "reparented p i X ps = (\<lambda>q. if q \<in> X \<and> p_parent (ps q) = Some p then (ps q)\<lparr>p_parent := i\<rparr> else ps q)"

lemma reparented_fields [simp]:
  "p_state (reparented p i X ps q) = p_state (ps q)" "p_priority (reparented p i X ps q) = p_priority (ps q)"
  "p_chan (reparented p i X ps q) = p_chan (ps q)"
  by (simp_all add: reparented_def)

lemma reparented_empty [simp]: "reparented p i {} ps = ps"
  by (simp add: reparented_def)

lemma reparented_un:
  "X \<inter> Y = {} \<Longrightarrow> reparented p i Y (reparented p i X ps) = reparented p i (X \<union> Y) ps"
  by (auto simp: reparented_def fun_eq_iff)

lemma reparented_insert:
  "q \<notin> Y \<Longrightarrow> reparented p i Y (if p_parent (ps q) = Some p then ps(q := (ps q)\<lparr>p_parent := i\<rparr>) else ps) = reparented p i (insert q Y) ps"
  by (auto simp: reparented_def fun_eq_iff)

lemma table_ok_reparented:
  "table_ok mp s A \<Longrightarrow> table_ok mp (s\<lparr>pt_proc := reparented p i X (pt_proc s)\<rparr>) A"
  by (erule table_ok_cong) simp_all

lemma reparent_loop_plain:
  "lists_ok (pLists s) A \<Longrightarrow> A l = ks @ ys \<Longrightarrow> length ys \<le> fuel \<Longrightarrow>
   reparent_loop fuel False p (head_ptr ys) s = Ok (s\<lparr>pt_proc := reparented p (initproc s) (set ys) (pt_proc s)\<rparr>)"
proof (induction ys arbitrary: ks s fuel)
  case Nil
  then show ?case by simp
next
  case (Cons q ys)
  then obtain f where f: "fuel = Suc f" by (cases fuel) auto
  let ?s = "if p_parent (pt_proc s q) = Some p then upd_proc q (\<lambda>pr. pr\<lparr>p_parent := initproc s\<rparr>) s else s"
  have nx: "p_next (pLists s) q = head_ptr ys" using head_ptr_next Cons.prems(1,2) by blast
  have q: "q \<notin> set ys" using lists_ok_distinct [OF Cons.prems(1), of l] Cons.prems(2) by simp
  have IH: "reparent_loop f False p (head_ptr ys) ?s = Ok (?s\<lparr>pt_proc := reparented p (initproc ?s) (set ys) (pt_proc ?s)\<rparr>)"
    by (rule Cons.IH [of _ "ks @ [q]"]) (use Cons.prems f in auto)
  have "reparented p (initproc ?s) (set ys) (pt_proc ?s) = reparented p (initproc s) (set (q # ys)) (pt_proc s)"
    using reparented_insert [OF q, of p "initproc s" "pt_proc s"] by (simp add: if_distrib cong: if_cong)
  with IH show ?case using nx by (simp add: f Let_def upd_proc_def split: if_splits)
qed

lemma wake_procs_reparented:
  "wake_procs ch xs (reparented p i X ps) = reparented p i X (wake_procs ch xs ps)"
  by (auto simp: wake_procs_def reparented_def fun_eq_iff)

lemma wake_twice:
  assumes "\<And>x. x \<in> set ys \<Longrightarrow> x \<in> set xs \<and> p_chan (ps x) \<noteq> ch"
  shows "wake_procs ch ys (wake_procs ch xs ps) = wake_procs ch xs ps"
  using assms by (auto simp: wake_procs_def fun_eq_iff)

lemma wake_lists_none: "(\<And>x. x \<in> set xs \<Longrightarrow> p_chan (ps x) \<noteq> ch) \<Longrightarrow> wake_lists ch ps xs A = A"
  by (induction xs) auto

lemma wake_lists_other:
  "l \<noteq> Sleep \<Longrightarrow> list_state l \<noteq> RUNNABLE \<Longrightarrow> wake_lists ch ps xs A l = A l"
  using wake_lists_ready [of l ch ps xs A] by (auto simp: ready_of_def intro: filter_False)

text \<open>The effect on the processes: those that sleep on \<open>ch\<close> are woken if there is a child on the list.\<close>

definition has_child :: "nat \<Rightarrow> nat list \<Rightarrow> (nat \<Rightarrow> proc) \<Rightarrow> bool" where
  "has_child p ys ps \<longleftrightarrow> (\<exists>q \<in> set ys. p_parent (ps q) = Some p)"

definition zombie_procs :: "nat \<Rightarrow> pptr \<Rightarrow> nat list \<Rightarrow> nat list \<Rightarrow> (nat \<Rightarrow> proc) \<Rightarrow> nat \<Rightarrow> proc" where
  "zombie_procs p i zs xs ps =
     (if has_child p zs ps then wake_procs (chan_of i) xs (reparented p i (set zs) ps) else reparented p i (set zs) ps)"

definition zombie_lists :: "nat \<Rightarrow> pptr \<Rightarrow> nat list \<Rightarrow> (nat \<Rightarrow> proc) \<Rightarrow> (slist \<Rightarrow> nat list) \<Rightarrow> slist \<Rightarrow> nat list" where
  "zombie_lists p i zs ps A = (if has_child p zs ps then wake_lists (chan_of i) ps (A Sleep) A else A)"

lemma zombie_procs_step:
  assumes q: "q \<notin> set ys" "q \<notin> set xs" and child: "p_parent (ps q) = Some p" and dj: "set xs \<inter> set ys = {}"
    and ps2: "ps2 = wake_procs (chan_of i) xs (ps(q := (ps q)\<lparr>p_parent := i\<rparr>))"
    and xs2: "xs2 = filter (\<lambda>x. p_chan (ps x) \<noteq> chan_of i) xs"
  shows "zombie_procs p i ys xs2 ps2 = zombie_procs p i (q # ys) xs ps"
proof -
  let ?ch = "chan_of i"
  have r: "reparented p i (set ys) ps2 = wake_procs ?ch xs (reparented p i (set (q # ys)) ps)"
    using reparented_insert [OF q(1), of p i ps] child by (simp add: ps2 wake_procs_reparented [symmetric])
  have "wake_procs ?ch xs2 (wake_procs ?ch xs (reparented p i (set (q # ys)) ps)) = wake_procs ?ch xs (reparented p i (set (q # ys)) ps)"
    by (rule wake_twice) (auto simp: xs2)
  then have "zombie_procs p i ys xs2 ps2 = wake_procs ?ch xs (reparented p i (set (q # ys)) ps)"
    by (simp add: zombie_procs_def r)
  then show ?thesis using child by (simp add: zombie_procs_def has_child_def)
qed

lemma reparent_loop_zombie:
  "table_ok mp s A \<Longrightarrow> A Zombie = ks @ ys \<Longrightarrow> length ys \<le> fuel \<Longrightarrow>
   \<exists>ls. reparent_loop fuel True p (head_ptr ys) s =
          Ok (s\<lparr>pt_proc := zombie_procs p (initproc s) ys (A Sleep) (pt_proc s), pLists := ls\<rparr>) \<and>
        table_ok mp (s\<lparr>pt_proc := zombie_procs p (initproc s) ys (A Sleep) (pt_proc s), pLists := ls\<rparr>)
          (zombie_lists p (initproc s) ys (pt_proc s) A)"
proof (induction ys arbitrary: ks s A fuel)
  case Nil
  then show ?case by (intro exI [of _ "pLists s"]) (simp add: zombie_procs_def zombie_lists_def has_child_def)
next
  case (Cons q ys)
  then obtain f where f: "fuel = Suc f" by (cases fuel) auto
  note lo = table_ok_lists [OF Cons.prems(1)]
  have nx: "p_next (pLists s) q = head_ptr ys" using head_ptr_next [OF lo Cons.prems(2)] .
  have q: "q \<notin> set ys" using table_ok_distinct [OF Cons.prems(1), of Zombie] Cons.prems(2) by simp
  have qz: "q \<in> set (A Zombie)" "set ys \<subseteq> set (A Zombie)" using Cons.prems(2) by auto
  have sz: "x \<notin> set (A Sleep)" if "x \<in> set (A Zombie)" for x using table_ok_same [OF Cons.prems(1) that] by blast
  show ?case
  proof (cases "p_parent (pt_proc s q) = Some p")
    case False
    have "has_child p (q # ys) (pt_proc s) = has_child p ys (pt_proc s)" using False by (simp add: has_child_def)
    moreover have "reparented p (initproc s) (set (q # ys)) (pt_proc s) = reparented p (initproc s) (set ys) (pt_proc s)"
      using False by (auto simp: reparented_def fun_eq_iff)
    ultimately have e: "zombie_procs p (initproc s) (q # ys) (A Sleep) (pt_proc s) = zombie_procs p (initproc s) ys (A Sleep) (pt_proc s)"
        "zombie_lists p (initproc s) (q # ys) (pt_proc s) A = zombie_lists p (initproc s) ys (pt_proc s) A"
      by (simp_all add: zombie_procs_def zombie_lists_def)
    from Cons.IH [OF Cons.prems(1), of "ks @ [q]" f] Cons.prems(2,3) show ?thesis
      using False nx by (simp add: f e)
  next
    case True
    let ?ch = "chan_of (initproc s)"
    define s1 where "s1 = upd_proc q (\<lambda>pr. pr\<lparr>p_parent := initproc s\<rparr>) s"
    define ps2 where "ps2 = wake_procs ?ch (A Sleep) (pt_proc s1)"
    define A2 where "A2 = wake_lists ?ch (pt_proc s1) (A Sleep) A"
    have s1: "pt_proc s1 = (pt_proc s)(q := (pt_proc s q)\<lparr>p_parent := initproc s\<rparr>)" "initproc s1 = initproc s"
      by (simp_all add: s1_def)
    have ok1: "table_ok mp s1 A" unfolding s1_def using Cons.prems(1) by (rule table_ok_upd_proc) simp_all
    obtain ls1 where w: "wakeup1 ?ch s1 = Ok (s1\<lparr>pt_proc := ps2, pLists := ls1\<rparr>)"
      and ok2: "table_ok mp (s1\<lparr>pt_proc := ps2, pLists := ls1\<rparr>) A2"
      using wakeup1_ok [OF ok1, of ?ch] unfolding ps2_def A2_def by blast
    have A2z: "A2 Zombie = (ks @ [q]) @ ys" using Cons.prems(2) by (simp add: A2_def wake_lists_other)
    have wl: "A2 = wake_lists ?ch (pt_proc s) (A Sleep) A"
      unfolding A2_def by (rule wake_lists_cong) (use sz [OF qz(1)] s1 in auto)
    have A2s: "A2 Sleep = filter (\<lambda>x. p_chan (pt_proc s x) \<noteq> ?ch) (A Sleep)"
      unfolding wl using wake_lists_sleep [of "[]" "A Sleep" A ?ch "pt_proc s"] table_ok_distinct [OF Cons.prems(1), of Sleep]
      by simp
    have nx2: "p_next ls1 q = head_ptr ys"
      using head_ptr_next [OF table_ok_lists [OF ok2], of Zombie ks q ys] A2z by simp
    have fl: "length ys \<le> f" using Cons.prems(3) f by simp
    obtain ls where r: "reparent_loop f True p (head_ptr ys) (s1\<lparr>pt_proc := ps2, pLists := ls1\<rparr>) =
        Ok (s1\<lparr>pt_proc := zombie_procs p (initproc s) ys (A2 Sleep) ps2, pLists := ls\<rparr>)"
      and ok3: "table_ok mp (s1\<lparr>pt_proc := zombie_procs p (initproc s) ys (A2 Sleep) ps2, pLists := ls\<rparr>)
        (zombie_lists p (initproc s) ys ps2 A2)"
      using Cons.IH [OF ok2 A2z fl] s1 by auto
    have zp: "zombie_procs p (initproc s) ys (A2 Sleep) ps2 = zombie_procs p (initproc s) (q # ys) (A Sleep) (pt_proc s)"
      by (rule zombie_procs_step [OF q sz [OF qz(1)] True _ _ A2s]) (use sz qz(2) in \<open>auto simp: ps2_def s1\<close>)
    have zl: "zombie_lists p (initproc s) ys ps2 A2 = zombie_lists p (initproc s) (q # ys) (pt_proc s) A"
    proof -
      have "wake_lists ?ch ps2 (A2 Sleep) A2 = A2"
        by (rule wake_lists_none) (auto simp: A2s ps2_def wake_procs_def s1)
      then have "zombie_lists p (initproc s) ys ps2 A2 = A2" unfolding zombie_lists_def by simp
      also have "\<dots> = zombie_lists p (initproc s) (q # ys) (pt_proc s) A"
        unfolding wl zombie_lists_def using True by (simp add: has_child_def)
      finally show ?thesis .
    qed
    have "s1\<lparr>pt_proc := ps, pLists := l\<rparr> = s\<lparr>pt_proc := ps, pLists := l\<rparr>" for ps l by (simp add: s1_def upd_proc_def)
    then show ?thesis using r ok3 w nx2 True by (intro exI [of _ ls]) (simp add: f Let_def zp zl s1_def [symmetric])
  qed
qed

lemma rfold_reparent:
  "table_ok mp s A \<Longrightarrow> distinct ls \<Longrightarrow> Zombie \<notin> set ls \<Longrightarrow>
   rfold (reparent p) ls s = Ok (s\<lparr>pt_proc := reparented p (initproc s) (\<Union>l \<in> set ls. set (A l)) (pt_proc s)\<rparr>) \<and>
   table_ok mp (s\<lparr>pt_proc := reparented p (initproc s) (\<Union>l \<in> set ls. set (A l)) (pt_proc s)\<rparr>) A"
proof (induction ls arbitrary: s)
  case (Cons l ls)
  let ?s = "s\<lparr>pt_proc := reparented p (initproc s) (set (A l)) (pt_proc s)\<rparr>"
  have lo: "lists_ok (pLists s) A" using Cons.prems(1) by (rule table_ok_lists)
  have "reparent p l s = Ok ?s"
    using reparent_loop_plain [OF lo, of l "[]" "A l" NPROC p] lists_ok_length [OF lo, of l] lists_ok_head [OF lo, of l] Cons.prems(3)
    by (auto simp: reparent_def)
  moreover have ok: "table_ok mp ?s A" using Cons.prems(1) by (rule table_ok_reparented)
  moreover have "set (A l) \<inter> (\<Union>l \<in> set ls. set (A l)) = {}"
    using table_ok_same [OF Cons.prems(1)] Cons.prems(2) by (auto simp: disjoint_iff)
  ultimately show ?case using Cons.IH [OF ok] Cons.prems(2,3) by (simp add: reparented_un)
qed simp

subsection \<open>\<^verbatim>\<open>exit\<close>\<close>

lemma exit_lists_mem:
  assumes ok: "table_ok mp s A"
  shows "(\<exists>l \<in> set (exit_lists mp). q \<in> set (A l)) \<longleftrightarrow> q < NPROC \<and> p_state (pt_proc s q) \<noteq> UNUSED"
proof
  assume "\<exists>l \<in> set (exit_lists mp). q \<in> set (A l)"
  then obtain l where "q \<in> set (A l)" "l \<noteq> Free" by (auto simp: exit_lists_def)
  then show "q < NPROC \<and> p_state (pt_proc s q) \<noteq> UNUSED"
    using table_ok_bound [OF ok] table_ok_state [OF ok] by (cases l) auto
next
  assume q: "q < NPROC \<and> p_state (pt_proc s q) \<noteq> UNUSED"
  then obtain l where l: "q \<in> set (A l)" using table_ok_cover [OF ok] by blast
  have "l \<noteq> Free" using q table_ok_state [OF ok l] by auto
  then have "l \<in> set (exit_lists mp)"
    using table_ok_level [OF ok l] by (cases l) (auto simp: exit_lists_def level_ok_def)
  then show "\<exists>l \<in> set (exit_lists mp). q \<in> set (A l)" using l by blast
qed

lemma distinct_exit_lists: "distinct (exit_lists mp)"
  by (auto simp: exit_lists_def distinct_map inj_on_def)

text \<open>All children of \<open>p\<close> that are not unused go to \<^verbatim>\<open>initproc\<close>; sleepers on its channel wake if one of them is a zombie.\<close>

lemma reparent_all:
  assumes ok: "table_ok mp s A"
  shows "\<exists>ls. rfold (reparent p) (exit_lists mp) s =
      Ok (s\<lparr>pt_proc := zombie_procs p (initproc s) (A Zombie) (A Sleep)
              (reparented p (initproc s) (\<Union>l \<in> set (exit_lists mp) - {Zombie}. set (A l)) (pt_proc s)), pLists := ls\<rparr>) \<and>
    table_ok mp (s\<lparr>pt_proc := zombie_procs p (initproc s) (A Zombie) (A Sleep)
              (reparented p (initproc s) (\<Union>l \<in> set (exit_lists mp) - {Zombie}. set (A l)) (pt_proc s)), pLists := ls\<rparr>)
      (zombie_lists p (initproc s) (A Zombie) (pt_proc s) A)"
proof -
  define ls where "ls = [Running] @ map Ready [0..<mp + 1] @ [Embryo, Sleep]"
  have e: "exit_lists mp = ls @ [Zombie]" "set (exit_lists mp) - {Zombie} = set ls"
    by (auto simp: exit_lists_def ls_def)
  have d: "distinct ls" "Zombie \<notin> set ls" using distinct_exit_lists [of mp] by (simp_all add: e(1))
  define X where "X = (\<Union>l \<in> set ls. set (A l))"
  have X: "(\<Union>l \<in> set (exit_lists mp) - {Zombie}. set (A l)) = X" unfolding e(2) X_def ..
  define s1 where "s1 = s\<lparr>pt_proc := reparented p (initproc s) X (pt_proc s)\<rparr>"
  have 1: "rfold (reparent p) ls s = Ok s1" "table_ok mp s1 A"
    using rfold_reparent [OF ok d, of p] by (simp_all add: s1_def X_def)
  have dj: "q \<notin> X" if "q \<in> set (A Zombie)" for q
    using table_ok_same [OF ok that] d(2) by (auto simp: X_def)
  have hc: "has_child p (A Zombie) (pt_proc s1) = has_child p (A Zombie) (pt_proc s)"
    using dj by (auto simp: has_child_def s1_def reparented_def)
  have wl: "wake_lists ch (pt_proc s1) (A Sleep) A = wake_lists ch (pt_proc s) (A Sleep) A" for ch
    by (rule wake_lists_cong) (simp add: s1_def)
  obtain ls' where 2: "reparent_loop NPROC True p (head_ptr (A Zombie)) s1 =
        Ok (s1\<lparr>pt_proc := zombie_procs p (initproc s1) (A Zombie) (A Sleep) (pt_proc s1), pLists := ls'\<rparr>)"
      "table_ok mp (s1\<lparr>pt_proc := zombie_procs p (initproc s1) (A Zombie) (A Sleep) (pt_proc s1), pLists := ls'\<rparr>)
        (zombie_lists p (initproc s1) (A Zombie) (pt_proc s1) A)"
    using reparent_loop_zombie [OF 1(2), of "[]" "A Zombie" NPROC p] lists_ok_length [OF table_ok_lists [OF 1(2)], of Zombie]
    by auto
  have zl: "zombie_lists p (initproc s) (A Zombie) (pt_proc s1) A = zombie_lists p (initproc s) (A Zombie) (pt_proc s) A"
    by (simp add: zombie_lists_def hc wl)
  have "reparent p Zombie s1 = reparent_loop NPROC True p (head_ptr (A Zombie)) s1"
    using lists_ok_head [OF table_ok_lists [OF 1(2)], of Zombie] by (simp add: reparent_def)
  then show ?thesis
    using 1 2 zl unfolding X unfolding e(1)
    by (intro exI [of _ ls']) (simp add: rfold_append s1_def)
qed

text \<open>Which sleepers \<^verbatim>\<open>exit\<close> wakes, and what becomes of the other processes.\<close>

definition exit_wakes :: "nat \<Rightarrow> 'a ptable_scheme \<Rightarrow> nat \<Rightarrow> bool" where
  "exit_wakes p s q \<longleftrightarrow>
     p_state (pt_proc s q) = SLEEPING \<and>
     (p_chan (pt_proc s q) = chan_of (p_parent (pt_proc s p)) \<or>
      p_chan (pt_proc s q) = chan_of (initproc s) \<and>
        (\<exists>z < NPROC. p_state (pt_proc s z) = ZOMBIE \<and> p_parent (pt_proc s z) = Some p))"

definition exit_proc :: "nat \<Rightarrow> 'a ptable_scheme \<Rightarrow> nat \<Rightarrow> proc" where
  "exit_proc p s q =
     (pt_proc s q)\<lparr>p_state := (if exit_wakes p s q then RUNNABLE else p_state (pt_proc s q)),
                   p_parent := (if p_parent (pt_proc s q) = Some p \<and> p_state (pt_proc s q) \<noteq> UNUSED
                                then initproc s else p_parent (pt_proc s q))\<rparr>"

lemma exit_procs_eq:
  assumes ok: "table_ok mp s A"
    and ps1: "ps1 = wake_procs (chan_of (p_parent (pt_proc s p))) (A Sleep) (pt_proc s)"
    and A1: "A1 = wake_lists (chan_of (p_parent (pt_proc s p))) (pt_proc s) (A Sleep) A"
    and ok1: "table_ok mp s1 A1" "pt_proc s1 = ps1"
    and ps3: "ps3 = zombie_procs p (initproc s) (A1 Zombie) (A1 Sleep)
        (reparented p (initproc s) (\<Union>l \<in> set (exit_lists mp) - {Zombie}. set (A1 l)) ps1)"
    and q: "q < NPROC"
  shows "ps3 q = exit_proc p s q"
proof -
  let ?i = "initproc s"
  let ?X = "\<Union>l \<in> set (exit_lists mp) - {Zombie}. set (A1 l)"
  have f: "p_parent (ps1 x) = p_parent (pt_proc s x)" "p_chan (ps1 x) = p_chan (pt_proc s x)" for x
    by (simp_all add: ps1 wake_procs_def)
  have st: "p_state (ps1 x) = UNUSED \<longleftrightarrow> p_state (pt_proc s x) = UNUSED" "p_state (ps1 x) = ZOMBIE \<longleftrightarrow> p_state (pt_proc s x) = ZOMBIE"
    if "x < NPROC" for x
    using table_ok_mem [OF ok that, of Sleep] by (auto simp: ps1 wake_procs_def)
  have z: "x \<in> set (A1 Zombie) \<longleftrightarrow> x < NPROC \<and> p_state (pt_proc s x) = ZOMBIE" for x
    using table_ok_mem [OF ok1(1), of x Zombie] table_ok_bound [OF ok1(1), of x Zombie] st ok1(2) by auto
  have X: "x \<in> ?X \<union> set (A1 Zombie) \<longleftrightarrow> x < NPROC \<and> p_state (pt_proc s x) \<noteq> UNUSED" for x
  proof -
    have "Zombie \<in> set (exit_lists mp)" by (simp add: exit_lists_def)
    then have "x \<in> ?X \<union> set (A1 Zombie) \<longleftrightarrow> (\<exists>l \<in> set (exit_lists mp). x \<in> set (A1 l))" by auto
    then show ?thesis using exit_lists_mem [OF ok1(1), of x] st(1) ok1(2) by auto
  qed
  have dj: "?X \<inter> set (A1 Zombie) = {}" using table_ok_same [OF ok1(1)] by (auto simp: disjoint_iff)
  have hc: "has_child p (A1 Zombie) (reparented p ?i ?X ps1) \<longleftrightarrow>
      (\<exists>z < NPROC. p_state (pt_proc s z) = ZOMBIE \<and> p_parent (pt_proc s z) = Some p)"
  proof -
    have "p_parent (reparented p ?i ?X ps1 x) = p_parent (pt_proc s x)" if "x \<in> set (A1 Zombie)" for x
      using dj that f by (auto simp: reparented_def disjoint_iff)
    then show ?thesis using z by (auto simp: has_child_def)
  qed
  have sl: "x \<in> set (A1 Sleep) \<longleftrightarrow> x < NPROC \<and> p_state (ps1 x) = SLEEPING" for x
    using table_ok_mem [OF ok1(1), of x Sleep] table_ok_bound [OF ok1(1), of x Sleep] ok1(2) by auto
  have R: "reparented p ?i (set (A1 Zombie)) (reparented p ?i ?X ps1) = reparented p ?i (?X \<union> set (A1 Zombie)) ps1"
    using dj by (rule reparented_un)
  have s1: "p_state (ps1 q) = (if p_state (pt_proc s q) = SLEEPING \<and> p_chan (pt_proc s q) = chan_of (p_parent (pt_proc s p))
      then RUNNABLE else p_state (pt_proc s q))"
    using table_ok_mem [OF ok q, of Sleep] by (simp add: ps1 wake_procs_def)
  have "ps1 q = (pt_proc s q)\<lparr>p_state := p_state (ps1 q)\<rparr>" by (simp add: ps1 wake_procs_def)
  then have "reparented p ?i (?X \<union> set (A1 Zombie)) ps1 q =
      (pt_proc s q)\<lparr>p_state := p_state (ps1 q), p_parent := p_parent (exit_proc p s q)\<rparr>"
    using X [of q] q f(1) [of q] unfolding reparented_def exit_proc_def by simp
  then show ?thesis
    unfolding ps3 zombie_procs_def hc R using sl [of q] q f(2) [of q] s1
    by (auto simp: wake_procs_def exit_proc_def exit_wakes_def)
qed

lemma exit_proc_lock [simp]: "exit_proc p (lock_state c s) q = exit_proc p s q"
  by (simp add: exit_proc_def exit_wakes_def)

lemma exit_proc_running: "p_state (pt_proc s p) = RUNNING \<Longrightarrow> p_state (exit_proc p s p) = RUNNING"
  by (simp add: exit_proc_def exit_wakes_def)

lemma zombie_lists_other:
  "l \<noteq> Sleep \<Longrightarrow> list_state l \<noteq> RUNNABLE \<Longrightarrow> zombie_lists p i zs ps A l = A l"
  by (simp add: zombie_lists_def wake_lists_other)

lemma exit_reparent_ok:
  assumes ok: "table_ok mp s A"
  shows "\<exists>ps ls B. rbind (wakeup1 (chan_of (p_parent (pt_proc s p))) s) (rfold (reparent p) (exit_lists mp)) =
      Ok (s\<lparr>pt_proc := ps, pLists := ls\<rparr>) \<and> table_ok mp (s\<lparr>pt_proc := ps, pLists := ls\<rparr>) B \<and>
    (\<forall>q < NPROC. ps q = exit_proc p s q) \<and> (\<forall>l. l \<noteq> Sleep \<longrightarrow> list_state l \<noteq> RUNNABLE \<longrightarrow> B l = A l)"
proof -
  let ?ch = "chan_of (p_parent (pt_proc s p))"
  define ps1 where "ps1 = wake_procs ?ch (A Sleep) (pt_proc s)"
  define A1 where "A1 = wake_lists ?ch (pt_proc s) (A Sleep) A"
  obtain ls1 where w: "wakeup1 ?ch s = Ok (s\<lparr>pt_proc := ps1, pLists := ls1\<rparr>)"
    and ok2: "table_ok mp (s\<lparr>pt_proc := ps1, pLists := ls1\<rparr>) A1"
    using wakeup1_ok [OF ok, of ?ch] unfolding ps1_def A1_def by blast
  define ps3 where "ps3 = zombie_procs p (initproc s) (A1 Zombie) (A1 Sleep)
        (reparented p (initproc s) (\<Union>l \<in> set (exit_lists mp) - {Zombie}. set (A1 l)) ps1)"
  define A3 where "A3 = zombie_lists p (initproc s) (A1 Zombie) ps1 A1"
  obtain ls3 where r: "rfold (reparent p) (exit_lists mp) (s\<lparr>pt_proc := ps1, pLists := ls1\<rparr>) = Ok (s\<lparr>pt_proc := ps3, pLists := ls3\<rparr>)"
    and ok3: "table_ok mp (s\<lparr>pt_proc := ps3, pLists := ls3\<rparr>) A3"
    using reparent_all [OF ok2, of p] unfolding ps3_def A3_def by auto
  have "ps3 q = exit_proc p s q" if "q < NPROC" for q
    using exit_procs_eq [OF ok ps1_def A1_def ok2 _ ps3_def that] by simp
  moreover have "A3 l = A l" if "l \<noteq> Sleep" "list_state l \<noteq> RUNNABLE" for l
    using that by (simp add: A3_def A1_def zombie_lists_other wake_lists_other)
  ultimately show ?thesis using w r ok3 by (intro exI [of _ ps3] exI [of _ ls3] exI [of _ A3]) simp
qed

lemma exit_table_ok:
  assumes ok: "table_ok mp s A" and cur: "c_proc (cpus s c) = Some p" and run: "p \<in> set (A Running)"
    and lk: "unlocked c s" "c_ncli (cpus s c) = 0"
  shows "\<exists>s' B. exit_table mp c p s = Ok (c_if (cpus s c), s') \<and> table_ok mp s' B \<and> locked_by c s' \<and>
    B Running = remove1 p (A Running) \<and> B Zombie = A Zombie @ [p] \<and> B Embryo = A Embryo \<and> B Free = A Free \<and>
    p_state (pt_proc s' p) = ZOMBIE \<and> (\<forall>q < NPROC. q \<noteq> p \<longrightarrow> pt_proc s' q = exit_proc p s q)"
proof -
  define s1 where "s1 = lock_state c s"
  have ok1: "table_ok mp s1 A" and lk1: "locked_by c s1" "c_ncli (cpus s1 c) = 1" "c_proc (cpus s1 c) = Some p"
      "c_intena (cpus s1 c) = c_if (cpus s c)"
    using ok lock_state_locked [OF lk(1)] lk(2) cur by (simp_all add: s1_def)
  obtain ps ls3 A3 where r: "rbind (wakeup1 (chan_of (p_parent (pt_proc s1 p))) s1) (rfold (reparent p) (exit_lists mp)) =
        Ok (s1\<lparr>pt_proc := ps, pLists := ls3\<rparr>)"
    and ok3: "table_ok mp (s1\<lparr>pt_proc := ps, pLists := ls3\<rparr>) A3"
    and ps: "\<forall>q < NPROC. ps q = exit_proc p s1 q" and A3: "\<forall>l. l \<noteq> Sleep \<longrightarrow> list_state l \<noteq> RUNNABLE \<longrightarrow> A3 l = A l"
    using exit_reparent_ok [OF ok1, of p] by blast
  define s3 where "s3 = s1\<lparr>pt_proc := ps, pLists := ls3\<rparr>"
  let ?f = "\<lambda>pr. pr\<lparr>p_state := ZOMBIE\<rparr>"
  have run3: "p \<in> set (A3 Running)" using run A3 by simp
  have pr3: "prio_ok mp (pt_proc s3 p)" using table_ok_prio_in [OF ok3 run3] by (simp add: s3_def)
  obtain ls4 where ch: "slChange Running p RUNNING ?f (\<lambda>_. Zombie) ''exit\<newline>'' s3 = Ok ((upd_proc p ?f s3)\<lparr>pLists := ls4\<rparr>)"
    and ok4: "table_ok mp ((upd_proc p ?f s3)\<lparr>pLists := ls4\<rparr>) (moved p Running Zombie A3)"
    using slChange_ok [OF ok3 [folded s3_def] run3, of RUNNING ?f "\<lambda>_. Zombie" "''exit\<newline>''"] pr3 by auto
  define s4 where "s4 = (upd_proc p ?f s3)\<lparr>pLists := ls4\<rparr>"
  have s4: "locked_by c s4" "c_ncli (cpus s4 c) = 1" "c_proc (cpus s4 c) = Some p" "c_intena (cpus s4 c) = c_if (cpus s c)"
      "p_state (pt_proc s4 p) = ZOMBIE" "\<And>q. q \<noteq> p \<Longrightarrow> pt_proc s4 q = ps q"
    using lk1 by (simp_all add: s4_def s3_def locked_by_def)
  obtain ls5 where sc: "sched mp c s4 = Ok (c_intena (cpus s4 c),
        s4\<lparr>pt_proc := (pt_proc s4)(p := resched mp (ticks s4) (pt_proc s4 p)), pLists := ls5\<rparr>)"
    and ok5: "table_ok mp (s4\<lparr>pt_proc := (pt_proc s4)(p := resched mp (ticks s4) (pt_proc s4 p)), pLists := ls5\<rparr>)
        (moved p Running Zombie A3)"
    using sched_ok [OF ok4 [folded s4_def] table_ok_bound [OF ok run] s4(3,1,2)] s4(5) by (auto simp: demote_lists_def)
  define s5 where "s5 = s4\<lparr>pt_proc := (pt_proc s4)(p := resched mp (ticks s4) (pt_proc s4 p)), pLists := ls5\<rparr>"
  have "exit_table mp c p s = Ok (c_if (cpus s c), s5)"
    using r ch sc s4(4)
    by (simp add: exit_table_def acquire_pt_ok [OF lk(1)] s1_def [symmetric] rbind_assoc [symmetric] s3_def [symmetric]
        s4_def [symmetric] s5_def)
  moreover have "locked_by c s5" "p_state (pt_proc s5 p) = ZOMBIE" using s4(1,5) by (simp_all add: s5_def locked_by_def resched_def)
  moreover have "\<forall>q < NPROC. q \<noteq> p \<longrightarrow> pt_proc s5 q = exit_proc p s q" using s4(6) ps by (simp add: s5_def s1_def)
  moreover have "moved p Running Zombie A3 Running = remove1 p (A Running)" "moved p Running Zombie A3 Zombie = A Zombie @ [p]"
      "moved p Running Zombie A3 Embryo = A Embryo" "moved p Running Zombie A3 Free = A Free"
    using A3 by (simp_all add: moved_def Let_def)
  ultimately show ?thesis using ok5 unfolding s5_def [symmetric] by blast
qed

subsection \<open>\<^verbatim>\<open>wait\<close>\<close>

lemma child_loop_ok:
  "lists_ok (pLists s) A \<Longrightarrow> A l = ks @ ys \<Longrightarrow> length ys \<le> fuel \<Longrightarrow> (\<And>q. q \<in> set ys \<Longrightarrow> ppid c q s = Ok (pp q)) \<Longrightarrow>
   child_loop fuel c pid (head_ptr ys) s = Ok (List.find (\<lambda>q. pp q = pid) ys)"
proof (induction ys arbitrary: ks fuel)
  case (Cons q ys)
  then obtain f where f: "fuel = Suc f" by (cases fuel) auto
  have "p_next (pLists s) q = head_ptr ys" using head_ptr_next Cons.prems(1,2) by blast
  moreover have "child_loop f c pid (head_ptr ys) s = Ok (List.find (\<lambda>q. pp q = pid) ys)"
    by (rule Cons.IH [of "ks @ [q]"]) (use Cons.prems f in auto)
  ultimately show ?case using Cons.prems(4) [of q] by (simp add: f)
qed simp

lemma find_child_ok:
  assumes "lists_ok (pLists s) A" "\<And>q. q \<in> set (A l) \<Longrightarrow> ppid c q s = Ok (pp q)"
  shows "find_child c pid l s = Ok (List.find (\<lambda>q. pp q = pid) (A l))"
  using child_loop_ok [OF assms(1), of l "[]" "A l" NPROC c pp pid] assms(2) lists_ok_head [OF assms(1), of l]
    lists_ok_length [OF assms(1), of l] by (simp add: find_child_def)

lemma havekids_ok:
  assumes "lists_ok (pLists s) A" "\<And>q l. l \<in> set ls \<Longrightarrow> q \<in> set (A l) \<Longrightarrow> ppid c q s = Ok (pp q)"
  shows "rfold (\<lambda>l hk. rbind (find_child c pid l s) (\<lambda>r. Ok (hk \<or> r \<noteq> None))) ls hk =
    Ok (hk \<or> (\<exists>l \<in> set ls. \<exists>q \<in> set (A l). pp q = pid))"
  using assms(2)
proof (induction ls arbitrary: hk)
  case (Cons l ls)
  have "find_child c pid l s = Ok (List.find (\<lambda>q. pp q = pid) (A l))"
    by (rule find_child_ok [OF assms(1)]) (rule Cons.prems [of l], simp_all)
  moreover have "(List.find (\<lambda>q. pp q = pid) (A l) \<noteq> None) = (\<exists>q \<in> set (A l). pp q = pid)"
    by (auto simp: find_None_iff simp del: not_None_eq)
  moreover have "rfold (\<lambda>l hk. rbind (find_child c pid l s) (\<lambda>r. Ok (hk \<or> r \<noteq> None))) ls hk' =
      Ok (hk' \<or> (\<exists>l \<in> set ls. \<exists>q \<in> set (A l). pp q = pid))" for hk'
    by (rule Cons.IH) (use Cons.prems in auto)
  ultimately show ?case by (simp del: not_None_eq add: disj_assoc)
qed simp

definition reaped :: "proc \<Rightarrow> proc" where
  "reaped pr = pr\<lparr>p_kstack := 0, p_state := UNUSED, p_pid := 0, p_parent := None, p_name := [], p_killed := False\<rparr>"

lemma reap_ok:
  assumes ok: "table_ok mp s A" and q: "q \<in> set (A Zombie)" and lk: "unlocked c s"
    and m1: "kfree (ld_end ld) (p_kstack (pt_proc s q)) (k_mem (k_st s)) = Ok k1"
    and m2: "freevm (ld_end ld) (p_pgdir (pt_proc s q)) k1 = Ok k2"
  shows "\<exists>s'. reap ld c q (lock_state c s) = Ok (p_pid (pt_proc s q), s') \<and> table_ok mp s' (moved q Zombie Free A) \<and> unlocked c s' \<and>
    pt_proc s' = (pt_proc s)(q := reaped (pt_proc s q)) \<and> k_st s' = (k_st s)\<lparr>k_mem := k2\<rparr>"
proof -
  define s1 where "s1 = lock_state c s"
  have s1: "pt_proc s1 = pt_proc s" "pLists s1 = pLists s" "k_st s1 = k_st s" "cpus s1 = cpus (lock_state c s)" "pt_lock s1 = pt_lock (lock_state c s)"
    by (simp_all add: s1_def)
  have lo: "lists_ok (pLists s1) A" using table_ok_lists [OF ok] s1(2) by simp
  obtain ls1 ls2 where mv: "slRemove Zombie (Some q) s1 = Ok (0, s1\<lparr>pLists := ls1\<rparr>)" "stateListAdd Free q ls1 = Ok (0, ls2)"
      "lists_ok ls2 (moved q Zombie Free A)"
    using slMove_ok [OF lo q, of Free] by blast
  have st: "p_state (pt_proc s q) = ZOMBIE" using table_ok_state [OF ok q] by simp
  define s5 where "s5 = s1\<lparr>pt_proc := (pt_proc s)(q := reaped (pt_proc s q)), pLists := ls2, k_st := (k_st s)\<lparr>k_mem := k2\<rparr>\<rparr>"
  have rel: "release_pt c s5 = Ok (s5\<lparr>cpus := section_cpus c (cpus s), pt_lock := pt_lock s\<rparr>)"
    by (rule release_pt_ok [OF lk]) (simp_all add: s5_def s1)
  have "reap ld c q s1 = rbind (release_pt c s5) (\<lambda>s6. Ok (p_pid (pt_proc s q), s6))"
    using mv(1,2) m1 m2 st
    by (simp add: reap_def mem_do_def s1 assertState_def slAdd_def Let_def upd_proc_def s5_def reaped_def)
  moreover have "procs_ok mp ((pt_proc s)(q := reaped (pt_proc s q))) (moved q Zombie Free A)"
    by (rule procs_ok_moved [OF table_ok_lists [OF ok] _ q])
      (use ok table_ok_prio_in [OF ok q] in \<open>simp_all add: table_ok_def reaped_def prio_ok_def\<close>)
  ultimately show ?thesis
    using rel mv(3) lk unfolding s1_def [symmetric]
    by (simp add: s5_def table_ok_def unlocked_def)
qed

lemma ppid_lock [simp]: "ppid c q (lock_state c s) = ppid c q s"
proof -
  have "k_st (lock_state c s) = k_st s" "c_cr3 (pushcli (cpus s c)) = c_cr3 (cpus s c)"
    by (simp_all add: lock_state_def pushcli_def Let_def)
  then have v: "vload c va (lock_state c s) = vload c va s" for va by (simp add: vload_def vaddr_def)
  have "vloads c n va (lock_state c s) = vloads c n va s" for n va by (induction n arbitrary: va) (simp_all add: v)
  then show ?thesis by (simp add: ppid_def vload32_def split: option.splits)
qed

lemma wait_lists_mem:
  assumes ok: "table_ok mp s A"
  shows "(\<exists>l \<in> set (wait_lists mp). q \<in> set (A l)) \<or> q \<in> set (A Zombie) \<longleftrightarrow> q < NPROC \<and> p_state (pt_proc s q) \<noteq> UNUSED"
proof -
  have "insert Zombie (set (wait_lists mp)) = set (exit_lists mp)" by (auto simp: wait_lists_def exit_lists_def)
  then show ?thesis using exit_lists_mem [OF ok, of q] by (metis insert_iff)
qed

lemma wait_ok:
  assumes ok: "table_ok mp s A" and cur: "c_proc (cpus s c) = Some p" and run: "p \<in> set (A Running)"
    and lk: "unlocked c s" "c_ncli (cpus s c) = 0"
    and pp: "\<And>q. q < NPROC \<Longrightarrow> p_state (pt_proc s q) \<noteq> UNUSED \<Longrightarrow> ppid c q s = Ok (pp q)"
    and none: "List.find (\<lambda>q. pp q = p_pid (pt_proc s p)) (A Zombie) = None"
    and kids: "kids \<longleftrightarrow> (\<exists>q < NPROC. p_state (pt_proc s q) \<noteq> UNUSED \<and> pp q = p_pid (pt_proc s p))"
  shows "if kids \<and> \<not> p_killed (pt_proc s p)
    then \<exists>s'. wait mp ld c s = Ok (WSleep (c_if (cpus s c)) True, s') \<and> table_ok mp s' (moved p Running Sleep A) \<and> locked_by c s' \<and>
           p_state (pt_proc s' p) = SLEEPING \<and> p_chan (pt_proc s' p) = ChProc p \<and> (\<forall>q. q \<noteq> p \<longrightarrow> pt_proc s' q = pt_proc s q)
    else wait mp ld c s = Ok (WDone (-1), s\<lparr>cpus := section_cpus c (cpus s)\<rparr>)"
proof -
  define s1 where "s1 = lock_state c s"
  have s1: "pt_proc s1 = pt_proc s" "c_proc (cpus s1 c) = Some p" "locked_by c s1" "c_ncli (cpus s1 c) = 1" "table_ok mp s1 A"
      "c_intena (cpus s1 c) = c_if (cpus s c)"
    using cur lock_state_locked [OF lk(1)] lk(2) ok by (simp_all add: s1_def)
  have lo: "lists_ok (pLists s1) A" using s1(5) by (rule table_ok_lists)
  have pp1: "ppid c q s1 = Ok (pp q)" if "l \<in> set (wait_lists mp) \<or> l = Zombie" "q \<in> set (A l)" for q l
  proof -
    have "q < NPROC \<and> p_state (pt_proc s q) \<noteq> UNUSED" using that wait_lists_mem [OF ok, of q] by blast
    then show ?thesis using pp [of q] by (simp add: s1_def)
  qed
  have z: "find_child c (p_pid (pt_proc s p)) Zombie s1 = Ok None"
    using find_child_ok [OF lo, of Zombie c pp "p_pid (pt_proc s p)"] pp1 [of Zombie] none by simp
  have nz: "\<not> (\<exists>q \<in> set (A Zombie). pp q = p_pid (pt_proc s p))" using none by (auto simp: find_None_iff)
  have "(\<exists>l \<in> set (wait_lists mp). \<exists>q \<in> set (A l). pp q = p_pid (pt_proc s p)) \<longleftrightarrow> kids"
    unfolding kids using wait_lists_mem [OF ok] nz by blast
  then have hk: "rfold (\<lambda>l hk. rbind (find_child c (p_pid (pt_proc s p)) l s1) (\<lambda>r. Ok (hk \<or> r \<noteq> None))) (wait_lists mp) False = Ok kids"
    by (subst havekids_ok [OF lo, of "wait_lists mp" c pp "p_pid (pt_proc s p)" False]) (use pp1 in auto)
  have w: "wait mp ld c s =
      (if \<not> kids \<or> p_killed (pt_proc s p) then rbind (release_pt c s1) (\<lambda>s1. Ok (WDone (-1), s1))
       else rbind (sleep mp c (ChProc p) PtableLock s1) (\<lambda>(intena, _, s2). Ok (WSleep intena kids, s2)))"
    using z hk s1(1,2) by (simp add: wait_def acquire_pt_ok [OF lk(1)] s1_def [symmetric] wait_round_def with_proc_def Let_def)
  show ?thesis
  proof (cases "kids \<and> \<not> p_killed (pt_proc s p)")
    case True
    have "sleep_locked c PtableLock s1 s1" using s1(3,4) by (simp add: sleep_locked_def)
    from sleep_lists [OF s1(5,2) run this, of "ChProc p"] show ?thesis using True w s1(1,6) by auto
  next
    case False
    then show ?thesis using w section_release_upd(3) [OF lk(1)] by (auto simp: s1_def)
  qed
qed

lemma wait_reap_ok:
  assumes ok: "table_ok mp s A" and cur: "c_proc (cpus s c) = Some p" and lk: "unlocked c s"
    and pp: "\<And>q. q < NPROC \<Longrightarrow> p_state (pt_proc s q) = ZOMBIE \<Longrightarrow> ppid c q s = Ok (pp q)"
    and q: "List.find (\<lambda>q. pp q = p_pid (pt_proc s p)) (A Zombie) = Some q"
    and m: "kfree (ld_end ld) (p_kstack (pt_proc s q)) (k_mem (k_st s)) = Ok k1" "freevm (ld_end ld) (p_pgdir (pt_proc s q)) k1 = Ok k2"
  shows "\<exists>s'. wait mp ld c s = Ok (WDone (p_pid (pt_proc s q)), s') \<and> table_ok mp s' (moved q Zombie Free A) \<and> unlocked c s' \<and>
    pt_proc s' = (pt_proc s)(q := reaped (pt_proc s q)) \<and> k_st s' = (k_st s)\<lparr>k_mem := k2\<rparr>"
proof -
  have pp1: "ppid c x (lock_state c s) = Ok (pp x)" if "x \<in> set (A Zombie)" for x
    using pp [of x] that table_ok_bound [OF ok that] table_ok_state [OF ok that] by simp
  have f: "find_child c (p_pid (pt_proc s p)) Zombie (lock_state c s) = Ok (Some q)"
    using find_child_ok [of "lock_state c s" A Zombie c pp "p_pid (pt_proc s p)"] pp1 table_ok_lists [OF ok] q by simp
  have "q \<in> set (A Zombie)" using q by (auto simp: find_Some_iff)
  from reap_ok [OF ok this lk m] show ?thesis
    using f cur by (auto simp: wait_def acquire_pt_ok [OF lk] wait_round_def with_proc_def)
qed

end
