(* ===== verification/ForkOps.thy ===== *)
theory ForkOps
  imports ProcOps
begin

text \<open>
  \<^verbatim>\<open>allocproc\<close> and \<^verbatim>\<open>fork\<close>: the process table, the reference counts of the open files and of the current directory, and the
  fields of the child.
\<close>

subsection \<open>Operations of the lower layers that wake nobody\<close>

lemma kact_quiet:
  assumes "f ((k_st s)\<lparr>bc_wakeups := []\<rparr>) = Ok st" "bc_wakeups st = []"
  shows "kact c f s = Ok (s\<lparr>k_st := st\<rparr>)"
proof -
  have "st\<lparr>bc_wakeups := []\<rparr> = st" using assms(2) by simp
  then show ?thesis using assms by (simp add: kact_def deliver_def)
qed

lemma kdo_quiet:
  assumes "f ((k_st s)\<lparr>bc_wakeups := []\<rparr>) = Ok (r, st)" "bc_wakeups st = []"
  shows "kdo c f s = Ok (r, s\<lparr>k_st := st\<rparr>)"
proof -
  have "st\<lparr>bc_wakeups := []\<rparr> = st" using assms(2) by simp
  then show ?thesis using assms by (simp add: kdo_def deliver_def)
qed

lemma quiet_st: "bc_wakeups st = [] \<Longrightarrow> st\<lparr>bc_wakeups := []\<rparr> = st"
  by simp

subsection \<open>\<^verbatim>\<open>allocproc\<close>\<close>

lemma procs_ok_cong:
  assumes "procs_ok mp ps A" "\<And>q. p_state (ps' q) = p_state (ps q)" "\<And>q. p_priority (ps' q) = p_priority (ps q)"
  shows "procs_ok mp ps' A"
  using assms by (simp add: procs_ok_def level_ok_def prio_ok_def)

definition embryo :: "32 word \<Rightarrow> proc \<Rightarrow> proc" where
  "embryo pid pr = pr\<lparr>p_budget := BUDGET, p_priority := 0, p_state := EMBRYO, p_pid := pid\<rparr>"

lemma alloc_embryo_ok:
  assumes ok: "table_ok mp s A" and fr: "A Free = p # fr" and lk: "unlocked c s"
  shows "\<exists>ls. alloc_embryo c s = Ok (Some p, s\<lparr>pt_proc := (pt_proc s)(p := embryo (nextpid s) (pt_proc s p)), pLists := ls,
        cpus := section_cpus c (cpus s), nextpid := nextpid s + 1\<rparr>) \<and>
    lists_ok ls (moved p Free Embryo A) \<and> procs_ok mp ((pt_proc s)(p := embryo (nextpid s) (pt_proc s p))) (moved p Free Embryo A)"
proof -
  define s1 where "s1 = lock_state c s"
  have s1: "pt_proc s1 = pt_proc s" "pLists s1 = pLists s" "nextpid s1 = nextpid s" "cpus s1 = cpus (lock_state c s)"
      "pt_lock s1 = pt_lock (lock_state c s)"
    by (simp_all add: s1_def)
  have lo: "lists_ok (pLists s1) A" using table_ok_lists [OF ok] s1(2) by simp
  have p: "p \<in> set (A Free)" by (simp add: fr)
  have hd: "l_head (pLists s1) Free = Some p" using lists_ok_head [OF lo, of Free] fr by simp
  obtain ls1 ls2 where mv: "slRemove Free (Some p) s1 = Ok (0, s1\<lparr>pLists := ls1\<rparr>)" "stateListAdd Embryo p ls1 = Ok (0, ls2)"
      "lists_ok ls2 (moved p Free Embryo A)"
    using slMove_ok [OF lo p, of Embryo] by blast
  have st: "p_state (pt_proc s p) = UNUSED" using table_ok_state [OF ok p] by simp
  define s5 where "s5 = s1\<lparr>pt_proc := (pt_proc s)(p := embryo (nextpid s) (pt_proc s p)), pLists := ls2, nextpid := nextpid s + 1\<rparr>"
  have rel: "release_pt c s5 = Ok (s5\<lparr>cpus := section_cpus c (cpus s), pt_lock := pt_lock s\<rparr>)"
    by (rule release_pt_ok [OF lk]) (simp_all add: s5_def s1)
  have "alloc_embryo c s = rbind (release_pt c s5) (\<lambda>s4. Ok (Some p, s4))"
    using mv(1,2) st hd
    by (simp add: alloc_embryo_def acquire_pt_ok [OF lk] s1_def [symmetric] s1 assertState_def slAdd_def Let_def upd_proc_def s5_def embryo_def)
  moreover have "procs_ok mp ((pt_proc s)(p := embryo (nextpid s) (pt_proc s p))) (moved p Free Embryo A)"
    by (rule procs_ok_moved [OF table_ok_lists [OF ok] _ p])
      (use ok in \<open>simp_all add: table_ok_def embryo_def prio_ok_def\<close>)
  moreover have "s5\<lparr>cpus := section_cpus c (cpus s), pt_lock := pt_lock s\<rparr> =
      s\<lparr>pt_proc := (pt_proc s)(p := embryo (nextpid s) (pt_proc s p)), pLists := ls2, cpus := section_cpus c (cpus s), nextpid := nextpid s + 1\<rparr>"
    by (simp add: s5_def s1_def lock_state_def)
  ultimately show ?thesis using rel mv(3) by (intro exI [of _ ls2]) simp
qed

definition allocated :: "linkmap \<Rightarrow> addr \<Rightarrow> kernel \<Rightarrow> proc \<Rightarrow> proc" where
  "allocated ld stack s pr =
     (embryo (nextpid s) pr)\<lparr>p_kstack := stack, p_eip := ld_forkret ld, p_start_ticks := ticks s, p_cpu_ticks_total := 0, p_cpu_ticks_in := 0\<rparr>"

definition stack_mem :: "linkmap \<Rightarrow> addr \<Rightarrow> kmem \<Rightarrow> kmem" where
  "stack_mem ld stack k = k\<lparr>km_mem := store32 (stack + of_nat KSTACKSIZE - TFSIZE - 4) (ld_trapret ld) (km_mem k)\<rparr>"

lemma allocproc_ok:
  assumes ok: "table_ok mp s A" and fr: "A Free = p # fr" and lk: "unlocked c s"
    and mem: "kalloc (k_mem (k_st s)) = (stack, k1)" "stack \<noteq> 0"
  shows "\<exists>ls. allocproc ld c s = Ok (Some p, s\<lparr>pt_proc := (pt_proc s)(p := allocated ld stack s (pt_proc s p)), pLists := ls,
        cpus := section_cpus c (cpus s), nextpid := nextpid s + 1, k_st := (k_st s)\<lparr>k_mem := stack_mem ld stack k1\<rparr>\<rparr>) \<and>
    lists_ok ls (moved p Free Embryo A) \<and> procs_ok mp ((pt_proc s)(p := allocated ld stack s (pt_proc s p))) (moved p Free Embryo A)"
proof -
  obtain ls where e: "alloc_embryo c s = Ok (Some p, s\<lparr>pt_proc := (pt_proc s)(p := embryo (nextpid s) (pt_proc s p)), pLists := ls,
        cpus := section_cpus c (cpus s), nextpid := nextpid s + 1\<rparr>)"
    and l: "lists_ok ls (moved p Free Embryo A)"
    and pr: "procs_ok mp ((pt_proc s)(p := embryo (nextpid s) (pt_proc s p))) (moved p Free Embryo A)"
    using alloc_embryo_ok [OF ok fr lk] by blast
  have "allocproc ld c s = Ok (Some p, s\<lparr>pt_proc := (pt_proc s)(p := allocated ld stack s (pt_proc s p)), pLists := ls,
        cpus := section_cpus c (cpus s), nextpid := nextpid s + 1, k_st := (k_st s)\<lparr>k_mem := stack_mem ld stack k1\<rparr>\<rparr>)"
    using e mem by (simp add: allocproc_def mem_run_def mem_do_def Let_def upd_proc_def allocated_def stack_mem_def)
  moreover have "procs_ok mp ((pt_proc s)(p := allocated ld stack s (pt_proc s p))) (moved p Free Embryo A)"
    using pr by (rule procs_ok_cong) (simp_all add: allocated_def)
  ultimately show ?thesis using l by blast
qed

subsection \<open>Duplicating the open files\<close>

definition dup_refs :: "nat option list \<Rightarrow> kst \<Rightarrow> kst" where
  "dup_refs fds st = st\<lparr>ft_file := \<lambda>f. (ft_file st f)\<lparr>f_ref := f_ref (ft_file st f) + int (count_list fds (Some f))\<rparr>\<rparr>"

lemma dup_refs_sel [simp]: "bc_wakeups (dup_refs fds st) = bc_wakeups st" "k_mem (dup_refs fds st) = k_mem st"
    "ic_inode (dup_refs fds st) = ic_inode st"
  by (simp_all add: dup_refs_def)

lemma dup_refs_nil [simp]: "dup_refs [] st = st"
  by (simp add: dup_refs_def)

lemma dup_refs_snoc:
  "dup_refs (fds @ [None]) st = dup_refs fds st"
  "upd_file f (\<lambda>x. x\<lparr>f_ref := f_ref x + 1\<rparr>) (dup_refs fds st) = dup_refs (fds @ [Some f]) st"
  by (auto simp: dup_refs_def upd_file_def fun_eq_iff)

definition with_files :: "nat \<Rightarrow> nat option list \<Rightarrow> kernel \<Rightarrow> kernel" where
  "with_files np fds s =
     s\<lparr>pt_proc := (pt_proc s)(np := (pt_proc s np)\<lparr>p_ofile := fds @ replicate (NOFILE - length fds) None\<rparr>), k_st := dup_refs fds (k_st s)\<rparr>"

lemma fork_dup_step:
  assumes np: "np \<noteq> p" and fds: "p_ofile (pt_proc s p) = ofl" "length ofl = NOFILE" and i: "i < NOFILE"
    and q: "bc_wakeups (k_st s) = []" and ref: "\<And>f. Some f \<in> set ofl \<Longrightarrow> 1 \<le> f_ref (ft_file (k_st s) f)"
  shows "fork_dup c p np i (with_files np (take i ofl) s) = Ok (with_files np (take (Suc i) ofl) s)"
proof -
  let ?s = "with_files np (take i ofl) s"
  have tk: "take (Suc i) ofl = take i ofl @ [ofl ! i]" using i fds(2) by (simp add: take_Suc_conv_app_nth)
  have o: "p_ofile (pt_proc ?s p) = ofl" using np fds by (simp add: with_files_def)
  have len: "length (take i ofl) = i" using i fds(2) by simp
  have rep: "(take i ofl @ replicate (NOFILE - i) None)[i := x] = take i ofl @ [x] @ replicate (NOFILE - Suc i) None" for x
  proof -
    have "replicate (NOFILE - i) (None :: nat option) = None # replicate (NOFILE - Suc i) None"
      using i by (metis Suc_diff_Suc replicate_Suc)
    then show ?thesis using len by (simp add: list_update_append)
  qed
  show ?thesis
  proof (cases "ofl ! i")
    case None
    have "replicate (NOFILE - i) (None :: nat option) = None # replicate (NOFILE - Suc i) None" using i by (metis Suc_diff_Suc replicate_Suc)
    then have "?s = with_files np (take (Suc i) ofl) s"
      unfolding with_files_def tk None using len fds(2) i by (simp add: dup_refs_snoc)
    moreover have "fork_dup c p np i ?s = Ok ?s" unfolding fork_dup_def o None by simp
    ultimately show ?thesis by simp
  next
    case (Some f)
    then have m: "Some f \<in> set ofl" using i fds(2) by (metis nth_mem)
    have r: "1 \<le> f_ref (ft_file (k_st ?s) f)" using ref [OF m] by (simp add: with_files_def dup_refs_def)
    have "kact c (filedup f) ?s = Ok (?s\<lparr>k_st := upd_file f (\<lambda>x. x\<lparr>f_ref := f_ref x + 1\<rparr>) (k_st ?s)\<rparr>)"
      by (rule kact_quiet) (use r q in \<open>simp_all add: filedup_def quiet_st with_files_def upd_file_def\<close>)
    then have "fork_dup c p np i ?s = Ok (upd_proc np (\<lambda>pr. pr\<lparr>p_ofile := (p_ofile pr)[i := Some f]\<rparr>)
        (?s\<lparr>k_st := upd_file f (\<lambda>x. x\<lparr>f_ref := f_ref x + 1\<rparr>) (k_st ?s)\<rparr>))"
      unfolding fork_dup_def o Some by simp
    also have "upd_proc np (\<lambda>pr. pr\<lparr>p_ofile := (p_ofile pr)[i := Some f]\<rparr>)
        (?s\<lparr>k_st := upd_file f (\<lambda>x. x\<lparr>f_ref := f_ref x + 1\<rparr>) (k_st ?s)\<rparr>) = with_files np (take (Suc i) ofl) s"
      unfolding with_files_def tk Some using len fds(2) i rep [of "Some f"] by (simp add: dup_refs_snoc upd_proc_def)
    finally show ?thesis .
  qed
qed

lemma fork_dups:
  assumes np: "np \<noteq> p" and fds: "p_ofile (pt_proc s p) = ofl" "length ofl = NOFILE" "p_ofile (pt_proc s np) = replicate NOFILE None"
    and q: "bc_wakeups (k_st s) = []" and ref: "\<And>f. Some f \<in> set ofl \<Longrightarrow> 1 \<le> f_ref (ft_file (k_st s) f)"
  shows "rfold (fork_dup c p np) [0..<NOFILE] s = Ok (with_files np ofl s)"
proof -
  have "(pt_proc s)(np := (pt_proc s np)\<lparr>p_ofile := replicate NOFILE None\<rparr>) = pt_proc s"
    using fds(3) [symmetric] by (simp add: fun_eq_iff)
  then have s: "s = with_files np (take 0 ofl) s" by (simp add: with_files_def)
  have "\<exists>s'. rfold (fork_dup c p np) [0..<NOFILE] s = Ok s' \<and> s' = with_files np (take NOFILE ofl) s"
    by (rule rfold_upt) (use s fork_dup_step [OF np fds(1,2) _ q ref] in auto)
  then show ?thesis using fds(2) by simp
qed

subsection \<open>\<^verbatim>\<open>fork\<close>\<close>

definition forked :: "linkmap \<Rightarrow> addr \<Rightarrow> addr \<Rightarrow> nat \<Rightarrow> nat \<Rightarrow> kernel \<Rightarrow> proc" where
  "forked ld stack d p np s =
     (let pr = pt_proc s p in
      (allocated ld stack s (pt_proc s np))\<lparr>p_pgdir := d, p_sz := p_sz pr, p_parent := Some p, p_tf := (p_tf pr)\<lparr>tf_eax := 0\<rparr>,
         p_ofile := p_ofile pr, p_cwd := p_cwd pr, p_name := take 15 (p_name pr), p_uid := p_uid pr, p_gid := p_gid pr,
         p_state := RUNNABLE, p_priority := p_priority pr\<rparr>)"

definition fork_st :: "nat \<Rightarrow> nat option list \<Rightarrow> kmem \<Rightarrow> kst \<Rightarrow> kst" where
  "fork_st ip ofl k st = upd_inode ip (\<lambda>x. x\<lparr>i_ref := i_ref x + 1\<rparr>) (dup_refs ofl (st\<lparr>k_mem := k\<rparr>))"

lemma fork_publish:
  assumes ok: "lists_ok (pLists s) A" "procs_ok mp (pt_proc s) A" and np: "np \<in> set (A Embryo)" and lk: "unlocked c s"
    and pr: "prio_ok mp (pt_proc s p)" "p \<noteq> np"
  shows "\<exists>s'. rbind (acquire_pt c s) (\<lambda>s8. rbind (slChange Embryo np EMBRYO
        (\<lambda>pr. pr\<lparr>p_state := RUNNABLE, p_priority := p_priority (pt_proc s8 p)\<rparr>) ready_of ''state list error FORK'' s8) (\<lambda>s9.
        rbind (release_pt c (upd_proc np (\<lambda>pr. pr\<lparr>p_state := RUNNABLE\<rparr>) s9)) (\<lambda>s10. Ok (pid, s10)))) = Ok (pid, s') \<and>
      table_ok mp s' (moved np Embryo (ready_of (pt_proc s p)) A) \<and> unlocked c s' \<and>
      pt_proc s' = (pt_proc s)(np := (pt_proc s np)\<lparr>p_state := RUNNABLE, p_priority := p_priority (pt_proc s p)\<rparr>) \<and>
      k_st s' = k_st s \<and> nextpid s' = nextpid s"
proof -
  define s8 where "s8 = lock_state c s"
  let ?f = "\<lambda>pr. pr\<lparr>p_state := RUNNABLE, p_priority := p_priority (pt_proc s p)\<rparr>"
  have s8: "pt_proc s8 = pt_proc s" "cpus s8 = cpus (lock_state c s)" "pt_lock s8 = pt_lock (lock_state c s)" "k_st s8 = k_st s"
      "nextpid s8 = nextpid s"
    by (simp_all add: s8_def)
  have ok8: "table_ok mp s8 A" using ok by (simp add: table_ok_def s8_def)
  have rd: "ready_of (?f pr) = ready_of (pt_proc s p)" for pr by (simp add: ready_of_def)
  have po: "prio_ok mp (?f pr)" for pr using pr(1) by (simp add: prio_ok_def)
  have lv: "level_ok mp (ready_of (?f pr)) (?f pr)" for pr using level_ok_ready_of [OF po] .
  obtain ls where ch: "slChange Embryo np EMBRYO ?f ready_of ''state list error FORK'' s8 = Ok ((upd_proc np ?f s8)\<lparr>pLists := ls\<rparr>)"
    and ok9: "table_ok mp ((upd_proc np ?f s8)\<lparr>pLists := ls\<rparr>) (moved np Embryo (ready_of (?f (pt_proc s8 np))) A)"
    using slChange_ok [OF ok8 np, of EMBRYO ?f ready_of "''state list error FORK''"] lv [of "pt_proc s8 np"] po by auto
  define s9 where "s9 = (upd_proc np ?f s8)\<lparr>pLists := ls\<rparr>"
  have "(pt_proc s9 np)\<lparr>p_state := RUNNABLE\<rparr> = pt_proc s9 np" by (simp add: s9_def)
  then have up: "upd_proc np (\<lambda>pr. pr\<lparr>p_state := RUNNABLE\<rparr>) s9 = s9" by (simp add: upd_proc_def)
  have rel: "release_pt c s9 = Ok (s9\<lparr>cpus := section_cpus c (cpus s), pt_lock := pt_lock s\<rparr>)"
    by (rule release_pt_ok [OF lk]) (simp_all add: s9_def s8)
  have "table_ok mp s9 (moved np Embryo (ready_of (pt_proc s p)) A)" using ok9 unfolding rd s9_def [symmetric] .
  then have "table_ok mp (s9\<lparr>cpus := section_cpus c (cpus s), pt_lock := pt_lock s\<rparr>) (moved np Embryo (ready_of (pt_proc s p)) A)"
    by (simp add: table_ok_def)
  moreover have "unlocked c (s9\<lparr>cpus := section_cpus c (cpus s), pt_lock := pt_lock s\<rparr>)" using lk by (simp add: unlocked_def)
  ultimately show ?thesis
    using ch rel up by (simp add: acquire_pt_ok [OF lk] s8_def [symmetric] s8 s9_def [symmetric]) (simp add: s9_def s8)
qed

lemma moved_via:
  "p \<notin> set (A l') \<Longrightarrow> l \<noteq> l' \<Longrightarrow> moved p l' l'' (moved p l l' A) = moved p l l'' A"
  by (auto simp: moved_def Let_def fun_eq_iff remove1_append)

text \<open>The child before it is published, from the copy of the page table to the copy of the user and group.\<close>

definition fork_child :: "linkmap \<Rightarrow> addr \<Rightarrow> addr \<Rightarrow> nat \<Rightarrow> nat \<Rightarrow> kernel \<Rightarrow> proc" where
  "fork_child ld stack d p np s =
     (let pr = pt_proc s p in
      (allocated ld stack s (pt_proc s np))\<lparr>p_pgdir := d, p_sz := p_sz pr, p_parent := Some p, p_tf := (p_tf pr)\<lparr>tf_eax := 0\<rparr>,
         p_ofile := p_ofile pr, p_cwd := p_cwd pr, p_name := take 15 (p_name pr), p_uid := p_uid pr, p_gid := p_gid pr\<rparr>)"

lemma fork_copy:
  assumes ne: "np \<noteq> p" and s4: "pt_proc s4 = (pt_proc s)(np := ch)"
    and ch: "ch = (allocated ld stack s (pt_proc s np))\<lparr>p_pgdir := d, p_sz := p_sz (pt_proc s p), p_parent := Some p,
      p_tf := (p_tf (pt_proc s p))\<lparr>tf_eax := 0\<rparr>\<rparr>" and st4: "k_st s4 = (k_st s)\<lparr>k_mem := k2\<rparr>" and q: "bc_wakeups (k_st s) = []"
    and fds: "p_ofile (pt_proc s p) = ofl" "length ofl = NOFILE" "p_ofile (pt_proc s np) = replicate NOFILE None"
    and ref: "\<And>f. Some f \<in> set ofl \<Longrightarrow> 1 \<le> f_ref (ft_file (k_st s) f)" and cwd: "p_cwd (pt_proc s p) = Some ip"
  shows "\<exists>s5 s6. rfold (fork_dup c p np) [0..<NOFILE] s4 = Ok s5 \<and> kdo c (idup (p_cwd (pt_proc s5 p))) s5 = Ok (Some ip, s6) \<and>
    p_pid (pt_proc s6 np) = nextpid s \<and> pt_proc s6 p = pt_proc s p \<and>
    upd_proc np (\<lambda>pr. pr\<lparr>p_cwd := Some ip, p_name := take 15 (p_name (pt_proc s p)), p_uid := p_uid (pt_proc s p), p_gid := p_gid (pt_proc s p)\<rparr>) s6 =
      s4\<lparr>pt_proc := (pt_proc s)(np := fork_child ld stack d p np s), k_st := fork_st ip ofl k2 (k_st s)\<rparr>"
proof -
  have chf: "p_ofile ch = replicate NOFILE None" "p_pid ch = nextpid s" using fds(3) by (simp_all add: ch allocated_def embryo_def)
  have dup: "rfold (fork_dup c p np) [0..<NOFILE] s4 = Ok (with_files np ofl s4)"
    by (rule fork_dups [OF ne]) (use ne s4 st4 fds chf ref q in simp_all)
  define s5 where "s5 = with_files np ofl s4"
  have s5: "pt_proc s5 p = pt_proc s p" "k_st s5 = dup_refs ofl ((k_st s)\<lparr>k_mem := k2\<rparr>)" "bc_wakeups (k_st s5) = []"
    using ne q by (simp_all add: s5_def with_files_def s4 st4)
  have cw: "kdo c (idup (p_cwd (pt_proc s5 p))) s5 = Ok (Some ip, s5\<lparr>k_st := fork_st ip ofl k2 (k_st s)\<rparr>)"
    by (rule kdo_quiet) (use cwd s5 q in \<open>simp_all add: idup_def deref_def quiet_st fork_st_def upd_inode_def\<close>)
  show ?thesis
    by (rule exI [of _ s5], rule exI [of _ "s5\<lparr>k_st := fork_st ip ofl k2 (k_st s)\<rparr>"], intro conjI)
      (use dup cw chf ne fds cwd in \<open>simp_all add: s5_def with_files_def s4 upd_proc_def ch fork_child_def Let_def\<close>)
qed

lemma fork_ok:
  assumes ok: "table_ok mp s A" and cur: "c_proc (cpus s c) = Some p" and run: "p \<in> set (A Running)"
    and fr: "A Free = np # fr" and lk: "unlocked c s" and q: "bc_wakeups (k_st s) = []"
    and mem: "kalloc (k_mem (k_st s)) = (stack, k1)" "stack \<noteq> 0"
      "copyuvm (ld_end ld) (ld_data ld) (p_pgdir (pt_proc s p)) (p_sz (pt_proc s p)) (stack_mem ld stack k1) = Ok (d, k2)" "d \<noteq> 0"
    and fds: "p_ofile (pt_proc s p) = ofl" "length ofl = NOFILE" "p_ofile (pt_proc s np) = replicate NOFILE None"
    and ref: "\<And>f. Some f \<in> set ofl \<Longrightarrow> 1 \<le> f_ref (ft_file (k_st s) f)" and cwd: "p_cwd (pt_proc s p) = Some ip"
  shows "\<exists>s'. fork ld c s = Ok (nextpid s, s') \<and> table_ok mp s' (moved np Free (ready_of (pt_proc s p)) A) \<and> unlocked c s' \<and>
    pt_proc s' = (pt_proc s)(np := forked ld stack d p np s) \<and> k_st s' = fork_st ip ofl k2 (k_st s) \<and> nextpid s' = nextpid s + 1"
proof -
  have npf: "np \<in> set (A Free)" by (simp add: fr)
  have ne: "np \<noteq> p" "p \<noteq> np" using table_ok_same [OF ok npf] run by auto
  obtain ls where al: "allocproc ld c s = Ok (Some np, s\<lparr>pt_proc := (pt_proc s)(np := allocated ld stack s (pt_proc s np)), pLists := ls,
        cpus := section_cpus c (cpus s), nextpid := nextpid s + 1, k_st := (k_st s)\<lparr>k_mem := stack_mem ld stack k1\<rparr>\<rparr>)"
    and lo: "lists_ok ls (moved np Free Embryo A)"
    and po: "procs_ok mp ((pt_proc s)(np := allocated ld stack s (pt_proc s np))) (moved np Free Embryo A)"
    using allocproc_ok [OF ok fr lk mem(1,2)] by blast
  define ch where "ch = (allocated ld stack s (pt_proc s np))\<lparr>p_pgdir := d, p_sz := p_sz (pt_proc s p), p_parent := Some p,
      p_tf := (p_tf (pt_proc s p))\<lparr>tf_eax := 0\<rparr>\<rparr>"
  define s4 where "s4 = s\<lparr>pt_proc := (pt_proc s)(np := ch), pLists := ls, cpus := section_cpus c (cpus s), nextpid := nextpid s + 1,
      k_st := (k_st s)\<lparr>k_mem := k2\<rparr>\<rparr>"
  have s4: "pt_proc s4 = (pt_proc s)(np := ch)" "k_st s4 = (k_st s)\<lparr>k_mem := k2\<rparr>" by (simp_all add: s4_def)
  define s7 where "s7 = s4\<lparr>pt_proc := (pt_proc s)(np := fork_child ld stack d p np s), k_st := fork_st ip ofl k2 (k_st s)\<rparr>"
  obtain s5 s6 where cp: "rfold (fork_dup c p np) [0..<NOFILE] s4 = Ok s5" "kdo c (idup (p_cwd (pt_proc s5 p))) s5 = Ok (Some ip, s6)"
      "p_pid (pt_proc s6 np) = nextpid s" "pt_proc s6 p = pt_proc s p"
      "upd_proc np (\<lambda>pr. pr\<lparr>p_cwd := Some ip, p_name := take 15 (p_name (pt_proc s p)), p_uid := p_uid (pt_proc s p), p_gid := p_gid (pt_proc s p)\<rparr>) s6 = s7"
    using fork_copy [OF ne(1) s4(1) ch_def s4(2) q fds ref cwd, of c] unfolding s7_def by blast
  have s7: "pLists s7 = ls" "pt_proc s7 p = pt_proc s p" using ne by (simp_all add: s7_def s4_def)
  have lk7: "unlocked c s7" using lk by (simp add: s7_def s4_def unlocked_def)
  have po7: "procs_ok mp (pt_proc s7) (moved np Free Embryo A)"
    using po by (rule procs_ok_cong) (simp_all add: s7_def fork_child_def Let_def)
  have nE: "np \<notin> set (A Embryo)" using table_ok_same [OF ok npf] by blast
  then have em: "np \<in> set (moved np Free Embryo A Embryo)" by (simp add: moved_def Let_def)
  have pr: "prio_ok mp (pt_proc s7 p)" using table_ok_prio_in [OF ok run] s7(2) by simp
  note pub = fork_publish [OF lo [folded s7(1)] po7 em lk7 pr ne(2), of "nextpid s"]
  have "fork ld c s = rbind (acquire_pt c s7) (\<lambda>s8. rbind (slChange Embryo np EMBRYO
        (\<lambda>pr. pr\<lparr>p_state := RUNNABLE, p_priority := p_priority (pt_proc s8 p)\<rparr>) ready_of ''state list error FORK'' s8) (\<lambda>s9.
        rbind (release_pt c (upd_proc np (\<lambda>pr. pr\<lparr>p_state := RUNNABLE\<rparr>) s9)) (\<lambda>s10. Ok (nextpid s, s10))))"
    using al cur ne mem(3,4) cp
    by (simp add: fork_def with_proc_def mem_run_def Let_def upd_proc_def ch_def [symmetric] s4_def [symmetric])
  moreover have "moved np Embryo (ready_of (pt_proc s p)) (moved np Free Embryo A) = moved np Free (ready_of (pt_proc s p)) A"
    using nE by (rule moved_via) simp
  moreover have "(pt_proc s7)(np := (pt_proc s7 np)\<lparr>p_state := RUNNABLE, p_priority := p_priority (pt_proc s p)\<rparr>) =
      (pt_proc s)(np := forked ld stack d p np s)"
    by (simp add: s7_def fork_child_def forked_def Let_def)
  moreover have "k_st s7 = fork_st ip ofl k2 (k_st s)" "nextpid s7 = nextpid s + 1" by (simp_all add: s7_def s4_def)
  ultimately show ?thesis using pub unfolding s7(2) by simp
qed

subsection \<open>Failures of \<^verbatim>\<open>fork\<close>\<close>

lemma drop_embryo_ok:
  assumes ok: "lists_ok (pLists s) A" "procs_ok mp (pt_proc s) A" and p: "p \<in> set (A Embryo)" and lk: "unlocked c s"
  shows "\<exists>s'. drop_embryo c p msg s = Ok s' \<and> table_ok mp s' (moved p Embryo Free A) \<and> unlocked c s' \<and>
    pt_proc s' = (pt_proc s)(p := (pt_proc s p)\<lparr>p_state := UNUSED\<rparr>) \<and> k_st s' = k_st s"
proof -
  define s1 where "s1 = lock_state c s"
  let ?f = "\<lambda>pr. pr\<lparr>p_state := UNUSED\<rparr>"
  have s1: "pt_proc s1 = pt_proc s" "cpus s1 = cpus (lock_state c s)" "pt_lock s1 = pt_lock (lock_state c s)" "k_st s1 = k_st s"
    by (simp_all add: s1_def)
  have ok1: "table_ok mp s1 A" using ok by (simp add: table_ok_def s1_def)
  have po: "prio_ok mp (pt_proc s1 p)" using table_ok_prio_in [OF ok1 p] .
  obtain ls where ch: "slChange Embryo p EMBRYO ?f (\<lambda>_. Free) msg s1 = Ok ((upd_proc p ?f s1)\<lparr>pLists := ls\<rparr>)"
    and ok2: "table_ok mp ((upd_proc p ?f s1)\<lparr>pLists := ls\<rparr>) (moved p Embryo Free A)"
    using slChange_ok [OF ok1 p, of EMBRYO ?f "\<lambda>_. Free" msg] po by auto
  define s2 where "s2 = (upd_proc p ?f s1)\<lparr>pLists := ls\<rparr>"
  have "(pt_proc s2 p)\<lparr>p_state := UNUSED\<rparr> = pt_proc s2 p" by (simp add: s2_def)
  then have up: "upd_proc p ?f s2 = s2" by (simp add: upd_proc_def)
  have rel: "release_pt c s2 = Ok (s2\<lparr>cpus := section_cpus c (cpus s), pt_lock := pt_lock s\<rparr>)"
    by (rule release_pt_ok [OF lk]) (simp_all add: s2_def s1)
  have "table_ok mp (s2\<lparr>cpus := section_cpus c (cpus s), pt_lock := pt_lock s\<rparr>) (moved p Embryo Free A)"
    using ok2 unfolding s2_def [symmetric] by (simp add: table_ok_def)
  moreover have "unlocked c (s2\<lparr>cpus := section_cpus c (cpus s), pt_lock := pt_lock s\<rparr>)" using lk by (simp add: unlocked_def)
  ultimately show ?thesis
    using ch rel up by (simp add: drop_embryo_def acquire_pt_ok [OF lk] s1_def [symmetric] s2_def [symmetric]) (simp add: s2_def s1)
qed

lemma fork_no_slot:
  assumes ok: "table_ok mp s A" and fr: "A Free = []" and lk: "unlocked c s"
  shows "fork ld c s = Ok (-1, s\<lparr>cpus := section_cpus c (cpus s)\<rparr>)"
proof -
  have "l_head (pLists s) Free = None" using lists_ok_head [OF table_ok_lists [OF ok], of Free] fr by simp
  then have "alloc_embryo c s = Ok (None, s\<lparr>cpus := section_cpus c (cpus s)\<rparr>)"
    using section_release_upd(3) [OF lk]
    by (simp add: alloc_embryo_def acquire_pt_ok [OF lk] slRemove_def stateListRemove_def lock_state_def)
  then show ?thesis by (simp add: fork_def allocproc_def)
qed

lemma fork_no_memory:
  assumes ok: "table_ok mp s A" and cur: "c_proc (cpus s c) = Some p" and run: "p \<in> set (A Running)"
    and fr: "A Free = np # fr" and lk: "unlocked c s"
    and mem: "kalloc (k_mem (k_st s)) = (stack, k1)" "stack \<noteq> 0"
      "copyuvm (ld_end ld) (ld_data ld) (p_pgdir (pt_proc s p)) (p_sz (pt_proc s p)) (stack_mem ld stack k1) = Ok (0, k2)"
      "kfree (ld_end ld) stack k2 = Ok k3"
  shows "\<exists>s'. fork ld c s = Ok (-1, s') \<and> table_ok mp s' (moved np Free Free A) \<and> unlocked c s' \<and> k_st s' = (k_st s)\<lparr>k_mem := k3\<rparr> \<and>
    p_state (pt_proc s' np) = UNUSED \<and> (\<forall>q. q \<noteq> np \<longrightarrow> pt_proc s' q = pt_proc s q)"
proof -
  have npf: "np \<in> set (A Free)" by (simp add: fr)
  have ne: "np \<noteq> p" using table_ok_same [OF ok npf] run by auto
  obtain ls where al: "allocproc ld c s = Ok (Some np, s\<lparr>pt_proc := (pt_proc s)(np := allocated ld stack s (pt_proc s np)), pLists := ls,
        cpus := section_cpus c (cpus s), nextpid := nextpid s + 1, k_st := (k_st s)\<lparr>k_mem := stack_mem ld stack k1\<rparr>\<rparr>)"
    and lo: "lists_ok ls (moved np Free Embryo A)"
    and po: "procs_ok mp ((pt_proc s)(np := allocated ld stack s (pt_proc s np))) (moved np Free Embryo A)"
    using allocproc_ok [OF ok fr lk mem(1,2)] by blast
  define s4 where "s4 = s\<lparr>pt_proc := (pt_proc s)(np := (allocated ld stack s (pt_proc s np))\<lparr>p_pgdir := 0, p_kstack := 0\<rparr>), pLists := ls,
      cpus := section_cpus c (cpus s), nextpid := nextpid s + 1, k_st := (k_st s)\<lparr>k_mem := k3\<rparr>\<rparr>"
  have s4: "pLists s4 = ls" "unlocked c s4" using lk by (simp_all add: s4_def unlocked_def)
  have po4: "procs_ok mp (pt_proc s4) (moved np Free Embryo A)" using po by (rule procs_ok_cong) (simp_all add: s4_def)
  have nE: "np \<notin> set (A Embryo)" using table_ok_same [OF ok npf] by blast
  then have em: "np \<in> set (moved np Free Embryo A Embryo)" by (simp add: moved_def Let_def)
  have "p_kstack (allocated ld stack s (pt_proc s np)) = stack" by (simp add: allocated_def)
  then have "fork ld c s = rbind (drop_embryo c np ''FORK: rc != 0'' s4) (\<lambda>s5. Ok (-1, s5))"
    using al cur ne mem(3,4)
    by (simp add: fork_def with_proc_def mem_run_def mem_do_def Let_def upd_proc_def s4_def [symmetric])
  moreover have "moved np Embryo Free (moved np Free Embryo A) = moved np Free Free A" using nE by (rule moved_via) simp
  moreover have "k_st s4 = (k_st s)\<lparr>k_mem := k3\<rparr>" "\<forall>q. q \<noteq> np \<longrightarrow> pt_proc s4 q = pt_proc s q" by (simp_all add: s4_def)
  ultimately show ?thesis using drop_embryo_ok [OF lo [folded s4(1)] po4 em s4(2), of "''FORK: rc != 0''"] by auto
qed

end
