(* ===== verification/ProcMem.thy ===== *)
theory ProcMem
  imports ForkOps VmFree
begin

text \<open>
  The memory side of the process life cycle: what \<^verbatim>\<open>fork\<close> does to the memory of parent and child, and what
  \<^verbatim>\<open>wait\<close> gives back when it reaps a zombie.
\<close>

lemma stack_slot: "stack mod PGSIZE = 0 \<Longrightarrow> \<not> in_page stack x \<Longrightarrow> km_mem (stack_mem ld stack k) x = km_mem k x"
proof -
  have e: "stack + of_nat KSTACKSIZE - TFSIZE - 4 = stack + 4 * of_nat 1004"
    by (simp add: KSTACKSIZE_def TFSIZE_def)
  assume "\<not> in_page stack x"
  then show ?thesis unfolding stack_mem_def e using store_out [of 1004 stack x] by simp
qed

lemma fork_stack:
  assumes ok: "umap_ok kend k s (stack # fr)"
  shows "\<exists>k1. kalloc k = (stack, k1) \<and> stack \<noteq> 0 \<and> umap_ok kend (stack_mem ld stack k1) s fr \<and>
    untouched_outside {stack} (km_mem k) (km_mem (stack_mem ld stack k1))"
proof -
  note pp = pop_page [OF umap_okD(1) [OF ok]]
  let ?k1 = "k\<lparr>km_freelist := load32 (km_mem k) stack\<rparr>"
  have un: "untouched_outside {stack} (km_mem k) (km_mem (stack_mem ld stack ?k1))"
    using stack_slot [OF pp(5), of _ ld ?k1] by (simp add: untouched_outside_def)
  have sp: "stack \<notin> space (km_mem k) s" "set fr \<inter> space (km_mem k) s = {}" using space_free [OF ok] by auto
  have us: "untouched (space (km_mem k) s) (km_mem k) (km_mem (stack_mem ld stack ?k1))"
    by (rule untouched_page [OF _ pp(5) sp(1) space_aligned [OF ok]]) (use un in \<open>simp add: untouched_outside_def\<close>)
  have f: "km_mem (stack_mem ld stack ?k1) x = km_mem ?k1 x" if "\<not> in_page stack x" for x using stack_slot [OF pp(5) that] by simp
  have "vm_ok kend (?k1\<lparr>km_mem := km_mem (stack_mem ld stack ?k1)\<rparr>) s fr"
    by (rule vm_frame(1) [OF pp(1) f pp(5) _ pp(7)]) (use pp(6) in simp_all)
  then have "freelist_ok kend (stack_mem ld stack ?k1) fr" using vm_okD(1) by (fastforce simp: stack_mem_def)
  then have "umap_ok kend (stack_mem ld stack ?k1) s fr" using umap_ok_frame [OF ok us] sp(2) by blast
  then show ?thesis using pp(2,3) un by blast
qed

lemma fork_memory:
  assumes ok: "umap_ok kend k s (stack # d # fr)" and sz: "sz \<le> KERNBASE" and room: "npages sz + 1024 \<le> length fr"
    and kd: "kdata mod PGSIZE = 0" "KERNLINK < kdata" "kdata < p2v PHYSTOP"
    and pr: "\<And>va. pn va < npages sz \<Longrightarrow> upresent (km_mem k) s va"
  shows "\<exists>k1 k2 fr'. kalloc k = (stack, k1) \<and> stack \<noteq> 0 \<and> copyuvm kend kdata s sz (stack_mem ld stack k1) = Ok (d, k2) \<and> d \<noteq> 0 \<and>
    umap_ok kend k2 d fr' \<and> umap_ok kend k2 s fr' \<and> untouched_outside (set (stack # d # fr)) (km_mem k) (km_mem k2) \<and>
    space (km_mem k2) s \<inter> space (km_mem k2) d = {} \<and>
    (\<forall>va. pn va < npages sz \<longrightarrow> upresent (km_mem k2) d va \<and> PTE_FLAGS (pte_of (km_mem k2) d va) = PTE_FLAGS (pte_of (km_mem k) s va) \<and>
       ubyte (km_mem k2) d va = ubyte (km_mem k) s va)"
proof -
  obtain k1 where 1: "kalloc k = (stack, k1)" "stack \<noteq> 0" "umap_ok kend (stack_mem ld stack k1) s (d # fr)"
    "untouched_outside {stack} (km_mem k) (km_mem (stack_mem ld stack k1))" using fork_stack [OF ok] by blast
  let ?m = "km_mem k" and ?m1 = "km_mem (stack_mem ld stack k1)" and ?S = "{w. w mod PGSIZE = 0 \<and> w \<notin> set (d # fr)}"
  have al: "stack mod PGSIZE = 0" using pop_page(5) [OF umap_okD(1) [OF ok]] .
  have us: "untouched (space ?m s) ?m ?m1"
    by (rule untouched_page [OF _ al _ space_aligned [OF ok]]) (use 1(4) space_free [OF ok] in \<open>auto simp: untouched_outside_def\<close>)
  note f = space_frame [OF us]
  have S: "space ?m1 s \<subseteq> ?S" "\<And>w. w \<in> ?S \<Longrightarrow> w mod PGSIZE = 0" "?S \<inter> set (d # fr) = {}"
    using space_aligned [OF 1(3)] space_free [OF 1(3)] by auto
  have pr1: "upresent ?m1 s va" if "pn va < npages sz" for va using pr [OF that] f(4) by simp
  obtain k2 fr' where 2: "copyuvm kend kdata s sz (stack_mem ld stack k1) = Ok (d, k2)" "umap_ok kend k2 d fr'" "umap_ok kend k2 s fr'"
    "untouched ?S ?m1 (km_mem k2)" "?S \<inter> space (km_mem k2) d = {}"
    "\<And>va. pn va < npages sz \<Longrightarrow> upresent (km_mem k2) d va \<and> PTE_FLAGS (pte_of (km_mem k2) d va) = PTE_FLAGS (pte_of ?m1 s va) \<and>
       ubyte (km_mem k2) d va = ubyte ?m1 s va"
    using copyuvm_ok [OF 1(3) sz room kd pr1 S] by blast
  have "untouched_outside (set (d # fr)) ?m1 (km_mem k2)" using untouched_outsideI [OF 2(4)] .
  then have "untouched_outside (set (stack # d # fr)) ?m (km_mem k2)" using 1(4) by (simp add: untouched_outside_def)
  moreover have "space (km_mem k2) s = space ?m1 s" by (rule space_frame(6) [OF untouched_mono [OF 2(4) S(1)]])
  then have "space (km_mem k2) s \<inter> space (km_mem k2) d = {}" using S(1) 2(5) by blast
  moreover have "ubyte ?m1 s va = ubyte ?m s va" if "pn va < npages sz" for va using f(7) [OF pr [OF that]] .
  moreover have "d \<noteq> 0" using pop_page(3) [OF umap_okD(1) [OF 1(3)]] .
  ultimately show ?thesis using 1(1,2) 2(1-3,6) f(1) by (intro exI [of _ k1] exI [of _ k2] exI [of _ fr']) simp
qed

lemma reap_memory:
  assumes ok: "umap_ok kend k d fr" and kb: "KERNBASE < kend" and st: "page_ok kend stack" "stack \<notin> set fr" "stack \<notin> space (km_mem k) d"
  shows "\<exists>k1 k2 fr'. kfree kend stack k = Ok k1 \<and> freevm kend d k1 = Ok k2 \<and> freelist_ok kend k2 fr' \<and>
    set fr' = insert stack (set fr \<union> space (km_mem k) d) \<and> untouched_outside (insert stack (space (km_mem k) d)) (km_mem k) (km_mem k2)"
proof -
  note V = vm_okD [OF umap_okD(1) [OF ok]]
  have s0: "stack \<noteq> 0" "stack mod PGSIZE = 0" using page_ok_ge [OF V(4) st(1)] by auto
  obtain m where 1: "kfree kend stack k = Ok (k\<lparr>km_mem := m, km_freelist := stack\<rparr>)"
    "freelist_ok kend (k\<lparr>km_mem := m, km_freelist := stack\<rparr>) (stack # fr)" "\<And>x. \<not> in_page stack x \<Longrightarrow> m x = km_mem k x"
    using kfree_ok [OF V(1) st(1,2) s0(1)] by blast
  let ?k1 = "k\<lparr>km_mem := m, km_freelist := stack\<rparr>"
  have us: "untouched (space (km_mem k) d) (km_mem k) (km_mem ?k1)"
    by (rule untouched_page [OF _ s0(2) st(3) space_aligned [OF ok]]) (use 1(3) in simp)
  have ok1: "umap_ok kend ?k1 d (stack # fr)" using st(3) space_free [OF ok] by (intro umap_ok_frame [OF ok us 1(2)]) auto
  have sp: "space m d = space (km_mem k) d" using space_frame(6) [OF us] by simp
  obtain k2 fr' where 2: "freevm kend d ?k1 = Ok k2" "freelist_ok kend k2 fr'" "set fr' = set (stack # fr) \<union> space m d"
    "untouched_outside (space m d) m (km_mem k2)" using freevm_ok [OF ok1 kb] by auto
  have "untouched_outside (insert stack (space (km_mem k) d)) (km_mem k) (km_mem k2)"
    using 2(4) 1(3) unfolding sp untouched_outside_def by simp
  then show ?thesis using 1(1) 2 sp by auto
qed

end
