(* ===== verification/ProcExample.thy ===== *)
theory ProcExample
  imports ProcMem Example FsExample VmExample
begin

text \<open>
  A whole kernel around the process table of theory \<open>Example\<close>, on which the properties of the process life cycle are evaluated.
  \<open>ex_kern k f\<close> has the memory \<open>k\<close> and the process slots \<open>f p (ex_proc p)\<close>; file 0 is open once.
\<close>

definition ex_ld :: linkmap where
  "ex_ld = \<lparr>ld_end = ex_kend, ld_data = ex_kdata, ld_forkret = 0x80104000, ld_trapret = 0x80105000, ld_initcode = 0x8010B000, ld_initcode_size = 44\<rparr>"

definition ex_node :: inode where
  "ex_node = \<lparr>i_dev = 1, i_inum = 1, i_ref = 1, i_busy = False, i_valid = True,
     i_d = \<lparr>d_type = T_DIR, d_major = 0, d_minor = 0, d_nlink = 1, d_uid = 0, d_gid = 0, d_mode = 0, d_size = 0, d_addrs = replicate 11 0\<rparr>\<rparr>"

definition ex_kst :: "kmem \<Rightarrow> kst" where
  "ex_kst k = \<lparr>bc_buf = (\<lambda>_. free_buf), bc_next = bc_next ex_log, bc_prev = bc_prev ex_log, bc_disk = (\<lambda>_. ex_disk), bc_disksize = 2000,
     bc_writes = [], bc_wakeups = [], lg_start = 2, lg_size = 30, lg_outstanding = 0, lg_committing = False, lg_dev = 1, lh_n = 0,
     lh_block = replicate 30 0, fs_sb = decode_sb ex_sb, ic_inode = (\<lambda>_. ex_node),
     cn_buf = replicate 128 0, cn_r = 0, cn_w = 0, cn_e = 0, cn_panicked = False, cn_out = [], cn_crt = (\<lambda>_. 0), cn_pos = 0,
     ft_file = (\<lambda>f. \<lparr>f_type = FD_INODE, f_ref = (if f = 0 then 1 else 0), f_readable = True, f_writable = True, f_pipe = 0, f_ip = Some 0, f_off = 0\<rparr>),
     ft_pipe = (\<lambda>_. \<lparr>pi_data = replicate 512 0, pi_nread = 0, pi_nwrite = 0, pi_readopen = False, pi_writeopen = False\<rparr>), k_mem = k\<rparr>"

definition ex_kern :: "kmem \<Rightarrow> (nat \<Rightarrow> proc \<Rightarrow> proc) \<Rightarrow> kernel" where
  "ex_kern k f = \<lparr>pt_proc = \<lambda>p. f p (ex_proc p), pLists = ex_lists, PromoteAtTime = 2500, initproc = Some 0, nextpid = 5,
     ticks = 100, pt_lock = \<lparr>locked = False, lk_cpu = None\<rparr>, cpus = ex_cpu, kpgdir = 0x80300000,
     k_st = ex_kst k, forkret_first = False, kbd_shift = 0\<rparr>"

lemma ex_kern_sel [simp]:
  "pt_proc (ex_kern k f) = (\<lambda>p. f p (ex_proc p))" "cpus (ex_kern k f) = ex_cpu" "k_st (ex_kern k f) = ex_kst k" "nextpid (ex_kern k f) = 5"
  "initproc (ex_kern k f) = Some 0" "ticks (ex_kern k f) = 100" "pLists (ex_kern k f) = ex_lists"
  by (simp_all add: ex_kern_def)

lemma ex_kst_sel [simp]: "k_mem (ex_kst k) = k" "bc_wakeups (ex_kst k) = []" "f_ref (ft_file (ex_kst k) f) = (if f = 0 then 1 else 0)"
  by (simp_all add: ex_kst_def)

lemma ex_ld_sel [simp]: "ld_end ex_ld = ex_kend" "ld_data ex_ld = ex_kdata"
  by (simp_all add: ex_ld_def)

lemma ex_kern_ok:
  assumes "\<And>p pr. p_state (f p pr) = p_state pr \<and> p_priority (f p pr) = p_priority pr"
  shows "table_ok 2 (ex_kern k f) ex_A"
proof -
  have "lists_ok ex_lists ex_A" "procs_ok 2 ex_proc ex_A" using ex_table_ok by (simp_all add: table_ok_def)
  then show ?thesis using assms procs_ok_cong [of 2 ex_proc ex_A "\<lambda>p. f p (ex_proc p)"] by (simp add: table_ok_def)
qed

lemma ex_kern_unlocked: "unlocked c (ex_kern k f)"
  by (simp add: unlocked_def ex_kern_def cpu_ok_def ex_cpu_def)

lemma ex_free: "ex_A Free = 4 # [5..<NPROC]"
  by (simp add: upt_conv_Cons NPROC_def)

lemma ex_child [simp]:
  "p_pid (ex_proc 0) = 1" "p_parent (ex_proc 3) = Some 0" "p_pid (ex_proc 3) = 4" "p_killed (ex_proc p) = False"
  by (simp_all add: ex_proc_def)

end
