(* ===== verification/Classic.thy ===== *)
theory Classic
  imports Kernel SchedOps
begin

text \<open>
  The variants of \<^verbatim>\<open>proc.c\<close> that search the process table instead of the state lists, compiled when \<^verbatim>\<open>CS333_P3P4\<close> is not
  defined, and the proof that the state lists implement them: on a table that satisfies the invariant, \<^verbatim>\<open>wakeup1\<close> on the
  sleep list and the loop over the table give the same processes, and so do the two versions of \<^verbatim>\<open>kill\<close> when the process
  identifier is that of one process.
\<close>

subsection \<open>The table loops\<close>

definition classic_wakeup1 :: "chan \<Rightarrow> 'a ptable_scheme \<Rightarrow> 'a ptable_scheme" where
  "classic_wakeup1 ch s =
     fold (\<lambda>p t. if p_state (pt_proc t p) = SLEEPING \<and> p_chan (pt_proc t p) = ch
                 then upd_proc p (\<lambda>pr. pr\<lparr>p_state := RUNNABLE\<rparr>) t else t) [0..<NPROC] s"

definition classic_kill :: "nat \<Rightarrow> 32 word \<Rightarrow> 'a ptable_scheme \<Rightarrow> (int \<times> 'a ptable_scheme) res" where
  "classic_kill c pid s =
     rbind (acquire_pt c s) (\<lambda>s1.
     case List.find (\<lambda>p. p_pid (pt_proc s1 p) = pid) [0..<NPROC] of
       Some p \<Rightarrow>
         let s2 = upd_proc p (\<lambda>pr. pr\<lparr>p_killed := True\<rparr>) s1;
             s3 = (if p_state (pt_proc s2 p) = SLEEPING then upd_proc p (\<lambda>pr. pr\<lparr>p_state := RUNNABLE\<rparr>) s2 else s2) in
         rbind (release_pt c s3) (\<lambda>s4. Ok (0, s4))
     | None \<Rightarrow> rbind (release_pt c s1) (\<lambda>s2. Ok (-1, s2)))"

text \<open>
  One step of the original scheduler: from slot \<open>i\<close> on to the next runnable process, up to the switch into it, or the end of the
  round. \<open>classic_resume\<close> takes up when process \<open>p\<close> switches back.
\<close>

definition classic_step :: "nat \<Rightarrow> nat \<Rightarrow> 'a ptable_scheme \<Rightarrow> (pptr \<times> 'a ptable_scheme) res" where
  "classic_step c i s =
     (case List.find (\<lambda>p. p_state (pt_proc s p) = RUNNABLE) [i..<NPROC] of
        None \<Rightarrow> rbind (release_pt c s) (\<lambda>s1. Ok (None, s1))
      | Some p \<Rightarrow>
          rbind (switchuvm c p (upd_cpu c (\<lambda>cp. cp\<lparr>c_proc := Some p\<rparr>) s)) (\<lambda>s1.
          Ok (Some p, upd_proc p (\<lambda>pr. pr\<lparr>p_state := RUNNING, p_cpu_ticks_in := ticks s1\<rparr>) s1)))"

definition classic_scheduler :: "nat \<Rightarrow> 'a ptable_scheme \<Rightarrow> (pptr \<times> 'a ptable_scheme) res" where
  "classic_scheduler c s = rbind (acquire_pt c (upd_cpu c (\<lambda>cp. cp\<lparr>c_if := True\<rparr>) s)) (classic_step c 0)"

definition classic_resume :: "nat \<Rightarrow> nat \<Rightarrow> 'a ptable_scheme \<Rightarrow> (pptr \<times> 'a ptable_scheme) res" where
  "classic_resume c p s = classic_step c (p + 1) (upd_cpu c (\<lambda>cp. cp\<lparr>c_proc := None\<rparr>) (switchkvm c s))"

text \<open>\<^verbatim>\<open>sched\<close> and \<^verbatim>\<open>sleep\<close> without the lists, up to the switch.\<close>

definition classic_sched :: "nat \<Rightarrow> 'a ptable_scheme \<Rightarrow> (bool \<times> 'a ptable_scheme) res" where
  "classic_sched c s =
     (if \<not> holding c (pt_lock s) then Panic ''sched ptable.lock''
      else if c_ncli (cpus s c) \<noteq> 1 then Panic ''sched locks''
      else with_proc c s (\<lambda>p.
        if p_state (pt_proc s p) = RUNNING then Panic ''sched running''
        else if c_if (cpus s c) then Panic ''sched interruptible''
        else Ok (c_intena (cpus s c),
                 upd_proc p (\<lambda>pr. pr\<lparr>p_cpu_ticks_total := p_cpu_ticks_total pr + (ticks s - p_cpu_ticks_in pr)\<rparr>) s)))"

definition classic_sleep :: "nat \<Rightarrow> chan \<Rightarrow> sleeplock \<Rightarrow> 'a ptable_scheme \<Rightarrow> (bool \<times> sleeplock \<times> 'a ptable_scheme) res" where
  "classic_sleep c ch lk s =
     (case c_proc (cpus s c) of
        None \<Rightarrow> Panic ''sleep''
      | Some p \<Rightarrow>
          rbind (if lk \<noteq> PtableLock then rbind (acquire_pt c s) (release_lk c lk) else Ok (lk, s)) (\<lambda>(lk1, s1).
          rbind (classic_sched c (upd_proc p (\<lambda>pr. pr\<lparr>p_chan := ch, p_state := SLEEPING\<rparr>) s1)) (\<lambda>(intena, s2).
          Ok (intena, lk1, s2))))"

text \<open>The part of the original \<^verbatim>\<open>exit\<close> under the lock.\<close>

definition classic_reparent :: "nat \<Rightarrow> 'a ptable_scheme \<Rightarrow> 'a ptable_scheme" where
  "classic_reparent p s =
     fold (\<lambda>q t. if p_parent (pt_proc t q) = Some p then
                   let t1 = upd_proc q (\<lambda>pr. pr\<lparr>p_parent := initproc t\<rparr>) t in
                   if p_state (pt_proc t1 q) = ZOMBIE then classic_wakeup1 (chan_of (initproc t1)) t1 else t1
                 else t) [0..<NPROC] s"

definition classic_exit_table :: "nat \<Rightarrow> nat \<Rightarrow> 'a ptable_scheme \<Rightarrow> (bool \<times> 'a ptable_scheme) res" where
  "classic_exit_table c p s =
     rbind (acquire_pt c s) (\<lambda>s1.
     let s2 = classic_reparent p (classic_wakeup1 (chan_of (p_parent (pt_proc s1 p))) s1) in
     classic_sched c (upd_proc p (\<lambda>pr. pr\<lparr>p_state := ZOMBIE\<rparr>) s2))"

text \<open>One round of the original \<^verbatim>\<open>wait\<close> with the lock held.\<close>

definition classic_reap :: "linkmap \<Rightarrow> nat \<Rightarrow> nat \<Rightarrow> kernel \<Rightarrow> (32 word \<times> kernel) res" where
  "classic_reap ld c q s =
     (let pid = p_pid (pt_proc s q) in
      rbind (mem_do (kfree (ld_end ld) (p_kstack (pt_proc s q))) s) (\<lambda>s1.
      let s2 = upd_proc q (\<lambda>pr. pr\<lparr>p_kstack := 0\<rparr>) s1 in
      rbind (mem_do (freevm (ld_end ld) (p_pgdir (pt_proc s2 q))) s2) (\<lambda>s3.
      rbind (release_pt c (upd_proc q (\<lambda>pr. pr\<lparr>p_state := UNUSED, p_pid := 0, p_parent := None, p_name := [], p_killed := False\<rparr>) s3))
        (\<lambda>s4. Ok (pid, s4)))))"

definition classic_wait_round :: "linkmap \<Rightarrow> nat \<Rightarrow> kernel \<Rightarrow> (wres \<times> kernel) res" where
  "classic_wait_round ld c s =
     with_proc c s (\<lambda>p.
     case List.find (\<lambda>q. p_parent (pt_proc s q) = Some p \<and> p_state (pt_proc s q) = ZOMBIE) [0..<NPROC] of
       Some q \<Rightarrow> rbind (classic_reap ld c q s) (\<lambda>(pid, s1). Ok (WDone pid, s1))
     | None \<Rightarrow>
         if (\<forall>q \<in> set [0..<NPROC]. p_parent (pt_proc s q) \<noteq> Some p) \<or> p_killed (pt_proc s p)
         then rbind (release_pt c s) (\<lambda>s1. Ok (WDone (-1), s1))
         else rbind (classic_sleep c (ChProc p) PtableLock s) (\<lambda>(intena, _, s1). Ok (WSleep intena True, s1)))"

definition classic_wait :: "linkmap \<Rightarrow> nat \<Rightarrow> kernel \<Rightarrow> (wres \<times> kernel) res" where
  "classic_wait ld c s = rbind (acquire_pt c s) (classic_wait_round ld c)"

subsection \<open>\<^verbatim>\<open>wakeup1\<close>\<close>

lemma fold_upd_procs:
  fixes s :: "'a ptable_scheme"
  assumes "distinct ps"
  shows "pt_proc (fold (\<lambda>p t. if P (pt_proc t p) then upd_proc p f t else t) ps s) q =
      (if q \<in> set ps \<and> P (pt_proc s q) then f (pt_proc s q) else pt_proc s q)"
  using assms by (induction ps arbitrary: s) auto

lemma fold_upd_rest:
  fixes s :: "'a ptable_scheme"
  shows "\<exists>ps'. fold (\<lambda>p t. if P (pt_proc t p) then upd_proc p f t else t) ps s = s\<lparr>pt_proc := ps'\<rparr>"
proof (induction ps arbitrary: s)
  case Nil
  then show ?case by (intro exI [of _ "pt_proc s"]) simp
next
  case (Cons p ps)
  obtain ps' where "fold (\<lambda>p t. if P (pt_proc t p) then upd_proc p f t else t) ps (if P (pt_proc s p) then upd_proc p f s else s) =
      (if P (pt_proc s p) then upd_proc p f s else s)\<lparr>pt_proc := ps'\<rparr>" using Cons by blast
  then show ?case by (intro exI [of _ ps']) (auto simp: upd_proc_def)
qed

lemma classic_wakeup1_procs:
  "classic_wakeup1 ch s =
     s\<lparr>pt_proc := \<lambda>p. if p < NPROC \<and> p_state (pt_proc s p) = SLEEPING \<and> p_chan (pt_proc s p) = ch
                      then (pt_proc s p)\<lparr>p_state := RUNNABLE\<rparr> else pt_proc s p\<rparr>"
proof -
  let ?P = "\<lambda>pr. p_state pr = SLEEPING \<and> p_chan pr = ch"
  let ?f = "\<lambda>pr. pr\<lparr>p_state := RUNNABLE\<rparr>"
  obtain ps where "classic_wakeup1 ch s = s\<lparr>pt_proc := ps\<rparr>"
    unfolding classic_wakeup1_def using fold_upd_rest [of ?P ?f "[0..<NPROC]" s] by blast
  moreover have "pt_proc (classic_wakeup1 ch s) q =
      (if q < NPROC \<and> ?P (pt_proc s q) then ?f (pt_proc s q) else pt_proc s q)" for q
    unfolding classic_wakeup1_def using fold_upd_procs [of "[0..<NPROC]" ?P ?f s q] by simp
  ultimately show ?thesis by (simp add: fun_eq_iff)
qed

lemma wakeup1_classic:
  assumes "table_ok mp s A"
  shows "\<exists>ls. wakeup1 ch s = Ok ((classic_wakeup1 ch s)\<lparr>pLists := ls\<rparr>) \<and>
    table_ok mp ((classic_wakeup1 ch s)\<lparr>pLists := ls\<rparr>) (wake_lists ch (pt_proc s) (A Sleep) A)"
proof -
  have "wake_procs ch (A Sleep) (pt_proc s) = pt_proc (classic_wakeup1 ch s)"
  proof
    fix p
    show "wake_procs ch (A Sleep) (pt_proc s) p = pt_proc (classic_wakeup1 ch s) p"
      using table_ok_mem [OF assms, of p Sleep] table_ok_bound [OF assms, of p Sleep]
      by (auto simp: wake_procs_def classic_wakeup1_procs)
  qed
  moreover have "(classic_wakeup1 ch s)\<lparr>pLists := ls\<rparr> = s\<lparr>pt_proc := pt_proc (classic_wakeup1 ch s), pLists := ls\<rparr>" for ls
    by (simp add: classic_wakeup1_procs)
  ultimately show ?thesis using wakeup1_ok [OF assms, of ch] by metis
qed

subsection \<open>\<^verbatim>\<open>kill\<close>\<close>

text \<open>No two processes share the identifier; a free slot may hold it as well, left over from a process that could not be set up. The scan does not tell the two apart.\<close>

definition unique_pid :: "32 word \<Rightarrow> 'a ptable_scheme \<Rightarrow> bool" where
  "unique_pid pid s \<longleftrightarrow>
     (\<forall>p < NPROC. \<forall>q < NPROC. p_pid (pt_proc s p) = pid \<longrightarrow> p_pid (pt_proc s q) = pid \<longrightarrow>
        p_state (pt_proc s p) \<noteq> UNUSED \<longrightarrow> p_state (pt_proc s q) \<noteq> UNUSED \<longrightarrow> q = p)"

definition first_slot :: "32 word \<Rightarrow> 'a ptable_scheme \<Rightarrow> nat option" where
  "first_slot pid s = List.find (\<lambda>p. p_pid (pt_proc s p) = pid) [0..<NPROC]"

lemma find_unique:
  assumes "x \<in> set xs" "P x" "\<And>y. y \<in> set xs \<Longrightarrow> P y \<Longrightarrow> y = x"
  shows "List.find P xs = Some x"
  using assms
proof (induction xs)
  case (Cons z zs)
  then show ?case by (cases "P z") (metis find.simps(2) list.set_intros(1), metis find.simps(2) list.set_intros(2) set_ConsD)
qed simp

lemma kill_order_mem:
  assumes ok: "table_ok mp s A"
  shows "p \<in> set (kill_order mp A) \<longleftrightarrow> p < NPROC \<and> p_state (pt_proc s p) \<noteq> UNUSED"
proof
  assume "p \<in> set (kill_order mp A)"
  then obtain l where "p \<in> set (A l)" "l \<noteq> Free" by (auto simp: kill_order_def)
  then show "p < NPROC \<and> p_state (pt_proc s p) \<noteq> UNUSED"
    using table_ok_bound [OF ok] table_ok_state [OF ok] by (cases l) auto
next
  assume p: "p < NPROC \<and> p_state (pt_proc s p) \<noteq> UNUSED"
  then obtain l where l: "p \<in> set (A l)" using table_ok_cover [OF ok] by blast
  show "p \<in> set (kill_order mp A)"
  proof (cases l)
    case (Ready i)
    then have "i < mp + 1" using table_ok_level [OF ok l] by (simp add: level_ok_def)
    then show ?thesis using l Ready by (cases "i = mp") (auto simp: kill_order_def)
  qed (use l p table_ok_state [OF ok l] in \<open>auto simp: kill_order_def\<close>)
qed

lemma classic_kill_found:
  assumes lk: "unlocked c s" and f: "List.find (\<lambda>p. p_pid (pt_proc s p) = pid) [0..<NPROC] = Some p"
  shows "classic_kill c pid s = Ok (0, (upd_proc p kill_proc s)\<lparr>cpus := section_cpus c (cpus s)\<rparr>)"
proof -
  have e: "(let s2 = upd_proc p (\<lambda>pr. pr\<lparr>p_killed := True\<rparr>) (lock_state c s)
            in if p_state (pt_proc s2 p) = SLEEPING then upd_proc p (\<lambda>pr. pr\<lparr>p_state := RUNNABLE\<rparr>) s2 else s2) =
           upd_proc p kill_proc (lock_state c s)"
    by (simp add: upd_proc_def kill_proc_def Let_def)
  show ?thesis
    using f e [unfolded Let_def] section_release_upd(1) [OF lk, of p kill_proc]
    by (simp add: classic_kill_def acquire_pt_ok [OF lk] Let_def)
qed

lemma classic_kill_none:
  assumes lk: "unlocked c s" and f: "List.find (\<lambda>p. p_pid (pt_proc s p) = pid) [0..<NPROC] = None"
  shows "classic_kill c pid s = Ok (-1, s\<lparr>cpus := section_cpus c (cpus s)\<rparr>)"
  using f section_release_upd(3) [OF lk] by (simp add: classic_kill_def acquire_pt_ok [OF lk])

lemma first_slotD: "first_slot pid s = Some p \<Longrightarrow> p < NPROC \<and> p_pid (pt_proc s p) = pid"
  using find_SomeD [of "\<lambda>p. p_pid (pt_proc s p) = pid" "[0..<NPROC]" p] by (auto simp: first_slot_def)

lemma kill_target_live:
  assumes ok: "table_ok mp s A" and u: "unique_pid pid s" and p: "p < NPROC" "p_pid (pt_proc s p) = pid" "p_state (pt_proc s p) \<noteq> UNUSED"
  shows "kill_target mp pid s A = Some p"
  unfolding kill_target_def
proof (rule find_unique [where P = "\<lambda>p. p_pid (pt_proc s p) = pid", OF _ p(2)])
  show "p \<in> set (kill_order mp A)" using p kill_order_mem [OF ok] by simp
  show "q = p" if "q \<in> set (kill_order mp A)" "p_pid (pt_proc s q) = pid" for q using that u p kill_order_mem [OF ok] unfolding unique_pid_def by blast
qed

lemma kill_target_dead:
  assumes ok: "table_ok mp s A" and n: "\<not> (\<exists>p < NPROC. p_pid (pt_proc s p) = pid \<and> p_state (pt_proc s p) \<noteq> UNUSED)"
  shows "kill_target mp pid s A = None"
  using n kill_order_mem [OF ok] by (auto simp: kill_target_def find_None_iff)

lemma kill_classic:
  assumes ok: "table_ok mp s A" and lk: "unlocked c s" and u: "unique_pid pid s" and f: "\<forall>p. first_slot pid s = Some p \<longrightarrow> p_state (pt_proc s p) \<noteq> UNUSED"
  shows "\<exists>r t t'. kill mp c pid s = Ok (r, t) \<and> classic_kill c pid s = Ok (r, t') \<and> pt_proc t = pt_proc t'"
proof (cases "first_slot pid s")
  case (Some p)
  then have p: "p < NPROC" "p_pid (pt_proc s p) = pid" "p_state (pt_proc s p) \<noteq> UNUSED" using first_slotD f by auto
  then obtain ls where "kill mp c pid s = Ok (0, (upd_proc p kill_proc s)\<lparr>pLists := ls, cpus := section_cpus c (cpus s)\<rparr>)"
    using kill_ok [OF ok lk, of pid] kill_target_live [OF ok u] by auto
  then show ?thesis using classic_kill_found [OF lk Some [unfolded first_slot_def]] by simp
next
  case None
  then have "\<not> (\<exists>p < NPROC. p_pid (pt_proc s p) = pid \<and> p_state (pt_proc s p) \<noteq> UNUSED)" by (auto simp: first_slot_def find_None_iff)
  then have "kill mp c pid s = Ok (-1, s\<lparr>cpus := section_cpus c (cpus s)\<rparr>)" using kill_ok [OF ok lk, of pid] kill_target_dead [OF ok] by simp
  then show ?thesis using classic_kill_none [OF lk None [unfolded first_slot_def]] by simp
qed

lemma kill_stale:
  assumes ok: "table_ok mp s A" and lk: "unlocked c s" and u: "unique_pid pid s" and f: "first_slot pid s = Some p" "p_state (pt_proc s p) = UNUSED"
  shows "\<exists>r t t'. classic_kill c pid s = Ok (0, t') \<and> pt_proc t' = (pt_proc s)(p := (pt_proc s p)\<lparr>p_killed := True\<rparr>) \<and>
    kill mp c pid s = Ok (r, t) \<and> pt_proc t p = pt_proc s p \<and> (r = 0 \<longleftrightarrow> (\<exists>q < NPROC. p_pid (pt_proc s q) = pid \<and> p_state (pt_proc s q) \<noteq> UNUSED))"
proof -
  have c: "\<exists>t'. classic_kill c pid s = Ok (0, t') \<and> pt_proc t' = (pt_proc s)(p := (pt_proc s p)\<lparr>p_killed := True\<rparr>)"
    using classic_kill_found [OF lk f(1) [unfolded first_slot_def]] f(2) by (simp add: upd_proc_def kill_proc_def)
  show ?thesis
  proof (cases "\<exists>q < NPROC. p_pid (pt_proc s q) = pid \<and> p_state (pt_proc s q) \<noteq> UNUSED")
    case True
    then obtain q where q: "q < NPROC" "p_pid (pt_proc s q) = pid" "p_state (pt_proc s q) \<noteq> UNUSED" by blast
    then obtain ls where "kill mp c pid s = Ok (0, (upd_proc q kill_proc s)\<lparr>pLists := ls, cpus := section_cpus c (cpus s)\<rparr>)"
      using kill_ok [OF ok lk, of pid] kill_target_live [OF ok u] by auto
    moreover have "p \<noteq> q" using q(3) f(2) by auto
    ultimately show ?thesis using c q by (auto simp: upd_proc_def)
  next
    case False
    then have "kill mp c pid s = Ok (-1, s\<lparr>cpus := section_cpus c (cpus s)\<rparr>)" using kill_ok [OF ok lk, of pid] kill_target_dead [OF ok] by simp
    then show ?thesis using c False by auto
  qed
qed

lemma kill_scan:
  assumes "table_ok mp s A" "unlocked c s" "unique_pid pid s"
  shows "\<exists>r t r' t'. kill mp c pid s = Ok (r, t) \<and> classic_kill c pid s = Ok (r', t') \<and>
      (case first_slot pid s of
         None \<Rightarrow> r = r' \<and> pt_proc t = pt_proc t'
       | Some p \<Rightarrow> if p_state (pt_proc s p) \<noteq> UNUSED then r = r' \<and> pt_proc t = pt_proc t'
                   else r' = 0 \<and> pt_proc t' = (pt_proc s)(p := (pt_proc s p)\<lparr>p_killed := True\<rparr>) \<and> pt_proc t p = pt_proc s p \<and>
                     (r = 0 \<longleftrightarrow> (\<exists>q < NPROC. p_pid (pt_proc s q) = pid \<and> p_state (pt_proc s q) \<noteq> UNUSED)))"
proof (cases "\<exists>p. first_slot pid s = Some p \<and> p_state (pt_proc s p) = UNUSED")
  case True
  then obtain p where "first_slot pid s = Some p" "p_state (pt_proc s p) = UNUSED" by blast
  then show ?thesis using kill_stale [OF assms] by fastforce
next
  case False
  then show ?thesis using kill_classic [OF assms] by (auto split: option.splits)
qed

end
