(* ===== verification/ProcProps.thy ===== *)
theory ProcProps
  imports ProcExample Classic
begin

text \<open>
  The properties of the process life cycle, each with an evaluation on the kernel of theory \<open>ProcExample\<close>.
\<close>

subsection \<open>\<^verbatim>\<open>fork\<close>\<close>

text \<open>C3. \<^verbatim>\<open>fork\<close> when a slot and memory are left: it returns the next pid. The child is the first free slot, queued on the ready list of
  the parent's priority, with the parent's size, trap frame (but \<^verbatim>\<open>eax\<close> 0), open files, directory, name and ids; each open
  file has one more reference per descriptor and the directory one more. The child reads at every address below its size the byte the parent reads,
  through pages of its own; nothing outside the pages that were free has been written, and no other process changes.\<close>

theorem fork_correct:
  assumes "table_ok mp s A" "c_proc (cpus s c) = Some p" "p \<in> set (A Running)" "A Free = np # fr" "unlocked c s" "bc_wakeups (k_st s) = []"
    and "umap_ok (ld_end ld) (k_mem (k_st s)) (p_pgdir (pt_proc s p)) (stack # d # fp)" "p_sz (pt_proc s p) \<le> KERNBASE"
    and "npages (p_sz (pt_proc s p)) + 1024 \<le> length fp" "ld_data ld mod PGSIZE = 0" "KERNLINK < ld_data ld" "ld_data ld < p2v PHYSTOP"
    and "\<And>va. pn va < npages (p_sz (pt_proc s p)) \<Longrightarrow> upresent (km_mem (k_mem (k_st s))) (p_pgdir (pt_proc s p)) va"
    and "p_ofile (pt_proc s p) = ofl" "length ofl = NOFILE" "p_ofile (pt_proc s np) = replicate NOFILE None"
    and "\<And>f. Some f \<in> set ofl \<Longrightarrow> 1 \<le> f_ref (ft_file (k_st s) f)" "p_cwd (pt_proc s p) = Some ip"
  shows "\<exists>s' k fr'. fork ld c s = Ok (nextpid s, s') \<and> table_ok mp s' (moved np Free (ready_of (pt_proc s p)) A) \<and> unlocked c s' \<and>
    pt_proc s' = (pt_proc s)(np := forked ld stack d p np s) \<and> k_st s' = fork_st ip ofl k (k_st s) \<and> nextpid s' = nextpid s + 1 \<and>
    umap_ok (ld_end ld) k d fr' \<and> umap_ok (ld_end ld) k (p_pgdir (pt_proc s p)) fr' \<and> space (km_mem k) (p_pgdir (pt_proc s p)) \<inter> space (km_mem k) d = {} \<and>
    untouched_outside (set (stack # d # fp)) (km_mem (k_mem (k_st s))) (km_mem k) \<and>
    (\<forall>va. pn va < npages (p_sz (pt_proc s p)) \<longrightarrow> upresent (km_mem k) d va \<and>
       PTE_FLAGS (pte_of (km_mem k) d va) = PTE_FLAGS (pte_of (km_mem (k_mem (k_st s))) (p_pgdir (pt_proc s p)) va) \<and>
       ubyte (km_mem k) d va = ubyte (km_mem (k_mem (k_st s))) (p_pgdir (pt_proc s p)) va)"
proof -
  let ?m = "km_mem (k_mem (k_st s))" and ?g = "p_pgdir (pt_proc s p)" and ?sz = "p_sz (pt_proc s p)"
  obtain k1 k2 fr' where m: "kalloc (k_mem (k_st s)) = (stack, k1)" "stack \<noteq> 0"
      "copyuvm (ld_end ld) (ld_data ld) ?g ?sz (stack_mem ld stack k1) = Ok (d, k2)" "d \<noteq> 0"
    and k2: "umap_ok (ld_end ld) k2 d fr'" "umap_ok (ld_end ld) k2 ?g fr'" "untouched_outside (set (stack # d # fp)) ?m (km_mem k2)"
      "space (km_mem k2) ?g \<inter> space (km_mem k2) d = {}"
      "\<forall>va. pn va < npages ?sz \<longrightarrow> upresent (km_mem k2) d va \<and> PTE_FLAGS (pte_of (km_mem k2) d va) = PTE_FLAGS (pte_of ?m ?g va) \<and>
         ubyte (km_mem k2) d va = ubyte ?m ?g va"
    using fork_memory [OF assms(7-13), of ld] by blast
  from fork_ok [OF assms(1-6) m assms(14-18)] k2 show ?thesis by blast
qed

abbreviation ex_parent :: "addr \<Rightarrow> nat \<Rightarrow> proc \<Rightarrow> proc" where
  "ex_parent g p pr \<equiv> (if p = 0 then pr\<lparr>p_sz := 12288, p_pgdir := g, p_ofile := (p_ofile pr)[0 := Some 0, 1 := Some 0], p_cwd := Some 0\<rparr> else pr)"

theorem fork_correct_witness:
  "\<exists>k g d s'. fork ex_ld 0 (ex_kern k (ex_parent g)) = Ok (5, s') \<and> p_pgdir (pt_proc s' 4) = d \<and> p_state (pt_proc s' 4) = RUNNABLE \<and>
     p_parent (pt_proc s' 4) = Some 0 \<and> tf_eax (p_tf (pt_proc s' 4)) = 0 \<and> f_ref (ft_file (k_st s') 0) = 3 \<and>
     upresent (km_mem (k_mem (k_st s'))) d 0x2004 \<and> ubyte (km_mem (k_mem (k_st s'))) d 0x2004 = 0"
proof -
  obtain k :: kmem and g fr0 where k: "umap_ok ex_kend k g fr0" "4000 \<le> length fr0"
    and up: "\<And>x. pn x < 3 \<Longrightarrow> upresent (km_mem k) g x \<and> ubyte (km_mem k) g x = 0" using ex_space by blast
  obtain stack fr1 where f1: "fr0 = stack # fr1" using k(2) by (cases fr0) auto
  obtain d fp where f2: "fr1 = d # fp" using k(2) f1 by (cases fr1) auto
  have np: "npages 12288 = 3" by (simp add: npages_def)
  let ?s = "ex_kern k (ex_parent g)" and ?ofl = "Some 0 # Some 0 # replicate 14 None"
  have ofl: "p_ofile (pt_proc ?s 0) = ?ofl" by (simp add: ex_proc_def NOFILE_def numeral_eq_Suc)
  have fr: "ex_A Free = 4 # [5..<NPROC]" by (rule ex_free)
  have "\<exists>s' k' fr'. fork ex_ld 0 ?s = Ok (nextpid ?s, s') \<and> table_ok 2 s' (moved 4 Free (ready_of (pt_proc ?s 0)) ex_A) \<and> unlocked 0 s' \<and>
    pt_proc s' = (pt_proc ?s)(4 := forked ex_ld stack d 0 4 ?s) \<and> k_st s' = fork_st 0 ?ofl k' (k_st ?s) \<and> nextpid s' = nextpid ?s + 1 \<and>
    umap_ok (ld_end ex_ld) k' d fr' \<and> umap_ok (ld_end ex_ld) k' (p_pgdir (pt_proc ?s 0)) fr' \<and> space (km_mem k') (p_pgdir (pt_proc ?s 0)) \<inter> space (km_mem k') d = {} \<and>
    untouched_outside (set (stack # d # fp)) (km_mem (k_mem (k_st ?s))) (km_mem k') \<and>
    (\<forall>va. pn va < npages (p_sz (pt_proc ?s 0)) \<longrightarrow> upresent (km_mem k') d va \<and>
       PTE_FLAGS (pte_of (km_mem k') d va) = PTE_FLAGS (pte_of (km_mem (k_mem (k_st ?s))) (p_pgdir (pt_proc ?s 0)) va) \<and>
       ubyte (km_mem k') d va = ubyte (km_mem (k_mem (k_st ?s))) (p_pgdir (pt_proc ?s 0)) va)"
  proof (rule fork_correct [OF ex_kern_ok _ _ fr ex_kern_unlocked _ _ _ _ _ _ _ _ ofl])
    show "umap_ok (ld_end ex_ld) (k_mem (k_st ?s)) (p_pgdir (pt_proc ?s 0)) (stack # d # fp)" using k(1) f1 f2 by simp
    show "p_sz (pt_proc ?s 0) \<le> KERNBASE" by (simp add: KERNBASE_def)
    show "npages (p_sz (pt_proc ?s 0)) + 1024 \<le> length fp" using k(2) f1 f2 by (simp add: np)
    show "p_ofile (pt_proc ?s 4) = replicate NOFILE None" by (simp add: ex_proc_def)
    fix va assume "pn va < npages (p_sz (pt_proc ?s 0))"
    then show "upresent (km_mem (k_mem (k_st ?s))) (p_pgdir (pt_proc ?s 0)) va" using up by (simp add: np)
  qed (use ex_kdata_ok in \<open>auto simp: NOFILE_def\<close>)
  then obtain s' k' where s: "fork ex_ld 0 ?s = Ok (5, s')" "pt_proc s' = (pt_proc ?s)(4 := forked ex_ld stack d 0 4 ?s)" "k_st s' = fork_st 0 ?ofl k' (k_st ?s)"
    "\<forall>va. pn va < 3 \<longrightarrow> upresent (km_mem k') d va \<and> ubyte (km_mem k') d va = ubyte (km_mem k) g va" by (auto simp: np)
  have "pn 0x2004 < 3" by (simp add: pn_def)
  moreover have "k_mem (k_st s') = k'" "f_ref (ft_file (k_st s') 0) = 3" using s(3) by (simp_all add: fork_st_def upd_inode_def dup_refs_def)
  moreover have "p_pgdir (pt_proc s' 4) = d \<and> p_state (pt_proc s' 4) = RUNNABLE \<and> p_parent (pt_proc s' 4) = Some 0 \<and> tf_eax (p_tf (pt_proc s' 4)) = 0"
    using s(2) by (simp add: forked_def Let_def)
  ultimately show ?thesis using s(1,4) up by (intro exI [of _ k] exI [of _ g] exI [of _ d] exI [of _ s']) simp
qed

lemma copyuvm_no_page: "freelist_ok kend k [] \<Longrightarrow> copyuvm kend kdata g sz k = Ok (0, k)"
  using kalloc_ok [of kend k "[]"] by (simp add: copyuvm_def setupkvm_def)

lemma stack_mem_free:
  assumes "freelist_ok kend k [stack]" "KERNBASE \<le> kend"
  shows "\<exists>k1 k3. kalloc k = (stack, k1) \<and> stack \<noteq> 0 \<and> freelist_ok kend (stack_mem ld stack k1) [] \<and>
    kfree kend stack (stack_mem ld stack k1) = Ok k3 \<and> freelist_ok kend k3 [stack]"
proof -
  let ?k1 = "k\<lparr>km_freelist := load32 (km_mem k) stack\<rparr>"
  have 1: "kalloc k = (stack, ?k1)" "freelist_ok kend ?k1 []" "page_ok kend stack" "stack \<noteq> 0" using kalloc_ok [OF assms(1)] by simp_all
  have 2: "freelist_ok kend (stack_mem ld stack ?k1) []" using 1(2) by (simp add: freelist_ok_def stack_mem_def)
  from kfree_ok [OF 2 1(3) _ 1(4)] show ?thesis using 1(1,4) 2 by auto
qed

text \<open>C12. \<^verbatim>\<open>fork\<close> that cannot succeed: with no free slot, or with memory for the kernel stack only, it returns -1. No process changes but the slot
  that was tried, which is free again; the table invariant holds, the lock is free and the page taken is back on the free list.\<close>

theorem fork_fails:
  assumes "table_ok mp s A" "c_proc (cpus s c) = Some p" "p \<in> set (A Running)" "unlocked c s" "KERNBASE \<le> ld_end ld"
    and "freelist_ok (ld_end ld) (k_mem (k_st s)) fl" "A Free = [] \<or> fl = [stack]"
  shows "\<exists>s' B k. fork ld c s = Ok (-1, s') \<and> table_ok mp s' B \<and> unlocked c s' \<and> (\<forall>l. set (B l) = set (A l)) \<and>
    (\<forall>q. p_state (pt_proc s q) \<noteq> UNUSED \<longrightarrow> pt_proc s' q = pt_proc s q) \<and> k_st s' = (k_st s)\<lparr>k_mem := k\<rparr> \<and> freelist_ok (ld_end ld) k fl"
proof (cases "A Free")
  case Nil
  have "table_ok mp (s\<lparr>cpus := section_cpus c (cpus s)\<rparr>) A" using assms(1) by simp
  moreover have "unlocked c (s\<lparr>cpus := section_cpus c (cpus s)\<rparr>)" using assms(4) by (simp add: unlocked_def)
  ultimately show ?thesis using fork_no_slot [OF assms(1) Nil assms(4), of ld] assms(6)
    by (intro exI [of _ "s\<lparr>cpus := section_cpus c (cpus s)\<rparr>"] exI [of _ A] exI [of _ "k_mem (k_st s)"]) simp
next
  case (Cons np fr)
  then have fl: "fl = [stack]" using assms(7) by simp
  obtain k1 k3 where m: "kalloc (k_mem (k_st s)) = (stack, k1)" "stack \<noteq> 0" "freelist_ok (ld_end ld) (stack_mem ld stack k1) []"
    "kfree (ld_end ld) stack (stack_mem ld stack k1) = Ok k3" "freelist_ok (ld_end ld) k3 [stack]"
    using stack_mem_free [OF assms(6) [unfolded fl] assms(5)] by blast
  from fork_no_memory [OF assms(1-3) Cons assms(4) m(1,2) copyuvm_no_page [OF m(3)] m(4)] obtain s' where
    s: "fork ld c s = Ok (-1, s')" "table_ok mp s' (moved np Free Free A)" "unlocked c s'" "k_st s' = (k_st s)\<lparr>k_mem := k3\<rparr>"
      "\<forall>q. q \<noteq> np \<longrightarrow> pt_proc s' q = pt_proc s q" by blast
  have "p_state (pt_proc s np) = UNUSED" using table_ok_state [OF assms(1), of np Free] Cons by simp
  then have "pt_proc s' q = pt_proc s q" if "p_state (pt_proc s q) \<noteq> UNUSED" for q using s(5) that by (cases "q = np") auto
  moreover have "set (moved np Free Free A l) = set (A l)" for l using Cons by (auto simp: moved_def)
  ultimately show ?thesis using s(1-4) m(5) fl by (intro exI [of _ s'] exI [of _ "moved np Free Free A"] exI [of _ k3]) auto
qed

theorem fork_fails_witness:
  "(\<exists>k s'. fork ex_ld 0 (ex_kern k (\<lambda>_ pr. pr)) = Ok (-1, s') \<and> freelist_ok ex_kend (k_mem (k_st s')) [ex_kend] \<and> pt_proc s' 0 = ex_proc 0)"
proof -
  have pg: "page_ok ex_kend ex_kend" "ex_kend \<noteq> 0" by (simp_all add: page_ok_def ex_kend_def layout)
  have "freelist_ok ex_kend ex_mem []" by (simp add: freelist_ok_def ex_mem_def)
  then obtain m where 1: "freelist_ok ex_kend (ex_mem\<lparr>km_mem := m, km_freelist := ex_kend\<rparr>) [ex_kend]" using kfree_ok [of ex_kend ex_mem "[]" ex_kend] pg by auto
  let ?s = "ex_kern (ex_mem\<lparr>km_mem := m, km_freelist := ex_kend\<rparr>) (\<lambda>_ pr. pr)"
  have "\<exists>s' B k. fork ex_ld 0 ?s = Ok (-1, s') \<and> table_ok 2 s' B \<and> unlocked 0 s' \<and> (\<forall>l. set (B l) = set (ex_A l)) \<and>
    (\<forall>q. p_state (pt_proc ?s q) \<noteq> UNUSED \<longrightarrow> pt_proc s' q = pt_proc ?s q) \<and> k_st s' = (k_st ?s)\<lparr>k_mem := k\<rparr> \<and> freelist_ok (ld_end ex_ld) k [ex_kend]"
    by (rule fork_fails [OF ex_kern_ok _ _ ex_kern_unlocked, where stack = ex_kend]) (use 1 ex_kdata_ok in simp_all)
  moreover have "p_state (ex_proc 0) \<noteq> UNUSED" by (simp add: ex_proc_def)
  ultimately show ?thesis by fastforce
qed

subsection \<open>\<^verbatim>\<open>exit\<close>\<close>

text \<open>C9. The part of \<^verbatim>\<open>exit\<close> under the table lock never panics: the process ends as a zombie at the end of the zombie list, off the running list.
  Its children, dead or alive, pass to \<^verbatim>\<open>initproc\<close>; exactly the sleepers on the parent's channel become ready, and those on
  \<^verbatim>\<open>initproc\<close>'s channel if a zombie child was passed on. Nothing else changes, and the switch is reached with the lock held.\<close>

theorem exit_correct:
  assumes "table_ok mp s A" "c_proc (cpus s c) = Some p" "p \<in> set (A Running)" "unlocked c s" "c_ncli (cpus s c) = 0"
  shows "\<exists>s' B. exit_table mp c p s = Ok (c_if (cpus s c), s') \<and> table_ok mp s' B \<and> locked_by c s' \<and>
    B Running = remove1 p (A Running) \<and> B Zombie = A Zombie @ [p] \<and> B Embryo = A Embryo \<and> B Free = A Free \<and> p_state (pt_proc s' p) = ZOMBIE \<and>
    (\<forall>q < NPROC. q \<noteq> p \<longrightarrow> pt_proc s' q =
      (pt_proc s q)\<lparr>p_state := (if p_state (pt_proc s q) = SLEEPING \<and> (p_chan (pt_proc s q) = chan_of (p_parent (pt_proc s p)) \<or>
           p_chan (pt_proc s q) = chan_of (initproc s) \<and> (\<exists>z < NPROC. p_state (pt_proc s z) = ZOMBIE \<and> p_parent (pt_proc s z) = Some p))
         then RUNNABLE else p_state (pt_proc s q)),
       p_parent := (if p_parent (pt_proc s q) = Some p \<and> p_state (pt_proc s q) \<noteq> UNUSED then initproc s else p_parent (pt_proc s q))\<rparr>)"
  using exit_table_ok [OF assms] unfolding exit_proc_def exit_wakes_def by blast

theorem exit_correct_witness:
  "\<exists>s' B. exit_table 2 0 0 (ex_state\<lparr>initproc := Some 2\<rparr>) = Ok (True, s') \<and> table_ok 2 s' B \<and> B Zombie = [3, 0] \<and> B Running = [] \<and>
     p_parent (pt_proc s' 3) = Some 2 \<and> p_parent (pt_proc s' 1) = Some 2 \<and> p_state (pt_proc s' 1) = SLEEPING"
proof -
  let ?s = "ex_state\<lparr>initproc := Some 2\<rparr>"
  have "table_ok 2 ?s ex_A" "unlocked 0 ?s" using ex_table_ok ex_unlocked [of 0] by (simp_all add: table_ok_def unlocked_def)
  from exit_correct [OF this(1) _ _ this(2), of 0] obtain s' B where
    s: "exit_table 2 0 0 ?s = Ok (True, s')" "table_ok 2 s' B" "B Running = []" "B Zombie = [3, 0]"
      "\<forall>q < NPROC. q \<noteq> 0 \<longrightarrow> pt_proc s' q =
      (pt_proc ?s q)\<lparr>p_state := (if p_state (pt_proc ?s q) = SLEEPING \<and> (p_chan (pt_proc ?s q) = chan_of (p_parent (pt_proc ?s 0)) \<or>
           p_chan (pt_proc ?s q) = chan_of (initproc ?s) \<and> (\<exists>z < NPROC. p_state (pt_proc ?s z) = ZOMBIE \<and> p_parent (pt_proc ?s z) = Some 0))
         then RUNNABLE else p_state (pt_proc ?s q)),
       p_parent := (if p_parent (pt_proc ?s q) = Some 0 \<and> p_state (pt_proc ?s q) \<noteq> UNUSED then initproc ?s else p_parent (pt_proc ?s q))\<rparr>"
    by auto
  have "p_parent (pt_proc s' 3) = Some 2" using spec [OF s(5), of 3] by (simp add: NPROC_def ex_proc_def)
  moreover have "p_parent (pt_proc s' 1) = Some 2 \<and> p_state (pt_proc s' 1) = SLEEPING"
    using spec [OF s(5), of 1] by (simp add: NPROC_def ex_proc_def chan_of_def)
  ultimately show ?thesis using s(1-4) by blast
qed

subsection \<open>\<^verbatim>\<open>wait\<close>\<close>

text \<open>C10. \<^verbatim>\<open>wait\<close> with a zombie child reaps the first one on the zombie list: it returns its pid, the slot moves to the free list with its pid, parent,
  name and kill flag cleared, and nothing of the dead process is leaked: the free pages are those from before, the kernel stack, the page tables
  and the user pages. No other process and no other memory changes.\<close>

theorem wait_reaps:
  assumes "table_ok mp s A" "c_proc (cpus s c) = Some p" "unlocked c s"
    and "\<And>q. q < NPROC \<Longrightarrow> p_state (pt_proc s q) = ZOMBIE \<Longrightarrow> ppid c q s = Ok (pp q)"
    and "List.find (\<lambda>q. pp q = p_pid (pt_proc s p)) (A Zombie) = Some q"
    and "umap_ok (ld_end ld) (k_mem (k_st s)) (p_pgdir (pt_proc s q)) fr" "KERNBASE < ld_end ld" "page_ok (ld_end ld) (p_kstack (pt_proc s q))"
      "p_kstack (pt_proc s q) \<notin> set fr" "p_kstack (pt_proc s q) \<notin> space (km_mem (k_mem (k_st s))) (p_pgdir (pt_proc s q))"
  shows "\<exists>s' k fr'. wait mp ld c s = Ok (WDone (p_pid (pt_proc s q)), s') \<and> table_ok mp s' (moved q Zombie Free A) \<and> unlocked c s' \<and>
    pt_proc s' = (pt_proc s)(q := reaped (pt_proc s q)) \<and> k_st s' = (k_st s)\<lparr>k_mem := k\<rparr> \<and> freelist_ok (ld_end ld) k fr' \<and>
    set fr' = insert (p_kstack (pt_proc s q)) (set fr \<union> space (km_mem (k_mem (k_st s))) (p_pgdir (pt_proc s q))) \<and>
    untouched_outside (insert (p_kstack (pt_proc s q)) (space (km_mem (k_mem (k_st s))) (p_pgdir (pt_proc s q)))) (km_mem (k_mem (k_st s))) (km_mem k)"
proof -
  obtain k1 k2 fr' where m: "kfree (ld_end ld) (p_kstack (pt_proc s q)) (k_mem (k_st s)) = Ok k1" "freevm (ld_end ld) (p_pgdir (pt_proc s q)) k1 = Ok k2"
    "freelist_ok (ld_end ld) k2 fr'" "set fr' = insert (p_kstack (pt_proc s q)) (set fr \<union> space (km_mem (k_mem (k_st s))) (p_pgdir (pt_proc s q)))"
    "untouched_outside (insert (p_kstack (pt_proc s q)) (space (km_mem (k_mem (k_st s))) (p_pgdir (pt_proc s q)))) (km_mem (k_mem (k_st s))) (km_mem k2)"
    using reap_memory [OF assms(6-8,9,10)] by blast
  from wait_reap_ok [OF assms(1-5) m(1,2)] show ?thesis using m(3-5) by blast
qed

abbreviation ex_zombie :: "addr \<Rightarrow> addr \<Rightarrow> nat \<Rightarrow> proc \<Rightarrow> proc" where
  "ex_zombie g st p pr \<equiv> (if p = 3 then pr\<lparr>p_pgdir := g, p_kstack := st\<rparr> else pr)"

theorem wait_reaps_witness:
  "\<exists>k g st s' fr'. wait 2 ex_ld 0 (ex_kern k (ex_zombie g st)) = Ok (WDone 4, s') \<and> p_state (pt_proc s' 3) = UNUSED \<and>
     freelist_ok ex_kend (k_mem (k_st s')) fr' \<and> st \<in> set fr' \<and> g \<in> set fr' \<and> upage (km_mem k) g 0x1000 \<in> set fr'"
proof -
  obtain k0 :: kmem and g fr0 where k: "umap_ok ex_kend k0 g fr0" "4000 \<le> length fr0"
    and up: "\<And>x. pn x < 3 \<Longrightarrow> upresent (km_mem k0) g x" using ex_space by blast
  obtain st fr where f: "fr0 = st # fr" using k(2) by (cases fr0) auto
  note pp = pop_page [OF umap_okD(1) [OF k(1) [unfolded f]]]
  let ?k = "k0\<lparr>km_freelist := load32 (km_mem k0) st\<rparr>"
  have sp: "st \<notin> space (km_mem k0) g" "set fr \<inter> space (km_mem k0) g = {}" using space_free [OF k(1)] f by auto
  have ok: "umap_ok ex_kend ?k g fr" using umap_ok_frame [OF k(1), of ?k fr] vm_okD(1) [OF pp(1)] sp(2) by simp
  let ?s = "ex_kern ?k (ex_zombie g st)"
  have "\<exists>s' k' fr'. wait 2 ex_ld 0 ?s = Ok (WDone (p_pid (pt_proc ?s 3)), s') \<and> table_ok 2 s' (moved 3 Zombie Free ex_A) \<and> unlocked 0 s' \<and>
    pt_proc s' = (pt_proc ?s)(3 := reaped (pt_proc ?s 3)) \<and> k_st s' = (k_st ?s)\<lparr>k_mem := k'\<rparr> \<and> freelist_ok (ld_end ex_ld) k' fr' \<and>
    set fr' = insert (p_kstack (pt_proc ?s 3)) (set fr \<union> space (km_mem (k_mem (k_st ?s))) (p_pgdir (pt_proc ?s 3))) \<and>
    untouched_outside (insert (p_kstack (pt_proc ?s 3)) (space (km_mem (k_mem (k_st ?s))) (p_pgdir (pt_proc ?s 3)))) (km_mem (k_mem (k_st ?s))) (km_mem k')"
  proof (rule wait_reaps [OF ex_kern_ok _ ex_kern_unlocked])
    show "ppid 0 q ?s = Ok (if q = 3 then 1 else 0)" if "p_state (pt_proc ?s q) = ZOMBIE" for q
      using that by (auto simp: ppid_def ex_proc_def split: if_splits)
    show "List.find (\<lambda>q. (if q = 3 then 1 else 0) = p_pid (pt_proc ?s 0)) (ex_A Zombie) = Some 3" by simp
  qed (use ok pp(4,7) sp(1) in \<open>auto simp: KERNBASE_def ex_kend_def\<close>)
  then obtain s' k' fr' where s: "wait 2 ex_ld 0 ?s = Ok (WDone 4, s')" "pt_proc s' = (pt_proc ?s)(3 := reaped (pt_proc ?s 3))" "k_st s' = (k_st ?s)\<lparr>k_mem := k'\<rparr>"
    "freelist_ok ex_kend k' fr'" "set fr' = insert st (set fr \<union> space (km_mem k0) g)" by auto
  have "upresent (km_mem k0) g 0x1000" using up [of "0x1000"] by (simp add: pn_def)
  then have "g \<in> space (km_mem k0) g" "upage (km_mem k0) g 0x1000 \<in> space (km_mem k0) g" by (auto simp: space_def vm_pages_def upages_def)
  moreover have "p_state (pt_proc s' 3) = UNUSED" using s(2) by (simp add: reaped_def)
  ultimately show ?thesis using s by (intro exI [of _ ?k] exI [of _ g] exI [of _ st] exI [of _ s'] exI [of _ fr']) simp
qed

text \<open>C11. \<^verbatim>\<open>wait\<close> with no zombie child: with a live child and no pending kill the process goes to sleep on its own channel, lock held, and nothing
  else changes; otherwise it returns -1 and the table is as before. \<open>pp q\<close> is the pid read through the parent pointer of slot \<open>q\<close>.\<close>

theorem wait_sleeps:
  assumes "table_ok mp s A" "c_proc (cpus s c) = Some p" "p \<in> set (A Running)" "unlocked c s" "c_ncli (cpus s c) = 0"
    and "\<And>q. q < NPROC \<Longrightarrow> p_state (pt_proc s q) \<noteq> UNUSED \<Longrightarrow> ppid c q s = Ok (pp q)"
    and "List.find (\<lambda>q. pp q = p_pid (pt_proc s p)) (A Zombie) = None"
    and "kids \<longleftrightarrow> (\<exists>q < NPROC. p_state (pt_proc s q) \<noteq> UNUSED \<and> pp q = p_pid (pt_proc s p))"
  shows "if kids \<and> \<not> p_killed (pt_proc s p)
    then \<exists>s'. wait mp ld c s = Ok (WSleep (c_if (cpus s c)) True, s') \<and> table_ok mp s' (moved p Running Sleep A) \<and> locked_by c s' \<and>
           p_state (pt_proc s' p) = SLEEPING \<and> p_chan (pt_proc s' p) = ChProc p \<and> (\<forall>q. q \<noteq> p \<longrightarrow> pt_proc s' q = pt_proc s q)
    else wait mp ld c s = Ok (WDone (-1), s\<lparr>cpus := section_cpus c (cpus s)\<rparr>)"
  by (rule wait_ok [OF assms])

abbreviation ex_family :: "nat \<Rightarrow> proc \<Rightarrow> proc" where
  "ex_family p pr \<equiv> pr\<lparr>p_parent := (if p = 1 \<or> p = 2 then Some 0 else Some 2)\<rparr>"

theorem wait_sleeps_witness:
  "\<exists>s'. wait 2 ex_ld 0 (ex_kern ex_mem ex_family) = Ok (WSleep True True, s') \<and> p_state (pt_proc s' 0) = SLEEPING \<and> p_chan (pt_proc s' 0) = ChProc 0"
proof -
  let ?s = "ex_kern ex_mem ex_family"
  have "if True \<and> \<not> p_killed (pt_proc ?s 0)
    then \<exists>s'. wait 2 ex_ld 0 ?s = Ok (WSleep (c_if (cpus ?s 0)) True, s') \<and> table_ok 2 s' (moved 0 Running Sleep ex_A) \<and> locked_by 0 s' \<and>
           p_state (pt_proc s' 0) = SLEEPING \<and> p_chan (pt_proc s' 0) = ChProc 0 \<and> (\<forall>q. q \<noteq> 0 \<longrightarrow> pt_proc s' q = pt_proc ?s q)
    else wait 2 ex_ld 0 ?s = Ok (WDone (-1), ?s\<lparr>cpus := section_cpus 0 (cpus ?s)\<rparr>)"
  proof (rule wait_sleeps [OF ex_kern_ok _ _ ex_kern_unlocked])
    show "ppid 0 q ?s = Ok (if q = 1 \<or> q = 2 then 1 else 3)" for q by (simp add: ppid_def ex_proc_def)
    show "True \<longleftrightarrow> (\<exists>q < NPROC. p_state (pt_proc ?s q) \<noteq> UNUSED \<and> (if q = 1 \<or> q = 2 then 1 else 3) = p_pid (pt_proc ?s 0))"
      by (auto simp: NPROC_def ex_proc_def intro!: exI [of _ 1])
  qed simp_all
  then show ?thesis by auto
qed

subsection \<open>The list-based kernel against the table scan\<close>

text \<open>C31. The kernel with state lists against the one that scans the table. On a table with the invariant, the \<^verbatim>\<open>wakeup1\<close> that walks the sleep list
  leaves every process as the \<^verbatim>\<open>wakeup1\<close> that scans all of \<^verbatim>\<open>ptable.proc\<close> does, and every other field but the list pointers too;
  the pointers then hold the lists with the woken processes moved. When no two processes share the pid, and the first slot of the table with the pid, if there is one, is not a free
  slot, \<^verbatim>\<open>kill\<close> over the state lists returns what the scan returns and leaves the same processes. A failed \<^verbatim>\<open>fork\<close> leaves the pid behind in a free
  slot; when that is the first slot with the pid, the two differ: the scan marks the free slot as killed and returns 0, the lists do not touch it and return 0 exactly if a process
  has the pid.\<close>

theorem lists_equiv_scan:
  assumes "table_ok mp s A" "unlocked c s" "unique_pid pid s"
  shows "(\<exists>ls. wakeup1 ch s = Ok ((classic_wakeup1 ch s)\<lparr>pLists := ls\<rparr>) \<and>
      table_ok mp ((classic_wakeup1 ch s)\<lparr>pLists := ls\<rparr>) (wake_lists ch (pt_proc s) (A Sleep) A)) \<and>
    (\<exists>r t r' t'. kill mp c pid s = Ok (r, t) \<and> classic_kill c pid s = Ok (r', t') \<and>
      (case first_slot pid s of
         None \<Rightarrow> r = r' \<and> pt_proc t = pt_proc t'
       | Some p \<Rightarrow> if p_state (pt_proc s p) \<noteq> UNUSED then r = r' \<and> pt_proc t = pt_proc t'
                   else r' = 0 \<and> pt_proc t' = (pt_proc s)(p := (pt_proc s p)\<lparr>p_killed := True\<rparr>) \<and> pt_proc t p = pt_proc s p \<and>
                     (r = 0 \<longleftrightarrow> (\<exists>q < NPROC. p_pid (pt_proc s q) = pid \<and> p_state (pt_proc s q) \<noteq> UNUSED))))"
  by (rule conjI [OF wakeup1_classic [OF assms(1)] kill_scan [OF assms]])

theorem lists_equiv_scan_witness:
  "first_slot 2 ex_state = Some 1 \<and> (\<exists>s'. wakeup1 ChTicks ex_state = Ok s' \<and> pt_proc s' = pt_proc (classic_wakeup1 ChTicks ex_state) \<and> p_state (pt_proc s' 1) = RUNNABLE) \<and>
   (\<exists>r t t'. kill 2 0 2 ex_state = Ok (r, t) \<and> classic_kill 0 2 ex_state = Ok (r, t') \<and> pt_proc t = pt_proc t')"
proof -
  have pid: "p_pid (ex_proc q) = 2 \<longleftrightarrow> q = 1" for q
  proof -
    have "q = 0 \<or> q = 1 \<or> q = 2 \<or> q = 3 \<or> 4 \<le> q" by linarith
    then show ?thesis by (elim disjE) (simp_all add: ex_proc_def)
  qed
  have st: "p_state (ex_proc 1) \<noteq> UNUSED" by (simp add: ex_proc_def)
  have u: "unique_pid 2 ex_state" by (simp add: unique_pid_def pid)
  have f: "first_slot 2 ex_state = Some 1" by (simp add: first_slot_def pid upt_rec NPROC_def)
  note e = lists_equiv_scan [OF ex_table_ok ex_unlocked u, of ChTicks]
  obtain ls where "wakeup1 ChTicks ex_state = Ok ((classic_wakeup1 ChTicks ex_state)\<lparr>pLists := ls\<rparr>)" using e by blast
  moreover have "p_state (pt_proc (classic_wakeup1 ChTicks ex_state) 1) = RUNNABLE"
    unfolding classic_wakeup1_procs by (simp add: NPROC_def ex_proc_def)
  ultimately show ?thesis using f st e by auto
qed

end
