(* ===== verification/Syscall.thy ===== *)
theory Syscall
  imports Kernel
begin

text \<open>
  System call arguments, the first half of \<^verbatim>\<open>syscall.c\<close>, and the process system calls of \<^verbatim>\<open>sysproc.c\<close>.

  A fetch that fails is \<open>None\<close>, where the code returns \<open>-1\<close> and leaves the destination as it was. Several calls
  do not look at the result; the destination is then an uninitialised variable, whose value is the parameter \<open>junk\<close>.
  A string argument is the list of its bytes before the null byte.

  A system call returns a value, or leaves the processor: \<open>SSwitch\<close> has the saved interrupt flag and what the call takes
  up with when it runs again (\<open>sys_resume\<close>), \<open>SExit\<close> never runs again.
\<close>

subsection \<open>Arguments\<close>

definition fetchint :: "nat \<Rightarrow> addr \<Rightarrow> kernel \<Rightarrow> 32 word option res" where
  "fetchint c a s =
     with_proc c s (\<lambda>p.
     if p_sz (pt_proc s p) \<le> a \<or> p_sz (pt_proc s p) < a + 4 then Ok None
     else rbind (vload32 c a s) (\<lambda>w. Ok (Some w)))"

fun strscan :: "nat \<Rightarrow> nat \<Rightarrow> addr \<Rightarrow> kernel \<Rightarrow> byte list option res" where
  "strscan 0 c a s = Ok None"
| "strscan (Suc n) c a s =
     rbind (vload c a s) (\<lambda>b.
     if b = 0 then Ok (Some [])
     else rbind (strscan n c (a + 1) s) (\<lambda>r. Ok (map_option (\<lambda>bs. b # bs) r)))"

definition fetchstr :: "nat \<Rightarrow> addr \<Rightarrow> kernel \<Rightarrow> byte list option res" where
  "fetchstr c a s =
     with_proc c s (\<lambda>p.
     if p_sz (pt_proc s p) \<le> a then Ok None else strscan (unat (p_sz (pt_proc s p) - a)) c a s)"

definition argint :: "nat \<Rightarrow> nat \<Rightarrow> kernel \<Rightarrow> 32 word option res" where
  "argint c n s = with_proc c s (\<lambda>p. fetchint c (tf_esp (p_tf (pt_proc s p)) + 4 + 4 * of_nat n) s)"

definition argptr :: "nat \<Rightarrow> nat \<Rightarrow> 32 word \<Rightarrow> kernel \<Rightarrow> addr option res" where
  "argptr c n size' s =
     rbind (argint c n s) (\<lambda>r. case r of
       None \<Rightarrow> Ok None
     | Some i \<Rightarrow> with_proc c s (\<lambda>p.
         if p_sz (pt_proc s p) \<le> i \<or> p_sz (pt_proc s p) < i + size' then Ok None else Ok (Some i)))"

definition argstr :: "nat \<Rightarrow> nat \<Rightarrow> kernel \<Rightarrow> byte list option res" where
  "argstr c n s = rbind (argint c n s) (\<lambda>r. case r of None \<Rightarrow> Ok None | Some a \<Rightarrow> fetchstr c a s)"

text \<open>An argument whose fetch is not checked.\<close>

definition arg_junk :: "32 word \<Rightarrow> 32 word option \<Rightarrow> 32 word" where
  "arg_junk junk r = (case r of None \<Rightarrow> junk | Some w \<Rightarrow> w)"

subsection \<open>Results\<close>

datatype pending =
    PWait bool
  | PTicks "32 word" "32 word"
  | PRead nat addr "32 word"
  | PWrite nat "byte list" "32 word"

datatype sysres = SRet "32 word" | SSwitch bool pending | SExit

definition ret :: "32 word \<Rightarrow> kernel \<Rightarrow> (sysres \<times> kernel) res" where
  "ret w s = Ok (SRet w, s)"

definition ret_of :: "(int \<times> kernel) res \<Rightarrow> (sysres \<times> kernel) res" where
  "ret_of m = rbind m (\<lambda>(r, s). ret (of_int r) s)"

subsection \<open>Processes\<close>

definition sys_fork :: "linkmap \<Rightarrow> nat \<Rightarrow> kernel \<Rightarrow> (sysres \<times> kernel) res" where
  "sys_fork ld c s = rbind (fork ld c s) (\<lambda>(pid, s1). ret pid s1)"

definition sys_exit :: "nat \<Rightarrow> linkmap \<Rightarrow> nat \<Rightarrow> kernel \<Rightarrow> (sysres \<times> kernel) res" where
  "sys_exit mp ld c s = rbind (exit mp ld c s) (\<lambda>(_, s1). Ok (SExit, s1))"

definition wait_result :: "wres \<times> kernel \<Rightarrow> (sysres \<times> kernel) res" where
  "wait_result = (\<lambda>(r, s). case r of WDone pid \<Rightarrow> ret pid s | WSleep intena hk \<Rightarrow> Ok (SSwitch intena (PWait hk), s))"

definition sys_wait :: "nat \<Rightarrow> linkmap \<Rightarrow> nat \<Rightarrow> kernel \<Rightarrow> (sysres \<times> kernel) res" where
  "sys_wait mp ld c s = rbind (wait mp ld c s) wait_result"

definition sys_kill :: "nat \<Rightarrow> nat \<Rightarrow> kernel \<Rightarrow> (sysres \<times> kernel) res" where
  "sys_kill mp c s =
     rbind (argint c 0 s) (\<lambda>r. case r of None \<Rightarrow> ret (-1) s | Some pid \<Rightarrow> ret_of (kill mp c pid s))"

definition sys_getpid :: "nat \<Rightarrow> kernel \<Rightarrow> (sysres \<times> kernel) res" where
  "sys_getpid c s = with_proc c s (\<lambda>p. ret (p_pid (pt_proc s p)) s)"

definition sys_sbrk :: "linkmap \<Rightarrow> nat \<Rightarrow> kernel \<Rightarrow> (sysres \<times> kernel) res" where
  "sys_sbrk ld c s =
     rbind (argint c 0 s) (\<lambda>r. case r of
       None \<Rightarrow> ret (-1) s
     | Some n \<Rightarrow> with_proc c s (\<lambda>p.
         let addr = p_sz (pt_proc s p) in
         rbind (growproc ld c n s) (\<lambda>(rc, s1). if rc < 0 then ret (-1) s1 else ret addr s1)))"

text \<open>The loop of \<^verbatim>\<open>sys_sleep\<close>: the time still to wait is compared as an unsigned number.\<close>

definition sleep_ticks :: "nat \<Rightarrow> nat \<Rightarrow> 32 word \<Rightarrow> 32 word \<Rightarrow> kernel \<Rightarrow> (sysres \<times> kernel) res" where
  "sleep_ticks mp c ticks0 n s =
     (if ticks s - ticks0 < n then
        with_proc c s (\<lambda>p.
        if p_killed (pt_proc s p) then ret (-1) s
        else rbind (sleep mp c ChTicks NoLock s) (\<lambda>(intena, _, s1). Ok (SSwitch intena (PTicks ticks0 n), s1)))
      else ret 0 s)"

definition sys_sleep :: "nat \<Rightarrow> nat \<Rightarrow> kernel \<Rightarrow> (sysres \<times> kernel) res" where
  "sys_sleep mp c s =
     rbind (argint c 0 s) (\<lambda>r. case r of None \<Rightarrow> ret (-1) s | Some n \<Rightarrow> sleep_ticks mp c (ticks s) n s)"

definition sys_uptime :: "kernel \<Rightarrow> (sysres \<times> kernel) res" where
  "sys_uptime s = ret (ticks s) s"

text \<open>The machine is not switched off by a write to the port when there is no such device.\<close>

definition sys_halt :: "nat \<Rightarrow> kernel \<Rightarrow> (sysres \<times> kernel) res" where
  "sys_halt c s = rbind (kprintf c ''Shutting down ...\<newline>'' [] s) (ret 0)"

subsection \<open>The clock\<close>

text \<open>\<^verbatim>\<open>cmostime\<close> of \<^verbatim>\<open>lapic.c\<close>, over the values \<open>cmos\<close> of the registers, which do not change while it reads them.\<close>

record rtcdate =
  rtc_second :: "32 word"
  rtc_minute :: "32 word"
  rtc_hour :: "32 word"
  rtc_day :: "32 word"
  rtc_month :: "32 word"
  rtc_year :: "32 word"

definition fill_rtcdate :: "(nat \<Rightarrow> byte) \<Rightarrow> rtcdate" where
  "fill_rtcdate cmos =
     \<lparr>rtc_second = ucast (cmos 0), rtc_minute = ucast (cmos 2), rtc_hour = ucast (cmos 4), rtc_day = ucast (cmos 7),
      rtc_month = ucast (cmos 8), rtc_year = ucast (cmos 9)\<rparr>"

definition rtc_conv :: "32 word \<Rightarrow> 32 word" where
  "rtc_conv x = drop_bit 4 x * 10 + (x AND 0xF)"

definition cmostime :: "(nat \<Rightarrow> byte) \<Rightarrow> rtcdate res" where
  "cmostime cmos =
     (if bit (cmos 10) 7 then Diverge
      else let t1 = fill_rtcdate cmos;
               t = (if bit (cmos 11) 2 then t1
                    else \<lparr>rtc_second = rtc_conv (rtc_second t1), rtc_minute = rtc_conv (rtc_minute t1),
                          rtc_hour = rtc_conv (rtc_hour t1), rtc_day = rtc_conv (rtc_day t1),
                          rtc_month = rtc_conv (rtc_month t1), rtc_year = rtc_conv (rtc_year t1)\<rparr>)
           in Ok (t\<lparr>rtc_year := rtc_year t + 2000\<rparr>))"

definition rtc_bytes :: "rtcdate \<Rightarrow> byte list" where
  "rtc_bytes d = concat (map word_bytes [rtc_second d, rtc_minute d, rtc_hour d, rtc_day d, rtc_month d, rtc_year d])"

definition sys_date :: "(nat \<Rightarrow> byte) \<Rightarrow> nat \<Rightarrow> kernel \<Rightarrow> (sysres \<times> kernel) res" where
  "sys_date cmos c s =
     rbind (argptr c 0 24 s) (\<lambda>r. case r of
       None \<Rightarrow> ret (-1) s
     | Some a \<Rightarrow>
         rbind (cmostime cmos) (\<lambda>d.
         rbind (vstores c (rtc_bytes d) a s) (\<lambda>s1.
         rbind (kprintf c ''Year: %d Month: %d Day: %d Time: %d:%d (GMT)\<newline>''
                  [PWord (rtc_year d), PWord (rtc_month d), PWord (rtc_day d), PWord (rtc_hour d), PWord (rtc_minute d)] s1) (ret 0))))"

subsection \<open>Users and priorities\<close>

definition sys_getuid :: "nat \<Rightarrow> kernel \<Rightarrow> (sysres \<times> kernel) res" where
  "sys_getuid c s = with_proc c s (\<lambda>p. ret (p_uid (pt_proc s p)) s)"

definition sys_getgid :: "nat \<Rightarrow> kernel \<Rightarrow> (sysres \<times> kernel) res" where
  "sys_getgid c s = with_proc c s (\<lambda>p. ret (p_gid (pt_proc s p)) s)"

definition sys_getppid :: "nat \<Rightarrow> kernel \<Rightarrow> (sysres \<times> kernel) res" where
  "sys_getppid c s =
     with_proc c s (\<lambda>p.
     ret (case p_parent (pt_proc s p) of Some q \<Rightarrow> p_pid (pt_proc s q) | None \<Rightarrow> p_pid (pt_proc s p)) s)"

definition sys_setuid :: "32 word \<Rightarrow> nat \<Rightarrow> kernel \<Rightarrow> (sysres \<times> kernel) res" where
  "sys_setuid junk c s =
     rbind (argint c 0 s) (\<lambda>r. with_proc c s (\<lambda>p.
     let id' = arg_junk junk r in
     if id' < 32768 then ret 0 (upd_proc p (\<lambda>pr. pr\<lparr>p_uid := id'\<rparr>) s) else ret (-1) s))"

definition sys_setgid :: "32 word \<Rightarrow> nat \<Rightarrow> kernel \<Rightarrow> (sysres \<times> kernel) res" where
  "sys_setgid junk c s =
     rbind (argint c 0 s) (\<lambda>r. with_proc c s (\<lambda>p.
     let id' = arg_junk junk r in
     if id' < 32768 then ret 0 (upd_proc p (\<lambda>pr. pr\<lparr>p_gid := id'\<rparr>) s) else ret (-1) s))"

definition sys_setpriority :: "32 word \<Rightarrow> 32 word \<Rightarrow> nat \<Rightarrow> nat \<Rightarrow> kernel \<Rightarrow> (sysres \<times> kernel) res" where
  "sys_setpriority junk junk' mp c s =
     rbind (argint c 0 s) (\<lambda>r. rbind (argint c 1 s) (\<lambda>r'.
     ret_of (setpriority mp c (arg_junk junk r) (sint (arg_junk junk' r')) s)))"

subsection \<open>\<^verbatim>\<open>getprocs\<close>\<close>

record uproc =
  u_pid :: "32 word"
  u_uid :: "32 word"
  u_gid :: "32 word"
  u_ppid :: "32 word"
  u_elapsed_ticks :: "32 word"
  u_CPU_total_ticks :: "32 word"
  u_state :: "byte list"
  u_size :: "32 word"
  u_name :: "byte list"

definition STRMAX :: nat where "STRMAX = 32"

fun states :: "procstate \<Rightarrow> string" where
  "states UNUSED = ''unused''"
| "states EMBRYO = ''embryo''"
| "states SLEEPING = ''sleep ''"
| "states RUNNABLE = ''runble''"
| "states RUNNING = ''run   ''"
| "states ZOMBIE = ''zombie''"

text \<open>The result of \<^verbatim>\<open>strncpy\<close> into a field of \<^verbatim>\<open>STRMAX\<close> bytes: padded with null bytes.\<close>

definition str_field :: "string \<Rightarrow> byte list" where
  "str_field cs = take STRMAX (bytes_of cs @ replicate STRMAX 0)"

definition getuproc :: "nat \<Rightarrow> nat \<Rightarrow> kernel \<Rightarrow> uproc res" where
  "getuproc c q s =
     (let pr = pt_proc s q in
      rbind (ppid c q s) (\<lambda>pp.
      Ok \<lparr>u_pid = p_pid pr, u_uid = p_uid pr, u_gid = p_gid pr, u_ppid = pp,
          u_elapsed_ticks = p_cpu_ticks_total pr - p_cpu_ticks_in pr, u_CPU_total_ticks = p_cpu_ticks_total pr,
          u_state = str_field (states (p_state pr)), u_size = p_sz pr, u_name = str_field (p_name pr)\<rparr>))"

text \<open>The field \<^verbatim>\<open>priority\<close> is never set; \<open>junk\<close> is what the stack had there.\<close>

definition uproc_bytes :: "32 word \<Rightarrow> uproc \<Rightarrow> byte list" where
  "uproc_bytes junk u =
     concat (map word_bytes [u_pid u, u_uid u, u_gid u, u_ppid u, u_elapsed_ticks u, u_CPU_total_ticks u]) @
     u_state u @ word_bytes (u_size u) @ u_name u @ word_bytes junk"

text \<open>
  The test on the state compares the first character of its name with the values of the enumeration. \<^verbatim>\<open>utable\<close> is the
  null pointer throughout: the call of \<^verbatim>\<open>argptr\<close> stores the pointer it fetches at address 0.
\<close>

definition listed :: "uproc \<Rightarrow> bool" where
  "listed u \<longleftrightarrow> u_state u ! 0 \<in> {2, 3, 4, 5}"

fun getprocs_loop :: "32 word \<Rightarrow> nat \<Rightarrow> int \<Rightarrow> nat list \<Rightarrow> int \<Rightarrow> kernel \<Rightarrow> (int \<times> kernel) res" where
  "getprocs_loop junk c mx [] n s = Ok (n, s)"
| "getprocs_loop junk c mx (q # qs) n s =
     (if n < mx then
        rbind (getuproc c q s) (\<lambda>u.
        if listed u then
          rbind (vstores c (uproc_bytes junk u) (of_int n * 96) s) (getprocs_loop junk c mx qs (n + 1))
        else getprocs_loop junk c mx qs n s)
      else Ok (n, s))"

definition sys_getprocs :: "32 word \<Rightarrow> 32 word \<Rightarrow> nat \<Rightarrow> kernel \<Rightarrow> (sysres \<times> kernel) res" where
  "sys_getprocs junk junk' c s =
     rbind (argint c 0 s) (\<lambda>r.
     rbind (argptr c 1 (96 * 50) s) (\<lambda>r'.
     rbind (case r' of None \<Rightarrow> Ok s | Some i \<Rightarrow> vstores c (word_bytes i) 0 s) (\<lambda>s1.
     let mx = sint (arg_junk junk r) in
     if mx < 1 then ret (-1) s1
     else
       rbind (getlock c s1) (\<lambda>(_, s2).
       rbind (getprocs_loop junk' c mx [0..<NPROC] 0 s2) (\<lambda>(n, s3).
       rbind (freelock c s3) (\<lambda>(_, s4). ret (of_int n) s4))))))"

end
