(* ===== verification/SyscallProps.thy ===== *)
theory SyscallProps
  imports Syscall ProcExample
begin

text \<open>
  What the argument fetching of \<^verbatim>\<open>syscall.c\<close> lets through. The process on the processor has its memory mapped below its size; then no fetch
  faults, whatever the stack pointer and the arguments are, and what a fetch accepts lies in the memory of the process.
\<close>

definition user_ok :: "nat \<Rightarrow> nat \<Rightarrow> kernel \<Rightarrow> bool" where
  "user_ok c p s \<longleftrightarrow> c_proc (cpus s c) = Some p \<and> p_sz (pt_proc s p) \<le> KERNBASE \<and>
     (\<forall>a < p_sz (pt_proc s p). upresent (km_mem (k_mem (k_st s))) (p2v (c_cr3 (cpus s c))) a)"

definition ubytes :: "nat \<Rightarrow> kernel \<Rightarrow> addr \<Rightarrow> nat \<Rightarrow> byte list" where
  "ubytes c s a n = map (\<lambda>i. ubyte (km_mem (k_mem (k_st s))) (p2v (c_cr3 (cpus s c))) (a + of_nat i)) [0..<n]"

lemma ubytes_0 [simp]: "ubytes c s a 0 = []"
  by (simp add: ubytes_def)

lemma ubytes_Suc: "ubytes c s a (Suc n) = ubyte (km_mem (k_mem (k_st s))) (p2v (c_cr3 (cpus s c))) a # ubytes c s (a + 1) n"
proof -
  have "[0..<Suc n] = 0 # map Suc [0..<n]" by (simp add: upt_conv_Cons map_Suc_upt)
  then show ?thesis by (simp add: ubytes_def add.assoc)
qed

lemma user_sz: "user_ok c p s \<Longrightarrow> unat (p_sz (pt_proc s p)) \<le> 0x80000000"
  by (simp add: user_ok_def word_le_nat_alt KERNBASE_def)

lemma vload_user:
  assumes "user_ok c p s" "a < p_sz (pt_proc s p)"
  shows "vload c a s = Ok (ubyte (km_mem (k_mem (k_st s))) (p2v (c_cr3 (cpus s c))) a)"
proof -
  have "upresent (km_mem (k_mem (k_st s))) (p2v (c_cr3 (cpus s c))) a" using assms by (simp add: user_ok_def)
  then have "pte_of (km_mem (k_mem (k_st s))) (p2v (c_cr3 (cpus s c))) a AND PTE_P = PTE_P"
    by (auto simp: upresent_def PTE_P_def and_one_eq)
  then show ?thesis by (simp add: vload_def vaddr_def Let_def ubyte_def upage_def)
qed

lemma next_user: "unat a + Suc n \<le> unat (sz :: addr) \<Longrightarrow> a < sz \<and> unat (a + 1) + n \<le> unat sz"
  using unat_lt [of sz] by (auto simp: word_less_nat_alt unat_word_ariths)

lemma vloads_user:
  "user_ok c p s \<Longrightarrow> unat a + n \<le> unat (p_sz (pt_proc s p)) \<Longrightarrow> vloads c n a s = Ok (ubytes c s a n)"
proof (induction n arbitrary: a)
  case (Suc n)
  then show ?case using next_user [OF Suc.prems(2)] by (simp add: ubytes_Suc vload_user)
qed simp

lemma strscan_user:
  "user_ok c p s \<Longrightarrow> unat a + n \<le> unat (p_sz (pt_proc s p)) \<Longrightarrow>
   strscan n c a s = Ok (if 0 \<in> set (ubytes c s a n) then Some (takeWhile (\<lambda>b. b \<noteq> 0) (ubytes c s a n)) else None)"
proof (induction n arbitrary: a)
  case (Suc n)
  then show ?case using next_user [OF Suc.prems(2)] by (simp add: ubytes_Suc vload_user)
qed simp

lemma wraps_not: "unat a + unat n < 2 ^ 32 \<Longrightarrow> unat (a + n) = unat a + unat (n :: 32 word)"
  by (rule unat_add_lem [THEN iffD1]) simp

lemma range_iff:
  assumes "unat sz \<le> 0x80000000" "unat n < 0x80000000"
  shows "sz \<le> a \<or> sz < a + n \<longleftrightarrow> \<not> (unat a < unat sz \<and> unat a + unat n \<le> unat (sz :: addr))"
proof (cases "a < sz")
  case True
  then have "unat a < unat sz" by (simp add: word_less_nat_alt)
  then have "unat (a + n) = unat a + unat n" using assms by (intro wraps_not) simp
  then show ?thesis using True by (auto simp: word_less_nat_alt word_le_nat_alt)
next
  case False
  then show ?thesis by (simp add: word_less_nat_alt word_le_nat_alt)
qed

lemma fetchint_user:
  assumes "user_ok c p s"
  shows "fetchint c a s = Ok (if unat a + 4 \<le> unat (p_sz (pt_proc s p)) then Some (word_of (ubytes c s a 4)) else None)"
proof -
  have p: "c_proc (cpus s c) = Some p" using assms by (simp add: user_ok_def)
  have r: "p_sz (pt_proc s p) \<le> a \<or> p_sz (pt_proc s p) < a + 4 \<longleftrightarrow> \<not> unat a + 4 \<le> unat (p_sz (pt_proc s p))"
    using range_iff [OF user_sz [OF assms], of 4 a] by auto
  show ?thesis
    unfolding fetchint_def with_proc_def p option.case r using vloads_user [OF assms, of a 4] by (simp add: vload32_def)
qed

definition arg_at :: "nat \<Rightarrow> nat \<Rightarrow> kernel \<Rightarrow> addr" where
  "arg_at p n s = tf_esp (p_tf (pt_proc s p)) + 4 + 4 * of_nat n"

text \<open>The word a fetch of the argument should deliver.\<close>

definition arg_of :: "nat \<Rightarrow> nat \<Rightarrow> nat \<Rightarrow> kernel \<Rightarrow> 32 word option" where
  "arg_of c p n s = (if unat (arg_at p n s) + 4 \<le> unat (p_sz (pt_proc s p)) then Some (word_of (ubytes c s (arg_at p n s) 4)) else None)"

lemma argint_user: "user_ok c p s \<Longrightarrow> argint c n s = Ok (arg_of c p n s)"
  using fetchint_user [of c p s "arg_at p n s"] by (simp add: argint_def with_proc_def user_ok_def arg_of_def arg_at_def)

lemma fetchstr_user:
  assumes "user_ok c p s"
  defines "rest \<equiv> \<lambda>a. ubytes c s a (unat (p_sz (pt_proc s p)) - unat a)"
  shows "fetchstr c a s = Ok (if 0 \<in> set (rest a) then Some (takeWhile (\<lambda>b. b \<noteq> 0) (rest a)) else None)"
proof -
  have p: "c_proc (cpus s c) = Some p" using assms by (simp add: user_ok_def)
  show ?thesis
  proof (cases "p_sz (pt_proc s p) \<le> a")
    case True
    then have "rest a = []" by (simp add: rest_def word_le_nat_alt)
    then show ?thesis using True p by (simp add: fetchstr_def with_proc_def)
  next
    case False
    then have "unat (p_sz (pt_proc s p) - a) = unat (p_sz (pt_proc s p)) - unat a" by (simp add: unat_sub)
    moreover have "unat a + (unat (p_sz (pt_proc s p)) - unat a) \<le> unat (p_sz (pt_proc s p))" using False by (simp add: word_le_nat_alt)
    ultimately show ?thesis using False p strscan_user [OF assms(1)] by (simp add: fetchstr_def with_proc_def rest_def)
  qed
qed

subsection \<open>An example process\<close>

text \<open>A process with three pages, whose stack has the word 256 as the second argument.\<close>

lemma ex_user: "\<exists>s. user_ok 0 0 s \<and> p_sz (pt_proc s 0) = 0x3000 \<and> arg_of 0 0 1 s = Some 256"
proof -
  obtain k :: kmem and d fr where k: "umap_ok ex_kend k d fr"
    and up: "\<And>x. pn x < 3 \<Longrightarrow> upresent (km_mem k) d x \<and> ubyte (km_mem k) d x = 0" using ex_space by blast
  define g m where "g = upage (km_mem k) d 0x2000" and "m = (km_mem k)(g + 1 := 1)"
  have pr: "upresent (km_mem k) d 0x2000" using up [of "0x2000"] by (simp add: pn_def)
  have "g mod PGSIZE = 0" using umap_okD(2) [OF k pr] by (simp add: g_def)
  then have "in_page g (g + 1)" using in_page_word [of g 1] by simp
  then have e: "pte_of m d = pte_of (km_mem k) d" unfolding g_def by (intro umap_frame(2) [OF k pr]) (auto simp: m_def g_def)
  define s where "s = (ex_kern (k\<lparr>km_mem := m\<rparr>) (\<lambda>p pr. pr\<lparr>p_sz := 0x3000, p_tf := init_tf\<lparr>tf_esp := 0x1FF8\<rparr>\<rparr>))
      \<lparr>cpus := \<lambda>c. (ex_cpu c)\<lparr>c_cr3 := v2p d\<rparr>\<rparr>"
  have sel: "p_sz (pt_proc s 0) = 0x3000" "km_mem (k_mem (k_st s)) = m" "p2v (c_cr3 (cpus s 0)) = d" "c_proc (cpus s 0) = Some 0" "arg_at 0 1 s = 0x2000"
    by (simp_all add: s_def arg_at_def)
  have "user_ok 0 0 s"
    using up e by (auto simp: user_ok_def sel upresent_def pn_def KERNBASE_def word_less_nat_alt)
  moreover have "ubytes 0 s 0x2000 4 = [0, 1, 0, 0]"
  proof -
    have b: "ubyte m d (0x2000 + x) = (if x = 1 then 1 else 0)" if "x < 4" for x
    proof -
      have x: "unat x < 4" using that by (simp add: word_less_nat_alt)
      then have "unat (0x2000 + x) = 0x2000 + unat x" using wraps_not [of "0x2000" x] by simp
      then have n: "pn (0x2000 + x) = 2" "pn 0x2000 = 2" using x by (simp_all add: pn_def)
      then have "unat (PGROUNDDOWN (0x2000 + x)) = unat (0x2000 :: addr)" by (simp add: PGROUNDDOWN_unat)
      then have o: "PGROUNDDOWN (0x2000 + x) = 0x2000" by (simp only: word_unat_eq_iff)
      have "upage m d (0x2000 + x) = g" "upage (km_mem k) d (0x2000 + x) = g" by (simp_all add: g_def upage_def e) (simp_all add: pte_of_def n)
      then have "ubyte m d (0x2000 + x) = m (g + x)" "ubyte (km_mem k) d (0x2000 + x) = km_mem k (g + x)" by (simp_all add: ubyte_def o)
      then show ?thesis using up [of "0x2000 + x"] n by (simp add: m_def)
    qed
    have "[0..<4] = [0, 1, 2, 3 :: nat]" by (simp add: upt_rec)
    then show ?thesis using b [of 0] b [of 1] b [of 2] b [of 3] by (simp add: ubytes_def sel)
  qed
  ultimately show ?thesis using sel by (auto simp: arg_of_def word_of_def)
qed

subsection \<open>Properties\<close>

text \<open>C19. Fetching system call arguments is safe and exact. For a process whose memory is mapped below its size no fetch faults, whatever the user left in its stack
  pointer. \<^verbatim>\<open>argint\<close> delivers the word on the user stack when all of it is below the size, and fails otherwise. \<^verbatim>\<open>argptr\<close> with a size that is not negative
  accepts a pointer exactly when it is below the size itself and the whole range does not go beyond it, with no way around the test by wrapping. \<^verbatim>\<open>argstr\<close> delivers the bytes up to the
  null byte exactly when there is one below the size.\<close>

theorem args_correct:
  assumes "user_ok c p s" "0 \<le> sint size'"
  shows "argint c n s = Ok (arg_of c p n s) \<and>
    argptr c n size' s = Ok (case arg_of c p n s of None \<Rightarrow> None | Some i \<Rightarrow>
       if unat i < unat (p_sz (pt_proc s p)) \<and> unat i + unat size' \<le> unat (p_sz (pt_proc s p)) then Some i else None) \<and>
    argstr c n s = Ok (case arg_of c p n s of None \<Rightarrow> None | Some a \<Rightarrow>
       let bs = ubytes c s a (unat (p_sz (pt_proc s p)) - unat a) in if 0 \<in> set bs then Some (takeWhile (\<lambda>b. b \<noteq> 0) bs) else None)"
proof -
  have p: "c_proc (cpus s c) = Some p" using assms(1) by (simp add: user_ok_def)
  have "uint size' = sint size'" using assms(2) uint_of_sint [of size'] by simp
  then have "int (unat size') < 0x80000000" using sint_lt [of size'] by simp
  then have "unat size' < 0x80000000" by linarith
  note r = range_iff [OF user_sz [OF assms(1)] this]
  show ?thesis
    using p argint_user [OF assms(1), of n] fetchstr_user [OF assms(1)]
    by (auto simp: argptr_def argstr_def with_proc_def r Let_def split: option.splits)
qed

theorem args_correct_witness: "\<exists>s. argint 0 1 s = Ok (Some 256) \<and> argptr 0 1 4 s = Ok (Some 256) \<and> p_sz (pt_proc s 0) = 0x3000"
proof -
  obtain s where s: "user_ok 0 0 s" "p_sz (pt_proc s 0) = 0x3000" "arg_of 0 0 1 s = Some 256" using ex_user by blast
  show ?thesis using args_correct [OF s(1), of 4 1] s by (intro exI [of _ s]) simp
qed

text \<open>A negative size is not refused: \<^verbatim>\<open>argptr\<close> adds it to the pointer as a 32-bit number, so the sum is below the pointer and passes the test. The count a process
  gives to \<^verbatim>\<open>read\<close> and \<^verbatim>\<open>write\<close> is such a size.\<close>

theorem argptr_negative_size:
  assumes "user_ok c p s" "sint size' < 0" "arg_of c p n s = Some i" "unat i < unat (p_sz (pt_proc s p))" "- sint size' \<le> int (unat i)"
  shows "argptr c n size' s = Ok (Some i)"
proof -
  have p: "c_proc (cpus s c) = Some p" using assms(1) by (simp add: user_ok_def)
  have "uint (i + size') = (uint i + (sint size' + 2 ^ 32)) mod 2 ^ 32"
    using uint_of_sint [of size'] assms(2) by (simp only: uint_word_ariths) simp
  also have "\<dots> = (int (unat i) + sint size') mod 2 ^ 32" by (simp only: add.assoc [symmetric] mod_add_self2) simp
  also have "\<dots> = int (unat i) + sint size'"
  proof (rule mod_pos_pos_trivial)
    have "uint i < 2 ^ 32" using uint_bounded [of i] by simp
    then show "int (unat i) + sint size' < 2 ^ 32" using assms(2) by simp
  qed (use assms(5) in simp)
  finally have "int (unat (i + size')) \<le> int (unat i)" using assms(2) by simp
  then have "unat (i + size') \<le> unat i" by linarith
  then have "\<not> (p_sz (pt_proc s p) \<le> i \<or> p_sz (pt_proc s p) < i + size')" using assms(4) by (simp add: word_less_nat_alt word_le_nat_alt)
  then show ?thesis using p argint_user [OF assms(1), of n] assms(3) by (simp add: argptr_def with_proc_def)
qed

theorem argptr_negative_size_witness: "\<exists>s. argptr 0 1 (- 200) s = Ok (Some 256) \<and> p_sz (pt_proc s 0) = 0x3000"
proof -
  obtain s where s: "user_ok 0 0 s" "p_sz (pt_proc s 0) = 0x3000" "arg_of 0 0 1 s = Some 256" using ex_user by blast
  show ?thesis using argptr_negative_size [OF s(1) _ s(3), of "- 200"] s(2) by (intro exI [of _ s]) simp
qed

end
