(* ===== verification/SysFile.thy ===== *)
theory SysFile
  imports Syscall
begin

text \<open>
  The file system calls of \<^verbatim>\<open>sysfile.c\<close>. The work on inodes and directories (\<open>link\<close>, \<open>unlink\<close>, \<open>create\<close>) is
  defined on the state of the file system; the system calls fetch the arguments, run it, and update the descriptors of the
  process. Data that a call reads is stored in user memory when the call on the file has returned; data that it writes is
  fetched before.
\<close>

subsection \<open>Descriptors\<close>

text \<open>The result is the descriptor with its file.\<close>

definition argfd :: "nat \<Rightarrow> nat \<Rightarrow> kernel \<Rightarrow> (nat \<times> nat) option res" where
  "argfd c n s =
     rbind (argint c n s) (\<lambda>r. case r of
       None \<Rightarrow> Ok None
     | Some fd \<Rightarrow> with_proc c s (\<lambda>p.
         if sint fd < 0 \<or> int NOFILE \<le> sint fd then Ok None
         else Ok (map_option (\<lambda>f. (unat fd, f)) (p_ofile (pt_proc s p) ! unat fd))))"

definition set_ofile :: "nat \<Rightarrow> nat \<Rightarrow> nat option \<Rightarrow> kernel \<Rightarrow> kernel" where
  "set_ofile p fd f s = upd_proc p (\<lambda>pr. pr\<lparr>p_ofile := (p_ofile pr)[fd := f]\<rparr>) s"

definition fdalloc :: "nat \<Rightarrow> nat \<Rightarrow> kernel \<Rightarrow> nat option \<times> kernel" where
  "fdalloc p f s =
     (case List.find (\<lambda>fd. p_ofile (pt_proc s p) ! fd = None) [0..<NOFILE] of
        None \<Rightarrow> (None, s)
      | Some fd \<Rightarrow> (Some fd, set_ofile p fd (Some f) s))"

definition sys_dup :: "nat \<Rightarrow> kernel \<Rightarrow> (sysres \<times> kernel) res" where
  "sys_dup c s =
     rbind (argfd c 0 s) (\<lambda>r. case r of
       None \<Rightarrow> ret (-1) s
     | Some (_, f) \<Rightarrow> with_proc c s (\<lambda>p.
         let (fd, s1) = fdalloc p f s in
         case fd of None \<Rightarrow> ret (-1) s1 | Some d \<Rightarrow> rbind (kact c (filedup f) s1) (ret (of_nat d))))"

definition sys_close :: "linkmap \<Rightarrow> nat \<Rightarrow> kernel \<Rightarrow> (sysres \<times> kernel) res" where
  "sys_close ld c s =
     rbind (argfd c 0 s) (\<lambda>r. case r of
       None \<Rightarrow> ret (-1) s
     | Some (fd, f) \<Rightarrow> with_proc c s (\<lambda>p.
         rbind (kact c (fileclose (ld_end ld) f) (set_ofile p fd None s)) (ret 0)))"

subsection \<open>Reading and writing\<close>

text \<open>A call that finds a pipe empty or full sleeps on its channel and starts over when it is woken.\<close>

definition read_file :: "nat \<Rightarrow> nat \<Rightarrow> nat \<Rightarrow> addr \<Rightarrow> 32 word \<Rightarrow> kernel \<Rightarrow> (sysres \<times> kernel) res" where
  "read_file mp c f a n s =
     with_proc c s (\<lambda>p.
     rbind (kdo c (fileread (kdev p s) (p_killed (pt_proc s p)) f n) s) (\<lambda>(r, s1).
     case r of
       FDone k bs \<Rightarrow> rbind (vstores c bs a s1) (ret (of_int k))
     | FSleep ch _ \<Rightarrow>
         rbind (sleep mp c ch NoLock s1) (\<lambda>(intena, _, s2). Ok (SSwitch intena (PRead f a n), s2))))"

definition write_file :: "nat \<Rightarrow> nat \<Rightarrow> nat \<Rightarrow> byte list \<Rightarrow> 32 word \<Rightarrow> kernel \<Rightarrow> (sysres \<times> kernel) res" where
  "write_file mp c f bs n s =
     with_proc c s (\<lambda>p.
     rbind (kdo c (filewrite (kdev p s) (p_killed (pt_proc s p)) f bs n) s) (\<lambda>(r, s1).
     case r of
       FDone k _ \<Rightarrow> ret (of_int k) s1
     | FSleep ch rest \<Rightarrow>
         rbind (sleep mp c ch NoLock s1) (\<lambda>(intena, _, s2). Ok (SSwitch intena (PWrite f rest n), s2))))"

definition rw_args :: "nat \<Rightarrow> kernel \<Rightarrow> (nat \<times> 32 word \<times> addr) option res" where
  "rw_args c s =
     rbind (argfd c 0 s) (\<lambda>r. case r of None \<Rightarrow> Ok None | Some (_, f) \<Rightarrow>
     rbind (argint c 2 s) (\<lambda>r. case r of None \<Rightarrow> Ok None | Some n \<Rightarrow>
     rbind (argptr c 1 n s) (\<lambda>r. case r of None \<Rightarrow> Ok None | Some a \<Rightarrow> Ok (Some (f, n, a)))))"

definition sys_read :: "nat \<Rightarrow> nat \<Rightarrow> kernel \<Rightarrow> (sysres \<times> kernel) res" where
  "sys_read mp c s =
     rbind (rw_args c s) (\<lambda>r. case r of None \<Rightarrow> ret (-1) s | Some (f, n, a) \<Rightarrow> read_file mp c f a n s)"

definition sys_write :: "nat \<Rightarrow> nat \<Rightarrow> kernel \<Rightarrow> (sysres \<times> kernel) res" where
  "sys_write mp c s =
     rbind (rw_args c s) (\<lambda>r. case r of
       None \<Rightarrow> ret (-1) s
     | Some (f, n, a) \<Rightarrow> rbind (vloads c (nat (sint n)) a s) (\<lambda>bs. write_file mp c f bs n s))"

text \<open>The fields of \<^verbatim>\<open>struct stat\<close> with their offsets; the padding between them is not written.\<close>

definition half_bytes :: "16 word \<Rightarrow> byte list" where
  "half_bytes w = [ucast w, ucast (drop_bit 8 w)]"

definition store_stat :: "nat \<Rightarrow> addr \<Rightarrow> stat \<Rightarrow> kernel \<Rightarrow> kernel res" where
  "store_stat c a st s =
     rfold (\<lambda>(off, bs). vstores c bs (a + off))
       [(0, half_bytes (st_type st)), (4, word_bytes (of_nat (st_dev st))), (8, word_bytes (of_nat (st_ino st))),
        (12, half_bytes (st_nlink st)), (16, word_bytes (st_size st)), (20, half_bytes (st_uid st)),
        (22, half_bytes (st_gid st)), (24, word_bytes (st_mode st))] s"

definition sys_fstat :: "nat \<Rightarrow> kernel \<Rightarrow> (sysres \<times> kernel) res" where
  "sys_fstat c s =
     rbind (argfd c 0 s) (\<lambda>r. case r of None \<Rightarrow> ret (-1) s | Some (_, f) \<Rightarrow>
     rbind (argptr c 1 28 s) (\<lambda>r. case r of None \<Rightarrow> ret (-1) s | Some a \<Rightarrow>
     rbind (kdo c (filestat f) s) (\<lambda>(st, s1).
     case st of None \<Rightarrow> ret (-1) s1 | Some x \<Rightarrow> rbind (store_stat c a x s1) (ret 0))))"

subsection \<open>\<^verbatim>\<open>link\<close>\<close>

definition end_with :: "'r \<Rightarrow> 'a logst_scheme \<Rightarrow> ('r \<times> 'a logst_scheme) res" where
  "end_with r s = rbind (end_op s) (\<lambda>s1. Ok (r, s1))"

definition link_bad :: "nat \<Rightarrow> 'a fsst_scheme \<Rightarrow> (int \<times> 'a fsst_scheme) res" where
  "link_bad ip s =
     rbind (ilock (Some ip) s) (\<lambda>s1.
     rbind (iupdate ip (upd_dinode ip (\<lambda>d. d\<lparr>d_nlink := d_nlink d - 1\<rparr>) s1)) (\<lambda>s2.
     rbind (iunlockput (Some ip) s2) (end_with (-1))))"

definition link :: "'a fsst_scheme devsw \<Rightarrow> nat option \<Rightarrow> byte list \<Rightarrow> byte list \<Rightarrow> 'a fsst_scheme \<Rightarrow> (int \<times> 'a fsst_scheme) res" where
  "link dv cwd old new s =
     rbind (begin_op s) (\<lambda>s1.
     rbind (namei dv cwd old s1) (\<lambda>(r, s2).
     case r of
       None \<Rightarrow> end_with (-1) s2
     | Some ip \<Rightarrow>
         rbind (ilock r s2) (\<lambda>s3.
         if d_type (i_d (ic_inode s3 ip)) = T_DIR then rbind (iunlockput r s3) (end_with (-1))
         else
           rbind (iupdate ip (upd_dinode ip (\<lambda>d. d\<lparr>d_nlink := d_nlink d + 1\<rparr>) s3)) (\<lambda>s4.
           rbind (iunlock r s4) (\<lambda>s5.
           rbind (nameiparent dv cwd new s5) (\<lambda>(q, s6).
           case q of
             None \<Rightarrow> link_bad ip s6
           | Some (dp, name) \<Rightarrow>
               rbind (ilock (Some dp) s6) (\<lambda>s7.
               rbind (if i_dev (ic_inode s7 dp) \<noteq> i_dev (ic_inode s7 ip) then Ok (-1, s7)
                      else dirlink dv dp name (i_inum (ic_inode s7 ip)) s7) (\<lambda>(rc, s8).
               if rc < 0 then rbind (iunlockput (Some dp) s8) (link_bad ip)
               else rbind (iunlockput (Some dp) s8) (\<lambda>s9. rbind (iput r s9) (end_with 0))))))))))"

definition proc_cwd :: "nat \<Rightarrow> kernel \<Rightarrow> nat option" where
  "proc_cwd p s = p_cwd (pt_proc s p)"

definition sys_link :: "nat \<Rightarrow> kernel \<Rightarrow> (sysres \<times> kernel) res" where
  "sys_link c s =
     rbind (argstr c 0 s) (\<lambda>r. case r of None \<Rightarrow> ret (-1) s | Some old \<Rightarrow>
     rbind (argstr c 1 s) (\<lambda>r. case r of None \<Rightarrow> ret (-1) s | Some new \<Rightarrow>
     with_proc c s (\<lambda>p. ret_of (kdo c (link (kdev p s) (proc_cwd p s) old new) s))))"

subsection \<open>\<^verbatim>\<open>unlink\<close>\<close>

fun isdirempty_loop :: "nat \<Rightarrow> 'a fsst_scheme devsw \<Rightarrow> nat \<Rightarrow> 32 word \<Rightarrow> 'a fsst_scheme \<Rightarrow> (bool \<times> 'a fsst_scheme) res" where
  "isdirempty_loop fuel dv dp off s =
     (if off < d_size (i_d (ic_inode s dp)) then
        (case fuel of 0 \<Rightarrow> Diverge
         | Suc f \<Rightarrow>
           rbind (readi dv dp off (of_nat DIRENTSZ) s) (\<lambda>(n, bs, s1).
           if n \<noteq> int DIRENTSZ then Panic ''isdirempty: readi''
           else if de_inum (get_dirent bs) \<noteq> 0 then Ok (False, s1)
           else isdirempty_loop f dv dp (off + of_nat DIRENTSZ) s1))
      else Ok (True, s))"

declare isdirempty_loop.simps [simp del]

definition isdirempty :: "'a fsst_scheme devsw \<Rightarrow> nat \<Rightarrow> 'a fsst_scheme \<Rightarrow> (bool \<times> 'a fsst_scheme) res" where
  "isdirempty dv dp s = isdirempty_loop DIRFUEL dv dp (2 * of_nat DIRENTSZ) s"

text \<open>The names \<^verbatim>\<open>.\<close> and \<^verbatim>\<open>..\<close>.\<close>

definition DOT :: "byte list" where "DOT = [46]"
definition DOTDOT :: "byte list" where "DOTDOT = [46, 46]"

definition unlink :: "'a fsst_scheme devsw \<Rightarrow> nat option \<Rightarrow> byte list \<Rightarrow> 'a fsst_scheme \<Rightarrow> (int \<times> 'a fsst_scheme) res" where
  "unlink dv cwd path s =
     rbind (begin_op s) (\<lambda>s1.
     rbind (nameiparent dv cwd path s1) (\<lambda>(r, s2).
     case r of
       None \<Rightarrow> end_with (-1) s2
     | Some (dp, name) \<Rightarrow>
         let bad = (\<lambda>t. rbind (iunlockput (Some dp) t) (end_with (-1))) in
         rbind (ilock (Some dp) s2) (\<lambda>s3.
         if namecmp name DOT = 0 \<or> namecmp name DOTDOT = 0 then bad s3
         else
           rbind (dirlookup dv dp name s3) (\<lambda>(q, s4).
           case q of
             None \<Rightarrow> bad s4
           | Some (ip, off) \<Rightarrow>
               rbind (ilock (Some ip) s4) (\<lambda>s5.
               if sint (d_nlink (i_d (ic_inode s5 ip))) < 1 then Panic ''unlink: nlink < 1''
               else
                 rbind (if d_type (i_d (ic_inode s5 ip)) = T_DIR then isdirempty dv ip s5 else Ok (True, s5)) (\<lambda>(empty', s6).
                 if \<not> empty' then rbind (iunlockput (Some ip) s6) bad
                 else
                   rbind (writei dv dp (replicate DIRENTSZ 0) off (of_nat DIRENTSZ) s6) (\<lambda>(n, s7).
                   if n \<noteq> int DIRENTSZ then Panic ''unlink: writei''
                   else
                     rbind (if d_type (i_d (ic_inode s7 ip)) = T_DIR
                            then iupdate dp (upd_dinode dp (\<lambda>d. d\<lparr>d_nlink := d_nlink d - 1\<rparr>) s7) else Ok s7) (\<lambda>s8.
                     rbind (iunlockput (Some dp) s8) (\<lambda>s9.
                     rbind (iupdate ip (upd_dinode ip (\<lambda>d. d\<lparr>d_nlink := d_nlink d - 1\<rparr>) s9)) (\<lambda>s10.
                     rbind (iunlockput (Some ip) s10) (end_with 0)))))))))))"

definition sys_unlink :: "nat \<Rightarrow> kernel \<Rightarrow> (sysres \<times> kernel) res" where
  "sys_unlink c s =
     rbind (argstr c 0 s) (\<lambda>r. case r of None \<Rightarrow> ret (-1) s | Some path \<Rightarrow>
     with_proc c s (\<lambda>p. ret_of (kdo c (unlink (kdev p s) (proc_cwd p s) path) s)))"

subsection \<open>\<^verbatim>\<open>create\<close>\<close>

definition UID :: "16 word" where "UID = 0"
definition GID :: "16 word" where "GID = 0"
definition MODE :: "32 word" where "MODE = 493"

text \<open>The entries \<^verbatim>\<open>.\<close> and \<^verbatim>\<open>..\<close> of a new directory.\<close>

definition create_dots :: "'a fsst_scheme devsw \<Rightarrow> nat \<Rightarrow> nat \<Rightarrow> 'a fsst_scheme \<Rightarrow> 'a fsst_scheme res" where
  "create_dots dv dp ip s =
     rbind (iupdate dp (upd_dinode dp (\<lambda>d. d\<lparr>d_nlink := d_nlink d + 1\<rparr>) s)) (\<lambda>s1.
     rbind (dirlink dv ip DOT (i_inum (ic_inode s1 ip)) s1) (\<lambda>(rc, s2).
     if rc < 0 then Panic ''create dots''
     else rbind (dirlink dv ip DOTDOT (i_inum (ic_inode s2 dp)) s2) (\<lambda>(rc', s3).
          if rc' < 0 then Panic ''create dots'' else Ok s3)))"

definition create :: "'a fsst_scheme devsw \<Rightarrow> nat option \<Rightarrow> byte list \<Rightarrow> 16 word \<Rightarrow> 16 word \<Rightarrow> 16 word \<Rightarrow> 'a fsst_scheme \<Rightarrow>
    (nat option \<times> 'a fsst_scheme) res" where
  "create dv cwd path type major minor s =
     rbind (nameiparent dv cwd path s) (\<lambda>(r, s1).
     case r of
       None \<Rightarrow> Ok (None, s1)
     | Some (dp, name) \<Rightarrow>
         rbind (ilock (Some dp) s1) (\<lambda>s2.
         rbind (dirlookup dv dp name s2) (\<lambda>(q, s3).
         case q of
           Some (ip, _) \<Rightarrow>
             rbind (iunlockput (Some dp) s3) (\<lambda>s4.
             rbind (ilock (Some ip) s4) (\<lambda>s5.
             if type = T_FILE \<and> d_type (i_d (ic_inode s5 ip)) = T_FILE then Ok (Some ip, s5)
             else rbind (iunlockput (Some ip) s5) (\<lambda>s6. Ok (None, s6))))
         | None \<Rightarrow>
             rbind (ialloc (i_dev (ic_inode s3 dp)) type s3) (\<lambda>(ip, s4).
             rbind (ilock (Some ip) s4) (\<lambda>s5.
             rbind (iupdate ip (upd_dinode ip (\<lambda>d. d\<lparr>d_major := major, d_minor := minor, d_nlink := 1,
                                                       d_uid := UID, d_gid := GID, d_mode := MODE\<rparr>) s5)) (\<lambda>s6.
             rbind (if type = T_DIR then create_dots dv dp ip s6 else Ok s6) (\<lambda>s7.
             rbind (dirlink dv dp name (i_inum (ic_inode s7 ip)) s7) (\<lambda>(rc, s8).
             if rc < 0 then Panic ''create: dirlink''
             else rbind (iunlockput (Some dp) s8) (\<lambda>s9. Ok (Some ip, s9))))))))))"

subsection \<open>\<^verbatim>\<open>open\<close>\<close>

definition O_WRONLY :: "32 word" where "O_WRONLY = 1"
definition O_RDWR :: "32 word" where "O_RDWR = 2"
definition O_CREATE :: "32 word" where "O_CREATE = 0x200"

text \<open>Up to the locked inode; the transaction stays open when there is one.\<close>

definition open_inode :: "'a fsst_scheme devsw \<Rightarrow> nat option \<Rightarrow> byte list \<Rightarrow> 32 word \<Rightarrow> 'a fsst_scheme \<Rightarrow>
    (nat option \<times> 'a fsst_scheme) res" where
  "open_inode dv cwd path omode s =
     rbind (begin_op s) (\<lambda>s1.
     if omode AND O_CREATE \<noteq> 0 then
       rbind (create dv cwd path T_FILE 0 0 s1) (\<lambda>(r, s2).
       case r of None \<Rightarrow> end_with None s2 | Some _ \<Rightarrow> Ok (r, s2))
     else
       rbind (namei dv cwd path s1) (\<lambda>(r, s2).
       case r of
         None \<Rightarrow> end_with None s2
       | Some ip \<Rightarrow>
           rbind (ilock r s2) (\<lambda>s3.
           if d_type (i_d (ic_inode s3 ip)) = T_DIR \<and> omode \<noteq> 0 then rbind (iunlockput r s3) (end_with None)
           else Ok (r, s3))))"

definition open_fail :: "linkmap \<Rightarrow> nat \<Rightarrow> nat option \<Rightarrow> nat \<Rightarrow> kernel \<Rightarrow> (sysres \<times> kernel) res" where
  "open_fail ld c f ip s =
     rbind (kact c (\<lambda>st. rbind (close_opt (ld_end ld) f st) (\<lambda>st1. rbind (iunlockput (Some ip) st1) end_op)) s) (ret (-1))"

definition sys_open :: "linkmap \<Rightarrow> nat \<Rightarrow> kernel \<Rightarrow> (sysres \<times> kernel) res" where
  "sys_open ld c s =
     rbind (argstr c 0 s) (\<lambda>r. case r of None \<Rightarrow> ret (-1) s | Some path \<Rightarrow>
     rbind (argint c 1 s) (\<lambda>r. case r of None \<Rightarrow> ret (-1) s | Some omode \<Rightarrow>
     with_proc c s (\<lambda>p.
     rbind (kdo c (open_inode (kdev p s) (proc_cwd p s) path omode) s) (\<lambda>(r, s1).
     case r of
       None \<Rightarrow> ret (-1) s1
     | Some ip \<Rightarrow>
         rbind (kdo c (\<lambda>st. Ok (filealloc st)) s1) (\<lambda>(fo, s2).
         case fo of
           None \<Rightarrow> open_fail ld c None ip s2
         | Some f \<Rightarrow>
             (let (fd, s3) = fdalloc p f s2 in
             case fd of
               None \<Rightarrow> open_fail ld c (Some f) ip s3
             | Some d \<Rightarrow>
                 rbind (kact c (\<lambda>st. rbind (iunlock (Some ip) st) (\<lambda>st1. rbind (end_op st1) (\<lambda>st2.
                   Ok (upd_file f (\<lambda>x. x\<lparr>f_type := FD_INODE, f_ip := Some ip, f_off := 0,
                                         f_readable := (omode AND O_WRONLY = 0),
                                         f_writable := (omode AND O_WRONLY \<noteq> 0 \<or> omode AND O_RDWR \<noteq> 0)\<rparr>) st2)))) s3)
                   (ret (of_nat d))))))))"

subsection \<open>Directories and devices\<close>

text \<open>\<^verbatim>\<open>sys_mkdir\<close>, \<^verbatim>\<open>sys_mknod\<close> and \<^verbatim>\<open>sys_chdir\<close> open the transaction before they fetch their arguments.\<close>

definition create_node :: "'a fsst_scheme devsw \<Rightarrow> nat option \<Rightarrow> byte list \<Rightarrow> 16 word \<Rightarrow> 16 word \<Rightarrow> 16 word \<Rightarrow> 'a fsst_scheme \<Rightarrow>
    (int \<times> 'a fsst_scheme) res" where
  "create_node dv cwd path type major minor s =
     rbind (create dv cwd path type major minor s) (\<lambda>(r, s1).
     case r of None \<Rightarrow> end_with (-1) s1 | Some _ \<Rightarrow> rbind (iunlockput r s1) (end_with 0))"

definition sys_mkdir :: "nat \<Rightarrow> kernel \<Rightarrow> (sysres \<times> kernel) res" where
  "sys_mkdir c s =
     rbind (kact c begin_op s) (\<lambda>s1.
     rbind (argstr c 0 s1) (\<lambda>r. case r of
       None \<Rightarrow> ret_of (kdo c (end_with (-1)) s1)
     | Some path \<Rightarrow> with_proc c s1 (\<lambda>p. ret_of (kdo c (create_node (kdev p s1) (proc_cwd p s1) path T_DIR 0 0) s1))))"

definition sys_mknod :: "nat \<Rightarrow> kernel \<Rightarrow> (sysres \<times> kernel) res" where
  "sys_mknod c s =
     rbind (kact c begin_op s) (\<lambda>s1.
     let bad = ret_of (kdo c (end_with (-1)) s1) in
     rbind (argstr c 0 s1) (\<lambda>r. case r of None \<Rightarrow> bad | Some path \<Rightarrow>
     rbind (argint c 1 s1) (\<lambda>r. case r of None \<Rightarrow> bad | Some major \<Rightarrow>
     rbind (argint c 2 s1) (\<lambda>r. case r of None \<Rightarrow> bad | Some minor \<Rightarrow>
     with_proc c s1 (\<lambda>p.
       ret_of (kdo c (create_node (kdev p s1) (proc_cwd p s1) path T_DEV (ucast major) (ucast minor)) s1))))))"

definition chdir :: "'a fsst_scheme devsw \<Rightarrow> nat option \<Rightarrow> byte list \<Rightarrow> 'a fsst_scheme \<Rightarrow> (nat option \<times> 'a fsst_scheme) res" where
  "chdir dv cwd path s =
     rbind (namei dv cwd path s) (\<lambda>(r, s1).
     case r of
       None \<Rightarrow> end_with None s1
     | Some ip \<Rightarrow>
         rbind (ilock r s1) (\<lambda>s2.
         if d_type (i_d (ic_inode s2 ip)) \<noteq> T_DIR then rbind (iunlockput r s2) (end_with None)
         else rbind (iunlock r s2) (\<lambda>s3. rbind (iput cwd s3) (end_with r))))"

definition sys_chdir :: "nat \<Rightarrow> kernel \<Rightarrow> (sysres \<times> kernel) res" where
  "sys_chdir c s =
     rbind (kact c begin_op s) (\<lambda>s1.
     rbind (argstr c 0 s1) (\<lambda>r. case r of
       None \<Rightarrow> ret_of (kdo c (end_with (-1)) s1)
     | Some path \<Rightarrow> with_proc c s1 (\<lambda>p.
         rbind (kdo c (chdir (kdev p s1) (proc_cwd p s1) path) s1) (\<lambda>(r, s2).
         case r of None \<Rightarrow> ret (-1) s2 | Some ip \<Rightarrow> ret 0 (upd_proc p (\<lambda>pr. pr\<lparr>p_cwd := Some ip\<rparr>) s2)))))"

subsection \<open>\<^verbatim>\<open>pipe\<close>\<close>

definition sys_pipe :: "linkmap \<Rightarrow> nat \<Rightarrow> kernel \<Rightarrow> (sysres \<times> kernel) res" where
  "sys_pipe ld c s =
     rbind (argptr c 0 8 s) (\<lambda>r. case r of
       None \<Rightarrow> ret (-1) s
     | Some a \<Rightarrow>
         rbind (kdo c (pipealloc (ld_end ld)) s) (\<lambda>(q, s1).
         case q of
           None \<Rightarrow> ret (-1) s1
         | Some (rfile, wfile) \<Rightarrow> with_proc c s1 (\<lambda>p.
             let (fd0, s2) = fdalloc p rfile s1;
                 close2 = (\<lambda>t. rbind (kact c (\<lambda>st. rbind (fileclose (ld_end ld) rfile st) (fileclose (ld_end ld) wfile)) t) (ret (-1))) in
             case fd0 of
               None \<Rightarrow> close2 s2
             | Some d0 \<Rightarrow>
                 (let (fd1, s3) = fdalloc p wfile s2 in
                 case fd1 of
                   None \<Rightarrow> close2 (set_ofile p d0 None s3)
                 | Some d1 \<Rightarrow> rbind (vstores c (word_bytes (of_nat d0) @ word_bytes (of_nat d1)) a s3) (ret 0)))))"

subsection \<open>Ownership and protection\<close>

text \<open>
  The path of these calls is only checked to be an address of the process: \<open>vstring\<close> reads the string it points to, past
  the end of the process if there is no null byte before. It is not read when the value is out of range.
\<close>

fun vstring :: "nat \<Rightarrow> nat \<Rightarrow> addr \<Rightarrow> kernel \<Rightarrow> byte list res" where
  "vstring fuel c a s =
     (case fuel of 0 \<Rightarrow> Diverge
      | Suc f \<Rightarrow> rbind (vload c a s) (\<lambda>b. if b = 0 then Ok [] else rbind (vstring f c (a + 1) s) (\<lambda>bs. Ok (b # bs))))"

declare vstring.simps [simp del]

definition attr_args :: "int \<Rightarrow> 32 word \<Rightarrow> 32 word \<Rightarrow> nat \<Rightarrow> kernel \<Rightarrow> (byte list \<times> int) res" where
  "attr_args hi junk junk' c s =
     rbind (argint c 1 s) (\<lambda>r.
     rbind (argptr c 0 1 s) (\<lambda>a.
     let v = sint (arg_junk junk r) in
     rbind (if v < 0 \<or> hi < v then Ok [] else vstring (2 ^ 32) c (arg_junk junk' a) s) (\<lambda>path.
     Ok (path, v))))"

definition sys_chown :: "32 word \<Rightarrow> 32 word \<Rightarrow> nat \<Rightarrow> kernel \<Rightarrow> (sysres \<times> kernel) res" where
  "sys_chown junk junk' c s =
     rbind (attr_args 32767 junk junk' c s) (\<lambda>(path, v).
     with_proc c s (\<lambda>p. ret_of (kdo c (chown (kdev p s) (proc_cwd p s) path v) s)))"

definition sys_chgrp :: "32 word \<Rightarrow> 32 word \<Rightarrow> nat \<Rightarrow> kernel \<Rightarrow> (sysres \<times> kernel) res" where
  "sys_chgrp junk junk' c s =
     rbind (attr_args 32767 junk junk' c s) (\<lambda>(path, v).
     with_proc c s (\<lambda>p. ret_of (kdo c (chgrp (kdev p s) (proc_cwd p s) path v) s)))"

definition sys_chmod :: "32 word \<Rightarrow> 32 word \<Rightarrow> nat \<Rightarrow> kernel \<Rightarrow> (sysres \<times> kernel) res" where
  "sys_chmod junk junk' c s =
     rbind (attr_args 1023 junk junk' c s) (\<lambda>(path, v).
     with_proc c s (\<lambda>p. ret_of (kdo c (chmod (kdev p s) (proc_cwd p s) path v) s)))"

end
