(* ===== verification/Exec.thy ===== *)
theory Exec
  imports Syscall
begin

text \<open>
  \<^verbatim>\<open>exec.c\<close> with \<^verbatim>\<open>loaduvm\<close> of \<^verbatim>\<open>vm.c\<close>, and the system call that fetches its arguments. The path and the
  arguments are the strings the code's pointers point to; they are in the old address space, which the load does not change.
  \<open>junk\<close> is what the stack has where the ELF header is read to.
\<close>

definition MAXARG :: nat where "MAXARG = 32"
definition ELF_MAGIC :: "32 word" where "ELF_MAGIC = 0x464C457F"
definition ELF_PROG_LOAD :: "32 word" where "ELF_PROG_LOAD = 1"

record elfhdr =
  elf_magic :: "32 word"
  elf_entry :: "32 word"
  elf_phoff :: "32 word"
  elf_phnum :: "16 word"

record proghdr =
  ph_type :: "32 word"
  ph_off :: "32 word"
  ph_vaddr :: "32 word"
  ph_filesz :: "32 word"
  ph_memsz :: "32 word"

definition get_elfhdr :: "byte list \<Rightarrow> elfhdr" where
  "get_elfhdr bs = \<lparr>elf_magic = get32 bs 0, elf_entry = get32 bs 24, elf_phoff = get32 bs 28, elf_phnum = get16 bs 44\<rparr>"

definition get_proghdr :: "byte list \<Rightarrow> proghdr" where
  "get_proghdr bs = \<lparr>ph_type = get32 bs 0, ph_off = get32 bs 4, ph_vaddr = get32 bs 8, ph_filesz = get32 bs 16, ph_memsz = get32 bs 20\<rparr>"

subsection \<open>Loading segments\<close>

definition put_bytes :: "addr \<Rightarrow> byte list \<Rightarrow> mem \<Rightarrow> mem" where
  "put_bytes a bs m = fill m a (length bs) (\<lambda>i. bs ! i)"

definition lift_mem :: "(kmem \<Rightarrow> ('r \<times> kmem) res) \<Rightarrow> 'a kst_scheme \<Rightarrow> ('r \<times> 'a kst_scheme) res" where
  "lift_mem f st = rbind (f (k_mem st)) (\<lambda>(r, k). Ok (r, st\<lparr>k_mem := k\<rparr>))"

definition poke :: "addr \<Rightarrow> byte list \<Rightarrow> 'a kst_scheme \<Rightarrow> 'a kst_scheme" where
  "poke a bs st = st\<lparr>k_mem := (k_mem st)\<lparr>km_mem := put_bytes a bs (km_mem (k_mem st))\<rparr>\<rparr>"

fun loaduvm_loop :: "nat \<Rightarrow> 'a kst_scheme devsw \<Rightarrow> addr \<Rightarrow> addr \<Rightarrow> nat \<Rightarrow> 32 word \<Rightarrow> 32 word \<Rightarrow> 32 word \<Rightarrow> 'a kst_scheme \<Rightarrow>
    (int \<times> 'a kst_scheme) res" where
  "loaduvm_loop fuel dv pgdir a ip offset sz i st =
     (if i < sz then
        (case fuel of 0 \<Rightarrow> Diverge
         | Suc fl \<Rightarrow>
           let pte = fst (walkpgdir pgdir (a + i) False (k_mem st)) in
           if pte = 0 then Panic ''loaduvm: address should exist''
           else
             let pa = PTE_ADDR (load32 (km_mem (k_mem st)) pte);
                 n = (if sz - i < PGSIZE then sz - i else PGSIZE) in
             rbind (readi dv ip (offset + i) n st) (\<lambda>(r, bs, st1).
             let st2 = poke (p2v pa) bs st1 in
             if r \<noteq> uint n then Ok (-1, st2)
             else loaduvm_loop fl dv pgdir a ip offset sz (i + PGSIZE) st2))
      else Ok (0, st))"

declare loaduvm_loop.simps [simp del]

definition loaduvm :: "'a kst_scheme devsw \<Rightarrow> addr \<Rightarrow> addr \<Rightarrow> nat \<Rightarrow> 32 word \<Rightarrow> 32 word \<Rightarrow> 'a kst_scheme \<Rightarrow> (int \<times> 'a kst_scheme) res" where
  "loaduvm dv pgdir a ip offset sz st =
     (if a mod PGSIZE \<noteq> 0 then Panic ''loaduvm: addr must be page aligned''
      else loaduvm_loop VMFUEL dv pgdir a ip offset sz 0 st)"

text \<open>The loop over the program headers: the size of the image, \<open>None\<close> where the code goes to \<^verbatim>\<open>bad\<close>.\<close>

fun load_segments :: "nat \<Rightarrow> 'a kst_scheme devsw \<Rightarrow> addr \<Rightarrow> addr \<Rightarrow> nat \<Rightarrow> 32 word \<Rightarrow> 32 word \<Rightarrow> 'a kst_scheme \<Rightarrow>
    (32 word option \<times> 'a kst_scheme) res" where
  "load_segments 0 dv kend pgdir ip off sz st = Ok (Some sz, st)"
| "load_segments (Suc n) dv kend pgdir ip off sz st =
     rbind (readi dv ip off 32 st) (\<lambda>(r, bs, st1).
     if r \<noteq> 32 then Ok (None, st1)
     else let ph = get_proghdr bs in
       if ph_type ph \<noteq> ELF_PROG_LOAD then load_segments n dv kend pgdir ip (off + 32) sz st1
       else if ph_memsz ph < ph_filesz ph then Ok (None, st1)
       else rbind (lift_mem (allocuvm kend pgdir sz (ph_vaddr ph + ph_memsz ph)) st1) (\<lambda>(sz', st2).
            if sz' = 0 then Ok (None, st2)
            else rbind (loaduvm dv pgdir (ph_vaddr ph) ip (ph_off ph) (ph_filesz ph) st2) (\<lambda>(rc, st3).
                 if rc < 0 then Ok (None, st3)
                 else load_segments n dv kend pgdir ip (off + 32) sz' st3)))"

subsection \<open>The image\<close>

text \<open>The permission test: the bit for the owner, the group or others.\<close>

definition may_exec :: "32 word \<Rightarrow> 32 word \<Rightarrow> dinode \<Rightarrow> bool" where
  "may_exec uid gid d =
     (if uid = ucast (d_uid d) then bit (d_mode d) 6
      else if gid = ucast (d_gid d) then bit (d_mode d) 3
      else bit (d_mode d) 0)"

record image =
  im_pgdir :: addr
  im_sz :: "32 word"
  im_entry :: "32 word"
  im_setuid :: int

text \<open>The label \<^verbatim>\<open>bad\<close>, with the inode still locked and after it was put.\<close>

definition exec_bad :: "addr \<Rightarrow> addr \<Rightarrow> nat option \<Rightarrow> 'a kst_scheme \<Rightarrow> 'a kst_scheme res" where
  "exec_bad kend pgdir ip st =
     rbind (if pgdir = 0 then Ok st else rbind (freevm kend pgdir (k_mem st)) (\<lambda>k. Ok (st\<lparr>k_mem := k\<rparr>))) (\<lambda>st1.
     case ip of None \<Rightarrow> Ok st1 | Some _ \<Rightarrow> rbind (iunlockput ip st1) end_op)"

definition fail :: "'a kst_scheme res \<Rightarrow> ('r option \<times> 'a kst_scheme) res" where
  "fail m = rbind m (\<lambda>st. Ok (None, st))"

text \<open>
  From the path to the loaded segments. The first \<^verbatim>\<open>readi\<close> returns \<open>-1\<close> for a device without a driver; the test compares
  it as an unsigned number.
\<close>

definition exec_load :: "linkmap \<Rightarrow> byte list \<Rightarrow> 'a kst_scheme devsw \<Rightarrow> nat option \<Rightarrow> 32 word \<Rightarrow> 32 word \<Rightarrow> byte list \<Rightarrow> 'a kst_scheme \<Rightarrow>
    (image option \<times> 'a kst_scheme) res" where
  "exec_load ld junk dv cwd uid gid path st =
     rbind (begin_op st) (\<lambda>st1.
     rbind (namei dv cwd path st1) (\<lambda>(ipo, st2).
     case ipo of
       None \<Rightarrow> fail (end_op st2)
     | Some ip \<Rightarrow>
         rbind (ilock ipo st2) (\<lambda>st3.
         rbind (readi dv ip 0 52 st3) (\<lambda>(r, bs, st4).
         let elf = get_elfhdr (bs @ drop (length bs) junk) in
         if (of_int r :: 32 word) < 52 \<or> elf_magic elf \<noteq> ELF_MAGIC then fail (exec_bad (ld_end ld) 0 ipo st4)
         else
           rbind (lift_mem (setupkvm (ld_data ld)) st4) (\<lambda>(pgdir, st5).
           let di = i_d (ic_inode st5 ip) in
           if pgdir = 0 \<or> \<not> may_exec uid gid di then fail (exec_bad (ld_end ld) pgdir ipo st5)
           else
             rbind (load_segments (unat (elf_phnum elf)) dv (ld_end ld) pgdir ip (elf_phoff elf) 0 st5) (\<lambda>(szo, st6).
             case szo of
               None \<Rightarrow> fail (exec_bad (ld_end ld) pgdir ipo st6)
             | Some sz \<Rightarrow>
                 rbind (iunlockput ipo st6) (\<lambda>st7.
                 rbind (end_op st7) (\<lambda>st8.
                 Ok (Some \<lparr>im_pgdir = pgdir, im_sz = sz, im_entry = elf_entry elf,
                           im_setuid = (if bit (d_mode di) 9 then uint (d_uid di) else -1)\<rparr>, st8)))))))))"

subsection \<open>The stack\<close>

text \<open>\<^verbatim>\<open>copyout\<close> from a buffer of the kernel that is not part of the modelled memory.\<close>

fun copyout_bytes :: "nat \<Rightarrow> addr \<Rightarrow> addr \<Rightarrow> byte list \<Rightarrow> 'a kmem_scheme \<Rightarrow> (int \<times> 'a kmem_scheme) res" where
  "copyout_bytes fuel pgdir va bs k =
     (if bs \<noteq> [] then
        (case fuel of 0 \<Rightarrow> Diverge
         | Suc f \<Rightarrow>
           let va0 = PGROUNDDOWN va in
           rbind (uva2ka pgdir va0 k) (\<lambda>pa0.
           if pa0 = 0 then Ok (-1, k)
           else let n = unat (PGSIZE - (va - va0))
                in copyout_bytes f pgdir (va0 + PGSIZE) (drop n bs)
                     (k\<lparr>km_mem := put_bytes (pa0 + (va - va0)) (take n bs) (km_mem k)\<rparr>)))
      else Ok (0, k))"

declare copyout_bytes.simps [simp del]

text \<open>The strings, each at an address that is a multiple of four; the result is the list of their addresses.\<close>

fun push_args :: "addr \<Rightarrow> byte list list \<Rightarrow> nat \<Rightarrow> 32 word \<Rightarrow> kmem \<Rightarrow> ((32 word \<times> 32 word list) option \<times> kmem) res" where
  "push_args pgdir [] argc sp k = Ok (Some (sp, []), k)"
| "push_args pgdir (a # as) argc sp k =
     (if MAXARG \<le> argc then Ok (None, k)
      else let sp' = (sp - (of_nat (length a) + 1)) AND NOT 3 in
        rbind (copyout_bytes VMFUEL pgdir sp' (a @ [0]) k) (\<lambda>(rc, k1).
        if rc < 0 then Ok (None, k1)
        else rbind (push_args pgdir as (argc + 1) sp' k1) (\<lambda>(r, k2).
             Ok (map_option (\<lambda>(sp2, ps). (sp2, sp' # ps)) r, k2))))"

definition ustack :: "32 word \<Rightarrow> 32 word list \<Rightarrow> 32 word list" where
  "ustack sp ps = [0xFFFFFFFF, of_nat (length ps), sp - (of_nat (length ps) + 1) * 4] @ ps @ [0]"

text \<open>The two pages above the image, the arguments and the frame of \<^verbatim>\<open>main\<close>: the size and the stack pointer.\<close>

definition exec_stack :: "addr \<Rightarrow> addr \<Rightarrow> 32 word \<Rightarrow> byte list list \<Rightarrow> kmem \<Rightarrow> ((32 word \<times> 32 word) option \<times> kmem) res" where
  "exec_stack kend pgdir sz0 argv k =
     (let sz1 = PGROUNDUP sz0 in
      rbind (allocuvm kend pgdir sz1 (sz1 + 2 * PGSIZE) k) (\<lambda>(sz, k1).
      if sz = 0 then Ok (None, k1)
      else
        rbind (clearpteu pgdir (sz - 2 * PGSIZE) k1) (\<lambda>k2.
        rbind (push_args pgdir argv 0 sz k2) (\<lambda>(r, k3).
        case r of
          None \<Rightarrow> Ok (None, k3)
        | Some (sp, ps) \<Rightarrow>
            let sp' = sp - (of_nat (length ps) + 4) * 4 in
            rbind (copyout_bytes VMFUEL pgdir sp' (concat (map word_bytes (ustack sp ps))) k3) (\<lambda>(rc, k4).
            if rc < 0 then Ok (None, k4) else Ok (Some (sz, sp'), k4))))))"

subsection \<open>\<^verbatim>\<open>exec\<close>\<close>

definition last_elem :: "byte list \<Rightarrow> byte list" where
  "last_elem path = rev (takeWhile (\<lambda>b. b \<noteq> SLASH) (rev path))"

definition exec_commit :: "linkmap \<Rightarrow> nat \<Rightarrow> nat \<Rightarrow> byte list \<Rightarrow> image \<Rightarrow> 32 word \<Rightarrow> 32 word \<Rightarrow> kernel \<Rightarrow> (int \<times> kernel) res" where
  "exec_commit ld c p path im sz sp s =
     (let oldpgdir = p_pgdir (pt_proc s p);
          s1 = upd_proc p (\<lambda>pr. pr\<lparr>p_name := map (\<lambda>b. char_of (unat b)) (take 15 (last_elem path)), p_pgdir := im_pgdir im, p_sz := sz,
                                  p_tf := (p_tf pr)\<lparr>tf_eip := im_entry im, tf_esp := sp\<rparr>,
                                  p_uid := (if im_setuid im \<noteq> -1 then of_int (im_setuid im) else p_uid pr)\<rparr>) s in
      rbind (switchuvm c p s1) (\<lambda>s2.
      rbind (mem_do (freevm (ld_end ld) oldpgdir) s2) (\<lambda>s3. Ok (0, s3))))"

definition exec :: "linkmap \<Rightarrow> byte list \<Rightarrow> nat \<Rightarrow> byte list \<Rightarrow> byte list list \<Rightarrow> kernel \<Rightarrow> (int \<times> kernel) res" where
  "exec ld junk c path argv s =
     with_proc c s (\<lambda>p.
     let pr = pt_proc s p in
     rbind (kdo c (exec_load ld junk (kdev p s) (p_cwd pr) (p_uid pr) (p_gid pr) path) s) (\<lambda>(imo, s1).
     case imo of
       None \<Rightarrow> Ok (-1, s1)
     | Some im \<Rightarrow>
         rbind (mem_run (exec_stack (ld_end ld) (im_pgdir im) (im_sz im) argv) s1) (\<lambda>(r, s2).
         case r of
           None \<Rightarrow> rbind (kact c (exec_bad (ld_end ld) (im_pgdir im) None) s2) (\<lambda>s3. Ok (-1, s3))
         | Some (sz, sp) \<Rightarrow> exec_commit ld c p path im sz sp s2)))"

text \<open>The loop of \<^verbatim>\<open>sys_exec\<close> over the argument vector.\<close>

fun fetch_argv :: "nat \<Rightarrow> nat \<Rightarrow> addr \<Rightarrow> kernel \<Rightarrow> byte list list option res" where
  "fetch_argv 0 c uargv s = Ok None"
| "fetch_argv (Suc n) c uargv s =
     rbind (fetchint c uargv s) (\<lambda>r. case r of
       None \<Rightarrow> Ok None
     | Some uarg \<Rightarrow>
         if uarg = 0 then Ok (Some [])
         else rbind (fetchstr c uarg s) (\<lambda>r'. case r' of
                None \<Rightarrow> Ok None
              | Some a \<Rightarrow> rbind (fetch_argv n c (uargv + 4) s) (\<lambda>as. Ok (map_option (\<lambda>xs. a # xs) as))))"

definition sys_exec :: "linkmap \<Rightarrow> byte list \<Rightarrow> nat \<Rightarrow> kernel \<Rightarrow> (sysres \<times> kernel) res" where
  "sys_exec ld junk c s =
     rbind (argstr c 0 s) (\<lambda>r. case r of None \<Rightarrow> ret (-1) s | Some path \<Rightarrow>
     rbind (argint c 1 s) (\<lambda>r. case r of None \<Rightarrow> ret (-1) s | Some uargv \<Rightarrow>
     rbind (fetch_argv MAXARG c uargv s) (\<lambda>r. case r of None \<Rightarrow> ret (-1) s | Some argv \<Rightarrow>
     ret_of (exec ld junk c path argv s))))"

end
