(* ===== verification/Kbd.thy ===== *)
theory Kbd
  imports Memory
begin

text \<open>
  The keyboard driver \<^verbatim>\<open>kbd.c\<close> with the tables of \<^verbatim>\<open>kbd.h\<close>: a scan code and the state of the shift keys give a
  character and the new state. A table is the list of its first entries and the entries that are given by index; all others
  are \<^verbatim>\<open>NO\<close>.
\<close>

definition kb_bytes :: "string \<Rightarrow> 8 word list" where
  "kb_bytes cs = map of_char cs"

definition kb_table :: "8 word list \<Rightarrow> (nat \<times> 8 word) list \<Rightarrow> nat \<Rightarrow> 8 word" where
  "kb_table xs ys k =
     (case map_of ys k of Some b \<Rightarrow> b | None \<Rightarrow> if k < length xs then xs ! k else 0)"

definition kb_C :: "char \<Rightarrow> 8 word" where
  "kb_C x = of_char x - 64"

definition SHIFT :: "8 word" where "SHIFT = 1"
definition CTL :: "8 word" where "CTL = 2"
definition ALT :: "8 word" where "ALT = 4"
definition CAPSLOCK :: "8 word" where "CAPSLOCK = 8"
definition NUMLOCK :: "8 word" where "NUMLOCK = 16"
definition SCROLLLOCK :: "8 word" where "SCROLLLOCK = 32"
definition E0ESC :: "8 word" where "E0ESC = 64"

definition shiftcode :: "nat \<Rightarrow> 8 word" where
  "shiftcode = kb_table [] [(0x1D, CTL), (0x2A, SHIFT), (0x36, SHIFT), (0x38, ALT), (0x9D, CTL), (0xB8, ALT)]"

definition togglecode :: "nat \<Rightarrow> 8 word" where
  "togglecode = kb_table [] [(0x3A, CAPSLOCK), (0x45, NUMLOCK), (0x46, SCROLLLOCK)]"

text \<open>The keys of the extended keyboard, common to all maps.\<close>

definition special_keys :: "(nat \<times> 8 word) list" where
  "special_keys =
     [(0xC8, 0xE2), (0xD0, 0xE3), (0xC9, 0xE6), (0xD1, 0xE7), (0xCB, 0xE4), (0xCD, 0xE5), (0x97, 0xE0), (0xCF, 0xE1),
      (0xD2, 0xE8), (0xD3, 0xE9)]"

definition keypad :: "8 word list" where
  "keypad = replicate 13 0 @ kb_bytes ''789-456+1230.''"

definition normalmap :: "nat \<Rightarrow> 8 word" where
  "normalmap =
     kb_table
       ([0, 0x1B] @ kb_bytes ''1234567890-='' @ [8, 9] @ kb_bytes ''qwertyuiop[]'' @ [10, 0] @
        kb_bytes ''asdfghjkl;'' @ [39, 96, 0, 92] @ kb_bytes ''zxcvbnm,./'' @ [0, 42, 0, 32] @ keypad)
       ([(0x9C, 10), (0xB5, 47)] @ special_keys)"

definition shiftmap :: "nat \<Rightarrow> 8 word" where
  "shiftmap =
     kb_table
       ([0, 27] @ kb_bytes ''!@#$%^&*()_+'' @ [8, 9] @ kb_bytes ''QWERTYUIOP{}'' @ [10, 0] @
        kb_bytes ''ASDFGHJKL:'' @ [34, 126, 0, 124] @ kb_bytes ''ZXCVBNM<>?'' @ [0, 42, 0, 32] @ keypad)
       ([(0x9C, 10), (0xB5, 47)] @ special_keys)"

text \<open>\<^verbatim>\<open>ctlmap\<close> has \<^verbatim>\<open>C('/')\<close>, which is negative; as a byte it is 0xEF.\<close>

definition ctlmap :: "nat \<Rightarrow> 8 word" where
  "ctlmap =
     kb_table
       (replicate 16 0 @ map kb_C ''QWERTYUIOP'' @ [0, 0, 13, 0] @ map kb_C ''ASDFGHJKL'' @ [0, 0, 0, 0] @
        [92 - 64] @ map kb_C ''ZXCVBNM'' @ [0, 0, 47 - 64, 0, 0])
       ([(0x9C, 13), (0xB5, 47 - 64)] @ special_keys)"

definition charcode :: "8 word \<Rightarrow> nat \<Rightarrow> 8 word" where
  "charcode sel = (if sel = 0 then normalmap else if sel = SHIFT then shiftmap else ctlmap)"

text \<open>One scan code \<open>data\<close> that the controller has ready.\<close>

definition kbdgetc :: "8 word \<Rightarrow> 8 word \<Rightarrow> 8 word \<times> 8 word" where
  "kbdgetc data sh =
     (if data = 0xE0 then (0, sh OR E0ESC)
      else if data AND 0x80 \<noteq> 0 then
        let d = (if sh AND E0ESC \<noteq> 0 then data else data AND 0x7F) in
        (0, sh AND NOT (shiftcode (unat d) OR E0ESC))
      else
        let (d, sh1) = (if sh AND E0ESC \<noteq> 0 then (data OR 0x80, sh AND NOT E0ESC) else (data, sh));
            sh2 = (sh1 OR shiftcode (unat d)) XOR togglecode (unat d);
            ch = charcode (sh2 AND (CTL OR SHIFT)) (unat d) in
        (if sh2 AND CAPSLOCK \<noteq> 0 then
           if 97 \<le> ch \<and> ch \<le> 122 then ch - 32
           else if 65 \<le> ch \<and> ch \<le> 90 then ch + 32
           else ch
         else ch, sh2))"

text \<open>The characters \<^verbatim>\<open>consoleintr\<close> gets from the scan codes that are waiting.\<close>

fun kbd_chars :: "8 word list \<Rightarrow> 8 word \<Rightarrow> 8 word list \<times> 8 word" where
  "kbd_chars [] sh = ([], sh)"
| "kbd_chars (d # ds) sh =
     (let (ch, sh1) = kbdgetc d sh; (chs, sh2) = kbd_chars ds sh1 in (ch # chs, sh2))"

end
