(* ===== verification/Trap.thy ===== *)
theory Trap
  imports SysFile Exec Kbd
begin

text \<open>
  The entry points of the kernel: the console's process listings, the system call dispatcher of \<^verbatim>\<open>syscall.c\<close> and the
  trap handler of \<^verbatim>\<open>trap.c\<close>. What the hardware and the assembly code supply is the parameter \<open>en\<close>: the linker's addresses,
  the clock registers, the contents of uninitialised variables, the frame pointers that \<^verbatim>\<open>swtch\<close> has saved, the characters and scan
  codes that wait on the serial line and the keyboard, and the fault address.
\<close>

record env =
  en_ld :: linkmap
  en_cmos :: "nat \<Rightarrow> byte"
  en_junk :: "32 word"
  en_junk2 :: "32 word"
  en_elf :: "byte list"
  en_ebp :: "nat \<Rightarrow> 32 word"
  en_scan :: "byte list"
  en_uart :: "byte list"
  en_cr2 :: "32 word"

subsection \<open>Process listings\<close>

fun tabbed :: "string list \<Rightarrow> string" where
  "tabbed [] = []"
| "tabbed [x] = x"
| "tabbed (x # y # xs) = x @ CHR 0x09 # tabbed (y # xs)"

text \<open>Signed division of C, which rounds towards zero, for a positive divisor.\<close>

definition cdiv :: "int \<Rightarrow> int \<Rightarrow> int" where "cdiv a b = sgn a * (\<bar>a\<bar> div b)"
definition cmod :: "int \<Rightarrow> int \<Rightarrow> int" where "cmod a b = a - b * cdiv a b"

definition zeros :: "nat \<Rightarrow> int \<Rightarrow> kernel \<Rightarrow> kernel res" where
  "zeros c r s =
     rbind (if r < 100 then kprintf c ''0'' [] s else Ok s) (\<lambda>s1.
     if r < 10 then kprintf c ''0'' [] s1 else Ok s1)"

definition procdumpP3P4 :: "nat \<Rightarrow> proc \<Rightarrow> string \<Rightarrow> kernel \<Rightarrow> kernel res" where
  "procdumpP3P4 c pr state s =
     (let elapsedticks = sint (ticks s - p_start_ticks pr);
          secs = cdiv elapsedticks 1000; rem = cmod elapsedticks 1000;
          cpu_secs = uint (p_cpu_ticks_total pr) div 1000; cpu_rem = uint (p_cpu_ticks_total pr) mod 1000 in
      rbind (kprintf c (tabbed [''%d'', ''%s'', ''%d'', ''%d'', ''%d'', ''%s'', ''%d'', ''%d'', ''%d.''])
        [PWord (p_pid pr), PStr (Some (bytes_of (p_name pr))), PWord (p_uid pr), PWord (p_gid pr),
         PWord (case p_parent pr of Some q \<Rightarrow> p_pid (pt_proc s q) | None \<Rightarrow> p_pid pr),
         PStr (Some (bytes_of state)), PWord (of_int (p_priority pr)), PWord (p_sz pr), PWord (of_int secs)] s) (\<lambda>s1.
      rbind (zeros c rem s1) (\<lambda>s2.
      rbind (kprintf c (tabbed [''%d'', ''%d.'']) [PWord (of_int rem), PWord (of_int cpu_secs)] s2) (\<lambda>s3.
      rbind (zeros c cpu_rem s3) (\<lambda>s4.
      kprintf c ''%d\<newline>'' [PWord (of_int cpu_rem)] s4)))))"

definition print_pcs :: "nat \<Rightarrow> 32 word list \<Rightarrow> kernel \<Rightarrow> kernel res" where
  "print_pcs c pcs s = rfold (\<lambda>pc. kprintf c '' %p'' [PWord pc]) (takeWhile (\<lambda>pc. pc \<noteq> 0) pcs) s"

definition HEADER :: string where
  "HEADER = CHR 0x0A # tabbed [''PID'', ''Name'', ''UID'', ''GID'', ''PPID'', ''State'', ''Priority'', ''Size'', ''Time Elapsed'',
     ''CPU Time Elapsed'', ''PCs\<newline>'']"

definition procdump_one :: "env \<Rightarrow> nat \<Rightarrow> nat \<Rightarrow> kernel \<Rightarrow> kernel res" where
  "procdump_one en c q s =
     (let pr = pt_proc s q in
      if p_state pr = UNUSED then Ok s
      else
        rbind (procdumpP3P4 c pr (states (p_state pr)) s) (\<lambda>s1.
        rbind (if p_state pr = SLEEPING
               then print_pcs c (getcallerpcs (load32 (km_mem (k_mem (k_st s1)))) (en_ebp en q + 8)) s1 else Ok s1) (\<lambda>s2.
        kprintf c ''\<newline>'' [] s2)))"

definition procdump :: "env \<Rightarrow> nat \<Rightarrow> kernel \<Rightarrow> kernel res" where
  "procdump en c s =
     rbind (acquire_pt c s) (\<lambda>s1.
     rbind (kprintf c HEADER [] s1) (\<lambda>s2.
     rbind (rfold (procdump_one en c) [0..<NPROC] s2) (release_pt c)))"

text \<open>The loops print the head of the list again and stop before the last process, except in \<^verbatim>\<open>sleepdump\<close>.\<close>

fun readydump_loop :: "nat \<Rightarrow> nat \<Rightarrow> nat \<Rightarrow> kernel \<Rightarrow> kernel res" where
  "readydump_loop fuel c h s =
     (case p_next (pLists s) h of
        None \<Rightarrow> Ok s
      | Some n \<Rightarrow>
          (case fuel of 0 \<Rightarrow> Diverge
           | Suc f \<Rightarrow>
             rbind (kprintf c '' -> %d (%d)'' [PWord (p_pid (pt_proc s h)), PWord (p_budget (pt_proc s h))] s)
               (readydump_loop f c n)))"

definition readydump_level :: "nat \<Rightarrow> nat \<Rightarrow> kernel \<Rightarrow> kernel res" where
  "readydump_level c i s =
     rbind (case l_head (pLists s) (Ready i) of
              None \<Rightarrow> kprintf c ''No ready processes at priority %d.'' [PWord (of_nat i)] s
            | Some h \<Rightarrow>
                rbind (kprintf c ''Ready processes at priority %d: %d (budget %d)''
                         [PWord (of_nat i), PWord (p_pid (pt_proc s h)), PWord (p_budget (pt_proc s h))] s)
                  (readydump_loop NPROC c h)) (kprintf c ''\<newline>'' [])"

definition readydump :: "nat \<Rightarrow> nat \<Rightarrow> kernel \<Rightarrow> kernel res" where
  "readydump mp c s =
     rbind (getlock c s) (\<lambda>(_, s1).
     rbind (rfold (readydump_level c) [0..<mp + 1] s1) (\<lambda>s2. rbind (freelock c s2) (\<lambda>(_, s3). Ok s3)))"

fun chain_length :: "nat \<Rightarrow> pptr \<Rightarrow> statelists \<Rightarrow> nat res" where
  "chain_length fuel None ls = Ok 0"
| "chain_length 0 (Some p) ls = Diverge"
| "chain_length (Suc fuel) (Some p) ls = rbind (chain_length fuel (p_next ls p) ls) (\<lambda>n. Ok (Suc n))"

definition freedump :: "nat \<Rightarrow> kernel \<Rightarrow> kernel res" where
  "freedump c s =
     rbind (getlock c s) (\<lambda>(_, s1).
     rbind (chain_length NPROC (l_head (pLists s1) Free) (pLists s1)) (\<lambda>n.
     rbind (kprintf c ''Free list size: %d processes.\<newline>'' [PWord (of_nat n)] s1) (\<lambda>s2.
     rbind (freelock c s2) (\<lambda>(_, s3). Ok s3))))"

fun sleepdump_loop :: "nat \<Rightarrow> nat \<Rightarrow> nat \<Rightarrow> kernel \<Rightarrow> kernel res" where
  "sleepdump_loop fuel c h s =
     (case p_next (pLists s) h of
        None \<Rightarrow> Ok s
      | Some n \<Rightarrow>
          (case fuel of 0 \<Rightarrow> Diverge
           | Suc f \<Rightarrow> rbind (kprintf c '' -> %d'' [PWord (p_pid (pt_proc s n))] s) (sleepdump_loop f c n)))"

definition sleepdump :: "nat \<Rightarrow> kernel \<Rightarrow> kernel res" where
  "sleepdump c s =
     rbind (getlock c s) (\<lambda>(_, s1).
     rbind (case l_head (pLists s1) Sleep of
              None \<Rightarrow> kprintf c ''No sleeping processes.'' [] s1
            | Some h \<Rightarrow> rbind (kprintf c ''Sleeping processes: %d'' [PWord (p_pid (pt_proc s1 h))] s1) (sleepdump_loop NPROC c h)) (\<lambda>s2.
     rbind (kprintf c ''\<newline>'' [] s2) (\<lambda>s3. rbind (freelock c s3) (\<lambda>(_, s4). Ok s4))))"

definition zombie_print :: "nat \<Rightarrow> string \<Rightarrow> nat \<Rightarrow> kernel \<Rightarrow> kernel res" where
  "zombie_print c fmt h s = rbind (ppid c h s) (\<lambda>pp. kprintf c fmt [PWord (p_pid (pt_proc s h)), PWord pp] s)"

fun zombiedump_loop :: "nat \<Rightarrow> nat \<Rightarrow> nat \<Rightarrow> kernel \<Rightarrow> kernel res" where
  "zombiedump_loop fuel c h s =
     (case p_next (pLists s) h of
        None \<Rightarrow> Ok s
      | Some n \<Rightarrow>
          (case fuel of 0 \<Rightarrow> Diverge
           | Suc f \<Rightarrow> rbind (zombie_print c '' -> (%d,%d)'' h s) (zombiedump_loop f c n)))"

definition zombiedump :: "nat \<Rightarrow> kernel \<Rightarrow> kernel res" where
  "zombiedump c s =
     rbind (getlock c s) (\<lambda>(_, s1).
     rbind (case l_head (pLists s1) Zombie of
              None \<Rightarrow> kprintf c ''No zombie processes.'' [] s1
            | Some h \<Rightarrow> rbind (zombie_print c ''Zombie processes (PID, PPID): (%d,%d)'' h s1) (zombiedump_loop NPROC c h)) (\<lambda>s2.
     rbind (kprintf c ''\<newline>'' [] s2) (\<lambda>s3. rbind (freelock c s3) (\<lambda>(_, s4). Ok s4))))"

declare readydump_loop.simps [simp del] sleepdump_loop.simps [simp del] zombiedump_loop.simps [simp del]

fun run_dump :: "nat \<Rightarrow> env \<Rightarrow> nat \<Rightarrow> dump \<Rightarrow> kernel \<Rightarrow> kernel res" where
  "run_dump mp en c Procdump s = procdump en c s"
| "run_dump mp en c Readydump s = readydump mp c s"
| "run_dump mp en c Freedump s = freedump c s"
| "run_dump mp en c Sleepdump s = sleepdump c s"
| "run_dump mp en c Zombiedump s = zombiedump c s"

definition console_intr :: "nat \<Rightarrow> env \<Rightarrow> nat \<Rightarrow> byte list \<Rightarrow> kernel \<Rightarrow> kernel res" where
  "console_intr mp en c cs s = rbind (kdo c (consoleintr cs) s) (\<lambda>(ds, s1). rfold (run_dump mp en c) ds s1)"

definition kbdintr :: "nat \<Rightarrow> env \<Rightarrow> nat \<Rightarrow> kernel \<Rightarrow> kernel res" where
  "kbdintr mp en c s =
     (let (cs, sh) = kbd_chars (en_scan en) (kbd_shift s) in console_intr mp en c cs (s\<lparr>kbd_shift := sh\<rparr>))"

definition uartintr :: "nat \<Rightarrow> env \<Rightarrow> nat \<Rightarrow> kernel \<Rightarrow> kernel res" where
  "uartintr mp en c s = console_intr mp en c (en_uart en) s"

subsection \<open>System calls\<close>

text \<open>The table \<^verbatim>\<open>syscalls\<close>, by the numbers of \<^verbatim>\<open>syscall.h\<close>.\<close>

definition syscalls :: "nat \<Rightarrow> env \<Rightarrow> nat \<Rightarrow> (kernel \<Rightarrow> (sysres \<times> kernel) res) list" where
  "syscalls mp en c =
     (let ld = en_ld en; j = en_junk en; j' = en_junk2 en in
      [sys_fork ld c, sys_exit mp ld c, sys_wait mp ld c, sys_pipe ld c, sys_read mp c, sys_kill mp c,
       sys_exec ld (en_elf en) c, sys_fstat c, sys_chdir c, sys_dup c, sys_getpid c, sys_sbrk ld c, sys_sleep mp c,
       sys_uptime, sys_open ld c, sys_write mp c, sys_mknod c, sys_unlink c, sys_link c, sys_mkdir c, sys_close ld c,
       sys_halt c, sys_date (en_cmos en) c, sys_getuid c, sys_getgid c, sys_getppid c, sys_setuid j c, sys_setgid j c,
       sys_getprocs j j' c, sys_setpriority j j' mp c, sys_chown j j' c, sys_chgrp j j' c, sys_chmod j j' c])"

definition set_eax :: "nat \<Rightarrow> 32 word \<Rightarrow> kernel \<Rightarrow> kernel res" where
  "set_eax c w s = with_proc c s (\<lambda>p. Ok (upd_proc p (\<lambda>pr. pr\<lparr>p_tf := (p_tf pr)\<lparr>tf_eax := w\<rparr>\<rparr>) s))"

text \<open>The outcome of the dispatcher: the call has returned, or the process has left the processor.\<close>

datatype left = Returned | Left bool pending | Gone

definition finish :: "nat \<Rightarrow> sysres \<times> kernel \<Rightarrow> (left \<times> kernel) res" where
  "finish c = (\<lambda>(r, s). case r of
     SRet w \<Rightarrow> rbind (set_eax c w s) (\<lambda>s1. Ok (Returned, s1))
   | SSwitch intena pd \<Rightarrow> Ok (Left intena pd, s)
   | SExit \<Rightarrow> Ok (Gone, s))"

definition syscall :: "nat \<Rightarrow> env \<Rightarrow> nat \<Rightarrow> kernel \<Rightarrow> (left \<times> kernel) res" where
  "syscall mp en c s =
     with_proc c s (\<lambda>p.
     let num = tf_eax (p_tf (pt_proc s p)) in
     if 0 < sint num \<and> sint num < 34 then rbind ((syscalls mp en c ! (unat num - 1)) s) (finish c)
     else
       rbind (kprintf c ''%d %s: unknown sys call %d\<newline>''
                [PWord (p_pid (pt_proc s p)), PStr (Some (bytes_of (p_name (pt_proc s p)))), PWord num] s) (\<lambda>s1.
       rbind (set_eax c (-1) s1) (\<lambda>s2. Ok (Returned, s2))))"

text \<open>A suspended call runs again: the rest of \<^verbatim>\<open>sleep\<close>, then the loop it was called from. The trap handler goes on with \<open>trap_syscall_resume\<close>.\<close>

definition sys_resume :: "nat \<Rightarrow> env \<Rightarrow> nat \<Rightarrow> bool \<Rightarrow> pending \<Rightarrow> kernel \<Rightarrow> (left \<times> kernel) res" where
  "sys_resume mp en c intena pd s =
     rbind (case pd of
              PWait hk \<Rightarrow> rbind (wait_resume mp (en_ld en) c intena hk s) wait_result
            | PTicks ticks0 n \<Rightarrow> rbind (sleep_resume c intena NoLock s) (\<lambda>(_, s1). sleep_ticks mp c ticks0 n s1)
            | PRead f a n \<Rightarrow> rbind (sleep_resume c intena NoLock s) (\<lambda>(_, s1). read_file mp c f a n s1)
            | PWrite f bs n \<Rightarrow> rbind (sleep_resume c intena NoLock s) (\<lambda>(_, s1). write_file mp c f bs n s1))
       (finish c)"

subsection \<open>\<^verbatim>\<open>trap\<close>\<close>

definition T_SYSCALL :: "32 word" where "T_SYSCALL = 64"
definition T_IRQ0 :: "32 word" where "T_IRQ0 = 32"
definition SCHED_INTERVAL :: "32 word" where "SCHED_INTERVAL = 10"

definition killed :: "nat \<Rightarrow> kernel \<Rightarrow> bool" where
  "killed c s = (case c_proc (cpus s c) of None \<Rightarrow> False | Some p \<Rightarrow> p_killed (pt_proc s p))"

definition exit_now :: "nat \<Rightarrow> env \<Rightarrow> nat \<Rightarrow> kernel \<Rightarrow> (left \<times> kernel) res" where
  "exit_now mp en c s = rbind (exit mp (en_ld en) c s) (\<lambda>(_, s1). Ok (Gone, s1))"

text \<open>A system call returns to user space, unless the process was killed meanwhile; a call that slept comes to this test when it has run to its end.\<close>

definition after_syscall :: "nat \<Rightarrow> env \<Rightarrow> nat \<Rightarrow> left \<times> kernel \<Rightarrow> (left \<times> kernel) res" where
  "after_syscall mp en c = (\<lambda>(l, s). if l = Returned \<and> killed c s then exit_now mp en c s else Ok (l, s))"

definition trap_syscall :: "nat \<Rightarrow> env \<Rightarrow> nat \<Rightarrow> trapframe \<Rightarrow> kernel \<Rightarrow> (left \<times> kernel) res" where
  "trap_syscall mp en c tf s =
     with_proc c s (\<lambda>p.
     if p_killed (pt_proc s p) then exit_now mp en c s
     else rbind (syscall mp en c (upd_proc p (\<lambda>pr. pr\<lparr>p_tf := tf\<rparr>) s)) (after_syscall mp en c))"

definition trap_syscall_resume :: "nat \<Rightarrow> env \<Rightarrow> nat \<Rightarrow> bool \<Rightarrow> pending \<Rightarrow> kernel \<Rightarrow> (left \<times> kernel) res" where
  "trap_syscall_resume mp en c intena pd s = rbind (sys_resume mp en c intena pd s) (after_syscall mp en c)"

text \<open>The interrupts, and the exceptions of user and kernel code.\<close>

definition trap_handle :: "nat \<Rightarrow> env \<Rightarrow> nat \<Rightarrow> trapframe \<Rightarrow> kernel \<Rightarrow> kernel res" where
  "trap_handle mp en c tf s =
     (let t = tf_trapno tf in
      if t = T_IRQ0 then (if c = 0 then wakeup c ChTicks (s\<lparr>ticks := ticks s + 1\<rparr>) else Ok s)
      else if t = T_IRQ0 + 14 \<or> t = T_IRQ0 + 15 then Ok s
      else if t = T_IRQ0 + 1 then kbdintr mp en c s
      else if t = T_IRQ0 + 4 then uartintr mp en c s
      else if t = T_IRQ0 + 7 \<or> t = T_IRQ0 + 31 then
        kprintf c ''cpu%d: spurious interrupt at %x:%x\<newline>'' [PWord (of_nat c), PWord (ucast (tf_cs tf)), PWord (tf_eip tf)] s
      else
        case c_proc (cpus s c) of
          None \<Rightarrow> Panic ''trap''
        | Some p \<Rightarrow>
            if tf_cs tf AND 3 = 0 then Panic ''trap''
            else
              rbind (kprintf c ''pid %d %s: trap %d err %d on cpu %d eip 0x%x addr 0x%x--kill proc\<newline>''
                       [PWord (p_pid (pt_proc s p)), PStr (Some (bytes_of (p_name (pt_proc s p)))), PWord t, PWord (tf_err tf),
                        PWord (of_nat c), PWord (tf_eip tf), PWord (en_cr2 en)] s) (\<lambda>s1.
              Ok (upd_proc p (\<lambda>pr. pr\<lparr>p_killed := True\<rparr>) s1)))"

text \<open>
  After the handler. A process that yields leaves the processor with the interrupt flag that \<^verbatim>\<open>sched\<close> has saved and
  goes on with \<open>trap_resume\<close>.
\<close>

datatype trapres = TDone left | TYield bool

definition trap_exit :: "nat \<Rightarrow> env \<Rightarrow> nat \<Rightarrow> trapframe \<Rightarrow> kernel \<Rightarrow> (trapres \<times> kernel) res" where
  "trap_exit mp en c tf s =
     (if killed c s \<and> tf_cs tf AND 3 = DPL_USER
      then rbind (exit_now mp en c s) (\<lambda>(l, s1). Ok (TDone l, s1)) else Ok (TDone Returned, s))"

definition trap :: "nat \<Rightarrow> env \<Rightarrow> nat \<Rightarrow> trapframe \<Rightarrow> kernel \<Rightarrow> (trapres \<times> kernel) res" where
  "trap mp en c tf s =
     (if tf_trapno tf = T_SYSCALL then rbind (trap_syscall mp en c tf s) (\<lambda>(l, s1). Ok (TDone l, s1))
      else
        rbind (trap_handle mp en c tf s) (\<lambda>s1.
        if killed c s1 \<and> tf_cs tf AND 3 = DPL_USER then trap_exit mp en c tf s1
        else case c_proc (cpus s1 c) of
          Some p \<Rightarrow>
            if p_state (pt_proc s1 p) = RUNNING \<and> tf_trapno tf = T_IRQ0 \<and> ticks s1 mod SCHED_INTERVAL = 0
            then rbind (yield mp c s1) (\<lambda>(intena, s2). Ok (TYield intena, s2))
            else trap_exit mp en c tf s1
        | None \<Rightarrow> Ok (TDone Returned, s1)))"

definition trap_resume :: "nat \<Rightarrow> env \<Rightarrow> nat \<Rightarrow> trapframe \<Rightarrow> bool \<Rightarrow> kernel \<Rightarrow> (trapres \<times> kernel) res" where
  "trap_resume mp en c tf intena s = rbind (yield_resume c intena s) (trap_exit mp en c tf)"

end
