(* ===== verification/Grep.thy ===== *)
theory Grep
  imports Memory
begin

text \<open>
  The \<^verbatim>\<open>grep\<close> command, \<^verbatim>\<open>grep.c\<close>: the regular expression matcher (with \<^verbatim>\<open>^\<close>, \<^verbatim>\<open>$\<close>, \<^verbatim>\<open>.\<close> and \<^verbatim>\<open>*\<close>) and the loop that reads a file into a
  1024-byte buffer and prints the lines that match. A null-terminated string is the list of the bytes before its null byte; the buffer is
  the list of the \<^verbatim>\<open>m\<close> bytes in it. The \<^verbatim>\<open>read\<close> system call is a parameter, from the state of the file and a count to bytes and a new state;
  no bytes stand for its end or an error. The loop may run forever on an endless file: not returning is \<open>None\<close>.

  The matcher is equivalent to the language of the expression, and the whole command prints exactly the lines in that language.
\<close>

subsection \<open>The matcher\<close>

function matchhere :: "byte list \<Rightarrow> byte list \<Rightarrow> bool" and matchstar :: "byte \<Rightarrow> byte list \<Rightarrow> byte list \<Rightarrow> bool" where
  "matchhere re text =
     (case re of
        [] \<Rightarrow> True
      | c # re1 \<Rightarrow>
          (case re1 of
             d # re2 \<Rightarrow>
               if d = 42 then matchstar c re2 text
               else (case text of [] \<Rightarrow> False | t # ts \<Rightarrow> (c = 46 \<or> c = t) \<and> matchhere re1 ts)
           | [] \<Rightarrow>
               if c = 36 then text = []
               else (case text of [] \<Rightarrow> False | t # ts \<Rightarrow> (c = 46 \<or> c = t) \<and> matchhere re1 ts)))"
| "matchstar c re text =
     (matchhere re text \<or> (case text of [] \<Rightarrow> False | t # ts \<Rightarrow> (t = c \<or> c = 46) \<and> matchstar c re ts))"
  by pat_completeness auto

termination
  by (relation "measures [\<lambda>x. case x of Inl (re, text) \<Rightarrow> 2 * length re | Inr (c, re, text) \<Rightarrow> 2 * length re + 1,
    \<lambda>x. case x of Inl (re, text) \<Rightarrow> 0 | Inr (c, re, text) \<Rightarrow> length text]") auto

declare matchhere.simps [simp del] matchstar.simps [simp del]

text \<open>The loop of \<^verbatim>\<open>match\<close> over the positions of the text, the empty rest included.\<close>

fun match_from :: "byte list \<Rightarrow> byte list \<Rightarrow> bool" where
  "match_from re text = (matchhere re text \<or> (case text of [] \<Rightarrow> False | t # ts \<Rightarrow> match_from re ts))"

declare match_from.simps [simp del]

definition match :: "byte list \<Rightarrow> byte list \<Rightarrow> bool" where
  "match re text = (case re of c # re1 \<Rightarrow> if c = 94 then matchhere re1 text else match_from re text | [] \<Rightarrow> match_from re text)"

subsection \<open>The command\<close>

text \<open>The position of the first newline before a null byte, \<^verbatim>\<open>strchr(p, '\n')\<close>.\<close>

fun newline_at :: "byte list \<Rightarrow> nat option" where
  "newline_at [] = None"
| "newline_at (b # bs) = (if b = 0 then None else if b = 10 then Some 0 else map_option Suc (newline_at bs))"

lemma newline_at_less: "newline_at bs = Some i \<Longrightarrow> i < length bs"
  by (induction bs arbitrary: i) (auto split: if_splits)

text \<open>The inner loop: what is written, and the bytes from \<^verbatim>\<open>p\<close> on.\<close>

function grep_lines :: "byte list \<Rightarrow> byte list \<Rightarrow> byte list \<times> byte list" where
  "grep_lines pattern b =
     (case newline_at b of
        None \<Rightarrow> ([], b)
      | Some i \<Rightarrow> let (out, rest) = grep_lines pattern (drop (Suc i) b) in
          ((if match pattern (take i b) then take (Suc i) b else []) @ out, rest))"
  by pat_completeness auto

termination
  by (relation "measure (\<lambda>(pattern, b). length b)") (auto dest: newline_at_less)

declare grep_lines.simps [simp del]

definition GREPBUF :: nat where "GREPBUF = 1024"

partial_function (option) grep :: "('f \<Rightarrow> nat \<Rightarrow> byte list \<times> 'f) \<Rightarrow> byte list \<Rightarrow> byte list \<Rightarrow> byte list \<Rightarrow> 'f \<Rightarrow> (byte list \<times> 'f) option" where
  "grep rd pattern buf out f =
     (case rd f (GREPBUF - length buf - 1) of (bs, f1) \<Rightarrow>
        if bs = [] then Some (out, f1)
        else case grep_lines pattern (buf @ bs) of (o1, rest) \<Rightarrow>
          grep rd pattern (if length rest = length (buf @ bs) then [] else rest) (out @ o1) f1)"

subsection \<open>The language of an expression\<close>

datatype atom = One byte | Star byte | End

fun atoms :: "byte list \<Rightarrow> atom list" where
  "atoms [] = []"
| "atoms [c] = (if c = 36 then [End] else [One c])"
| "atoms (c # d # re) = (if d = 42 then Star c # atoms re else One c # atoms (d # re))"

definition sat :: "byte \<Rightarrow> byte \<Rightarrow> bool" where "sat c b \<longleftrightarrow> c = 46 \<or> c = b"

fun lang :: "atom list \<Rightarrow> byte list set" where
  "lang [] = {[]}"
| "lang (One c # as) = {b # w |b w. sat c b \<and> w \<in> lang as}"
| "lang (Star c # as) = {u @ w |u w. (\<forall>b \<in> set u. sat c b) \<and> w \<in> lang as}"
| "lang (End # as) = lang as"

text \<open>An expression that ends with \<^verbatim>\<open>$\<close> matches only up to the end of the text.\<close>

definition matches_here :: "atom list \<Rightarrow> byte list \<Rightarrow> bool" where
  "matches_here as text \<longleftrightarrow> (\<exists>u v. text = u @ v \<and> u \<in> lang as \<and> (End \<in> set as \<longrightarrow> v = []))"

definition matches :: "byte list \<Rightarrow> byte list \<Rightarrow> bool" where
  "matches re text \<longleftrightarrow>
     (if re \<noteq> [] \<and> hd re = 94 then matches_here (atoms (tl re)) text else \<exists>w rest. text = w @ rest \<and> matches_here (atoms re) rest)"

lemma matches_hereI: "text = u @ v \<Longrightarrow> u \<in> lang as \<Longrightarrow> (End \<in> set as \<Longrightarrow> v = []) \<Longrightarrow> matches_here as text"
  unfolding matches_here_def by blast

lemma matches_hereE:
  assumes "matches_here as text"
  obtains u v where "text = u @ v" "u \<in> lang as" "End \<in> set as \<longrightarrow> v = []"
  using assms unfolding matches_here_def by blast

lemma matches_one: "matches_here (One c # as) text \<longleftrightarrow> (case text of [] \<Rightarrow> False | t # ts \<Rightarrow> sat c t \<and> matches_here as ts)"
proof
  assume "matches_here (One c # as) text"
  then obtain u v where u: "text = u @ v" "u \<in> lang (One c # as)" "End \<in> set (One c # as) \<longrightarrow> v = []" by (rule matches_hereE) blast
  then obtain b w where "u = b # w" "sat c b" "w \<in> lang as" by auto
  then show "case text of [] \<Rightarrow> False | t # ts \<Rightarrow> sat c t \<and> matches_here as ts" using u by (auto intro: matches_hereI)
next
  assume "case text of [] \<Rightarrow> False | t # ts \<Rightarrow> sat c t \<and> matches_here as ts"
  then obtain t ts where ts: "text = t # ts" "sat c t" "matches_here as ts" by (auto split: list.splits)
  obtain u v where "ts = u @ v" "u \<in> lang as" "End \<in> set as \<longrightarrow> v = []" using ts(3) by (rule matches_hereE) blast
  then show "matches_here (One c # as) text" using ts(1,2) by (intro matches_hereI [of _ "t # u" v]) auto
qed

lemma lang_StarI: "\<forall>b \<in> set u. sat c b \<Longrightarrow> w \<in> lang as \<Longrightarrow> u @ w \<in> lang (Star c # as)"
  by auto

lemma matches_star:
  "matches_here (Star c # as) text \<longleftrightarrow> matches_here as text \<or> (case text of [] \<Rightarrow> False | t # ts \<Rightarrow> sat c t \<and> matches_here (Star c # as) ts)"
proof
  assume "matches_here (Star c # as) text"
  then obtain x v where x: "text = x @ v" "x \<in> lang (Star c # as)" "End \<in> set (Star c # as) \<longrightarrow> v = []" by (rule matches_hereE) blast
  then obtain u w where u: "x = u @ w" "\<forall>b \<in> set u. sat c b" "w \<in> lang as" by auto
  show "matches_here as text \<or> (case text of [] \<Rightarrow> False | t # ts \<Rightarrow> sat c t \<and> matches_here (Star c # as) ts)"
  proof (cases u)
    case Nil
    then show ?thesis using x u by (auto intro: matches_hereI)
  next
    case (Cons b u')
    then have "matches_here (Star c # as) (u' @ w @ v)" using x u by (intro matches_hereI [of _ "u' @ w" v]) auto
    then show ?thesis using Cons x u by simp
  qed
next
  assume "matches_here as text \<or> (case text of [] \<Rightarrow> False | t # ts \<Rightarrow> sat c t \<and> matches_here (Star c # as) ts)"
  then consider "matches_here as text" | t ts where "text = t # ts" "sat c t" "matches_here (Star c # as) ts" by (auto split: list.splits)
  then show "matches_here (Star c # as) text"
  proof cases
    case 1
    then obtain u v where "text = u @ v" "u \<in> lang as" "End \<in> set as \<longrightarrow> v = []" by (rule matches_hereE) blast
    moreover have "[] @ u \<in> lang (Star c # as)" if "u \<in> lang as" using that by (intro lang_StarI) auto
    ultimately show ?thesis by (intro matches_hereI [of _ u v]) auto
  next
    case (2 t ts)
    then obtain x v where x: "ts = x @ v" "x \<in> lang (Star c # as)" "End \<in> set (Star c # as) \<longrightarrow> v = []" by (elim matches_hereE) blast
    then obtain u w where "x = u @ w" "\<forall>b \<in> set u. sat c b" "w \<in> lang as" by auto
    then have "(t # u) @ w \<in> lang (Star c # as)" using 2(2) by (intro lang_StarI) auto
    then show ?thesis using 2(1) x \<open>x = u @ w\<close> by (intro matches_hereI [of _ "t # x" v]) auto
  qed
qed

lemma matches_end: "matches_here [] text" "matches_here [End] text \<longleftrightarrow> text = []"
  by (auto simp: matches_here_def)

lemma matchhere_iff: "matchhere re text \<longleftrightarrow> matches_here (atoms re) text"
  and matchstar_iff: "matchstar c re text \<longleftrightarrow> matches_here (Star c # atoms re) text"
proof (induction re "text" and c re "text" rule: matchhere_matchstar.induct)
  case (1 re tx)
  show ?case
  proof (cases re rule: atoms.cases)
    case 1
    then show ?thesis by (simp add: matchhere.simps matches_end matches_one)
  next
    case (2 c)
    then show ?thesis using 1
      by (auto simp: matchhere.simps [of "[c]"] matchhere.simps [of "[]"] matches_end matches_one sat_def split: list.splits)
  next
    case (3 c d re')
    show ?thesis
    proof (cases "d = 42")
      case True
      then show ?thesis using 1(2) [OF 3 refl True] 3 by (simp add: matchhere.simps [of "c # 42 # re'"])
    next
      case False
      then show ?thesis using 1(3) [OF 3 refl False] 3 by (auto simp: matchhere.simps [of "c # d # re'"] matches_end matches_one sat_def split: list.splits)
    qed
  qed
next
  case (2 c re tx)
  then show ?case by (subst matches_star, subst matchstar.simps) (auto simp: sat_def split: list.splits)
qed

lemma match_from_iff: "match_from re text \<longleftrightarrow> (\<exists>w rest. text = w @ rest \<and> matches_here (atoms re) rest)"
proof (induction "text")
  case Nil
  then show ?case by (simp add: match_from.simps [of re "[]"] matchhere_iff)
next
  case (Cons t ts)
  have "(\<exists>w rest. t # ts = w @ rest \<and> matches_here (atoms re) rest) \<longleftrightarrow>
    matches_here (atoms re) (t # ts) \<or> (\<exists>w rest. ts = w @ rest \<and> matches_here (atoms re) rest)" by (auto simp: Cons_eq_append_conv)
  then show ?case using Cons by (simp add: match_from.simps [of re "t # ts"] matchhere_iff)
qed

lemma match_iff: "match re text \<longleftrightarrow> matches re text"
  by (cases re) (simp_all add: match_def matches_def match_from_iff matchhere_iff)


subsection \<open>Lines\<close>

definition plain :: "byte list \<Rightarrow> bool" where "plain l \<longleftrightarrow> 0 \<notin> set l \<and> 10 \<notin> set l"

definition file_of :: "byte list list \<Rightarrow> byte list" where "file_of ls = concat (map (\<lambda>l. l @ [10]) ls)"

lemma file_of_simps [simp]: "file_of [] = []" "file_of (l # ls) = l @ 10 # file_of ls" "file_of (ls @ ls') = file_of ls @ file_of ls'"
  by (simp_all add: file_of_def)

lemma newline_at_plain: "plain l \<Longrightarrow> newline_at (l @ 10 # r) = Some (length l)" "plain l \<Longrightarrow> newline_at l = None"
  by (induction l) (auto simp: plain_def)

lemma grep_lines_file:
  "\<forall>l \<in> set ls. plain l \<Longrightarrow> plain r \<Longrightarrow> grep_lines pattern (file_of ls @ r) = (file_of (filter (match pattern) ls), r)"
proof (induction ls)
  case Nil
  then show ?case by (simp add: grep_lines.simps [of pattern r] newline_at_plain)
next
  case (Cons l ls)
  then have "newline_at (file_of (l # ls) @ r) = Some (length l)" by (simp add: newline_at_plain)
  then show ?case using Cons by (simp add: grep_lines.simps [of pattern "l @ 10 # file_of ls @ r"])
qed

text \<open>Where a buffer ends within the lines of a file.\<close>

lemma buffer_split:
  "\<forall>l \<in> set ls. plain l \<Longrightarrow> plain tl' \<Longrightarrow> b @ c = file_of ls @ tl' \<Longrightarrow>
   \<exists>ks ls' r. ls = ks @ ls' \<and> b = file_of ks @ r \<and> plain r \<and> r @ c = file_of ls' @ tl'"
proof (induction ls arbitrary: b)
  case Nil
  then have "plain b" by (auto simp: plain_def)
  then show ?case using Nil by (intro exI [of _ "[]"] exI [of _ b]) auto
next
  case (Cons l ls)
  have e: "b @ c = (l @ [10]) @ file_of ls @ tl'" using Cons.prems(3) by simp
  show ?case
  proof (cases "length b < length (l @ [10])")
    case True
    have "b = take (length b) ((l @ [10]) @ file_of ls @ tl')" unfolding e [symmetric] by simp
    then have "b = take (length b) l" using True by simp
    then have "set b \<subseteq> set l" by (metis set_take_subset)
    then have "plain b" using Cons.prems(1) by (auto simp: plain_def)
    then show ?thesis using Cons.prems(3) by (intro exI [of _ "[]"] exI [of _ "l # ls"] exI [of _ b]) simp
  next
    case False
    define b' where "b' = drop (length (l @ [10])) b"
    have "take (length (l @ [10])) b = l @ [10]" using False arg_cong [OF e, of "take (length (l @ [10]))"] by simp
    then have b: "b = (l @ [10]) @ b'" unfolding b'_def by (metis append_take_drop_id)
    then have b': "b = (l @ [10]) @ b'" "b' @ c = file_of ls @ tl'" using e by simp_all
    then obtain ks ls' r where "ls = ks @ ls'" "b' = file_of ks @ r" "plain r" "r @ c = file_of ls' @ tl'"
      using Cons.IH [of b'] Cons.prems by auto
    then show ?thesis using b'(1) by (intro exI [of _ "l # ks"] exI [of _ ls'] exI [of _ r]) simp
  qed
qed

lemma grep_run:
  assumes rd: "\<And>f n. contents f = fst (rd f n) @ contents (snd (rd f n)) \<and> length (fst (rd f n)) = min n (length (contents f))"
  shows "\<forall>l \<in> set ls. plain l \<and> length l < 1023 \<Longrightarrow> plain tl' \<Longrightarrow> buf @ contents f = file_of ls @ tl' \<Longrightarrow> plain buf \<Longrightarrow> (ls \<noteq> [] \<Longrightarrow> length buf < 1023) \<Longrightarrow>
    \<exists>f'. grep rd pattern buf out f = Some (out @ file_of (filter (match pattern) ls), f')"
proof (induction "length (contents f)" arbitrary: f ls tl' buf out rule: less_induct)
  case less
  obtain bs f1 where r: "rd f (GREPBUF - length buf - 1) = (bs, f1)" by (cases "rd f (GREPBUF - length buf - 1)")
  have n: "GREPBUF - length buf - 1 = 1023 - length buf" by (simp add: GREPBUF_def)
  have c: "contents f = bs @ contents f1" "length bs = min (1023 - length buf) (length (contents f))"
    using rd [of f "1023 - length buf"] r [unfolded n] by (auto simp only: fst_conv snd_conv)
  show ?case
  proof (cases "bs = []")
    case True
    have "ls = []"
    proof (rule ccontr)
      assume n: "ls \<noteq> []"
      then have "contents f = []" using less.prems(5) c(2) True by (simp add: min_def split: if_splits)
      then have "10 \<in> set buf" using less.prems(3) n by (cases ls) auto
      then show False using less.prems(4) by (simp add: plain_def)
    qed
    then show ?thesis using True r by (simp add: grep.simps [of rd pattern buf])
  next
    case False
    have pl: "\<forall>l \<in> set ls. plain l" using less.prems(1) by blast
    have "(buf @ bs) @ contents f1 = file_of ls @ tl'" using less.prems(3) c(1) by simp
    from buffer_split [OF pl less.prems(2) this] obtain ks ls' r where
      k: "ls = ks @ ls'" "buf @ bs = file_of ks @ r" "plain r" "r @ contents f1 = file_of ls' @ tl'" by blast
    define buf' where "buf' = (if length r = length (buf @ bs) then [] else r)"
    have g: "grep_lines pattern (buf @ bs) = (file_of (filter (match pattern) ks), r)" unfolding k(2) using pl k by (intro grep_lines_file) auto
    have lt: "length (contents f1) < length (contents f)" using arg_cong [OF c(1), of length] False by simp
    have "\<exists>f'. grep rd pattern buf' (out @ file_of (filter (match pattern) ks)) f1 = Some ((out @ file_of (filter (match pattern) ks)) @ file_of (filter (match pattern) ls'), f')"
    proof (cases "ls' = []")
      case True
      have "plain (contents f1)" "plain r" using k(3,4) True less.prems(2) by (auto simp: plain_def)
      then show ?thesis using less.hyps [OF lt, of "[]" tl' r] less.hyps [OF lt, of "[]" "contents f1" "[]"] True k(4) less.prems(2)
        by (cases "length r = length (buf @ bs)") (simp_all add: buf'_def plain_def)
    next
      case False
      then obtain l ls2 where l: "ls' = l # ls2" by (cases ls') auto
      have "length r \<le> length l"
      proof (rule ccontr)
        assume "\<not> length r \<le> length l"
        then have "r ! length l \<in> set r" "r ! length l = (r @ contents f1) ! length l" by (simp_all add: nth_append)
        then show False using k(3,4) l by (simp add: plain_def nth_append)
      qed
      moreover have "length l < 1023" using less.prems(1) k(1) l by auto
      ultimately have lr: "length r < 1023" by simp
      have "ks \<noteq> []"
      proof
        assume "ks = []"
        then have "length (buf @ bs) < 1023" using k(2) lr by simp
        then have "length bs = length (contents f)" using c(2) by (simp add: min_def split: if_splits)
        then have "contents f1 = []" using arg_cong [OF c(1), of length] by simp
        then show False using k(3,4) l by (simp add: plain_def)
      qed
      then have "length r \<noteq> length (buf @ bs)" unfolding k(2) by (cases ks) auto
      then have "buf' = r" unfolding buf'_def by (rule if_not_P)
      moreover have "\<forall>l \<in> set ls'. plain l \<and> length l < 1023" using less.prems(1) k(1) by simp
      ultimately show ?thesis using less.hyps [OF lt _ less.prems(2) k(4,3)] lr by blast
    qed
    then show ?thesis using r g False k(1) by (simp add: grep.simps [of rd pattern buf] buf'_def)
  qed
qed


text \<open>C36. \<^verbatim>\<open>grep\<close> prints the lines that match, each once and in order. The file is lines of fewer than 1023 bytes, without null bytes, and perhaps an unterminated rest, which is
  never printed; reading delivers as many of the bytes that are left as are asked for. Then the command returns, whatever the pattern and however the lines
  fall on the buffer, and its output is the lines that the pattern's language matches: at the start for \<^verbatim>\<open>^\<close>, up to the end for a final \<^verbatim>\<open>$\<close>, anywhere otherwise.\<close>

theorem grep_correct:
  assumes "\<And>f n. contents f = fst (rd f n) @ contents (snd (rd f n)) \<and> length (fst (rd f n)) = min n (length (contents f))"
    and "contents f = file_of ls @ rest" "plain rest" "\<forall>l \<in> set ls. plain l \<and> length l < 1023"
  shows "\<exists>f'. grep rd pattern [] [] f = Some (file_of (filter (matches pattern) ls), f')"
proof -
  have "match pattern = matches pattern" by (rule ext) (rule match_iff)
  then show ?thesis using grep_run [OF assms(1) assms(4,3), of "[]" f pattern "[]"] assms(2) by (simp add: plain_def)
qed

text \<open>A file read from memory, and the expression \<^verbatim>\<open>^ab*$\<close>.\<close>

theorem grep_correct_witness:
  "\<exists>f'. grep (\<lambda>f n. (take n f, drop n f)) [94, 97, 98, 42, 36] [] [] [97, 98, 98, 10, 98, 10, 97, 10, 97] = Some ([97, 98, 98, 10, 97, 10], f')"
proof -
  have m: "matches [94, 97, 98, 42, 36] l \<longleftrightarrow> l \<in> {[97, 98, 98], [97]}" if "l \<in> {[97, 98, 98], [98], [97]}" for l
    using that by (auto simp: match_iff [symmetric] match_def matchhere.simps matchstar.simps)
  have "filter (matches [94, 97, 98, 42, 36]) [[97, 98, 98], [98], [97]] = [[97, 98, 98], [97]]" using m by simp
  then show ?thesis
    using grep_correct [of "\<lambda>f. f" "\<lambda>f n. (take n f, drop n f)" "[97, 98, 98, 10, 98, 10, 97, 10, 97]" "[[97, 98, 98], [98], [97]]" "[97]" "[94, 97, 98, 42, 36]"]
    by (simp add: plain_def min.commute)
qed

end
