(* ===== verification/Umalloc.thy ===== *)
theory Umalloc
  imports Prelude
begin

text \<open>
  The heap of user programs, \<^verbatim>\<open>umalloc.c\<close>: the Kernighan-Ritchie allocator. The headers of the blocks are two maps from addresses, the fields \<^verbatim>\<open>s.ptr\<close> and
  \<^verbatim>\<open>s.size\<close>; the free blocks are a circular list in the order of their addresses that goes through the static header \<^verbatim>\<open>base\<close>. Addresses and sizes are 32-bit numbers
  with the wrap-around written out. The address of \<^verbatim>\<open>base\<close>, which the linker chooses, and the system call \<^verbatim>\<open>sbrk\<close> with the state of the system it works on are parameters.

  \<open>heap_ok\<close> is the invariant: the list is sorted and circular, no two free blocks touch, and the allocated blocks are apart from each other and from the free ones.
  The theorem shows that both operations keep it, that an allocation is large enough and disjoint from every other one, and that no byte of the heap is lost.
\<close>

definition HEADER_SIZE :: nat where "HEADER_SIZE = 8"

record uheap =
  u_ptr :: "nat \<Rightarrow> nat"
  u_size :: "nat \<Rightarrow> nat"
  u_freep :: nat

text \<open>\<^verbatim>\<open>p + n\<close> for a pointer to headers.\<close>

definition hplus :: "nat \<Rightarrow> nat \<Rightarrow> nat" where
  "hplus p n = (p + HEADER_SIZE * n) mod 2 ^ 32"

text \<open>The search for the place of a block. There are no more than \<open>2 ^ 32\<close> addresses, so a walk that takes more steps never ends.\<close>

fun free_loop :: "nat \<Rightarrow> nat \<Rightarrow> nat \<Rightarrow> uheap \<Rightarrow> nat res" where
  "free_loop fuel bp p s =
     (if p < bp \<and> bp < u_ptr s p then Ok p
      else if u_ptr s p \<le> p \<and> (p < bp \<or> bp < u_ptr s p) then Ok p
      else (case fuel of 0 \<Rightarrow> Diverge | Suc f \<Rightarrow> free_loop f bp (u_ptr s p) s))"

declare free_loop.simps [simp del]

definition free_at :: "nat \<Rightarrow> nat \<Rightarrow> uheap \<Rightarrow> uheap" where
  "free_at bp p s =
     (let nx = u_ptr s p;
          s1 = (if hplus bp (u_size s bp) = nx
                then s\<lparr>u_size := (u_size s)(bp := (u_size s bp + u_size s nx) mod 2 ^ 32), u_ptr := (u_ptr s)(bp := u_ptr s nx)\<rparr>
                else s\<lparr>u_ptr := (u_ptr s)(bp := nx)\<rparr>);
          s2 = (if hplus p (u_size s1 p) = bp
                then s1\<lparr>u_size := (u_size s1)(p := (u_size s1 p + u_size s1 bp) mod 2 ^ 32), u_ptr := (u_ptr s1)(p := u_ptr s1 bp)\<rparr>
                else s1\<lparr>u_ptr := (u_ptr s1)(p := bp)\<rparr>)
      in s2\<lparr>u_freep := p\<rparr>)"

definition free :: "nat \<Rightarrow> uheap \<Rightarrow> uheap res" where
  "free ap s =
     (let bp = (ap + (2 ^ 32 - HEADER_SIZE)) mod 2 ^ 32 in
      rbind (free_loop (2 ^ 32) bp (u_freep s) s) (\<lambda>p. Ok (free_at bp p s)))"

definition morecore :: "(nat \<Rightarrow> 'e \<Rightarrow> nat \<times> 'e) \<Rightarrow> nat \<Rightarrow> uheap \<Rightarrow> 'e \<Rightarrow> (nat \<times> uheap \<times> 'e) res" where
  "morecore sbrk nu s e =
     (let nu = (if nu < 4096 then 4096 else nu);
          (p, e') = sbrk (nu * HEADER_SIZE mod 2 ^ 32) e in
      if p = 2 ^ 32 - 1 then Ok (0, s, e')
      else rbind (free (hplus p 1) (s\<lparr>u_size := (u_size s)(p := nu)\<rparr>)) (\<lambda>s'. Ok (u_freep s', s', e')))"

text \<open>Taking \<open>n\<close> units from the free block \<open>p\<close> after \<open>prevp\<close>: the whole block or its end.\<close>

definition malloc_take :: "nat \<Rightarrow> nat \<Rightarrow> nat \<Rightarrow> uheap \<Rightarrow> nat \<times> uheap" where
  "malloc_take n prevp p s =
     (if u_size s p = n then (hplus p 1, s\<lparr>u_ptr := (u_ptr s)(prevp := u_ptr s p), u_freep := prevp\<rparr>)
      else
        let s1 = s\<lparr>u_size := (u_size s)(p := u_size s p - n)\<rparr>;
            q = hplus p (u_size s1 p) in
        (hplus q 1, s1\<lparr>u_size := (u_size s1)(q := n), u_freep := prevp\<rparr>))"

fun malloc_loop :: "nat \<Rightarrow> (nat \<Rightarrow> 'e \<Rightarrow> nat \<times> 'e) \<Rightarrow> nat \<Rightarrow> nat \<Rightarrow> nat \<Rightarrow> uheap \<Rightarrow> 'e \<Rightarrow> (nat \<times> uheap \<times> 'e) res" where
  "malloc_loop fuel sbrk n prevp p s e =
     (if n \<le> u_size s p then (case malloc_take n prevp p s of (a, s') \<Rightarrow> Ok (a, s', e))
      else
        rbind (if p = u_freep s then morecore sbrk n s e else Ok (p, s, e)) (\<lambda>(q, s', e').
        if p = u_freep s \<and> q = 0 then Ok (0, s', e')
        else (case fuel of 0 \<Rightarrow> Diverge | Suc f \<Rightarrow> malloc_loop f sbrk n q (u_ptr s' q) s' e')))"

declare malloc_loop.simps [simp del]

definition nunits :: "nat \<Rightarrow> nat" where
  "nunits nbytes = (nbytes + HEADER_SIZE - 1) mod 2 ^ 32 div HEADER_SIZE + 1"

definition malloc_init :: "nat \<Rightarrow> uheap \<Rightarrow> uheap" where
  "malloc_init base s =
     (if u_freep s = 0 then s\<lparr>u_ptr := (u_ptr s)(base := base), u_size := (u_size s)(base := 0), u_freep := base\<rparr> else s)"

definition malloc :: "nat \<Rightarrow> (nat \<Rightarrow> 'e \<Rightarrow> nat \<times> 'e) \<Rightarrow> nat \<Rightarrow> uheap \<Rightarrow> 'e \<Rightarrow> (nat \<times> uheap \<times> 'e) res" where
  "malloc base sbrk nbytes s e =
     (let s1 = malloc_init base s;
          prevp = u_freep s1 in
      malloc_loop (2 ^ 33) sbrk (nunits nbytes) prevp (u_ptr s1 prevp) s1 e)"

subsection \<open>The free list\<close>

text \<open>The pointers lead through the list and then to \<open>y\<close>.\<close>

fun chained :: "(nat \<Rightarrow> nat) \<Rightarrow> nat list \<Rightarrow> nat \<Rightarrow> bool" where
  "chained h [] y \<longleftrightarrow> True"
| "chained h (x # xs) y \<longleftrightarrow> h x = hd (xs @ [y]) \<and> chained h xs y"

lemma chained_append: "chained h (xs @ ys) y \<longleftrightarrow> chained h xs (hd (ys @ [y])) \<and> chained h ys y"
  by (induction xs) (auto simp: hd_append)

lemma chained_cong: "\<forall>x \<in> set xs. h x = h' x \<Longrightarrow> chained h xs y = chained h' xs y"
  by (induction xs) auto

lemma chained_upd [simp]: "x \<notin> set xs \<Longrightarrow> chained (h(x := v)) xs y = chained h xs y"
  by (rule chained_cong) auto

lemma chained_next: "chained h (l @ x # r) y \<Longrightarrow> h x = hd (r @ [y])"
  by (simp add: chained_append)

definition block_end :: "uheap \<Rightarrow> nat \<Rightarrow> nat" where
  "block_end s a = a + HEADER_SIZE * u_size s a"

definition apart :: "uheap \<Rightarrow> nat \<Rightarrow> nat \<Rightarrow> bool" where
  "apart s a b \<longleftrightarrow> block_end s a \<le> b \<or> block_end s b \<le> a"

definition heap_ok :: "nat \<Rightarrow> nat \<Rightarrow> nat set \<Rightarrow> nat list \<Rightarrow> uheap \<Rightarrow> bool" where
  "heap_ok base lim A xs s \<longleftrightarrow>
     0 < base \<and> base + HEADER_SIZE \<le> lim \<and> lim < 2 ^ 32 \<and> u_size s base = 0 \<and> u_freep s \<in> set (base # xs) \<and> chained (u_ptr s) (base # xs) base \<and>
     sorted_wrt (\<lambda>x y. block_end s x < y) xs \<and>
     (\<forall>a \<in> A \<union> set xs. 1 \<le> u_size s a \<and> base + HEADER_SIZE \<le> a \<and> block_end s a \<le> lim) \<and>
     (\<forall>a \<in> A. \<forall>b \<in> A \<union> set xs. a \<noteq> b \<longrightarrow> apart s a b) \<and> A \<inter> set xs = {}"

definition free_bytes :: "uheap \<Rightarrow> nat list \<Rightarrow> nat set" where
  "free_bytes s xs = (\<Union>x \<in> set xs. {x..<block_end s x})"

lemma free_bytes_simps [simp]: "free_bytes s [] = {}" "free_bytes s (x # xs) = {x..<block_end s x} \<union> free_bytes s xs"
  "free_bytes s (xs @ ys) = free_bytes s xs \<union> free_bytes s ys"
  by (auto simp: free_bytes_def)

lemma free_bytes_cong: "\<forall>x \<in> set xs. u_size s' x = u_size s x \<Longrightarrow> free_bytes s' xs = free_bytes s xs"
  by (simp add: free_bytes_def block_end_def)

subsection \<open>Finding the place of a block\<close>

lemma chained_last: "chained h (base # l @ r) y \<Longrightarrow> h (last (base # l)) = hd (r @ [y])"
  using chained_append [of h "base # l" r y] chained_next [of h "butlast (base # l)" "last (base # l)" "[]" "hd (r @ [y])"] by simp

lemma free_loop_low:
  assumes "base < bp" "\<forall>x \<in> set r. bp < x"
  shows "chained (u_ptr s) (base # l1 @ l2 @ r) base \<Longrightarrow> sorted_wrt (<) (base # l1 @ l2 @ r) \<Longrightarrow> \<forall>x \<in> set (l1 @ l2). x < bp \<Longrightarrow> length l2 \<le> fuel \<Longrightarrow>
    free_loop fuel bp (last (base # l1)) s = Ok (last (base # l1 @ l2))"
proof (induction l2 arbitrary: l1 fuel)
  case Nil
  define p where "p = last (base # l1)"
  have "p < bp" "base \<le> p" using Nil(2,3) assms(1) unfolding p_def by (cases l1 rule: rev_cases; simp add: less_imp_le)+
  moreover have "u_ptr s p = hd (r @ [base])" using Nil(1) chained_last [of "u_ptr s" base l1 r base] by (simp add: p_def)
  ultimately have "free_loop fuel bp p s = Ok p" using assms by (cases r) (auto simp: free_loop.simps [of fuel])
  then show ?case by (simp only: p_def append_Nil2)
next
  case (Cons z l2)
  let ?p = "last (base # l1)"
  have h: "u_ptr s ?p = z" using Cons.prems(1) chained_last [of "u_ptr s" base l1 "z # l2 @ r" base] by simp
  have lt: "?p < z" "z < bp" using Cons.prems(2,3) by (auto simp: sorted_wrt_append)
  obtain f where f: "fuel = Suc f" using Cons.prems(4) by (cases fuel) auto
  have "free_loop fuel bp ?p s = free_loop f bp (last (base # l1 @ [z])) s" using h lt f by (simp add: free_loop.simps [of "Suc f"])
  also have "\<dots> = Ok (last (base # (l1 @ [z]) @ l2))" using Cons.IH [of "l1 @ [z]" f] Cons.prems f by simp
  finally show ?case by simp
qed

lemma free_loop_high:
  assumes "base < bp" "\<forall>x \<in> set l. x < bp"
  shows "chained (u_ptr s) (base # l @ r1 @ q # r2) base \<Longrightarrow> sorted_wrt (<) (base # l @ r1 @ q # r2) \<Longrightarrow> \<forall>x \<in> set (r1 @ q # r2). bp < x \<Longrightarrow>
    length l + length r2 < fuel \<Longrightarrow> free_loop fuel bp q s = Ok (last (base # l))"
proof (induction r2 arbitrary: r1 q fuel)
  case Nil
  obtain f where f: "fuel = Suc f" using Nil.prems(4) by (cases fuel) auto
  have h: "u_ptr s q = base" using Nil.prems(1) chained_next [of "u_ptr s" "base # l @ r1" q "[]" base] by simp
  have "base < q" "bp < q" using Nil.prems(2,3) by auto
  then have "free_loop fuel bp q s = free_loop f bp (last (base # [])) s" using h f assms by (simp add: free_loop.simps [of "Suc f"])
  also have "\<dots> = Ok (last (base # [] @ l))" by (rule free_loop_low [where r = "r1 @ [q]"]) (use Nil.prems assms f in auto)
  finally show ?case by simp
next
  case (Cons z r2)
  obtain f where f: "fuel = Suc f" using Cons.prems(4) by (cases fuel) auto
  have h: "u_ptr s q = z" using Cons.prems(1) chained_next [of "u_ptr s" "base # l @ r1" q "z # r2" base] by simp
  have "q < z" "bp < q" using Cons.prems(2,3) by (auto simp: sorted_wrt_append)
  then have "free_loop fuel bp q s = free_loop f bp z s" using h f by (simp add: free_loop.simps [of "Suc f"])
  then show ?case using Cons.IH [of "r1 @ [q]" z f] Cons.prems f by simp
qed

lemma free_loop_ok:
  assumes "chained (u_ptr s) (base # l @ r) base" "sorted_wrt (<) (base # l @ r)" "base < bp" "\<forall>x \<in> set l. x < bp" "\<forall>x \<in> set r. bp < x"
    "q \<in> set (base # l @ r)" "length (l @ r) < fuel"
  shows "free_loop fuel bp q s = Ok (last (base # l))"
proof (cases "q \<in> set r")
  case True
  then obtain r1 r2 where "r = r1 @ q # r2" by (auto simp: in_set_conv_decomp)
  then show ?thesis using free_loop_high [of base bp l s r1 q r2 fuel] assms by simp
next
  case False
  then have "q \<in> set (base # l)" using assms(6) by auto
  then obtain a b where ab: "base # l = a @ q # b" by (meson split_list)
  then obtain l1 where l1: "base # l1 = a @ [q]" by (cases a) auto
  then have l: "l = l1 @ b" using ab by (metis append.assoc append_Cons append_Nil list.inject)
  have q: "last (base # l1) = q" using l1 by simp
  show ?thesis using free_loop_low [OF assms(3,5), of s l1 b fuel] assms(1,2,4,7) unfolding l q by simp
qed

subsection \<open>Freeing a block\<close>

lemma heap_sorted: "heap_ok base lim A xs s \<Longrightarrow> sorted_wrt (<) (base # xs)"
proof -
  assume ok: "heap_ok base lim A xs s"
  then have "sorted_wrt (\<lambda>x y. block_end s x < y) xs" "\<forall>x \<in> set xs. base + 8 \<le> x" by (auto simp: heap_ok_def HEADER_SIZE_def)
  then show ?thesis using sorted_wrt_mono_rel [of xs "\<lambda>x y. block_end s x < y" "(<)"] by (auto simp: block_end_def)
qed

lemma heap_length: "sorted_wrt (\<lambda>x y. block_end s x < y) xs \<Longrightarrow> \<forall>a \<in> set xs. 1 \<le> u_size s a \<and> lo \<le> a \<and> block_end s a \<le> lim \<Longrightarrow> lo + length xs \<le> max lo lim"
proof (induction xs arbitrary: lo)
  case (Cons x xs)
  then have "Suc lo + length xs \<le> max (Suc lo) lim" by (intro Cons.IH) (auto simp: block_end_def HEADER_SIZE_def)
  moreover have "Suc lo \<le> lim" using Cons.prems by (auto simp: block_end_def HEADER_SIZE_def)
  ultimately show ?case by simp
qed simp

lemma hplus_end: "block_end s a < 2 ^ 32 \<Longrightarrow> hplus a (u_size s a) = block_end s a"
  by (simp add: hplus_def block_end_def)

text \<open>The block \<open>bp\<close> after the first half of \<^verbatim>\<open>free\<close>: it has taken in the free block above it, if that one touches it, and leads to the rest of the list.\<close>

definition right_done :: "nat \<Rightarrow> nat \<Rightarrow> nat set \<Rightarrow> nat \<Rightarrow> nat list \<Rightarrow> uheap \<Rightarrow> uheap \<Rightarrow> nat list \<Rightarrow> bool" where
  "right_done base lim A bp r s s1 r1 \<longleftrightarrow>
     u_ptr s1 = (u_ptr s)(bp := hd (r1 @ [base])) \<and> u_size s1 = (u_size s)(bp := u_size s1 bp) \<and> chained (u_ptr s) r1 base \<and> set r1 \<subseteq> set r \<and>
     sorted_wrt (\<lambda>x y. block_end s x < y) r1 \<and> (\<forall>y \<in> set r1. block_end s1 bp < y) \<and> u_size s bp \<le> u_size s1 bp \<and> block_end s1 bp \<le> lim \<and>
     {bp..<block_end s1 bp} \<union> free_bytes s r1 = {bp..<block_end s bp} \<union> free_bytes s r \<and> (\<forall>a \<in> A. block_end s a \<le> bp \<or> block_end s1 bp \<le> a)"

lemma free_right:
  assumes ok: "heap_ok base lim (insert bp A) (l @ r) s" "bp \<notin> A" and r: "\<forall>x \<in> set r. bp < x" and nx: "nx = hd (r @ [base])"
    and s1: "s1 = (if hplus bp (u_size s bp) = nx
                then s\<lparr>u_size := (u_size s)(bp := (u_size s bp + u_size s nx) mod 2 ^ 32), u_ptr := (u_ptr s)(bp := u_ptr s nx)\<rparr>
                else s\<lparr>u_ptr := (u_ptr s)(bp := nx)\<rparr>)"
  shows "\<exists>r1. right_done base lim A bp r s s1 r1"
proof -
  have bp: "block_end s bp \<le> lim" "lim < 2 ^ 32" "1 \<le> u_size s bp" "base + HEADER_SIZE \<le> bp" and ap: "\<forall>a \<in> A. apart s bp a" and lr: "chained (u_ptr s) r base" "sorted_wrt (\<lambda>x y. block_end s x < y) r"
    using ok by (auto simp: heap_ok_def chained_append sorted_wrt_append)
  have apr: "\<forall>x \<in> set r. apart s bp x" using ok r unfolding heap_ok_def by auto
  have h: "hplus bp (u_size s bp) = block_end s bp" using bp by (simp add: hplus_end)
  show ?thesis
  proof (cases "block_end s bp = nx")
    case True
    then have "r \<noteq> []" using nx bp by (auto simp: block_end_def HEADER_SIZE_def)
    then obtain r1 where r1: "r = nx # r1" using nx by (cases r) auto
    have n: "block_end s nx \<le> lim" "1 \<le> u_size s nx" "\<forall>a \<in> A. a \<noteq> nx \<and> apart s a nx" "\<forall>a \<in> A. 1 \<le> u_size s a" using ok r1 by (auto simp: heap_ok_def)
    have sz: "u_size s1 = (u_size s)(bp := u_size s bp + u_size s nx)" "u_ptr s1 = (u_ptr s)(bp := hd (r1 @ [base]))"
      using s1 h True n(1) bp(2) lr(1) r1 by (auto simp: block_end_def HEADER_SIZE_def)
    then have e: "block_end s1 bp = block_end s nx" using True by (simp add: block_end_def algebra_simps)
    have al: "block_end s a \<le> bp \<or> block_end s nx \<le> a" if "a \<in> A" for a
      using bspec [OF ap that] bspec [OF n(3) that] bspec [OF n(4) that] True by (simp add: apart_def block_end_def HEADER_SIZE_def) linarith
    have "{bp..<block_end s nx} = {bp..<block_end s bp} \<union> {nx..<block_end s nx}" using True by (auto simp: block_end_def)
    then have b: "{bp..<block_end s1 bp} \<union> free_bytes s r1 = {bp..<block_end s bp} \<union> free_bytes s r" by (simp add: e r1 Un_assoc)
    have "u_size s1 = (u_size s)(bp := u_size s1 bp)" "u_size s bp \<le> u_size s1 bp" by (simp_all add: sz)
    then show ?thesis using lr n(1) sz(2) al b unfolding right_done_def r1 e by (intro exI [of _ r1]) auto
  next
    case False
    have "block_end s bp < y" if "y \<in> set r" for y
    proof -
      have "\<forall>x \<in> set r. block_end s bp \<le> x" using apr r unfolding apart_def block_end_def by force
      moreover have "nx \<le> y" "nx \<in> set r" using that nx lr(2) by (cases r; auto simp: block_end_def)+
      ultimately show ?thesis using False by fastforce
    qed
    moreover have "block_end s1 bp = block_end s bp" "u_ptr s1 = (u_ptr s)(bp := nx)" "u_size s1 = u_size s" using s1 h False by (simp_all add: block_end_def)
    moreover have "block_end s a \<le> bp \<or> block_end s bp \<le> a" if "a \<in> A" for a using ap that by (auto simp: apart_def)
    ultimately show ?thesis using lr bp nx unfolding right_done_def by (intro exI [of _ r]) auto
  qed
qed

lemma chained_retarget:
  assumes "chained h (k @ [z]) y" "\<forall>x \<in> set k. h' x = h x" "h' z = y'" "z \<notin> set k"
  shows "chained h' (k @ [z]) y'"
  using assms chained_cong [of k h' h] by (simp add: chained_append)

lemma heap_insert:
  assumes ok: "heap_ok base lim B (l @ r) s" and A: "A \<subseteq> B" and l: "l = l' @ l2" and r: "set r1 \<subseteq> set r" "chained (u_ptr s) r1 base" "sorted_wrt (\<lambda>x y. block_end s x < y) r1"
    and sz: "\<And>x. x \<in> insert base (A \<union> set l' \<union> set r1) \<Longrightarrow> u_size s' x = u_size s x"
    and ptr: "\<And>x. x \<in> set (butlast (base # l')) \<union> set r1 \<Longrightarrow> u_ptr s' x = u_ptr s x" "u_ptr s' (last (base # l')) = m" "u_ptr s' m = hd (r1 @ [base])"
    and m: "1 \<le> u_size s' m" "base + HEADER_SIZE \<le> m" "block_end s' m \<le> lim" "m \<notin> A" "\<forall>x \<in> set l'. block_end s x < m" "\<forall>y \<in> set r1. block_end s' m < y"
      "\<forall>a \<in> A. block_end s a \<le> m \<or> block_end s' m \<le> a"
    and fp: "u_freep s' \<in> set (base # l' @ m # r1)"
  shows "heap_ok base lim A (l' @ m # r1) s'"
proof -
  obtain k z where k: "base # l' = k @ [z]" by (metis rev_exhaust list.distinct(1))
  have be: "block_end s' x = block_end s x" if "x \<in> insert base (A \<union> set l' \<union> set r1)" for x using sz [OF that] by (simp add: block_end_def)
  have "sorted_wrt (<) (base # l')" using heap_sorted [OF ok] l by (simp add: sorted_wrt_append)
  then have "z \<notin> set k" unfolding k by (auto simp: sorted_wrt_append)
  moreover have "chained (u_ptr s) (k @ [z]) (hd ((l2 @ r) @ [base]))"
    using ok chained_append [of "u_ptr s" "base # l'" "l2 @ r" base] unfolding heap_ok_def l k [symmetric] by simp
  ultimately have "chained (u_ptr s') (base # l') m" using chained_retarget [of "u_ptr s" k z _ "u_ptr s'" m] ptr(1,2) unfolding k by simp
  moreover have "chained (u_ptr s') r1 base" using r(2) ptr(1) chained_cong [of r1 "u_ptr s'" "u_ptr s"] by auto
  ultimately have "chained (u_ptr s') (base # l' @ m # r1) base" using ptr(3) chained_append [of "u_ptr s'" "base # l'" "m # r1" base] by simp
  moreover have "sorted_wrt (\<lambda>x y. block_end s' x < y) (l' @ m # r1)"
  proof -
    have "sorted_wrt (\<lambda>x y. block_end s x < y) l'" "\<forall>x \<in> set l'. \<forall>y \<in> set r1. block_end s x < y" using ok l r(1) by (auto simp: heap_ok_def sorted_wrt_append)
    moreover have "sorted_wrt (\<lambda>x y. block_end s' x < y) r1" "sorted_wrt (\<lambda>x y. block_end s' x < y) l'"
      using r(3) calculation(1) be by (auto intro: sorted_wrt_mono_rel [of _ "\<lambda>x y. block_end s x < y"])
    ultimately show ?thesis using m(5,6) be by (simp add: sorted_wrt_append)
  qed
  moreover have "1 \<le> u_size s' a \<and> base + HEADER_SIZE \<le> a \<and> block_end s' a \<le> lim" if "a \<in> A \<union> set (l' @ m # r1)" for a
  proof (cases "a = m")
    case False
    then have a: "a \<in> insert base (A \<union> set l' \<union> set r1)" "a \<in> B \<union> set (l @ r)" using that A l r(1) by auto
    then have "1 \<le> u_size s a \<and> base + HEADER_SIZE \<le> a \<and> block_end s a \<le> lim" using ok unfolding heap_ok_def by blast
    then show ?thesis using be [OF a(1)] sz [OF a(1)] by simp
  qed (use m(1-3) in simp)
  moreover have "apart s' a b" if "a \<in> A" "b \<in> A \<union> set (l' @ m # r1)" "a \<noteq> b" for a b
  proof (cases "b = m")
    case True
    then show ?thesis using m(7) that be [of a] by (auto simp: apart_def)
  next
    case False
    then have "b \<in> A \<union> set l' \<union> set r1" "b \<in> B \<union> set (l @ r)" using that l r(1) A by auto
    moreover have "apart s a b" using ok that calculation(2) A unfolding heap_ok_def by blast
    ultimately show ?thesis using be [of a] be [of b] that(1) by (simp add: apart_def)
  qed
  moreover have "A \<inter> set (l' @ m # r1) = {}" "0 < base" "base + HEADER_SIZE \<le> lim" "lim < 2 ^ 32" "u_size s' base = 0" using ok A l r(1) m(4) sz [of base] by (auto simp: heap_ok_def)
  ultimately show ?thesis using fp unfolding heap_ok_def by blast
qed

definition freed :: "nat \<Rightarrow> nat \<Rightarrow> nat set \<Rightarrow> nat \<Rightarrow> nat list \<Rightarrow> uheap \<Rightarrow> uheap \<Rightarrow> bool" where
  "freed base lim A bp xs s s' \<longleftrightarrow>
     (\<exists>xs'. heap_ok base lim A xs' s' \<and> free_bytes s' xs' = free_bytes s xs \<union> {bp..<block_end s bp}) \<and> (\<forall>a \<in> A. u_size s' a = u_size s a)"

lemma sz_right: "right_done base lim A bp r s s1 r1 \<Longrightarrow> x \<noteq> bp \<Longrightarrow> u_size s1 x = u_size s x"
  unfolding right_done_def by (metis fun_upd_other)

lemma last_butlast: "last (x # l) \<in> set (x # l)" "set (butlast (x # l)) \<subseteq> set (x # l)"
  by (auto dest: in_set_butlastD)

lemma free_merge_left:
  assumes ok: "heap_ok base lim (insert bp A) (l @ r) s" "bp \<notin> A" and lr: "\<forall>x \<in> set r. bp < x" and rd: "right_done base lim A bp r s s1 r1"
    and l0: "l = l0 @ [p]" and True: "block_end s p = bp" and pbp: "p < bp"
    and s2: "s2 = s1\<lparr>u_size := (u_size s1)(p := (u_size s1 p + u_size s1 bp) mod 2 ^ 32), u_ptr := (u_ptr s1)(p := u_ptr s1 bp), u_freep := p\<rparr>"
  shows "freed base lim A bp (l @ r) s s2"
proof -
  have r1: "u_ptr s1 = (u_ptr s)(bp := hd (r1 @ [base]))" "set r1 \<subseteq> set r" "u_size s bp \<le> u_size s1 bp" "block_end s1 bp \<le> lim"
    "{bp..<block_end s1 bp} \<union> free_bytes s r1 = {bp..<block_end s bp} \<union> free_bytes s r" "\<forall>a \<in> A. block_end s a \<le> bp \<or> block_end s1 bp \<le> a"
    using rd unfolding right_done_def by blast+
  have lt: "\<forall>x \<in> set (base # l0). x < p" "\<forall>x \<in> set r. p < x" "\<forall>x \<in> set l0. block_end s x < p" using heap_sorted [OF ok(1)] ok(1) l0 by (auto simp: sorted_wrt_append heap_ok_def)
  have sum: "p + HEADER_SIZE * (u_size s p + u_size s1 bp) = block_end s1 bp" using True by (simp add: block_end_def algebra_simps)
  then have "u_size s p + u_size s1 bp < 2 ^ 32" using r1(4) ok(1) by (simp add: HEADER_SIZE_def heap_ok_def)
  then have s2': "u_size s2 = (u_size s1)(p := u_size s p + u_size s1 bp)" "u_ptr s2 = (u_ptr s1)(p := hd (r1 @ [base]))" "u_freep s2 = p"
    using s2 True r1(1) sz_right [OF rd, of p] pbp by simp_all
  have e: "block_end s2 p = block_end s1 bp" using sum s2'(1) by (simp add: block_end_def)
  have A: "p \<notin> A" "\<forall>a \<in> A. apart s a p \<and> 1 \<le> u_size s a" using ok l0 by (auto simp: heap_ok_def)
  have sz2: "u_size s2 x = u_size s x" if "x \<noteq> p" "x \<noteq> bp" for x using s2'(1) sz_right [OF rd] that by simp
  have heap: "heap_ok base lim A (l0 @ p # r1) s2"
  proof (rule heap_insert [OF ok(1) _ l0])
    show "\<forall>a \<in> A. block_end s a \<le> p \<or> block_end s2 p \<le> a"
    proof
      fix a assume "a \<in> A"
      then show "block_end s a \<le> p \<or> block_end s2 p \<le> a" using bspec [OF A(2), of a] bspec [OF r1(6), of a] True unfolding e apart_def by (simp add: block_end_def HEADER_SIZE_def) linarith
    qed
    show "u_ptr s2 (last (base # l0)) = p"
      using ok(1) chained_last [of "u_ptr s" base l0 "p # r" base] last_butlast(1) [of base l0] lt(1) pbp s2'(2) r1(1) unfolding heap_ok_def l0 by fastforce
    show "u_ptr s2 x = u_ptr s x" if "x \<in> set (butlast (base # l0)) \<union> set r1" for x
      using that last_butlast(2) [of base l0] lt(1,2) lr r1(2) pbp s2'(2) r1(1) by (metis UnE fun_upd_other less_trans nat_neq_iff subsetD)
    show "u_size s2 x = u_size s x" if "x \<in> insert base (A \<union> set l0 \<union> set r1)" for x
      using that A(1) ok(2) lt(1,2) lr pbp r1(2) by (intro sz2) auto
    show "base + HEADER_SIZE \<le> p" "1 \<le> u_size s2 p" using ok l0 s2'(1) by (auto simp: heap_ok_def)
  qed (use rd e A lt s2' in \<open>auto simp: right_done_def\<close>)
  have "free_bytes s2 l0 = free_bytes s l0" "free_bytes s2 r1 = free_bytes s r1" using lt lr r1(2) pbp by (intro free_bytes_cong ballI sz2; force)+
  then have "free_bytes s2 (l0 @ p # r1) = free_bytes s l0 \<union> {p..<block_end s1 bp} \<union> free_bytes s r1" using e by auto
  also have "{p..<block_end s1 bp} = {p..<block_end s p} \<union> {bp..<block_end s1 bp}" using True r1(3) by (auto simp: block_end_def)
  finally have "free_bytes s2 (l0 @ p # r1) = free_bytes s l \<union> {p..<block_end s p} \<union> ({bp..<block_end s1 bp} \<union> free_bytes s r1)" using l0 by auto
  also have "\<dots> = free_bytes s (l @ r) \<union> {bp..<block_end s bp}" unfolding r1(5) using l0 by auto
  finally have "free_bytes s2 (l0 @ p # r1) = free_bytes s (l @ r) \<union> {bp..<block_end s bp}" .
  moreover have "\<forall>a \<in> A. u_size s2 a = u_size s a" using A(1) ok(2) sz2 by metis
  ultimately show ?thesis unfolding freed_def using heap by blast
qed

lemma free_link_left:
  assumes ok: "heap_ok base lim (insert bp A) (l @ r) s" "bp \<notin> A" and lr: "\<forall>x \<in> set r. bp < x" and rd: "right_done base lim A bp r s s1 r1"
    and p: "p = last (base # l)" and lt: "\<forall>x \<in> set (base # l). block_end s x < bp"
    and s2: "s2 = s1\<lparr>u_ptr := (u_ptr s1)(p := bp), u_freep := p\<rparr>"
  shows "freed base lim A bp (l @ r) s s2"
proof -
  have r1: "u_ptr s1 = (u_ptr s)(bp := hd (r1 @ [base]))" "set r1 \<subseteq> set r" "u_size s bp \<le> u_size s1 bp"
    "{bp..<block_end s1 bp} \<union> free_bytes s r1 = {bp..<block_end s bp} \<union> free_bytes s r" using rd unfolding right_done_def by blast+
  have lt': "\<forall>x \<in> set (base # l). x < bp" using lt by (auto simp: block_end_def)
  have pl: "p \<in> set (base # l)" "p \<notin> set (butlast (base # l))" "p \<notin> set r"
    using heap_sorted [OF ok(1)] p last_butlast(1) [of base l] by (cases l rule: rev_cases; auto simp: sorted_wrt_append butlast_append)+
  have sz2: "u_size s2 x = u_size s x" if "x \<noteq> bp" for x using s2 sz_right [OF rd] that by simp
  have heap: "heap_ok base lim A (l @ bp # r1) s2"
  proof (rule heap_insert [OF ok(1)])
    show "u_ptr s2 x = u_ptr s x" if "x \<in> set (butlast (base # l)) \<union> set r1" for x
    proof -
      have "x \<noteq> p" "x \<noteq> bp" using that pl r1(2) lt' lr last_butlast(2) [of base l] by auto
      then show ?thesis using s2 r1(1) by simp
    qed
    show "u_size s2 x = u_size s x" if "x \<in> insert base (A \<union> set l \<union> set r1)" for x using that ok(2) lt' lr r1(2) by (intro sz2) auto
    show "u_ptr s2 bp = hd (r1 @ [base])" "u_ptr s2 (last (base # l)) = bp" using s2 r1(1) pl(1) lt' p by auto
  qed (use rd ok lt s2 pl(1) in \<open>auto simp: right_done_def heap_ok_def block_end_def\<close>)
  have "free_bytes s2 l = free_bytes s l" "free_bytes s2 r1 = free_bytes s r1" using lt' lr r1(2) by (intro free_bytes_cong ballI sz2; force)+
  then have "free_bytes s2 (l @ bp # r1) = free_bytes s l \<union> ({bp..<block_end s1 bp} \<union> free_bytes s r1)" using s2 by (auto simp: block_end_def)
  then have "free_bytes s2 (l @ bp # r1) = free_bytes s (l @ r) \<union> {bp..<block_end s bp}" unfolding r1(4) by auto
  moreover have "\<forall>a \<in> A. u_size s2 a = u_size s a" using ok(2) sz2 by metis
  ultimately show ?thesis unfolding freed_def using heap by blast
qed

lemma free_at_ok:
  assumes ok: "heap_ok base lim (insert bp A) (l @ r) s" "bp \<notin> A" and lr: "\<forall>x \<in> set l. x < bp" "\<forall>x \<in> set r. bp < x" and p: "p = last (base # l)"
  shows "freed base lim A bp (l @ r) s (free_at bp p s)"
proof -
  define nx where "nx = hd (r @ [base])"
  define s1 where "s1 = (if hplus bp (u_size s bp) = nx
                then s\<lparr>u_size := (u_size s)(bp := (u_size s bp + u_size s nx) mod 2 ^ 32), u_ptr := (u_ptr s)(bp := u_ptr s nx)\<rparr>
                else s\<lparr>u_ptr := (u_ptr s)(bp := nx)\<rparr>)"
  obtain r1 where r1: "right_done base lim A bp r s s1 r1" using free_right [OF ok lr(2) nx_def s1_def] by blast
  have nx: "u_ptr s p = nx" using ok chained_last [of "u_ptr s" base l r base] by (simp add: heap_ok_def p nx_def)
  have s2: "free_at bp p s = (if hplus p (u_size s1 p) = bp
                then s1\<lparr>u_size := (u_size s1)(p := (u_size s1 p + u_size s1 bp) mod 2 ^ 32), u_ptr := (u_ptr s1)(p := u_ptr s1 bp)\<rparr>
                else s1\<lparr>u_ptr := (u_ptr s1)(p := bp)\<rparr>)\<lparr>u_freep := p\<rparr>"
    unfolding free_at_def Let_def nx s1_def by (rule refl)
  have bp: "base < bp" "lim < 2 ^ 32" "block_end s base = base" "bp \<le> lim" using ok by (auto simp: heap_ok_def block_end_def HEADER_SIZE_def)
  have lbp: "block_end s x \<le> bp" if "x \<in> set l" for x
  proof -
    have "apart s bp x" "x < bp" using ok that lr(1) unfolding heap_ok_def by auto
    then show ?thesis by (auto simp: apart_def block_end_def)
  qed
  have pl: "p \<in> set (base # l)" using p last_butlast(1) by simp
  then have pbp: "p < bp" "block_end s p \<le> bp" using lr(1) bp lbp by auto
  then have hp: "hplus p (u_size s1 p) = block_end s p" using sz_right [OF r1, of p] bp hplus_end [of s p] by simp
  show ?thesis
  proof (cases "block_end s p = bp")
    case True
    then obtain l0 where "l = l0 @ [p]" using p bp by (cases l rule: rev_cases) auto
    then show ?thesis using free_merge_left [OF ok lr(2) r1 _ True pbp(1)] s2 hp True by simp
  next
    case False
    have "block_end s x < bp" if "x \<in> set (base # l)" for x
    proof (cases "x = p")
      case False
      then have "x < bp \<and> (x = base \<or> block_end s x < p)" using ok(1) p that lr(1) bp(1)
        by (cases l rule: rev_cases) (auto simp: heap_ok_def sorted_wrt_append)
      then show ?thesis using bp(1,3) pbp(1) by auto
    qed (use False pbp(2) in simp)
    then show ?thesis using free_link_left [OF ok lr(2) r1 p] s2 hp False by simp
  qed
qed

lemma free_ok:
  assumes ok: "heap_ok base lim A xs s" and bp: "bp \<in> A"
  shows "\<exists>s'. free (bp + HEADER_SIZE) s = Ok s' \<and> freed base lim (A - {bp}) bp xs s s'"
proof -
  define l r where "l = takeWhile (\<lambda>x. x < bp) xs" and "r = dropWhile (\<lambda>x. x < bp) xs"
  have xs: "xs = l @ r" by (simp add: l_def r_def)
  have srt: "sorted_wrt (<) (base # l @ r)" using heap_sorted [OF ok] xs by simp
  have l: "\<forall>x \<in> set l. x < bp" using set_takeWhileD by (fastforce simp: l_def)
  have b: "bp \<notin> set xs" "base + HEADER_SIZE \<le> bp" "block_end s bp \<le> lim" "lim < 2 ^ 32" using ok bp by (auto simp: heap_ok_def)
  have r: "bp < x" if x: "x \<in> set r" for x
  proof -
    have "r \<noteq> []" using x by auto
    then have "bp < hd r" using hd_dropWhile [of "\<lambda>x. x < bp" xs] b(1) xs unfolding r_def [symmetric] by (metis hd_in_set linorder_neqE_nat Un_iff set_append)
    moreover have "hd r \<le> x" using srt x by (cases r) (auto simp: sorted_wrt_append)
    ultimately show ?thesis by simp
  qed
  have "0 + length xs \<le> max 0 lim" by (rule heap_length) (use ok in \<open>auto simp: heap_ok_def\<close>)
  then have len: "length (l @ r) < 2 ^ 32" using b(4) xs by simp
  have "free_loop (2 ^ 32) bp (u_freep s) s = Ok (last (base # l))"
    by (rule free_loop_ok [OF _ srt _ l]) (use ok b len r xs in \<open>auto simp: heap_ok_def HEADER_SIZE_def\<close>)
  moreover have "(bp + HEADER_SIZE + (2 ^ 32 - HEADER_SIZE)) mod 2 ^ 32 = bp" using b by (simp add: HEADER_SIZE_def block_end_def)
  ultimately have "free (bp + HEADER_SIZE) s = Ok (free_at bp (last (base # l)) s)" by (simp add: free_def del: last.simps)
  moreover have "freed base lim (A - {bp}) bp (l @ r) s (free_at bp (last (base # l)) s)"
    by (rule free_at_ok) (use ok bp xs l r in \<open>auto simp: insert_absorb\<close>)
  ultimately show ?thesis using xs by simp
qed

subsection \<open>Allocating a block\<close>

lemma heap_gap:
  assumes ok: "heap_ok base lim A xs s" and ab: "a \<in> set xs" "b \<in> set xs" "a \<noteq> b"
  shows "block_end s a < b \<or> block_end s b < a"
proof -
  obtain i j where ij: "i < length xs" "j < length xs" "xs ! i = a" "xs ! j = b" using ab by (auto simp: in_set_conv_nth)
  have "sorted_wrt (\<lambda>x y. block_end s x < y) xs" using ok by (simp add: heap_ok_def)
  then show ?thesis using ij ab(3) sorted_wrt_nth_less [of _ xs i j] sorted_wrt_nth_less [of _ xs j i] by (metis linorder_neqE_nat)
qed

lemma heap_apart:
  assumes ok: "heap_ok base lim A xs s" and ab: "a \<in> A \<union> set xs" "b \<in> A \<union> set xs" "a \<noteq> b"
  shows "apart s a b"
proof (cases "a \<in> A \<or> b \<in> A")
  case True
  then show ?thesis using ok ab unfolding heap_ok_def apart_def by metis
next
  case False
  then show ?thesis using heap_gap [OF ok, of a b] ab by (auto simp: apart_def)
qed

text \<open>Because free blocks do not touch, consecutive free bytes are in one block.\<close>

lemma one_block:
  assumes ok: "heap_ok base lim A xs s" and ab: "a < b" "{a..<b} \<subseteq> free_bytes s xs"
  shows "\<exists>x \<in> set xs. x \<le> a \<and> b \<le> block_end s x"
proof -
  have "a \<in> free_bytes s xs" using ab by auto
  then obtain x where x: "x \<in> set xs" "x \<le> a" "a < block_end s x" by (auto simp: free_bytes_def)
  have "b \<le> block_end s x"
  proof (rule ccontr)
    assume "\<not> b \<le> block_end s x"
    then have "block_end s x \<in> free_bytes s xs" using ab x by auto
    then obtain y where y: "y \<in> set xs" "y \<le> block_end s x" "block_end s x < block_end s y" by (auto simp: free_bytes_def)
    then show False using heap_gap [OF ok x(1) y(1)] x by (cases "x = y") auto
  qed
  then show ?thesis using x by blast
qed

lemma pred_split:
  assumes "chained h (base # xs) base" "prevp \<in> set (base # xs)" "h prevp \<noteq> base"
  shows "\<exists>l r. xs = l @ h prevp # r \<and> prevp = last (base # l)"
proof -
  obtain k r where kr: "base # xs = k @ prevp # r" using assms(2) by (meson split_list)
  then have "h prevp = hd (r @ [base])" using assms(1) chained_next [of h k prevp r base] by simp
  then obtain r' where r: "r = h prevp # r'" using assms(3) by (cases r) auto
  show ?thesis
  proof (cases k)
    case Nil
    then show ?thesis using kr r by (intro exI [of _ "[]"] exI [of _ r']) auto
  next
    case (Cons y k')
    then show ?thesis using kr r by (intro exI [of _ "k' @ [prevp]"] exI [of _ r']) auto
  qed
qed

text \<open>\<open>q\<close> is now an allocated block of \<open>n\<close> units, cut out of the free bytes; the other allocated blocks are as they were.\<close>

definition allocated :: "nat \<Rightarrow> nat \<Rightarrow> nat set \<Rightarrow> nat \<Rightarrow> nat \<Rightarrow> nat set \<Rightarrow> uheap \<Rightarrow> uheap \<Rightarrow> bool" where
  "allocated base lim A n q F s s' \<longleftrightarrow>
     q \<notin> A \<and> u_size s' q = n \<and> (\<forall>a \<in> A. u_size s' a = u_size s a) \<and>
     (\<exists>xs'. heap_ok base lim (insert q A) xs' s' \<and> free_bytes s' xs' \<union> {q..<block_end s' q} = F)"

lemma take_whole:
  assumes ok: "heap_ok base lim A (l @ z # r) s" and p: "prevp = last (base # l)" and s': "s' = s\<lparr>u_ptr := (u_ptr s)(prevp := u_ptr s z), u_freep := prevp\<rparr>"
  shows "allocated base lim A (u_size s z) z (free_bytes s (l @ z # r)) s s'"
proof -
  obtain k where k: "base # l = k @ [prevp]" using p by (metis append_butlast_last_id list.distinct(1))
  have lk: "chained (u_ptr s) (base # l) z" "chained (u_ptr s) (z # r) base" using ok chained_append [of "u_ptr s" "base # l" "z # r" base] by (auto simp: heap_ok_def)
  have srt: "sorted_wrt (<) (base # l @ z # r)" by (rule heap_sorted [OF ok])
  have pd: "prevp \<notin> set k" "prevp \<notin> set r" "prevp \<in> set (base # l)"
  proof -
    have "sorted_wrt (<) ((k @ [prevp]) @ z # r)" using srt unfolding k [symmetric] by simp
    then show "prevp \<notin> set k" "prevp \<notin> set r" by (auto simp: sorted_wrt_append)
    show "prevp \<in> set (base # l)" unfolding k by simp
  qed
  have "chained (u_ptr s') (base # l) (hd (r @ [base]))"
    using lk chained_retarget [of "u_ptr s" k prevp z "u_ptr s'" "hd (r @ [base])"] pd(1) s' unfolding k by simp
  moreover have "chained (u_ptr s') r base" using lk(2) pd(2) s' by simp
  ultimately have "chained (u_ptr s') (base # l @ r) base" using chained_append [of "u_ptr s'" "base # l" r base] by simp
  moreover have "apart s a b" if "a \<in> insert z A" "b \<in> insert z A \<union> set (l @ r)" "a \<noteq> b" for a b
    by (rule heap_apart [OF ok]) (use that in auto)
  moreover have "sorted_wrt (\<lambda>x y. block_end s x < y) (l @ r)" "z \<notin> A" "z \<notin> set (l @ r)" using ok srt by (auto simp: heap_ok_def sorted_wrt_append)
  moreover have "block_end s' x = block_end s x" for x using s' by (simp add: block_end_def)
  ultimately have "heap_ok base lim (insert z A) (l @ r) s'" using ok pd(3) s' by (auto simp: heap_ok_def apart_def)
  moreover have "free_bytes s' (l @ r) = free_bytes s (l @ r)" by (rule free_bytes_cong) (simp add: s')
  then have "free_bytes s' (l @ r) \<union> {z..<block_end s' z} = free_bytes s (l @ z # r)" using s' by (auto simp: block_end_def)
  moreover have sz: "u_size s' = u_size s" by (simp add: s')
  ultimately show ?thesis unfolding allocated_def sz using \<open>z \<notin> A\<close> by blast
qed

lemma take_end:
  assumes ok: "heap_ok base lim A xs s" and z: "z \<in> set xs" "1 \<le> n" "n < u_size s z" and p: "prevp \<in> set (base # xs)"
    and q: "q = z + HEADER_SIZE * (u_size s z - n)" and s': "s' = s\<lparr>u_size := (u_size s)(z := u_size s z - n, q := n), u_freep := prevp\<rparr>"
  shows "allocated base lim A n q (free_bytes s xs) s s'"
proof -
  have qz: "z < q" "q < block_end s z" "block_end s' q = block_end s z" "block_end s' z = q" using z(2,3) q s' by (auto simp: block_end_def HEADER_SIZE_def algebra_simps)
  have zA: "z \<notin> A" "z \<noteq> base" "base + HEADER_SIZE \<le> z" "block_end s z \<le> lim" using ok z by (auto simp: heap_ok_def HEADER_SIZE_def)
  have out: "x \<noteq> q" if "x \<in> insert base (A \<union> set xs)" "x \<noteq> z" for x
  proof (cases "x = base")
    case True
    then show ?thesis using zA(3) qz(1) by auto
  next
    case False
    then show ?thesis using heap_apart [OF ok, of x z] that z qz by (auto simp: apart_def block_end_def)
  qed
  have qA: "q \<notin> A \<union> set xs" using out [of q] qz by auto
  have be: "block_end s' x = block_end s x" if "x \<in> insert base (A \<union> set xs)" "x \<noteq> z" for x using out [OF that] s' that(2) by (simp add: block_end_def)
  have le: "block_end s' x \<le> block_end s x" if "x \<in> A \<union> set xs" for x using be [of x] that qz by (cases "x = z") auto
  have "sorted_wrt (\<lambda>x y. block_end s' x < y) xs"
    by (rule sorted_wrt_mono_rel [of _ "\<lambda>x y. block_end s x < y"]) (use ok le in \<open>auto simp: heap_ok_def intro: le_less_trans\<close>)
  moreover have "apart s' a b" if "a \<in> insert q A" "b \<in> insert q A \<union> set xs" "a \<noteq> b" for a b
  proof -
    have old: "apart s' c d" if "c \<in> A \<union> set xs" "d \<in> A \<union> set xs" "c \<noteq> d" for c d
      using heap_apart [OF ok that] le [OF that(1)] le [OF that(2)] by (auto simp: apart_def)
    have new: "apart s' q d \<and> apart s' d q" if "d \<in> A \<union> set xs" for d
    proof (cases "d = z")
      case False
      then show ?thesis using heap_apart [OF ok, of d z] that z(1) be [of d] qz by (auto simp: apart_def)
    qed (use qz in \<open>auto simp: apart_def\<close>)
    show ?thesis using that old new by blast
  qed
  moreover have "1 \<le> u_size s' a \<and> base + HEADER_SIZE \<le> a \<and> block_end s' a \<le> lim" if "a \<in> insert q A \<union> set xs" for a
  proof (cases "a = q")
    case True
    moreover have "u_size s' q = n" by (simp add: s')
    ultimately show ?thesis using z(2) qz zA(3,4) by simp
  next
    case False
    then have a: "a \<in> A \<union> set xs" using that by auto
    then have "1 \<le> u_size s a" "base + HEADER_SIZE \<le> a" "block_end s a \<le> lim" using ok by (auto simp: heap_ok_def)
    then show ?thesis using le [OF a] False z(3) s' by auto
  qed
  moreover have "u_size s' base = 0" using ok out [of base] zA(2) s' by (simp add: heap_ok_def)
  ultimately have "heap_ok base lim (insert q A) xs s'" using ok p qA s' by (auto simp: heap_ok_def)
  moreover have "free_bytes s' xs \<union> {q..<block_end s' q} = free_bytes s xs"
  proof -
    have "{x..<block_end s' x} = {x..<block_end s x}" if "x \<in> set xs - {z}" for x using be [of x] that by simp
    then have "(\<Union>x \<in> set xs - {z}. {x..<block_end s' x}) = (\<Union>x \<in> set xs - {z}. {x..<block_end s x})" by (rule SUP_cong [OF refl])
    moreover have "set xs = insert z (set xs - {z})" using z(1) by auto
    moreover have "{z..<block_end s z} = {z..<block_end s' z} \<union> {q..<block_end s' q}" using qz by auto
    ultimately show ?thesis unfolding free_bytes_def by (metis (no_types, lifting) UN_insert Un_assoc Un_commute)
  qed
  moreover have "\<forall>a \<in> A. u_size s' a = u_size s a" using out zA(1) s' by auto
  ultimately show ?thesis unfolding allocated_def using qA s' qz by auto
qed

lemma malloc_take_ok:
  assumes ok: "heap_ok base lim A xs s" and n: "1 \<le> n" "n \<le> u_size s (u_ptr s prevp)" and p: "prevp \<in> set (base # xs)"
  shows "\<exists>q s'. malloc_take n prevp (u_ptr s prevp) s = (q + HEADER_SIZE, s') \<and> allocated base lim A n q (free_bytes s xs) s s'"
proof -
  define z where "z = u_ptr s prevp"
  have "z \<noteq> base" using ok n by (auto simp: heap_ok_def z_def)
  then obtain l r where lr: "xs = l @ z # r" "prevp = last (base # l)" using pred_split [of "u_ptr s" base xs prevp] ok p by (auto simp: heap_ok_def z_def)
  have b: "block_end s z \<le> lim" "lim < 2 ^ 32" "1 \<le> u_size s z" using ok lr by (auto simp: heap_ok_def)
  have h1: "hplus a 1 = a + HEADER_SIZE" if "a + HEADER_SIZE \<le> lim" for a using that b(2) by (simp add: hplus_def)
  show ?thesis
  proof (cases "u_size s z = n")
    case True
    then have "malloc_take n prevp z s = (z + HEADER_SIZE, s\<lparr>u_ptr := (u_ptr s)(prevp := u_ptr s z), u_freep := prevp\<rparr>)"
      using b h1 [of z] by (simp add: malloc_take_def block_end_def HEADER_SIZE_def)
    then show ?thesis using take_whole [OF ok [unfolded lr(1)] lr(2) refl] True lr(1) unfolding z_def by blast
  next
    case False
    define q where "q = z + HEADER_SIZE * (u_size s z - n)"
    have lt: "n < u_size s z" using False n(2) by (simp add: z_def)
    have qe: "q + HEADER_SIZE \<le> lim" using b n(1) lt by (simp add: q_def block_end_def HEADER_SIZE_def)
    then have "hplus z (u_size s z - n) = q" using b(2) by (simp add: hplus_def q_def)
    then have "malloc_take n prevp z s = (q + HEADER_SIZE, s\<lparr>u_size := (u_size s)(z := u_size s z - n, q := n), u_freep := prevp\<rparr>)"
      using False h1 [OF qe] by (simp add: malloc_take_def Let_def)
    moreover have "allocated base lim A n q (free_bytes s xs) s (s\<lparr>u_size := (u_size s)(z := u_size s z - n, q := n), u_freep := prevp\<rparr>)"
      by (rule take_end [OF ok _ n(1) lt p q_def refl]) (simp add: lr)
    ultimately show ?thesis unfolding z_def by blast
  qed
qed

subsection \<open>The search for a free block\<close>

lemma search_small:
  "chained (u_ptr s) (q # zs) y \<Longrightarrow> \<forall>x \<in> set zs. u_size s x < n \<and> x \<noteq> u_freep s \<Longrightarrow>
    malloc_loop (length zs + f) sbrk n q (u_ptr s q) s e = malloc_loop f sbrk n (last (q # zs)) (u_ptr s (last (q # zs))) s e"
proof (induction zs arbitrary: q)
  case (Cons z zs)
  have "malloc_loop (Suc (length zs + f)) sbrk n q z s e = malloc_loop (length zs + f) sbrk n z (u_ptr s z) s e"
    using Cons.prems(2) by (simp add: malloc_loop.simps [of "Suc (length zs + f)"])
  then show ?case using Cons by simp
qed simp

text \<open>The list seen from \<^verbatim>\<open>freep\<close>.\<close>

lemma from_freep:
  assumes ok: "heap_ok base lim A xs s"
  shows "\<exists>ws. chained (u_ptr s) (u_freep s # ws) (u_freep s) \<and> u_freep s \<notin> set ws \<and> set (u_freep s # ws) = set (base # xs) \<and> length ws = length xs"
proof -
  let ?f = "u_freep s"
  obtain u v where uv: "base # xs = u @ ?f # v" using ok by (meson heap_ok_def split_list)
  have "chained (u_ptr s) (u @ ?f # v) base" using ok uv by (simp add: heap_ok_def)
  moreover have "base = hd (u @ [?f])" using uv by (cases u) auto
  ultimately have "chained (u_ptr s) ((?f # v) @ u) ?f" by (simp only: chained_append) auto
  moreover have "distinct (base # xs)" using heap_sorted [OF ok] strict_sorted_iff by blast
  then have "?f \<notin> set (v @ u)" unfolding uv by auto
  moreover have "length (base # xs) = Suc (length (v @ u))" unfolding uv by simp
  moreover have "set (?f # v @ u) = set (base # xs)" unfolding uv by auto
  ultimately show ?thesis by (intro exI [of _ "v @ u"]) simp
qed

lemma search_ok:
  assumes ok: "heap_ok base lim A xs s" and fuel: "length xs \<le> fuel"
  shows "\<exists>q k. q \<in> set (base # xs) \<and> k \<le> length xs \<and>
    malloc_loop fuel sbrk n (u_freep s) (u_ptr s (u_freep s)) s e = malloc_loop (fuel - k) sbrk n q (u_ptr s q) s e \<and>
    (n \<le> u_size s (u_ptr s q) \<or> u_ptr s q = u_freep s \<and> (\<forall>x \<in> set (base # xs). u_size s x < n))"
proof -
  obtain ws where ws: "chained (u_ptr s) (u_freep s # ws) (u_freep s)" "u_freep s \<notin> set ws" "set (u_freep s # ws) = set (base # xs)" "length ws = length xs"
    using from_freep [OF ok] by blast
  define zs vs where "zs = takeWhile (\<lambda>x. u_size s x < n) ws" and "vs = dropWhile (\<lambda>x. u_size s x < n) ws"
  let ?q = "last (u_freep s # zs)"
  have zv: "ws = zs @ vs" by (simp add: zs_def vs_def)
  have "\<forall>x \<in> set zs. u_size s x < n" unfolding zs_def by (auto dest: set_takeWhileD)
  moreover have "set zs \<subseteq> set ws" unfolding zv by simp
  ultimately have small: "\<forall>x \<in> set zs. u_size s x < n \<and> x \<noteq> u_freep s" using ws(2) by auto
  have len: "length zs \<le> length xs" using ws(4) zv by simp
  have lk: "chained (u_ptr s) (u_freep s # zs) (hd (vs @ [u_freep s]))" using ws(1) zv chained_append [of "u_ptr s" "u_freep s # zs" vs "u_freep s"] by simp
  have nxt: "u_ptr s ?q = hd (vs @ [u_freep s])" using chained_last [of "u_ptr s" "u_freep s" zs vs "u_freep s"] ws(1) zv by simp
  have "malloc_loop fuel sbrk n (u_freep s) (u_ptr s (u_freep s)) s e = malloc_loop (fuel - length zs) sbrk n ?q (u_ptr s ?q) s e"
    using search_small [OF lk small, of "fuel - length zs" sbrk e] len fuel by simp
  moreover have "?q \<in> set (base # xs)" using last_butlast(1) [of "u_freep s" zs] ws(3) zv by (metis Un_iff set_append set_ConsD list.set_intros)
  moreover have "n \<le> u_size s (u_ptr s ?q) \<or> u_ptr s ?q = u_freep s \<and> (\<forall>x \<in> set (base # xs). u_size s x < n)"
  proof (cases vs)
    case Nil
    then have "set (base # xs) = insert (u_freep s) (set zs)" using ws(3) zv by simp
    then show ?thesis using nxt Nil small by (cases "n \<le> u_size s (u_freep s)") auto
  next
    case (Cons v vs')
    then show ?thesis using nxt hd_dropWhile [of "\<lambda>x. u_size s x < n" ws] by (simp add: vs_def)
  qed
  ultimately show ?thesis using len by blast
qed

lemma morecore_ok:
  assumes ok: "heap_ok base lim A xs s" and nu: "nu = max 4096 n" and sb: "sbrk (HEADER_SIZE * nu) e = (a, e')" "a \<noteq> 2 ^ 32 - 1" "lim \<le> a" "a + HEADER_SIZE * nu < 2 ^ 32"
  shows "\<exists>s'. morecore sbrk n s e = Ok (u_freep s', s', e') \<and> freed base (a + HEADER_SIZE * nu) A a xs (s\<lparr>u_size := (u_size s)(a := nu)\<rparr>) s'"
proof -
  define s0 where "s0 = s\<lparr>u_size := (u_size s)(a := nu)\<rparr>"
  have old: "x < a" "block_end s x \<le> a" if "x \<in> A \<union> set xs" for x
  proof -
    have "1 \<le> u_size s x" "block_end s x \<le> lim" using ok that by (auto simp: heap_ok_def)
    then show "x < a" "block_end s x \<le> a" using sb(3) by (auto simp: block_end_def HEADER_SIZE_def)
  qed
  have base: "base < a" using ok sb(3) by (simp add: heap_ok_def HEADER_SIZE_def)
  have be: "block_end s0 x = (if x = a then a + HEADER_SIZE * nu else block_end s x)" for x by (simp add: s0_def block_end_def)
  have "sorted_wrt (\<lambda>x y. block_end s0 x < y) xs"
    by (rule sorted_wrt_mono_rel [of _ "\<lambda>x y. block_end s x < y"]) (use ok be old(1) in \<open>auto simp: heap_ok_def\<close>)
  moreover have "apart s0 x y" if "x \<in> insert a A" "y \<in> insert a A \<union> set xs" "x \<noteq> y" for x y
    using that heap_apart [OF ok, of x y] old(2) be by (auto simp: apart_def)
  moreover have "1 \<le> u_size s0 x \<and> base + HEADER_SIZE \<le> x \<and> block_end s0 x \<le> a + HEADER_SIZE * nu" if "x \<in> insert a A \<union> set xs" for x
  proof (cases "x = a")
    case True
    then show ?thesis using ok sb(3) nu be by (simp add: s0_def heap_ok_def)
  next
    case False
    then have x: "x \<in> A \<union> set xs" using that by auto
    then have "1 \<le> u_size s x" "base + HEADER_SIZE \<le> x" using ok by (auto simp: heap_ok_def)
    then show ?thesis using old(2) [OF x] False be by (simp add: s0_def)
  qed
  moreover have "a \<notin> A \<union> set xs" using old(1) by blast
  moreover have "base + HEADER_SIZE \<le> a + HEADER_SIZE * nu" using ok sb(3) by (simp add: heap_ok_def)
  ultimately have "heap_ok base (a + HEADER_SIZE * nu) (insert a A) xs s0" using ok sb(4) base unfolding heap_ok_def by (simp add: s0_def)
  then obtain s' where s': "free (a + HEADER_SIZE) s0 = Ok s'" "freed base (a + HEADER_SIZE * nu) (insert a A - {a}) a xs s0 s'" using free_ok by blast
  have "nu * HEADER_SIZE mod 2 ^ 32 = HEADER_SIZE * nu" "hplus a 1 = a + HEADER_SIZE" "(if n < 4096 then 4096 else n) = nu"
    using sb(4) nu by (auto simp: hplus_def HEADER_SIZE_def)
  then have "morecore sbrk n s e = Ok (u_freep s', s', e')" using sb(1,2) s'(1) unfolding morecore_def Let_def s0_def by simp
  then show ?thesis using s'(2) \<open>a \<notin> A \<union> set xs\<close> unfolding s0_def by (intro exI [of _ s']) simp
qed

lemma malloc_loop_grow:
  assumes ok: "heap_ok base lim A xs s" and small: "\<forall>x \<in> set (base # xs). u_size s x < n" and n: "1 \<le> n" and nu: "nu = max 4096 n"
    and sb: "sbrk (HEADER_SIZE * nu) e = (a, e')" "a \<noteq> 2 ^ 32 - 1" "lim \<le> a" "a + HEADER_SIZE * nu < 2 ^ 32" and fuel: "2 ^ 32 < fuel" and p: "p = u_freep s"
  shows "\<exists>q s'. malloc_loop fuel sbrk n prevp p s e = Ok (q + HEADER_SIZE, s', e') \<and>
    allocated base (a + HEADER_SIZE * nu) A n q (free_bytes s xs \<union> {a..<a + HEADER_SIZE * nu}) s s'"
proof -
  let ?lim = "a + HEADER_SIZE * nu" and ?s = "s\<lparr>u_size := (u_size s)(a := nu)\<rparr>"
  obtain s1 where s1: "morecore sbrk n s e = Ok (u_freep s1, s1, e')" "freed base ?lim A a xs ?s s1" using morecore_ok [where sbrk = sbrk and e = e, OF ok nu sb] by blast
  have out: "a \<notin> A \<union> set xs"
  proof
    assume "a \<in> A \<union> set xs"
    then have "1 \<le> u_size s a" "block_end s a \<le> lim" using ok by (auto simp: heap_ok_def)
    then show False using sb(3) by (simp add: block_end_def HEADER_SIZE_def)
  qed
  have "free_bytes ?s xs = free_bytes s xs" using out by (intro free_bytes_cong) auto
  then obtain ys where ys: "heap_ok base ?lim A ys s1" "free_bytes s1 ys = free_bytes s xs \<union> {a..<?lim}" "\<forall>b \<in> A. u_size s1 b = u_size s b"
    using s1(2) out by (auto simp: freed_def block_end_def)
  have "a < ?lim" using nu by (simp add: HEADER_SIZE_def)
  then obtain x where x: "x \<in> set ys" "x \<le> a" "?lim \<le> block_end s1 x" using one_block [OF ys(1), of a ?lim] ys(2) by blast
  then have big: "n \<le> u_size s1 x" using nu by (simp add: block_end_def HEADER_SIZE_def)
  have "0 + length ys \<le> max 0 ?lim" by (rule heap_length) (use ys(1) in \<open>auto simp: heap_ok_def\<close>)
  then have len: "length ys \<le> fuel - 1" using sb(4) fuel by simp
  obtain q k where q: "q \<in> set (base # ys)"
      "malloc_loop (fuel - 1) sbrk n (u_freep s1) (u_ptr s1 (u_freep s1)) s1 e' = malloc_loop (fuel - 1 - k) sbrk n q (u_ptr s1 q) s1 e'"
      "n \<le> u_size s1 (u_ptr s1 q) \<or> (\<forall>x \<in> set (base # ys). u_size s1 x < n)" using search_ok [OF ys(1) len, of sbrk n e'] by blast
  have qn: "n \<le> u_size s1 (u_ptr s1 q)" using q(3) x(1) big by (meson list.set_intros(2) not_le)
  obtain b s' where b: "malloc_take n q (u_ptr s1 q) s1 = (b + HEADER_SIZE, s')" "allocated base ?lim A n b (free_bytes s1 ys) s1 s'"
    using malloc_take_ok [OF ys(1) n qn q(1)] by blast
  have "u_freep s1 \<noteq> 0" using ys(1) by (auto simp: heap_ok_def)
  moreover have "\<not> n \<le> u_size s p" using small ok p by (metis heap_ok_def not_le)
  moreover obtain g where "fuel = Suc g" using fuel by (cases fuel) auto
  ultimately have "malloc_loop fuel sbrk n prevp p s e = malloc_loop (fuel - 1) sbrk n (u_freep s1) (u_ptr s1 (u_freep s1)) s1 e'"
    using s1(1) p by (simp add: malloc_loop.simps [of "Suc g"])
  also have "\<dots> = Ok (b + HEADER_SIZE, s', e')" unfolding q(2) using qn b(1) by (subst malloc_loop.simps) simp
  finally show ?thesis using b(2) ys(2,3) unfolding allocated_def by auto
qed

subsection \<open>Correctness\<close>

text \<open>Before the first call there is no list yet.\<close>

definition heap_state :: "nat \<Rightarrow> nat \<Rightarrow> nat set \<Rightarrow> nat list \<Rightarrow> uheap \<Rightarrow> bool" where
  "heap_state base lim A xs s \<longleftrightarrow>
     heap_ok base lim A xs s \<or> u_freep s = 0 \<and> A = {} \<and> xs = [] \<and> 0 < base \<and> base + HEADER_SIZE \<le> lim \<and> lim < 2 ^ 32"

lemma malloc_init_ok:
  assumes "heap_state base lim A xs s"
  shows "heap_ok base lim A xs (malloc_init base s)" "free_bytes (malloc_init base s) xs = free_bytes s xs" "\<forall>x \<in> A \<union> set xs. u_size (malloc_init base s) x = u_size s x"
  using assms by (auto simp: heap_state_def heap_ok_def malloc_init_def)

lemma nunits_bounds: "nbytes \<le> 2 ^ 31 - 16 \<Longrightarrow> 1 \<le> nunits nbytes \<and> nbytes \<le> HEADER_SIZE * (nunits nbytes - 1)"
  by (simp add: nunits_def HEADER_SIZE_def)

text \<open>A size close to the largest number wraps around: the block has no room but for its header.\<close>

lemma nunits_wraps: "2 ^ 32 - HEADER_SIZE < nbytes \<Longrightarrow> nbytes < 2 ^ 32 \<Longrightarrow> nunits nbytes = 1"
proof -
  assume "2 ^ 32 - HEADER_SIZE < nbytes" "nbytes < 2 ^ 32"
  then have "2 ^ 32 \<le> nbytes + HEADER_SIZE - 1" "nbytes + HEADER_SIZE - 1 - 2 ^ 32 < HEADER_SIZE" by (auto simp: HEADER_SIZE_def)
  then show ?thesis using le_mod_geq [of "2 ^ 32" "nbytes + HEADER_SIZE - 1"] by (simp add: nunits_def HEADER_SIZE_def)
qed

lemma malloc_ok:
  assumes heap: "heap_state base lim A xs s" and nb: "nbytes \<le> 2 ^ 31 - 16" and nu: "nu = max 4096 (nunits nbytes)"
    and sb: "sbrk (HEADER_SIZE * nu) e = (a, e')" "a \<noteq> 2 ^ 32 - 1 \<longrightarrow> lim \<le> a \<and> a + HEADER_SIZE * nu < 2 ^ 32"
  shows "\<exists>r s' e1. malloc base sbrk nbytes s e = Ok (r, s', e1) \<and>
      (if r = 0 then a = 2 ^ 32 - 1 \<and> (\<forall>x \<in> set xs. u_size s x < nunits nbytes) \<and> s' = malloc_init base s \<and> heap_state base lim A xs s'
       else \<exists>q. r = q + HEADER_SIZE \<and> nbytes \<le> HEADER_SIZE * (u_size s' q - 1) \<and>
         (e1 = e \<and> allocated base lim A (nunits nbytes) q (free_bytes s xs) s s' \<or>
          e1 = e' \<and> allocated base (a + HEADER_SIZE * nu) A (nunits nbytes) q (free_bytes s xs \<union> {a..<a + HEADER_SIZE * nu}) s s'))"
proof -
  define s1 n where "s1 = malloc_init base s" and "n = nunits nbytes"
  have ok: "heap_ok base lim A xs s1" and fb: "free_bytes s1 xs = free_bytes s xs" and sz: "\<forall>x \<in> A \<union> set xs. u_size s1 x = u_size s x"
    using malloc_init_ok [OF heap] by (simp_all add: s1_def)
  have n: "1 \<le> n" "nbytes \<le> HEADER_SIZE * (n - 1)" using nunits_bounds [OF nb] by (simp_all add: n_def)
  have al: "allocated base l A n q F s s'" "u_size s' q = n" if "allocated base l A n q F s1 s'" for l q F s' using that sz by (simp_all add: allocated_def)
  have "0 + length xs \<le> max 0 lim" by (rule heap_length) (use ok in \<open>auto simp: heap_ok_def\<close>)
  then have len: "length xs < 2 ^ 32" using ok by (simp add: heap_ok_def)
  then have le: "length xs \<le> 2 ^ 33" by simp
  obtain q k where q: "q \<in> set (base # xs)" "k \<le> length xs"
      "malloc_loop (2 ^ 33) sbrk n (u_freep s1) (u_ptr s1 (u_freep s1)) s1 e = malloc_loop (2 ^ 33 - k) sbrk n q (u_ptr s1 q) s1 e"
      "n \<le> u_size s1 (u_ptr s1 q) \<or> u_ptr s1 q = u_freep s1 \<and> (\<forall>x \<in> set (base # xs). u_size s1 x < n)" using search_ok [OF ok le, of sbrk n e] by blast
  have m: "malloc base sbrk nbytes s e = malloc_loop (2 ^ 33 - k) sbrk n q (u_ptr s1 q) s1 e" using q(3) by (simp only: malloc_def Let_def s1_def n_def)
  show ?thesis
  proof (cases "n \<le> u_size s1 (u_ptr s1 q)")
    case True
    obtain b s' where b: "malloc_take n q (u_ptr s1 q) s1 = (b + HEADER_SIZE, s')" "allocated base lim A n b (free_bytes s1 xs) s1 s'"
      using malloc_take_ok [OF ok n(1) True q(1)] by blast
    have "malloc base sbrk nbytes s e = Ok (b + HEADER_SIZE, s', e)" unfolding m using True b(1) by (subst malloc_loop.simps) simp
    then show ?thesis using al [OF b(2)] n(2) fb by (auto simp: n_def HEADER_SIZE_def)
  next
    case False
    then have f: "u_ptr s1 q = u_freep s1" "\<forall>x \<in> set (base # xs). u_size s1 x < n" using q(4) by auto
    show ?thesis
    proof (cases "a = 2 ^ 32 - 1")
      case True
      have "n * HEADER_SIZE < 2 ^ 32" using nb by (simp add: n_def nunits_def HEADER_SIZE_def)
      then have "sbrk ((if n < 4096 then 4096 else n) * HEADER_SIZE mod 2 ^ 32) e = (a, e')" using sb(1) nu by (auto simp: n_def HEADER_SIZE_def max_def mult.commute split: if_splits)
      then have "morecore sbrk n s1 e = Ok (0, s1, e')" using True by (simp add: morecore_def)
      then have "malloc base sbrk nbytes s e = Ok (0, s1, e')" unfolding m f(1) using False f by (subst malloc_loop.simps) simp
      moreover have "\<forall>x \<in> set xs. u_size s x < n" using f(2) sz by simp
      ultimately show ?thesis using True ok by (auto simp: s1_def n_def heap_state_def)
    next
      case False
      have fuel: "(2::nat) ^ 32 < 2 ^ 33 - k" using q(2) len by simp
      obtain b s' where "malloc base sbrk nbytes s e = Ok (b + HEADER_SIZE, s', e')"
          "allocated base (a + HEADER_SIZE * nu) A n b (free_bytes s1 xs \<union> {a..<a + HEADER_SIZE * nu}) s1 s'"
        using malloc_loop_grow [where sbrk = sbrk and e = e, OF ok f(2) n(1) nu [folded n_def] sb(1) False _ _ fuel f(1), of q] sb(2) False unfolding m by blast
      then show ?thesis using al n(2) fb by (auto simp: n_def HEADER_SIZE_def)
    qed
  qed
qed

text \<open>C21. The user heap, for requests of at most \<open>2 ^ 31 - 16\<close> bytes, the largest for which the argument of \<^verbatim>\<open>sbrk\<close>, a signed number, does not become negative. (At the seven
  largest 32-bit sizes the computation wraps around, and the block has no room: \<open>nunits_wraps\<close>.) On a heap that satisfies the invariant, or that has not been used yet, and with an
  \<^verbatim>\<open>sbrk\<close> that fails or adds the memory asked for above everything the heap has so far, \<^verbatim>\<open>malloc\<close> always returns. It returns null only if no free block is
  large enough and \<^verbatim>\<open>sbrk\<close> failed, and then the heap is as before. Otherwise the block it returns has room for the bytes asked for, was not allocated before, is apart from every
  other allocated block and every free one, and was cut out of the free bytes, to which the new memory was added if the process has grown. \<^verbatim>\<open>free\<close> of an allocated block returns,
  and adds exactly the bytes of the block to the free ones. Both keep the invariant, with its joined free blocks, and the sizes of all other allocated blocks.\<close>

theorem umalloc_correct:
  assumes heap: "heap_state base lim A xs s" and nb: "nbytes \<le> 2 ^ 31 - 16" and nu: "nu = max 4096 (nunits nbytes)"
    and sb: "sbrk (HEADER_SIZE * nu) e = (a, e')" "a \<noteq> 2 ^ 32 - 1 \<longrightarrow> lim \<le> a \<and> a + HEADER_SIZE * nu < 2 ^ 32"
  shows "(\<exists>r s' e1. malloc base sbrk nbytes s e = Ok (r, s', e1) \<and>
      (if r = 0 then a = 2 ^ 32 - 1 \<and> (\<forall>x \<in> set xs. u_size s x < nunits nbytes) \<and> s' = malloc_init base s \<and> heap_state base lim A xs s'
       else \<exists>q. r = q + HEADER_SIZE \<and> nbytes \<le> HEADER_SIZE * (u_size s' q - 1) \<and>
         (e1 = e \<and> allocated base lim A (nunits nbytes) q (free_bytes s xs) s s' \<or>
          e1 = e' \<and> allocated base (a + HEADER_SIZE * nu) A (nunits nbytes) q (free_bytes s xs \<union> {a..<a + HEADER_SIZE * nu}) s s'))) \<and>
    (\<forall>bp \<in> A. \<exists>s'. free (bp + HEADER_SIZE) s = Ok s' \<and> freed base lim (A - {bp}) bp xs s s')"
  using malloc_ok [where sbrk = sbrk, OF assms] free_ok heap unfolding heap_state_def by blast

text \<open>A heap with one allocated and one free block, and a break that grows by what is asked for.\<close>

definition ex_heap :: uheap where
  "ex_heap = \<lparr>u_ptr = (\<lambda>x. if x = 0x1000 then 0x3000 else 0x1000), u_size = (\<lambda>x. if x = 0x1000 then 0 else 16), u_freep = 0x1000\<rparr>"

theorem umalloc_correct_witness:
  "\<exists>r s' e. malloc 0x1000 (\<lambda>n e. (e, e + n)) 100 ex_heap 0x4000 = Ok (r, s', e) \<and> r \<noteq> 0 \<and>
     (\<exists>s2. free 0x2008 ex_heap = Ok s2 \<and> freed 0x1000 0x3080 {} 0x2000 [0x3000] ex_heap s2)"
proof -
  have "heap_state 0x1000 0x3080 {0x2000} [0x3000] ex_heap" by (simp add: heap_state_def heap_ok_def ex_heap_def block_end_def apart_def HEADER_SIZE_def)
  moreover have "(4096::nat) = max 4096 (nunits 100)" "HEADER_SIZE * 4096 = 0x8000" by (simp_all add: nunits_def HEADER_SIZE_def)
  ultimately have c: "\<exists>r s' e1. malloc 0x1000 (\<lambda>n e. (e, e + n)) 100 ex_heap 0x4000 = Ok (r, s', e1) \<and> (if r = 0 then (0x4000::nat) = 2 ^ 32 - 1 else True)"
    "\<forall>bp \<in> {0x2000}. \<exists>s'. free (bp + HEADER_SIZE) ex_heap = Ok s' \<and> freed 0x1000 0x3080 ({0x2000} - {bp}) bp [0x3000] ex_heap s'"
    using umalloc_correct [of "0x1000" "0x3080" "{0x2000}" "[0x3000]" ex_heap 100 4096 "\<lambda>n e. (e, e + n)" "0x4000" "0x4000" "0xc000"]
    by (auto split: if_splits)
  show ?thesis using c(1) c(2) [THEN bspec, of "0x2000"] by (auto simp: HEADER_SIZE_def split: if_splits)
qed

end
