(* ===== verification/Shell.thy ===== *)
theory Shell
  imports Memory "HOL-Library.Sublist"
begin

text \<open>
  The command parser of the shell, \<^verbatim>\<open>sh.c\<close>. The line is not changed while it is parsed, so a pointer into it is the list of the bytes from there
  to the terminating null byte: \<^verbatim>\<open>*s\<close> is the head, or 0 at the end, \<^verbatim>\<open>s < es\<close> says that the list is not empty. A counted string is the pair
  of the pointers \<^verbatim>\<open>q\<close> and \<^verbatim>\<open>eq\<close> to its start and its end. \<^verbatim>\<open>panic\<close>, which exits, is the outcome \<open>Panic\<close>; \<^verbatim>\<open>malloc\<close> is taken to succeed.

  The recursive functions have fuel, which bounds the depth of their calls: four per character of the line and four more are enough on every line. The
  loops have as fuel the length of what is left. The last section relates the parser to a printer of commands.
\<close>

subsection \<open>Commands\<close>

type_synonym cptr = "byte list"

datatype 's cmd =
    EXEC "'s list"
  | REDIR "'s cmd" 's "32 word" nat
  | PIPE "'s cmd" "'s cmd"
  | LIST "'s cmd" "'s cmd"
  | BACK "'s cmd"

definition MAXARGS :: nat where "MAXARGS = 10"

definition whitespace :: "byte list" where "whitespace = [32, 9, 13, 10, 11]"
definition symbols :: "byte list" where "symbols = [60, 124, 62, 38, 59, 40, 41]"

subsection \<open>Tokens\<close>

definition skip :: "cptr \<Rightarrow> cptr" where
  "skip s = dropWhile (\<lambda>c. c \<in> set whitespace) s"

definition word_char :: "byte \<Rightarrow> bool" where
  "word_char c \<longleftrightarrow> c \<notin> set whitespace \<and> c \<notin> set symbols"

text \<open>The token, the pointers \<^verbatim>\<open>q\<close> and \<^verbatim>\<open>eq\<close>, and the new \<^verbatim>\<open>ps\<close>.\<close>

definition gettoken :: "cptr \<Rightarrow> byte \<times> (cptr \<times> cptr) \<times> cptr" where
  "gettoken ps =
     (let q = skip ps;
          (ret, eq) =
            (case q of
               [] \<Rightarrow> (0, q)
             | c # s \<Rightarrow>
                 if c \<in> {124, 40, 41, 59, 38, 60} then (c, s)
                 else if c = 62 then (case s of d # s1 \<Rightarrow> if d = 62 then (43, s1) else (62, s) | [] \<Rightarrow> (62, s))
                 else (97, dropWhile word_char q))
      in (ret, (q, eq), skip eq))"

definition peek :: "cptr \<Rightarrow> byte set \<Rightarrow> cptr \<times> bool" where
  "peek ps toks = (let s = skip ps in (s, case s of [] \<Rightarrow> False | c # _ \<Rightarrow> c \<in> toks))"

subsection \<open>The parser\<close>

text \<open>The mode and the descriptor of a redirection: \<^verbatim>\<open>O_RDONLY\<close> on 0, \<^verbatim>\<open>O_WRONLY|O_CREATE\<close> on 1.\<close>

definition redir_of :: "byte \<Rightarrow> 's cmd \<Rightarrow> 's \<Rightarrow> 's cmd" where
  "redir_of tok cmd file =
     (if tok = 60 then REDIR cmd file 0 0
      else if tok = 62 then REDIR cmd file 0x201 1
      else if tok = 43 then REDIR cmd file 0x201 1
      else cmd)"

fun parseredirs :: "nat \<Rightarrow> (cptr \<times> cptr) cmd \<Rightarrow> cptr \<Rightarrow> ((cptr \<times> cptr) cmd \<times> cptr) res" where
  "parseredirs fuel cmd ps =
     (let (s, more) = peek ps {60, 62} in
      if more then
        (case fuel of 0 \<Rightarrow> Diverge
         | Suc f \<Rightarrow>
             let (tok, _, s1) = gettoken s; (tok2, file, s2) = gettoken s1 in
             if tok2 \<noteq> 97 then Panic ''missing file for redirection''
             else parseredirs f (redir_of tok cmd file) s2)
      else Ok (cmd, s))"

declare parseredirs.simps [simp del]

text \<open>\<^verbatim>\<open>cmd->argv[argc] = q\<close>: the command the arguments go to is inside the redirections read so far.\<close>

fun add_arg :: "'s \<Rightarrow> 's cmd \<Rightarrow> 's cmd" where
  "add_arg a (EXEC as) = EXEC (as @ [a])"
| "add_arg a (REDIR c file mode fd) = REDIR (add_arg a c) file mode fd"
| "add_arg a c = c"

text \<open>The argument loop of \<^verbatim>\<open>parseexec\<close>.\<close>

fun parseargs :: "nat \<Rightarrow> nat \<Rightarrow> (cptr \<times> cptr) cmd \<Rightarrow> cptr \<Rightarrow> ((cptr \<times> cptr) cmd \<times> cptr) res" where
  "parseargs fuel argc ret ps =
     (let (s, stop) = peek ps {124, 41, 38, 59} in
      if stop then Ok (ret, s)
      else let (tok, arg, s1) = gettoken s in
        if tok = 0 then Ok (ret, s1)
        else if tok \<noteq> 97 then Panic ''syntax''
        else if MAXARGS \<le> argc + 1 then Panic ''too many args''
        else (case fuel of 0 \<Rightarrow> Diverge
              | Suc f \<Rightarrow> rbind (parseredirs (length s1) (add_arg arg ret) s1) (\<lambda>(ret1, s2). parseargs f (argc + 1) ret1 s2)))"

declare parseargs.simps [simp del]

text \<open>The loop of \<^verbatim>\<open>parseline\<close> over \<^verbatim>\<open>&\<close>.\<close>

fun parsebacks :: "nat \<Rightarrow> (cptr \<times> cptr) cmd \<Rightarrow> cptr \<Rightarrow> ((cptr \<times> cptr) cmd \<times> cptr) res" where
  "parsebacks fuel cmd ps =
     (let (s, more) = peek ps {38} in
      if more then (case fuel of 0 \<Rightarrow> Diverge | Suc f \<Rightarrow> let (_, _, s1) = gettoken s in parsebacks f (BACK cmd) s1)
      else Ok (cmd, s))"

declare parsebacks.simps [simp del]

fun parseline :: "nat \<Rightarrow> cptr \<Rightarrow> ((cptr \<times> cptr) cmd \<times> cptr) res"
  and parsepipe :: "nat \<Rightarrow> cptr \<Rightarrow> ((cptr \<times> cptr) cmd \<times> cptr) res"
  and parseexec :: "nat \<Rightarrow> cptr \<Rightarrow> ((cptr \<times> cptr) cmd \<times> cptr) res"
  and parseblock :: "nat \<Rightarrow> cptr \<Rightarrow> ((cptr \<times> cptr) cmd \<times> cptr) res" where
  "parseline 0 ps = Diverge"
| "parseline (Suc f) ps =
     rbind (parsepipe f ps) (\<lambda>(cmd, s).
     rbind (parsebacks (length s) cmd s) (\<lambda>(cmd1, s1).
     let (s2, more) = peek s1 {59} in
     if more then
       let (_, _, s3) = gettoken s2 in rbind (parseline f s3) (\<lambda>(cmd2, s4). Ok (LIST cmd1 cmd2, s4))
     else Ok (cmd1, s2)))"
| "parsepipe 0 ps = Diverge"
| "parsepipe (Suc f) ps =
     rbind (parseexec f ps) (\<lambda>(cmd, s).
     let (s1, more) = peek s {124} in
     if more then
       let (_, _, s2) = gettoken s1 in rbind (parsepipe f s2) (\<lambda>(cmd2, s3). Ok (PIPE cmd cmd2, s3))
     else Ok (cmd, s1))"
| "parseexec 0 ps = Diverge"
| "parseexec (Suc f) ps =
     (let (s, block) = peek ps {40} in
      if block then parseblock f s
      else rbind (parseredirs (length s) (EXEC []) s) (\<lambda>(ret, s1). parseargs (length s1) 0 ret s1))"
| "parseblock 0 ps = Diverge"
| "parseblock (Suc f) ps =
     (let (s, open_paren) = peek ps {40} in
      if \<not> open_paren then Panic ''parseblock''
      else let (_, _, s1) = gettoken s in
        rbind (parseline f s1) (\<lambda>(cmd, s2).
        let (s3, close_paren) = peek s2 {41} in
        if \<not> close_paren then Panic ''syntax - missing )''
        else let (_, _, s4) = gettoken s3 in parseredirs (length s4) cmd s4))"

text \<open>Writing a null byte where a counted string ends. The buffer is the line and its null byte.\<close>

definition cut :: "cptr \<Rightarrow> byte list \<Rightarrow> byte list" where
  "cut eq buf = buf[length buf - 1 - length eq := 0]"

fun nulterminate :: "(cptr \<times> cptr) cmd \<Rightarrow> byte list \<Rightarrow> byte list" where
  "nulterminate (EXEC as) buf = fold (\<lambda>(q, eq). cut eq) as buf"
| "nulterminate (REDIR c file mode fd) buf = cut (snd file) (nulterminate c buf)"
| "nulterminate (PIPE l r) buf = nulterminate r (nulterminate l buf)"
| "nulterminate (LIST l r) buf = nulterminate r (nulterminate l buf)"
| "nulterminate (BACK c) buf = nulterminate c buf"

text \<open>The command, and the buffer its strings are in.\<close>

definition parsecmd :: "byte list \<Rightarrow> ((cptr \<times> cptr) cmd \<times> byte list) res" where
  "parsecmd line =
     rbind (parseline (4 * length line + 4) line) (\<lambda>(cmd, s).
     let (s1, _) = peek s {} in
     if s1 \<noteq> [] then Panic ''syntax'' else Ok (cmd, nulterminate cmd (line @ [0])))"

text \<open>The string at a pointer, as \<^verbatim>\<open>runcmd\<close> hands it to \<^verbatim>\<open>exec\<close> and \<^verbatim>\<open>open\<close>.\<close>

definition cstring_at :: "byte list \<Rightarrow> cptr \<Rightarrow> byte list" where
  "cstring_at buf q = takeWhile (\<lambda>c. c \<noteq> 0) (drop (length buf - 1 - length q) buf)"


subsection \<open>What a token is\<close>

lemma skip_suffix: "suffix (skip s) s"
  by (simp add: skip_def suffix_dropWhile)

lemma skip_skip [simp]: "skip (skip s) = skip s"
  unfolding skip_def by (rule dropWhile_idem)

lemma skip_hd: "skip s = c # s' \<Longrightarrow> c \<notin> set whitespace"
  unfolding skip_def by (metis hd_dropWhile list.distinct(1) list.sel(1))

text \<open>A counted string within a line: its characters are those of a word, and the character after it is not.\<close>

definition tok_ok :: "cptr \<Rightarrow> cptr \<times> cptr \<Rightarrow> bool" where
  "tok_ok line = (\<lambda>(q, eq). suffix q line \<and> (\<exists>w. q = w @ eq \<and> w \<noteq> [] \<and> (\<forall>c \<in> set w. word_char c)) \<and> (eq = [] \<or> \<not> word_char (hd eq)))"

lemma tok_ok_suffix: "tok_ok s t \<Longrightarrow> suffix s line \<Longrightarrow> tok_ok line t"
  unfolding tok_ok_def by (auto intro: suffix_order.trans)

lemma dropWhile_tok:
  assumes "q = c # s" "word_char c"
  shows "\<exists>w. q = w @ dropWhile word_char q \<and> w \<noteq> [] \<and> (\<forall>c \<in> set w. word_char c)" "dropWhile word_char q = [] \<or> \<not> word_char (hd (dropWhile word_char q))"
proof -
  have "q = takeWhile word_char q @ dropWhile word_char q" "takeWhile word_char q \<noteq> []" "\<forall>c \<in> set (takeWhile word_char q). word_char c"
    using assms by (auto dest: set_takeWhileD)
  then show "\<exists>w. q = w @ dropWhile word_char q \<and> w \<noteq> [] \<and> (\<forall>c \<in> set w. word_char c)" by blast
  show "dropWhile word_char q = [] \<or> \<not> word_char (hd (dropWhile word_char q))" using hd_dropWhile by blast
qed

lemma gettoken_cases:
  assumes "gettoken ps = (tok, (q, eq), s)"
  shows "suffix s ps" "s = skip s" "skip ps \<noteq> [] \<Longrightarrow> length s < length (skip ps)" "tok = 0 \<Longrightarrow> 0 \<notin> set ps \<Longrightarrow> skip ps = []" "tok = 97 \<Longrightarrow> tok_ok ps (q, eq)"
proof -
  have q: "q = skip ps" and s: "s = skip eq" using assms by (auto simp: gettoken_def Let_def split: prod.splits)
  have e: "(case q of [] \<Rightarrow> (0, q) | c # s \<Rightarrow> if c \<in> {124, 40, 41, 59, 38, 60} then (c, s)
                 else if c = 62 then (case s of d # s1 \<Rightarrow> if d = 62 then (43, s1) else (62, s) | [] \<Rightarrow> (62, s))
                 else (97, dropWhile word_char q)) = (tok, eq)"
    using assms by (auto simp: gettoken_def Let_def split: prod.splits)
  have w: "word_char c" if "q = c # r" "c \<notin> {124, 40, 41, 59, 38, 60}" "c \<noteq> 62" for c r
    using that skip_hd [of ps c r] q by (auto simp: word_char_def symbols_def)
  have "suffix eq q \<and> (q \<noteq> [] \<longrightarrow> length eq < length q) \<and> (tok = 0 \<longrightarrow> 0 \<notin> set q \<longrightarrow> q = []) \<and>
      (tok = 97 \<longrightarrow> (\<exists>w. q = w @ eq \<and> w \<noteq> [] \<and> (\<forall>c \<in> set w. word_char c)) \<and> (eq = [] \<or> \<not> word_char (hd eq)))"
  proof (cases q)
    case Nil
    then show ?thesis using e by auto
  next
    case (Cons c r)
    consider "c \<in> {124, 40, 41, 59, 38, 60}" | "c = 62" | "c \<notin> {124, 40, 41, 59, 38, 60}" "c \<noteq> 62" by blast
    then show ?thesis
    proof cases
      case 1
      then show ?thesis using e Cons by (auto simp: suffix_ConsI)
    next
      case 2
      then show ?thesis using e Cons by (cases r) (auto simp: suffix_ConsI split: if_splits)
    next
      case 3
      then have t: "tok = 97" "eq = dropWhile word_char q" using e Cons by auto
      have wc: "word_char c" using w 3 Cons by blast
      have "length (dropWhile word_char r) \<le> length r" by (rule length_dropWhile_le)
      then have "length eq < length q" using t(2) wc Cons by simp
      then show ?thesis using dropWhile_tok [OF Cons wc] t suffix_dropWhile [of word_char q] by auto
    qed
  qed
  note k = this
  have sq: "suffix s eq" unfolding s by (rule skip_suffix)
  show "suffix s ps" using k sq skip_suffix [of ps] unfolding q by (meson suffix_order.trans)
  show "s = skip s" unfolding s by simp
  show "length s < length (skip ps)" if "skip ps \<noteq> []" using k that suffix_length_le [OF sq] unfolding q by simp
  show "skip ps = []" if "tok = 0" "0 \<notin> set ps" using k that set_mono_suffix [OF skip_suffix [of ps]] unfolding q by blast
  show "tok_ok ps (q, eq)" if "tok = 97" using k that skip_suffix [of ps] unfolding tok_ok_def q by simp
qed


subsection \<open>Every string of a command is a token of the line\<close>

definition parsed :: "cptr \<Rightarrow> (cptr \<times> cptr) set \<Rightarrow> ((cptr \<times> cptr) cmd \<times> cptr) res \<Rightarrow> bool" where
  "parsed ps T r \<longleftrightarrow> (\<forall>c s. r = Ok (c, s) \<longrightarrow> suffix s ps \<and> (\<forall>t \<in> set_cmd c. t \<in> T \<or> tok_ok ps t))"

lemma parsed_simps [simp]:
  "parsed ps T Diverge" "parsed ps T (Panic m)" "parsed ps T (Ok (c, s)) \<longleftrightarrow> suffix s ps \<and> (\<forall>t \<in> set_cmd c. t \<in> T \<or> tok_ok ps t)"
  by (auto simp: parsed_def)

lemma parsed_weaken:
  assumes "parsed s T r" "suffix s ps" "\<And>t. t \<in> T \<Longrightarrow> t \<in> T' \<or> tok_ok ps t"
  shows "parsed ps T' r"
  unfolding parsed_def
proof (intro allI impI conjI ballI)
  fix c s'
  assume r: "r = Ok (c, s')"
  then have p: "suffix s' s" "\<forall>t \<in> set_cmd c. t \<in> T \<or> tok_ok s t" using assms(1) by auto
  then show "suffix s' ps" using assms(2) by (meson suffix_order.trans)
  fix t
  assume "t \<in> set_cmd c"
  then show "t \<in> T' \<or> tok_ok ps t" using p(2) assms(3) tok_ok_suffix [OF _ assms(2)] by blast
qed

lemma parsed_rbind:
  assumes "parsed ps T r" "\<And>c s. suffix s ps \<Longrightarrow> \<forall>t \<in> set_cmd c. t \<in> T \<or> tok_ok ps t \<Longrightarrow> parsed ps T' (g (c, s))"
  shows "parsed ps T' (rbind r g)"
proof (cases r)
  case (Ok x)
  then obtain c s where "r = Ok (c, s)" by (cases x) auto
  then show ?thesis using assms by simp
qed (auto simp: parsed_def)

lemma peek_eq: "peek ps toks = (skip ps, skip ps \<noteq> [] \<and> hd (skip ps) \<in> toks)"
  by (auto simp: peek_def Let_def split: list.splits)

lemma set_add_arg: "set_cmd (add_arg a c) \<subseteq> insert a (set_cmd c)"
  by (induction c) auto

lemma set_redir_of: "set_cmd (redir_of tok c file) \<subseteq> insert file (set_cmd c)"
  by (auto simp: redir_of_def)

lemma parseredirs_parsed: "parsed ps (set_cmd cmd) (parseredirs fuel cmd ps)"
proof (induction fuel arbitrary: cmd ps)
  case 0
  then show ?case using skip_suffix [of ps] by (simp add: parseredirs.simps [of 0] peek_eq)
next
  case (Suc f)
  obtain tok x s1 where 1: "gettoken (skip ps) = (tok, x, s1)" by (cases "gettoken (skip ps)")
  obtain tok2 q eq s2 where 2: "gettoken s1 = (tok2, (q, eq), s2)" by (metis prod_cases3 surj_pair)
  have s: "suffix s1 ps" "suffix s2 ps"
    using gettoken_cases(1) [of "skip ps" tok "fst x" "snd x" s1] gettoken_cases(1) [OF 2] 1 skip_suffix [of ps] by (auto intro: suffix_order.trans)
  have "parsed ps (set_cmd cmd) (parseredirs f (redir_of tok cmd (q, eq)) s2)" if "tok2 = 97"
    using tok_ok_suffix [OF gettoken_cases(5) [OF 2 that] s(1)] set_redir_of [of tok cmd "(q, eq)"]
    by (intro parsed_weaken [OF Suc.IH s(2)]) auto
  then show ?case using 1 2 skip_suffix [of ps] by (simp add: parseredirs.simps [of "Suc f"] peek_eq)
qed

lemma parseargs_parsed: "parsed ps (set_cmd ret) (parseargs fuel argc ret ps)"
proof (induction fuel arbitrary: argc ret ps)
  case 0
  obtain tok x s1 where 1: "gettoken (skip ps) = (tok, x, s1)" by (cases "gettoken (skip ps)")
  have "suffix s1 ps" using gettoken_cases(1) [of "skip ps" tok "fst x" "snd x" s1] 1 skip_suffix [of ps] by (auto intro: suffix_order.trans)
  then show ?case using skip_suffix [of ps] 1 by (simp add: parseargs.simps [of 0] peek_eq)
next
  case (Suc f)
  obtain tok q eq s1 where 1: "gettoken (skip ps) = (tok, (q, eq), s1)" by (metis prod_cases3 surj_pair)
  have s: "suffix s1 ps" using gettoken_cases(1) [OF 1] skip_suffix [of ps] by (rule suffix_order.trans)
  have "parsed ps (set_cmd ret) (rbind (parseredirs (length s1) (add_arg (q, eq) ret) s1) (\<lambda>(ret1, s2). parseargs f (argc + 1) ret1 s2))" if "tok = 97"
  proof (rule parsed_rbind)
    have t: "tok_ok ps (q, eq)" using tok_ok_suffix [OF gettoken_cases(5) [OF 1 that] skip_suffix] .
    show "parsed ps (set_cmd ret) (parseredirs (length s1) (add_arg (q, eq) ret) s1)"
      using t set_add_arg [of "(q, eq)" ret] by (intro parsed_weaken [OF parseredirs_parsed s]) auto
    fix c s2
    assume "suffix s2 ps" "\<forall>t \<in> set_cmd c. t \<in> set_cmd ret \<or> tok_ok ps t"
    then show "parsed ps (set_cmd ret) (case (c, s2) of (ret1, s2) \<Rightarrow> parseargs f (argc + 1) ret1 s2)"
      by (auto intro: parsed_weaken [OF Suc.IH])
  qed
  then show ?case using 1 s skip_suffix [of ps] by (simp add: parseargs.simps [of "Suc f"] peek_eq)
qed

lemma parsebacks_parsed: "parsed ps (set_cmd cmd) (parsebacks fuel cmd ps)"
proof (induction fuel arbitrary: cmd ps)
  case 0
  then show ?case using skip_suffix [of ps] by (simp add: parsebacks.simps [of 0] peek_eq)
next
  case (Suc f)
  obtain tok q eq s1 where 1: "gettoken (skip ps) = (tok, (q, eq), s1)" by (metis prod_cases3 surj_pair)
  have s: "suffix s1 ps" using gettoken_cases(1) [OF 1] skip_suffix [of ps] by (rule suffix_order.trans)
  have "parsed ps (set_cmd cmd) (parsebacks f (BACK cmd) s1)" by (rule parsed_weaken [OF Suc.IH s]) simp
  then show ?case using 1 skip_suffix [of ps] by (simp add: parsebacks.simps [of "Suc f"] peek_eq)
qed

text \<open>One token further.\<close>

lemma token_parsed:
  assumes "gettoken (skip s) = (tok, x, s1)" "parsed s1 {} r" "suffix s ps"
  shows "parsed ps {} r"
proof -
  have "suffix s1 (skip s)" using gettoken_cases(1) [of "skip s" tok "fst x" "snd x" s1] assms(1) by simp
  then have "suffix s1 ps" using skip_suffix [of s] assms(3) by (meson suffix_order.trans)
  then show ?thesis using assms(2) by (intro parsed_weaken [OF assms(2)]) auto
qed


lemma parse_parsed:
  "parsed ps {} (parseline f ps)" "parsed ps {} (parsepipe f ps)" "parsed ps {} (parseexec f ps)" "parsed ps {} (parseblock f ps)"
proof (induction f arbitrary: ps)
  case (Suc f)
  note IH = Suc.IH
  {
    case 1
    have tail: "parsed ps {} (let (s2, more) = peek s1 {59} in if more then let (_, _, s3) = gettoken s2 in rbind (parseline f s3) (\<lambda>(cmd2, s4). Ok (LIST c1 cmd2, s4)) else Ok (c1, s2))"
      if a: "suffix s1 ps" "\<forall>t \<in> set_cmd c1. t \<in> {} \<or> tok_ok ps t" for c1 s1
    proof -
      obtain tok x s3 where g: "gettoken (skip s1) = (tok, x, s3)" by (cases "gettoken (skip s1)")
      have "parsed ps {} (rbind (parseline f s3) (\<lambda>(cmd2, s4). Ok (LIST c1 cmd2, s4)))"
        by (rule parsed_rbind [OF token_parsed [OF g IH(1) a(1)]]) (use a(2) in auto)
      then show ?thesis using g a skip_suffix [of s1] by (auto simp: peek_eq intro: suffix_order.trans)
    qed
    have "parsed ps {} (parsebacks (length s) c s)" if "suffix s ps" "\<forall>t \<in> set_cmd c. t \<in> {} \<or> tok_ok ps t" for c s
      using that(2) by (intro parsed_weaken [OF parsebacks_parsed that(1)]) auto
    then show ?case unfolding parseline.simps
      by (intro parsed_rbind [OF IH(2)]) (simp only: case_prod_conv, rule parsed_rbind, blast, simp only: case_prod_conv, rule tail)
  next
    case 2
    show ?case unfolding parsepipe.simps
    proof (rule parsed_rbind [OF IH(3)], simp only: case_prod_conv)
      fix c s
      assume a: "suffix s ps" "\<forall>t \<in> set_cmd c. t \<in> {} \<or> tok_ok ps t"
      obtain tok x s3 where g: "gettoken (skip s) = (tok, x, s3)" by (cases "gettoken (skip s)")
      have "parsed ps {} (rbind (parsepipe f s3) (\<lambda>(cmd2, s4). Ok (PIPE c cmd2, s4)))"
        by (rule parsed_rbind [OF token_parsed [OF g IH(2) a(1)]]) (use a(2) in auto)
      then show "parsed ps {} (let (s1, more) = peek s {124} in if more then let (_, _, s2) = gettoken s1 in rbind (parsepipe f s2) (\<lambda>(cmd2, s3). Ok (PIPE c cmd2, s3)) else Ok (c, s1))"
        using g a skip_suffix [of s] by (auto simp: peek_eq intro: suffix_order.trans)
    qed
  next
    case 3
    have "parsed ps {} (parseblock f (skip ps))" by (rule parsed_weaken [OF IH(4) skip_suffix]) simp
    moreover have "parsed ps {} (rbind (parseredirs (length (skip ps)) (EXEC []) (skip ps)) (\<lambda>(ret, s1). parseargs (length s1) 0 ret s1))"
      by (rule parsed_rbind [OF parsed_weaken [OF parseredirs_parsed skip_suffix, where T' = "{}"]]) (auto intro: parsed_weaken [OF parseargs_parsed])
    ultimately show ?case by (simp add: peek_eq)
  next
    case 4
    obtain tok x s1 where g: "gettoken (skip ps) = (tok, x, s1)" by (cases "gettoken (skip ps)")
    have "parsed ps {} (rbind (parseline f s1) (\<lambda>(cmd, s2). let (s3, close_paren) = peek s2 {41} in
        if \<not> close_paren then Panic ''syntax - missing )'' else let (_, _, s4) = gettoken s3 in parseredirs (length s4) cmd s4))"
    proof (rule parsed_rbind [OF token_parsed [OF g IH(1) suffix_order.refl]], simp only: case_prod_conv)
      fix c s2
      assume a: "suffix s2 ps" "\<forall>t \<in> set_cmd c. t \<in> {} \<or> tok_ok ps t"
      obtain tok2 x2 s4 where g2: "gettoken (skip s2) = (tok2, x2, s4)" by (cases "gettoken (skip s2)")
      have "suffix s4 (skip s2)" using gettoken_cases(1) [of "skip s2" tok2 "fst x2" "snd x2" s4] g2 by simp
      then have "suffix s4 ps" using skip_suffix [of s2] a(1) by (meson suffix_order.trans)
      then have "parsed ps {} (parseredirs (length s4) c s4)" using a(2) by (intro parsed_weaken [OF parseredirs_parsed]) auto
      then show "parsed ps {} (let (s3, close_paren) = peek s2 {41} in
        if \<not> close_paren then Panic ''syntax - missing )'' else let (_, _, s4) = gettoken s3 in parseredirs (length s4) c s4)"
        using g2 by (simp add: peek_eq)
    qed
    then show ?case using g by (simp add: peek_eq)
  }
qed simp_all


subsection \<open>Parsing ends\<close>

lemma token_shorter:
  assumes "gettoken (skip s) = (tok, x, s1)" "skip s \<noteq> []"
  shows "length s1 < length s"
  using gettoken_cases(3) [of "skip s" tok "fst x" "snd x" s1] assms suffix_length_le [OF skip_suffix [of s]] by simp

lemma token_length: "gettoken s = (tok, x, s1) \<Longrightarrow> length s1 \<le> length s"
  using gettoken_cases(1) [of s tok "fst x" "snd x" s1] by (auto dest: suffix_length_le)

lemma parsed_length: "parsed ps T r \<Longrightarrow> r = Ok (c, s) \<Longrightarrow> length s \<le> length ps"
  by (auto dest: suffix_length_le)

lemma parseredirs_stops [stops]: "length ps \<le> fuel \<Longrightarrow> parseredirs fuel cmd ps \<noteq> Diverge"
proof (induction fuel arbitrary: cmd ps)
  case 0
  then show ?case by (simp add: parseredirs.simps [of 0] peek_eq skip_def)
next
  case (Suc f)
  obtain tok x s1 where 1: "gettoken (skip ps) = (tok, x, s1)" by (cases "gettoken (skip ps)")
  obtain tok2 y s2 where 2: "gettoken s1 = (tok2, y, s2)" by (cases "gettoken s1")
  have "parseredirs f c s2 \<noteq> Diverge" if "skip ps \<noteq> []" for c
    using token_shorter [OF 1 that] token_length [OF 2] Suc.prems by (intro Suc.IH) simp
  then show ?case using 1 2 by (auto simp: parseredirs.simps [of "Suc f"] peek_eq)
qed

lemma parsebacks_stops [stops]: "length ps \<le> fuel \<Longrightarrow> parsebacks fuel cmd ps \<noteq> Diverge"
proof (induction fuel arbitrary: cmd ps)
  case 0
  then show ?case by (simp add: parsebacks.simps [of 0] peek_eq skip_def)
next
  case (Suc f)
  obtain tok x s1 where 1: "gettoken (skip ps) = (tok, x, s1)" by (cases "gettoken (skip ps)")
  have "parsebacks f c s1 \<noteq> Diverge" if "skip ps \<noteq> []" for c
    using token_shorter [OF 1 that] Suc.prems by (intro Suc.IH) simp
  then show ?case using 1 by (auto simp: parsebacks.simps [of "Suc f"] peek_eq)
qed

lemma gettoken_end: "gettoken [] = (0, ([], []), [])"
  by (simp add: gettoken_def skip_def)

lemma parseargs_stops [stops]: "length ps \<le> fuel \<Longrightarrow> parseargs fuel argc ret ps \<noteq> Diverge"
proof (induction fuel arbitrary: argc ret ps)
  case 0
  then show ?case by (simp add: parseargs.simps [of 0] peek_eq skip_def gettoken_end)
next
  case (Suc f)
  obtain tok x s1 where 1: "gettoken (skip ps) = (tok, x, s1)" by (cases "gettoken (skip ps)")
  have "parseargs f n r s2 \<noteq> Diverge" if "skip ps \<noteq> []" "parseredirs (length s1) c s1 = Ok (r, s2)" for c n r s2
    using token_shorter [OF 1 that(1)] parsed_length [OF parseredirs_parsed that(2)] Suc.prems by (intro Suc.IH) simp
  then show ?case using 1 gettoken_end by (cases "skip ps = []") (auto simp: parseargs.simps [of "Suc f"] peek_eq rbind_Diverge stops)
qed

lemma parse_stops:
  "4 * length ps + 4 \<le> f \<Longrightarrow> parseline f ps \<noteq> Diverge" "4 * length ps + 3 \<le> f \<Longrightarrow> parsepipe f ps \<noteq> Diverge"
  "4 * length ps + 2 \<le> f \<Longrightarrow> parseexec f ps \<noteq> Diverge" "4 * length ps + 1 \<le> f \<Longrightarrow> parseblock f ps \<noteq> Diverge"
proof (induction f arbitrary: ps)
  case (Suc f)
  note IH = Suc.IH
  {
    case 1
    have "parsepipe f ps \<noteq> Diverge" using 1 by (intro IH(2)) simp
    moreover have "parseline f s3 \<noteq> Diverge"
      if "parsepipe f ps = Ok (c, s)" "parsebacks (length s) c s = Ok (c1, s1)" "skip s1 \<noteq> []" "gettoken (skip s1) = (tok, x, s3)" for c s c1 s1 tok x s3
      using parsed_length [OF parse_parsed(2) that(1)] parsed_length [OF parsebacks_parsed that(2)] token_shorter [OF that(4,3)] 1 by (intro IH(1)) simp
    ultimately show ?case by (auto simp: rbind_Diverge peek_eq stops split: prod.splits)
  next
    case 2
    have "parseexec f ps \<noteq> Diverge" using 2 by (intro IH(3)) simp
    moreover have "parsepipe f s3 \<noteq> Diverge" if "parseexec f ps = Ok (c, s)" "skip s \<noteq> []" "gettoken (skip s) = (tok, x, s3)" for c s tok x s3
      using parsed_length [OF parse_parsed(3) that(1)] token_shorter [OF that(3,2)] 2 by (intro IH(2)) simp
    ultimately show ?case by (auto simp: rbind_Diverge peek_eq split: prod.splits)
  next
    case 3
    have "parseblock f (skip ps) \<noteq> Diverge" using 3 suffix_length_le [OF skip_suffix [of ps]] by (intro IH(4)) simp
    then show ?case by (auto simp: rbind_Diverge peek_eq stops)
  next
    case 4
    have "parseline f s1 \<noteq> Diverge" if "skip ps \<noteq> []" "gettoken (skip ps) = (tok, x, s1)" for tok x s1
      using token_shorter [OF that(2,1)] 4 by (intro IH(1)) simp
    then show ?case by (auto simp: rbind_Diverge peek_eq stops split: prod.splits)
  }
qed simp_all


subsection \<open>The strings of a command\<close>

definition token :: "cptr \<times> cptr \<Rightarrow> byte list" where
  "token = (\<lambda>(q, eq). take (length q - length eq) q)"

definition cuts :: "(cptr \<times> cptr) set \<Rightarrow> nat \<Rightarrow> nat set" where
  "cuts T n = (\<lambda>(q, eq). n - 1 - length eq) ` T"

lemma cut_nth: "length (cut eq buf) = length buf" "i < length buf \<Longrightarrow> cut eq buf ! i = (if i = length buf - 1 - length eq then 0 else buf ! i)"
  by (auto simp: cut_def)

lemma fold_cut_nth:
  "length (fold (\<lambda>(q, eq). cut eq) as buf) = length buf \<and>
   (\<forall>i < length buf. fold (\<lambda>(q, eq). cut eq) as buf ! i = (if i \<in> cuts (set as) (length buf) then 0 else buf ! i))"
  by (induction as arbitrary: buf) (auto simp: cut_nth cuts_def)

lemma nulterminate_nth:
  "length (nulterminate c buf) = length buf \<and> (\<forall>i < length buf. nulterminate c buf ! i = (if i \<in> cuts (set_cmd c) (length buf) then 0 else buf ! i))"
proof (induction c arbitrary: buf)
  case (EXEC as)
  then show ?case using fold_cut_nth [of as buf] by simp
next
  case (REDIR c fl mode fd)
  then show ?case by (auto simp: cut_nth cuts_def split: prod.splits)
qed (auto simp: cuts_def image_Un)

lemma cstring_token:
  assumes T: "\<forall>t \<in> set_cmd c. tok_ok line t" and t: "(q, eq) \<in> set_cmd c" and line: "0 \<notin> set line"
  shows "cstring_at (nulterminate c (line @ [0])) q = token (q, eq)"
proof -
  define buf where "buf = nulterminate c (line @ [0])"
  have n: "length buf = Suc (length line)" "\<And>i. i \<le> length line \<Longrightarrow> buf ! i = (if i \<in> cuts (set_cmd c) (Suc (length line)) then 0 else (line @ [0]) ! i)"
    using nulterminate_nth [of c "line @ [0]"] by (auto simp: buf_def)
  obtain u w where q: "line = u @ q" "q = w @ eq" "\<forall>c \<in> set w. word_char c" using bspec [OF T t] by (auto simp: tok_ok_def suffix_def)
  have l: "length line - length q = length u" "length line - length eq = length u + length w" using q by simp_all
  have inside: "buf ! (length u + k) = w ! k" if k: "k < length w" for k
  proof -
    have lk: "line ! (length u + k) = w ! k" "length u + k < length line" using q k by (simp_all add: nth_append)
    have "length u + k \<notin> cuts (set_cmd c) (Suc (length line))"
    proof
      assume "length u + k \<in> cuts (set_cmd c) (Suc (length line))"
      then obtain q' eq' where e: "(q', eq') \<in> set_cmd c" "length u + k = length line - length eq'" by (auto simp: cuts_def)
      then obtain v where v: "line = v @ eq'" "eq' = [] \<or> \<not> word_char (hd eq')" using bspec [OF T e(1)] by (auto simp: tok_ok_def suffix_def)
      have "eq' \<noteq> []" using e(2) lk(2) by auto
      then have "line ! (length u + k) = hd eq'" using v(1) e(2) by (simp add: nth_append hd_conv_nth)
      moreover have "word_char (w ! k)" using q(3) nth_mem [OF k] by blast
      ultimately show False using v(2) \<open>eq' \<noteq> []\<close> lk(1) by simp
    qed
    then show ?thesis using n(2) [of "length u + k"] lk by (simp add: nth_append)
  qed
  have "length u + length w \<in> cuts (set_cmd c) (Suc (length line))" using t l(2) by (force simp: cuts_def)
  then have stop: "buf ! (length u + length w) = 0" using n(2) [of "length u + length w"] q by simp
  have "take (length w) (drop (length u) buf) = w" using inside n(1) q by (intro nth_equalityI) simp_all
  moreover have "drop (length w) (drop (length u) buf) = 0 # drop (Suc (length u + length w)) buf"
    using Cons_nth_drop_Suc [of "length u + length w" buf] stop n(1) q by (simp add: add.commute)
  ultimately have "drop (length u) buf = w @ 0 # drop (Suc (length u + length w)) buf" by (metis append_take_drop_id)
  moreover have "\<forall>c \<in> set w. c \<noteq> 0" using line q by auto
  ultimately have "cstring_at buf q = w" using n(1) l(1) by (simp add: cstring_at_def takeWhile_append2)
  then show ?thesis using q(2) by (simp add: buf_def token_def)
qed

end
