(* ===== verification/ShellProps.thy ===== *)
theory ShellProps
  imports Shell
begin

text \<open>
  The shell's parser against a printer. The printer writes a command with one character per operator, a space after every word and parentheses where the
  grammar needs them; the parser recovers the command. The proof follows the grammar: for every command, what \<^verbatim>\<open>parseexec\<close>, \<^verbatim>\<open>parsepipe\<close>, the loop over
  \<^verbatim>\<open>&\<close> and \<^verbatim>\<open>parseline\<close> do to its text, in front of every rest that may follow at that level.
\<close>

subsection \<open>The printer\<close>

definition paren :: "bool \<Rightarrow> byte list \<Rightarrow> byte list" where
  "paren b s = (if b then 40 # s @ [41] else s)"

definition pr_redir :: "byte list \<times> 32 word \<times> nat \<Rightarrow> byte list" where
  "pr_redir = (\<lambda>(f, m, fd). (if fd = 0 then 60 else 62) # f @ [32])"

definition pr_words :: "byte list list \<Rightarrow> byte list" where
  "pr_words as = concat (map (\<lambda>w. w @ [32]) as)"

text \<open>At level 0 a whole line, at 1 a command with its \<^verbatim>\<open>&\<close>, at 2 a pipeline, at 3 a simple command or a block.\<close>

fun pr :: "nat \<Rightarrow> byte list cmd \<Rightarrow> byte list" where
  "pr l (EXEC as) = pr_words as"
| "pr l (REDIR c f m fd) = pr 3 c @ pr_redir (f, m, fd)"
| "pr l (PIPE a b) = paren (2 < l) (pr 3 a @ 124 # pr 2 b)"
| "pr l (BACK a) = paren (1 < l) (pr 1 a @ [38])"
| "pr l (LIST a b) = paren (0 < l) (pr 1 a @ 59 # pr 0 b)"

text \<open>Commands the shell can represent: nonempty words without white space, operators and null bytes, at most nine arguments, and the two kinds of redirection.\<close>

definition wf_word :: "byte list \<Rightarrow> bool" where
  "wf_word w \<longleftrightarrow> w \<noteq> [] \<and> (\<forall>c \<in> set w. word_char c \<and> c \<noteq> 0)"

definition wf_redir :: "byte list \<times> 32 word \<times> nat \<Rightarrow> bool" where
  "wf_redir = (\<lambda>(f, m, fd). wf_word f \<and> (m, fd) \<in> {(0, 0), (0x201, 1)})"

fun wf_cmd :: "byte list cmd \<Rightarrow> bool" where
  "wf_cmd (EXEC as) \<longleftrightarrow> (\<forall>w \<in> set as. wf_word w) \<and> length as < MAXARGS"
| "wf_cmd (REDIR c f m fd) \<longleftrightarrow> wf_cmd c \<and> wf_redir (f, m, fd)"
| "wf_cmd (PIPE a b) \<longleftrightarrow> wf_cmd a \<and> wf_cmd b"
| "wf_cmd (BACK a) \<longleftrightarrow> wf_cmd a"
| "wf_cmd (LIST a b) \<longleftrightarrow> wf_cmd a \<and> wf_cmd b"

subsection \<open>Tokens of a printed command\<close>

text \<open>A rest that begins with one of the given characters, or is empty.\<close>

definition follow :: "byte set \<Rightarrow> cptr \<Rightarrow> bool" where
  "follow S r \<longleftrightarrow> r = [] \<or> hd r \<in> S"

lemma follow_mono: "follow S r \<Longrightarrow> S \<subseteq> S' \<Longrightarrow> follow S' r"
  by (auto simp: follow_def)

lemma follow_Cons [simp]: "follow S (c # r) \<longleftrightarrow> c \<in> S"
  by (simp add: follow_def)

lemma skip_Cons: "c \<notin> set whitespace \<Longrightarrow> skip (c # r) = c # r"
  by (simp add: skip_def)

lemma skip_word: "wf_word w \<Longrightarrow> skip (w @ r) = w @ r"
  by (cases w) (auto simp: wf_word_def word_char_def skip_Cons)

lemma skip_follow: "follow {124, 41, 38, 59} r \<Longrightarrow> skip r = r"
  by (cases r) (auto simp: skip_def follow_def whitespace_def)

lemma gettoken_word:
  assumes "wf_word w" "skip r = r"
  shows "gettoken (w @ 32 # r) = (97, (w @ 32 # r, 32 # r), r)"
proof -
  obtain c w' where w: "w = c # w'" "word_char c" using assms(1) by (cases w) (auto simp: wf_word_def)
  have "dropWhile word_char (w @ 32 # r) = 32 # r"
    using assms(1) by (simp add: wf_word_def dropWhile_append2 word_char_def whitespace_def)
  moreover have "skip (32 # r) = r" using assms(2) by (simp add: skip_def whitespace_def)
  moreover have "c \<notin> {124, 40, 41, 59, 38, 60}" "c \<noteq> 62" using w(2) by (auto simp: word_char_def symbols_def)
  ultimately show ?thesis using w(1) skip_word [OF assms(1), of "32 # r"] by (simp add: gettoken_def Let_def)
qed

lemma gettoken_symbol: "c \<in> {124, 40, 41, 59, 38, 60} \<Longrightarrow> skip r = r \<Longrightarrow> gettoken (c # r) = (c, (c # r, r), r)"
  by (auto simp: gettoken_def skip_Cons whitespace_def)

lemma gettoken_greater: "wf_word w \<Longrightarrow> gettoken (62 # w @ r) = (62, (62 # w @ r, w @ r), w @ r)"
  by (cases w) (auto simp: gettoken_def skip_Cons whitespace_def wf_word_def word_char_def symbols_def)

lemma skip_words: "\<forall>w \<in> set as. wf_word w \<Longrightarrow> skip r = r \<Longrightarrow> skip (pr_words as @ r) = pr_words as @ r"
  by (cases as) (simp_all add: pr_words_def skip_word)

lemma skip_redir: "skip (pr_redir x @ r) = pr_redir x @ r"
  by (auto simp: pr_redir_def skip_Cons whitespace_def split: prod.splits)

lemma skip_pr: "wf_cmd c \<Longrightarrow> skip r = r \<Longrightarrow> skip (pr l c @ r) = pr l c @ r"
proof (induction c arbitrary: l r)
  case (EXEC as)
  then show ?case by (simp add: skip_words)
next
  case (REDIR c f m fd)
  then show ?case by (simp add: skip_redir)
qed (simp_all add: paren_def skip_Cons whitespace_def)

lemma token_word: "token (w @ r, r) = w"
  by (simp add: token_def)

subsection \<open>Redirections and arguments\<close>

definition redir_chain :: "'s cmd \<Rightarrow> ('s \<times> 32 word \<times> nat) list \<Rightarrow> 's cmd" where
  "redir_chain = foldl (\<lambda>c (f, m, fd). REDIR c f m fd)"

lemma parseredirs_none: "skip s = s \<Longrightarrow> s = [] \<or> hd s \<notin> {60, 62} \<Longrightarrow> parseredirs fuel t s = Ok (t, s)"
  by (auto simp: parseredirs.simps [of fuel] peek_eq)

lemma parseredirs_pr:
  assumes "\<forall>x \<in> set rds. wf_redir x" "r = [] \<or> hd r \<notin> {60, 62}" "skip r = r" "length rds \<le> fuel"
  shows "\<exists>t'. parseredirs fuel t (concat (map pr_redir rds) @ r) = Ok (t', r) \<and> map_cmd token t' = redir_chain (map_cmd token t) rds"
  using assms(1,4)
proof (induction rds arbitrary: t fuel)
  case Nil
  show ?case using parseredirs_none [OF assms(3,2)] by (simp add: redir_chain_def)
next
  case (Cons x rds)
  obtain f m fd where x: "x = (f, m, fd)" by (cases x)
  obtain k where k: "fuel = Suc k" "length rds \<le> k" using Cons.prems(2) by (cases fuel) auto
  define r' where "r' = concat (map pr_redir rds) @ r"
  have f: "wf_word f" "(m, fd) \<in> {(0, 0), (0x201, 1)}" using Cons.prems(1) x by (auto simp: wf_redir_def)
  have s: "skip r' = r'" unfolding r'_def using assms(3) by (cases rds) (simp_all add: skip_redir)
  define o' :: byte where "o' = (if fd = 0 then 60 else 62)"
  have g: "gettoken (o' # f @ 32 # r') = (o', (o' # f @ 32 # r', f @ 32 # r'), f @ 32 # r')"
    using gettoken_symbol [of 60, OF _ skip_word [OF f(1)]] gettoken_greater [OF f(1)] by (simp add: o'_def)
  have e: "concat (map pr_redir (x # rds)) @ r = o' # f @ 32 # r'" by (simp add: x pr_redir_def o'_def r'_def)
  have sk: "skip (o' # f @ 32 # r') = o' # f @ 32 # r'" by (simp add: skip_Cons o'_def whitespace_def)
  have ro: "map_cmd token (redir_of o' t (f @ 32 # r', 32 # r')) = REDIR (map_cmd token t) f m fd"
    using f(2) by (auto simp: redir_of_def o'_def token_def)
  obtain t' where t': "parseredirs k (redir_of o' t (f @ 32 # r', 32 # r')) r' = Ok (t', r)"
    "map_cmd token t' = redir_chain (map_cmd token (redir_of o' t (f @ 32 # r', 32 # r'))) rds" using Cons.IH [of k] Cons.prems(1) k(2) unfolding r'_def by fastforce
  have "parseredirs fuel t (o' # f @ 32 # r') = Ok (t', r)"
    using t'(1) g gettoken_word [OF f(1) s] sk k(1) by (simp add: parseredirs.simps [of "Suc k"] peek_eq o'_def)
  then show ?case using t'(2) unfolding e ro by (simp add: redir_chain_def x)
qed

lemma parseargs_end: "follow {124, 41, 38, 59} r \<Longrightarrow> parseargs fuel argc t r = Ok (t, r)"
  by (cases r) (auto simp: parseargs.simps [of fuel] peek_eq skip_follow gettoken_end follow_def)

lemma parseargs_pr:
  assumes "as \<noteq> []" "\<forall>w \<in> set as. wf_word w" "argc + length as < MAXARGS" "\<forall>x \<in> set rds. wf_redir x" "follow {124, 41, 38, 59} r" "length as \<le> fuel"
  shows "\<exists>t'. parseargs fuel argc (EXEC ts) (pr_words as @ concat (map pr_redir rds) @ r) = Ok (t', r) \<and> map_cmd token t' = redir_chain (EXEC (map token ts @ as)) rds"
  using assms(1,2,3,6)
proof (induction as arbitrary: argc ts fuel)
  case (Cons w as)
  obtain k where k: "fuel = Suc k" "length as \<le> k" using Cons.prems(4) by (cases fuel) auto
  define r' where "r' = pr_words as @ concat (map pr_redir rds) @ r"
  have w: "wf_word w" using Cons.prems(2) by simp
  have "skip (concat (map pr_redir rds) @ r) = concat (map pr_redir rds) @ r" using skip_follow [OF assms(5)] by (cases rds) (simp_all add: skip_redir)
  then have s: "skip r' = r'" unfolding r'_def using Cons.prems(2) by (intro skip_words) simp_all
  have e: "pr_words (w # as) @ concat (map pr_redir rds) @ r = w @ 32 # r'" by (simp add: pr_words_def r'_def)
  have sk: "skip (w @ 32 # r') = w @ 32 # r'" by (rule skip_word [OF w])
  have hd: "hd (w @ 32 # r') \<notin> {124, 41, 38, 59}" using w by (cases w) (auto simp: wf_word_def word_char_def symbols_def)
  have run: "parseargs fuel argc (EXEC ts) (w @ 32 # r') =
      rbind (parseredirs (length r') (EXEC (ts @ [(w @ 32 # r', 32 # r')])) r') (\<lambda>(ret1, s2). parseargs k (argc + 1) ret1 s2)"
    using gettoken_word [OF w s] sk hd Cons.prems(3) k(1) by (simp add: parseargs.simps [of "Suc k"] peek_eq)
  show ?case
  proof (cases "as = []")
    case True
    have "length (concat (map pr_redir rds)) \<ge> length rds" by (induction rds) (auto simp: pr_redir_def)
    then have l: "length rds \<le> length r'" by (simp add: r'_def)
    have h: "r = [] \<or> hd r \<notin> {60, 62}" using assms(5) by (auto simp: follow_def)
    have rr: "concat (map pr_redir rds) @ r = r'" by (simp add: r'_def True pr_words_def)
    obtain t' where "parseredirs (length r') (EXEC (ts @ [(w @ 32 # r', 32 # r')])) r' = Ok (t', r)"
      "map_cmd token t' = redir_chain (map_cmd token (EXEC (ts @ [(w @ 32 # r', 32 # r')]))) rds"
      using parseredirs_pr [OF assms(4) h skip_follow [OF assms(5)] l, unfolded rr] by blast
    then show ?thesis unfolding e run using parseargs_end [OF assms(5)] True by (simp add: token_def)
  next
    case False
    then obtain v as' where v: "as = v # as'" by (cases as) auto
    have "wf_word v" using Cons.prems(2) v by simp
    then have "hd r' \<notin> {60, 62}" by (cases v) (auto simp: r'_def v pr_words_def wf_word_def word_char_def symbols_def)
    then have "parseredirs (length r') t r' = Ok (t, r')" for t using s by (intro parseredirs_none) simp_all
    then show ?thesis unfolding e run using Cons.IH [OF False, of "argc + 1" k "ts @ [(w @ 32 # r', 32 # r')]"] Cons.prems(2,3) k(2)
      by (simp add: r'_def [symmetric] token_def)
  qed
qed simp


subsection \<open>The grammar\<close>

definition right :: "byte list cmd \<Rightarrow> cptr \<Rightarrow> ((cptr \<times> cptr) cmd \<times> cptr) res \<Rightarrow> bool" where
  "right c r x \<longleftrightarrow> x = Diverge \<or> (\<exists>t. x = Ok (t, r) \<and> map_cmd token t = c)"

definition line_head :: "nat \<Rightarrow> cptr \<Rightarrow> ((cptr \<times> cptr) cmd \<times> cptr) res" where
  "line_head f ps = rbind (parsepipe f ps) (\<lambda>(cmd, s). parsebacks (length s) cmd s)"

lemma parseline_head:
  "parseline (Suc f) ps = rbind (line_head f ps) (\<lambda>(cmd1, s1).
     let (s2, more) = peek s1 {59} in
     if more then let (_, _, s3) = gettoken s2 in rbind (parseline f s3) (\<lambda>(cmd2, s4). Ok (LIST cmd1 cmd2, s4)) else Ok (cmd1, s2))"
  by (cases "parsepipe f ps") (auto simp: line_head_def)

definition ok_exec :: "byte list cmd \<Rightarrow> bool" where
  "ok_exec c \<longleftrightarrow> (\<forall>f r. follow {124, 41, 38, 59} r \<longrightarrow> right c r (parseexec f (pr 3 c @ r)))"

definition ok_pipe :: "byte list cmd \<Rightarrow> bool" where
  "ok_pipe c \<longleftrightarrow> (\<forall>f r. follow {41, 38, 59} r \<longrightarrow> right c r (parsepipe f (pr 2 c @ r)))"

definition ok_back :: "byte list cmd \<Rightarrow> bool" where
  "ok_back c \<longleftrightarrow> (\<forall>f r. follow {41, 38, 59} r \<longrightarrow>
     line_head f (pr 1 c @ r) = Diverge \<or> (\<exists>t k. map_cmd token t = c \<and> length r \<le> k \<and> line_head f (pr 1 c @ r) = parsebacks k t r))"

definition ok_line :: "byte list cmd \<Rightarrow> bool" where
  "ok_line c \<longleftrightarrow> (\<forall>f r. follow {41} r \<longrightarrow> right c r (parseline f (pr 0 c @ r)))"

lemma rightE:
  assumes "right c r x"
  obtains "x = Diverge" | t where "x = Ok (t, r)" "map_cmd token t = c"
  using assms by (auto simp: right_def)

lemma pipe_of_exec:
  assumes "ok_exec c" "pr 2 c = pr 3 c"
  shows "ok_pipe c"
  unfolding ok_pipe_def
proof (intro allI impI)
  fix f r
  assume r: "follow {41, 38, 59} r"
  have h: "skip r = [] \<or> hd (skip r) \<notin> {124}" "skip r = r" using r skip_follow [OF follow_mono [OF r]] by (auto simp: follow_def)
  show "right c r (parsepipe f (pr 2 c @ r))"
  proof (cases f)
    case (Suc k)
    have "right c r (parseexec k (pr 3 c @ r))" using assms(1) follow_mono [OF r] by (simp add: ok_exec_def)
    then show ?thesis using Suc h assms(2) by (cases rule: rightE) (auto simp: right_def peek_eq)
  qed (simp add: right_def)
qed

lemma back_of_pipe:
  assumes "ok_pipe c" "pr 1 c = pr 2 c"
  shows "ok_back c"
  unfolding ok_back_def
proof (intro allI impI)
  fix f r
  assume "follow {41, 38, 59} r"
  then have "right c r (parsepipe f (pr 1 c @ r))" using assms by (simp add: ok_pipe_def)
  then show "line_head f (pr 1 c @ r) = Diverge \<or> (\<exists>t k. map_cmd token t = c \<and> length r \<le> k \<and> line_head f (pr 1 c @ r) = parsebacks k t r)"
    by (cases rule: rightE) (auto simp: line_head_def)
qed

lemma parsebacks_end: "follow {41, 59} r \<Longrightarrow> parsebacks k t r = Ok (t, r)"
  using skip_follow [OF follow_mono, of "{41, 59}" r] by (auto simp: parsebacks.simps [of k] peek_eq follow_def)

lemma line_of_back:
  assumes "ok_back c" "pr 0 c = pr 1 c"
  shows "ok_line c"
  unfolding ok_line_def
proof (intro allI impI)
  fix f r
  assume r: "follow {41} r"
  have h: "skip r = [] \<or> hd (skip r) \<notin> {59}" "skip r = r" using r skip_follow [OF follow_mono [OF r]] by (auto simp: follow_def)
  show "right c r (parseline f (pr 0 c @ r))"
  proof (cases f)
    case (Suc k)
    have "line_head k (pr 0 c @ r) = Diverge \<or> (\<exists>t. map_cmd token t = c \<and> line_head k (pr 0 c @ r) = Ok (t, r))"
      using assms(1) [unfolded ok_back_def, rule_format, OF follow_mono [OF r], of k] parsebacks_end [OF follow_mono [OF r]] by (auto simp: assms(2))
    then show ?thesis using Suc h by (auto simp: parseline_head right_def peek_eq simp del: parseline.simps)
  qed (simp add: right_def)
qed


text \<open>A command is redirections around a command that is not one.\<close>

fun base :: "'s cmd \<Rightarrow> 's cmd" where
  "base (REDIR c f m fd) = base c"
| "base c = c"

fun redirs :: "'s cmd \<Rightarrow> ('s \<times> 32 word \<times> nat) list" where
  "redirs (REDIR c f m fd) = redirs c @ [(f, m, fd)]"
| "redirs c = []"

lemma redir_chain_base: "redir_chain (base c) (redirs c) = c"
  by (induction c) (auto simp: redir_chain_def)

lemma pr_base: "pr 3 c = pr 3 (base c) @ concat (map pr_redir (redirs c))"
  by (induction c) auto

lemma wf_base: "wf_cmd c \<Longrightarrow> wf_cmd (base c) \<and> (\<forall>x \<in> set (redirs c). wf_redir x)"
  by (induction c) auto

lemma length_redirs: "length rds \<le> length (concat (map pr_redir rds) @ r)"
  by (induction rds) (auto simp: pr_redir_def)

lemma exec_of_words:
  assumes "wf_cmd c" "base c = EXEC as"
  shows "ok_exec c"
  unfolding ok_exec_def
proof (intro allI impI)
  fix f r
  assume r: "follow {124, 41, 38, 59} r"
  let ?rd = "concat (map pr_redir (redirs c)) @ r"
  have wf: "\<forall>w \<in> set as. wf_word w" "length as < MAXARGS" "\<forall>x \<in> set (redirs c). wf_redir x" using wf_base [OF assms(1)] assms(2) by auto
  have p: "pr 3 c @ r = pr_words as @ ?rd" by (subst pr_base) (simp add: assms(2))
  have srd: "skip ?rd = ?rd" using skip_follow [OF r] by (cases "redirs c") (simp_all add: skip_redir)
  then have sk: "skip (pr_words as @ ?rd) = pr_words as @ ?rd" using wf(1) by (intro skip_words)
  have h: "r = [] \<or> hd r \<notin> {60, 62}" using r by (auto simp: follow_def)
  have c: "redir_chain (EXEC as) (redirs c) = c" using redir_chain_base [of c] assms(2) by simp
  show "right c r (parseexec f (pr 3 c @ r))"
  proof (cases f)
    case (Suc k)
    show ?thesis
    proof (cases as)
      case Nil
      have nb: "?rd = [] \<or> hd ?rd \<noteq> 40" using r by (cases "redirs c") (auto simp: pr_redir_def follow_def split: prod.splits)
      obtain t where "parseredirs (length ?rd) (EXEC []) ?rd = Ok (t, r)" "map_cmd token t = redir_chain (map_cmd token (EXEC [])) (redirs c)"
        using parseredirs_pr [OF wf(3) h skip_follow [OF r] length_redirs] by blast
      then have "parseexec f (pr 3 c @ r) = Ok (t, r)" "map_cmd token t = c"
        using Suc nb srd Nil c parseargs_end [OF r] unfolding p by (auto simp: peek_eq pr_words_def)
      then show ?thesis by (simp add: right_def)
    next
      case (Cons w as')
      let ?s = "pr_words as @ ?rd"
      have hd: "hd ?s \<notin> {40, 60, 62}" "?s \<noteq> []"
        using wf(1) Cons by (cases w; auto simp: pr_words_def wf_word_def word_char_def symbols_def)+
      then have "parseredirs (length ?s) (EXEC []) ?s = Ok (EXEC [], ?s)" using sk by (intro parseredirs_none) simp_all
      moreover have "length as \<le> length (pr_words as)" by (induction as) (auto simp: pr_words_def)
      then have la: "length as \<le> length ?s" by simp
      have "as \<noteq> []" "0 + length as < MAXARGS" using Cons wf(2) by simp_all
      then obtain t where "parseargs (length ?s) 0 (EXEC []) ?s = Ok (t, r)" "map_cmd token t = redir_chain (EXEC (map token [] @ as)) (redirs c)"
        using parseargs_pr [OF _ wf(1) _ wf(3) r la, of 0 "[]"] by blast
      ultimately have "parseexec f ?s = Ok (t, r)" "map_cmd token t = c" using Suc sk hd c by (auto simp: peek_eq)
      then show ?thesis unfolding p by (simp add: right_def)
    qed
  qed (simp add: right_def)
qed

lemma exec_of_block:
  assumes "wf_cmd c" "ok_line (base c)" "pr 3 (base c) = 40 # pr 0 (base c) @ [41]"
  shows "ok_exec c"
  unfolding ok_exec_def
proof (intro allI impI)
  fix f r
  assume r: "follow {124, 41, 38, 59} r"
  let ?rd = "concat (map pr_redir (redirs c)) @ r"
  have wf: "wf_cmd (base c)" "\<forall>x \<in> set (redirs c). wf_redir x" using wf_base [OF assms(1)] by auto
  have p: "pr 3 c @ r = 40 # pr 0 (base c) @ 41 # ?rd" by (subst pr_base) (simp add: assms(3))
  have srd: "skip ?rd = ?rd" using skip_follow [OF r] by (cases "redirs c") (simp_all add: skip_redir)
  have s41: "skip (41 # ?rd) = 41 # ?rd" by (simp add: skip_Cons whitespace_def)
  have sb: "skip (pr 0 (base c) @ 41 # ?rd) = pr 0 (base c) @ 41 # ?rd" by (rule skip_pr [OF wf(1) s41])
  have s40: "skip (40 # x) = 40 # x" for x by (simp add: skip_Cons whitespace_def)
  have h: "r = [] \<or> hd r \<notin> {60, 62}" using r by (auto simp: follow_def)
  note g = gettoken_symbol [of 40, OF _ sb] gettoken_symbol [of 41, OF _ srd]
  show "right c r (parseexec f (pr 3 c @ r))"
  proof (cases f)
    case (Suc k)
    show ?thesis
    proof (cases k)
      case 0
      then show ?thesis using Suc unfolding p by (simp add: peek_eq s40 right_def)
    next
      case (Suc j)
      have run: "parseexec f (pr 3 c @ r) = rbind (parseline j (pr 0 (base c) @ 41 # ?rd)) (\<lambda>(cmd, s2).
        let (s3, close_paren) = peek s2 {41} in
        if \<not> close_paren then Panic ''syntax - missing )''
        else let (_, _, s4) = gettoken s3 in parseredirs (length s4) cmd s4)"
        unfolding p \<open>f = Suc k\<close> Suc using g(1) by (simp add: peek_eq s40 del: parseline.simps)
      have "right (base c) (41 # ?rd) (parseline j (pr 0 (base c) @ 41 # ?rd))" using assms(2) by (simp add: ok_line_def)
      then show ?thesis
      proof (cases rule: rightE)
        case 1
        then show ?thesis unfolding run by (simp add: right_def)
      next
        case (2 t)
        obtain t' where t': "parseredirs (length ?rd) t ?rd = Ok (t', r)" "map_cmd token t' = redir_chain (map_cmd token t) (redirs c)"
          using parseredirs_pr [OF wf(2) h skip_follow [OF r] length_redirs] by blast
        then show ?thesis unfolding run 2(1) using g(2) 2(2) redir_chain_base [of c] s41 by (simp add: peek_eq right_def)
      qed
    qed
  qed (simp add: right_def)
qed


lemma pipe_of_pipe:
  assumes "ok_exec a" "ok_pipe b" "wf_cmd b"
  shows "ok_pipe (PIPE a b)"
  unfolding ok_pipe_def
proof (intro allI impI)
  fix f r
  assume r: "follow {41, 38, 59} r"
  have s: "skip (pr 2 b @ r) = pr 2 b @ r" by (rule skip_pr [OF assms(3) skip_follow [OF follow_mono [OF r]]]) simp
  show "right (PIPE a b) r (parsepipe f (pr 2 (PIPE a b) @ r))"
  proof (cases f)
    case (Suc k)
    have a: "right a (124 # pr 2 b @ r) (parseexec k (pr 3 a @ 124 # pr 2 b @ r))" using assms(1) by (simp add: ok_exec_def)
    have b: "right b r (parsepipe k (pr 2 b @ r))" using assms(2) r by (simp add: ok_pipe_def)
    have g: "gettoken (124 # pr 2 b @ r) = (124, (124 # pr 2 b @ r, pr 2 b @ r), pr 2 b @ r)" by (rule gettoken_symbol [OF _ s]) simp
    have s124: "skip (124 # pr 2 b @ r) = 124 # pr 2 b @ r" by (simp add: skip_Cons whitespace_def)
    show ?thesis using a b g s124 Suc by (auto simp: right_def peek_eq paren_def)
  qed (simp add: right_def)
qed

lemma back_of_back:
  assumes "ok_back a"
  shows "ok_back (BACK a)"
  unfolding ok_back_def
proof (intro allI impI)
  fix f r
  assume r: "follow {41, 38, 59} r"
  have sr: "skip r = r" by (rule skip_follow [OF follow_mono [OF r]]) simp
  have p: "pr 1 (BACK a) @ r = pr 1 a @ 38 # r" by (simp add: paren_def)
  have step: "parsebacks (Suc k) t (38 # r) = parsebacks k (BACK t) r" for k t
    using gettoken_symbol [of 38, OF _ sr] by (simp add: parsebacks.simps [of "Suc k"] peek_eq skip_Cons whitespace_def)
  have "line_head f (pr 1 a @ 38 # r) = Diverge \<or> (\<exists>t k. map_cmd token t = a \<and> length (38 # r) \<le> k \<and> line_head f (pr 1 a @ 38 # r) = parsebacks k t (38 # r))"
    using assms unfolding ok_back_def by (metis follow_Cons insertCI)
  then show "line_head f (pr 1 (BACK a) @ r) = Diverge \<or>
      (\<exists>t k. map_cmd token t = BACK a \<and> length r \<le> k \<and> line_head f (pr 1 (BACK a) @ r) = parsebacks k t r)"
  proof
    assume "\<exists>t k. map_cmd token t = a \<and> length (38 # r) \<le> k \<and> line_head f (pr 1 a @ 38 # r) = parsebacks k t (38 # r)"
    then obtain t k where t: "map_cmd token t = a" "length (38 # r) \<le> k" "line_head f (pr 1 a @ 38 # r) = parsebacks k t (38 # r)" by blast
    then obtain j where j: "k = Suc j" "length r \<le> j" by (cases k) auto
    then have "line_head f (pr 1 (BACK a) @ r) = parsebacks j (BACK t) r" using t(3) step unfolding p by simp
    then show ?thesis using t(1) j(2) by (intro disjI2 exI [of _ "BACK t"] exI [of _ j]) simp
  qed (simp add: paren_def)
qed

lemma line_of_list:
  assumes "ok_back a" "ok_line b" "wf_cmd b"
  shows "ok_line (LIST a b)"
  unfolding ok_line_def
proof (intro allI impI)
  fix f r
  assume r: "follow {41} r"
  have s: "skip (pr 0 b @ r) = pr 0 b @ r" by (rule skip_pr [OF assms(3) skip_follow [OF follow_mono [OF r]]]) simp
  have s59: "skip (59 # pr 0 b @ r) = 59 # pr 0 b @ r" by (simp add: skip_Cons whitespace_def)
  have g: "gettoken (59 # pr 0 b @ r) = (59, (59 # pr 0 b @ r, pr 0 b @ r), pr 0 b @ r)" by (rule gettoken_symbol [OF _ s]) simp
  show "right (LIST a b) r (parseline f (pr 0 (LIST a b) @ r))"
  proof (cases f)
    case (Suc k)
    have p: "pr 0 (LIST a b) @ r = pr 1 a @ 59 # pr 0 b @ r" by (simp add: paren_def)
    have "follow {41, 38, 59} (59 # pr 0 b @ r)" by simp
    note a = assms(1) [unfolded ok_back_def, rule_format, OF this, of k]
    have pb: "parsebacks j t (59 # pr 0 b @ r) = Ok (t, 59 # pr 0 b @ r)" for j t by (rule parsebacks_end) simp
    have b: "right b r (parseline k (pr 0 b @ r))" using assms(2) r by (simp add: ok_line_def)
    consider "line_head k (pr 1 a @ 59 # pr 0 b @ r) = Diverge" | t where "line_head k (pr 1 a @ 59 # pr 0 b @ r) = Ok (t, 59 # pr 0 b @ r)" "map_cmd token t = a"
      using a pb by metis
    then show ?thesis using b g s59 unfolding Suc p by cases (auto simp: parseline_head right_def peek_eq simp del: parseline.simps)
  qed (simp add: right_def)
qed

lemma exec_levels: "ok_exec c \<Longrightarrow> pr 2 c = pr 3 c \<Longrightarrow> pr 1 c = pr 2 c \<Longrightarrow> pr 0 c = pr 1 c \<Longrightarrow> ok_pipe c \<and> ok_back c \<and> ok_line c"
  using pipe_of_exec back_of_pipe line_of_back by blast

definition is_block :: "byte list cmd \<Rightarrow> bool" where
  "is_block c \<longleftrightarrow> (\<exists>as. c = EXEC as) \<or> ok_line c \<and> pr 3 c = 40 # pr 0 c @ [41]"

lemma exec_of_base: "wf_cmd c \<Longrightarrow> is_block (base c) \<Longrightarrow> ok_exec c"
  unfolding is_block_def using exec_of_words exec_of_block by blast

lemma block_levels:
  assumes "wf_cmd c" "base c = c" "ok_line c" "pr 3 c = 40 # pr 0 c @ [41]"
  shows "ok_exec c \<and> is_block (base c)"
  using exec_of_base [OF assms(1)] assms unfolding is_block_def by auto

lemma grammar: "wf_cmd c \<Longrightarrow> ok_exec c \<and> ok_pipe c \<and> ok_back c \<and> ok_line c \<and> is_block (base c)"
proof (induction c)
  case (EXEC as)
  then have "is_block (base (EXEC as))" by (simp add: is_block_def)
  then have "ok_exec (EXEC as)" using EXEC by (intro exec_of_base)
  then show ?case using exec_levels [of "EXEC as"] \<open>is_block (base (EXEC as))\<close> by simp
next
  case (REDIR c f m fd)
  then have "is_block (base (REDIR c f m fd))" by simp
  then have "ok_exec (REDIR c f m fd)" using REDIR.prems by (intro exec_of_base)
  then show ?case using exec_levels [of "REDIR c f m fd"] \<open>is_block (base (REDIR c f m fd))\<close> by simp
next
  case (PIPE a b)
  then have p: "ok_pipe (PIPE a b)" using pipe_of_pipe by simp
  then have b: "ok_back (PIPE a b)" by (rule back_of_pipe) (simp add: paren_def)
  then have l: "ok_line (PIPE a b)" by (rule line_of_back) (simp add: paren_def)
  have "ok_exec (PIPE a b) \<and> is_block (base (PIPE a b))" using PIPE.prems l by (intro block_levels) (simp_all add: paren_def)
  then show ?case using p b l by blast
next
  case (LIST a b)
  then have l: "ok_line (LIST a b)" using line_of_list by simp
  have e: "ok_exec (LIST a b) \<and> is_block (base (LIST a b))" using LIST.prems l by (intro block_levels) (simp_all add: paren_def)
  then have p: "ok_pipe (LIST a b)" by (intro pipe_of_exec) (simp_all add: paren_def)
  then have "ok_back (LIST a b)" by (rule back_of_pipe) (simp add: paren_def)
  then show ?case using e p l by blast
next
  case (BACK a)
  then have b: "ok_back (BACK a)" using back_of_back by simp
  then have l: "ok_line (BACK a)" by (rule line_of_back) (simp add: paren_def)
  have e: "ok_exec (BACK a) \<and> is_block (base (BACK a))" using BACK.prems l by (intro block_levels) (simp_all add: paren_def)
  then have "ok_pipe (BACK a)" by (intro pipe_of_exec) (simp_all add: paren_def)
  then show ?case using e b l by blast
qed

subsection \<open>Properties\<close>

lemma pr_nonzero: "wf_cmd c \<Longrightarrow> 0 \<notin> set (pr l c)"
proof (induction c arbitrary: l)
  case (EXEC as)
  then show ?case by (auto simp: pr_words_def wf_word_def)
next
  case (REDIR c f m fd)
  then show ?case by (auto simp: pr_redir_def wf_redir_def wf_word_def)
qed (auto simp: paren_def)

lemma parsecmd_stops: "parsecmd line \<noteq> Diverge"
  using parse_stops(1) [of line "4 * length line + 4"] by (auto simp: parsecmd_def rbind_Diverge peek_eq)

lemma parsecmd_strings:
  assumes "parsecmd line = Ok (t, buf)" "0 \<notin> set line" "x \<in> set_cmd t"
  shows "cstring_at buf (fst x) = token x"
proof -
  obtain s where p: "parseline (4 * length line + 4) line = Ok (t, s)" and b: "buf = nulterminate t (line @ [0])"
    using assms(1) by (auto simp: parsecmd_def rbind_Ok_iff peek_eq split: if_splits)
  have "\<forall>x \<in> set_cmd t. tok_ok line x" using parse_parsed(1) [of line "4 * length line + 4"] p by auto
  then show ?thesis unfolding b using cstring_token [of t line "fst x" "snd x"] assms(2,3) by simp
qed

text \<open>C35. The shell parses what it is given and understands what it is told. On every line the parser comes to an end, with a command or a syntax error, and every string of
  a command it delivers is, once the ends of strings have been cut with null bytes, exactly the token it was read from. And parsing is the inverse of printing: the
  text of any command, with pipelines, background commands, lists, redirections and nested blocks, is parsed to that command.\<close>

theorem parsecmd_correct:
  assumes "wf_cmd c" "0 \<notin> set line"
  shows "parsecmd line \<noteq> Diverge \<and> (\<forall>t buf x. parsecmd line = Ok (t, buf) \<longrightarrow> x \<in> set_cmd t \<longrightarrow> cstring_at buf (fst x) = token x) \<and>
    (\<exists>t buf. parsecmd (pr 0 c) = Ok (t, buf) \<and> map_cmd (\<lambda>x. cstring_at buf (fst x)) t = c)"
proof -
  let ?n = "4 * length (pr 0 c) + 4"
  have "right c [] (parseline ?n (pr 0 c @ []))" using grammar [OF assms(1)] by (simp add: ok_line_def follow_def)
  then obtain t where t: "parseline ?n (pr 0 c) = Ok (t, [])" "map_cmd token t = c"
    using parse_stops(1) [of "pr 0 c" ?n] by (auto simp: right_def)
  define buf where "buf = nulterminate t (pr 0 c @ [0])"
  have p: "parsecmd (pr 0 c) = Ok (t, buf)" using t(1) by (simp add: parsecmd_def peek_eq skip_def buf_def)
  have "map_cmd (\<lambda>x. cstring_at buf (fst x)) t = map_cmd token t"
    using parsecmd_strings [OF p pr_nonzero [OF assms(1)]] by (intro cmd.map_cong) simp_all
  then show ?thesis using p t(2) parsecmd_stops [of line] parsecmd_strings [OF _ assms(2)] by blast
qed

text \<open>The line \<^verbatim>\<open>(ls |wc >f )>g ;a &\<close>.\<close>

theorem parsecmd_correct_witness:
  "\<exists>t buf. parsecmd [40, 108, 115, 32, 124, 119, 99, 32, 62, 102, 32, 41, 62, 103, 32, 59, 97, 32, 38] = Ok (t, buf) \<and>
     map_cmd (\<lambda>x. cstring_at buf (fst x)) t =
       LIST (REDIR (PIPE (EXEC [[108, 115]]) (REDIR (EXEC [[119, 99]]) [102] 0x201 1)) [103] 0x201 1) (BACK (EXEC [[97]]))"
proof -
  let ?c = "LIST (REDIR (PIPE (EXEC [[108, 115]]) (REDIR (EXEC [[119, 99]]) [102] 0x201 1)) [103] 0x201 1) (BACK (EXEC [[97]])) :: byte list cmd"
  have "pr 0 ?c = [40, 108, 115, 32, 124, 119, 99, 32, 62, 102, 32, 41, 62, 103, 32, 59, 97, 32, 38]"
    by (simp add: paren_def pr_words_def pr_redir_def)
  moreover have "wf_cmd ?c" by (simp add: wf_word_def wf_redir_def word_char_def whitespace_def symbols_def MAXARGS_def)
  ultimately show ?thesis using parsecmd_correct [of ?c "[]"] by simp
qed

end
