(* ===== verification/Spec2Isabelle.thy ===== *)
theory Spec2Isabelle
  imports TableProps RoundRobin Ulib Pipe LogProps Ide VmProps VmTerm FsProps ConsoleProps ProcProps SyscallProps Trap Grep Umalloc ShellProps
begin

text \<open>
  A verification of xv6-pdx, the teaching operating system of \<^verbatim>\<open>src/CS333/xv6-pdx\<close>: a Unix-like kernel in C with a multi-level feedback queue scheduler and file
  protection, and some of its user programs. The configuration is \<^verbatim>\<open>CS333_PROJECT = 5\<close>. \<^verbatim>\<open>MAXPRIO\<close> is 0 in the sources; the scheduler is proved for every
  value of it, the parameter \<open>mp\<close>. File names below are relative to that directory.

  \<^bold>\<open>Parts and how they interact.\<close> A trap enters the kernel (\<^verbatim>\<open>trap.c\<close>) and dispatches to a device handler or a system call (\<^verbatim>\<open>syscall.c\<close>,
  \<^verbatim>\<open>sysproc.c\<close>, \<^verbatim>\<open>sysfile.c\<close>, \<^verbatim>\<open>exec.c\<close>). Process calls work on the process table (\<^verbatim>\<open>proc.c\<close>), whose processes are on one list per state, guarded by
  a spin lock (\<^verbatim>\<open>spinlock.c\<close>), and on their page tables (\<^verbatim>\<open>vm.c\<close>), made of pages of the page allocator (\<^verbatim>\<open>kalloc.c\<close>). File calls go through open
  files (\<^verbatim>\<open>file.c\<close>) to pipes (\<^verbatim>\<open>pipe.c\<close>), the console (\<^verbatim>\<open>console.c\<close>) or the file system (\<^verbatim>\<open>fs.c\<close>), which writes through the log
  (\<^verbatim>\<open>log.c\<close>) into the buffer cache (\<^verbatim>\<open>bio.c\<close>) over the disk driver (\<^verbatim>\<open>ide.c\<close>, or \<^verbatim>\<open>memide.c\<close> with a disk in memory).

  \<^bold>\<open>How code becomes definitions.\<close> A struct is a \<^verbatim>\<open>record\<close>; a larger state extends the records of the layers it contains (buffer cache, log, file system,
  console, open files; the process table with all of them is the record \<open>kernel\<close>), so that the operations of a layer run unchanged on the larger state. A C function is one
  definition of the same name, its loops are functions of their own. The result type \<open>res\<close> has a constructor for every way C code can end: it returns (\<open>Ok\<close>),
  panics, dereferences null, spins on a lock, sleeps, loops for ever, or leaves the object it works on. \<^verbatim>\<open>sleep\<close> and \<^verbatim>\<open>sched\<close> leave the processor: the
  operation ends there, and a definition \<open>..._resume\<close> is the code after it. Calls of \<^verbatim>\<open>wakeup\<close> in the lower layers are recorded in the state and carried out on
  the process table by the kernel. A lock that is held over a whole section makes the section one step. 32-bit quantities that can overflow are words, or numbers with the
  remainder written out. Memory is a function from 32-bit addresses to bytes, and page tables, the free list of pages and the blocks of the disk are read and written in it at
  the level of bytes.

  \<^bold>\<open>Theories.\<close>
  \<^item> \<open>Prelude\<close>: the outcomes, pointer chains, the collections of rewrite rules. \<open>Memory\<close>, \<open>CString\<close>: \<^verbatim>\<open>string.c\<close>. \<open>Spinlock\<close>: \<^verbatim>\<open>spinlock.c\<close>.
  \<^item> \<open>StateList\<close>: the linked state lists of \<^verbatim>\<open>proc.c\<close> and the locale \<open>state_lists\<close>, the contract of the lists, interpreted on the pointer code. \<open>Ptable\<close>: the
    process table and the scheduler. \<open>TableInv\<close>, \<open>TableOps\<close>, \<open>SchedOps\<close>: the invariant \<open>table_ok\<close> and the effect of each operation. \<open>TableProps\<close>: the properties of
    \<^verbatim>\<open>yield\<close>, \<^verbatim>\<open>sleep\<close>, \<^verbatim>\<open>wakeup\<close>, \<^verbatim>\<open>kill\<close>, \<^verbatim>\<open>setpriority\<close>, promotion and the scheduler. \<open>RoundRobin\<close>: the scheduler composed with running processes;
    every ready process gets the processor. \<open>Classic\<close>: the code without lists and its equivalence with the code with lists.
  \<^item> \<open>Kalloc\<close>: \<^verbatim>\<open>kalloc.c\<close> and the locale \<open>page_allocator\<close>, interpreted on it. \<open>Vm\<close>: \<^verbatim>\<open>vm.c\<close>. \<open>VmInv\<close>, \<open>VmOps\<close>, \<open>VmCopy\<close>, \<open>VmFree\<close>, \<open>VmProps\<close>: every
    operation by its effect on the entry for each address, the memory a process sees and the pages that are free. \<open>VmTerm\<close>: the loops stop on any memory, and how.
  \<^item> \<open>Bio\<close>: \<^verbatim>\<open>bio.c\<close> and \<^verbatim>\<open>memide.c\<close>. \<open>Ide\<close>: \<^verbatim>\<open>ide.c\<close>; the interrupt-driven driver refines the synchronous one of \<open>Bio\<close>, over any order of requests and
    completions. \<open>Log\<close>, \<open>LogCrash\<close>, \<open>LogAdmit\<close>, \<open>LogProps\<close>: \<^verbatim>\<open>log.c\<close>; commits are atomic under a crash at any disk write, and admitted operations find room.
  \<^item> \<open>Fs\<close>: \<^verbatim>\<open>fs.c\<close>. \<open>FsBlk\<close>, \<open>FsFile\<close>, \<open>FsMap\<close>, \<open>FsRw\<close>, \<open>FsInode\<close>, \<open>FsProps\<close>: the block allocator; what is written to a file is read back, and other files do not change.
  \<^item> \<open>Pipe\<close>: \<^verbatim>\<open>pipe.c\<close> with the locale \<open>bounded_fifo\<close>, interpreted on the ring buffer; a pipe is a queue of bytes. \<open>Console\<close>, \<open>ConsoleProps\<close>: \<^verbatim>\<open>console.c\<close>;
    line editing refines operations on two lists. \<open>Kbd\<close>: \<^verbatim>\<open>kbd.c\<close>. \<open>File\<close>: \<^verbatim>\<open>file.c\<close>.
  \<^item> \<open>Kernel\<close>: the whole state, and the life of a process in \<^verbatim>\<open>proc.c\<close>. \<open>ProcOps\<close>, \<open>ForkOps\<close>, \<open>ProcMem\<close>, \<open>ProcProps\<close>: \<^verbatim>\<open>fork\<close>, \<^verbatim>\<open>exit\<close> and \<^verbatim>\<open>wait\<close>
    on the process table, the open files and the memory. \<open>Syscall\<close>, \<open>SyscallProps\<close>: \<^verbatim>\<open>syscall.c\<close>, \<^verbatim>\<open>sysproc.c\<close>; what the argument fetching lets through.
    \<open>SysFile\<close>, \<open>Exec\<close>, \<open>Trap\<close>: \<^verbatim>\<open>sysfile.c\<close>, \<^verbatim>\<open>exec.c\<close>, \<^verbatim>\<open>trap.c\<close> and the listings of \<^verbatim>\<open>procdump.c\<close>.
  \<^item> \<open>Ulib\<close>: \<^verbatim>\<open>ulib.c\<close>. \<open>Umalloc\<close>: \<^verbatim>\<open>umalloc.c\<close>; allocations are large enough and disjoint, and no byte of the heap is lost. \<open>Grep\<close>: \<^verbatim>\<open>grep.c\<close>; the
    matcher decides the language of the expression. \<open>Shell\<close>, \<open>ShellProps\<close>: the parser of \<^verbatim>\<open>sh.c\<close>, inverse to a printer of commands.
  \<^item> \<open>Example\<close>, \<open>VmExample\<close>, \<open>FsExample\<close>, \<open>ProcExample\<close>: concrete states, on which the hypotheses of the properties hold.

  \<^bold>\<open>Kinds of results.\<close> For each component: an invariant that its operations keep; what each operation does, errors included; a refinement to lists, queues or sets where the code
  implements one; and, for code with loops, that it returns. Several theorems show what the code does not do: an operation within its budget can fill the log
  (\<open>log_admission_off_by_one\<close>), \<^verbatim>\<open>allocuvm\<close> can return success without a mapping (\<open>allocuvm_unmapped\<close>), \<^verbatim>\<open>setpriority\<close> of a running process makes its next
  \<^verbatim>\<open>yield\<close> panic (\<open>setpriority_running_panics\<close>), \<^verbatim>\<open>argptr\<close> accepts negative sizes (\<open>argptr_negative_size\<close>), and \<^verbatim>\<open>malloc\<close> of a huge size wraps around
  (\<open>nunits_wraps\<close>).

  \<^bold>\<open>Loop bounds.\<close> A loop that does not recur on its data has a bound, and exceeding it is the outcome \<open>Diverge\<close>, so that every theorem that a function returns also says that the
  bound is enough. A walk along a state list has \<^verbatim>\<open>NPROC\<close> steps, along the buffer list or the disk queue \<^verbatim>\<open>NBUF\<close>, because an element is on the list at most once. The loops
  over page tables have \<open>2 ^ 20 + 1\<close> steps, one more than there are pages. The loops over a directory have \<open>2 ^ 28\<close>, the number of 16-byte entries of the largest
  32-bit size. The loops over a block or a file have the number of bytes or blocks left. The search of the user heap has as many steps as there are addresses. The parser has four
  levels per character of the line. The string loops of \<open>CString\<close>, \<open>Ulib\<close> and the loop of \<^verbatim>\<open>grep\<close> may run for ever and are partial functions; their
  theorems say on which inputs they return.

  \<^bold>\<open>Parameters.\<close> Addresses that the linker assigns, the contents of uninitialised variables, the registers of the clock, the status register of the disk and what the drive does with a
  command, the characters that devices deliver, and for user programs the system calls \<^verbatim>\<open>read\<close> and \<^verbatim>\<open>sbrk\<close>.

  \<^bold>\<open>Not modelled.\<close>
  \<^item> Assembly and boot code (\<^verbatim>\<open>bootasm.S\<close>, \<^verbatim>\<open>bootmain.c\<close>, \<^verbatim>\<open>entry.S\<close>, \<^verbatim>\<open>entryother.S\<close>, \<^verbatim>\<open>swtch.S\<close>, \<^verbatim>\<open>trapasm.S\<close>, \<^verbatim>\<open>initcode.S\<close>,
    \<^verbatim>\<open>usys.S\<close>) and \<^verbatim>\<open>main.c\<close>: machine code, and the order in which initialisation routines are called.
  \<^item> Interrupt controllers, timer and processor tables (\<^verbatim>\<open>lapic.c\<close> but for the clock, \<^verbatim>\<open>ioapic.c\<close>, \<^verbatim>\<open>picirq.c\<close>, \<^verbatim>\<open>mp.c\<close>, \<^verbatim>\<open>timer.c\<close>), segments
    (\<^verbatim>\<open>seginit\<close>) and the interrupt descriptor table (\<^verbatim>\<open>tvinit\<close>): writes to hardware that no code reads back.
  \<^item> True concurrency inside a critical section: locks are modelled, and a section under one lock is one step. Interleavings of sections are explicit sequences where a theorem needs
    them (the log, pipes, the disk driver, the scheduler).
  \<^item> \<^verbatim>\<open>runcmd\<close> and the main loops of the shell and of \<^verbatim>\<open>grep\<close>, the other user commands, and \<^verbatim>\<open>printf.c\<close>: sequences of system calls.
  \<^item> \<^verbatim>\<open>mkfs.c\<close>, which runs on the host; its layout is the concrete disk of \<open>FsExample\<close>. Test programs, backups of \<^verbatim>\<open>proc.c\<close>, and files the build does not use.
  \<^item> The operations of \<open>SysFile\<close>, \<open>Exec\<close>, \<open>Trap\<close> and the directory and path operations of \<open>Fs\<close> are modelled in full, but have no theorem of their own here.
\<close>

end
